(* ===== verification/Prelude.thy ===== *)
theory Prelude
  imports Main "HOL-Library.Word"
begin

text \<open>
  Shared vocabulary of the development: the machine types of the 32-bit target
  (\<open>uintptr_t\<close>, \<open>size_t\<close> and \<open>uint32_t\<close> are 32 bits wide on the 386), the
  kernel's error enumeration with the result type every fallible operation returns, the
  collections of rewrite rules the component theories fill, and the generic list lemmas
  used by more than one component.
\<close>

unbundle bit_operations_syntax

type_synonym u8 = "8 word"
type_synonym u16 = "16 word"
type_synonym u32 = "32 word"
type_synonym u64 = "64 word"

text \<open>
  \<open>KernelError\<close>: the enumeration of \<open>kerror.hpp\<close>, constructors in the source's
  order. An \<open>error_code\<close> return is a value of this type; \<open>Success\<close> is the code that
  tests false in the source.
\<close>

datatype (plugins only: code size) KernelError =
    Success | Unknown
  | InvalidArgument | InvalidSize | InvalidAlignment | InvalidOffset | OutOfRange
  | ArithmeticOverflow | NameTooLong | BufferTooSmall | InvalidFormat | TooManyArguments
  | InvalidAddress | OutOfMemory | AddressSpaceExhausted | ResourceLimitExceeded
  | QueueFull | ResourceConflict
  | InvalidHandle | WrongObjectType | NotFound | AlreadyExists | AccessDenied
  | AlreadyAttached | ParentMismatch
  | InvalidState | NotInitialized | NoCurrentThread | NoCurrentProcess | Unsupported
  | NotImplemented | DeviceNotReady | StandardStreamUnavailable | NotWaitable
  | Timeout | WouldBlock
  | IoError | DeviceError | UnexpectedEndOfFile | InvalidData | InvalidResource
  | NotDirectory | InvalidExecutable | UnresolvedSymbol | ProcessStartupFailed | Retry

text \<open>\<open>kstd::expected<T, error_code>\<close>: \<open>Inl\<close> carries the error.\<close>

type_synonym 'a expected = "KernelError + 'a"

text \<open>Rewrite rules for the operations of a component, and for its representation predicates.\<close>

named_theorems op_defs \<open>definitions of modelled operations\<close>
named_theorems repr_simps \<open>rules for representation predicates\<close>

subsection \<open>Lists\<close>

lemma filter_split_sorted_wrt:
  assumes "sorted_wrt R xs" and "\<And>a b. R a b \<Longrightarrow> P b \<Longrightarrow> P a"
  shows "xs = filter P xs @ filter (\<lambda>x. \<not> P x) xs"
  using assms
proof (induction xs)
  case Nil
  then show ?case by simp
next
  case (Cons x xs)
  show ?case
  proof (cases "P x")
    case True
    with Cons show ?thesis by simp
  next
    case False
    with Cons.prems have "\<forall>y\<in>set xs. \<not> P y" by auto
    then have "filter P xs = []" and "filter (\<lambda>x. \<not> P x) xs = xs"
      by (simp_all add: filter_empty_conv)
    with False show ?thesis by simp
  qed
qed

lemma distinct_hd_notin_tl: "distinct xs \<Longrightarrow> xs \<noteq> [] \<Longrightarrow> hd xs \<notin> set (tl xs)"
  by (cases xs) auto

lemma removeAll_filter_neq: "removeAll x xs = filter (\<lambda>y. y \<noteq> x) xs"
  by (induction xs) auto

lemma distinct_remove1_removeAll: "distinct xs \<Longrightarrow> remove1 x xs = removeAll x xs"
  by (induction xs) auto

end
