(* ===== verification/Avl_Tree.thy ===== *)
theory Avl_Tree
  imports Prelude
begin

text \<open>
  The intrusive AVL tree of \<open>Kernel/API/include/kernel/adt/avl_tree.hpp\<close>, on which the
  VAD trees of address spaces and the registry of slabs rest. A node carries its item,
  the cached height and its two children. The parent pointers of the source, which
  \<open>rebalance\<close> follows towards the root, are the list of contexts of a zipper: a
  location is a subtree with the chain of its ancestors, nearest first, which is what a
  node pointer denotes in the source. Operations take and return locations where the
  source takes and returns node pointers. Heights are \<open>int\<close> in the source and here;
  \<open>avl_height_bound\<close> below shows that they stay far below \<open>INT_MAX\<close>.
\<close>

datatype 'a avl =
    Null
  | AvlNode (left: "'a avl") (item: 'a) (height: int) (right: "'a avl")

datatype 'a ctx =
    CtxLeft 'a int "'a avl"   \<comment> \<open>the parent, when the hole is its left child\<close>
  | CtxRight "'a avl" 'a int  \<comment> \<open>the parent, when the hole is its right child\<close>

type_synonym 'a loc = "'a avl \<times> 'a ctx list"

fun plug :: "'a ctx \<Rightarrow> 'a avl \<Rightarrow> 'a avl" where
  "plug (CtxLeft y h r) t = AvlNode t y h r"
| "plug (CtxRight l y h) t = AvlNode l y h t"

subsection \<open>Heights, rotations and rebalancing\<close>

fun get_height :: "'a avl \<Rightarrow> int" where
  "get_height Null = 0"
| "get_height (AvlNode _ _ h _) = h"

fun update_height :: "'a avl \<Rightarrow> 'a avl" where
  "update_height Null = Null"
| "update_height (AvlNode l x _ r) =
     (let hl = get_height l; hr = get_height r
      in AvlNode l x ((if hl > hr then hl else hr) + 1) r)"

fun get_balance :: "'a avl \<Rightarrow> int" where
  "get_balance Null = 0"
| "get_balance (AvlNode l _ _ r) = get_height l - get_height r"

text \<open>
  The rotations dereference the child they raise; the other patterns are the source's null
  dereference and are never reached from \<open>rebalance\<close> (a node whose balance exceeds one
  on a side has a child there).
\<close>

fun rotate_right :: "'a avl \<Rightarrow> 'a avl" where
  "rotate_right (AvlNode (AvlNode a x hx T2) y hy b) =
     (let y' = update_height (AvlNode T2 y hy b)
      in update_height (AvlNode a x hx y'))"
| "rotate_right t = t"

fun rotate_left :: "'a avl \<Rightarrow> 'a avl" where
  "rotate_left (AvlNode a x hx (AvlNode T2 y hy b)) =
     (let x' = update_height (AvlNode a x hx T2)
      in update_height (AvlNode x' y hy b))"
| "rotate_left t = t"

text \<open>The body of the loop of \<open>rebalance\<close> at one node.\<close>

fun rebalance_step :: "'a avl \<Rightarrow> 'a avl" where
  "rebalance_step Null = Null"
| "rebalance_step (AvlNode l x h r) =
     (let node = update_height (AvlNode l x h r); balance = get_balance node in
      if balance > 1 then
        (let l' = (if get_balance l < 0 then rotate_left l else l)
         in rotate_right (AvlNode l' x (get_height node) r))
      else if balance < -1 then
        (let r' = (if get_balance r > 0 then rotate_right r else r)
         in rotate_left (AvlNode l x (get_height node) r'))
      else node)"

fun rebalance :: "'a avl \<Rightarrow> 'a ctx list \<Rightarrow> 'a avl" where
  "rebalance node [] = rebalance_step node"
| "rebalance node (c # cs) = rebalance (plug c (rebalance_step node)) cs"

text \<open>\<open>if (rebalance_start) rebalance(rebalance_start)\<close>: start at the parent of a hole.\<close>

definition rebalance_parent :: "'a avl \<Rightarrow> 'a ctx list \<Rightarrow> 'a avl" where
  "rebalance_parent t cs = (case cs of [] \<Rightarrow> t | c # cs' \<Rightarrow> rebalance (plug c t) cs')"

subsection \<open>Insertion, lookup and removal\<close>

text \<open>The descent of \<open>insert\<close>: the chain of ancestors of the null link reached.\<close>

fun insert_path :: "('a \<Rightarrow> 'a \<Rightarrow> bool) \<Rightarrow> 'a \<Rightarrow> 'a avl \<Rightarrow> 'a ctx list \<Rightarrow> 'a ctx list" where
  "insert_path lt x Null cs = cs"
| "insert_path lt x (AvlNode l y h r) cs =
     (if lt x y then insert_path lt x l (CtxLeft y h r # cs)
      else insert_path lt x r (CtxRight l y h # cs))"

definition AvlTree_insert :: "('a \<Rightarrow> 'a \<Rightarrow> bool) \<Rightarrow> 'a \<Rightarrow> 'a avl \<Rightarrow> 'a avl" where
  "AvlTree_insert lt x root =
     rebalance_parent (AvlNode Null x 1 Null) (insert_path lt x root [])"

fun find_loc :: "('a \<Rightarrow> bool) \<Rightarrow> ('a \<Rightarrow> bool) \<Rightarrow> 'a avl \<Rightarrow> 'a ctx list \<Rightarrow> 'a loc option" where
  "find_loc key_eq key_less Null cs = None"
| "find_loc key_eq key_less (AvlNode l y h r) cs =
     (if key_eq y then Some (AvlNode l y h r, cs)
      else if key_less y then find_loc key_eq key_less l (CtxLeft y h r # cs)
      else find_loc key_eq key_less r (CtxRight l y h # cs))"

definition AvlTree_find :: "('a \<Rightarrow> bool) \<Rightarrow> ('a \<Rightarrow> bool) \<Rightarrow> 'a avl \<Rightarrow> 'a loc option" where
  "AvlTree_find key_eq key_less root = find_loc key_eq key_less root []"

text \<open>\<open>find_min\<close>: the leftmost node of a subtree, as a location inside that subtree.\<close>

fun find_min :: "'a avl \<Rightarrow> 'a ctx list \<Rightarrow> 'a loc" where
  "find_min (AvlNode (AvlNode ll x hl lr) y h r) cs =
     find_min (AvlNode ll x hl lr) (CtxLeft y h r # cs)"
| "find_min t cs = (t, cs)"

text \<open>
  \<open>remove\<close> of the node at a location. With two children the in-order successor takes
  the node's place; when the successor is deeper than the node's right child, its own right
  subtree first takes its place, and rebalancing starts at the successor's old parent,
  otherwise at the successor itself.
\<close>

fun AvlTree_remove :: "'a loc \<Rightarrow> 'a avl" where
  "AvlTree_remove (Null, cs) = rebalance_parent Null cs"
| "AvlTree_remove (AvlNode l x h r, cs) =
     (if l = Null \<or> r = Null then
        rebalance_parent (if l \<noteq> Null then l else r) cs
      else
        (case find_min r [] of
           (successor, ms) \<Rightarrow>
             (case ms of
                [] \<Rightarrow>
                  rebalance (update_height
                    (AvlNode l (item successor) (height successor) (right successor))) cs
              | m # ms' \<Rightarrow>
                  (let top = update_height (AvlNode l (item successor) (height successor) r)
                   in rebalance (plug m (right successor))
                        (ms' @ CtxRight l (item successor) (get_height top) # cs)))))"

text \<open>\<open>each\<close> visits in order; \<open>clear\<close> visits children before their parent.\<close>

fun each_order :: "'a avl \<Rightarrow> 'a list" where
  "each_order Null = []"
| "each_order (AvlNode l x _ r) = each_order l @ x # each_order r"

fun clear_order :: "'a avl \<Rightarrow> 'a list" where
  "clear_order Null = []"
| "clear_order (AvlNode l x _ r) = clear_order l @ clear_order r @ [x]"

definition AvlTree_each :: "('a \<Rightarrow> 's \<Rightarrow> 's) \<Rightarrow> 'a avl \<Rightarrow> 's \<Rightarrow> 's" where
  "AvlTree_each callback root s = fold callback (each_order root) s"

definition AvlTree_clear :: "('a \<Rightarrow> 's \<Rightarrow> 's) \<Rightarrow> 'a avl \<Rightarrow> 's \<Rightarrow> 's \<times> 'a avl" where
  "AvlTree_clear callback root s = (fold callback (clear_order root) s, Null)"


subsection \<open>In-order content\<close>

fun path_before :: "'a ctx list \<Rightarrow> 'a list" where
  "path_before [] = []"
| "path_before (CtxLeft y h r # cs) = path_before cs"
| "path_before (CtxRight l y h # cs) = path_before cs @ each_order l @ [y]"

fun path_after :: "'a ctx list \<Rightarrow> 'a list" where
  "path_after [] = []"
| "path_after (CtxLeft y h r # cs) = y # each_order r @ path_after cs"
| "path_after (CtxRight l y h # cs) = path_after cs"

lemma path_before_append: "path_before (cs @ ds) = path_before ds @ path_before cs"
  by (induction cs rule: path_before.induct) auto

lemma path_after_append: "path_after (cs @ ds) = path_after cs @ path_after ds"
  by (induction cs rule: path_after.induct) auto

lemma each_order_update_height [simp]: "each_order (update_height t) = each_order t"
  by (cases t) (auto simp: Let_def)

lemma each_order_rotate_right [simp]: "each_order (rotate_right t) = each_order t"
  by (cases t rule: rotate_right.cases) (auto simp: Let_def)

lemma each_order_rotate_left [simp]: "each_order (rotate_left t) = each_order t"
  by (cases t rule: rotate_left.cases) (auto simp: Let_def)

lemma each_order_rebalance_step [simp]: "each_order (rebalance_step t) = each_order t"
  by (cases t) (auto simp: Let_def)

lemma each_order_rebalance:
  "each_order (rebalance t cs) = path_before cs @ each_order t @ path_after cs"
proof (induction t cs rule: rebalance.induct)
  case (1 t)
  then show ?case by simp
next
  case (2 t c cs)
  then show ?case by (cases c) auto
qed

lemma each_order_rebalance_parent:
  "each_order (rebalance_parent t cs) = path_before cs @ each_order t @ path_after cs"
proof (cases cs)
  case Nil
  then show ?thesis by (simp add: rebalance_parent_def)
next
  case (Cons c cs')
  then show ?thesis by (cases c) (auto simp: rebalance_parent_def each_order_rebalance)
qed

lemma path_insert_path:
  "path_before (insert_path lt x t cs) @ path_after (insert_path lt x t cs) =
   path_before cs @ each_order t @ path_after cs"
  by (induction lt x t cs rule: insert_path.induct) auto

lemma find_loc_content:
  "find_loc key_eq key_less t cs = Some (f, ds) \<Longrightarrow>
   f \<noteq> Null \<and> key_eq (item f) \<and>
   path_before ds @ each_order f @ path_after ds = path_before cs @ each_order t @ path_after cs"
  by (induction key_eq key_less t cs rule: find_loc.induct) (auto split: if_splits)

lemma find_min_content:
  "find_min t cs = (s, ms) \<Longrightarrow> t \<noteq> Null \<Longrightarrow>
   s \<noteq> Null \<and> left s = Null \<and>
   path_before ms @ each_order s @ path_after ms = path_before cs @ each_order t @ path_after cs"
  by (induction t cs rule: find_min.induct) auto

lemma find_min_path:
  "find_min t cs = (s, ms) \<Longrightarrow> \<exists>ks. ms = ks @ cs \<and> path_before ks = []"
proof (induction t cs rule: find_min.induct)
  case (1 ll x hl lr y h r cs)
  then obtain ks where "ms = ks @ CtxLeft y h r # cs" and "path_before ks = []" by auto
  then have "ms = (ks @ [CtxLeft y h r]) @ cs" and "path_before (ks @ [CtxLeft y h r]) = []"
    by (simp_all add: path_before_append)
  then show ?case by blast
qed auto

text \<open>Removing the node at a location removes exactly its item from the in-order content.\<close>

lemma each_order_remove:
  assumes "f \<noteq> Null"
  shows "each_order (AvlTree_remove (f, cs)) =
    path_before cs @ each_order (left f) @ each_order (right f) @ path_after cs"
proof (cases f)
  case Null
  with assms show ?thesis by simp
next
  case (AvlNode l x h r)
  show ?thesis
  proof (cases "l = Null \<or> r = Null")
    case True
    then show ?thesis
      using AvlNode by (auto simp: each_order_rebalance_parent)
  next
    case False
    obtain s ms where fm: "find_min r [] = (s, ms)" by (cases "find_min r []") auto
    from False find_min_content [OF fm] obtain sx sh sr
      where s: "s = AvlNode Null sx sh sr"
        and eo: "path_before ms @ (sx # each_order sr) @ path_after ms = each_order r"
      by (cases s) auto
    from find_min_path [OF fm] have "path_before ms = []" by auto
    with eo have r: "each_order r = sx # each_order sr @ path_after ms" by simp
    show ?thesis
    proof (cases ms)
      case Nil
      with False fm s r AvlNode show ?thesis by (simp add: each_order_rebalance Let_def)
    next
      case (Cons m ms')
      have "path_before ms' = []" and "each_order (plug m sr) @ path_after ms' = each_order sr @ path_after ms"
        using \<open>path_before ms = []\<close> Cons by (cases m; simp)+
      with False fm s r Cons AvlNode show ?thesis
        by (simp add: each_order_rebalance Let_def path_before_append path_after_append)
    qed
  qed
qed

subsection \<open>The balance invariant\<close>

text \<open>
  \<open>avl_ok\<close>: every cached height is the height of its subtree and the heights of siblings
  differ by at most one. \<open>path_ok h cs\<close> says the same of the ancestors of a hole whose
  subtree had height \<open>h\<close>.
\<close>

fun avl_ok :: "'a avl \<Rightarrow> bool" where
  "avl_ok Null = True"
| "avl_ok (AvlNode l x h r) =
     (avl_ok l \<and> avl_ok r \<and> h = max (get_height l) (get_height r) + 1 \<and>
      \<bar>get_height l - get_height r\<bar> \<le> 1)"

fun path_ok :: "int \<Rightarrow> 'a ctx list \<Rightarrow> bool" where
  "path_ok h [] = True"
| "path_ok h (CtxLeft y k r # cs) =
     (avl_ok r \<and> k = max h (get_height r) + 1 \<and> \<bar>h - get_height r\<bar> \<le> 1 \<and> path_ok k cs)"
| "path_ok h (CtxRight l y k # cs) =
     (avl_ok l \<and> k = max (get_height l) h + 1 \<and> \<bar>get_height l - h\<bar> \<le> 1 \<and> path_ok k cs)"

lemma avl_height_nonneg: "avl_ok t \<Longrightarrow> 0 \<le> get_height t"
  by (induction t) auto

lemma avl_height_pos: "avl_ok t \<Longrightarrow> t \<noteq> Null \<Longrightarrow> 0 < get_height t"
  by (cases t) (auto dest: avl_height_nonneg)

lemma get_height_pos_node: "0 < get_height t \<Longrightarrow> \<exists>l x h r. t = AvlNode l x h r"
  by (cases t) auto

text \<open>
  One step of the loop: from children that satisfy the invariant and differ by at most two,
  it gives a tree that satisfies it, as high as the taller child or one higher.
\<close>

lemma avl_rebalance_step_bal:
  assumes "avl_ok l" "avl_ok r" "\<bar>get_height l - get_height r\<bar> \<le> 1"
  shows "avl_ok (rebalance_step (AvlNode l x h r))"
    and "get_height (rebalance_step (AvlNode l x h r)) = max (get_height l) (get_height r) + 1"
  using assms by (auto simp: Let_def)

lemma avl_rebalance_step_left:
  assumes "avl_ok l" "avl_ok r" "get_height l = get_height r + 2"
  shows "avl_ok (rebalance_step (AvlNode l x h r)) \<and>
    get_height (rebalance_step (AvlNode l x h r)) \<in> {get_height r + 2, get_height r + 3}"
proof -
  have hr: "0 \<le> get_height r" using assms(2) by (rule avl_height_nonneg)
  then obtain a y k b where l: "l = AvlNode a y k b"
    using get_height_pos_node [of l] assms(3) by auto
  show ?thesis
  proof (cases "get_balance l < 0")
    case False
    with assms l show ?thesis by (auto simp: Let_def)
  next
    case True
    have ha: "0 \<le> get_height a" using assms(1) l by (auto dest: avl_height_nonneg)
    with True l obtain b1 z m b2 where "b = AvlNode b1 z m b2"
      using get_height_pos_node [of b] by auto
    with assms l True ha show ?thesis by (auto simp: Let_def)
  qed
qed

lemma avl_rebalance_step_right:
  assumes "avl_ok l" "avl_ok r" "get_height r = get_height l + 2"
  shows "avl_ok (rebalance_step (AvlNode l x h r)) \<and>
    get_height (rebalance_step (AvlNode l x h r)) \<in> {get_height l + 2, get_height l + 3}"
proof -
  have hl: "0 \<le> get_height l" using assms(1) by (rule avl_height_nonneg)
  then obtain a y k b where r: "r = AvlNode a y k b"
    using get_height_pos_node [of r] assms(3) by auto
  show ?thesis
  proof (cases "get_balance r > 0")
    case False
    with assms r show ?thesis by (auto simp: Let_def)
  next
    case True
    have hb: "0 \<le> get_height b" using assms(2) r by (auto dest: avl_height_nonneg)
    with True r obtain a1 z m a2 where "a = AvlNode a1 z m a2"
      using get_height_pos_node [of a] by auto
    with assms r True hb show ?thesis by (auto simp: Let_def)
  qed
qed

lemma avl_rebalance_step:
  assumes "avl_ok l" "avl_ok r" "\<bar>get_height l - get_height r\<bar> \<le> 2"
    and t: "t = rebalance_step (AvlNode l x h r)"
  shows "avl_ok t"
    and "max (get_height l) (get_height r) \<le> get_height t"
    and "get_height t \<le> max (get_height l) (get_height r) + 1"
    and "\<bar>get_height l - get_height r\<bar> \<le> 1 \<Longrightarrow> get_height t = max (get_height l) (get_height r) + 1"
proof -
  consider "\<bar>get_height l - get_height r\<bar> \<le> 1" | "get_height l = get_height r + 2"
    | "get_height r = get_height l + 2"
    using assms(3) by linarith
  then have "avl_ok t \<and> max (get_height l) (get_height r) \<le> get_height t \<and>
      get_height t \<le> max (get_height l) (get_height r) + 1 \<and>
      (\<bar>get_height l - get_height r\<bar> \<le> 1 \<longrightarrow> get_height t = max (get_height l) (get_height r) + 1)"
  proof cases
    case 1
    from avl_rebalance_step_bal [OF assms(1,2) 1, of x h] t show ?thesis by simp
  next
    case 2
    from avl_rebalance_step_left [OF assms(1,2) 2, of x h] 2 t show ?thesis by auto
  next
    case 3
    from avl_rebalance_step_right [OF assms(1,2) 3, of x h] 3 t show ?thesis by auto
  qed
  then show "avl_ok t" and "max (get_height l) (get_height r) \<le> get_height t"
    and "get_height t \<le> max (get_height l) (get_height r) + 1"
    and "\<bar>get_height l - get_height r\<bar> \<le> 1 \<Longrightarrow> get_height t = max (get_height l) (get_height r) + 1"
    by simp_all
qed

text \<open>
  The change of a hole's subtree by at most one level is a change of its parent by at most
  one level, once the parent has been rebalanced.
\<close>

lemma path_ok_step:
  assumes "path_ok h (c # cs)" "avl_ok t" "\<bar>get_height t - h\<bar> \<le> 1"
  obtains m where "avl_ok (rebalance_step (plug c t))"
    "\<bar>get_height (rebalance_step (plug c t)) - m\<bar> \<le> 1" "path_ok m cs"
proof (cases c)
  case (CtxLeft y m s)
  with assms have s: "avl_ok s" "m = max h (get_height s) + 1"
    "\<bar>h - get_height s\<bar> \<le> 1" "path_ok m cs" by auto
  have d: "\<bar>get_height t - get_height s\<bar> \<le> 2" using s assms(3) by linarith
  note facts = avl_rebalance_step [OF assms(2) s(1) d refl, of y m]
  have "\<bar>get_height (rebalance_step (AvlNode t y m s)) - m\<bar> \<le> 1"
    using facts(2-4) s(2,3) assms(3) by linarith
  with facts(1) s(4) CtxLeft show ?thesis by (auto intro: that)
next
  case (CtxRight s y m)
  with assms have s: "avl_ok s" "m = max (get_height s) h + 1"
    "\<bar>get_height s - h\<bar> \<le> 1" "path_ok m cs" by auto
  have d: "\<bar>get_height s - get_height t\<bar> \<le> 2" using s assms(3) by linarith
  note facts = avl_rebalance_step [OF s(1) assms(2) d refl, of y m]
  have "\<bar>get_height (rebalance_step (AvlNode s y m t)) - m\<bar> \<le> 1"
    using facts(2-4) s(2,3) assms(3) by linarith
  with facts(1) s(4) CtxRight show ?thesis by (auto intro: that)
qed

text \<open>
  Rebalancing upwards restores the invariant of the whole tree after the subtree in the hole
  changed its height by at most one.
\<close>

lemma avl_rebalance:
  "avl_ok (rebalance_step t) \<Longrightarrow> \<bar>get_height (rebalance_step t) - h\<bar> \<le> 1 \<Longrightarrow> path_ok h cs \<Longrightarrow>
   avl_ok (rebalance t cs)"
proof (induction t cs arbitrary: h rule: rebalance.induct)
  case (1 t)
  then show ?case by simp
next
  case (2 t c cs)
  from path_ok_step [OF 2(4,2,3)] obtain m
    where "avl_ok (rebalance_step (plug c (rebalance_step t)))"
      "\<bar>get_height (rebalance_step (plug c (rebalance_step t))) - m\<bar> \<le> 1" "path_ok m cs" .
  from "2.IH" [OF this] show ?case by simp
qed

lemma avl_rebalance_parent:
  assumes "avl_ok t" "\<bar>get_height t - h\<bar> \<le> 1" "path_ok h cs"
  shows "avl_ok (rebalance_parent t cs)"
proof (cases cs)
  case Nil
  with assms show ?thesis by (simp add: rebalance_parent_def)
next
  case (Cons c cs')
  from path_ok_step [OF assms(3) [unfolded Cons] assms(1,2)] obtain m
    where "avl_ok (rebalance_step (plug c t))"
      "\<bar>get_height (rebalance_step (plug c t)) - m\<bar> \<le> 1" "path_ok m cs'" .
  from avl_rebalance [OF this] Cons show ?thesis by (simp add: rebalance_parent_def)
qed

lemma path_ok_insert_path:
  "avl_ok t \<Longrightarrow> path_ok (get_height t) cs \<Longrightarrow> path_ok 0 (insert_path lt x t cs)"
  by (induction lt x t cs rule: insert_path.induct) auto

lemma avl_find_loc:
  "avl_ok t \<Longrightarrow> path_ok (get_height t) cs \<Longrightarrow> find_loc key_eq key_less t cs = Some (f, ds) \<Longrightarrow>
   avl_ok f \<and> path_ok (get_height f) ds"
  by (induction key_eq key_less t cs rule: find_loc.induct) (auto split: if_splits)

lemma avl_find_min:
  "avl_ok t \<Longrightarrow> path_ok (get_height t) cs \<Longrightarrow> find_min t cs = (s, ms) \<Longrightarrow>
   avl_ok s \<and> path_ok (get_height s) ms"
  by (induction t cs rule: find_min.induct) auto

lemma avl_insert_ok: "avl_ok t \<Longrightarrow> avl_ok (AvlTree_insert lt x t)"
  unfolding AvlTree_insert_def
  by (rule avl_rebalance_parent [where h = 0]) (auto simp: path_ok_insert_path)


lemma rebalance_step_cong: "rebalance_step (AvlNode l x h r) = rebalance_step (AvlNode l x h' r)"
  by (simp add: Let_def)

lemma rebalance_cong: "rebalance (AvlNode l x h r) cs = rebalance (AvlNode l x h' r) cs"
  by (cases cs) (simp_all only: rebalance.simps rebalance_step_cong [of l x h r h'])

lemma find_min_ctx: "find_min t (cs @ ds) = (fst (find_min t cs), snd (find_min t cs) @ ds)"
  by (induction t cs rule: find_min.induct) auto

text \<open>With two children, \<open>remove\<close> is one upward pass from the successor's old place.\<close>

lemma AvlTree_remove_two_children:
  assumes "l \<noteq> Null" "r \<noteq> Null" "avl_ok (AvlNode l x h r)" "find_min r [] = (s, ms)"
  shows "AvlTree_remove (AvlNode l x h r, cs) =
    rebalance_parent (right s) (ms @ CtxRight l (item s) h # cs)"
proof (cases ms)
  case Nil
  with assms show ?thesis
    by (auto simp: rebalance_parent_def Let_def intro: rebalance_cong)
next
  case (Cons m ms')
  with assms show ?thesis
    by (simp add: rebalance_parent_def Let_def max_def)
qed

declare AvlTree_remove.simps [simp del]

lemma AvlTree_remove_leaf_child:
  "l = Null \<or> r = Null \<Longrightarrow>
   AvlTree_remove (AvlNode l x h r, cs) = rebalance_parent (if l \<noteq> Null then l else r) cs"
  by (simp add: AvlTree_remove.simps)

lemma avl_remove_ok:
  assumes "avl_ok f" "path_ok (get_height f) cs" "f \<noteq> Null"
  shows "avl_ok (AvlTree_remove (f, cs))"
proof -
  from assms(3) obtain l x h r where f: "f = AvlNode l x h r" by (cases f) auto
  show ?thesis
  proof (cases "l = Null \<or> r = Null")
    case True
    with assms f show ?thesis
      by (auto simp: AvlTree_remove_leaf_child intro!: avl_rebalance_parent [where h = h] dest: avl_height_nonneg)
  next
    case False
    obtain s ms where fm: "find_min r [] = (s, ms)" by (cases "find_min r []") auto
    from False find_min_content [OF fm] obtain sx sh sr where s: "s = AvlNode Null sx sh sr"
      by (cases s) auto
    have "find_min r (CtxRight l sx h # cs) = (s, ms @ CtxRight l sx h # cs)"
      using fm find_min_ctx [of r "[]"] by simp
    from avl_find_min [OF _ _ this] assms f
    have "avl_ok s" "path_ok (get_height s) (ms @ CtxRight l sx h # cs)" by auto
    moreover from this s have "avl_ok sr" "\<bar>get_height sr - get_height s\<bar> \<le> 1"
      by (auto dest: avl_height_nonneg)
    ultimately have "avl_ok (rebalance_parent sr (ms @ CtxRight l sx h # cs))"
      by (intro avl_rebalance_parent)
    with AvlTree_remove_two_children [OF _ _ _ fm, of l x h cs] False assms f s show ?thesis
      by simp
  qed
qed

text \<open>A tree that satisfies the invariant is exponentially larger than its height.\<close>

lemma avl_height_bound:
  "avl_ok t \<Longrightarrow> 2 ^ (nat (get_height t) div 2) \<le> length (each_order t) + 1"
proof (induction t)
  case Null
  then show ?case by simp
next
  case (AvlNode l x h r)
  have nn: "0 \<le> get_height l" "0 \<le> get_height r"
    using AvlNode.prems by (auto dest: avl_height_nonneg)
  define m where "m = nat (h - 2) div 2"
  show ?case
  proof (cases "h \<ge> 2")
    case True
    with AvlNode.prems have "h - 2 \<le> get_height l" "h - 2 \<le> get_height r" by auto
    with nn True have "m \<le> nat (get_height l) div 2" "m \<le> nat (get_height r) div 2"
      unfolding m_def by (auto intro!: div_le_mono)
    then have "(2::nat) ^ m \<le> 2 ^ (nat (get_height l) div 2)" "(2::nat) ^ m \<le> 2 ^ (nat (get_height r) div 2)"
      by simp_all
    moreover have "2 ^ (nat (get_height l) div 2) \<le> length (each_order l) + 1"
      "2 ^ (nat (get_height r) div 2) \<le> length (each_order r) + 1"
      using AvlNode by simp_all
    ultimately have "2 ^ m \<le> length (each_order l) + 1" "2 ^ m \<le> length (each_order r) + 1"
      by linarith+
    have "nat h = nat (h - 2) + 2" using True by linarith
    then have "nat h div 2 = Suc m" unfolding m_def by simp
    with \<open>2 ^ m \<le> length (each_order l) + 1\<close> \<open>2 ^ m \<le> length (each_order r) + 1\<close>
    show ?thesis by simp
  next
    case False
    with AvlNode.prems nn have "nat h div 2 = 0" by auto
    then show ?thesis by simp
  qed
qed

subsection \<open>Ordered trees\<close>

text \<open>
  The client supplies \<open>operator<\<close> on items, a strict weak order. The tree is ordered
  when its in-order content never decreases; equal items are inserted after the ones present.
\<close>

definition ordered :: "('a \<Rightarrow> 'a \<Rightarrow> bool) \<Rightarrow> 'a avl \<Rightarrow> bool" where
  "ordered lt t = sorted_wrt (\<lambda>a b. \<not> lt b a) (each_order t)"

locale item_order =
  fixes lt :: "'a \<Rightarrow> 'a \<Rightarrow> bool"
  assumes lt_asym: "lt a b \<Longrightarrow> \<not> lt b a"
    and lt_neg_trans: "\<not> lt a b \<Longrightarrow> \<not> lt b c \<Longrightarrow> \<not> lt a c"
begin

lemma insert_path_split:
  "ordered lt t \<Longrightarrow> \<forall>y\<in>set (path_before cs). \<not> lt x y \<Longrightarrow> \<forall>y\<in>set (path_after cs). lt x y \<Longrightarrow>
   (\<forall>y\<in>set (path_before (insert_path lt x t cs)). \<not> lt x y) \<and>
   (\<forall>y\<in>set (path_after (insert_path lt x t cs)). lt x y)"
proof (induction t arbitrary: cs)
  case Null
  then show ?case by simp
next
  case (AvlNode l y h r)
  from AvlNode.prems(1) have sub: "ordered lt l" "ordered lt r"
    and ly: "\<forall>z\<in>set (each_order l). \<not> lt y z" and yr: "\<forall>z\<in>set (each_order r). \<not> lt z y"
    by (auto simp: ordered_def sorted_wrt_append)
  show ?case
  proof (cases "lt x y")
    case True
    then have "\<forall>z\<in>set (path_after (CtxLeft y h r # cs)). lt x z"
      using yr lt_neg_trans AvlNode.prems(3) by auto
    from AvlNode.IH(1) [OF sub(1) _ this] AvlNode.prems(2)
    have "(\<forall>z\<in>set (path_before (insert_path lt x l (CtxLeft y h r # cs))). \<not> lt x z) \<and>
        (\<forall>z\<in>set (path_after (insert_path lt x l (CtxLeft y h r # cs))). lt x z)"
      unfolding path_before.simps .
    then show ?thesis unfolding insert_path.simps if_P [OF True] .
  next
    case False
    then have "\<forall>z\<in>set (path_before (CtxRight l y h # cs)). \<not> lt x z"
      using ly lt_neg_trans AvlNode.prems(2) by auto
    from AvlNode.IH(2) [OF sub(2) this] AvlNode.prems(3)
    have "(\<forall>z\<in>set (path_before (insert_path lt x r (CtxRight l y h # cs))). \<not> lt x z) \<and>
        (\<forall>z\<in>set (path_after (insert_path lt x r (CtxRight l y h # cs))). lt x z)"
      unfolding path_after.simps .
    then show ?thesis unfolding insert_path.simps if_not_P [OF False] .
  qed
qed

lemma each_order_insert:
  assumes "ordered lt t"
  shows "each_order (AvlTree_insert lt x t) =
    filter (\<lambda>y. \<not> lt x y) (each_order t) @ x # filter (lt x) (each_order t)"
proof -
  let ?b = "path_before (insert_path lt x t [])" and ?a = "path_after (insert_path lt x t [])"
  have split: "each_order t = ?b @ ?a" using path_insert_path [of lt x t "[]"] by simp
  have "\<forall>y\<in>set ?b. \<not> lt x y" "\<forall>y\<in>set ?a. lt x y"
    using insert_path_split [OF assms, of "[]" x] by auto
  then have "filter (\<lambda>y. \<not> lt x y) (?b @ ?a) = ?b" "filter (lt x) (?b @ ?a) = ?a"
    by (simp_all add: filter_empty_conv)
  then show ?thesis by (simp add: AvlTree_insert_def each_order_rebalance_parent split)
qed

lemma ordered_insert:
  assumes "ordered lt t"
  shows "ordered lt (AvlTree_insert lt x t)"
proof -
  let ?lo = "filter (\<lambda>y. \<not> lt x y) (each_order t)" and ?hi = "filter (lt x) (each_order t)"
  have "sorted_wrt (\<lambda>a b. \<not> lt b a) ?lo" "sorted_wrt (\<lambda>a b. \<not> lt b a) ?hi"
    using assms by (simp_all add: ordered_def sorted_wrt_filter)
  moreover have "\<forall>a\<in>set ?lo. \<forall>b\<in>set ?hi. \<not> lt b a"
  proof (intro ballI)
    fix a b
    assume "a \<in> set ?lo" "b \<in> set ?hi"
    then have "\<not> lt x a" "lt x b" by simp_all
    from lt_neg_trans [OF lt_asym [OF this(2)] this(1)] show "\<not> lt b a" .
  qed
  moreover have "\<forall>a\<in>set ?lo. \<not> lt x a" "\<forall>b\<in>set ?hi. \<not> lt b x"
    using lt_asym by auto
  ultimately show ?thesis
    unfolding ordered_def each_order_insert [OF assms] sorted_wrt_append sorted_wrt.simps list.set
    by blast
qed

lemma ordered_remove:
  assumes "AvlTree_find key_eq key_less t = Some (f, cs)" "ordered lt t"
  shows "ordered lt (AvlTree_remove (f, cs))"
proof -
  from find_loc_content [OF assms(1) [unfolded AvlTree_find_def]] obtain l x h r
    where f: "f = AvlNode l x h r"
      and eo: "path_before cs @ (each_order l @ x # each_order r) @ path_after cs = each_order t"
    by (cases f) auto
  from assms(2) show ?thesis
    by (auto simp: ordered_def each_order_remove f sorted_wrt_append eo [symmetric])
qed

end

text \<open>
  Lookup by an address in a tree of ranges: \<open>operator==\<close> between a key and an item tests
  containment. \<open>before\<close> is the order of disjoint ranges; the laws say what the two key
  comparisons of the client must promise for the search to be complete.
\<close>

locale range_lookup =
  fixes key_eq :: "'k \<Rightarrow> 'a \<Rightarrow> bool"
    and key_less :: "'k \<Rightarrow> 'a \<Rightarrow> bool"
    and before :: "'a \<Rightarrow> 'a \<Rightarrow> bool"
  assumes key_less_before: "before a b \<Longrightarrow> key_less k a \<Longrightarrow> \<not> key_eq k b"
    and key_geq_before: "before a b \<Longrightarrow> \<not> key_less k b \<Longrightarrow> \<not> key_eq k a"
    and key_less_self: "key_less k a \<Longrightarrow> \<not> key_eq k a"
begin

lemma find_loc_complete:
  "sorted_wrt before (each_order t) \<Longrightarrow> y \<in> set (each_order t) \<Longrightarrow> key_eq k y \<Longrightarrow>
   \<exists>f ds. find_loc (key_eq k) (key_less k) t cs = Some (f, ds) \<and> item f = y"
proof (induction t arbitrary: cs)
  case Null
  then show ?case by simp
next
  case (AvlNode l z h r)
  then have sub: "sorted_wrt before (each_order l)" "sorted_wrt before (each_order r)"
    and lz: "\<forall>a\<in>set (each_order l). before a z" and zr: "\<forall>b\<in>set (each_order r). before z b"
    by (auto simp: sorted_wrt_append)
  consider "y = z" | "y \<in> set (each_order l)" | "y \<in> set (each_order r)"
    using AvlNode.prems(2) by auto
  then show ?case
  proof cases
    case 1
    with AvlNode.prems show ?thesis by simp
  next
    case 2
    with lz AvlNode.prems(3) have "key_less k z" using key_geq_before by blast
    with key_less_self AvlNode.IH(1) [OF sub(1) 2 AvlNode.prems(3)] show ?thesis by simp
  next
    case 3
    with zr AvlNode.prems(3) have "\<not> key_less k z" using key_less_before by blast
    moreover have "\<not> key_eq k z"
      using zr 3 AvlNode.prems(3) key_geq_before key_less_before by (metis key_less_self)
    ultimately show ?thesis using AvlNode.IH(2) [OF sub(2) 3 AvlNode.prems(3)] by simp
  qed
qed

end

end
