(* ===== verification/Double_List.thy ===== *)
theory Double_List
  imports Prelude
begin

text \<open>
  The intrusive doubly linked list of \<open>Kernel/API/include/kernel/common/DoubleList.hpp\<close>.
  The list owns a head pointer, a tail pointer and a counter; the links live in the items
  themselves. Pointers are values of a type variable, null is \<open>None\<close>, and the \<open>prev\<close>
  and \<open>next\<close> members of all items form a store that several lists share, so that every
  assignment of the source is one store update. \<open>dl_repr\<close> relates store and list to the
  sequence of items; each operation is shown to act on that sequence as a list operation.
\<close>

record 'p links =
  lprev :: "'p \<Rightarrow> 'p option"
  lnext :: "'p \<Rightarrow> 'p option"

record 'p dlist =
  head :: "'p option"
  tail :: "'p option"
  count :: u32

type_synonym 'p dl_state = "'p links \<times> 'p dlist"

definition set_prev :: "'p \<Rightarrow> 'p option \<Rightarrow> 'p links \<Rightarrow> 'p links" where
  "set_prev x v s = s\<lparr>lprev := (lprev s)(x := v)\<rparr>"

definition set_next :: "'p \<Rightarrow> 'p option \<Rightarrow> 'p links \<Rightarrow> 'p links" where
  "set_next x v s = s\<lparr>lnext := (lnext s)(x := v)\<rparr>"

subsection \<open>Operations\<close>

definition DoubleList_new :: "'p dlist" where
  "DoubleList_new = \<lparr>head = None, tail = None, count = 0\<rparr>"

definition DoubleList_empty :: "'p dl_state \<Rightarrow> bool" where
  "DoubleList_empty st = (head (snd st) = None)"

definition DoubleList_front :: "'p dl_state \<Rightarrow> 'p option" where
  "DoubleList_front st = head (snd st)"

fun DoubleList_push_back :: "'p \<Rightarrow> 'p dl_state \<Rightarrow> 'p dl_state" where
  "DoubleList_push_back x (s, l) =
     (let s1 = set_next x None (set_prev x (tail l) s);
          (s2, l1) = (case tail l of
              Some t \<Rightarrow> (set_next t (Some x) s1, l)
            | None \<Rightarrow> (s1, l\<lparr>head := Some x\<rparr>))
      in (s2, l1\<lparr>tail := Some x, count := count l1 + 1\<rparr>))"

fun DoubleList_push_front :: "'p \<Rightarrow> 'p dl_state \<Rightarrow> 'p dl_state" where
  "DoubleList_push_front x (s, l) =
     (let s1 = set_next x (head l) (set_prev x None s);
          (s2, l1) = (case head l of
              Some h \<Rightarrow> (set_prev h (Some x) s1, l)
            | None \<Rightarrow> (s1, l\<lparr>tail := Some x\<rparr>))
      in (s2, l1\<lparr>head := Some x, count := count l1 + 1\<rparr>))"

fun DoubleList_pop_back :: "'p dl_state \<Rightarrow> 'p dl_state" where
  "DoubleList_pop_back (s, l) =
     (case tail l of
        None \<Rightarrow> (s, l)
      | Some old_tail \<Rightarrow>
          (let l1 = l\<lparr>tail := lprev s old_tail\<rparr>;
               (s1, l2) = (case tail l1 of
                   Some t \<Rightarrow> (set_next t None s, l1)
                 | None \<Rightarrow> (s, l1\<lparr>head := None\<rparr>))
           in (set_prev old_tail None (set_next old_tail None s1), l2\<lparr>count := count l2 - 1\<rparr>)))"

fun DoubleList_pop_front :: "'p dl_state \<Rightarrow> 'p dl_state" where
  "DoubleList_pop_front (s, l) =
     (case head l of
        None \<Rightarrow> (s, l)
      | Some old_head \<Rightarrow>
          (let l1 = l\<lparr>head := lnext s old_head\<rparr>;
               (s1, l2) = (case head l1 of
                   Some h \<Rightarrow> (set_prev h None s, l1)
                 | None \<Rightarrow> (s, l1\<lparr>tail := None\<rparr>))
           in (set_prev old_head None (set_next old_head None s1), l2\<lparr>count := count l2 - 1\<rparr>)))"

text \<open>\<open>insert(pos, item)\<close>: an iterator is a node pointer, \<open>end()\<close> is null.\<close>

fun DoubleList_insert :: "'p option \<Rightarrow> 'p \<Rightarrow> 'p dl_state \<Rightarrow> 'p dl_state" where
  "DoubleList_insert pos x (s, l) =
     (case pos of
        None \<Rightarrow> DoubleList_push_back x (s, l)
      | Some next_node \<Rightarrow>
          if pos = head l then DoubleList_push_front x (s, l)
          else
            (let prev_node = lprev s next_node;
                 s1 = set_next x (Some next_node) (set_prev x prev_node s);
                 s2 = (case prev_node of Some p \<Rightarrow> set_next p (Some x) s1 | None \<Rightarrow> s1)
             in (set_prev next_node (Some x) s2, l\<lparr>count := count l + 1\<rparr>)))"

text \<open>\<open>remove(item)\<close> of a non-null item re-reads the item's links after each store;
  \<open>erase(pos)\<close> reads them once and returns the following node.\<close>

fun DoubleList_remove :: "'p \<Rightarrow> 'p dl_state \<Rightarrow> 'p dl_state" where
  "DoubleList_remove x (s, l) =
     (let (s1, l1) = (case lprev s x of
              Some p \<Rightarrow> (set_next p (lnext s x) s, l)
            | None \<Rightarrow> (s, l\<lparr>head := lnext s x\<rparr>));
          (s2, l2) = (case lnext s1 x of
              Some n \<Rightarrow> (set_prev n (lprev s1 x) s1, l1)
            | None \<Rightarrow> (s1, l1\<lparr>tail := lprev s1 x\<rparr>))
      in (set_prev x None (set_next x None s2), l2\<lparr>count := count l2 - 1\<rparr>))"

fun DoubleList_erase :: "'p option \<Rightarrow> 'p dl_state \<Rightarrow> 'p dl_state \<times> 'p option" where
  "DoubleList_erase None (s, l) = ((s, l), None)"
| "DoubleList_erase (Some x) (s, l) =
     (let next_node = lnext s x; prev_node = lprev s x;
          (s1, l1) = (case prev_node of
              Some p \<Rightarrow> (set_next p next_node s, l)
            | None \<Rightarrow> (s, l\<lparr>head := next_node\<rparr>));
          (s2, l2) = (case next_node of
              Some n \<Rightarrow> (set_prev n prev_node s1, l1)
            | None \<Rightarrow> (s1, l1\<lparr>tail := prev_node\<rparr>))
      in ((set_prev x None (set_next x None s2), l2\<lparr>count := count l2 - 1\<rparr>), next_node))"

text \<open>The loops of \<open>clear\<close> and \<open>find\<close>; \<open>None\<close> is a walk that does not end.\<close>

partial_function (option) DoubleList_clear :: "'p dl_state \<Rightarrow> 'p dl_state option" where
  "DoubleList_clear st =
     (if DoubleList_empty st then Some st else DoubleList_clear (DoubleList_pop_front st))"

partial_function (option) find_from :: "('p \<Rightarrow> bool) \<Rightarrow> 'p links \<Rightarrow> 'p option \<Rightarrow> 'p option option" where
  "find_from match s cur =
     (case cur of
        None \<Rightarrow> Some None
      | Some x \<Rightarrow> if match x then Some (Some x) else find_from match s (lnext s x))"

definition DoubleList_find :: "('p \<Rightarrow> bool) \<Rightarrow> 'p dl_state \<Rightarrow> 'p option option" where
  "DoubleList_find match st = find_from match (fst st) (head (snd st))"

subsection \<open>The represented sequence\<close>

fun first_ptr :: "'p list \<Rightarrow> 'p option \<Rightarrow> 'p option" where
  "first_ptr [] n = n"
| "first_ptr (x # xs) n = Some x"

fun last_ptr :: "'p list \<Rightarrow> 'p option \<Rightarrow> 'p option" where
  "last_ptr [] p = p"
| "last_ptr (x # xs) p = last_ptr xs (Some x)"

fun linked :: "'p links \<Rightarrow> 'p option \<Rightarrow> 'p list \<Rightarrow> 'p option \<Rightarrow> bool" where
  "linked s p [] n = True"
| "linked s p (x # xs) n = (lprev s x = p \<and> lnext s x = first_ptr xs n \<and> linked s (Some x) xs n)"

definition dl_repr :: "'p dl_state \<Rightarrow> 'p list \<Rightarrow> bool" where
  "dl_repr st xs = (case st of (s, l) \<Rightarrow>
     distinct xs \<and> linked s None xs None \<and> head l = first_ptr xs None \<and>
     tail l = last_ptr xs None \<and> count l = of_nat (length xs))"

lemma links_upd_simps [simp]:
  "lprev (set_prev x v s) = (lprev s)(x := v)" "lnext (set_prev x v s) = lnext s"
  "lnext (set_next x v s) = (lnext s)(x := v)" "lprev (set_next x v s) = lprev s"
  by (simp_all add: set_prev_def set_next_def)

lemma first_ptr_append [simp]: "first_ptr (xs @ ys) n = first_ptr xs (first_ptr ys n)"
  by (cases xs) auto

lemma last_ptr_append [simp]: "last_ptr (xs @ ys) p = last_ptr ys (last_ptr xs p)"
  by (induction xs arbitrary: p) auto

lemma first_ptr_None: "(first_ptr xs None = None) = (xs = [])"
  by (cases xs) auto

lemma last_ptr_Some: "xs \<noteq> [] \<Longrightarrow> last_ptr xs p = Some (last xs)"
  by (induction xs arbitrary: p) auto

lemma last_ptr_None: "(last_ptr xs None = None) = (xs = [])"
  using last_ptr_Some [of xs None] by (cases xs) auto

lemma linked_append:
  "linked s p (xs @ ys) n = (linked s p xs (first_ptr ys n) \<and> linked s (last_ptr xs p) ys n)"
  by (induction xs arbitrary: p) auto

lemma linked_frame:
  "(\<forall>x\<in>set xs. lprev s' x = lprev s x \<and> lnext s' x = lnext s x) \<Longrightarrow> linked s' p xs n = linked s p xs n"
  by (induction xs arbitrary: p) auto

lemma linked_set_prev_notin [simp]: "y \<notin> set xs \<Longrightarrow> linked (set_prev y v s) p xs n = linked s p xs n"
  by (rule linked_frame) auto

lemma linked_set_next_notin [simp]: "y \<notin> set xs \<Longrightarrow> linked (set_next y v s) p xs n = linked s p xs n"
  by (rule linked_frame) auto

text \<open>Redirecting the outward link of the last, respectively the first, item.\<close>

lemma linked_set_last:
  assumes "linked s p (xs @ [a]) n" "distinct (xs @ [a])"
  shows "linked (set_next a n' s) p (xs @ [a]) n'"
  using assms by (simp add: linked_append)

lemma linked_set_first:
  assumes "linked s p (b # xs) n" "distinct (b # xs)"
  shows "linked (set_prev b p' s) p' (b # xs) n"
  using assms by simp

subsection \<open>Every operation acts on the sequence\<close>

lemma dl_repr_new: "dl_repr (s, DoubleList_new) []"
  by (simp add: dl_repr_def DoubleList_new_def)

lemma dl_repr_empty: "dl_repr st xs \<Longrightarrow> DoubleList_empty st = (xs = [])"
  by (cases st) (auto simp: dl_repr_def DoubleList_empty_def first_ptr_None)

lemma dl_repr_front: "dl_repr st xs \<Longrightarrow> DoubleList_front st = first_ptr xs None"
  by (cases st) (auto simp: dl_repr_def DoubleList_front_def)

lemma dl_repr_push_back:
  assumes "dl_repr st xs" "x \<notin> set xs"
  shows "dl_repr (DoubleList_push_back x st) (xs @ [x])"
proof -
  obtain s l where st: "st = (s, l)" by (cases st)
  show ?thesis
    using assms st by (cases xs rule: rev_cases) (auto simp: dl_repr_def linked_append)
qed

lemma dl_repr_push_front:
  assumes "dl_repr st xs" "x \<notin> set xs"
  shows "dl_repr (DoubleList_push_front x st) (x # xs)"
proof -
  obtain s l where st: "st = (s, l)" by (cases st)
  show ?thesis
    using assms st by (cases xs) (auto simp: dl_repr_def)
qed

lemma dl_repr_pop_back:
  assumes "dl_repr st xs"
  shows "dl_repr (DoubleList_pop_back st) (butlast xs)"
proof -
  obtain s l where st: "st = (s, l)" by (cases st)
  show ?thesis
  proof (cases xs rule: rev_cases)
    case Nil
    with assms st show ?thesis by (auto simp: dl_repr_def)
  next
    case (snoc ys y)
    then show ?thesis
      using assms st by (cases ys rule: rev_cases) (auto simp: dl_repr_def linked_append Let_def butlast_append)
  qed
qed

lemma dl_repr_pop_front:
  assumes "dl_repr st xs"
  shows "dl_repr (DoubleList_pop_front st) (tl xs)"
proof -
  obtain s l where st: "st = (s, l)" by (cases st)
  show ?thesis
  proof (cases xs)
    case Nil
    with assms st show ?thesis by (auto simp: dl_repr_def)
  next
    case (Cons y ys)
    then show ?thesis
      using assms st by (cases ys) (auto simp: dl_repr_def Let_def)
  qed
qed

lemma dl_repr_remove:
  assumes "dl_repr st (as @ x # bs)"
  shows "dl_repr (DoubleList_remove x st) (as @ bs)"
proof -
  obtain s l where st: "st = (s, l)" by (cases st)
  show ?thesis
    using assms st
    by (cases as rule: rev_cases; cases bs) (auto simp: dl_repr_def linked_append Let_def)
qed

lemma dl_repr_erase:
  assumes "dl_repr st (as @ x # bs)"
  shows "dl_repr (fst (DoubleList_erase (Some x) st)) (as @ bs) \<and>
    snd (DoubleList_erase (Some x) st) = first_ptr bs None"
proof -
  obtain s l where st: "st = (s, l)" by (cases st)
  show ?thesis
    using assms st
    by (cases as rule: rev_cases; cases bs) (auto simp: dl_repr_def linked_append Let_def)
qed

lemma dl_repr_insert:
  assumes "dl_repr st (as @ bs)" "x \<notin> set as" "x \<notin> set bs"
  shows "dl_repr (DoubleList_insert (first_ptr bs None) x st) (as @ x # bs)"
proof -
  obtain s l where st: "st = (s, l)" by (cases st)
  show ?thesis
  proof (cases bs)
    case Nil
    with assms dl_repr_push_back [of st as x] st show ?thesis by simp
  next
    case (Cons b bs')
    show ?thesis
    proof (cases as rule: rev_cases)
      case Nil
      with assms Cons dl_repr_push_front [of st bs x] st show ?thesis
        by (auto simp: dl_repr_def)
    next
      case (snoc as' a)
      then show ?thesis
        using assms st Cons
        by (cases as') (auto simp: dl_repr_def linked_append Let_def)
    qed
  qed
qed

text \<open>
  The loops end on a represented list: \<open>clear\<close> empties it, and \<open>find\<close> returns the first
  item that matches.
\<close>

lemma dl_clear_returns:
  "dl_repr st xs \<Longrightarrow> \<exists>st'. DoubleList_clear st = Some st' \<and> dl_repr st' []"
proof (induction xs arbitrary: st)
  case Nil
  then show ?case by (simp add: DoubleList_clear.simps dl_repr_empty)
next
  case (Cons x xs)
  then have "\<not> DoubleList_empty st" "dl_repr (DoubleList_pop_front st) xs"
    using dl_repr_empty dl_repr_pop_front by fastforce+
  with Cons.IH show ?case by (subst DoubleList_clear.simps) simp
qed

lemma find_from_linked:
  "linked s p xs None \<Longrightarrow> find_from match s (first_ptr xs None) = Some (List.find match xs)"
proof (induction xs arbitrary: p)
  case Nil
  then show ?case by (simp add: find_from.simps)
next
  case (Cons x xs)
  then show ?case by (subst find_from.simps) auto
qed

lemma dl_find_correct: "dl_repr st xs \<Longrightarrow> DoubleList_find match st = Some (List.find match xs)"
  by (cases st) (auto simp: dl_repr_def DoubleList_find_def dest: find_from_linked)

text \<open>A list leaves every item that is not among its own untouched.\<close>

lemma dl_push_back_frame:
  assumes "dl_repr (s, l) xs" "y \<notin> set xs" "y \<noteq> x"
  shows "lprev (fst (DoubleList_push_back x (s, l))) y = lprev s y"
    and "lnext (fst (DoubleList_push_back x (s, l))) y = lnext s y"
  using assms by (cases xs rule: rev_cases; auto simp: dl_repr_def Let_def)+

lemma dl_remove_frame:
  assumes "dl_repr (s, l) (as @ x # bs)" "y \<notin> set (as @ x # bs)"
  shows "lprev (fst (DoubleList_remove x (s, l))) y = lprev s y"
    and "lnext (fst (DoubleList_remove x (s, l))) y = lnext s y"
  using assms by (cases as rule: rev_cases; cases bs; auto simp: dl_repr_def linked_append Let_def)+

subsection \<open>The interface the clients rely on\<close>

text \<open>
  What a queue of intrusively linked items promises its clients: while there is room,
  appending and unlinking act on the represented sequence. Both this list and the
  scheduler's ready queue provide it; \<open>room\<close> is the number of items the counter can hold.
\<close>

locale intrusive_list =
  fixes repr :: "'s \<Rightarrow> 'p list \<Rightarrow> bool"
    and push_back :: "'p \<Rightarrow> 's \<Rightarrow> 's"
    and unlink :: "'p \<Rightarrow> 's \<Rightarrow> 's"
    and room :: "nat \<Rightarrow> bool"
  assumes repr_distinct: "repr s xs \<Longrightarrow> distinct xs"
    and repr_room: "repr s xs \<Longrightarrow> room (length xs)"
    and repr_push_back:
      "repr s xs \<Longrightarrow> x \<notin> set xs \<Longrightarrow> room (Suc (length xs)) \<Longrightarrow> repr (push_back x s) (xs @ [x])"
    and repr_unlink: "repr s (as @ x # bs) \<Longrightarrow> repr (unlink x s) (as @ bs)"
begin

lemma repr_unlink_remove1:
  assumes "repr s xs" "x \<in> set xs"
  shows "repr (unlink x s) (remove1 x xs)"
proof -
  from assms(2) obtain as bs where xs: "xs = as @ x # bs" by (auto dest: split_list)
  with repr_distinct [OF assms(1)] have "remove1 x xs = as @ bs"
    by (simp add: remove1_append)
  with assms(1) xs show ?thesis by (simp add: repr_unlink)
qed

lemma unlink_push_back:
  "repr s xs \<Longrightarrow> x \<notin> set xs \<Longrightarrow> room (Suc (length xs)) \<Longrightarrow> repr (unlink x (push_back x s)) xs"
  using repr_unlink [of "push_back x s" xs x "[]"] by (simp add: repr_push_back)

lemma rotate_once: "repr s (x # xs) \<Longrightarrow> repr (push_back x (unlink x s)) (xs @ [x])"
  using repr_unlink [of s "[]" x xs] repr_distinct [of s "x # xs"] repr_room [of s "x # xs"]
  by (simp add: repr_push_back)

text \<open>Serving the front and re-queueing it as often as there are items restores the order.\<close>

lemma rotate_all:
  "repr s (xs @ ys) \<Longrightarrow> repr (fold (\<lambda>x s. push_back x (unlink x s)) xs s) (ys @ xs)"
proof (induction xs arbitrary: s ys)
  case Nil
  then show ?case by simp
next
  case (Cons x xs)
  then have "repr (push_back x (unlink x s)) (xs @ (ys @ [x]))"
    using rotate_once [of s x "xs @ ys"] by simp
  from Cons.IH [OF this] show ?case by simp
qed

end

lemma dl_repr_distinct: "dl_repr st xs \<Longrightarrow> distinct xs"
  by (cases st) (simp add: dl_repr_def)

interpretation dl: intrusive_list dl_repr DoubleList_push_back DoubleList_remove "\<lambda>_. True"
  by unfold_locales (simp_all add: dl_repr_distinct dl_repr_push_back dl_repr_remove)

end
