(* ===== verification/Ready_Queue.thy ===== *)
theory Ready_Queue
  imports Double_List
begin

text \<open>
  Threads and the scheduler's ready queue: \<open>KThreadObject\<close> of
  \<open>kernel/kobject/KThreadObject.hpp\<close> and the class \<open>ReadyQueue\<close> of
  \<open>scheduler/ReadyQueue.hpp\<close>. Threads are named by their address and live in one table;
  a queue links them through their own \<open>rq_next\<close> and \<open>rq_prev\<close> members, so the queues
  of all CPUs share the table. The queue is shown to be an intrusive list, and
  \<open>pop_next\<close> to serve the highest priority level in arrival order.
\<close>

datatype State = Ready | Running | Blocked | Terminated

type_synonym tid = nat

record KThreadObject =
  state :: State
  priority :: u8
  quantum_ticks :: u32
  kernel_stack_top :: u32
  kernel_stack_base :: u32
  kernel_stack_esp0 :: u32
  thread_root :: u32          \<comment> \<open>\<open>translation_root\<close>; 0 is the kernel's\<close>
  entry :: u32
  argument :: u32
  owner_process :: "nat option"
  rq_next :: "tid option"
  rq_prev :: "tid option"

type_synonym threads = "tid \<Rightarrow> KThreadObject"

record ReadyQueue =
  q_head :: "tid option"
  q_tail :: "tid option"
  q_count :: u32

type_synonym rq_state = "threads \<times> ReadyQueue"

definition upd_thread :: "tid \<Rightarrow> (KThreadObject \<Rightarrow> KThreadObject) \<Rightarrow> threads \<Rightarrow> threads" where
  "upd_thread t f th = th(t := f (th t))"

definition ReadyQueue_new :: ReadyQueue where
  "ReadyQueue_new = \<lparr>q_head = None, q_tail = None, q_count = 0\<rparr>"

definition ReadyQueue_empty :: "ReadyQueue \<Rightarrow> bool" where
  "ReadyQueue_empty q = (q_head q = None)"

definition ReadyQueue_size :: "ReadyQueue \<Rightarrow> u32" where
  "ReadyQueue_size q = q_count q"

fun ReadyQueue_enqueue :: "tid \<Rightarrow> rq_state \<Rightarrow> rq_state" where
  "ReadyQueue_enqueue t (th, q) =
     (let th1 = upd_thread t (rq_prev_update (\<lambda>_. q_tail q) \<circ> rq_next_update (\<lambda>_. None)) th;
          (th2, q1) = (case q_tail q of
              Some l \<Rightarrow> (upd_thread l (rq_next_update (\<lambda>_. Some t)) th1, q)
            | None \<Rightarrow> (th1, q\<lparr>q_head := Some t\<rparr>))
      in (th2, q1\<lparr>q_tail := Some t, q_count := q_count q1 + 1\<rparr>))"

fun ReadyQueue_remove :: "tid \<Rightarrow> rq_state \<Rightarrow> rq_state" where
  "ReadyQueue_remove t (th, q) =
     (let (th1, q1) = (case rq_prev (th t) of
              Some p \<Rightarrow> (upd_thread p (rq_next_update (\<lambda>_. rq_next (th t))) th, q)
            | None \<Rightarrow> (th, if q_head q = Some t then q\<lparr>q_head := rq_next (th t)\<rparr> else q));
          (th2, q2) = (case rq_next (th1 t) of
              Some n \<Rightarrow> (upd_thread n (rq_prev_update (\<lambda>_. rq_prev (th1 t))) th1, q1)
            | None \<Rightarrow> (th1, if q_tail q1 = Some t then q1\<lparr>q_tail := rq_prev (th1 t)\<rparr> else q1));
          th3 = upd_thread t (rq_prev_update (\<lambda>_. None) \<circ> rq_next_update (\<lambda>_. None)) th2
      in (th3, if q_count q2 > 0 then q2\<lparr>q_count := q_count q2 - 1\<rparr> else q2))"

text \<open>The scan of \<open>pop_next\<close>: a strictly higher priority replaces the candidate.\<close>

partial_function (option) best_from :: "threads \<Rightarrow> tid \<Rightarrow> tid option \<Rightarrow> tid option" where
  "best_from th best cur =
     (case cur of
        None \<Rightarrow> Some best
      | Some n \<Rightarrow>
          best_from th (if priority (th n) > priority (th best) then n else best) (rq_next (th n)))"

fun ReadyQueue_pop_next :: "rq_state \<Rightarrow> (tid option \<times> rq_state) option" where
  "ReadyQueue_pop_next (th, q) =
     (case q_head q of
        None \<Rightarrow> Some (None, (th, q))
      | Some h \<Rightarrow>
          (case best_from th h (rq_next (th h)) of
             None \<Rightarrow> None
           | Some best \<Rightarrow> Some (Some best, ReadyQueue_remove best (th, q))))"

subsection \<open>The queue is an intrusive list of threads\<close>

definition links_of :: "threads \<Rightarrow> tid links" where
  "links_of th = \<lparr>lprev = (\<lambda>t. rq_prev (th t)), lnext = (\<lambda>t. rq_next (th t))\<rparr>"

fun dl_of :: "rq_state \<Rightarrow> tid dl_state" where
  "dl_of (th, q) = (links_of th, \<lparr>head = q_head q, tail = q_tail q, count = q_count q\<rparr>)"

definition rq_repr :: "rq_state \<Rightarrow> tid list \<Rightarrow> bool" where
  "rq_repr st xs = (dl_repr (dl_of st) xs \<and> length xs < 2 ^ 32)"

lemma links_of_simps [simp]:
  "lprev (links_of th) t = rq_prev (th t)" "lnext (links_of th) t = rq_next (th t)"
  by (simp_all add: links_of_def)

lemma upd_thread_apply [simp]: "upd_thread t f th u = (if u = t then f (th t) else th u)"
  by (simp add: upd_thread_def)

lemma links_of_upd:
  "links_of (upd_thread t (rq_next_update (\<lambda>_. v)) th) = set_next t v (links_of th)"
  "links_of (upd_thread t (rq_prev_update (\<lambda>_. v)) th) = set_prev t v (links_of th)"
  "links_of (upd_thread t (rq_prev_update (\<lambda>_. v) \<circ> rq_next_update (\<lambda>_. w)) th) =
     set_prev t v (set_next t w (links_of th))"
  by (auto simp: links_of_def set_next_def set_prev_def upd_thread_def fun_eq_iff)

lemma set_next_set_prev: "set_next x v (set_prev y w s) = set_prev y w (set_next x v s)"
  by (simp add: set_next_def set_prev_def)

lemma dl_of_enqueue: "dl_of (ReadyQueue_enqueue t st) = DoubleList_push_back t (dl_of st)"
  by (cases st) (auto simp: Let_def links_of_upd set_next_set_prev split: option.splits)

lemma dl_of_remove:
  assumes "rq_repr st (as @ t # bs)"
  shows "dl_of (ReadyQueue_remove t st) = DoubleList_remove t (dl_of st)"
proof -
  obtain th q where st: "st = (th, q)" by (cases st)
  from assms st have r: "dl_repr (links_of th, \<lparr>head = q_head q, tail = q_tail q, count = q_count q\<rparr>) (as @ t # bs)"
    and len: "length (as @ t # bs) < 2 ^ 32"
    by (auto simp: rq_repr_def)
  have cnt: "q_count q \<noteq> 0"
  proof
    assume "q_count q = 0"
    with r have "(of_nat (length (as @ t # bs)) :: u32) = 0"
      by (simp add: dl_repr_def)
    with len show False by (simp only: word_of_nat_eq_0_iff) (auto dest: dvd_imp_le)
  qed
  have "rq_prev (th t) = last_ptr as None" "rq_next (th t) = first_ptr bs None"
    using r by (auto simp: dl_repr_def linked_append)
  moreover have "q_head q = first_ptr as (Some t)" "q_tail q = last_ptr bs (Some t)"
    using r by (auto simp: dl_repr_def)
  moreover have "t \<notin> set as" "t \<notin> set bs" "distinct as" "distinct bs" "set as \<inter> set bs = {}"
    using r by (auto simp: dl_repr_def)
  ultimately show ?thesis
    using cnt st
    by (cases as rule: rev_cases; cases bs)
       (auto simp: Let_def links_of_upd word_gt_0)
qed

declare DoubleList_push_back.simps [simp del] DoubleList_remove.simps [simp del]

lemma rq_repr_distinct: "rq_repr st xs \<Longrightarrow> distinct xs"
  by (auto simp: rq_repr_def dest: dl_repr_distinct)

lemma rq_repr_enqueue:
  "rq_repr st xs \<Longrightarrow> t \<notin> set xs \<Longrightarrow> Suc (length xs) < 2 ^ 32 \<Longrightarrow> rq_repr (ReadyQueue_enqueue t st) (xs @ [t])"
  by (simp add: rq_repr_def dl_of_enqueue dl_repr_push_back)

lemma rq_repr_remove:
  "rq_repr st (as @ t # bs) \<Longrightarrow> rq_repr (ReadyQueue_remove t st) (as @ bs)"
  using dl_of_remove [of st as t bs] by (simp add: rq_repr_def dl_repr_remove)

lemma rq_repr_size: "rq_repr (th, q) xs \<Longrightarrow> unat (ReadyQueue_size q) = length xs"
  by (auto simp: rq_repr_def dl_repr_def ReadyQueue_size_def unat_of_nat)

text \<open>Queue operations change nothing of a thread but its links.\<close>

definition same_but_links :: "threads \<Rightarrow> threads \<Rightarrow> bool" where
  "same_but_links th th' = (\<forall>t. \<exists>n p. th' t = (th t)\<lparr>rq_next := n, rq_prev := p\<rparr>)"

lemma same_but_links_refl: "same_but_links th th"
  unfolding same_but_links_def
proof
  fix t
  have "th t = (th t)\<lparr>rq_next := rq_next (th t), rq_prev := rq_prev (th t)\<rparr>" by simp
  then show "\<exists>n p. th t = (th t)\<lparr>rq_next := n, rq_prev := p\<rparr>" by blast
qed

lemma same_but_links_upd_next:
  assumes "same_but_links th th'"
  shows "same_but_links th (upd_thread t (rq_next_update (\<lambda>_. v)) th')"
  unfolding same_but_links_def
proof
  fix u
  from assms obtain n p where "th' u = (th u)\<lparr>rq_next := n, rq_prev := p\<rparr>"
    unfolding same_but_links_def by blast
  then have "upd_thread t (rq_next_update (\<lambda>_. v)) th' u =
      (th u)\<lparr>rq_next := (if u = t then v else n), rq_prev := p\<rparr>" by auto
  then show "\<exists>n p. upd_thread t (rq_next_update (\<lambda>_. v)) th' u = (th u)\<lparr>rq_next := n, rq_prev := p\<rparr>"
    by blast
qed

lemma same_but_links_upd_prev:
  assumes "same_but_links th th'"
  shows "same_but_links th (upd_thread t (rq_prev_update (\<lambda>_. v)) th')"
  unfolding same_but_links_def
proof
  fix u
  from assms obtain n p where "th' u = (th u)\<lparr>rq_next := n, rq_prev := p\<rparr>"
    unfolding same_but_links_def by blast
  then have "upd_thread t (rq_prev_update (\<lambda>_. v)) th' u =
      (th u)\<lparr>rq_next := n, rq_prev := (if u = t then v else p)\<rparr>" by auto
  then show "\<exists>n p. upd_thread t (rq_prev_update (\<lambda>_. v)) th' u = (th u)\<lparr>rq_next := n, rq_prev := p\<rparr>"
    by blast
qed

lemma upd_thread_comp: "upd_thread t (f \<circ> g) th = upd_thread t f (upd_thread t g th)"
  by (auto simp: upd_thread_def fun_eq_iff)

lemmas same_but_links_intros =
  same_but_links_refl same_but_links_upd_next same_but_links_upd_prev

lemma enqueue_same_but_links:
  "ReadyQueue_enqueue t (th, q) = (th', q') \<Longrightarrow> same_but_links th th'"
  by (auto simp: Let_def upd_thread_comp split: option.splits intro!: same_but_links_intros)

lemma remove_same_but_links:
  "ReadyQueue_remove t (th, q) = (th', q') \<Longrightarrow> same_but_links th th'"
  by (auto simp: Let_def upd_thread_comp split: option.splits prod.splits if_splits
      intro!: same_but_links_intros)

lemma same_but_links_trans:
  assumes "same_but_links th th'" "same_but_links th' th''"
  shows "same_but_links th th''"
  unfolding same_but_links_def
proof
  fix t
  from assms obtain n p n' p' where "th' t = (th t)\<lparr>rq_next := n, rq_prev := p\<rparr>"
    "th'' t = (th' t)\<lparr>rq_next := n', rq_prev := p'\<rparr>"
    unfolding same_but_links_def by blast
  then have "th'' t = (th t)\<lparr>rq_next := n', rq_prev := p'\<rparr>" by simp
  then show "\<exists>n p. th'' t = (th t)\<lparr>rq_next := n, rq_prev := p\<rparr>" by blast
qed

lemma same_but_links_upd_state:
  assumes "same_but_links th th'"
  shows "same_but_links (upd_thread t (state_update (\<lambda>_. s)) th) (upd_thread t (state_update (\<lambda>_. s)) th')"
  unfolding same_but_links_def
proof
  fix u
  from assms obtain n p where "th' u = (th u)\<lparr>rq_next := n, rq_prev := p\<rparr>"
    unfolding same_but_links_def by blast
  then have "upd_thread t (state_update (\<lambda>_. s)) th' u =
      (upd_thread t (state_update (\<lambda>_. s)) th u)\<lparr>rq_next := n, rq_prev := p\<rparr>" by auto
  then show "\<exists>n p. upd_thread t (state_update (\<lambda>_. s)) th' u =
      (upd_thread t (state_update (\<lambda>_. s)) th u)\<lparr>rq_next := n, rq_prev := p\<rparr>" by blast
qed

lemma same_but_linksD:
  assumes "same_but_links th th'"
  shows "state (th' t) = state (th t)" "priority (th' t) = priority (th t)"
    "quantum_ticks (th' t) = quantum_ticks (th t)" "thread_root (th' t) = thread_root (th t)"
    "kernel_stack_top (th' t) = kernel_stack_top (th t)"
    "kernel_stack_esp0 (th' t) = kernel_stack_esp0 (th t)"
  using assms by (auto simp: same_but_links_def dest: spec [of _ t])

text \<open>A queue leaves the links of threads outside it alone (other CPUs' queues).\<close>

lemma enqueue_frame:
  assumes "rq_repr (th, q) xs" "u \<notin> set xs" "u \<noteq> t" "ReadyQueue_enqueue t (th, q) = (th', q')"
  shows "rq_prev (th' u) = rq_prev (th u) \<and> rq_next (th' u) = rq_next (th u)"
proof -
  have "fst (dl_of (th', q')) = fst (DoubleList_push_back t (dl_of (th, q)))"
    using dl_of_enqueue [of t "(th, q)"] assms(4) by simp
  with dl_push_back_frame [of "links_of th" _ xs u t] assms(1-3)
  have "lprev (links_of th') u = lprev (links_of th) u \<and> lnext (links_of th') u = lnext (links_of th) u"
    by (simp add: rq_repr_def)
  then show ?thesis by simp
qed

lemma remove_frame:
  assumes "rq_repr (th, q) (as @ t # bs)" "u \<notin> set (as @ t # bs)" "ReadyQueue_remove t (th, q) = (th', q')"
  shows "rq_prev (th' u) = rq_prev (th u) \<and> rq_next (th' u) = rq_next (th u)"
proof -
  have "fst (dl_of (th', q')) = fst (DoubleList_remove t (dl_of (th, q)))"
    using dl_of_remove [OF assms(1)] assms(3) by simp
  with dl_remove_frame [of "links_of th" _ as t bs u] assms(1,2)
  have "lprev (links_of th') u = lprev (links_of th) u \<and> lnext (links_of th') u = lnext (links_of th) u"
    by (simp add: rq_repr_def)
  then show ?thesis by simp
qed

lemma rq_repr_frame:
  assumes "rq_repr (th, q) xs" "\<forall>u\<in>set xs. rq_prev (th' u) = rq_prev (th u) \<and> rq_next (th' u) = rq_next (th u)"
  shows "rq_repr (th', q) xs"
  using assms linked_frame [of xs "links_of th'" "links_of th"] by (simp add: rq_repr_def dl_repr_def)

interpretation rq: intrusive_list rq_repr ReadyQueue_enqueue ReadyQueue_remove "\<lambda>n. n < 2 ^ 32"
  by unfold_locales (simp_all add: rq_repr_distinct rq_repr_enqueue rq_repr_remove, simp add: rq_repr_def)

subsection \<open>The scheduling policy\<close>

text \<open>
  \<open>first_best\<close>: \<open>x\<close> is the earliest arrival among the threads of the highest priority
  in the arrival order \<open>xs\<close>.
\<close>

definition first_best :: "threads \<Rightarrow> tid list \<Rightarrow> tid \<Rightarrow> bool" where
  "first_best th xs x =
     (\<exists>as bs. xs = as @ x # bs \<and> (\<forall>a\<in>set as. priority (th a) < priority (th x)) \<and>
        (\<forall>b\<in>set bs. priority (th b) \<le> priority (th x)))"

lemma first_best_hd: "\<forall>b\<in>set ys. priority (th b) \<le> priority (th y) \<Longrightarrow> first_best th (y # ys) y"
  unfolding first_best_def by (intro exI [of _ "[]"] exI [of _ ys]) simp

lemma first_best_Cons:
  assumes "first_best th ys x" "priority (th y) < priority (th x)"
  shows "first_best th (y # ys) x"
proof -
  from assms(1) obtain as bs where "ys = as @ x # bs"
    "\<forall>a\<in>set as. priority (th a) < priority (th x)" "\<forall>b\<in>set bs. priority (th b) \<le> priority (th x)"
    unfolding first_best_def by blast
  with assms(2) show ?thesis
    unfolding first_best_def by (intro exI [of _ "y # as"] exI [of _ bs]) simp
qed

lemma best_from_linked:
  "linked (links_of th) p xs None \<Longrightarrow>
   \<exists>x. best_from th best (first_ptr xs None) = Some x \<and>
     (x = best \<and> (\<forall>b\<in>set xs. priority (th b) \<le> priority (th best)) \<or>
      priority (th best) < priority (th x) \<and> first_best th xs x)"
proof (induction xs arbitrary: best p)
  case Nil
  then show ?case by (simp add: best_from.simps)
next
  case (Cons y ys)
  then have l: "linked (links_of th) (Some y) ys None" and nx: "rq_next (th y) = first_ptr ys None"
    by simp_all
  show ?case
  proof (cases "priority (th y) > priority (th best)")
    case True
    from Cons.IH [OF l, of y] obtain x where x: "best_from th y (first_ptr ys None) = Some x"
      and c: "x = y \<and> (\<forall>b\<in>set ys. priority (th b) \<le> priority (th y)) \<or>
        priority (th y) < priority (th x) \<and> first_best th ys x" by blast
    have "first_best th (y # ys) x"
    proof (cases "x = y")
      case True
      with c show ?thesis by (auto intro: first_best_hd)
    next
      case False
      with c show ?thesis by (auto intro: first_best_Cons)
    qed
    moreover have "priority (th best) < priority (th x)" using c True by auto
    ultimately show ?thesis using x nx True by (subst best_from.simps) simp
  next
    case False
    from Cons.IH [OF l, of best] obtain x where x: "best_from th best (first_ptr ys None) = Some x"
      and c: "x = best \<and> (\<forall>b\<in>set ys. priority (th b) \<le> priority (th best)) \<or>
        priority (th best) < priority (th x) \<and> first_best th ys x" by blast
    have "priority (th best) < priority (th x) \<Longrightarrow> first_best th ys x \<Longrightarrow> first_best th (y # ys) x"
      using False by (intro first_best_Cons) auto
    then show ?thesis using x nx False c by (subst best_from.simps) auto
  qed
qed

text \<open>
  \<open>pop_next\<close> returns on every represented queue: null when it is empty, otherwise the
  earliest thread of the highest priority, which it unlinks while the others keep their order.
\<close>

lemma pop_next_empty: "rq_repr (th, q) [] \<Longrightarrow> ReadyQueue_pop_next (th, q) = Some (None, (th, q))"
  by (simp add: rq_repr_def dl_repr_def)

lemma pop_next_nonempty:
  assumes "rq_repr (th, q) xs" "xs \<noteq> []"
  obtains x as bs th' q' where "ReadyQueue_pop_next (th, q) = Some (Some x, (th', q'))"
    "first_best th xs x" "xs = as @ x # bs" "rq_repr (th', q') (as @ bs)"
    "(th', q') = ReadyQueue_remove x (th, q)"
proof -
  from assms obtain h ys where xs: "xs = h # ys" by (cases xs) auto
  from assms(1) xs have hd: "q_head q = Some h" "rq_next (th h) = first_ptr ys None"
    and l: "linked (links_of th) (Some h) ys None"
    by (auto simp: rq_repr_def dl_repr_def)
  from best_from_linked [OF l, of h] obtain x where x: "best_from th h (first_ptr ys None) = Some x"
    and c: "x = h \<and> (\<forall>b\<in>set ys. priority (th b) \<le> priority (th h)) \<or>
      priority (th h) < priority (th x) \<and> first_best th ys x" by blast
  then have fb: "first_best th xs x"
    using xs by (auto intro: first_best_hd first_best_Cons)
  then obtain as bs where s: "xs = as @ x # bs" by (auto simp: first_best_def)
  obtain th' q' where r: "(th', q') = ReadyQueue_remove x (th, q)"
    by (cases "ReadyQueue_remove x (th, q)") auto
  with rq_repr_remove [of "(th, q)" as x bs] assms(1) s have "rq_repr (th', q') (as @ bs)" by simp
  moreover have "ReadyQueue_pop_next (th, q) = Some (Some x, (th', q'))"
    using hd x r by simp
  ultimately show ?thesis using that fb s r by blast
qed

end
