(* ===== verification/Scheduler.thy ===== *)
theory Scheduler
  imports Ready_Queue
begin

text \<open>
  The scheduler: \<open>scheduler/Scheduler.cpp\<close> over the per-CPU slots of
  \<open>scheduler/CpuContext.hpp\<close>. A scheduling operation runs with interrupts disabled on
  its own CPU and touches a queue only under that queue's lock, so each operation is one
  atomic step on the state; \<open>me\<close> is \<open>cpu::current_id()\<close>. The processor registers the
  HAL calls act on (the page-table root, the ring-0 stack of the TSS and the stack
  pointer, per CPU) are part of the state. \<open>None\<close> as the result of an operation is a
  null dereference or a walk over a corrupted queue; the invariant below excludes both.
\<close>

abbreviation MAX_CPUS :: nat where "MAX_CPUS \<equiv> 32"

abbreviation DEFAULT_QUANTUM :: u32 where "DEFAULT_QUANTUM \<equiv> 5"

abbreviation KERNEL_STACK_SIZE :: u32 where "KERNEL_STACK_SIZE \<equiv> 16 * 1024"

record CpuContext =
  ctx_id :: u32
  online :: bool
  current :: "tid option"
  idle :: "tid option"
  ticks :: u64
  ready :: ReadyQueue

record cpu_hw =
  hw_root :: u32    \<comment> \<open>\<open>HAL_VMM_GetCurrentTranslationRoot\<close> / \<open>HAL_VMM_SwitchAddressSpace\<close>\<close>
  hw_esp0 :: u32    \<comment> \<open>\<open>HAL_CPU_GetKernelStack\<close> / \<open>HAL_CPU_SetKernelStack\<close>\<close>
  hw_sp :: u32      \<comment> \<open>the stack pointer \<open>HAL_CPU_SwitchContext\<close> exchanges\<close>

record sched =
  thr :: threads
  cpus :: "CpuContext list"
  hw :: "cpu_hw list"
  ipis :: "nat list"          \<comment> \<open>\<open>HAL_SMP_SendRescheduleIpi\<close> calls, oldest first\<close>
  thread_dir :: "tid list"    \<comment> \<open>the objects inserted under \<open>\Threads\<close>\<close>
  g_next_id :: u32

subsection \<open>Placement\<close>

fun pick_loop :: "CpuContext list \<Rightarrow> nat \<Rightarrow> nat \<Rightarrow> u32 \<Rightarrow> bool \<Rightarrow> nat \<times> bool" where
  "pick_loop [] i best best_load found = (best, found)"
| "pick_loop (ctx # rest) i best best_load found =
     (if \<not> online ctx then pick_loop rest (Suc i) best best_load found
      else
        (let load = ReadyQueue_size (ready ctx) in
         if \<not> found \<or> load < best_load then pick_loop rest (Suc i) i load True
         else pick_loop rest (Suc i) best best_load found))"

definition pick_target_cpu :: "sched \<Rightarrow> nat" where
  "pick_target_cpu \<sigma> =
     (case pick_loop (cpus \<sigma>) 0 0 (- 1) False of (best, found) \<Rightarrow> if found then best else 0)"

definition enqueue_on :: "nat \<Rightarrow> nat \<Rightarrow> tid option \<Rightarrow> sched \<Rightarrow> sched" where
  "enqueue_on me cpu_id thread \<sigma> =
     (case thread of
        None \<Rightarrow> \<sigma>
      | Some t \<Rightarrow>
          (let target = (if cpu_id < length (cpus \<sigma>) then cpu_id else 0);
               ctx = cpus \<sigma> ! target;
               (th, q) = ReadyQueue_enqueue t (thr \<sigma>, ready ctx);
               \<sigma>1 = \<sigma>\<lparr>thr := th, cpus := (cpus \<sigma>)[target := ctx\<lparr>ready := q\<rparr>]\<rparr>
           in if target \<noteq> me then \<sigma>1\<lparr>ipis := ipis \<sigma>1 @ [target]\<rparr> else \<sigma>1))"

subsection \<open>The scheduling decision\<close>

text \<open>The part of \<open>schedule_next\<close> under the queue lock: pick, and re-queue the outgoing thread.\<close>

definition pick_and_requeue :: "nat \<Rightarrow> sched \<Rightarrow> (tid option \<times> sched) option" where
  "pick_and_requeue me \<sigma> =
     (let ctx = cpus \<sigma> ! me; prev = current ctx in
      case ReadyQueue_pop_next (thr \<sigma>, ready ctx) of
        None \<Rightarrow> None
      | Some (next, (th, q)) \<Rightarrow>
          (let (th1, q1) =
             (case (next, prev) of
                (Some n, Some p) \<Rightarrow>
                  if state (th p) = Running
                  then ReadyQueue_enqueue p (upd_thread p (state_update (\<lambda>_. Ready)) th, q)
                  else (th, q)
              | _ \<Rightarrow> (th, q))
           in Some (next, \<sigma>\<lparr>thr := th1, cpus := (cpus \<sigma>)[me := ctx\<lparr>ready := q1\<rparr>]\<rparr>)))"

text \<open>Making \<open>next\<close> current on this CPU: root, ring-0 stack, then the context switch.\<close>

definition switch_to :: "nat \<Rightarrow> tid \<Rightarrow> sched \<Rightarrow> sched option" where
  "switch_to me next \<sigma> =
     (let ctx = cpus \<sigma> ! me; prev = current ctx; h = hw \<sigma> ! me;
          th1 = upd_thread next (quantum_ticks_update (\<lambda>_. DEFAULT_QUANTUM) \<circ> state_update (\<lambda>_. Running)) (thr \<sigma>);
          cs = (cpus \<sigma>)[me := ctx\<lparr>current := Some next\<rparr>];
          h1 = (if thread_root (th1 next) \<noteq> 0 \<and> hw_root h \<noteq> thread_root (th1 next)
                then h\<lparr>hw_root := thread_root (th1 next)\<rparr> else h);
          th2 = (case prev of
              Some p \<Rightarrow> if p \<noteq> next then upd_thread p (kernel_stack_esp0_update (\<lambda>_. hw_esp0 h1)) th1 else th1
            | None \<Rightarrow> th1);
          h2 = h1\<lparr>hw_esp0 := kernel_stack_esp0 (th2 next)\<rparr>
      in if prev = Some next
         then Some (\<sigma>\<lparr>thr := th2, cpus := cs, hw := (hw \<sigma>)[me := h2]\<rparr>)
         else
           (case prev of
              None \<Rightarrow> None
            | Some p \<Rightarrow>
                (let th3 = upd_thread p (kernel_stack_top_update (\<lambda>_. hw_sp h2)) th2;
                     h3 = h2\<lparr>hw_sp := kernel_stack_top (th3 next)\<rparr>
                 in Some (\<sigma>\<lparr>thr := th3, cpus := cs, hw := (hw \<sigma>)[me := h3]\<rparr>))))"

definition schedule_next :: "nat \<Rightarrow> sched \<Rightarrow> sched option" where
  "schedule_next me \<sigma> =
     (case pick_and_requeue me \<sigma> of
        None \<Rightarrow> None
      | Some (None, \<sigma>1) \<Rightarrow>
          (case current (cpus \<sigma> ! me) of
             Some p \<Rightarrow> Some (\<sigma>1\<lparr>thr := upd_thread p (quantum_ticks_update (\<lambda>_. DEFAULT_QUANTUM)) (thr \<sigma>1)\<rparr>)
           | None \<Rightarrow> Some \<sigma>1)
      | Some (Some next, \<sigma>1) \<Rightarrow> switch_to me next \<sigma>1)"

subsection \<open>Entry points\<close>

definition tick :: "nat \<Rightarrow> sched \<Rightarrow> sched option" where
  "tick me \<sigma> =
     (let ctx = cpus \<sigma> ! me;
          \<sigma>1 = \<sigma>\<lparr>cpus := (cpus \<sigma>)[me := ctx\<lparr>ticks := ticks ctx + 1\<rparr>]\<rparr> in
      case current ctx of
        None \<Rightarrow> Some \<sigma>1
      | Some cur \<Rightarrow>
          (let q = quantum_ticks (thr \<sigma>1 cur);
               \<sigma>2 = (if q > 0
                 then \<sigma>1\<lparr>thr := upd_thread cur (quantum_ticks_update (\<lambda>_. q - 1)) (thr \<sigma>1)\<rparr> else \<sigma>1)
           in if quantum_ticks (thr \<sigma>2 cur) = 0 then schedule_next me \<sigma>2 else Some \<sigma>2))"

definition set_current_state :: "nat \<Rightarrow> State \<Rightarrow> sched \<Rightarrow> sched" where
  "set_current_state me s \<sigma> =
     (case current (cpus \<sigma> ! me) of
        Some t \<Rightarrow> \<sigma>\<lparr>thr := upd_thread t (state_update (\<lambda>_. s)) (thr \<sigma>)\<rparr>
      | None \<Rightarrow> \<sigma>)"

definition block_current_locked :: "nat \<Rightarrow> sched \<Rightarrow> sched option" where
  "block_current_locked me \<sigma> = schedule_next me (set_current_state me Blocked \<sigma>)"

definition ready_locked :: "nat \<Rightarrow> tid option \<Rightarrow> sched \<Rightarrow> sched" where
  "ready_locked me thread \<sigma> =
     (case thread of
        None \<Rightarrow> \<sigma>
      | Some t \<Rightarrow>
          if state (thr \<sigma> t) = Blocked
          then (let \<sigma>1 = \<sigma>\<lparr>thr := upd_thread t (state_update (\<lambda>_. Ready)) (thr \<sigma>)\<rparr>
                in enqueue_on me (pick_target_cpu \<sigma>1) (Some t) \<sigma>1)
          else \<sigma>)"

definition KE_SCHED_Yield :: "nat \<Rightarrow> sched \<Rightarrow> sched option" where
  "KE_SCHED_Yield me \<sigma> = schedule_next me \<sigma>"

definition KE_SCHED_Block :: "nat \<Rightarrow> sched \<Rightarrow> sched option" where
  "KE_SCHED_Block me \<sigma> = block_current_locked me \<sigma>"

definition KE_SCHED_Unblock :: "nat \<Rightarrow> tid option \<Rightarrow> sched \<Rightarrow> KernelError \<times> sched" where
  "KE_SCHED_Unblock me thread \<sigma> =
     (if thread = None then (InvalidArgument, \<sigma>) else (Success, ready_locked me thread \<sigma>))"

definition KE_SCHED_Terminate :: "nat \<Rightarrow> sched \<Rightarrow> sched option" where
  "KE_SCHED_Terminate me \<sigma> = schedule_next me (set_current_state me Terminated \<sigma>)"

definition KE_SCHED_GetCurrentThread :: "nat \<Rightarrow> sched \<Rightarrow> tid option" where
  "KE_SCHED_GetCurrentThread me \<sigma> = current (cpus \<sigma> ! me)"

subsection \<open>Creation and bring-up\<close>

text \<open>
  Thread creation composes three other components: the object manager creates the thread
  object and inserts it under \<open>\Threads\<close>, and the memory manager provides the stack. Their
  outcomes are arguments here, so that every combination of success and failure is a case:
  \<open>obj\<close> the new object's address, \<open>stack\<close> the base of the kernel stack, \<open>sp\<close> the stack
  pointer framed by \<open>HAL_CPU_InitThreadContext\<close>, \<open>inserted\<close> the status of the insertion.
\<close>

definition new_thread :: KThreadObject where
  "new_thread = \<lparr>state = Ready, priority = 0, quantum_ticks = 0, kernel_stack_top = 0,
     kernel_stack_base = 0, kernel_stack_esp0 = 0, thread_root = 0, entry = 0, argument = 0,
     owner_process = None, rq_next = None, rq_prev = None\<rparr>"

definition KE_SCHED_CreateThread ::
  "nat \<Rightarrow> tid expected \<Rightarrow> u32 expected \<Rightarrow> u32 \<Rightarrow> KernelError \<Rightarrow> u32 \<Rightarrow> u32 \<Rightarrow> u8 \<Rightarrow> sched \<Rightarrow> tid expected \<times> sched" where
  "KE_SCHED_CreateThread me obj stack sp inserted ent arg prio \<sigma> =
     (let \<sigma>0 = \<sigma>\<lparr>g_next_id := g_next_id \<sigma> + 1\<rparr> in
      case obj of
        Inl e \<Rightarrow> (Inl e, \<sigma>0)
      | Inr t \<Rightarrow>
          (case stack of
             Inl e \<Rightarrow> (Inl e, \<sigma>0)
           | Inr base \<Rightarrow>
               (let top = base + KERNEL_STACK_SIZE;
                    th = (thr \<sigma>0)(t := new_thread\<lparr>entry := ent, argument := arg, priority := prio,
                           state := Ready, thread_root := 0, kernel_stack_base := base,
                           kernel_stack_esp0 := top, kernel_stack_top := sp\<rparr>)
                in if inserted \<noteq> Success then (Inl inserted, \<sigma>0\<lparr>thr := th\<rparr>)
                   else
                     (let \<sigma>1 = \<sigma>0\<lparr>thr := th, thread_dir := thread_dir \<sigma>0 @ [t]\<rparr>
                      in (Inr t, enqueue_on me (pick_target_cpu \<sigma>1) (Some t) \<sigma>1)))))"

definition KE_SCHED_CreateUserThread ::
  "nat \<Rightarrow> tid expected \<Rightarrow> u32 expected \<Rightarrow> u32 \<Rightarrow> KernelError \<Rightarrow> u32 \<Rightarrow> sched \<Rightarrow> tid expected \<times> sched" where
  "KE_SCHED_CreateUserThread me obj stack sp inserted root \<sigma> =
     (let \<sigma>0 = \<sigma>\<lparr>g_next_id := g_next_id \<sigma> + 1\<rparr> in
      case obj of
        Inl e \<Rightarrow> (Inl e, \<sigma>0)
      | Inr t \<Rightarrow>
          (case stack of
             Inl e \<Rightarrow> (Inl e, \<sigma>0)
           | Inr base \<Rightarrow>
               (let top = base + KERNEL_STACK_SIZE;
                    th = (thr \<sigma>0)(t := new_thread\<lparr>priority := 1, state := Ready,
                           thread_root := root, kernel_stack_base := base,
                           kernel_stack_esp0 := top, kernel_stack_top := sp\<rparr>)
                in if inserted \<noteq> Success then (Inl inserted, \<sigma>0\<lparr>thr := th\<rparr>)
                   else
                     (let \<sigma>1 = \<sigma>0\<lparr>thr := th, thread_dir := thread_dir \<sigma>0 @ [t]\<rparr>
                      in (Inr t, enqueue_on me (pick_target_cpu \<sigma>1) (Some t) \<sigma>1)))))"

text \<open>
  \<open>create_idle_thread\<close>: the thread is created through the normal path, then unlinked from
  whichever queue it landed on by calling \<open>remove\<close> on the queue of every CPU in turn, and
  queued on the CPU it idles for.
\<close>

fun remove_from_all :: "tid \<Rightarrow> nat list \<Rightarrow> sched \<Rightarrow> sched" where
  "remove_from_all t [] \<sigma> = \<sigma>"
| "remove_from_all t (i # is) \<sigma> =
     (let ctx = cpus \<sigma> ! i; (th, q) = ReadyQueue_remove t (thr \<sigma>, ready ctx)
      in remove_from_all t is (\<sigma>\<lparr>thr := th, cpus := (cpus \<sigma>)[i := ctx\<lparr>ready := q\<rparr>]\<rparr>))"

definition create_idle_thread ::
  "nat \<Rightarrow> tid expected \<Rightarrow> u32 expected \<Rightarrow> u32 \<Rightarrow> KernelError \<Rightarrow> u32 \<Rightarrow> nat \<Rightarrow> sched \<Rightarrow> tid expected \<times> sched" where
  "create_idle_thread me obj stack sp inserted idle_entry for_cpu \<sigma> =
     (case KE_SCHED_CreateThread me obj stack sp inserted idle_entry 0 0 \<sigma> of
        (Inl e, \<sigma>1) \<Rightarrow> (Inl e, \<sigma>1)
      | (Inr t, \<sigma>1) \<Rightarrow>
          (Inr t, enqueue_on me for_cpu (Some t) (remove_from_all t [0..<length (cpus \<sigma>1)] \<sigma>1)))"

definition init_contexts :: "sched \<Rightarrow> sched" where
  "init_contexts \<sigma> =
     \<sigma>\<lparr>cpus := map (\<lambda>i. (cpus \<sigma> ! i)\<lparr>ctx_id := of_nat i\<rparr>) [0..<length (cpus \<sigma>)]\<rparr>"

definition online_count :: "sched \<Rightarrow> nat" where
  "online_count \<sigma> = length (filter online (cpus \<sigma>))"

text \<open>Adopting the running stream as the first thread of a CPU (\<open>init_bsp\<close>, \<open>init_ap\<close>);
  \<open>None\<close> is a call of \<open>HAL_PLATFORM_Panic\<close>.\<close>

definition adopt_boot_thread :: "nat \<Rightarrow> tid expected \<Rightarrow> KernelError \<Rightarrow> sched \<Rightarrow> sched option" where
  "adopt_boot_thread me boot inserted \<sigma> =
     (case boot of
        Inl e \<Rightarrow> None
      | Inr t \<Rightarrow>
          if inserted \<noteq> Success then None
          else
            Some (\<sigma>\<lparr>thr := (thr \<sigma>)(t := new_thread\<lparr>state := Running, priority := 1,
                       quantum_ticks := DEFAULT_QUANTUM, thread_root := 0\<rparr>),
                    cpus := (cpus \<sigma>)[me := (cpus \<sigma> ! me)\<lparr>online := True, current := Some t\<rparr>],
                    thread_dir := thread_dir \<sigma> @ [t]\<rparr>))"

definition install_idle ::
  "nat \<Rightarrow> tid expected \<Rightarrow> u32 expected \<Rightarrow> u32 \<Rightarrow> KernelError \<Rightarrow> u32 \<Rightarrow> sched \<Rightarrow> sched option" where
  "install_idle me obj stack sp inserted idle_entry \<sigma> =
     (case create_idle_thread me obj stack sp inserted idle_entry me \<sigma> of
        (Inl e, \<sigma>1) \<Rightarrow> None
      | (Inr t, \<sigma>1) \<Rightarrow> Some (\<sigma>1\<lparr>cpus := (cpus \<sigma>1)[me := (cpus \<sigma>1 ! me)\<lparr>idle := Some t\<rparr>]\<rparr>))"

definition init_bsp ::
  "nat \<Rightarrow> tid expected \<Rightarrow> KernelError \<Rightarrow> tid expected \<Rightarrow> u32 expected \<Rightarrow> u32 \<Rightarrow> KernelError \<Rightarrow> u32 \<Rightarrow> sched \<Rightarrow> sched option" where
  "init_bsp me boot boot_inserted obj stack sp inserted idle_entry \<sigma> =
     (case adopt_boot_thread me boot boot_inserted (init_contexts \<sigma>) of
        None \<Rightarrow> None
      | Some \<sigma>1 \<Rightarrow> install_idle me obj stack sp inserted idle_entry (\<sigma>1\<lparr>g_next_id := 1\<rparr>))"

definition init_ap ::
  "nat \<Rightarrow> tid expected \<Rightarrow> KernelError \<Rightarrow> tid expected \<Rightarrow> u32 expected \<Rightarrow> u32 \<Rightarrow> KernelError \<Rightarrow> u32 \<Rightarrow> sched \<Rightarrow> sched option" where
  "init_ap me boot boot_inserted obj stack sp inserted idle_entry \<sigma> =
     (case adopt_boot_thread me boot boot_inserted \<sigma> of
        None \<Rightarrow> None
      | Some \<sigma>1 \<Rightarrow> install_idle me obj stack sp inserted idle_entry \<sigma>1)"

subsection \<open>The queues of all CPUs\<close>

definition queues_ok :: "threads \<Rightarrow> CpuContext list \<Rightarrow> tid list list \<Rightarrow> bool" where
  "queues_ok th cs qs =
     (length qs = length cs \<and>
      (\<forall>c<length cs. rq_repr (th, ready (cs ! c)) (qs ! c)) \<and>
      (\<forall>c<length cs. \<forall>d<length cs. c \<noteq> d \<longrightarrow> set (qs ! c) \<inter> set (qs ! d) = {}))"

definition queued :: "tid list list \<Rightarrow> tid \<Rightarrow> bool" where
  "queued qs t = (\<exists>xs\<in>set qs. t \<in> set xs)"

lemma queuedI: "c < length qs \<Longrightarrow> t \<in> set (qs ! c) \<Longrightarrow> queued qs t"
  by (auto simp: queued_def)

lemma queued_conv_nth: "queued qs t = (\<exists>c<length qs. t \<in> set (qs ! c))"
  unfolding queued_def by (metis in_set_conv_nth)

lemma queues_cong:
  assumes "\<And>t. rq_prev (th' t) = rq_prev (th t)" "\<And>t. rq_next (th' t) = rq_next (th t)"
    and "map ready cs' = map ready cs"
  shows "queues_ok th' cs' qs = queues_ok th cs qs"
proof -
  have len: "length cs' = length cs" using assms(3) by (metis length_map)
  then have rd: "\<And>c. c < length cs \<Longrightarrow> ready (cs' ! c) = ready (cs ! c)"
    using assms(3) by (metis nth_map)
  have "\<And>q xs. rq_repr (th', q) xs = rq_repr (th, q) xs"
    using assms(1,2) rq_repr_frame [of th _ _ th'] rq_repr_frame [of th' _ _ th] by auto
  with len rd show ?thesis by (simp add: queues_ok_def)
qed

lemma queues_update:
  assumes "queues_ok th cs qs" "c < length cs" "rq_repr (th', q') ys"
    and links: "\<And>u. u \<notin> insert t (set (qs ! c)) \<Longrightarrow> rq_prev (th' u) = rq_prev (th u) \<and> rq_next (th' u) = rq_next (th u)"
    and sub: "set ys \<subseteq> insert t (set (qs ! c))"
    and fresh: "\<And>d. d < length cs \<Longrightarrow> d \<noteq> c \<Longrightarrow> t \<notin> set (qs ! d)"
  shows "queues_ok th' (cs[c := (cs ! c)\<lparr>ready := q'\<rparr>]) (qs[c := ys])"
proof -
  have "rq_repr (th', ready (cs[c := (cs ! c)\<lparr>ready := q'\<rparr>] ! d)) (qs[c := ys] ! d)" if d: "d < length cs" for d
  proof (cases "d = c")
    case True
    with assms d show ?thesis by (simp add: queues_ok_def)
  next
    case False
    with assms(1,2) d have disj: "set (qs ! d) \<inter> set (qs ! c) = {}" and r: "rq_repr (th, ready (cs ! d)) (qs ! d)"
      unfolding queues_ok_def by blast+
    have "rq_repr (th', ready (cs ! d)) (qs ! d)"
    proof (rule rq_repr_frame [OF r], rule ballI)
      fix u assume "u \<in> set (qs ! d)"
      with disj fresh [OF d False] have "u \<notin> insert t (set (qs ! c))" by blast
      then show "rq_prev (th' u) = rq_prev (th u) \<and> rq_next (th' u) = rq_next (th u)" by (rule links)
    qed
    with False show ?thesis by simp
  qed
  moreover have "set (qs[c := ys] ! d) \<inter> set (qs[c := ys] ! e) = {}"
    if "d < length cs" "e < length cs" "d \<noteq> e" for d e
  proof -
    have disj: "set (qs ! d) \<inter> set (qs ! e) = {}" and len: "c < length qs"
      using assms(1,2) that unfolding queues_ok_def by (blast, simp)
    consider "d = c" | "e = c" "d \<noteq> c" | "d \<noteq> c" "e \<noteq> c" by blast
    then show ?thesis
    proof cases
      case 1
      with that fresh [of e] disj sub have "set ys \<inter> set (qs ! e) = {}" by blast
      with 1 that len show ?thesis by simp
    next
      case 2
      with that fresh [of d] disj sub have "set (qs ! d) \<inter> set ys = {}" by blast
      with 2 len show ?thesis by simp
    next
      case 3
      with disj show ?thesis by simp
    qed
  qed
  ultimately show ?thesis using assms(1) by (simp add: queues_ok_def)
qed

lemma queues_enqueue:
  assumes "queues_ok th cs qs" "c < length cs" "\<not> queued qs t" "Suc (length (qs ! c)) < 2 ^ 32"
    and "ReadyQueue_enqueue t (th, ready (cs ! c)) = (th', q')"
  shows "queues_ok th' (cs[c := (cs ! c)\<lparr>ready := q'\<rparr>]) (qs[c := qs ! c @ [t]])"
proof (rule queues_update [where t = t, OF assms(1,2)])
  have r: "rq_repr (th, ready (cs ! c)) (qs ! c)" using assms(1,2) by (simp add: queues_ok_def)
  have notin: "t \<notin> set (qs ! d)" if "d < length cs" for d
    using assms(1,3) that by (auto simp: queues_ok_def queued_conv_nth)
  show "rq_repr (th', q') (qs ! c @ [t])"
    using rq_repr_enqueue [OF r notin [OF assms(2)] assms(4)] assms(5) by simp
  show "\<And>u. u \<notin> insert t (set (qs ! c)) \<Longrightarrow> rq_prev (th' u) = rq_prev (th u) \<and> rq_next (th' u) = rq_next (th u)"
    using enqueue_frame [OF r _ _ assms(5)] by auto
  show "set (qs ! c @ [t]) \<subseteq> insert t (set (qs ! c))" by auto
  show "\<And>d. d < length cs \<Longrightarrow> d \<noteq> c \<Longrightarrow> t \<notin> set (qs ! d)" using notin by simp
qed

lemma queues_remove:
  assumes "queues_ok th cs qs" "c < length cs" "qs ! c = as @ t # bs"
    and "ReadyQueue_remove t (th, ready (cs ! c)) = (th', q')"
  shows "queues_ok th' (cs[c := (cs ! c)\<lparr>ready := q'\<rparr>]) (qs[c := as @ bs])"
proof (rule queues_update [where t = t, OF assms(1,2)])
  have r: "rq_repr (th, ready (cs ! c)) (as @ t # bs)"
    using assms(1,2) unfolding queues_ok_def assms(3) [symmetric] by blast
  show "rq_repr (th', q') (as @ bs)" using rq_repr_remove [OF r] assms(4) by simp
  show "\<And>u. u \<notin> insert t (set (qs ! c)) \<Longrightarrow> rq_prev (th' u) = rq_prev (th u) \<and> rq_next (th' u) = rq_next (th u)"
    using remove_frame [OF r _ assms(4)] assms(3) by auto
  show "set (as @ bs) \<subseteq> insert t (set (qs ! c))" using assms(3) by auto
  show "\<And>d. d < length cs \<Longrightarrow> d \<noteq> c \<Longrightarrow> t \<notin> set (qs ! d)"
  proof -
    fix d assume "d < length cs" "d \<noteq> c"
    with assms(1,2) have "set (qs ! d) \<inter> set (qs ! c) = {}" unfolding queues_ok_def by blast
    then show "t \<notin> set (qs ! d)" unfolding assms(3) by auto
  qed
qed

text \<open>Changing thread members other than the links, or context members other than the queue.\<close>

lemma queues_upd_thread:
  assumes "\<And>k. rq_next (f k) = rq_next k" "\<And>k. rq_prev (f k) = rq_prev k"
  shows "queues_ok (upd_thread t f th) cs qs = queues_ok th cs qs"
  by (rule queues_cong) (auto simp: assms)

lemma queues_upd_ctx:
  assumes "ready ctx = ready (cs ! c)"
  shows "queues_ok th (cs[c := ctx]) qs = queues_ok th cs qs"
proof (rule queues_cong)
  show "map ready (cs[c := ctx]) = map ready cs"
    by (cases "c < length cs") (simp_all add: map_update assms map_update [symmetric])
qed simp_all

end
