(* ===== verification/Scheduler_Invariant.thy ===== *)
theory Scheduler_Invariant
  imports Scheduler
begin

text \<open>
  The scheduler invariant and what the operations of \<open>Scheduler\<close> do under it: the ready
  queues of all CPUs hold exactly the Ready threads, each once; the Running threads are
  exactly the current threads of the online CPUs; and an online CPU always has its idle
  thread to fall back on. \<open>sched_inv H\<close> allows the threads in \<open>H\<close> to be current without
  being Running, which is the state between marking the current thread Blocked or
  Terminated and the switch away from it.
\<close>

definition runs :: "sched \<Rightarrow> nat \<Rightarrow> tid \<Rightarrow> bool" where
  "runs \<sigma> c t = (c < length (cpus \<sigma>) \<and> current (cpus \<sigma> ! c) = Some t)"

definition sched_inv :: "tid set \<Rightarrow> sched \<Rightarrow> tid list list \<Rightarrow> bool" where
  "sched_inv H \<sigma> qs =
     (length (hw \<sigma>) = length (cpus \<sigma>) \<and>
      queues_ok (thr \<sigma>) (cpus \<sigma>) qs \<and>
      distinct (thread_dir \<sigma>) \<and> length (thread_dir \<sigma>) < 2 ^ 32 \<and>
      (\<forall>t. queued qs t = (t \<in> set (thread_dir \<sigma>) \<and> state (thr \<sigma> t) = Ready)) \<and>
      (\<forall>t. (\<exists>c. runs \<sigma> c t) = (t \<in> set (thread_dir \<sigma>) \<and> (state (thr \<sigma> t) = Running \<or> t \<in> H))) \<and>
      (\<forall>t\<in>H. state (thr \<sigma> t) \<in> {Blocked, Terminated}) \<and>
      (\<forall>c d t. runs \<sigma> c t \<longrightarrow> runs \<sigma> d t \<longrightarrow> c = d) \<and>
      (\<forall>c<length (cpus \<sigma>). online (cpus \<sigma> ! c) = (current (cpus \<sigma> ! c) \<noteq> None)) \<and>
      (\<forall>c<length (cpus \<sigma>). online (cpus \<sigma> ! c) \<longrightarrow>
         (\<exists>i. idle (cpus \<sigma> ! c) = Some i \<and> i \<notin> H \<and> (runs \<sigma> c i \<or> i \<in> set (qs ! c)))))"

definition sched_ok :: "sched \<Rightarrow> tid list list \<Rightarrow> bool" where
  "sched_ok \<sigma> qs = sched_inv {} \<sigma> qs"

lemma sched_invD:
  assumes "sched_inv H \<sigma> qs"
  shows sched_inv_hw: "length (hw \<sigma>) = length (cpus \<sigma>)"
    and sched_inv_queues: "queues_ok (thr \<sigma>) (cpus \<sigma>) qs"
    and sched_inv_distinct: "distinct (thread_dir \<sigma>)"
    and sched_inv_bound: "length (thread_dir \<sigma>) < 2 ^ 32"
    and sched_inv_queued: "\<And>t. queued qs t = (t \<in> set (thread_dir \<sigma>) \<and> state (thr \<sigma> t) = Ready)"
    and sched_inv_runs: "\<And>t. (\<exists>c. runs \<sigma> c t) = (t \<in> set (thread_dir \<sigma>) \<and> (state (thr \<sigma> t) = Running \<or> t \<in> H))"
    and sched_inv_hole: "\<And>t. t \<in> H \<Longrightarrow> state (thr \<sigma> t) \<in> {Blocked, Terminated}"
    and sched_inv_unique: "\<And>c d t. runs \<sigma> c t \<Longrightarrow> runs \<sigma> d t \<Longrightarrow> c = d"
    and sched_inv_online: "\<And>c. c < length (cpus \<sigma>) \<Longrightarrow> online (cpus \<sigma> ! c) = (current (cpus \<sigma> ! c) \<noteq> None)"
    and sched_inv_idle: "\<And>c. c < length (cpus \<sigma>) \<Longrightarrow> online (cpus \<sigma> ! c) \<Longrightarrow>
         \<exists>i. idle (cpus \<sigma> ! c) = Some i \<and> i \<notin> H \<and> (runs \<sigma> c i \<or> i \<in> set (qs ! c))"
  using assms unfolding sched_inv_def by blast+

lemma queues_length: "queues_ok th cs qs \<Longrightarrow> length qs = length cs"
  unfolding queues_ok_def by blast

lemma queues_disjoint:
  "queues_ok th cs qs \<Longrightarrow> c < length cs \<Longrightarrow> d < length cs \<Longrightarrow> c \<noteq> d \<Longrightarrow> set (qs ! c) \<inter> set (qs ! d) = {}"
  unfolding queues_ok_def by blast

lemma queues_repr: "queues_ok th cs qs \<Longrightarrow> c < length cs \<Longrightarrow> rq_repr (th, ready (cs ! c)) (qs ! c)"
  unfolding queues_ok_def by blast

lemma queued_update:
  assumes "queues_ok th cs qs" "c < length cs"
  shows "queued (qs[c := ys]) t = (t \<in> set ys \<or> (queued qs t \<and> t \<notin> set (qs ! c)))"
proof -
  have len: "length qs = length cs" by (rule queues_length [OF assms(1)])
  have iff: "queued (qs[c := ys]) t = (\<exists>d<length qs. t \<in> set (if d = c then ys else qs ! d))"
    using assms(2) len by (auto simp: queued_conv_nth nth_list_update)
  show ?thesis
  proof (cases "t \<in> set ys")
    case True
    with iff assms(2) len show ?thesis by auto
  next
    case False
    then have "queued (qs[c := ys]) t = (\<exists>d<length qs. d \<noteq> c \<and> t \<in> set (qs ! d))"
      unfolding iff by (metis (full_types))
    also have "\<dots> = (queued qs t \<and> t \<notin> set (qs ! c))"
      unfolding queued_conv_nth len
      using queues_disjoint [OF assms(1) _ assms(2)] assms(2) by (metis IntI empty_iff)
    finally show ?thesis using False by simp
  qed
qed

lemma sched_inv_queue_bound:
  assumes "sched_inv H \<sigma> qs" "c < length (cpus \<sigma>)"
  shows "length (qs ! c) \<le> length (thread_dir \<sigma>)"
proof -
  have len: "c < length qs"
    using queues_length [OF sched_inv_queues [OF assms(1)]] assms(2) by simp
  have "distinct (qs ! c)"
    using rq_repr_distinct [OF queues_repr [OF sched_inv_queues [OF assms(1)] assms(2)]] .
  moreover have "set (qs ! c) \<subseteq> set (thread_dir \<sigma>)"
    using sched_inv_queued [OF assms(1)] queuedI [OF len] by blast
  ultimately show ?thesis
    by (metis card_mono distinct_card List.finite_set distinct_card sched_inv_distinct [OF assms(1)])
qed

lemma sched_inv_queue_room:
  assumes "sched_inv H \<sigma> qs" "c < length (cpus \<sigma>)" "t \<in> set (thread_dir \<sigma>)" "\<not> queued qs t"
  shows "Suc (length (qs ! c)) < 2 ^ 32"
proof -
  have len: "c < length qs"
    using queues_length [OF sched_inv_queues [OF assms(1)]] assms(2) by simp
  have d: "distinct (t # qs ! c)"
    using rq_repr_distinct [OF queues_repr [OF sched_inv_queues [OF assms(1)] assms(2)]]
      assms(4) queuedI [OF len] by auto
  have "set (t # qs ! c) \<subseteq> set (thread_dir \<sigma>)"
    using sched_inv_queued [OF assms(1)] queuedI [OF len] assms(3) by auto
  then have "length (t # qs ! c) \<le> length (thread_dir \<sigma>)"
    by (metis d card_mono distinct_card List.finite_set sched_inv_distinct [OF assms(1)])
  with sched_inv_bound [OF assms(1)] show ?thesis by simp
qed

subsection \<open>The decision under the queue lock\<close>

lemma pick_and_requeue_empty:
  assumes "queues_ok (thr \<sigma>) (cpus \<sigma>) qs" "me < length (cpus \<sigma>)" "qs ! me = []"
  shows "pick_and_requeue me \<sigma> = Some (None, \<sigma>)"
  using pop_next_empty queues_repr [OF assms(1,2)] assms(3)
  by (simp add: pick_and_requeue_def Let_def)

lemma pick_and_requeue_nonempty:
  assumes ok: "queues_ok (thr \<sigma>) (cpus \<sigma>) qs" and me: "me < length (cpus \<sigma>)" and ne: "qs ! me \<noteq> []"
    and cur: "current (cpus \<sigma> ! me) = Some p" and p: "\<not> queued qs p"
    and room: "Suc (length (qs ! me)) < 2 ^ 32"
  obtains x as bs th1 q1 where
    "pick_and_requeue me \<sigma> =
       Some (Some x, \<sigma>\<lparr>thr := th1, cpus := (cpus \<sigma>)[me := (cpus \<sigma> ! me)\<lparr>ready := q1\<rparr>]\<rparr>)"
    "first_best (thr \<sigma>) (qs ! me) x" "qs ! me = as @ x # bs"
    "queues_ok th1 ((cpus \<sigma>)[me := (cpus \<sigma> ! me)\<lparr>ready := q1\<rparr>])
       (qs[me := as @ bs @ (if state (thr \<sigma> p) = Running then [p] else [])])"
    "same_but_links (if state (thr \<sigma> p) = Running
       then upd_thread p (state_update (\<lambda>_. Ready)) (thr \<sigma>) else thr \<sigma>) th1"
proof -
  note r = queues_repr [OF ok me]
  from r ne obtain x as bs th q where
    pop: "ReadyQueue_pop_next (thr \<sigma>, ready (cpus \<sigma> ! me)) = Some (Some x, (th, q))"
    and fb: "first_best (thr \<sigma>) (qs ! me) x" and s: "qs ! me = as @ x # bs"
    and rm: "(th, q) = ReadyQueue_remove x (thr \<sigma>, ready (cpus \<sigma> ! me))" by (rule pop_next_nonempty)
  let ?cs = "(cpus \<sigma>)[me := (cpus \<sigma> ! me)\<lparr>ready := q\<rparr>]"
  have ok1: "queues_ok th ?cs (qs[me := as @ bs])"
    by (rule queues_remove [OF ok me s rm [symmetric]])
  have sbl: "same_but_links (thr \<sigma>) th" using remove_same_but_links rm by metis
  have st: "state (th p) = state (thr \<sigma> p)" by (rule same_but_linksD [OF sbl])
  have len: "length qs = length (cpus \<sigma>)" by (rule queues_length [OF ok])
  show ?thesis
  proof (cases "state (thr \<sigma> p) = Running")
    case False
    then have "pick_and_requeue me \<sigma> = Some (Some x, \<sigma>\<lparr>thr := th, cpus := ?cs\<rparr>)"
      using pop cur st by (simp add: pick_and_requeue_def Let_def)
    with that [of x q th as bs] fb s ok1 sbl False show ?thesis by simp
  next
    case True
    let ?thr = "upd_thread p (state_update (\<lambda>_. Ready)) th"
    obtain th1 q1 where enq: "ReadyQueue_enqueue p (?thr, q) = (th1, q1)" by fastforce
    have "queued qs x" unfolding queued_conv_nth using me len s by (intro exI [of _ me]) simp
    with p have px: "p \<noteq> x" by blast
    have "\<not> queued (qs[me := as @ bs]) p"
      unfolding queued_update [OF ok me] using p queuedI [of me qs p] me len s by auto
    moreover have "queues_ok ?thr ?cs (qs[me := as @ bs])"
      using ok1 queues_upd_thread [of "state_update (\<lambda>_. Ready)"] by simp
    ultimately have "queues_ok th1 (?cs[me := (?cs ! me)\<lparr>ready := q1\<rparr>])
        ((qs[me := as @ bs])[me := (qs[me := as @ bs]) ! me @ [p]])"
      by (intro queues_enqueue [where th = ?thr and t = p]) (use me room s enq len in simp_all)
    then have ok2: "queues_ok th1 ((cpus \<sigma>)[me := (cpus \<sigma> ! me)\<lparr>ready := q1\<rparr>]) (qs[me := as @ bs @ [p]])"
      using me len by simp
    have pk: "pick_and_requeue me \<sigma> =
        Some (Some x, \<sigma>\<lparr>thr := th1, cpus := (cpus \<sigma>)[me := (cpus \<sigma> ! me)\<lparr>ready := q1\<rparr>]\<rparr>)"
      using pop cur st True enq by (simp add: pick_and_requeue_def Let_def)
    have sb: "same_but_links (upd_thread p (state_update (\<lambda>_. Ready)) (thr \<sigma>)) th1"
    proof -
      have "same_but_links ?thr th1" using enqueue_same_but_links enq by metis
      moreover have "same_but_links (upd_thread p (state_update (\<lambda>_. Ready)) (thr \<sigma>)) ?thr"
        by (rule same_but_links_upd_state [OF sbl])
      ultimately show ?thesis by (rule same_but_links_trans [rotated])
    qed
    show ?thesis using that [of x q1 th1 as bs] pk fb s ok2 sb True by simp
  qed
qed

subsection \<open>The switch\<close>

lemma switch_to_effect:
  assumes "current (cpus \<sigma> ! me) = Some p" "p \<noteq> x"
  obtains \<sigma>' where "switch_to me x \<sigma> = Some \<sigma>'"
    "cpus \<sigma>' = (cpus \<sigma>)[me := (cpus \<sigma> ! me)\<lparr>current := Some x\<rparr>]"
    "thread_dir \<sigma>' = thread_dir \<sigma>" "length (hw \<sigma>') = length (hw \<sigma>)" "ipis \<sigma>' = ipis \<sigma>"
    "\<forall>t. state (thr \<sigma>' t) = (if t = x then Running else state (thr \<sigma> t))"
    "\<forall>t. rq_next (thr \<sigma>' t) = rq_next (thr \<sigma> t)" "\<forall>t. rq_prev (thr \<sigma>' t) = rq_prev (thr \<sigma> t)"
    "\<forall>t. priority (thr \<sigma>' t) = priority (thr \<sigma> t)"
  using assms that by (simp add: switch_to_def Let_def)

text \<open>
  The registers of the CPU after a switch from \<open>p\<close> to \<open>x\<close>: the stack pointer is the one
  saved for \<open>x\<close>, the ring-0 stack is the one of \<open>x\<close>, the page-table root is the one of \<open>x\<close>
  when it has one of its own and otherwise unchanged; \<open>p\<close> holds what the CPU held.
\<close>

lemma switch_to_registers:
  assumes "current (cpus \<sigma> ! me) = Some p" "p \<noteq> x" "me < length (hw \<sigma>)" "switch_to me x \<sigma> = Some \<sigma>'"
  shows "hw_sp (hw \<sigma>' ! me) = kernel_stack_top (thr \<sigma> x)"
    and "hw_esp0 (hw \<sigma>' ! me) = kernel_stack_esp0 (thr \<sigma> x)"
    and "hw_root (hw \<sigma>' ! me) =
      (if thread_root (thr \<sigma> x) = 0 then hw_root (hw \<sigma> ! me) else thread_root (thr \<sigma> x))"
    and "kernel_stack_top (thr \<sigma>' p) = hw_sp (hw \<sigma> ! me)"
    and "kernel_stack_esp0 (thr \<sigma>' p) = hw_esp0 (hw \<sigma> ! me)"
  using assms by (auto simp: switch_to_def Let_def)

lemma queues_state_current:
  assumes "queues_ok th cs qs" "me < length cs"
    and "\<And>t. rq_next (th' t) = rq_next (th t)" "\<And>t. rq_prev (th' t) = rq_prev (th t)"
  shows "queues_ok th' (cs[me := (cs ! me)\<lparr>current := c\<rparr>]) qs"
proof -
  have "queues_ok th' cs qs" using queues_cong [of th' th cs cs qs] assms by simp
  then show ?thesis using queues_upd_ctx [of "(cs ! me)\<lparr>current := c\<rparr>" cs me] by simp
qed

lemma schedule_next_effect:
  assumes inv: "sched_inv H \<sigma> qs" and me: "me < length (cpus \<sigma>)" and ne: "qs ! me \<noteq> []"
    and cur: "current (cpus \<sigma> ! me) = Some p"
  obtains x as bs \<sigma>' q1 where
    "schedule_next me \<sigma> = Some \<sigma>'" "first_best (thr \<sigma>) (qs ! me) x" "qs ! me = as @ x # bs"
    "cpus \<sigma>' = (cpus \<sigma>)[me := (cpus \<sigma> ! me)\<lparr>ready := q1, current := Some x\<rparr>]"
    "thread_dir \<sigma>' = thread_dir \<sigma>" "length (hw \<sigma>') = length (hw \<sigma>)" "ipis \<sigma>' = ipis \<sigma>"
    "\<forall>t. state (thr \<sigma>' t) = (if t = x then Running
       else if t = p \<and> state (thr \<sigma> p) = Running then Ready else state (thr \<sigma> t))"
    "\<forall>t. priority (thr \<sigma>' t) = priority (thr \<sigma> t)"
    "queues_ok (thr \<sigma>') (cpus \<sigma>') (qs[me := as @ bs @ (if state (thr \<sigma> p) = Running then [p] else [])])"
    "x \<noteq> p"
proof -
  note ok = sched_inv_queues [OF inv]
  have runs_p: "runs \<sigma> me p" using cur me by (simp add: runs_def)
  then have dir: "p \<in> set (thread_dir \<sigma>)" and "state (thr \<sigma> p) = Running \<or> p \<in> H"
    using sched_inv_runs [OF inv] by blast+
  then have "state (thr \<sigma> p) \<noteq> Ready" using sched_inv_hole [OF inv, of p] by auto
  then have nq: "\<not> queued qs p" using sched_inv_queued [OF inv] by blast
  from ok me ne cur nq sched_inv_queue_room [OF inv me dir nq]
  obtain x as bs th1 q1 where
    pk: "pick_and_requeue me \<sigma> =
       Some (Some x, \<sigma>\<lparr>thr := th1, cpus := (cpus \<sigma>)[me := (cpus \<sigma> ! me)\<lparr>ready := q1\<rparr>]\<rparr>)"
      (is "_ = Some (Some x, ?\<sigma>)")
    and fb: "first_best (thr \<sigma>) (qs ! me) x" and s: "qs ! me = as @ x # bs"
    and ok1: "queues_ok th1 ((cpus \<sigma>)[me := (cpus \<sigma> ! me)\<lparr>ready := q1\<rparr>])
       (qs[me := as @ bs @ (if state (thr \<sigma> p) = Running then [p] else [])])"
    and sb: "same_but_links (if state (thr \<sigma> p) = Running
       then upd_thread p (state_update (\<lambda>_. Ready)) (thr \<sigma>) else thr \<sigma>) th1"
    by (rule pick_and_requeue_nonempty)
  have "queued qs x"
    unfolding queued_conv_nth using me queues_length [OF ok] s by (intro exI [of _ me]) simp
  with nq have px: "p \<noteq> x" by blast
  have cur1: "current (cpus ?\<sigma> ! me) = Some p" using me cur by simp
  from cur1 px obtain \<sigma>' where sw: "switch_to me x ?\<sigma> = Some \<sigma>'"
    and cs: "cpus \<sigma>' = (cpus ?\<sigma>)[me := (cpus ?\<sigma> ! me)\<lparr>current := Some x\<rparr>]"
    and dir': "thread_dir \<sigma>' = thread_dir ?\<sigma>" and hw': "length (hw \<sigma>') = length (hw ?\<sigma>)"
    and ip: "ipis \<sigma>' = ipis ?\<sigma>"
    and st: "\<forall>t. state (thr \<sigma>' t) = (if t = x then Running else state (thr ?\<sigma> t))"
    and nx: "\<forall>t. rq_next (thr \<sigma>' t) = rq_next (thr ?\<sigma> t)"
    and pv: "\<forall>t. rq_prev (thr \<sigma>' t) = rq_prev (thr ?\<sigma> t)"
    and pr: "\<forall>t. priority (thr \<sigma>' t) = priority (thr ?\<sigma> t)"
    by (rule switch_to_effect)
  have "queues_ok (thr \<sigma>') (cpus \<sigma>') (qs[me := as @ bs @ (if state (thr \<sigma> p) = Running then [p] else [])])"
    unfolding cs by (rule queues_state_current [of th1]) (use ok1 me nx pv in simp_all)
  moreover have "cpus \<sigma>' = (cpus \<sigma>)[me := (cpus \<sigma> ! me)\<lparr>ready := q1, current := Some x\<rparr>]"
    using cs me by simp
  moreover have "schedule_next me \<sigma> = Some \<sigma>'" by (simp add: schedule_next_def pk sw)
  moreover have "\<forall>t. state (thr \<sigma>' t) = (if t = x then Running
       else if t = p \<and> state (thr \<sigma> p) = Running then Ready else state (thr \<sigma> t))"
    using st same_but_linksD(1) [OF sb] by simp
  moreover have "\<forall>t. priority (thr \<sigma>' t) = priority (thr \<sigma> t)"
    using pr same_but_linksD(2) [OF sb] by simp
  ultimately show ?thesis using that [of \<sigma>' x as bs q1] fb s px dir' hw' ip by simp
qed

text \<open>The invariant survives any change of this shape.\<close>

lemma runs_update:
  assumes "me < length (cpus \<sigma>)" "cpus \<sigma>' = (cpus \<sigma>)[me := (cpus \<sigma> ! me)\<lparr>ready := q, current := Some x\<rparr>]"
  shows "runs \<sigma>' c t = (if c = me then t = x else runs \<sigma> c t)"
  using assms by (auto simp: runs_def)

lemma sched_inv_switch:
  assumes inv: "sched_inv H \<sigma> qs" and H: "H \<subseteq> {p}" and me: "me < length (cpus \<sigma>)"
    and cur: "current (cpus \<sigma> ! me) = Some p" and s: "qs ! me = as @ x # bs" and px: "x \<noteq> p"
    and cs: "cpus \<sigma>' = (cpus \<sigma>)[me := (cpus \<sigma> ! me)\<lparr>ready := q, current := Some x\<rparr>]"
    and dir: "thread_dir \<sigma>' = thread_dir \<sigma>" and hw: "length (hw \<sigma>') = length (hw \<sigma>)"
    and st: "\<forall>t. state (thr \<sigma>' t) = (if t = x then Running
       else if t = p \<and> state (thr \<sigma> p) = Running then Ready else state (thr \<sigma> t))"
    and ok': "queues_ok (thr \<sigma>') (cpus \<sigma>') (qs[me := as @ bs @ (if state (thr \<sigma> p) = Running then [p] else [])])"
      (is "queues_ok _ _ ?qs")
  shows "sched_inv {} \<sigma>' ?qs"
proof -
  note ok = sched_inv_queues [OF inv]
  note runs' = runs_update [OF me cs]
  have len: "length (cpus \<sigma>') = length (cpus \<sigma>)" "me < length qs" using cs queues_length [OF ok] me by simp_all
  have rp: "runs \<sigma> me p" using cur me by (simp add: runs_def)
  have d: "distinct (as @ x # bs)" using rq_repr_distinct [OF queues_repr [OF ok me]] s by simp
  have qx: "queued qs x" using queuedI [OF len(2)] s by simp
  have q: "queued ?qs t = ((queued qs t \<and> t \<noteq> x) \<or> t = p \<and> state (thr \<sigma> p) = Running)" for t
    unfolding queued_update [OF ok me] using queuedI [OF len(2), of t] d s by auto
  have "queued ?qs t = (t \<in> set (thread_dir \<sigma>') \<and> state (thr \<sigma>' t) = Ready)" for t
    unfolding q sched_inv_queued [OF inv] using st dir px rp sched_inv_runs [OF inv, of p] by auto
  moreover have "(\<exists>c. runs \<sigma>' c t) = (t \<in> set (thread_dir \<sigma>') \<and> (state (thr \<sigma>' t) = Running \<or> t \<in> {}))" for t
  proof (cases "t = x")
    case True
    with st dir qx show ?thesis
      unfolding runs' sched_inv_queued [OF inv] by (auto intro: exI [of _ me])
  next
    case False
    then have "(\<exists>c. runs \<sigma>' c t) = ((\<exists>c. runs \<sigma> c t) \<and> t \<noteq> p)"
      unfolding runs' using rp sched_inv_unique [OF inv] cur
      by (metis option.inject runs_def)
    then show ?thesis using False H st dir unfolding sched_inv_runs [OF inv] by auto
  qed
  moreover have "c = c'" if "runs \<sigma>' c t" "runs \<sigma>' c' t" for c c' t
  proof -
    have "\<not> runs \<sigma> e x" for e
      using qx sched_inv_runs [OF inv, of x] sched_inv_queued [OF inv, of x] H px by auto
    with that sched_inv_unique [OF inv, of c t c'] show ?thesis unfolding runs' by (auto split: if_splits)
  qed
  moreover have "online (cpus \<sigma>' ! c) = (current (cpus \<sigma>' ! c) \<noteq> None)" if "c < length (cpus \<sigma>')" for c
    using that sched_inv_online [OF inv, of c] cur me cs by (cases "c = me") auto
  moreover have "\<exists>i. idle (cpus \<sigma>' ! c) = Some i \<and> i \<notin> {} \<and> (runs \<sigma>' c i \<or> i \<in> set (?qs ! c))"
    if c: "c < length (cpus \<sigma>')" "online (cpus \<sigma>' ! c)" for c
  proof -
    have "online (cpus \<sigma> ! c)" using c cs me by (cases "c = me") auto
    with sched_inv_idle [OF inv, of c] c len obtain i where
      i: "idle (cpus \<sigma> ! c) = Some i" "i \<notin> H" "runs \<sigma> c i \<or> i \<in> set (qs ! c)" by auto
    show ?thesis
    proof (cases "c = me")
      case True
      have "i = p \<Longrightarrow> state (thr \<sigma> p) = Running"
        using i(2) rp sched_inv_runs [OF inv, of p] by auto
      with i(3) True cur s len(2) have "i = x \<or> i \<in> set (?qs ! me)" by (auto simp: runs_def)
      with True i(1) cs me show ?thesis unfolding runs' by auto
    next
      case False
      with i cs show ?thesis unfolding runs' by auto
    qed
  qed
  ultimately show ?thesis
    unfolding sched_inv_def using ok' dir hw sched_inv_hw [OF inv] sched_inv_distinct [OF inv]
      sched_inv_bound [OF inv] len(1) by auto
qed

lemma runs_cong: "cpus \<sigma>' = cpus \<sigma> \<Longrightarrow> runs \<sigma>' c t = runs \<sigma> c t"
  by (simp add: runs_def)

lemma sched_inv_cong:
  assumes "sched_inv H \<sigma> qs" "length (cpus \<sigma>') = length (cpus \<sigma>)"
    and "\<And>c. c < length (cpus \<sigma>) \<Longrightarrow> ready (cpus \<sigma>' ! c) = ready (cpus \<sigma> ! c) \<and>
      current (cpus \<sigma>' ! c) = current (cpus \<sigma> ! c) \<and> online (cpus \<sigma>' ! c) = online (cpus \<sigma> ! c) \<and>
      idle (cpus \<sigma>' ! c) = idle (cpus \<sigma> ! c)"
    and "thread_dir \<sigma>' = thread_dir \<sigma>" "hw \<sigma>' = hw \<sigma>"
    and "\<And>t. state (thr \<sigma>' t) = state (thr \<sigma> t)"
    and "\<And>t. rq_next (thr \<sigma>' t) = rq_next (thr \<sigma> t)" "\<And>t. rq_prev (thr \<sigma>' t) = rq_prev (thr \<sigma> t)"
  shows "sched_inv H \<sigma>' qs"
proof -
  have r: "runs \<sigma>' c t = runs \<sigma> c t" for c t using assms(2,3) by (auto simp: runs_def)
  have "map ready (cpus \<sigma>') = map ready (cpus \<sigma>)"
    using assms(2,3) by (auto simp: list_eq_iff_nth_eq)
  then have "queues_ok (thr \<sigma>') (cpus \<sigma>') qs"
    using queues_cong [of "thr \<sigma>'" "thr \<sigma>" "cpus \<sigma>'" "cpus \<sigma>" qs] assms(7,8) sched_inv_queues [OF assms(1)] by simp
  with assms r show ?thesis unfolding sched_inv_def by simp
qed

lemma schedule_next_empty:
  assumes inv: "sched_inv {} \<sigma> qs" and me: "me < length (cpus \<sigma>)" and "qs ! me = []"
    and cur: "current (cpus \<sigma> ! me) = Some p"
  shows "schedule_next me \<sigma> =
      Some (\<sigma>\<lparr>thr := upd_thread p (quantum_ticks_update (\<lambda>_. DEFAULT_QUANTUM)) (thr \<sigma>)\<rparr>)"
    and "sched_inv {} (\<sigma>\<lparr>thr := upd_thread p (quantum_ticks_update (\<lambda>_. DEFAULT_QUANTUM)) (thr \<sigma>)\<rparr>) qs"
proof -
  show "schedule_next me \<sigma> =
      Some (\<sigma>\<lparr>thr := upd_thread p (quantum_ticks_update (\<lambda>_. DEFAULT_QUANTUM)) (thr \<sigma>)\<rparr>)"
    using pick_and_requeue_empty [OF sched_inv_queues [OF inv] me] assms(3) cur
    by (simp add: schedule_next_def)
  show "sched_inv {} (\<sigma>\<lparr>thr := upd_thread p (quantum_ticks_update (\<lambda>_. DEFAULT_QUANTUM)) (thr \<sigma>)\<rparr>) qs"
    by (rule sched_inv_cong [OF inv]) simp_all
qed

text \<open>A CPU whose current thread leaves has its idle thread queued.\<close>

lemma hole_queue_nonempty:
  assumes inv: "sched_inv H \<sigma> qs" and "me < length (cpus \<sigma>)" "current (cpus \<sigma> ! me) = Some p" "p \<in> H"
  shows "qs ! me \<noteq> []"
  using sched_inv_idle [OF inv assms(2)] sched_inv_online [OF inv assms(2)] assms(3,4)
  by (auto simp: runs_def)

lemma schedule_next_ok:
  assumes inv: "sched_inv H \<sigma> qs" and H: "H \<subseteq> {p}" and me: "me < length (cpus \<sigma>)"
    and cur: "current (cpus \<sigma> ! me) = Some p"
  shows "\<exists>\<sigma>' qs'. schedule_next me \<sigma> = Some \<sigma>' \<and> sched_ok \<sigma>' qs' \<and> thread_dir \<sigma>' = thread_dir \<sigma>
    \<and> length (cpus \<sigma>') = length (cpus \<sigma>)"
proof (cases "qs ! me = []")
  case True
  then have "H = {}" using hole_queue_nonempty [OF inv me cur] H by blast
  with inv have "sched_inv {} \<sigma> qs" by simp
  from schedule_next_empty [OF this me True cur] show ?thesis unfolding sched_ok_def by auto
next
  case False
  from inv me False cur obtain x as bs \<sigma>' q1 where
    1: "schedule_next me \<sigma> = Some \<sigma>'" and 2: "qs ! me = as @ x # bs"
    and 3: "cpus \<sigma>' = (cpus \<sigma>)[me := (cpus \<sigma> ! me)\<lparr>ready := q1, current := Some x\<rparr>]"
    and 4: "thread_dir \<sigma>' = thread_dir \<sigma>" "length (hw \<sigma>') = length (hw \<sigma>)"
    and 5: "\<forall>t. state (thr \<sigma>' t) = (if t = x then Running
       else if t = p \<and> state (thr \<sigma> p) = Running then Ready else state (thr \<sigma> t))"
    and 6: "queues_ok (thr \<sigma>') (cpus \<sigma>') (qs[me := as @ bs @ (if state (thr \<sigma> p) = Running then [p] else [])])"
    and 7: "x \<noteq> p"
    by (rule schedule_next_effect)
  from sched_inv_switch [OF inv H me cur 2 7 3 4 5 6] 1 3 4 show ?thesis unfolding sched_ok_def by auto
qed

subsection \<open>Leaving the CPU\<close>

lemma set_current_state_inv:
  assumes inv: "sched_inv {} \<sigma> qs" and me: "me < length (cpus \<sigma>)"
    and cur: "current (cpus \<sigma> ! me) = Some p" and ni: "idle (cpus \<sigma> ! me) \<noteq> Some p"
    and s: "s \<in> {Blocked, Terminated}"
  shows "sched_inv {p} (set_current_state me s \<sigma>) qs"
proof -
  let ?\<sigma> = "set_current_state me s \<sigma>"
  have eq: "?\<sigma> = \<sigma>\<lparr>thr := upd_thread p (state_update (\<lambda>_. s)) (thr \<sigma>)\<rparr>"
    by (simp add: set_current_state_def cur)
  have r: "runs ?\<sigma> c t = runs \<sigma> c t" for c t by (simp add: eq runs_def)
  have rp: "runs \<sigma> me p" using cur me by (simp add: runs_def)
  then have p: "p \<in> set (thread_dir \<sigma>)" "state (thr \<sigma> p) = Running"
    using sched_inv_runs [OF inv, of p] by auto
  then have nq: "\<not> queued qs p" using sched_inv_queued [OF inv, of p] by simp
  have "\<exists>i. idle (cpus ?\<sigma> ! c) = Some i \<and> i \<notin> {p} \<and> (runs ?\<sigma> c i \<or> i \<in> set (qs ! c))"
    if c: "c < length (cpus ?\<sigma>)" "online (cpus ?\<sigma> ! c)" for c
  proof -
    from c sched_inv_idle [OF inv, of c] obtain i where
      i: "idle (cpus \<sigma> ! c) = Some i" "runs \<sigma> c i \<or> i \<in> set (qs ! c)" by (auto simp: eq)
    have "i \<noteq> p"
    proof
      assume "i = p"
      with i(2) nq c queues_length [OF sched_inv_queues [OF inv]] queuedI [of c qs p]
      have "runs \<sigma> c p" by (auto simp: eq)
      then have "c = me" using rp sched_inv_unique [OF inv] by blast
      with i(1) ni \<open>i = p\<close> show False by simp
    qed
    with i show ?thesis unfolding r by (simp add: eq)
  qed
  moreover have "queues_ok (thr ?\<sigma>) (cpus ?\<sigma>) qs"
    using sched_inv_queues [OF inv] queues_upd_thread [of "state_update (\<lambda>_. s)"] by (simp add: eq)
  moreover have "queued qs t = (t \<in> set (thread_dir ?\<sigma>) \<and> state (thr ?\<sigma> t) = Ready)" for t
    using sched_inv_queued [OF inv, of t] p s by (auto simp: eq)
  moreover have "(\<exists>c. runs ?\<sigma> c t) = (t \<in> set (thread_dir ?\<sigma>) \<and> (state (thr ?\<sigma> t) = Running \<or> t \<in> {p}))" for t
    unfolding r sched_inv_runs [OF inv] using p by (auto simp: eq)
  moreover have "c = d" if "runs ?\<sigma> c t" "runs ?\<sigma> d t" for c d t
    using that sched_inv_unique [OF inv] unfolding r by blast
  moreover have "online (cpus ?\<sigma> ! c) = (current (cpus ?\<sigma> ! c) \<noteq> None)" if "c < length (cpus ?\<sigma>)" for c
    using that sched_inv_online [OF inv, of c] by (simp add: eq)
  ultimately show ?thesis
    unfolding sched_inv_def using sched_inv_hw [OF inv] sched_inv_distinct [OF inv] sched_inv_bound [OF inv] s
    by (auto simp: eq)
qed

subsection \<open>Placement\<close>

definition least_loaded :: "CpuContext list \<Rightarrow> nat \<Rightarrow> bool" where
  "least_loaded cs b =
     (b < length cs \<and> online (cs ! b) \<and>
      (\<forall>d<length cs. online (cs ! d) \<longrightarrow> ReadyQueue_size (ready (cs ! b)) \<le> ReadyQueue_size (ready (cs ! d))) \<and>
      (\<forall>d<b. online (cs ! d) \<longrightarrow> ReadyQueue_size (ready (cs ! b)) < ReadyQueue_size (ready (cs ! d))))"

definition pick_inv :: "CpuContext list \<Rightarrow> nat \<Rightarrow> u32 \<Rightarrow> bool \<Rightarrow> bool" where
  "pick_inv cs best load found =
     (if found then least_loaded cs best \<and> load = ReadyQueue_size (ready (cs ! best))
      else (\<forall>d<length cs. \<not> online (cs ! d)))"

lemma pick_inv_skip:
  assumes "pick_inv cs best load found" "\<not> (online c \<and> (\<not> found \<or> ReadyQueue_size (ready c) < load))"
  shows "pick_inv (cs @ [c]) best load found"
  using assms by (auto simp: pick_inv_def least_loaded_def nth_append less_Suc_eq)

lemma pick_inv_take:
  assumes "pick_inv cs best load found" "online c" "\<not> found \<or> ReadyQueue_size (ready c) < load"
  shows "pick_inv (cs @ [c]) (length cs) (ReadyQueue_size (ready c)) True"
  using assms by (auto simp: pick_inv_def least_loaded_def nth_append less_Suc_eq split: if_splits)

lemma pick_loop_inv:
  "pick_inv pre best load found \<Longrightarrow> pick_loop cs (length pre) best load found = (b, f) \<Longrightarrow>
   \<exists>l. pick_inv (pre @ cs) b l f"
proof (induction cs arbitrary: pre best load found)
  case Nil
  then show ?case by auto
next
  case (Cons c cs)
  show ?case
  proof (cases "online c \<and> (\<not> found \<or> ReadyQueue_size (ready c) < load)")
    case True
    with Cons.IH [OF pick_inv_take [OF Cons.prems(1)], of c] Cons.prems(2)
    show ?thesis by (auto simp: Let_def)
  next
    case False
    with Cons.IH [OF pick_inv_skip [OF Cons.prems(1) False]] Cons.prems(2)
    show ?thesis by (auto simp: Let_def split: if_splits)
  qed
qed

lemma pick_target_least_loaded:
  assumes "\<exists>c<length (cpus \<sigma>). online (cpus \<sigma> ! c)"
  shows "least_loaded (cpus \<sigma>) (pick_target_cpu \<sigma>)"
proof -
  obtain b f where bf: "pick_loop (cpus \<sigma>) 0 0 (- 1) False = (b, f)" by fastforce
  have "pick_inv [] 0 (- 1) False" by (simp add: pick_inv_def)
  from pick_loop_inv [OF this, of "cpus \<sigma>" b f] bf assms show ?thesis
    by (auto simp: pick_target_cpu_def pick_inv_def split: if_splits)
qed

lemma pick_target_none: "\<forall>c<length (cpus \<sigma>). \<not> online (cpus \<sigma> ! c) \<Longrightarrow> pick_target_cpu \<sigma> = 0"
proof -
  assume off: "\<forall>c<length (cpus \<sigma>). \<not> online (cpus \<sigma> ! c)"
  obtain b f where bf: "pick_loop (cpus \<sigma>) 0 0 (- 1) False = (b, f)" by fastforce
  have "pick_inv [] 0 (- 1) False" by (simp add: pick_inv_def)
  from pick_loop_inv [OF this, of "cpus \<sigma>" b f] bf off show ?thesis
    by (auto simp: pick_target_cpu_def pick_inv_def least_loaded_def split: if_splits)
qed

lemma pick_target_in_range: "cpus \<sigma> \<noteq> [] \<Longrightarrow> pick_target_cpu \<sigma> < length (cpus \<sigma>)"
  using pick_target_least_loaded [of \<sigma>] pick_target_none [of \<sigma>] unfolding least_loaded_def by fastforce

subsection \<open>Entering a queue\<close>

lemma queues_frame:
  assumes "queues_ok th cs qs"
    and "\<And>u. queued qs u \<Longrightarrow> rq_prev (th' u) = rq_prev (th u) \<and> rq_next (th' u) = rq_next (th u)"
  shows "queues_ok th' cs qs"
proof -
  have "rq_repr (th', ready (cs ! c)) (qs ! c)" if "c < length cs" for c
  proof (rule rq_repr_frame [OF queues_repr [OF assms(1) that]], rule ballI)
    fix u assume "u \<in> set (qs ! c)"
    then have "queued qs u" using that queues_length [OF assms(1)] by (intro queuedI [of c]) simp_all
    then show "rq_prev (th' u) = rq_prev (th u) \<and> rq_next (th' u) = rq_next (th u)" by (rule assms(2))
  qed
  with assms(1) show ?thesis unfolding queues_ok_def by blast
qed

text \<open>
  A thread \<open>t\<close> that is neither queued nor current becomes Ready at the tail of the queue
  of CPU \<open>c\<close>: a new thread, or a woken one.
\<close>

lemma sched_inv_add:
  assumes inv: "sched_inv {} \<sigma> qs" and c: "c < length (cpus \<sigma>)"
    and t: "\<not> queued qs t" "\<And>d. \<not> runs \<sigma> d t"
    and dir: "set (thread_dir \<sigma>') = insert t (set (thread_dir \<sigma>))" "distinct (thread_dir \<sigma>')"
      "length (thread_dir \<sigma>') < 2 ^ 32"
    and cs: "cpus \<sigma>' = (cpus \<sigma>)[c := (cpus \<sigma> ! c)\<lparr>ready := q\<rparr>]" and hw: "hw \<sigma>' = hw \<sigma>"
    and st: "\<And>u. state (thr \<sigma>' u) = (if u = t then Ready else state (thr \<sigma> u))"
    and ok': "queues_ok (thr \<sigma>') (cpus \<sigma>') (qs[c := qs ! c @ [t]])"
  shows "sched_inv {} \<sigma>' (qs[c := qs ! c @ [t]])"
proof -
  note ok = sched_inv_queues [OF inv]
  have len: "length qs = length (cpus \<sigma>)" by (rule queues_length [OF ok])
  have mem: "(cpus \<sigma>' ! d) = (if d = c then (cpus \<sigma> ! c)\<lparr>ready := q\<rparr> else cpus \<sigma> ! d)" for d
    using cs c by (cases "d = c") auto
  have lenc: "length (cpus \<sigma>') = length (cpus \<sigma>)" using cs by simp
  have r: "runs \<sigma>' d u = runs \<sigma> d u" for d u by (auto simp: runs_def mem lenc)
  have q: "queued (qs[c := qs ! c @ [t]]) u = (u = t \<or> queued qs u)" for u
    unfolding queued_update [OF ok c] using queuedI [of c qs u] c len by auto
  have "queued (qs[c := qs ! c @ [t]]) u = (u \<in> set (thread_dir \<sigma>') \<and> state (thr \<sigma>' u) = Ready)" for u
    unfolding q dir st sched_inv_queued [OF inv] by auto
  moreover have "(\<exists>d. runs \<sigma>' d u) = (u \<in> set (thread_dir \<sigma>') \<and> (state (thr \<sigma>' u) = Running \<or> u \<in> {}))" for u
    using sched_inv_runs [OF inv, of u] t(2) unfolding r dir st by auto
  moreover have "\<exists>i. idle (cpus \<sigma>' ! d) = Some i \<and> i \<notin> {} \<and> (runs \<sigma>' d i \<or> i \<in> set (qs[c := qs ! c @ [t]] ! d))"
    if "d < length (cpus \<sigma>')" "online (cpus \<sigma>' ! d)" for d
  proof -
    from that have "d < length (cpus \<sigma>)" "online (cpus \<sigma> ! d)" by (auto simp: mem lenc split: if_splits)
    from sched_inv_idle [OF inv this] obtain i where i: "idle (cpus \<sigma> ! d) = Some i"
      "runs \<sigma> d i \<or> i \<in> set (qs ! d)" by blast
    have "set (qs ! d) \<subseteq> set (qs[c := qs ! c @ [t]] ! d)" using c len by (cases "d = c") auto
    with i show ?thesis unfolding r by (auto simp: mem)
  qed
  moreover have "online (cpus \<sigma>' ! d) = (current (cpus \<sigma>' ! d) \<noteq> None)" if "d < length (cpus \<sigma>')" for d
    using that sched_inv_online [OF inv, of d] c by (auto simp: mem lenc)
  ultimately show ?thesis
    unfolding sched_inv_def r using ok' dir(2,3) hw sched_inv_hw [OF inv] sched_inv_unique [OF inv] lenc by auto
qed

lemma enqueue_on_effect:
  assumes ok: "queues_ok (thr \<sigma>) (cpus \<sigma>) qs" and c: "c < length (cpus \<sigma>)" and t: "\<not> queued qs t"
    and room: "Suc (length (qs ! c)) < 2 ^ 32"
  obtains \<sigma>' q where "enqueue_on me c (Some t) \<sigma> = \<sigma>'"
    "cpus \<sigma>' = (cpus \<sigma>)[c := (cpus \<sigma> ! c)\<lparr>ready := q\<rparr>]" "hw \<sigma>' = hw \<sigma>"
    "thread_dir \<sigma>' = thread_dir \<sigma>" "same_but_links (thr \<sigma>) (thr \<sigma>')"
    "ipis \<sigma>' = ipis \<sigma> @ (if c \<noteq> me then [c] else [])"
    "queues_ok (thr \<sigma>') (cpus \<sigma>') (qs[c := qs ! c @ [t]])"
proof -
  obtain th q where e: "ReadyQueue_enqueue t (thr \<sigma>, ready (cpus \<sigma> ! c)) = (th, q)" by fastforce
  let ?\<sigma> = "enqueue_on me c (Some t) \<sigma>"
  have "cpus ?\<sigma> = (cpus \<sigma>)[c := (cpus \<sigma> ! c)\<lparr>ready := q\<rparr>]" "hw ?\<sigma> = hw \<sigma>"
    "thread_dir ?\<sigma> = thread_dir \<sigma>" "thr ?\<sigma> = th" "ipis ?\<sigma> = ipis \<sigma> @ (if c \<noteq> me then [c] else [])"
    using c e by (simp_all add: enqueue_on_def Let_def)
  with that [of ?\<sigma> q] queues_enqueue [OF ok c t room e] enqueue_same_but_links [OF e]
  show ?thesis by simp
qed

text \<open>\<open>ready_locked\<close> wakes a Blocked thread onto the least-loaded CPU and ignores any other.\<close>

lemma ready_locked_ok:
  assumes inv: "sched_ok \<sigma> qs" and t: "t \<in> set (thread_dir \<sigma>)" "state (thr \<sigma> t) = Blocked" and ne: "cpus \<sigma> \<noteq> []"
  shows "sched_ok (ready_locked me (Some t) \<sigma>)
    (qs[pick_target_cpu \<sigma> := qs ! pick_target_cpu \<sigma> @ [t]])"
    and "state (thr (ready_locked me (Some t) \<sigma>) u) = (if u = t then Ready else state (thr \<sigma> u))"
    and "thread_dir (ready_locked me (Some t) \<sigma>) = thread_dir \<sigma>"
    and "length (cpus (ready_locked me (Some t) \<sigma>)) = length (cpus \<sigma>)"
proof -
  from inv have inv': "sched_inv {} \<sigma> qs" by (simp add: sched_ok_def)
  let ?\<sigma>1 = "\<sigma>\<lparr>thr := upd_thread t (state_update (\<lambda>_. Ready)) (thr \<sigma>)\<rparr>"
  let ?c = "pick_target_cpu \<sigma>"
  have pk: "pick_target_cpu ?\<sigma>1 = ?c" by (simp add: pick_target_cpu_def)
  have c: "?c < length (cpus \<sigma>)" by (rule pick_target_in_range [OF ne])
  have nq: "\<not> queued qs t" using sched_inv_queued [OF inv'] t by simp
  have nr: "\<not> runs \<sigma> d t" for d using sched_inv_runs [OF inv', of t] t by auto
  have ok1: "queues_ok (thr ?\<sigma>1) (cpus ?\<sigma>1) qs"
    using sched_inv_queues [OF inv'] queues_upd_thread [of "state_update (\<lambda>_. Ready)"] by simp
  have c1: "?c < length (cpus ?\<sigma>1)" using c by simp
  from ok1 c1 nq sched_inv_queue_room [OF inv' c t(1) nq]
  obtain \<sigma>' q where e: "enqueue_on me ?c (Some t) ?\<sigma>1 = \<sigma>'"
    and cs: "cpus \<sigma>' = (cpus ?\<sigma>1)[?c := (cpus ?\<sigma>1 ! ?c)\<lparr>ready := q\<rparr>]" and hw: "hw \<sigma>' = hw ?\<sigma>1"
    and dir: "thread_dir \<sigma>' = thread_dir ?\<sigma>1" and sb: "same_but_links (thr ?\<sigma>1) (thr \<sigma>')"
    and ok2: "queues_ok (thr \<sigma>') (cpus \<sigma>') (qs[?c := qs ! ?c @ [t]])"
    by (rule enqueue_on_effect)
  have rl: "ready_locked me (Some t) \<sigma> = \<sigma>'" using t(2) e pk by (simp add: ready_locked_def Let_def)
  have st: "state (thr \<sigma>' u) = (if u = t then Ready else state (thr \<sigma> u))" for u
    using same_but_linksD(1) [OF sb] by simp
  have "sched_inv {} \<sigma>' (qs[?c := qs ! ?c @ [t]])"
    by (rule sched_inv_add [OF inv' c nq nr])
      (use dir t(1) sched_inv_distinct [OF inv'] sched_inv_bound [OF inv'] cs hw st ok2 in auto)
  with rl st dir cs show "sched_ok (ready_locked me (Some t) \<sigma>)
    (qs[pick_target_cpu \<sigma> := qs ! pick_target_cpu \<sigma> @ [t]])"
    "state (thr (ready_locked me (Some t) \<sigma>) u) = (if u = t then Ready else state (thr \<sigma> u))"
    "thread_dir (ready_locked me (Some t) \<sigma>) = thread_dir \<sigma>"
    "length (cpus (ready_locked me (Some t) \<sigma>)) = length (cpus \<sigma>)"
    by (simp_all add: sched_ok_def)
qed

lemma ready_locked_ignored: "state (thr \<sigma> t) \<noteq> Blocked \<Longrightarrow> ready_locked me (Some t) \<sigma> = \<sigma>"
  by (simp add: ready_locked_def)

text \<open>A new thread, whatever its members other than the state, enters a queue as Ready.\<close>

lemma add_new_thread_ok:
  assumes inv: "sched_ok \<sigma> qs" and t: "t \<notin> set (thread_dir \<sigma>)" and ne: "cpus \<sigma> \<noteq> []"
    and k: "state k = Ready" and room: "Suc (length (thread_dir \<sigma>)) < 2 ^ 32"
    and \<sigma>1: "\<sigma>1 = \<sigma>\<lparr>g_next_id := n, thr := (thr \<sigma>)(t := k), thread_dir := thread_dir \<sigma> @ [t]\<rparr>"
  shows "sched_ok (enqueue_on me (pick_target_cpu \<sigma>1) (Some t) \<sigma>1)
    (qs[pick_target_cpu \<sigma> := qs ! pick_target_cpu \<sigma> @ [t]])"
proof -
  from inv have inv': "sched_inv {} \<sigma> qs" by (simp add: sched_ok_def)
  let ?c = "pick_target_cpu \<sigma>"
  have pk: "pick_target_cpu \<sigma>1 = ?c" by (simp add: \<sigma>1 pick_target_cpu_def)
  have c: "?c < length (cpus \<sigma>)" by (rule pick_target_in_range [OF ne])
  have nq: "\<not> queued qs t" using sched_inv_queued [OF inv'] t by simp
  have nr: "\<not> runs \<sigma> d t" for d using sched_inv_runs [OF inv', of t] t by auto
  have "queues_ok (thr \<sigma>1) (cpus \<sigma>) qs"
    by (rule queues_frame [OF sched_inv_queues [OF inv']]) (use nq in \<open>auto simp: \<sigma>1\<close>)
  then have ok1: "queues_ok (thr \<sigma>1) (cpus \<sigma>1) qs" by (simp add: \<sigma>1)
  have c1: "?c < length (cpus \<sigma>1)" using c by (simp add: \<sigma>1)
  have "Suc (length (qs ! ?c)) < 2 ^ 32"
    using sched_inv_queue_bound [OF inv' c] room by simp
  with ok1 c1 nq obtain \<sigma>' q where e: "enqueue_on me ?c (Some t) \<sigma>1 = \<sigma>'"
    and cs: "cpus \<sigma>' = (cpus \<sigma>1)[?c := (cpus \<sigma>1 ! ?c)\<lparr>ready := q\<rparr>]" and hw: "hw \<sigma>' = hw \<sigma>1"
    and dir: "thread_dir \<sigma>' = thread_dir \<sigma>1" and sb: "same_but_links (thr \<sigma>1) (thr \<sigma>')"
    and ok2: "queues_ok (thr \<sigma>') (cpus \<sigma>') (qs[?c := qs ! ?c @ [t]])"
    by (rule enqueue_on_effect)
  have st: "state (thr \<sigma>' u) = (if u = t then Ready else state (thr \<sigma> u))" for u
    using same_but_linksD(1) [OF sb] k by (simp add: \<sigma>1)
  have "sched_inv {} \<sigma>' (qs[?c := qs ! ?c @ [t]])"
    by (rule sched_inv_add [OF inv' c nq nr])
      (use dir t room sched_inv_distinct [OF inv'] cs hw st ok2 in \<open>auto simp: \<sigma>1\<close>)
  with e pk show ?thesis by (simp add: sched_ok_def)
qed

lemma unpublished_thread_ok:
  assumes inv: "sched_ok \<sigma> qs" and t: "t \<notin> set (thread_dir \<sigma>)"
  shows "sched_ok (\<sigma>\<lparr>g_next_id := n, thr := (thr \<sigma>)(t := k)\<rparr>) qs"
proof -
  from inv have inv': "sched_inv {} \<sigma> qs" by (simp add: sched_ok_def)
  let ?\<sigma> = "\<sigma>\<lparr>g_next_id := n, thr := (thr \<sigma>)(t := k)\<rparr>"
  have nq: "\<not> queued qs t" using sched_inv_queued [OF inv'] t by simp
  have "queues_ok (thr ?\<sigma>) (cpus \<sigma>) qs"
    by (rule queues_frame [OF sched_inv_queues [OF inv']]) (use nq in auto)
  moreover have "queued qs u = (u \<in> set (thread_dir \<sigma>) \<and> state (thr ?\<sigma> u) = Ready)" for u
    using sched_inv_queued [OF inv', of u] t by auto
  moreover have "(\<exists>c. runs ?\<sigma> c u) = (u \<in> set (thread_dir \<sigma>) \<and> (state (thr ?\<sigma> u) = Running \<or> u \<in> {}))" for u
    using sched_inv_runs [OF inv', of u] t by (auto simp: runs_def)
  moreover have "runs ?\<sigma> c u = runs \<sigma> c u" for c u by (simp add: runs_def)
  ultimately show ?thesis
    using inv' unfolding sched_ok_def sched_inv_def by simp
qed

lemma next_id_ok: "sched_ok \<sigma> qs \<Longrightarrow> sched_ok (\<sigma>\<lparr>g_next_id := n\<rparr>) qs"
  unfolding sched_ok_def by (erule sched_inv_cong) simp_all

definition fresh_object :: "sched \<Rightarrow> tid expected \<Rightarrow> bool" where
  "fresh_object \<sigma> obj =
     (case obj of Inl _ \<Rightarrow> True
      | Inr t \<Rightarrow> t \<notin> set (thread_dir \<sigma>) \<and> Suc (length (thread_dir \<sigma>)) < 2 ^ 32)"

lemma create_thread_ok:
  assumes "sched_ok \<sigma> qs" "fresh_object \<sigma> obj" "cpus \<sigma> \<noteq> []"
  shows "\<exists>qs'. sched_ok (snd (KE_SCHED_CreateThread me obj stack sp ins ent arg prio \<sigma>)) qs'"
proof (cases obj)
  case (Inl e)
  with next_id_ok [OF assms(1)] show ?thesis by (auto simp: KE_SCHED_CreateThread_def)
next
  case t: (Inr t)
  with assms(2) have new: "t \<notin> set (thread_dir \<sigma>)" "Suc (length (thread_dir \<sigma>)) < 2 ^ 32"
    by (simp_all add: fresh_object_def)
  show ?thesis
  proof (cases stack)
    case (Inl e)
    with t next_id_ok [OF assms(1)] show ?thesis by (auto simp: KE_SCHED_CreateThread_def)
  next
    case base: (Inr base)
    show ?thesis
    proof (cases "ins = Success")
      case False
      with t base unpublished_thread_ok [OF assms(1) new(1)] show ?thesis
        by (auto simp: KE_SCHED_CreateThread_def Let_def)
    next
      case True
      with t base show ?thesis
        by (auto simp: KE_SCHED_CreateThread_def Let_def new_thread_def
            intro!: exI add_new_thread_ok [OF assms(1) new(1) assms(3) _ new(2) refl])
    qed
  qed
qed

lemma create_user_thread_ok:
  assumes "sched_ok \<sigma> qs" "fresh_object \<sigma> obj" "cpus \<sigma> \<noteq> []"
  shows "\<exists>qs'. sched_ok (snd (KE_SCHED_CreateUserThread me obj stack sp ins root \<sigma>)) qs'"
proof (cases obj)
  case (Inl e)
  with next_id_ok [OF assms(1)] show ?thesis by (auto simp: KE_SCHED_CreateUserThread_def)
next
  case t: (Inr t)
  with assms(2) have new: "t \<notin> set (thread_dir \<sigma>)" "Suc (length (thread_dir \<sigma>)) < 2 ^ 32"
    by (simp_all add: fresh_object_def)
  show ?thesis
  proof (cases stack)
    case (Inl e)
    with t next_id_ok [OF assms(1)] show ?thesis by (auto simp: KE_SCHED_CreateUserThread_def)
  next
    case base: (Inr base)
    show ?thesis
    proof (cases "ins = Success")
      case False
      with t base unpublished_thread_ok [OF assms(1) new(1)] show ?thesis
        by (auto simp: KE_SCHED_CreateUserThread_def Let_def)
    next
      case True
      with t base show ?thesis
        by (auto simp: KE_SCHED_CreateUserThread_def Let_def new_thread_def
            intro!: exI add_new_thread_ok [OF assms(1) new(1) assms(3) _ new(2) refl])
    qed
  qed
qed

end
