(* ===== verification/Scheduler_Steps.thy ===== *)
theory Scheduler_Steps
  imports Scheduler_Invariant
begin

text \<open>
  The scheduler as a transition system. A step is one entry point of \<open>Scheduler.cpp\<close>
  executed by an online CPU; the initial states are the ones \<open>init_bsp\<close> produces. The
  invariant of \<open>Scheduler_Invariant\<close> holds in every reachable state, and no step gets
  stuck. The last part shows what bring-up of a further CPU does to the queues.
\<close>

subsection \<open>Steps\<close>

definition may_leave :: "nat \<Rightarrow> sched \<Rightarrow> bool" where
  "may_leave me \<sigma> = (current (cpus \<sigma> ! me) \<noteq> idle (cpus \<sigma> ! me))"

definition on_cpu :: "nat \<Rightarrow> sched \<Rightarrow> bool" where
  "on_cpu me \<sigma> = (me < length (cpus \<sigma>) \<and> online (cpus \<sigma> ! me))"

inductive sched_step :: "sched \<Rightarrow> sched \<Rightarrow> bool" where
  step_tick: "on_cpu me \<sigma> \<Longrightarrow> tick me \<sigma> = Some \<sigma>' \<Longrightarrow> sched_step \<sigma> \<sigma>'"
| step_yield: "on_cpu me \<sigma> \<Longrightarrow> KE_SCHED_Yield me \<sigma> = Some \<sigma>' \<Longrightarrow> sched_step \<sigma> \<sigma>'"
| step_block: "on_cpu me \<sigma> \<Longrightarrow> may_leave me \<sigma> \<Longrightarrow> KE_SCHED_Block me \<sigma> = Some \<sigma>' \<Longrightarrow> sched_step \<sigma> \<sigma>'"
| step_terminate: "on_cpu me \<sigma> \<Longrightarrow> may_leave me \<sigma> \<Longrightarrow> KE_SCHED_Terminate me \<sigma> = Some \<sigma>' \<Longrightarrow> sched_step \<sigma> \<sigma>'"
| step_unblock: "on_cpu me \<sigma> \<Longrightarrow> (case t of Some u \<Rightarrow> u \<in> set (thread_dir \<sigma>) | None \<Rightarrow> True) \<Longrightarrow>
    sched_step \<sigma> (snd (KE_SCHED_Unblock me t \<sigma>))"
| step_create: "on_cpu me \<sigma> \<Longrightarrow> fresh_object \<sigma> obj \<Longrightarrow>
    sched_step \<sigma> (snd (KE_SCHED_CreateThread me obj stack sp ins ent arg prio \<sigma>))"
| step_create_user: "on_cpu me \<sigma> \<Longrightarrow> fresh_object \<sigma> obj \<Longrightarrow>
    sched_step \<sigma> (snd (KE_SCHED_CreateUserThread me obj stack sp ins root \<sigma>))"

inductive reachable :: "sched \<Rightarrow> sched \<Rightarrow> bool" where
  reach_init: "reachable \<sigma> \<sigma>"
| reach_step: "reachable \<sigma> \<sigma>' \<Longrightarrow> sched_step \<sigma>' \<sigma>'' \<Longrightarrow> reachable \<sigma> \<sigma>''"

inductive_cases sched_stepE: "sched_step \<sigma> \<sigma>'"

lemma on_cpuD:
  assumes "sched_ok \<sigma> qs" "on_cpu me \<sigma>"
  obtains p where "me < length (cpus \<sigma>)" "current (cpus \<sigma> ! me) = Some p" "cpus \<sigma> \<noteq> []"
  using assms sched_inv_online [of "{}" \<sigma> qs me] unfolding sched_ok_def on_cpu_def by fastforce

lemma yield_ok:
  assumes "sched_ok \<sigma> qs" "on_cpu me \<sigma>"
  shows "\<exists>\<sigma>' qs'. KE_SCHED_Yield me \<sigma> = Some \<sigma>' \<and> sched_ok \<sigma>' qs'"
proof -
  from assms obtain p where "me < length (cpus \<sigma>)" "current (cpus \<sigma> ! me) = Some p" by (rule on_cpuD)
  with schedule_next_ok [of "{}" \<sigma> qs p me] assms(1) show ?thesis
    unfolding KE_SCHED_Yield_def sched_ok_def by blast
qed

lemma leave_ok:
  assumes "sched_ok \<sigma> qs" "on_cpu me \<sigma>" "may_leave me \<sigma>" "s \<in> {Blocked, Terminated}"
  shows "\<exists>\<sigma>' qs'. schedule_next me (set_current_state me s \<sigma>) = Some \<sigma>' \<and> sched_ok \<sigma>' qs'"
proof -
  from assms(1,2) obtain p where me: "me < length (cpus \<sigma>)" and cur: "current (cpus \<sigma> ! me) = Some p"
    by (rule on_cpuD)
  have "idle (cpus \<sigma> ! me) \<noteq> Some p" using assms(3) cur unfolding may_leave_def by metis
  with set_current_state_inv [of \<sigma> qs me p s] assms(1,4) me cur
  have inv: "sched_inv {p} (set_current_state me s \<sigma>) qs" unfolding sched_ok_def by blast
  have "cpus (set_current_state me s \<sigma>) = cpus \<sigma>" by (simp add: set_current_state_def cur)
  with schedule_next_ok [OF inv, of p me] me cur show ?thesis by auto
qed

lemma tick_ok:
  assumes ok: "sched_ok \<sigma> qs" and "on_cpu me \<sigma>"
  shows "\<exists>\<sigma>' qs'. tick me \<sigma> = Some \<sigma>' \<and> sched_ok \<sigma>' qs'"
proof -
  from assms obtain p where me: "me < length (cpus \<sigma>)" and cur: "current (cpus \<sigma> ! me) = Some p"
    by (rule on_cpuD)
  let ?\<sigma>1 = "\<sigma>\<lparr>cpus := (cpus \<sigma>)[me := (cpus \<sigma> ! me)\<lparr>ticks := ticks (cpus \<sigma> ! me) + 1\<rparr>]\<rparr>"
  define \<sigma>2 where "\<sigma>2 = (if quantum_ticks (thr \<sigma> p) > 0
    then ?\<sigma>1\<lparr>thr := upd_thread p (quantum_ticks_update (\<lambda>_. quantum_ticks (thr \<sigma> p) - 1)) (thr \<sigma>)\<rparr> else ?\<sigma>1)"
  have mem: "cpus \<sigma>2 ! c = (if c = me then (cpus \<sigma> ! me)\<lparr>ticks := ticks (cpus \<sigma> ! me) + 1\<rparr> else cpus \<sigma> ! c)" for c
    using me by (auto simp: \<sigma>2_def)
  have "sched_inv {} \<sigma>2 qs"
    using ok unfolding sched_ok_def
  proof (rule sched_inv_cong)
    show "length (cpus \<sigma>2) = length (cpus \<sigma>)" by (simp add: \<sigma>2_def)
  qed (unfold mem, auto simp: \<sigma>2_def)
  moreover have "current (cpus \<sigma>2 ! me) = Some p" "me < length (cpus \<sigma>2)"
    using cur me by (simp_all add: mem, simp add: \<sigma>2_def)
  moreover have "tick me \<sigma> = (if quantum_ticks (thr \<sigma>2 p) = 0 then schedule_next me \<sigma>2 else Some \<sigma>2)"
    using cur by (simp add: tick_def Let_def \<sigma>2_def)
  ultimately show ?thesis using schedule_next_ok [of "{}" \<sigma>2 qs p me] unfolding sched_ok_def by auto
qed

lemma unblock_ok:
  assumes "sched_ok \<sigma> qs" "on_cpu me \<sigma>" "case t of Some u \<Rightarrow> u \<in> set (thread_dir \<sigma>) | None \<Rightarrow> True"
  shows "\<exists>qs'. sched_ok (snd (KE_SCHED_Unblock me t \<sigma>)) qs'"
proof (cases t)
  case None
  with assms show ?thesis by (auto simp: KE_SCHED_Unblock_def)
next
  case (Some u)
  from assms(1,2) have "cpus \<sigma> \<noteq> []" by (rule on_cpuD)
  with Some assms ready_locked_ok(1) [of \<sigma> qs u me] ready_locked_ignored [of \<sigma> u me] show ?thesis
    by (cases "state (thr \<sigma> u) = Blocked") (auto simp: KE_SCHED_Unblock_def)
qed

lemma sched_step_ok:
  assumes "sched_step \<sigma> \<sigma>'" "sched_ok \<sigma> qs"
  shows "\<exists>qs'. sched_ok \<sigma>' qs'"
  using assms
proof cases
  case (step_tick me) then show ?thesis using tick_ok [OF assms(2), of me] by auto
next
  case (step_yield me) then show ?thesis using yield_ok [OF assms(2), of me] by auto
next
  case (step_block me) then show ?thesis
    using leave_ok [OF assms(2), of me Blocked] unfolding KE_SCHED_Block_def block_current_locked_def by auto
next
  case (step_terminate me) then show ?thesis
    using leave_ok [OF assms(2), of me Terminated] unfolding KE_SCHED_Terminate_def by auto
next
  case (step_unblock me t) then show ?thesis using unblock_ok [OF assms(2), of me t] by auto
next
  case (step_create me obj)
  from assms(2) step_create(2) have "cpus \<sigma> \<noteq> []" by (rule on_cpuD)
  with step_create create_thread_ok [OF assms(2)] show ?thesis by auto
next
  case (step_create_user me obj)
  from assms(2) step_create_user(2) have "cpus \<sigma> \<noteq> []" by (rule on_cpuD)
  with step_create_user create_user_thread_ok [OF assms(2)] show ?thesis by auto
qed

lemma reachable_ok: "reachable \<sigma> \<sigma>' \<Longrightarrow> sched_ok \<sigma> qs \<Longrightarrow> \<exists>qs'. sched_ok \<sigma>' qs'"
  by (induction rule: reachable.induct) (auto dest: sched_step_ok)

subsection \<open>Bring-up of the first CPU\<close>

definition blank_cpu :: CpuContext where
  "blank_cpu = \<lparr>ctx_id = 0, online = False, current = None, idle = None, ticks = 0, ready = ReadyQueue_new\<rparr>"

text \<open>The state before \<open>init_bsp\<close>: zeroed contexts and no thread object.\<close>

definition pre_boot :: "threads \<Rightarrow> cpu_hw list \<Rightarrow> sched" where
  "pre_boot th h = \<lparr>thr = th, cpus = replicate MAX_CPUS blank_cpu, hw = h, ipis = [], thread_dir = [], g_next_id = 0\<rparr>"

lemma unlink_unlinked:
  assumes "rq_prev (th t) = None" "rq_next (th t) = None"
  shows "upd_thread t (rq_prev_update (\<lambda>_. None) \<circ> rq_next_update (\<lambda>_. None)) th = th"
proof -
  have "(th t)\<lparr>rq_next := None, rq_prev := None\<rparr> = th t"
    using assms by (cases "th t") simp
  then show ?thesis by (auto simp: fun_eq_iff)
qed

lemma remove_absent:
  assumes "rq_prev (th t) = None" "rq_next (th t) = None" "q_head q \<noteq> Some t" "q_tail q \<noteq> Some t"
  shows "ReadyQueue_remove t (th, q) = (th, if q_count q > 0 then q\<lparr>q_count := q_count q - 1\<rparr> else q)"
  using assms unlink_unlinked [of th t] by (simp add: Let_def)

lemma remove_from_all_empty:
  assumes "\<forall>i\<in>set is. i < length (cpus \<sigma>) \<and> ready (cpus \<sigma> ! i) = ReadyQueue_new"
    and "rq_prev (thr \<sigma> t) = None" "rq_next (thr \<sigma> t) = None"
  shows "remove_from_all t is \<sigma> = \<sigma>"
  using assms(1)
proof (induction "is")
  case (Cons i "is")
  then have "ReadyQueue_remove t (thr \<sigma>, ready (cpus \<sigma> ! i)) = (thr \<sigma>, ready (cpus \<sigma> ! i))"
    using remove_absent [of "thr \<sigma>" t "ready (cpus \<sigma> ! i)"] assms(2,3) by (simp add: ReadyQueue_new_def)
  moreover have "(cpus \<sigma>)[i := (cpus \<sigma> ! i)\<lparr>ready := ready (cpus \<sigma> ! i)\<rparr>] = cpus \<sigma>" by simp
  ultimately have "remove_from_all t (i # is) \<sigma> = remove_from_all t is \<sigma>"
    by (simp del: ReadyQueue_remove.simps)
  with Cons show ?case by simp
qed simp

lemma remove_from_all_append: "remove_from_all t (as @ bs) \<sigma> = remove_from_all t bs (remove_from_all t as \<sigma>)"
  by (induction as arbitrary: \<sigma>) (simp_all add: Let_def del: ReadyQueue_remove.simps split: prod.split)

text \<open>Exactly one queue, of CPU \<open>me\<close>, holds \<open>t\<close>, alone; the others are empty.\<close>

lemma remove_from_all_single:
  assumes me: "me < length (cpus \<sigma>)" and "\<forall>i<length (cpus \<sigma>). i \<noteq> me \<longrightarrow> ready (cpus \<sigma> ! i) = ReadyQueue_new"
    and q: "ready (cpus \<sigma> ! me) = \<lparr>q_head = Some t, q_tail = Some t, q_count = 1\<rparr>"
    and l: "rq_prev (thr \<sigma> t) = None" "rq_next (thr \<sigma> t) = None"
  shows "remove_from_all t [0..<length (cpus \<sigma>)] \<sigma> =
    \<sigma>\<lparr>cpus := (cpus \<sigma>)[me := (cpus \<sigma> ! me)\<lparr>ready := ReadyQueue_new\<rparr>]\<rparr>"
proof -
  let ?\<sigma> = "\<sigma>\<lparr>cpus := (cpus \<sigma>)[me := (cpus \<sigma> ! me)\<lparr>ready := ReadyQueue_new\<rparr>]\<rparr>"
  have split: "[0..<length (cpus \<sigma>)] = [0..<me] @ me # [Suc me..<length (cpus \<sigma>)]"
    using me by (metis le0 less_imp_le_nat upt_add_eq_append upt_conv_Cons le_add_diff_inverse)
  have a: "remove_from_all t [0..<me] \<sigma> = \<sigma>"
    by (rule remove_from_all_empty) (use assms in auto)
  have "ReadyQueue_remove t (thr \<sigma>, ready (cpus \<sigma> ! me)) = (thr \<sigma>, ReadyQueue_new)"
    using l unlink_unlinked [of "thr \<sigma>" t] by (simp add: q Let_def ReadyQueue_new_def)
  then have b: "remove_from_all t (me # is) \<sigma> = remove_from_all t is ?\<sigma>" for "is"
    by (simp del: ReadyQueue_remove.simps)
  have c: "remove_from_all t [Suc me..<length (cpus \<sigma>)] ?\<sigma> = ?\<sigma>"
    by (rule remove_from_all_empty) (use assms in auto)
  show ?thesis by (simp only: split remove_from_all_append a b c)
qed

lemma rq_repr_new: "rq_repr (th, ReadyQueue_new) []"
  by (simp add: rq_repr_def dl_repr_def ReadyQueue_new_def)

lemma enqueue_new:
  "ReadyQueue_enqueue t (th, ReadyQueue_new) =
     (upd_thread t (rq_prev_update (\<lambda>_. None) \<circ> rq_next_update (\<lambda>_. None)) th,
      \<lparr>q_head = Some t, q_tail = Some t, q_count = 1\<rparr>)"
  by (simp add: ReadyQueue_new_def)

text \<open>The first CPU's context after bring-up.\<close>

definition booted_cpu :: "nat \<Rightarrow> tid \<Rightarrow> tid \<Rightarrow> CpuContext" where
  "booted_cpu me b i = \<lparr>ctx_id = of_nat me, online = True, current = Some b, idle = Some i, ticks = 0,
     ready = \<lparr>q_head = Some i, q_tail = Some i, q_count = 1\<rparr>\<rparr>"

definition idle_thread :: "u32 \<Rightarrow> u32 \<Rightarrow> u32 \<Rightarrow> KThreadObject" where
  "idle_thread e base sp = new_thread\<lparr>entry := e, kernel_stack_base := base,
     kernel_stack_esp0 := base + KERNEL_STACK_SIZE, kernel_stack_top := sp\<rparr>"

lemma init_contexts_pre_boot:
  "cpus (init_contexts (pre_boot th h)) = map (\<lambda>i. blank_cpu\<lparr>ctx_id := of_nat i\<rparr>) [0..<MAX_CPUS]"
  by (simp add: init_contexts_def pre_boot_def)

lemma pick_target_only:
  assumes "me < length (cpus \<sigma>)" "\<forall>c<length (cpus \<sigma>). online (cpus \<sigma> ! c) = (c = me)"
  shows "pick_target_cpu \<sigma> = me"
proof -
  have "least_loaded (cpus \<sigma>) (pick_target_cpu \<sigma>)"
    by (rule pick_target_least_loaded) (use assms in blast)
  with assms show ?thesis unfolding least_loaded_def by blast
qed

lemma enqueue_on_empty:
  assumes "me < length (cpus \<sigma>)" "ready (cpus \<sigma> ! me) = ReadyQueue_new"
    and "rq_prev (thr \<sigma> t) = None" "rq_next (thr \<sigma> t) = None"
  shows "enqueue_on me me (Some t) \<sigma> =
    \<sigma>\<lparr>cpus := (cpus \<sigma>)[me := (cpus \<sigma> ! me)\<lparr>ready := \<lparr>q_head = Some t, q_tail = Some t, q_count = 1\<rparr>\<rparr>]\<rparr>"
  using assms unlink_unlinked [of "thr \<sigma>" t]
  by (simp add: enqueue_on_def Let_def enqueue_new del: ReadyQueue_enqueue.simps)

text \<open>When CPU \<open>me\<close> is the only one online and all queues are empty, its idle thread ends up
  alone in its queue.\<close>

lemma create_idle_first:
  assumes me: "me < length (cpus \<sigma>)" and on: "\<forall>c<length (cpus \<sigma>). online (cpus \<sigma> ! c) = (c = me)"
    and new: "\<forall>c<length (cpus \<sigma>). ready (cpus \<sigma> ! c) = ReadyQueue_new"
  shows "create_idle_thread me (Inr i) (Inr base) sp Success e me \<sigma> =
    (Inr i, \<sigma>\<lparr>thr := (thr \<sigma>)(i := idle_thread e base sp),
       cpus := (cpus \<sigma>)[me := (cpus \<sigma> ! me)\<lparr>ready := \<lparr>q_head = Some i, q_tail = Some i, q_count = 1\<rparr>\<rparr>],
       thread_dir := thread_dir \<sigma> @ [i], g_next_id := g_next_id \<sigma> + 1\<rparr>)"
proof -
  let ?\<sigma>1 = "\<sigma>\<lparr>g_next_id := g_next_id \<sigma> + 1, thr := (thr \<sigma>)(i := idle_thread e base sp),
    thread_dir := thread_dir \<sigma> @ [i]\<rparr>"
  let ?one = "\<lparr>q_head = Some i, q_tail = Some i, q_count = 1\<rparr> :: ReadyQueue"
  let ?\<sigma>2 = "?\<sigma>1\<lparr>cpus := (cpus \<sigma>)[me := (cpus \<sigma> ! me)\<lparr>ready := ?one\<rparr>]\<rparr>"
  have l: "rq_prev (idle_thread e base sp) = None" "rq_next (idle_thread e base sp) = None"
    by (simp_all add: idle_thread_def new_thread_def)
  have pk: "pick_target_cpu ?\<sigma>1 = me" by (rule pick_target_only) (use me on in auto)
  have k: "new_thread\<lparr>entry := e, argument := 0, priority := 0, state := Ready, thread_root := 0,
      kernel_stack_base := base, kernel_stack_esp0 := base + KERNEL_STACK_SIZE, kernel_stack_top := sp\<rparr>
    = idle_thread e base sp"
    by (simp add: idle_thread_def new_thread_def)
  have e1: "enqueue_on me me (Some i) ?\<sigma>1 = ?\<sigma>2"
    using enqueue_on_empty [of me ?\<sigma>1 i] me new l by simp
  then have c1: "KE_SCHED_CreateThread me (Inr i) (Inr base) sp Success e 0 0 \<sigma> = (Inr i, ?\<sigma>2)"
    using pk k by (simp add: KE_SCHED_CreateThread_def Let_def)
  have r: "remove_from_all i [0..<length (cpus ?\<sigma>2)] ?\<sigma>2 = ?\<sigma>1\<lparr>cpus := (cpus \<sigma>)[me := (cpus \<sigma> ! me)\<lparr>ready := ReadyQueue_new\<rparr>]\<rparr>"
    by (subst remove_from_all_single [of me]) (use me new l in simp_all)
  show ?thesis
    using c1 r enqueue_on_empty [of me "?\<sigma>1\<lparr>cpus := (cpus \<sigma>)[me := (cpus \<sigma> ! me)\<lparr>ready := ReadyQueue_new\<rparr>]\<rparr>" i] me l
    by (simp add: create_idle_thread_def)
qed

lemma init_bsp_result:
  fixes th h b i
  defines "cs \<equiv> map (\<lambda>i. blank_cpu\<lparr>ctx_id := of_nat i\<rparr>) [0..<MAX_CPUS]"
  assumes me: "me < MAX_CPUS" and "b \<noteq> i"
  shows "init_bsp me (Inr b) Success (Inr i) (Inr base) sp Success e (pre_boot th h) =
    Some \<lparr>thr = th(b := new_thread\<lparr>state := Running, priority := 1, quantum_ticks := DEFAULT_QUANTUM\<rparr>,
                  i := idle_thread e base sp),
          cpus = cs[me := booted_cpu me b i], hw = h, ipis = [],
          thread_dir = [b, i], g_next_id = 2\<rparr>"
proof -
  let ?\<sigma> = "\<lparr>thr = th(b := new_thread\<lparr>state := Running, priority := 1, quantum_ticks := DEFAULT_QUANTUM, thread_root := 0\<rparr>),
    cpus = cs[me := (cs ! me)\<lparr>online := True, current := Some b\<rparr>], hw = h, ipis = [], thread_dir = [b], g_next_id = 1\<rparr>"
  have ad: "adopt_boot_thread me (Inr b) Success (init_contexts (pre_boot th h)) = Some (?\<sigma>\<lparr>g_next_id := 0\<rparr>)"
    by (simp add: adopt_boot_thread_def init_contexts_pre_boot cs_def)
       (simp add: init_contexts_def pre_boot_def)
  have len: "length cs = MAX_CPUS" and nth: "\<And>c. c < MAX_CPUS \<Longrightarrow> cs ! c = blank_cpu\<lparr>ctx_id := of_nat c\<rparr>"
    by (simp_all add: cs_def)
  have "create_idle_thread me (Inr i) (Inr base) sp Success e me ?\<sigma> = 
    (Inr i, ?\<sigma>\<lparr>thr := (thr ?\<sigma>)(i := idle_thread e base sp),
       cpus := (cpus ?\<sigma>)[me := (cpus ?\<sigma> ! me)\<lparr>ready := \<lparr>q_head = Some i, q_tail = Some i, q_count = 1\<rparr>\<rparr>],
       thread_dir := thread_dir ?\<sigma> @ [i], g_next_id := g_next_id ?\<sigma> + 1\<rparr>)"
    by (rule create_idle_first) (use me len nth in \<open>auto simp: nth_list_update blank_cpu_def\<close>)
  with ad me len show ?thesis
    by (simp add: init_bsp_def install_idle_def booted_cpu_def nth blank_cpu_def) (simp add: new_thread_def)
qed

lemma rq_repr_single:
  assumes "rq_prev (th t) = None" "rq_next (th t) = None"
  shows "rq_repr (th, \<lparr>q_head = Some t, q_tail = Some t, q_count = 1\<rparr>) [t]"
  using rq_repr_enqueue [OF rq_repr_new [of th], of t] unlink_unlinked [of th t] assms
  by (simp add: enqueue_new del: ReadyQueue_enqueue.simps)

lemma init_bsp_ok:
  assumes me: "me < MAX_CPUS" and bi: "b \<noteq> i" and h: "length h = MAX_CPUS"
    and init: "init_bsp me (Inr b) Success (Inr i) (Inr base) sp Success e (pre_boot th h) = Some \<sigma>"
  shows "sched_ok \<sigma> ((replicate MAX_CPUS [])[me := [i]])"
proof -
  let ?cs = "map (\<lambda>i. blank_cpu\<lparr>ctx_id := of_nat i\<rparr>) [0..<MAX_CPUS]"
  let ?qs = "(replicate MAX_CPUS [])[me := [i]] :: tid list list"
  from init init_bsp_result [OF me bi] have
    \<sigma>: "cpus \<sigma> = ?cs[me := booted_cpu me b i]" "hw \<sigma> = h" "thread_dir \<sigma> = [b, i]"
      "thr \<sigma> b = new_thread\<lparr>state := Running, priority := 1, quantum_ticks := DEFAULT_QUANTUM\<rparr>"
      "thr \<sigma> i = idle_thread e base sp"
    using bi by auto
  have nth: "cpus \<sigma> ! c = (if c = me then booted_cpu me b i else blank_cpu\<lparr>ctx_id := of_nat c\<rparr>)"
    if "c < MAX_CPUS" for c using that me by (simp add: \<sigma> nth_list_update)
  have qnth: "?qs ! c = (if c = me then [i] else [])" if "c < MAX_CPUS" for c
    using that by (simp add: nth_list_update)
  have len: "length (cpus \<sigma>) = MAX_CPUS" by (simp add: \<sigma>)
  have i: "rq_prev (thr \<sigma> i) = None" "rq_next (thr \<sigma> i) = None" "state (thr \<sigma> i) = Ready"
    by (simp_all add: \<sigma> idle_thread_def new_thread_def)
  have r: "runs \<sigma> c t = (c = me \<and> t = b)" for c t
    unfolding runs_def len using me by (auto simp: nth booted_cpu_def blank_cpu_def split: if_splits)
  have q: "queued ?qs t = (t = i)" for t
    unfolding queued_conv_nth using me by (auto simp: qnth)
  have "queues_ok (thr \<sigma>) (cpus \<sigma>) ?qs"
    unfolding queues_ok_def len using rq_repr_single [of "thr \<sigma>" i] rq_repr_new i(1,2)
    by (auto simp: nth qnth booted_cpu_def blank_cpu_def simp del: One_nat_def)
  moreover have "queued ?qs t = (t \<in> set (thread_dir \<sigma>) \<and> state (thr \<sigma> t) = Ready)" for t
    unfolding q using i(3) bi by (auto simp: \<sigma>)
  moreover have "(\<exists>c. runs \<sigma> c t) = (t \<in> set (thread_dir \<sigma>) \<and> (state (thr \<sigma> t) = Running \<or> t \<in> {}))" for t
    unfolding r using i(3) by (auto simp: \<sigma>)
  moreover have "online (cpus \<sigma> ! c) = (current (cpus \<sigma> ! c) \<noteq> None)" if "c < MAX_CPUS" for c
    using that by (simp add: nth booted_cpu_def blank_cpu_def)
  moreover have "\<exists>k. idle (cpus \<sigma> ! c) = Some k \<and> k \<notin> {} \<and> (runs \<sigma> c k \<or> k \<in> set (?qs ! c))"
    if "c < MAX_CPUS" "online (cpus \<sigma> ! c)" for c
    using that by (auto simp: nth qnth booted_cpu_def blank_cpu_def split: if_splits)
  ultimately show ?thesis
    unfolding sched_ok_def sched_inv_def len by (auto simp: \<sigma> h bi r)
qed

subsection \<open>Round robin\<close>

primrec yields :: "nat \<Rightarrow> nat \<Rightarrow> sched \<Rightarrow> sched option" where
  "yields me 0 \<sigma> = Some \<sigma>"
| "yields me (Suc n) \<sigma> = (case KE_SCHED_Yield me \<sigma> of None \<Rightarrow> None | Some \<sigma>' \<Rightarrow> yields me n \<sigma>')"

lemma first_best_equal:
  assumes "first_best th (y # ys) x" "\<forall>t\<in>set (y # ys). priority (th t) = pr" "x \<in> set (y # ys)"
  shows "x = y"
proof -
  from assms(1) obtain as bs where "y # ys = as @ x # bs" "\<forall>a\<in>set as. priority (th a) < priority (th x)"
    unfolding first_best_def by blast
  with assms(2,3) show ?thesis by (cases as) auto
qed

lemma yield_rotates:
  assumes ok: "sched_ok \<sigma> qs" and me: "me < length (cpus \<sigma>)" and cur: "current (cpus \<sigma> ! me) = Some p"
    and q: "qs ! me = x # xs" and pr: "\<forall>t\<in>set (x # xs). priority (thr \<sigma> t) = pr"
  obtains \<sigma>' where "KE_SCHED_Yield me \<sigma> = Some \<sigma>'" "sched_ok \<sigma>' (qs[me := xs @ [p]])"
    "current (cpus \<sigma>' ! me) = Some x" "\<forall>t. priority (thr \<sigma>' t) = priority (thr \<sigma> t)"
    "length (cpus \<sigma>') = length (cpus \<sigma>)" "length qs = length (cpus \<sigma>)"
proof -
  from ok have inv: "sched_inv {} \<sigma> qs" by (simp add: sched_ok_def)
  have ne: "qs ! me \<noteq> []" using q by simp
  from inv me ne cur obtain y as bs \<sigma>' q1 where
    1: "schedule_next me \<sigma> = Some \<sigma>'" and fb: "first_best (thr \<sigma>) (qs ! me) y" and 2: "qs ! me = as @ y # bs"
    and 3: "cpus \<sigma>' = (cpus \<sigma>)[me := (cpus \<sigma> ! me)\<lparr>ready := q1, current := Some y\<rparr>]"
    and 4: "thread_dir \<sigma>' = thread_dir \<sigma>" "length (hw \<sigma>') = length (hw \<sigma>)"
    and 5: "\<forall>t. state (thr \<sigma>' t) = (if t = y then Running
       else if t = p \<and> state (thr \<sigma> p) = Running then Ready else state (thr \<sigma> t))"
    and pr': "\<forall>t. priority (thr \<sigma>' t) = priority (thr \<sigma> t)"
    and 6: "queues_ok (thr \<sigma>') (cpus \<sigma>') (qs[me := as @ bs @ (if state (thr \<sigma> p) = Running then [p] else [])])"
    and 7: "y \<noteq> p"
    by (rule schedule_next_effect)
  have st: "state (thr \<sigma> p) = Running"
    using sched_inv_runs [OF inv, of p] cur me by (auto simp: runs_def)
  have "y \<in> set (x # xs)" unfolding q [symmetric] 2 by simp
  with fb pr have yx: "y = x" unfolding q by (intro first_best_equal)
  moreover have "distinct (as @ y # bs)"
    using rq_repr_distinct [OF queues_repr [OF sched_inv_queues [OF inv] me]] 2 by simp
  ultimately have "as = []" "bs = xs" using 2 q by (cases as; simp)+
  with sched_inv_switch [OF inv _ me cur 2 7 3 4 5 6] st
  have "sched_ok \<sigma>' (qs[me := xs @ [p]])" by (simp add: sched_ok_def)
  with that 1 3 pr' me yx queues_length [OF sched_inv_queues [OF inv]] show ?thesis
    by (simp add: KE_SCHED_Yield_def)
qed

lemma yields_reach:
  assumes "sched_ok \<sigma> qs" "me < length (cpus \<sigma>)" "current (cpus \<sigma> ! me) = Some p"
    and "qs ! me = as @ t # bs" "\<forall>u\<in>set (p # qs ! me). priority (thr \<sigma> u) = pr"
  shows "\<exists>\<sigma>' qs'. yields me (Suc (length as)) \<sigma> = Some \<sigma>' \<and> current (cpus \<sigma>' ! me) = Some t \<and> sched_ok \<sigma>' qs'"
  using assms
proof (induction as arbitrary: \<sigma> qs p bs)
  case Nil
  then have "qs ! me = t # bs" "\<forall>u\<in>set (t # bs). priority (thr \<sigma> u) = pr" by auto
  with Nil.prems(1-3) obtain \<sigma>' where "KE_SCHED_Yield me \<sigma> = Some \<sigma>'" "sched_ok \<sigma>' (qs[me := bs @ [p]])"
    "current (cpus \<sigma>' ! me) = Some t" by (rule yield_rotates)
  then show ?case by auto
next
  case (Cons a as)
  then have "qs ! me = a # (as @ t # bs)" "\<forall>u\<in>set (a # (as @ t # bs)). priority (thr \<sigma> u) = pr" by auto
  with Cons.prems(1-3) obtain \<sigma>' where y: "KE_SCHED_Yield me \<sigma> = Some \<sigma>'" "sched_ok \<sigma>' (qs[me := (as @ t # bs) @ [p]])"
    "current (cpus \<sigma>' ! me) = Some a" "\<forall>t. priority (thr \<sigma>' t) = priority (thr \<sigma> t)"
    "length (cpus \<sigma>') = length (cpus \<sigma>)" "length qs = length (cpus \<sigma>)" by (rule yield_rotates)
  have "qs[me := (as @ t # bs) @ [p]] ! me = as @ t # (bs @ [p])" using y(6) Cons.prems(2) by simp
  with Cons.IH [OF y(2) _ y(3), of "bs @ [p]"] y Cons.prems show ?case by auto
qed

subsection \<open>Bring-up of a further CPU\<close>

text \<open>
  \<open>create_idle_thread\<close> calls \<open>remove\<close> on the queue of every CPU, and \<open>remove\<close> relies on the
  thread being in the queue it is called on. The first call unlinks the thread from its
  neighbours, so that the call on the right queue finds it without links.
\<close>

definition foreign :: "tid \<Rightarrow> ReadyQueue \<Rightarrow> bool" where
  "foreign t q = (q_head q \<noteq> Some t \<and> q_tail q \<noteq> Some t)"

definition same_ends :: "ReadyQueue \<Rightarrow> ReadyQueue \<Rightarrow> bool" where
  "same_ends q q' = (q_head q' = q_head q \<and> q_tail q' = q_tail q)"

lemma remove_from_all_foreign:
  assumes "rq_prev (thr \<sigma> t) = None" "rq_next (thr \<sigma> t) = None"
    and "\<forall>i\<in>set is. foreign t (ready (cpus \<sigma> ! i))"
  shows "thr (remove_from_all t is \<sigma>) = thr \<sigma> \<and> length (cpus (remove_from_all t is \<sigma>)) = length (cpus \<sigma>) \<and>
    (\<forall>d. same_ends (ready (cpus \<sigma> ! d)) (ready (cpus (remove_from_all t is \<sigma>) ! d)))"
  using assms
proof (induction "is" arbitrary: \<sigma>)
  case Nil
  then show ?case by (simp add: same_ends_def)
next
  case (Cons i "is")
  define q where "q = snd (ReadyQueue_remove t (thr \<sigma>, ready (cpus \<sigma> ! i)))"
  have q: "ReadyQueue_remove t (thr \<sigma>, ready (cpus \<sigma> ! i)) = (thr \<sigma>, q)" "same_ends (ready (cpus \<sigma> ! i)) q"
    using remove_absent [of "thr \<sigma>" t "ready (cpus \<sigma> ! i)"] Cons.prems
    by (simp_all add: foreign_def q_def same_ends_def del: ReadyQueue_remove.simps)
  let ?\<sigma> = "\<sigma>\<lparr>thr := thr \<sigma>, cpus := (cpus \<sigma>)[i := (cpus \<sigma> ! i)\<lparr>ready := q\<rparr>]\<rparr>"
  have r: "remove_from_all t (i # is) \<sigma> = remove_from_all t is ?\<sigma>"
    using q(1) by (simp add: Let_def del: ReadyQueue_remove.simps)
  have e: "same_ends (ready (cpus \<sigma> ! d)) (ready (cpus ?\<sigma> ! d))" for d
    using q(2) by (cases "d = i \<and> i < length (cpus \<sigma>)") (auto simp: same_ends_def list_update_beyond)
  have "\<forall>j\<in>set is. foreign t (ready (cpus ?\<sigma> ! j))"
    using Cons.prems(3) e by (simp add: same_ends_def foreign_def)
  with Cons.IH [of ?\<sigma>] Cons.prems(1,2) have
    "thr (remove_from_all t is ?\<sigma>) = thr ?\<sigma> \<and> length (cpus (remove_from_all t is ?\<sigma>)) = length (cpus ?\<sigma>) \<and>
     (\<forall>d. same_ends (ready (cpus ?\<sigma> ! d)) (ready (cpus (remove_from_all t is ?\<sigma>) ! d)))" by simp
  with e show ?case unfolding r same_ends_def by simp
qed

lemma first_ptr_in: "first_ptr xs e = Some t \<Longrightarrow> t \<in> set xs \<or> e = Some t"
  by (cases xs) auto

lemma last_ptr_in: "last_ptr xs e = Some t \<Longrightarrow> t \<in> set xs \<or> e = Some t"
  by (cases xs rule: rev_cases) auto

lemma rq_repr_foreign: "rq_repr (th, q) xs \<Longrightarrow> t \<notin> set xs \<Longrightarrow> foreign t q"
  using first_ptr_in [of xs None t] last_ptr_in [of xs None t]
  by (auto simp: rq_repr_def dl_repr_def foreign_def)

text \<open>The call on a foreign queue clears the links of \<open>t\<close>.\<close>

lemma remove_foreign:
  assumes "foreign t q" "rq_prev (th t) = Some p" "rq_next (th t) = None" "p \<noteq> t"
    and "ReadyQueue_remove t (th, q) = (th', q')"
  shows "rq_prev (th' t) = None" "rq_next (th' t) = None" "same_ends q q'"
  using assms by (auto simp: foreign_def same_ends_def Let_def)

lemma remove_unlinked_tail:
  assumes "rq_prev (th t) = None" "rq_next (th t) = None" "q_tail q = Some t" "q_head q \<noteq> Some t"
    and "ReadyQueue_remove t (th, q) = (th', q')"
  shows "q_tail q' = None" "rq_prev (th' t) = None" "rq_next (th' t) = None"
  using assms by (auto simp: Let_def)

text \<open>The state in which \<open>t\<close> is last in the queue of \<open>c\<close> behind others, and \<open>remove\<close> runs over all CPUs.\<close>

lemma remove_from_all_corrupts:
  assumes ok: "queues_ok (thr \<sigma>) (cpus \<sigma>) qs" and c: "0 < c" "c < length (cpus \<sigma>)"
    and q: "qs ! c = x # xs @ [t]"
  defines "\<sigma>' \<equiv> remove_from_all t [0..<length (cpus \<sigma>)] \<sigma>"
  shows "q_tail (ready (cpus \<sigma>' ! c)) = None" and "rq_prev (thr \<sigma>' t) = None" "rq_next (thr \<sigma>' t) = None"
    and "length (cpus \<sigma>') = length (cpus \<sigma>)"
proof -
  let ?n = "length (cpus \<sigma>)"
  have n0: "0 < ?n" using c by (rule less_trans)
  from queues_repr [OF ok c(2)] q have rc: "rq_repr (thr \<sigma>, ready (cpus \<sigma> ! c)) (x # xs @ [t])" by simp
  then have lk: "rq_prev (thr \<sigma> t) = last_ptr (x # xs) None" "rq_next (thr \<sigma> t) = None"
    and ends: "q_head (ready (cpus \<sigma> ! c)) = Some x" "q_tail (ready (cpus \<sigma> ! c)) = Some t"
    and d: "distinct (x # xs @ [t])"
    using rq_repr_distinct [OF rc] by (auto simp: rq_repr_def dl_repr_def linked_append)
  obtain p where p: "rq_prev (thr \<sigma> t) = Some p" "p \<noteq> t"
    using lk(1) d by (cases xs rule: rev_cases) auto
  have for_other: "foreign t (ready (cpus \<sigma> ! i))" if "i < ?n" "i \<noteq> c" for i
  proof (rule rq_repr_foreign [OF queues_repr [OF ok that(1)]])
    show "t \<notin> set (qs ! i)" using queues_disjoint [OF ok that(1) c(2) that(2)] unfolding q by auto
  qed
  have split: "[0..<?n] = 0 # [1..<c] @ c # [Suc c..<?n]"
    using c n0 by (metis One_nat_def Suc_leI less_imp_le_nat upt_add_eq_append upt_conv_Cons le_add_diff_inverse)
  obtain th q0 where r0: "ReadyQueue_remove t (thr \<sigma>, ready (cpus \<sigma> ! 0)) = (th, q0)" by fastforce
  note f0 = remove_foreign [OF for_other [of 0] p(1) lk(2) p(2) r0]
  let ?\<sigma>1 = "\<sigma>\<lparr>thr := th, cpus := (cpus \<sigma>)[0 := (cpus \<sigma> ! 0)\<lparr>ready := q0\<rparr>]\<rparr>"
  define \<sigma>2 where "\<sigma>2 = remove_from_all t [1..<c] ?\<sigma>1"
  have "\<forall>i\<in>set [1..<c]. foreign t (ready (cpus ?\<sigma>1 ! i))" using for_other c by auto
  with remove_from_all_foreign [of ?\<sigma>1 t "[1..<c]"] f0 n0 c
  have s2: "thr \<sigma>2 = th" "length (cpus \<sigma>2) = ?n" "\<And>d. same_ends (ready (cpus ?\<sigma>1 ! d)) (ready (cpus \<sigma>2 ! d))"
    unfolding \<sigma>2_def by auto
  have ends2: "q_head (ready (cpus \<sigma>2 ! c)) \<noteq> Some t" "q_tail (ready (cpus \<sigma>2 ! c)) = Some t"
    using s2(3) [of c] ends c d by (auto simp: same_ends_def)
  obtain th3 q3 where r3: "ReadyQueue_remove t (thr \<sigma>2, ready (cpus \<sigma>2 ! c)) = (th3, q3)" by fastforce
  have f3: "q_tail q3 = None" "rq_prev (th3 t) = None" "rq_next (th3 t) = None"
    using remove_unlinked_tail [OF _ _ ends2(2,1) r3] f0 s2(1) n0 c by auto
  let ?\<sigma>3 = "\<sigma>2\<lparr>thr := th3, cpus := (cpus \<sigma>2)[c := (cpus \<sigma>2 ! c)\<lparr>ready := q3\<rparr>]\<rparr>"
  have all: "\<sigma>' = remove_from_all t [Suc c..<?n] ?\<sigma>3"
    unfolding \<sigma>'_def split using r0 r3
    by (simp add: remove_from_all_append \<sigma>2_def Let_def del: ReadyQueue_remove.simps)
  have "foreign t (ready (cpus ?\<sigma>3 ! i))" if "i \<in> set [Suc c..<?n]" for i
    using that for_other [of i] s2(3) [of i] c by (auto simp: same_ends_def foreign_def)
  with remove_from_all_foreign [of ?\<sigma>3 t "[Suc c..<?n]"] f3 all
  have "thr \<sigma>' = th3 \<and> length (cpus \<sigma>') = ?n \<and> same_ends (ready (cpus ?\<sigma>3 ! c)) (ready (cpus \<sigma>' ! c))"
    using s2(2) by simp
  with f3 c s2(2) show "q_tail (ready (cpus \<sigma>' ! c)) = None" "rq_prev (thr \<sigma>' t) = None"
    "rq_next (thr \<sigma>' t) = None" "length (cpus \<sigma>') = length (cpus \<sigma>)"
    by (simp_all add: same_ends_def)
qed

subsection \<open>Properties\<close>


lemma reachable_yields: "reachable \<sigma> \<sigma>' \<Longrightarrow> on_cpu me \<sigma>' \<Longrightarrow> KE_SCHED_Yield me \<sigma>' = Some \<sigma>'' \<Longrightarrow> reachable \<sigma> \<sigma>''"
  by (blast intro: reach_step step_yield)

definition demo_boot :: sched where
  "demo_boot = the (init_bsp 0 (Inr 1) Success (Inr 2) (Inr 4096) 8192 Success 64
     (pre_boot (\<lambda>_. new_thread) (replicate MAX_CPUS \<lparr>hw_root = 0, hw_esp0 = 0, hw_sp = 0\<rparr>)))"

lemma demo_boot_init:
  "init_bsp 0 (Inr 1) Success (Inr 2) (Inr 4096) 8192 Success 64
     (pre_boot (\<lambda>_. new_thread) (replicate MAX_CPUS \<lparr>hw_root = 0, hw_esp0 = 0, hw_sp = 0\<rparr>)) = Some demo_boot"
  unfolding demo_boot_def by (subst (1 2) init_bsp_result) simp_all

lemma demo_boot_ok: "sched_ok demo_boot ((replicate MAX_CPUS [])[0 := [2]])"
  by (rule init_bsp_ok [OF _ _ _ demo_boot_init]) simp_all

lemma demo_boot_cpus:
  "cpus demo_boot = (map (\<lambda>i. blank_cpu\<lparr>ctx_id := of_nat i\<rparr>) [0..<MAX_CPUS])[0 := booted_cpu 0 1 2]"
  unfolding demo_boot_def by (subst init_bsp_result) simp_all

lemma demo_boot_on: "on_cpu 0 demo_boot" "current (cpus demo_boot ! 0) = Some 1"
    "idle (cpus demo_boot ! 0) = Some 2" "length (cpus demo_boot) = MAX_CPUS"
  by (simp_all add: on_cpu_def demo_boot_cpus booted_cpu_def)

lemma demo_boot_thr: "thr demo_boot 1 = new_thread\<lparr>state := Running, priority := 1, quantum_ticks := DEFAULT_QUANTUM\<rparr>"
    "thr demo_boot 2 = idle_thread 64 4096 8192" "thread_dir demo_boot = [1, 2]"
  unfolding demo_boot_def by (subst init_bsp_result; simp)+


lemma leave_switches:
  assumes "sched_ok \<sigma> qs" "me < length (cpus \<sigma>)" "current (cpus \<sigma> ! me) = Some p"
    "idle (cpus \<sigma> ! me) \<noteq> Some p" "s \<in> {Blocked, Terminated}"
  shows "\<exists>\<sigma>' x. schedule_next me (set_current_state me s \<sigma>) = Some \<sigma>' \<and>
    current (cpus \<sigma>' ! me) = Some x \<and> x \<noteq> p \<and> state (thr \<sigma>' p) = s"
proof -
  let ?\<sigma> = "set_current_state me s \<sigma>"
  have inv: "sched_inv {p} ?\<sigma> qs" using set_current_state_inv assms unfolding sched_ok_def by blast
  have eq: "cpus ?\<sigma> = cpus \<sigma>" "state (thr ?\<sigma> p) = s" by (simp_all add: set_current_state_def assms(3))
  have me: "me < length (cpus ?\<sigma>)" "current (cpus ?\<sigma> ! me) = Some p" using assms(2,3) eq by simp_all
  from inv me(1) hole_queue_nonempty [OF inv me singletonI] me(2) obtain x \<sigma>' q1 where
    "schedule_next me ?\<sigma> = Some \<sigma>'"
    "cpus \<sigma>' = (cpus ?\<sigma>)[me := (cpus ?\<sigma> ! me)\<lparr>ready := q1, current := Some x\<rparr>]"
    "\<forall>t. state (thr \<sigma>' t) = (if t = x then Running
       else if t = p \<and> state (thr ?\<sigma> p) = Running then Ready else state (thr ?\<sigma> t))" "x \<noteq> p"
    by (rule schedule_next_effect)
  with eq me assms(5) show ?thesis by auto
qed



text \<open>C3. The scheduling decision: when the queue of the CPU is not empty, a yield runs the
  earliest queued thread of the highest priority, the outgoing thread becomes the last
  of the queue, every other thread keeps its place, and the state stays consistent.\<close>

theorem yield_policy:
  assumes "sched_ok \<sigma> qs" "me < length (cpus \<sigma>)" "current (cpus \<sigma> ! me) = Some p" "qs ! me \<noteq> []"
  shows "\<exists>\<sigma>' x as bs. KE_SCHED_Yield me \<sigma> = Some \<sigma>' \<and> qs ! me = as @ x # bs \<and>
    first_best (thr \<sigma>) (qs ! me) x \<and> current (cpus \<sigma>' ! me) = Some x \<and>
    sched_ok \<sigma>' (qs[me := as @ bs @ [p]])"
proof -
  from assms(1) have inv: "sched_inv {} \<sigma> qs" by (simp add: sched_ok_def)
  from inv assms(2,4,3) obtain x as bs \<sigma>' q1 where
    1: "schedule_next me \<sigma> = Some \<sigma>'" and fb: "first_best (thr \<sigma>) (qs ! me) x" and 2: "qs ! me = as @ x # bs"
    and 3: "cpus \<sigma>' = (cpus \<sigma>)[me := (cpus \<sigma> ! me)\<lparr>ready := q1, current := Some x\<rparr>]"
    and 4: "thread_dir \<sigma>' = thread_dir \<sigma>" "length (hw \<sigma>') = length (hw \<sigma>)"
    and 5: "\<forall>t. state (thr \<sigma>' t) = (if t = x then Running
       else if t = p \<and> state (thr \<sigma> p) = Running then Ready else state (thr \<sigma> t))"
    and 6: "queues_ok (thr \<sigma>') (cpus \<sigma>') (qs[me := as @ bs @ (if state (thr \<sigma> p) = Running then [p] else [])])"
    and 7: "x \<noteq> p"
    by (rule schedule_next_effect)
  have st: "state (thr \<sigma> p) = Running"
    using sched_inv_runs [OF inv, of p] assms(2,3) by (auto simp: runs_def)
  have "sched_ok \<sigma>' (qs[me := as @ bs @ [p]])"
    using sched_inv_switch [OF inv _ assms(2,3) 2 7 3 4 5 6] st unfolding sched_ok_def by simp
  moreover have "current (cpus \<sigma>' ! me) = Some x" using 3 assms(2) by simp
  ultimately show ?thesis using 1 2 fb unfolding KE_SCHED_Yield_def by blast
qed

theorem yield_policy_witness:
  "\<exists>\<sigma>' x as bs. KE_SCHED_Yield 0 demo_boot = Some \<sigma>' \<and> [2] = as @ x # bs \<and>
    first_best (thr demo_boot) [2] x \<and> current (cpus \<sigma>' ! 0) = Some x"
  using yield_policy [OF demo_boot_ok, of 0 1] demo_boot_on by force

text \<open>Round robin among equals: when the current thread of a CPU and all threads of its
  queue have the same priority, the thread at position \<open>k\<close> of the queue is running after
  \<open>k + 1\<close> yields on that CPU, so no thread of the level is starved.\<close>

theorem round_robin:
  assumes "sched_ok \<sigma> qs" "me < length (cpus \<sigma>)" "current (cpus \<sigma> ! me) = Some p"
    and "k < length (qs ! me)" "\<forall>u\<in>set (p # qs ! me). priority (thr \<sigma> u) = pr"
  shows "\<exists>\<sigma>' qs'. yields me (Suc k) \<sigma> = Some \<sigma>' \<and> current (cpus \<sigma>' ! me) = Some (qs ! me ! k) \<and> sched_ok \<sigma>' qs'"
proof -
  have "qs ! me = take k (qs ! me) @ (qs ! me ! k) # drop (Suc k) (qs ! me)"
    using assms(4) by (rule id_take_nth_drop)
  from yields_reach [OF assms(1-3) this assms(5)] assms(4) show ?thesis by simp
qed

text \<open>A state with four threads of one priority: thread 1 current, the idle thread 2 and thread 3 queued, thread 4 blocked.\<close>

definition demo_pair :: sched where
  "demo_pair = \<lparr>thr = (\<lambda>_. new_thread)(1 := new_thread\<lparr>state := Running\<rparr>,
       2 := new_thread\<lparr>rq_next := Some 3\<rparr>, 3 := new_thread\<lparr>rq_prev := Some 2\<rparr>,
       4 := new_thread\<lparr>state := Blocked\<rparr>),
     cpus = [\<lparr>ctx_id = 0, online = True, current = Some 1, idle = Some 2, ticks = 0,
       ready = \<lparr>q_head = Some 2, q_tail = Some 3, q_count = 2\<rparr>\<rparr>],
     hw = [\<lparr>hw_root = 0, hw_esp0 = 0, hw_sp = 7\<rparr>], ipis = [], thread_dir = [1, 2, 3, 4], g_next_id = 4\<rparr>"

lemma demo_pair_ok: "sched_ok demo_pair [[2, 3]]"
  unfolding sched_ok_def sched_inv_def queues_ok_def runs_def
  by (auto simp: demo_pair_def new_thread_def queued_def rq_repr_def dl_repr_def links_of_def)

theorem round_robin_witness:
  "\<exists>\<sigma>' qs'. yields 0 2 demo_pair = Some \<sigma>' \<and> current (cpus \<sigma>' ! 0) = Some 3 \<and> sched_ok \<sigma>' qs'"
  using round_robin [OF demo_pair_ok, of 0 1 1 0] by (simp add: demo_pair_def new_thread_def numeral_2_eq_2)

text \<open>Waking a Blocked thread puts it, Ready, at the end of the queue of an online CPU
  with the shortest queue (the first such CPU), and interrupts that CPU when it is
  another one; the state stays consistent.\<close>

theorem wake_least_loaded:
  assumes "sched_ok \<sigma> qs" "t \<in> set (thread_dir \<sigma>)" "state (thr \<sigma> t) = Blocked" "on_cpu me \<sigma>"
  shows "\<exists>c. c < length qs \<and> online (cpus \<sigma> ! c) \<and>
    (\<forall>d<length qs. online (cpus \<sigma> ! d) \<longrightarrow> length (qs ! c) \<le> length (qs ! d)) \<and>
    KE_SCHED_Unblock me (Some t) \<sigma> = (Success, ready_locked me (Some t) \<sigma>) \<and>
    sched_ok (ready_locked me (Some t) \<sigma>) (qs[c := qs ! c @ [t]]) \<and>
    ipis (ready_locked me (Some t) \<sigma>) = ipis \<sigma> @ (if c = me then [] else [c])"
proof (intro exI [of _ "pick_target_cpu \<sigma>"] conjI)
  let ?c = "pick_target_cpu \<sigma>"
  from assms(1) have ok: "queues_ok (thr \<sigma>) (cpus \<sigma>) qs"
    unfolding sched_ok_def by (rule sched_inv_queues)
  note len = queues_length [OF ok]
  have sz: "unat (ReadyQueue_size (ready (cpus \<sigma> ! d))) = length (qs ! d)" if "d < length qs" for d
    using rq_repr_size [OF queues_repr [OF ok]] that len by simp
  have ll: "least_loaded (cpus \<sigma>) ?c"
    using assms(4) by (intro pick_target_least_loaded) (auto simp: on_cpu_def)
  then show c: "?c < length qs" and "online (cpus \<sigma> ! ?c)" unfolding least_loaded_def len by blast+
  show "\<forall>d<length qs. online (cpus \<sigma> ! d) \<longrightarrow> length (qs ! ?c) \<le> length (qs ! d)"
    using ll sz c unfolding least_loaded_def len by (metis word_le_nat_alt)
  show "KE_SCHED_Unblock me (Some t) \<sigma> = (Success, ready_locked me (Some t) \<sigma>)"
    by (simp add: KE_SCHED_Unblock_def)
  have ne: "cpus \<sigma> \<noteq> []" using assms(4) by (auto simp: on_cpu_def)
  show "sched_ok (ready_locked me (Some t) \<sigma>) (qs[?c := qs ! ?c @ [t]])"
    by (rule ready_locked_ok(1) [OF assms(1-3) ne])
  have pk: "pick_target_cpu (\<sigma>\<lparr>thr := th\<rparr>) = ?c" for th by (simp add: pick_target_cpu_def)
  show "ipis (ready_locked me (Some t) \<sigma>) = ipis \<sigma> @ (if ?c = me then [] else [?c])"
    using assms(3) c len by (simp add: ready_locked_def enqueue_on_def Let_def pk split: prod.split)
qed

theorem wake_least_loaded_witness:
  "\<exists>c. sched_ok (ready_locked 0 (Some 4) demo_pair) ([[2, 3]][c := [[2, 3]] ! c @ [4]]) \<and> c < length [[2::nat, 3]]"
  using wake_least_loaded [OF demo_pair_ok, of 4 0] by (auto simp: demo_pair_def on_cpu_def new_thread_def)

text \<open>A context switch from \<open>p\<close> to \<open>x\<close> loads the stack pointer and the ring-0 stack saved
  for \<open>x\<close>, loads the page-table root of \<open>x\<close> when it has one and otherwise keeps the root,
  and saves the stack pointer and the ring-0 stack the CPU had for \<open>p\<close>; so that switching
  back to \<open>p\<close> restores them.\<close>

theorem context_switch_registers:
  assumes "current (cpus \<sigma> ! me) = Some p" "p \<noteq> x" "me < length (hw \<sigma>)" "me < length (cpus \<sigma>)"
  shows "\<exists>\<sigma>1 \<sigma>2. switch_to me x \<sigma> = Some \<sigma>1 \<and> switch_to me p \<sigma>1 = Some \<sigma>2 \<and>
    hw_sp (hw \<sigma>1 ! me) = kernel_stack_top (thr \<sigma> x) \<and> hw_esp0 (hw \<sigma>1 ! me) = kernel_stack_esp0 (thr \<sigma> x) \<and>
    hw_root (hw \<sigma>1 ! me) = (if thread_root (thr \<sigma> x) = 0 then hw_root (hw \<sigma> ! me) else thread_root (thr \<sigma> x)) \<and>
    hw_sp (hw \<sigma>2 ! me) = hw_sp (hw \<sigma> ! me) \<and> hw_esp0 (hw \<sigma>2 ! me) = hw_esp0 (hw \<sigma> ! me)"
proof -
  from assms(1,2) obtain \<sigma>1 where s1: "switch_to me x \<sigma> = Some \<sigma>1"
    and c1: "cpus \<sigma>1 = (cpus \<sigma>)[me := (cpus \<sigma> ! me)\<lparr>current := Some x\<rparr>]"
    and h1: "length (hw \<sigma>1) = length (hw \<sigma>)" by (rule switch_to_effect)
  have cur: "current (cpus \<sigma>1 ! me) = Some x" using c1 assms(4) by simp
  from cur assms(2) [symmetric] obtain \<sigma>2 where s2: "switch_to me p \<sigma>1 = Some \<sigma>2" by (rule switch_to_effect)
  from switch_to_registers [OF assms(1-3) s1] switch_to_registers [OF cur assms(2) [symmetric] _ s2] h1 assms(3)
  show ?thesis using s1 s2 by simp
qed

theorem context_switch_registers_witness:
  "\<exists>\<sigma>1 \<sigma>2. switch_to 0 3 demo_pair = Some \<sigma>1 \<and> switch_to 0 1 \<sigma>1 = Some \<sigma>2 \<and> hw_sp (hw \<sigma>2 ! 0) = 7"
  using context_switch_registers [of demo_pair 0 1 3] by (auto simp: demo_pair_def)

text \<open>Bringing up a further CPU can lose threads (\<open>create_idle_thread\<close>): when the new idle
  thread \<open>t\<close> is first placed on the queue of a CPU \<open>c > 0\<close> that already holds threads
  \<open>x # xs\<close>, the removal over all queues leaves that queue with a null tail, and the following
  enqueue makes \<open>t\<close> its only element: the head, the tail and the links no longer reach \<open>x\<close>.\<close>

theorem create_idle_loses_threads:
  assumes ok: "queues_ok (thr \<sigma>) (cpus \<sigma>) qs" and t: "\<not> queued qs t"
    and pk: "pick_target_cpu \<sigma> = c" and c: "0 < c" "c < length (cpus \<sigma>)" and q: "qs ! c = x # xs"
    and room: "Suc (length (qs ! c)) < 2 ^ 32"
  shows "\<exists>\<sigma>'. create_idle_thread me (Inr t) (Inr base) sp Success e c \<sigma> = (Inr t, \<sigma>') \<and>
    q_head (ready (cpus \<sigma>' ! c)) = Some t \<and> q_tail (ready (cpus \<sigma>' ! c)) = Some t \<and>
    rq_next (thr \<sigma>' t) = None \<and> rq_prev (thr \<sigma>' t) = None \<and> x \<noteq> t"
proof -
  let ?k = "new_thread\<lparr>entry := e, argument := 0, priority := 0, state := Ready, thread_root := 0,
      kernel_stack_base := base, kernel_stack_esp0 := base + KERNEL_STACK_SIZE, kernel_stack_top := sp\<rparr>"
  let ?\<sigma>1 = "\<sigma>\<lparr>g_next_id := g_next_id \<sigma> + 1, thr := (thr \<sigma>)(t := ?k), thread_dir := thread_dir \<sigma> @ [t]\<rparr>"
  have pk1: "pick_target_cpu ?\<sigma>1 = c" using pk by (simp add: pick_target_cpu_def)
  have "queues_ok (thr ?\<sigma>1) (cpus \<sigma>) qs" by (rule queues_frame [OF ok]) (use t in auto)
  then have ok1: "queues_ok (thr ?\<sigma>1) (cpus ?\<sigma>1) qs" and c1: "c < length (cpus ?\<sigma>1)" using c by simp_all
  from ok1 c1 t room obtain \<sigma>2 q2 where e2: "enqueue_on me c (Some t) ?\<sigma>1 = \<sigma>2"
    and cs2: "cpus \<sigma>2 = (cpus ?\<sigma>1)[c := (cpus ?\<sigma>1 ! c)\<lparr>ready := q2\<rparr>]"
    and ok2: "queues_ok (thr \<sigma>2) (cpus \<sigma>2) (qs[c := qs ! c @ [t]])"
    by (rule enqueue_on_effect)
  have len2: "length (cpus \<sigma>2) = length (cpus \<sigma>)" using cs2 by simp
  have q2: "qs[c := qs ! c @ [t]] ! c = x # xs @ [t]" using q c queues_length [OF ok] by simp
  let ?\<sigma>3 = "remove_from_all t [0..<length (cpus \<sigma>2)] \<sigma>2"
  have s3: "q_tail (ready (cpus ?\<sigma>3 ! c)) = None" "length (cpus ?\<sigma>3) = length (cpus \<sigma>)"
    using remove_from_all_corrupts [OF ok2 c(1) _ q2] c len2 by simp_all
  have "create_idle_thread me (Inr t) (Inr base) sp Success e c \<sigma> = (Inr t, enqueue_on me c (Some t) ?\<sigma>3)"
    using pk1 e2 by (simp add: create_idle_thread_def KE_SCHED_CreateThread_def Let_def)
  moreover have "x \<noteq> t" using t queuedI [of c qs x] q c queues_length [OF ok] by auto
  ultimately show ?thesis using s3 c by (simp add: enqueue_on_def Let_def)
qed

definition demo_two :: sched where
  "demo_two = \<lparr>thr = (\<lambda>_. new_thread)(1 := new_thread\<lparr>rq_next := Some 2\<rparr>, 2 := new_thread\<lparr>rq_prev := Some 1\<rparr>),
     cpus = [\<lparr>ctx_id = 0, online = True, current = Some 5, idle = Some 1, ticks = 0,
               ready = \<lparr>q_head = Some 1, q_tail = Some 2, q_count = 2\<rparr>\<rparr>,
             \<lparr>ctx_id = 1, online = True, current = Some 6, idle = None, ticks = 0,
               ready = \<lparr>q_head = Some 3, q_tail = Some 3, q_count = 1\<rparr>\<rparr>],
     hw = [], ipis = [], thread_dir = [1, 2, 3, 5, 6], g_next_id = 7\<rparr>"

lemma demo_two_queues: "queues_ok (thr demo_two) (cpus demo_two) [[1, 2], [3]]"
  unfolding queues_ok_def
  by (auto simp: demo_two_def new_thread_def rq_repr_def dl_repr_def links_of_def less_Suc_eq)

theorem create_idle_loses_threads_witness:
  "\<exists>\<sigma>'. create_idle_thread 1 (Inr 7) (Inr 4096) 8192 Success 64 1 demo_two = (Inr 7, \<sigma>') \<and>
    q_head (ready (cpus \<sigma>' ! 1)) = Some 7 \<and> rq_next (thr \<sigma>' 7) = None"
proof -
  have "pick_target_cpu demo_two = 1" "\<not> queued [[1, 2], [3]] 7" "length (cpus demo_two) = 2"
    by (simp_all add: pick_target_cpu_def demo_two_def ReadyQueue_size_def queued_def)
  with create_idle_loses_threads [OF demo_two_queues, of 7 1 3 "[]" 1 4096 8192 64] show ?thesis by auto
qed

end
