(* ===== verification/Dispatcher.thy ===== *)
theory Dispatcher
  imports Prelude
begin

text \<open>
  Waitable objects: \<open>KWaitBlock\<close> and \<open>KDispatcherHeader\<close> of
  \<open>kernel/kobject/KDispatcherHeader.hpp\<close> and the list of timed waits of \<open>wait.hpp\<close>. Wait
  blocks live at addresses in one table; the waiter list of a header and the timed list are
  singly linked through the members \<open>next\<close> and \<open>timed_next\<close> and walked with a pointer to
  the link being examined, which is a \<open>slot\<close> here: the head pointer or the link member of a
  block. A walk over a cyclic list does not return, which is the value \<open>None\<close>.
\<close>

type_synonym wbid = nat

record KWaitBlock =
  wb_thread :: nat
  wb_next :: "wbid option"
  timed_next :: "wbid option"
  deadline :: int          \<comment> \<open>milliseconds\<close>
  satisfied :: bool
  timed_out :: bool

record KDispatcherHeader =
  signalled :: bool
  manualReset :: bool
  waiters :: "wbid option"

type_synonym blocks = "wbid \<Rightarrow> KWaitBlock"

datatype slot = HeadSlot | LinkSlot wbid

definition upd_wb :: "wbid \<Rightarrow> (KWaitBlock \<Rightarrow> KWaitBlock) \<Rightarrow> blocks \<Rightarrow> blocks" where
  "upd_wb w f bl = bl(w := f (bl w))"

fun deref :: "(wbid \<Rightarrow> wbid option) \<Rightarrow> wbid option \<Rightarrow> slot \<Rightarrow> wbid option" where
  "deref nx hp HeadSlot = hp"
| "deref nx hp (LinkSlot w) = nx w"

text \<open>\<open>while (*tail) tail = &(*tail)->next;\<close>\<close>

partial_function (option) find_end :: "(wbid \<Rightarrow> wbid option) \<Rightarrow> wbid option \<Rightarrow> slot \<Rightarrow> slot option" where
  "find_end nx hp s =
     (case deref nx hp s of None \<Rightarrow> Some s | Some n \<Rightarrow> find_end nx hp (LinkSlot n))"

text \<open>\<open>for (it = &head; *it; it = &(*it)->next) if (*it == &wb)\<close>: the slot that holds the block.\<close>

partial_function (option) find_slot ::
  "(wbid \<Rightarrow> wbid option) \<Rightarrow> wbid option \<Rightarrow> wbid \<Rightarrow> slot \<Rightarrow> slot option option" where
  "find_slot nx hp w s =
     (case deref nx hp s of
        None \<Rightarrow> Some None
      | Some n \<Rightarrow> if n = w then Some (Some s) else find_slot nx hp w (LinkSlot n))"

subsection \<open>The dispatcher header\<close>

type_synonym hdr_state = "KDispatcherHeader \<times> blocks"

definition TryAcquire :: "KDispatcherHeader \<Rightarrow> bool \<times> KDispatcherHeader" where
  "TryAcquire h =
     (if \<not> signalled h then (False, h)
      else (True, if manualReset h then h else h\<lparr>signalled := False\<rparr>))"

fun set_next_slot :: "slot \<Rightarrow> wbid option \<Rightarrow> hdr_state \<Rightarrow> hdr_state" where
  "set_next_slot HeadSlot v (h, bl) = (h\<lparr>waiters := v\<rparr>, bl)"
| "set_next_slot (LinkSlot w) v (h, bl) = (h, upd_wb w (wb_next_update (\<lambda>_. v)) bl)"

definition AddWaiter :: "wbid \<Rightarrow> hdr_state \<Rightarrow> hdr_state option" where
  "AddWaiter wb st =
     (case st of (h, bl) \<Rightarrow>
      (let bl1 = upd_wb wb (wb_next_update (\<lambda>_. None)) bl in
       case find_end (\<lambda>w. wb_next (bl1 w)) (waiters h) HeadSlot of
         None \<Rightarrow> None
       | Some s \<Rightarrow> Some (set_next_slot s (Some wb) (h, bl1))))"

definition RemoveWaiter :: "wbid \<Rightarrow> hdr_state \<Rightarrow> (bool \<times> hdr_state) option" where
  "RemoveWaiter wb st =
     (case st of (h, bl) \<Rightarrow>
      (case find_slot (\<lambda>w. wb_next (bl w)) (waiters h) wb HeadSlot of
         None \<Rightarrow> None
       | Some None \<Rightarrow> Some (False, (h, bl))
       | Some (Some s) \<Rightarrow>
           (case set_next_slot s (wb_next (bl wb)) (h, bl) of
              (h1, bl1) \<Rightarrow> Some (True, (h1, upd_wb wb (wb_next_update (\<lambda>_. None)) bl1)))))"

text \<open>Releasing the first waiter: unlink it, mark it satisfied, wake its thread.\<close>

definition release :: "(nat \<Rightarrow> 's \<Rightarrow> 's) \<Rightarrow> wbid \<Rightarrow> hdr_state \<times> 's \<Rightarrow> hdr_state \<times> 's" where
  "release wake wb st =
     (case st of ((h, bl), s) \<Rightarrow>
       ((h\<lparr>waiters := wb_next (bl wb)\<rparr>,
         upd_wb wb (satisfied_update (\<lambda>_. True) \<circ> wb_next_update (\<lambda>_. None)) bl),
        wake (wb_thread (bl wb)) s))"

partial_function (option) release_all ::
  "(nat \<Rightarrow> 's \<Rightarrow> 's) \<Rightarrow> u32 \<Rightarrow> hdr_state \<times> 's \<Rightarrow> (u32 \<times> hdr_state \<times> 's) option" where
  "release_all wake cnt st =
     (case waiters (fst (fst st)) of
        None \<Rightarrow> Some (cnt, st)
      | Some wb \<Rightarrow> release_all wake (cnt + 1) (release wake wb st))"

definition Signal :: "bool \<Rightarrow> (nat \<Rightarrow> 's \<Rightarrow> 's) \<Rightarrow> hdr_state \<times> 's \<Rightarrow> (u32 \<times> hdr_state \<times> 's) option" where
  "Signal wakeAll wake st =
     (case st of ((h, bl), s) \<Rightarrow>
       if manualReset h \<or> wakeAll then
         (case release_all wake 0 ((h, bl), s) of
            None \<Rightarrow> None
          | Some (cnt, ((h1, bl1), s1)) \<Rightarrow> Some (cnt, ((h1\<lparr>signalled := manualReset h1\<rparr>, bl1), s1)))
       else
         (case waiters h of
            Some wb \<Rightarrow> Some (1, release wake wb ((h, bl), s))
          | None \<Rightarrow> Some (0, ((h\<lparr>signalled := True\<rparr>, bl), s))))"

definition Reset :: "KDispatcherHeader \<Rightarrow> KDispatcherHeader" where
  "Reset h = h\<lparr>signalled := False\<rparr>"

subsection \<open>The timed-wait list\<close>

type_synonym timed_state = "wbid option \<times> blocks"

definition TimedWaitList_Add :: "wbid \<Rightarrow> timed_state \<Rightarrow> timed_state" where
  "TimedWaitList_Add wb st =
     (case st of (hp, bl) \<Rightarrow> (Some wb, upd_wb wb (timed_next_update (\<lambda>_. hp)) bl))"

fun set_timed_slot :: "slot \<Rightarrow> wbid option \<Rightarrow> timed_state \<Rightarrow> timed_state" where
  "set_timed_slot HeadSlot v (hp, bl) = (v, bl)"
| "set_timed_slot (LinkSlot w) v (hp, bl) = (hp, upd_wb w (timed_next_update (\<lambda>_. v)) bl)"

definition TimedWaitList_Remove :: "wbid \<Rightarrow> timed_state \<Rightarrow> timed_state option" where
  "TimedWaitList_Remove wb st =
     (case st of (hp, bl) \<Rightarrow>
      (case find_slot (\<lambda>w. timed_next (bl w)) hp wb HeadSlot of
         None \<Rightarrow> None
       | Some None \<Rightarrow> Some (hp, bl)
       | Some (Some s) \<Rightarrow>
           (case set_timed_slot s (timed_next (bl wb)) (hp, bl) of
              (hp1, bl1) \<Rightarrow> Some (hp1, upd_wb wb (timed_next_update (\<lambda>_. None)) bl1))))"

text \<open>A deadline is compared with a time in nanoseconds in the common unit.\<close>

abbreviation ns_per_ms :: int where "ns_per_ms \<equiv> 1000000"

definition due :: "int \<Rightarrow> KWaitBlock \<Rightarrow> bool" where
  "due now w = (deadline w * ns_per_ms \<le> now)"

partial_function (option) expire_from ::
  "int \<Rightarrow> (nat \<Rightarrow> 's \<Rightarrow> 's) \<Rightarrow> slot \<Rightarrow> timed_state \<times> 's \<Rightarrow> (timed_state \<times> 's) option" where
  "expire_from now wake it st =
     (case st of ((hp, bl), s) \<Rightarrow>
      (case deref (\<lambda>w. timed_next (bl w)) hp it of
         None \<Rightarrow> Some ((hp, bl), s)
       | Some wb \<Rightarrow>
           if due now (bl wb) then
             (case set_timed_slot it (timed_next (bl wb)) (hp, bl) of
                (hp1, bl1) \<Rightarrow>
                  (let bl2 = upd_wb wb (timed_next_update (\<lambda>_. None)) bl1 in
                   if \<not> satisfied (bl2 wb)
                   then expire_from now wake it
                          ((hp1, upd_wb wb (timed_out_update (\<lambda>_. True)) bl2), wake (wb_thread (bl2 wb)) s)
                   else expire_from now wake it ((hp1, bl2), s)))
           else expire_from now wake (LinkSlot wb) ((hp, bl), s)))"

definition Expire :: "int \<Rightarrow> (nat \<Rightarrow> 's \<Rightarrow> 's) \<Rightarrow> timed_state \<times> 's \<Rightarrow> (timed_state \<times> 's) option" where
  "Expire now wake st = expire_from now wake HeadSlot st"

subsection \<open>Chains\<close>

fun chain :: "(wbid \<Rightarrow> wbid option) \<Rightarrow> wbid option \<Rightarrow> wbid list \<Rightarrow> bool" where
  "chain nx p [] = (p = None)"
| "chain nx p (x # xs) = (p = Some x \<and> chain nx (nx x) xs)"

lemma chain_unique: "chain nx p xs \<Longrightarrow> chain nx p ys \<Longrightarrow> xs = ys"
proof (induction xs arbitrary: p ys)
  case Nil
  then show ?case by (cases ys) auto
next
  case (Cons x xs)
  then show ?case by (cases ys) auto
qed

lemma chain_suffix: "chain nx p (as @ x # bs) \<Longrightarrow> chain nx (Some x) (x # bs)"
  by (induction as arbitrary: p) auto

lemma chain_distinct: "chain nx p xs \<Longrightarrow> distinct xs"
proof (induction xs arbitrary: p)
  case (Cons x xs)
  have "x \<notin> set xs"
  proof
    assume "x \<in> set xs"
    then obtain as bs where xs: "xs = as @ x # bs" by (auto simp: in_set_conv_decomp)
    from Cons.prems xs have "chain nx (Some x) (x # bs)" using chain_suffix [of nx p "x # as" x bs] by simp
    with Cons.prems have "x # xs = x # bs" by (intro chain_unique [of nx p]) simp_all
    with xs show False by simp
  qed
  with Cons show ?case by auto
qed simp

lemma chain_cong: "(\<forall>x\<in>set xs. nx' x = nx x) \<Longrightarrow> chain nx' p xs = chain nx p xs"
  by (induction xs arbitrary: p) auto

definition end_slot :: "slot \<Rightarrow> wbid list \<Rightarrow> slot" where
  "end_slot s xs = (if xs = [] then s else LinkSlot (last xs))"

lemma find_end_chain: "chain nx (deref nx hp s) xs \<Longrightarrow> find_end nx hp s = Some (end_slot s xs)"
proof (induction xs arbitrary: s)
  case Nil
  then show ?case by (simp add: find_end.simps end_slot_def)
next
  case (Cons x xs)
  then show ?case using Cons.IH [of "LinkSlot x"] by (subst find_end.simps) (auto simp: end_slot_def)
qed

lemma find_slot_chain:
  "chain nx (deref nx hp s) xs \<Longrightarrow>
   find_slot nx hp w s = Some (if w \<in> set xs then Some (end_slot s (takeWhile (\<lambda>x. x \<noteq> w) xs)) else None)"
proof (induction xs arbitrary: s)
  case Nil
  then show ?case by (simp add: find_slot.simps)
next
  case (Cons x xs)
  then show ?case using Cons.IH [of "LinkSlot x"] by (subst find_slot.simps) (auto simp: end_slot_def)
qed

text \<open>Redirecting the link of a member of the chain.\<close>

lemma chain_relink:
  "chain nx p (as @ l # bs) \<Longrightarrow> chain (nx(l := q)) q cs \<Longrightarrow> chain (nx(l := q)) p (as @ l # cs)"
proof (induction as arbitrary: p)
  case (Cons a as)
  have "a \<noteq> l" using chain_distinct [OF Cons.prems(1)] by auto
  with Cons show ?case by simp
qed simp

lemma chain_at: "chain nx p (as @ l # bs) \<Longrightarrow> chain nx (nx l) bs"
  by (induction as arbitrary: p) auto

definition hdr_repr :: "hdr_state \<Rightarrow> wbid list \<Rightarrow> bool" where
  "hdr_repr st xs = (case st of (h, bl) \<Rightarrow> chain (\<lambda>w. wb_next (bl w)) (waiters h) xs)"

definition timed_repr :: "timed_state \<Rightarrow> wbid list \<Rightarrow> bool" where
  "timed_repr st xs = (case st of (hp, bl) \<Rightarrow> chain (\<lambda>w. timed_next (bl w)) hp xs)"

lemma upd_wb_apply [simp]: "upd_wb w f bl v = (if v = w then f (bl w) else bl v)"
  by (simp add: upd_wb_def)

lemma next_upd_wb:
  "(\<lambda>v. wb_next (upd_wb w (wb_next_update (\<lambda>_. q)) bl v)) = (\<lambda>v. wb_next (bl v))(w := q)"
  "(\<lambda>v. timed_next (upd_wb w (timed_next_update (\<lambda>_. q)) bl v)) = (\<lambda>v. timed_next (bl v))(w := q)"
  by (auto simp: fun_eq_iff)

text \<open>Writing through the slot found behind a prefix of the list replaces what follows the prefix.\<close>

lemma set_next_slot_chain:
  assumes "hdr_repr (h, bl) (as @ bs)" and "set_next_slot (end_slot HeadSlot as) q (h, bl) = (h', bl')"
    and "chain (\<lambda>w. wb_next (bl w)) q cs" "set as \<inter> set cs = {}"
  shows "hdr_repr (h', bl') (as @ cs)"
proof (cases as rule: rev_cases)
  case Nil
  with assms show ?thesis by (auto simp: hdr_repr_def end_slot_def)
next
  case (snoc as' l)
  then have eq: "h' = h" "bl' = upd_wb l (wb_next_update (\<lambda>_. q)) bl" using assms(2) by (auto simp: end_slot_def)
  have c: "chain (\<lambda>w. wb_next (bl w)) (waiters h) (as' @ l # bs)" using assms(1) snoc by (simp add: hdr_repr_def)
  have "chain ((\<lambda>w. wb_next (bl w))(l := q)) q cs"
    using assms(3,4) snoc chain_cong [of cs "(\<lambda>w. wb_next (bl w))(l := q)" "\<lambda>w. wb_next (bl w)"] by auto
  from chain_relink [OF c this] show ?thesis using snoc by (simp add: hdr_repr_def eq next_upd_wb del: upd_wb_apply)
qed

lemma set_timed_slot_chain:
  assumes "timed_repr (hp, bl) (as @ bs)" and "set_timed_slot (end_slot HeadSlot as) q (hp, bl) = (hp', bl')"
    and "chain (\<lambda>w. timed_next (bl w)) q cs" "set as \<inter> set cs = {}"
  shows "timed_repr (hp', bl') (as @ cs)"
proof (cases as rule: rev_cases)
  case Nil
  with assms show ?thesis by (auto simp: timed_repr_def end_slot_def)
next
  case (snoc as' l)
  then have eq: "hp' = hp" "bl' = upd_wb l (timed_next_update (\<lambda>_. q)) bl" using assms(2) by (auto simp: end_slot_def)
  have c: "chain (\<lambda>w. timed_next (bl w)) hp (as' @ l # bs)" using assms(1) snoc by (simp add: timed_repr_def)
  have "chain ((\<lambda>w. timed_next (bl w))(l := q)) q cs"
    using assms(3,4) snoc chain_cong [of cs "(\<lambda>w. timed_next (bl w))(l := q)" "\<lambda>w. timed_next (bl w)"] by auto
  from chain_relink [OF c this] show ?thesis using snoc by (simp add: timed_repr_def eq next_upd_wb del: upd_wb_apply)
qed

lemma hdr_repr_cong:
  "(\<forall>w\<in>set xs. wb_next (bl' w) = wb_next (bl w)) \<Longrightarrow> waiters h' = waiters h \<Longrightarrow> hdr_repr (h', bl') xs = hdr_repr (h, bl) xs"
  using chain_cong [of xs "\<lambda>w. wb_next (bl' w)" "\<lambda>w. wb_next (bl w)"] by (simp add: hdr_repr_def)

lemma timed_repr_cong:
  "(\<forall>w\<in>set xs. timed_next (bl' w) = timed_next (bl w)) \<Longrightarrow> timed_repr (hp, bl') xs = timed_repr (hp, bl) xs"
  using chain_cong [of xs "\<lambda>w. timed_next (bl' w)" "\<lambda>w. timed_next (bl w)"] by (simp add: timed_repr_def)

definition relinked :: "blocks \<Rightarrow> blocks \<Rightarrow> bool" where
  "relinked bl bl' = (\<forall>w. \<exists>n. bl' w = (bl w)\<lparr>wb_next := n\<rparr>)"

lemma relinkedD:
  assumes "relinked bl bl'"
  shows "wb_thread (bl' w) = wb_thread (bl w)" "timed_next (bl' w) = timed_next (bl w)"
    "deadline (bl' w) = deadline (bl w)" "satisfied (bl' w) = satisfied (bl w)" "timed_out (bl' w) = timed_out (bl w)"
  using assms by (auto simp: relinked_def dest: spec [of _ w])

lemma relinked_refl: "relinked bl bl"
  unfolding relinked_def
proof
  fix w
  have "bl w = (bl w)\<lparr>wb_next := wb_next (bl w)\<rparr>" by simp
  then show "\<exists>n. bl w = (bl w)\<lparr>wb_next := n\<rparr>" by blast
qed

lemma relinked_upd: "relinked bl bl' \<Longrightarrow> relinked bl (upd_wb v (wb_next_update (\<lambda>_. q)) bl')"
  unfolding relinked_def
proof
  fix w
  assume "\<forall>w. \<exists>n. bl' w = (bl w)\<lparr>wb_next := n\<rparr>"
  then obtain n where "bl' w = (bl w)\<lparr>wb_next := n\<rparr>" by blast
  then have "upd_wb v (wb_next_update (\<lambda>_. q)) bl' w = (bl w)\<lparr>wb_next := if w = v then q else n\<rparr>" by auto
  then show "\<exists>n. upd_wb v (wb_next_update (\<lambda>_. q)) bl' w = (bl w)\<lparr>wb_next := n\<rparr>" by blast
qed

lemma set_next_slot_relinked:
  "set_next_slot s q (h, bl) = (h', bl') \<Longrightarrow>
     relinked bl bl' \<and> signalled h' = signalled h \<and> manualReset h' = manualReset h"
  by (cases s) (auto intro: relinked_refl relinked_upd)

lemma AddWaiter_appends:
  assumes r: "hdr_repr (h, bl) xs" and w: "w \<notin> set xs"
  obtains h' bl' where "AddWaiter w (h, bl) = Some (h', bl')" "hdr_repr (h', bl') (xs @ [w])"
    "relinked bl bl'" "signalled h' = signalled h" "manualReset h' = manualReset h"
proof -
  let ?bl = "upd_wb w (wb_next_update (\<lambda>_. None)) bl"
  have r1: "hdr_repr (h, ?bl) xs" using r w hdr_repr_cong [of xs ?bl bl h h] by auto
  then have fe: "find_end (\<lambda>v. wb_next (?bl v)) (waiters h) HeadSlot = Some (end_slot HeadSlot xs)"
    by (intro find_end_chain) (simp add: hdr_repr_def)
  obtain h' bl' where s: "set_next_slot (end_slot HeadSlot xs) (Some w) (h, ?bl) = (h', bl')" by fastforce
  have "hdr_repr (h', bl') (xs @ [w])"
    using set_next_slot_chain [of h ?bl xs "[]" "Some w" h' bl' "[w]"] r1 s w by simp
  moreover have "AddWaiter w (h, bl) = Some (h', bl')" by (simp add: AddWaiter_def Let_def fe s del: upd_wb_apply)
  moreover have "relinked bl bl' \<and> signalled h' = signalled h \<and> manualReset h' = manualReset h"
    using s relinked_upd [OF relinked_refl [of bl]]
    by (cases "end_slot HeadSlot xs") (auto intro: relinked_upd relinked_refl)
  ultimately show ?thesis using that by blast
qed

lemma takeWhile_split: "w \<notin> set as \<Longrightarrow> takeWhile (\<lambda>x. x \<noteq> w) (as @ w # bs) = as"
  by (induction as) auto

lemma RemoveWaiter_absent:
  assumes "hdr_repr (h, bl) xs" "w \<notin> set xs"
  shows "RemoveWaiter w (h, bl) = Some (False, (h, bl))"
proof -
  have "find_slot (\<lambda>v. wb_next (bl v)) (waiters h) w HeadSlot = Some None"
    by (subst find_slot_chain [of _ _ _ xs]) (use assms in \<open>simp_all add: hdr_repr_def\<close>)
  then show ?thesis by (simp add: RemoveWaiter_def)
qed

lemma RemoveWaiter_present:
  assumes r: "hdr_repr (h, bl) (as @ w # bs)"
  obtains h' bl' where "RemoveWaiter w (h, bl) = Some (True, (h', bl'))" "hdr_repr (h', bl') (as @ bs)"
    "relinked bl bl'"
proof -
  have c: "chain (\<lambda>v. wb_next (bl v)) (waiters h) (as @ w # bs)" using r by (simp add: hdr_repr_def)
  have d: "distinct (as @ w # bs)" by (rule chain_distinct [OF c])
  then have tw: "takeWhile (\<lambda>x. x \<noteq> w) (as @ w # bs) = as" by (intro takeWhile_split) auto
  have fs: "find_slot (\<lambda>v. wb_next (bl v)) (waiters h) w HeadSlot = Some (Some (end_slot HeadSlot as))"
    by (subst find_slot_chain [of _ _ _ "as @ w # bs"]) (use c tw in simp_all)
  obtain h' bl1 where s: "set_next_slot (end_slot HeadSlot as) (wb_next (bl w)) (h, bl) = (h', bl1)" by fastforce
  have "hdr_repr (h', bl1) (as @ bs)"
    using set_next_slot_chain [OF r s, of bs] chain_at [OF c] d by auto
  then have "hdr_repr (h', upd_wb w (wb_next_update (\<lambda>_. None)) bl1) (as @ bs)"
    using d by (subst hdr_repr_cong [of _ _ bl1 _ h']) auto
  moreover have "relinked bl (upd_wb w (wb_next_update (\<lambda>_. None)) bl1)"
    using set_next_slot_relinked [OF s] by (auto intro: relinked_upd)
  ultimately show ?thesis using that fs s by (simp add: RemoveWaiter_def)
qed

subsection \<open>Signalling\<close>

definition mark_released :: "wbid set \<Rightarrow> blocks \<Rightarrow> blocks" where
  "mark_released W bl = (\<lambda>w. if w \<in> W then (bl w)\<lparr>wb_next := None, satisfied := True\<rparr> else bl w)"

lemma release_repr:
  assumes "hdr_repr (h, bl) (w # xs)"
  shows "release wake w ((h, bl), s) = ((h\<lparr>waiters := wb_next (bl w)\<rparr>, mark_released {w} bl), wake (wb_thread (bl w)) s)"
    and "hdr_repr (h\<lparr>waiters := wb_next (bl w)\<rparr>, mark_released {w} bl) xs"
proof -
  have c: "chain (\<lambda>v. wb_next (bl v)) (wb_next (bl w)) xs" and "w \<notin> set xs"
    using assms chain_distinct [of _ _ "w # xs"] by (auto simp: hdr_repr_def)
  then have "chain (\<lambda>v. wb_next (mark_released {w} bl v)) (wb_next (bl w)) xs"
    by (subst chain_cong [of _ _ "\<lambda>v. wb_next (bl v)"]) (auto simp: mark_released_def)
  then show "hdr_repr (h\<lparr>waiters := wb_next (bl w)\<rparr>, mark_released {w} bl) xs" by (simp add: hdr_repr_def)
qed (auto simp: release_def mark_released_def fun_eq_iff)

lemma mark_released_insert: "mark_released W (mark_released {w} bl) = mark_released (insert w W) bl"
  by (auto simp: mark_released_def fun_eq_iff)

lemma release_all_repr:
  "hdr_repr (h, bl) xs \<Longrightarrow>
   release_all wake cnt ((h, bl), s) =
     Some (cnt + of_nat (length xs),
       ((h\<lparr>waiters := None\<rparr>, mark_released (set xs) bl), fold wake (map (\<lambda>w. wb_thread (bl w)) xs) s))"
proof (induction xs arbitrary: cnt h bl s)
  case Nil
  then have "waiters h = None" by (simp add: hdr_repr_def)
  moreover from this have "h\<lparr>waiters := None\<rparr> = h" by (cases h) simp
  ultimately show ?case by (subst release_all.simps) (simp add: mark_released_def)
next
  case (Cons w xs)
  from Cons.prems have "waiters h = Some w" and nw: "w \<notin> set xs"
    using chain_distinct [of _ _ "w # xs"] by (auto simp: hdr_repr_def)
  then have "release_all wake cnt ((h, bl), s) = release_all wake (cnt + 1) (release wake w ((h, bl), s))"
    by (subst release_all.simps) simp
  also have "\<dots> = Some (cnt + 1 + of_nat (length xs),
     ((h\<lparr>waiters := None\<rparr>, mark_released (set (w # xs)) bl),
      fold wake (map (\<lambda>v. wb_thread (mark_released {w} bl v)) xs) (wake (wb_thread (bl w)) s)))"
    unfolding release_repr(1) [OF Cons.prems] Cons.IH [OF release_repr(2) [OF Cons.prems]]
    by (simp add: mark_released_insert)
  also have "map (\<lambda>v. wb_thread (mark_released {w} bl v)) xs = map (\<lambda>v. wb_thread (bl v)) xs"
    by (simp add: mark_released_def)
  finally show ?case by (simp add: add.assoc)
qed

text \<open>What \<open>Signal\<close> does, in terms of the list of waiters: how many it releases, and the new signal state.\<close>

definition released :: "bool \<Rightarrow> KDispatcherHeader \<Rightarrow> wbid list \<Rightarrow> wbid list" where
  "released wakeAll h xs = (if manualReset h \<or> wakeAll then xs else take 1 xs)"

definition signal_state :: "bool \<Rightarrow> KDispatcherHeader \<Rightarrow> wbid list \<Rightarrow> bool" where
  "signal_state wakeAll h xs =
     (if manualReset h then True else if wakeAll then False else xs = [] \<or> signalled h)"

lemma Signal_spec:
  assumes r: "hdr_repr (h, bl) xs"
  shows "\<exists>h'. Signal wakeAll wake ((h, bl), s) =
      Some (of_nat (length (released wakeAll h xs)),
        ((h', mark_released (set (released wakeAll h xs)) bl),
         fold wake (map (\<lambda>w. wb_thread (bl w)) (released wakeAll h xs)) s)) \<and>
    hdr_repr (h', mark_released (set (released wakeAll h xs)) bl) (drop (length (released wakeAll h xs)) xs) \<and>
    manualReset h' = manualReset h \<and> signalled h' = signal_state wakeAll h xs"
proof (cases "manualReset h \<or> wakeAll")
  case True
  then show ?thesis
    by (intro exI [of _ "h\<lparr>waiters := None, signalled := manualReset h\<rparr>"])
       (auto simp: Signal_def release_all_repr [OF r] released_def signal_state_def hdr_repr_def)
next
  case False
  show ?thesis
  proof (cases xs)
    case Nil
    with r have "waiters h = None" by (simp add: hdr_repr_def)
    with Nil False show ?thesis
      by (intro exI [of _ "h\<lparr>signalled := True\<rparr>"])
         (auto simp: Signal_def released_def signal_state_def hdr_repr_def mark_released_def)
  next
    case (Cons w ys)
    with r have wt: "waiters h = Some w" and rw: "hdr_repr (h, bl) (w # ys)" by (simp_all add: hdr_repr_def)
    have "Signal wakeAll wake ((h, bl), s) = Some (1, release wake w ((h, bl), s))"
      using False wt by (simp add: Signal_def)
    then show ?thesis using Cons False release_repr(1) [OF rw, of wake s] release_repr(2) [OF rw]
      by (intro exI [of _ "h\<lparr>waiters := wb_next (bl w)\<rparr>"]) (simp add: released_def signal_state_def)
  qed
qed

subsection \<open>Expiry\<close>

lemma timed_Add_repr:
  assumes "timed_repr (hp, bl) xs" "w \<notin> set xs"
  shows "timed_repr (TimedWaitList_Add w (hp, bl)) (w # xs)"
  using assms chain_cong [of xs "\<lambda>v. timed_next (upd_wb w (timed_next_update (\<lambda>_. hp)) bl v)" "\<lambda>v. timed_next (bl v)" hp]
  by (auto simp: TimedWaitList_Add_def timed_repr_def)

definition retimed :: "(wbid \<Rightarrow> wbid option) \<Rightarrow> blocks \<Rightarrow> blocks" where
  "retimed tn bl = (\<lambda>w. (bl w)\<lparr>timed_next := tn w\<rparr>)"

lemma retimed_id: "retimed (\<lambda>w. timed_next (bl w)) bl = bl"
  by (simp add: retimed_def)

lemma retimed_upd: "upd_wb w (timed_next_update (\<lambda>_. q)) (retimed tn bl) = retimed (tn(w := q)) bl"
  by (auto simp: retimed_def fun_eq_iff)

lemma set_timed_slot_retimed:
  assumes "set_timed_slot s q (hp, bl) = (hp', bl')"
  obtains tn where "bl' = retimed tn bl"
proof (cases s)
  case HeadSlot
  with assms that [of "\<lambda>w. timed_next (bl w)"] show ?thesis by (simp add: retimed_id)
next
  case (LinkSlot l)
  have "upd_wb l (timed_next_update (\<lambda>_. q)) bl = retimed ((\<lambda>w. timed_next (bl w))(l := q)) bl"
    using retimed_upd [of l q "\<lambda>w. timed_next (bl w)" bl] by (simp add: retimed_id)
  with assms LinkSlot that [of "(\<lambda>w. timed_next (bl w))(l := q)"] show ?thesis by (simp del: upd_wb_apply)
qed

text \<open>Unlinking the block behind a prefix.\<close>

lemma unlink_timed:
  assumes r: "timed_repr (hp, bl) (as @ w # bs)"
    and s: "set_timed_slot (end_slot HeadSlot as) (timed_next (bl w)) (hp, bl) = (hp', bl1)"
  obtains tn where "upd_wb w (timed_next_update (\<lambda>_. None)) bl1 = retimed tn bl" "tn w = None"
    "timed_repr (hp', retimed tn bl) (as @ bs)"
proof -
  have c: "chain (\<lambda>v. timed_next (bl v)) hp (as @ w # bs)" using r by (simp add: timed_repr_def)
  have d: "distinct (as @ w # bs)" by (rule chain_distinct [OF c])
  obtain tn where tn: "bl1 = retimed tn bl" by (rule set_timed_slot_retimed [OF s])
  have "timed_repr (hp', bl1) (as @ bs)"
    using set_timed_slot_chain [OF r s, of bs] chain_at [OF c] d by auto
  then have "timed_repr (hp', upd_wb w (timed_next_update (\<lambda>_. None)) bl1) (as @ bs)"
    using d by (subst timed_repr_cong [of _ _ bl1]) auto
  with that [of "tn(w := None)"] show ?thesis by (simp add: tn retimed_upd del: upd_wb_apply)
qed

lemma timed_Remove_repr:
  assumes r: "timed_repr (hp, bl) xs"
  obtains hp' tn where "TimedWaitList_Remove w (hp, bl) = Some (hp', retimed tn bl)"
    "timed_repr (hp', retimed tn bl) (removeAll w xs)"
proof (cases "w \<in> set xs")
  case False
  have "find_slot (\<lambda>v. timed_next (bl v)) hp w HeadSlot = Some None"
    by (subst find_slot_chain [of _ _ _ xs]) (use r False in \<open>simp_all add: timed_repr_def\<close>)
  then have "TimedWaitList_Remove w (hp, bl) = Some (hp, bl)" by (simp add: TimedWaitList_Remove_def)
  with that [of hp "\<lambda>w. timed_next (bl w)"] r False show ?thesis by (simp add: retimed_id)
next
  case True
  then obtain as bs where xs: "xs = as @ w # bs" by (auto simp: in_set_conv_decomp)
  from r xs have r': "timed_repr (hp, bl) (as @ w # bs)" by simp
  have c: "chain (\<lambda>v. timed_next (bl v)) hp (as @ w # bs)" using r' by (simp add: timed_repr_def)
  have d: "distinct (as @ w # bs)" by (rule chain_distinct [OF c])
  then have tw: "takeWhile (\<lambda>x. x \<noteq> w) (as @ w # bs) = as" by (intro takeWhile_split) auto
  have fs: "find_slot (\<lambda>v. timed_next (bl v)) hp w HeadSlot = Some (Some (end_slot HeadSlot as))"
    by (subst find_slot_chain [of _ _ _ "as @ w # bs"]) (use c tw in simp_all)
  obtain hp' bl1 where s: "set_timed_slot (end_slot HeadSlot as) (timed_next (bl w)) (hp, bl) = (hp', bl1)" by fastforce
  from r' s obtain tn where "upd_wb w (timed_next_update (\<lambda>_. None)) bl1 = retimed tn bl"
    "timed_repr (hp', retimed tn bl) (as @ bs)" by (rule unlink_timed)
  moreover have "removeAll w xs = as @ bs" using xs d by simp
  ultimately show ?thesis using that [of hp' tn] fs s by (simp add: TimedWaitList_Remove_def del: upd_wb_apply)
qed

definition expired :: "int \<Rightarrow> wbid set \<Rightarrow> (wbid \<Rightarrow> wbid option) \<Rightarrow> blocks \<Rightarrow> blocks" where
  "expired now W tn bl = (\<lambda>w. (bl w)\<lparr>timed_next := tn w,
     timed_out := timed_out (bl w) \<or> w \<in> W \<and> due now (bl w) \<and> \<not> satisfied (bl w)\<rparr>)"

definition late :: "int \<Rightarrow> blocks \<Rightarrow> wbid list \<Rightarrow> wbid list" where
  "late now bl xs = filter (\<lambda>w. due now (bl w) \<and> \<not> satisfied (bl w)) xs"

lemma deref_end_slot: "chain nx hp (pre @ xs) \<Longrightarrow> chain nx (deref nx hp (end_slot HeadSlot pre)) xs"
  by (cases pre rule: rev_cases) (auto simp: end_slot_def dest: chain_at)

lemma due_retimed [simp]: "due now (retimed tn bl w) = due now (bl w)"
  "satisfied (retimed tn bl w) = satisfied (bl w)" "wb_thread (retimed tn bl w) = wb_thread (bl w)"
  "timed_out (retimed tn bl w) = timed_out (bl w)"
  by (simp_all add: retimed_def due_def)

lemma expire_from_spec:
  "timed_repr (hp, bl) (pre @ xs) \<Longrightarrow>
   \<exists>hp' tn. expire_from now wake (end_slot HeadSlot pre) ((hp, bl), s) =
       Some ((hp', expired now (set xs) tn bl), fold wake (map (\<lambda>w. wb_thread (bl w)) (late now bl xs)) s) \<and>
     timed_repr (hp', expired now (set xs) tn bl) (pre @ filter (\<lambda>w. \<not> due now (bl w)) xs)"
proof (induction xs arbitrary: pre hp bl s)
  case Nil
  have c: "chain (\<lambda>w. timed_next (bl w)) hp (pre @ [])" using Nil by (simp add: timed_repr_def)
  have e: "expired now {} (\<lambda>w. timed_next (bl w)) bl = bl" by (simp add: expired_def)
  show ?case using deref_end_slot [OF c] Nil
    by (intro exI [of _ hp] exI [of _ "\<lambda>w. timed_next (bl w)"], subst expire_from.simps) (simp add: e late_def)
next
  case (Cons x xs)
  have c: "chain (\<lambda>w. timed_next (bl w)) hp (pre @ x # xs)" using Cons.prems by (simp add: timed_repr_def)
  have dr: "deref (\<lambda>w. timed_next (bl w)) hp (end_slot HeadSlot pre) = Some x"
    using deref_end_slot [OF c] by simp
  have nx: "x \<notin> set xs" using chain_distinct [OF c] by simp
  show ?case
  proof (cases "due now (bl x)")
    case False
    have "expire_from now wake (end_slot HeadSlot pre) ((hp, bl), s) =
        expire_from now wake (end_slot HeadSlot (pre @ [x])) ((hp, bl), s)"
      using dr False by (subst expire_from.simps) (simp add: end_slot_def)
    moreover have "((w = x \<or> w \<in> set xs) \<and> due now (bl w) \<and> \<not> satisfied (bl w)) =
        (w \<in> set xs \<and> due now (bl w) \<and> \<not> satisfied (bl w))" for w using False by auto
    then have "expired now (set (x # xs)) tn bl = expired now (set xs) tn bl" for tn
      by (simp add: expired_def)
    ultimately show ?thesis using Cons.IH [of hp bl "pre @ [x]" s] Cons.prems False by (simp add: late_def)
  next
    case True
    obtain hp1 bl1 where s1: "set_timed_slot (end_slot HeadSlot pre) (timed_next (bl x)) (hp, bl) = (hp1, bl1)" by fastforce
    from Cons.prems s1 obtain tn1 where u: "upd_wb x (timed_next_update (\<lambda>_. None)) bl1 = retimed tn1 bl"
      and r1: "timed_repr (hp1, retimed tn1 bl) (pre @ xs)" by (rule unlink_timed)
    define bl3 where "bl3 = (if satisfied (bl x) then retimed tn1 bl
      else upd_wb x (timed_out_update (\<lambda>_. True)) (retimed tn1 bl))"
    define s3 where "s3 = (if satisfied (bl x) then s else wake (wb_thread (bl x)) s)"
    have st: "expire_from now wake (end_slot HeadSlot pre) ((hp, bl), s) =
        expire_from now wake (end_slot HeadSlot pre) ((hp1, bl3), s3)"
      using dr True s1 u by (subst expire_from.simps) (simp add: bl3_def s3_def Let_def del: upd_wb_apply)
    have r3: "timed_repr (hp1, bl3) (pre @ xs)"
      using r1 by (subst timed_repr_cong [of _ _ "retimed tn1 bl"]) (auto simp: bl3_def)
    have f3: "due now (bl3 w) = due now (bl w)" "satisfied (bl3 w) = satisfied (bl w)"
        "wb_thread (bl3 w) = wb_thread (bl w)" for w
      by (auto simp: bl3_def due_def retimed_def)
    have l3: "late now bl3 xs = late now bl xs" by (simp add: late_def f3)
    have e3: "expired now (set xs) tn bl3 = expired now (set (x # xs)) tn bl" for tn
    proof
      fix w
      show "expired now (set xs) tn bl3 w = expired now (set (x # xs)) tn bl w"
        using True nx by (cases "w = x"; cases "satisfied (bl x)")
          (simp_all add: expired_def bl3_def retimed_def due_def)
    qed
    have fl: "fold wake (map (\<lambda>w. wb_thread (bl w)) (late now bl (x # xs))) s =
        fold wake (map (\<lambda>w. wb_thread (bl3 w)) (late now bl3 xs)) s3"
      using True by (simp add: l3 f3 s3_def late_def)
    from Cons.IH [OF r3, of s3] True show ?thesis unfolding st fl e3 by (simp add: f3)
  qed
qed

lemma Expire_spec:
  assumes "timed_repr (hp, bl) xs"
  shows "\<exists>hp' tn. Expire now wake ((hp, bl), s) =
       Some ((hp', expired now (set xs) tn bl), fold wake (map (\<lambda>w. wb_thread (bl w)) (late now bl xs)) s) \<and>
     timed_repr (hp', expired now (set xs) tn bl) (filter (\<lambda>w. \<not> due now (bl w)) xs)"
  using expire_from_spec [of hp bl "[]" xs now wake s] assms by (simp add: Expire_def end_slot_def)

end
