(* ===== verification/Wait.thy ===== *)
theory Wait
  imports Dispatcher Scheduler_Steps
begin

text \<open>
  Blocking waits: \<open>wait.cpp\<close>, which joins the dispatcher headers to the scheduler. The wait
  lock makes three parts of \<open>KE_SCHED_WaitForHeader\<close> atomic: the part up to the first
  release of the lock (\<open>wait_enter\<close>), each test of the wait block, and the clean-up
  (\<open>wait_leave\<close>); between them the thread gives up the CPU through
  \<open>block_current_locked\<close>. Signals and the timer run under the lock as one step.
\<close>

type_synonym hid = nat

record wait_sys =
  ws :: sched
  hdrs :: "hid \<Rightarrow> KDispatcherHeader"
  wbs :: blocks
  g_timed :: "wbid option"

definition wake :: "nat \<Rightarrow> tid \<Rightarrow> sched \<Rightarrow> sched" where
  "wake me t \<sigma> = ready_locked me (Some t) \<sigma>"

definition wait_tick :: "nat \<Rightarrow> int \<Rightarrow> wait_sys \<Rightarrow> wait_sys option" where
  "wait_tick me now W =
     (case Expire now (wake me) ((g_timed W, wbs W), ws W) of
        None \<Rightarrow> None
      | Some ((hp, bl), \<sigma>) \<Rightarrow> Some (W\<lparr>g_timed := hp, wbs := bl, ws := \<sigma>\<rparr>))"

definition KE_EVENT_Signal :: "nat \<Rightarrow> hid \<Rightarrow> bool \<Rightarrow> wait_sys \<Rightarrow> wait_sys option" where
  "KE_EVENT_Signal me h wakeAll W =
     (case Signal wakeAll (wake me) ((hdrs W h, wbs W), ws W) of
        None \<Rightarrow> None
      | Some (_, ((h1, bl), \<sigma>)) \<Rightarrow> Some (W\<lparr>hdrs := (hdrs W)(h := h1), wbs := bl, ws := \<sigma>\<rparr>))"

text \<open>
  The wait block is a local variable of the waiting call: \<open>wb\<close> is its address on the
  waiter's stack. The deadline is the time in nanoseconds plus the timeout, truncated to
  milliseconds.
\<close>

definition new_wait_block :: "tid \<Rightarrow> KWaitBlock" where
  "new_wait_block t = \<lparr>wb_thread = t, wb_next = None, timed_next = None, deadline = 0, satisfied = False, timed_out = False\<rparr>"

definition wait_enter ::
  "nat \<Rightarrow> hid \<Rightarrow> int \<Rightarrow> int \<Rightarrow> wbid \<Rightarrow> wait_sys \<Rightarrow> ((KernelError + unit) \<times> wait_sys) option" where
  "wait_enter me h timeout now wb W =
     (case KE_SCHED_GetCurrentThread me (ws W) of
        None \<Rightarrow> Some (Inl NoCurrentThread, W)
      | Some self \<Rightarrow>
          (case TryAcquire (hdrs W h) of (got, h1) \<Rightarrow>
            if got then Some (Inl Success, W\<lparr>hdrs := (hdrs W)(h := h1)\<rparr>)
            else if timeout = 0 then Some (Inl Timeout, W)
            else
              (case AddWaiter wb (hdrs W h, (wbs W)(wb := new_wait_block self)) of
                 None \<Rightarrow> None
               | Some (h2, bl) \<Rightarrow>
                   (let W1 = W\<lparr>hdrs := (hdrs W)(h := h2), wbs := bl\<rparr> in
                    if timeout > 0
                    then (case TimedWaitList_Add wb
                                 (g_timed W, upd_wb wb (deadline_update (\<lambda>_. (now + timeout * ns_per_ms) div ns_per_ms)) bl) of
                            (hp, bl1) \<Rightarrow> Some (Inr (), W1\<lparr>g_timed := hp, wbs := bl1\<rparr>))
                    else Some (Inr (), W1)))))"

definition wait_again :: "wbid \<Rightarrow> wait_sys \<Rightarrow> bool" where
  "wait_again wb W = (\<not> satisfied (wbs W wb) \<and> \<not> timed_out (wbs W wb))"

definition wait_block :: "nat \<Rightarrow> wait_sys \<Rightarrow> wait_sys option" where
  "wait_block me W = map_option (\<lambda>\<sigma>. W\<lparr>ws := \<sigma>\<rparr>) (block_current_locked me (ws W))"

definition wait_leave :: "hid \<Rightarrow> int \<Rightarrow> wbid \<Rightarrow> wait_sys \<Rightarrow> (KernelError \<times> wait_sys) option" where
  "wait_leave h timeout wb W =
     (case (if timeout > 0 then TimedWaitList_Remove wb (g_timed W, wbs W) else Some (g_timed W, wbs W)) of
        None \<Rightarrow> None
      | Some (hp, bl) \<Rightarrow>
          (let W1 = W\<lparr>g_timed := hp, wbs := bl\<rparr> in
           if satisfied (bl wb) then Some (Success, W1)
           else
             (case RemoveWaiter wb (hdrs W h, bl) of
                None \<Rightarrow> None
              | Some (_, (h1, bl1)) \<Rightarrow> Some (Timeout, W1\<lparr>hdrs := (hdrs W)(h := h1), wbs := bl1\<rparr>))))"

definition KE_EVENT_Create :: "bool \<Rightarrow> bool \<Rightarrow> KDispatcherHeader" where
  "KE_EVENT_Create manual initial = \<lparr>signalled = initial, manualReset = manual, waiters = None\<rparr>"

subsection \<open>Waking several threads\<close>

lemma fold_wake_ok:
  "sched_ok \<sigma> qs \<Longrightarrow> \<forall>t\<in>set ts. t \<in> set (thread_dir \<sigma>) \<and> state (thr \<sigma> t) = Blocked \<Longrightarrow> distinct ts \<Longrightarrow>
   cpus \<sigma> \<noteq> [] \<Longrightarrow>
   (\<exists>qs'. sched_ok (fold (wake me) ts \<sigma>) qs') \<and>
   (\<forall>u. state (thr (fold (wake me) ts \<sigma>) u) = (if u \<in> set ts then Ready else state (thr \<sigma> u))) \<and>
   thread_dir (fold (wake me) ts \<sigma>) = thread_dir \<sigma>"
proof (induction ts arbitrary: \<sigma> qs)
  case (Cons t ts)
  have t: "t \<in> set (thread_dir \<sigma>)" "state (thr \<sigma> t) = Blocked" using Cons.prems(2) by simp_all
  note w = ready_locked_ok [OF Cons.prems(1) t Cons.prems(4), of me, folded wake_def]
  have "cpus (wake me t \<sigma>) \<noteq> []" using w(4) Cons.prems(4) by (metis length_0_conv)
  moreover have "\<forall>u\<in>set ts. u \<in> set (thread_dir (wake me t \<sigma>)) \<and> state (thr (wake me t \<sigma>) u) = Blocked"
    using Cons.prems(2,3) w(2,3) by auto
  ultimately have "(\<exists>qs'. sched_ok (fold (wake me) ts (wake me t \<sigma>)) qs') \<and>
    (\<forall>u. state (thr (fold (wake me) ts (wake me t \<sigma>)) u) = (if u \<in> set ts then Ready else state (thr (wake me t \<sigma>) u))) \<and>
    thread_dir (fold (wake me) ts (wake me t \<sigma>)) = thread_dir (wake me t \<sigma>)"
    using Cons.IH [of "wake me t \<sigma>"] w(1) Cons.prems(3) by auto
  then show ?case using w(2,3) by auto
qed auto

text \<open>A header whose waiters are blocked threads, each waiting once.\<close>

definition waiters_ok :: "wait_sys \<Rightarrow> hid \<Rightarrow> wbid list \<Rightarrow> bool" where
  "waiters_ok W h xs =
     (hdr_repr (hdrs W h, wbs W) xs \<and> distinct (map (\<lambda>w. wb_thread (wbs W w)) xs) \<and>
      (\<forall>w\<in>set xs. wb_thread (wbs W w) \<in> set (thread_dir (ws W)) \<and> state (thr (ws W) (wb_thread (wbs W w))) = Blocked))"

lemma released_sublist: "released a h xs = take (length (released a h xs)) xs"
  by (cases xs) (simp_all add: released_def)


definition demo_wait :: wait_sys where
  "demo_wait = \<lparr>ws = demo_pair, hdrs = (\<lambda>_. \<lparr>signalled = False, manualReset = False, waiters = Some 100\<rparr>),
     wbs = (\<lambda>_. new_wait_block 4), g_timed = None\<rparr>"

lemma demo_wait_ok: "sched_ok (ws demo_wait) [[2, 3]]" "cpus (ws demo_wait) \<noteq> []" "waiters_ok demo_wait 0 [100]"
  using demo_pair_ok by (simp_all add: demo_wait_def demo_pair_def waiters_ok_def hdr_repr_def new_wait_block_def)


subsection \<open>Entering a wait\<close>

lemma hdr_repr_None: "hdr_repr (h, bl) [] \<longleftrightarrow> waiters h = None"
  by (simp add: hdr_repr_def)

lemma wait_enter_blocks:
  assumes "current (cpus (ws W) ! me) = Some p" "\<not> signalled (hdrs W h)" "timeout < 0"
    and "hdr_repr (hdrs W h, wbs W) xs" "wb \<notin> set xs"
  obtains W1 where "wait_enter me h timeout now wb W = Some (Inr (), W1)" "ws W1 = ws W"
    "hdr_repr (hdrs W1 h, wbs W1) (xs @ [wb])" "wb_thread (wbs W1 wb) = p"
    "manualReset (hdrs W1 h) = manualReset (hdrs W h)" "signalled (hdrs W1 h) = signalled (hdrs W h)"
proof -
  let ?bl = "(wbs W)(wb := new_wait_block p)"
  have "hdr_repr (hdrs W h, ?bl) xs" using assms(4,5) hdr_repr_cong [of xs ?bl "wbs W" "hdrs W h" "hdrs W h"] by auto
  then obtain h' bl' where a: "AddWaiter wb (hdrs W h, ?bl) = Some (h', bl')" "hdr_repr (h', bl') (xs @ [wb])"
    "relinked ?bl bl'" "signalled h' = signalled (hdrs W h)" "manualReset h' = manualReset (hdrs W h)"
    using assms(5) by (rule AddWaiter_appends)
  let ?W = "W\<lparr>hdrs := (hdrs W)(h := h'), wbs := bl'\<rparr>"
  have "wait_enter me h timeout now wb W = Some (Inr (), ?W)"
    using assms(1-3) a(1) by (simp add: wait_enter_def KE_SCHED_GetCurrentThread_def TryAcquire_def Let_def)
  moreover have "wb_thread (bl' wb) = p" using relinkedD(1) [OF a(3), of wb] by (simp add: new_wait_block_def)
  ultimately show ?thesis using that [of ?W] a by simp
qed

text \<open>Signalling a header whose only waiter is not marked Blocked yet wakes nobody.\<close>

lemma signal_running_waiter:
  assumes "hdr_repr (hdrs W h, wbs W) [wb]" "state (thr (ws W) (wb_thread (wbs W wb))) \<noteq> Blocked"
  obtains W' where "KE_EVENT_Signal me h wakeAll W = Some W'" "ws W' = ws W" "waiters (hdrs W' h) = None"
    "satisfied (wbs W' wb)"
proof -
  have rl: "released wakeAll (hdrs W h) [wb] = [wb]" by (simp add: released_def)
  have ig: "wake me (wb_thread (wbs W wb)) (ws W) = ws W"
    using assms(2) ready_locked_ignored [of "ws W"] by (simp add: wake_def)
  from Signal_spec [OF assms(1), of wakeAll "wake me" "ws W"] obtain h' where
    "Signal wakeAll (wake me) ((hdrs W h, wbs W), ws W) = Some (1, ((h', mark_released {wb} (wbs W)), ws W))"
    "hdr_repr (h', mark_released {wb} (wbs W)) []" by (auto simp: rl ig)
  then show ?thesis
    using that [of "W\<lparr>hdrs := (hdrs W)(h := h'), wbs := mark_released {wb} (wbs W), ws := ws W\<rparr>"]
    by (simp add: KE_EVENT_Signal_def hdr_repr_None mark_released_def)
qed

lemma signal_no_waiter:
  assumes "waiters (hdrs W h) = None"
  shows "\<exists>W'. KE_EVENT_Signal me h wakeAll W = Some W' \<and> ws W' = ws W"
proof -
  have "hdr_repr (hdrs W h, wbs W) []" using assms by (simp add: hdr_repr_None)
  from Signal_spec [OF this, of wakeAll "wake me" "ws W"] show ?thesis
    by (auto simp: KE_EVENT_Signal_def released_def)
qed

text \<open>The gap in \<open>KE_SCHED_WaitForHeader\<close> between releasing the wait lock and marking the
  thread Blocked loses a wake-up on a multiprocessor: when another CPU signals the header
  in the gap, the waiter is still Running, so the signaller consumes its wait block without
  queueing it; the waiter then blocks although its wait is satisfied, it is in no waiter
  list, and later signals of the header leave it Blocked.\<close>

theorem lost_wakeup:
  assumes "sched_ok (ws W) qs" "me < length (cpus (ws W))" "current (cpus (ws W) ! me) = Some p"
    and "idle (cpus (ws W) ! me) \<noteq> Some p"
    and "\<not> signalled (hdrs W h)" "waiters (hdrs W h) = None" "timeout < 0"
  shows "\<exists>W1 W2 W3 W4. wait_enter me h timeout now wb W = Some (Inr (), W1) \<and>
    KE_EVENT_Signal other h wakeAll W1 = Some W2 \<and> wait_block me W2 = Some W3 \<and>
    \<not> wait_again wb W3 \<and> state (thr (ws W3) p) = Blocked \<and> waiters (hdrs W3 h) = None \<and>
    KE_EVENT_Signal other h wakeAll W3 = Some W4 \<and> state (thr (ws W4) p) = Blocked"
proof -
  have r0: "hdr_repr (hdrs W h, wbs W) []" using assms(6) by (simp add: hdr_repr_None)
  from assms(3,5,7) r0 obtain W1 where w1: "wait_enter me h timeout now wb W = Some (Inr (), W1)" "ws W1 = ws W"
    "hdr_repr (hdrs W1 h, wbs W1) ([] @ [wb])" "wb_thread (wbs W1 wb) = p"
    by (rule wait_enter_blocks) simp
  have "state (thr (ws W) p) = Running"
    using sched_inv_runs [OF assms(1) [unfolded sched_ok_def], of p] assms(2,3) by (auto simp: runs_def)
  then have nb: "state (thr (ws W1) (wb_thread (wbs W1 wb))) \<noteq> Blocked" using w1(2,4) by simp
  have "hdr_repr (hdrs W1 h, wbs W1) [wb]" using w1(3) by simp
  from this nb obtain W2 where w2: "KE_EVENT_Signal other h wakeAll W1 = Some W2" "ws W2 = ws W1"
    "waiters (hdrs W2 h) = None" "satisfied (wbs W2 wb)" by (rule signal_running_waiter)
  from leave_switches [OF assms(1-4), of Blocked] obtain \<sigma>' where
    s: "block_current_locked me (ws W) = Some \<sigma>'" "state (thr \<sigma>' p) = Blocked"
    unfolding block_current_locked_def by auto
  let ?W3 = "W2\<lparr>ws := \<sigma>'\<rparr>"
  have w3: "wait_block me W2 = Some ?W3" using s(1) w2(2) w1(2) by (simp add: wait_block_def)
  have "waiters (hdrs ?W3 h) = None" using w2(3) by simp
  from signal_no_waiter [OF this, of other wakeAll] obtain W4 where
    w4: "KE_EVENT_Signal other h wakeAll ?W3 = Some W4" "ws W4 = ws ?W3" by blast
  have "\<not> wait_again wb ?W3" using w2(4) by (simp add: wait_again_def)
  moreover have "state (thr (ws ?W3) p) = Blocked" using s(2) by simp
  moreover have "state (thr (ws W4) p) = Blocked" using w4(2) s(2) by simp
  ultimately show ?thesis using w1(1) w2(1) w3 w4(1) w2(3)
    by (intro exI [of _ W1] exI [of _ W2] exI [of _ ?W3] exI [of _ W4]) simp
qed

theorem lost_wakeup_witness:
  "\<exists>W1 W2 W3 W4. wait_enter 0 7 (-1) 0 200 (demo_wait\<lparr>hdrs := (\<lambda>_. KE_EVENT_Create False False)\<rparr>) = Some (Inr (), W1) \<and>
    KE_EVENT_Signal 1 7 False W1 = Some W2 \<and> wait_block 0 W2 = Some W3 \<and> state (thr (ws W3) 1) = Blocked \<and>
    KE_EVENT_Signal 1 7 False W3 = Some W4 \<and> state (thr (ws W4) 1) = Blocked"
proof -
  let ?W = "demo_wait\<lparr>hdrs := (\<lambda>_. KE_EVENT_Create False False)\<rparr>"
  have "sched_ok (ws ?W) [[2, 3]]" "current (cpus (ws ?W) ! 0) = Some 1" "idle (cpus (ws ?W) ! 0) = Some 2"
    "0 < length (cpus (ws ?W))" "\<not> signalled (hdrs ?W 7)" "waiters (hdrs ?W 7) = None"
    using demo_wait_ok(1) by (simp_all add: demo_wait_def demo_pair_def KE_EVENT_Create_def)
  then have "idle (cpus (ws ?W) ! 0) \<noteq> Some 1" by simp
  from lost_wakeup [OF \<open>sched_ok (ws ?W) [[2, 3]]\<close> \<open>0 < length (cpus (ws ?W))\<close> \<open>current (cpus (ws ?W) ! 0) = Some 1\<close> this
      \<open>\<not> signalled (hdrs ?W 7)\<close> \<open>waiters (hdrs ?W 7) = None\<close>, of "-1" 0 200 1 False] show ?thesis by auto
qed

subsection \<open>Timed waits\<close>

definition overdue :: "int \<Rightarrow> blocks \<Rightarrow> wbid list \<Rightarrow> wbid list" where
  "overdue now bl xs = filter (\<lambda>w. deadline (bl w) * 1000000 \<le> now \<and> \<not> satisfied (bl w)) xs"

lemma late_overdue: "late now bl xs = overdue now bl xs"
  by (simp add: late_def due_def overdue_def)

lemma not_due: "(\<not> due now w) = (now < deadline w * 1000000)"
  by (auto simp: due_def)

text \<open>C5. The timer tick removes from the timed list exactly the blocks whose deadline has
  passed, marks those that no signal has satisfied as timed out, and makes their
  (blocked) threads Ready and queued; a block that was satisfied is not woken again, and
  blocks with a later deadline keep their order.\<close>

theorem tick_expires:
  assumes "sched_ok (ws W) qs" "cpus (ws W) \<noteq> []" "timed_repr (g_timed W, wbs W) xs"
    and "distinct (map (\<lambda>w. wb_thread (wbs W w)) (overdue now (wbs W) xs))"
    and "\<forall>w\<in>set (overdue now (wbs W) xs). wb_thread (wbs W w) \<in> set (thread_dir (ws W)) \<and>
      state (thr (ws W) (wb_thread (wbs W w))) = Blocked"
  shows "\<exists>W' qs'. wait_tick me now W = Some W' \<and> sched_ok (ws W') qs' \<and>
    timed_repr (g_timed W', wbs W') (filter (\<lambda>w. now < deadline (wbs W w) * 1000000) xs) \<and>
    (\<forall>w. timed_out (wbs W' w) = (timed_out (wbs W w) \<or> w \<in> set (overdue now (wbs W) xs))) \<and>
    (\<forall>w\<in>set (overdue now (wbs W) xs). queued qs' (wb_thread (wbs W w))) \<and>
    (\<forall>u. u \<notin> (\<lambda>w. wb_thread (wbs W w)) ` set (overdue now (wbs W) xs) \<longrightarrow> state (thr (ws W') u) = state (thr (ws W) u))"
proof -
  let ?ts = "map (\<lambda>w. wb_thread (wbs W w)) (overdue now (wbs W) xs)"
  from Expire_spec [OF assms(3), of now "wake me" "ws W", unfolded late_overdue not_due] obtain hp tn where
    e: "Expire now (wake me) ((g_timed W, wbs W), ws W) =
      Some ((hp, expired now (set xs) tn (wbs W)), fold (wake me) ?ts (ws W))"
    and r: "timed_repr (hp, expired now (set xs) tn (wbs W)) (filter (\<lambda>w. now < deadline (wbs W w) * 1000000) xs)" by blast
  let ?W = "W\<lparr>g_timed := hp, wbs := expired now (set xs) tn (wbs W), ws := fold (wake me) ?ts (ws W)\<rparr>"
  have st: "wait_tick me now W = Some ?W" by (simp add: wait_tick_def e)
  have "\<forall>t\<in>set ?ts. t \<in> set (thread_dir (ws W)) \<and> state (thr (ws W) t) = Blocked" using assms(5) by auto
  from fold_wake_ok [OF assms(1) this assms(4,2), of me] obtain qs' where
    ok': "sched_ok (fold (wake me) ?ts (ws W)) qs'"
    and s': "\<And>u. state (thr (fold (wake me) ?ts (ws W)) u) = (if u \<in> set ?ts then Ready else state (thr (ws W) u))"
    and dir: "thread_dir (fold (wake me) ?ts (ws W)) = thread_dir (ws W)" by auto
  have "queued qs' (wb_thread (wbs W w))" if "w \<in> set (overdue now (wbs W) xs)" for w
    unfolding sched_inv_queued [OF ok' [unfolded sched_ok_def]] s' dir using that assms(5) by auto
  moreover have "timed_out (wbs ?W w) = (timed_out (wbs W w) \<or> w \<in> set (overdue now (wbs W) xs))" for w
    by (auto simp: expired_def overdue_def due_def)
  ultimately show ?thesis using st ok' r s' by (intro exI [of _ ?W] exI [of _ qs']) auto
qed

theorem tick_expires_witness:
  "\<exists>W' qs'. wait_tick 0 5000000 (demo_wait\<lparr>g_timed := Some 100, wbs := (\<lambda>_. (new_wait_block 4)\<lparr>deadline := 5\<rparr>)\<rparr>) = Some W' \<and>
     sched_ok (ws W') qs' \<and> queued qs' 4 \<and> timed_out (wbs W' 100)"
proof -
  let ?W = "demo_wait\<lparr>g_timed := Some 100, wbs := (\<lambda>_. (new_wait_block 4)\<lparr>deadline := 5\<rparr>)\<rparr>"
  have l: "overdue 5000000 (wbs ?W) [100] = [100]" by (simp add: overdue_def new_wait_block_def)
  have t: "timed_repr (g_timed ?W, wbs ?W) [100]" by (simp add: timed_repr_def new_wait_block_def)
  have ok: "sched_ok (ws ?W) [[2, 3]]" "cpus (ws ?W) \<noteq> []" using demo_wait_ok by simp_all
  have "distinct (map (\<lambda>w. wb_thread (wbs ?W w)) (overdue 5000000 (wbs ?W) [100]))" unfolding l by simp
  moreover have "\<forall>w\<in>set (overdue 5000000 (wbs ?W) [100]). wb_thread (wbs ?W w) \<in> set (thread_dir (ws ?W)) \<and>
      state (thr (ws ?W) (wb_thread (wbs ?W w))) = Blocked"
    unfolding l by (simp add: demo_wait_def demo_pair_def new_wait_block_def)
  ultimately have "\<exists>W' qs'. wait_tick 0 5000000 ?W = Some W' \<and> sched_ok (ws W') qs' \<and>
    (\<forall>w. timed_out (wbs W' w) = (timed_out (wbs ?W w) \<or> w \<in> set (overdue 5000000 (wbs ?W) [100]))) \<and>
    (\<forall>w\<in>set (overdue 5000000 (wbs ?W) [100]). queued qs' (wb_thread (wbs ?W w)))"
    using tick_expires [OF ok t, of 5000000 0] by blast
  then show ?thesis unfolding l by (auto simp: new_wait_block_def)
qed

end
