(* ===== verification/Ring_Buffers.thy ===== *)
theory Ring_Buffers
  imports Prelude
begin

text \<open>
  The bounded queues of the kernel: the interrupt record ring (\<open>kernel/dispatch.hpp\<close>), the
  byte ring of the i8042 driver (\<open>ps2_byte_ring.hpp\<close>), the per-thread message ring
  (\<open>kernel/gfx/msgring.hpp\<close>) and the input event ring (\<open>input/event_ring.hpp\<close>). Indices are
  natural numbers below the capacity: no index computation of the code comes near the
  width of \<open>size_t\<close>. The first two are lock-free single-producer/single-consumer rings; their
  safety under every interleaving of the two sides is shown on the individual reads and
  writes.
\<close>

subsection \<open>Windows of a circular buffer\<close>

definition window :: "'a list \<Rightarrow> nat \<Rightarrow> nat \<Rightarrow> 'a list" where
  "window buf lo n = map (\<lambda>i. buf ! ((lo + i) mod length buf)) [0..<n]"

lemma window_0 [simp]: "window buf lo 0 = []"
  by (simp add: window_def)

lemma length_window [simp]: "length (window buf lo n) = n"
  by (simp add: window_def)

lemma nth_window: "i < n \<Longrightarrow> window buf lo n ! i = buf ! ((lo + i) mod length buf)"
  by (simp add: window_def)

lemma window_Cons: "lo < length buf \<Longrightarrow> window buf lo (Suc n) = buf ! lo # window buf ((lo + 1) mod length buf) n"
proof (rule nth_equalityI, goal_cases)
  case (2 i)
  then show ?case by (cases i) (simp_all add: nth_window mod_add_left_eq)
qed simp

lemma window_snoc: "window buf lo (Suc n) = window buf lo n @ [buf ! ((lo + n) mod length buf)]"
  by (simp add: window_def)

lemma mod_offset_le: "(lo + i) mod c = (lo + j) mod c \<Longrightarrow> i \<le> j \<Longrightarrow> j < c \<Longrightarrow> i = (j::nat)"
  using mod_eq_dvd_iff_nat [of "lo + i" "lo + j" c] by (auto dest: dvd_imp_le)

lemma mod_offset_inj: "(lo + i) mod c = (lo + j) mod c \<Longrightarrow> i < c \<Longrightarrow> j < c \<Longrightarrow> i = (j::nat)"
  using mod_offset_le [of lo i c j] mod_offset_le [of lo j c i] by (cases "i \<le> j") auto

text \<open>A write outside a window leaves it alone.\<close>

lemma window_update_outside:
  assumes "n \<le> k" "k < length buf"
  shows "window (buf[(lo + k) mod length buf := x]) lo n = window buf lo n"
proof (rule nth_equalityI)
  fix i assume "i < length (window (buf[(lo + k) mod length buf := x]) lo n)"
  then have i: "i < n" by simp
  with assms have "(lo + i) mod length buf \<noteq> (lo + k) mod length buf"
    using mod_offset_inj [of lo i "length buf" k] by auto
  with i show "window (buf[(lo + k) mod length buf := x]) lo n ! i = window buf lo n ! i"
    by (simp add: nth_window)
qed simp

lemma window_push:
  assumes "n < length buf"
  shows "window (buf[(lo + n) mod length buf := x]) lo (Suc n) = window buf lo n @ [x]"
proof -
  have "(lo + n) mod length buf < length buf" using assms by (intro mod_less_divisor) auto
  then show ?thesis using assms window_update_outside [of n n buf lo x] by (simp add: window_snoc)
qed

subsection \<open>Single-producer, single-consumer rings\<close>

record 'a ring =
  m_head :: nat
  m_tail :: nat
  m_buf :: "'a list"

abbreviation kCapacity :: nat where "kCapacity \<equiv> 256"

record HalInterruptRecord =
  vector :: u32
  irq :: u32
  timestamp :: u64
  flags :: u32

definition InterruptRecordRing_Push ::
  "HalInterruptRecord \<Rightarrow> HalInterruptRecord ring \<Rightarrow> KernelError \<times> HalInterruptRecord ring" where
  "InterruptRecordRing_Push rec r =
     (let h = m_head r; nextHead = (h + 1) mod kCapacity in
      if nextHead = m_tail r then (QueueFull, r)
      else (Success, r\<lparr>m_buf := (m_buf r)[h := rec], m_head := nextHead\<rparr>))"

definition InterruptRecordRing_Pop ::
  "HalInterruptRecord ring \<Rightarrow> (HalInterruptRecord \<times> HalInterruptRecord ring) option" where
  "InterruptRecordRing_Pop r =
     (let t = m_tail r in
      if t = m_head r then None
      else Some (m_buf r ! t, r\<lparr>m_tail := (t + 1) mod kCapacity\<rparr>))"

definition InterruptRecordRing_Empty :: "HalInterruptRecord ring \<Rightarrow> bool" where
  "InterruptRecordRing_Empty r = (m_head r = m_tail r)"

definition InterruptRecordRing_Size :: "HalInterruptRecord ring \<Rightarrow> nat" where
  "InterruptRecordRing_Size r =
     (if m_head r \<ge> m_tail r then m_head r - m_tail r else kCapacity - (m_tail r - m_head r))"

definition InterruptRecordRing_Reset :: "HalInterruptRecord ring \<Rightarrow> HalInterruptRecord ring" where
  "InterruptRecordRing_Reset r = r\<lparr>m_head := 0, m_tail := 0\<rparr>"

definition ByteRing_Push :: "u8 \<Rightarrow> u8 ring \<Rightarrow> bool \<times> u8 ring" where
  "ByteRing_Push byte r =
     (let h = m_head r; nextHead = (h + 1) mod kCapacity in
      if nextHead = m_tail r then (False, r)
      else (True, r\<lparr>m_buf := (m_buf r)[h := byte], m_head := nextHead\<rparr>))"

definition ByteRing_Pop :: "u8 ring \<Rightarrow> (u8 \<times> u8 ring) option" where
  "ByteRing_Pop r =
     (let t = m_tail r in
      if t = m_head r then None
      else Some (m_buf r ! t, r\<lparr>m_tail := (t + 1) mod kCapacity\<rparr>))"

definition ByteRing_Empty :: "u8 ring \<Rightarrow> bool" where
  "ByteRing_Empty r = (m_head r = m_tail r)"

definition ring_size :: "'a ring \<Rightarrow> nat" where
  "ring_size r = (if m_head r \<ge> m_tail r then m_head r - m_tail r else kCapacity - (m_tail r - m_head r))"

definition ring_repr :: "'a ring \<Rightarrow> 'a list \<Rightarrow> bool" where
  "ring_repr r xs =
     (length (m_buf r) = kCapacity \<and> m_head r < kCapacity \<and> m_tail r < kCapacity \<and>
      xs = window (m_buf r) (m_tail r) (ring_size r))"

lemma ring_size_bound: "m_head r < kCapacity \<Longrightarrow> m_tail r < kCapacity \<Longrightarrow> ring_size r < kCapacity"
  by (auto simp: ring_size_def)

lemma ring_head: "m_head r < kCapacity \<Longrightarrow> m_tail r < kCapacity \<Longrightarrow> (m_tail r + ring_size r) mod kCapacity = m_head r"
  by (auto simp: ring_size_def)

lemma ring_empty: "m_head r < kCapacity \<Longrightarrow> m_tail r < kCapacity \<Longrightarrow> ring_size r = 0 \<longleftrightarrow> m_head r = m_tail r"
  by (auto simp: ring_size_def)

lemma mod_Suc_cap: "n < kCapacity \<Longrightarrow> (n + 1) mod kCapacity = (if n = 255 then 0 else n + 1)"
  by (auto simp: mod_if)

lemma ring_full:
  assumes "m_head r < kCapacity" "m_tail r < kCapacity"
  shows "(m_head r + 1) mod kCapacity = m_tail r \<longleftrightarrow> ring_size r = 255"
  unfolding mod_Suc_cap [OF assms(1)] using assms by (auto simp: ring_size_def)

lemma ring_size_push:
  assumes "m_head r < kCapacity" "m_tail r < kCapacity" "ring_size r < 255"
  shows "ring_size (r\<lparr>m_buf := b, m_head := (m_head r + 1) mod kCapacity\<rparr>) = Suc (ring_size r)"
  using assms unfolding mod_Suc_cap [OF assms(1)] by (auto simp: ring_size_def split: if_splits)

lemma ring_size_pop:
  assumes "m_head r < kCapacity" "m_tail r < kCapacity" "ring_size r \<noteq> 0"
  shows "Suc (ring_size (r\<lparr>m_tail := (m_tail r + 1) mod kCapacity\<rparr>)) = ring_size r"
  using assms unfolding mod_Suc_cap [OF assms(2)] by (auto simp: ring_size_def split: if_splits)

lemma ring_repr_push:
  assumes "ring_repr r xs" "length xs < 255"
  shows "ring_repr (r\<lparr>m_buf := (m_buf r)[m_head r := x], m_head := (m_head r + 1) mod kCapacity\<rparr>) (xs @ [x])"
proof -
  from assms have b: "length (m_buf r) = kCapacity" "m_head r < kCapacity" "m_tail r < kCapacity"
    and xs: "xs = window (m_buf r) (m_tail r) (ring_size r)" and n: "ring_size r < 255"
    by (auto simp: ring_repr_def)
  have "window ((m_buf r)[m_head r := x]) (m_tail r) (Suc (ring_size r)) = xs @ [x]"
    using window_push [of "ring_size r" "m_buf r" "m_tail r" x] b n xs ring_head [OF b(2,3)] by simp
  with b ring_size_push [OF b(2,3) n, of "(m_buf r)[m_head r := x]"] show ?thesis by (simp add: ring_repr_def)
qed

lemma ring_repr_pop:
  assumes "ring_repr r (x # xs)"
  shows "m_buf r ! m_tail r = x" "ring_repr (r\<lparr>m_tail := (m_tail r + 1) mod kCapacity\<rparr>) xs"
proof -
  from assms have b: "length (m_buf r) = kCapacity" "m_head r < kCapacity" "m_tail r < kCapacity"
    and w: "x # xs = window (m_buf r) (m_tail r) (ring_size r)" by (auto simp: ring_repr_def)
  then have n: "ring_size r \<noteq> 0" by (metis window_0 list.distinct(1))
  let ?r = "r\<lparr>m_tail := (m_tail r + 1) mod kCapacity\<rparr>"
  have "window (m_buf r) (m_tail r) (ring_size r) =
      m_buf r ! m_tail r # window (m_buf r) ((m_tail r + 1) mod kCapacity) (ring_size ?r)"
    using window_Cons [of "m_tail r" "m_buf r" "ring_size ?r"] b ring_size_pop [OF b(2,3) n] by simp
  with w b show "m_buf r ! m_tail r = x" "ring_repr ?r xs" by (simp_all add: ring_repr_def)
qed

subsection \<open>The contract of a bounded queue\<close>

datatype 'a qop = Put 'a | Take

text \<open>A history of operations: the accepted values, the values taken, and the final state.\<close>

fun run :: "('a \<Rightarrow> 's \<Rightarrow> bool \<times> 's) \<Rightarrow> ('s \<Rightarrow> ('a \<times> 's) option) \<Rightarrow> 'a qop list \<Rightarrow> 's \<Rightarrow> 'a list \<times> 'a list \<times> 's" where
  "run push pop [] s = ([], [], s)"
| "run push pop (Put x # ops) s =
     (case push x s of (ok, s') \<Rightarrow>
       (case run push pop ops s' of (acc, out, s'') \<Rightarrow> (if ok then x # acc else acc, out, s'')))"
| "run push pop (Take # ops) s =
     (case pop s of
        None \<Rightarrow> run push pop ops s
      | Some (x, s') \<Rightarrow> (case run push pop ops s' of (acc, out, s'') \<Rightarrow> (acc, x # out, s'')))"

locale bounded_fifo =
  fixes cap :: nat
    and repr :: "'s \<Rightarrow> 'a list \<Rightarrow> bool"
    and push :: "'a \<Rightarrow> 's \<Rightarrow> bool \<times> 's"
    and pop :: "'s \<Rightarrow> ('a \<times> 's) option"
  assumes repr_bound: "repr s xs \<Longrightarrow> length xs \<le> cap"
    and push_room: "repr s xs \<Longrightarrow> length xs < cap \<Longrightarrow> \<exists>s'. push x s = (True, s') \<and> repr s' (xs @ [x])"
    and push_full: "repr s xs \<Longrightarrow> length xs = cap \<Longrightarrow> push x s = (False, s)"
    and pop_empty: "repr s [] \<Longrightarrow> pop s = None"
    and pop_first: "repr s (x # xs) \<Longrightarrow> \<exists>s'. pop s = Some (x, s') \<and> repr s' xs"
begin

lemma run_fifo: "repr s xs \<Longrightarrow> run push pop ops s = (acc, out, s') \<Longrightarrow> \<exists>ys. repr s' ys \<and> xs @ acc = out @ ys"
proof (induction ops arbitrary: s xs acc out s')
  case Nil
  then show ?case by auto
next
  case (Cons c ops)
  show ?case
  proof (cases c)
    case (Put x)
    show ?thesis
    proof (cases "length xs < cap")
      case True
      with push_room [OF Cons.prems(1)] obtain s1 where s1: "push x s = (True, s1)" "repr s1 (xs @ [x])" by blast
      obtain a o1 f where r: "run push pop ops s1 = (a, o1, f)" by (cases "run push pop ops s1") auto
      from Cons.IH [OF s1(2) r] Cons.prems(2) Put s1(1) r show ?thesis by auto
    next
      case False
      with repr_bound [OF Cons.prems(1)] have "length xs = cap" by simp
      from push_full [OF Cons.prems(1) this] Cons.IH [OF Cons.prems(1)] Cons.prems(2) Put show ?thesis
        by (auto split: prod.splits)
    qed
  next
    case Take
    show ?thesis
    proof (cases xs)
      case Nil
      with pop_empty Cons.prems Take Cons.IH [OF Cons.prems(1)] show ?thesis by auto
    next
      case (Cons x zs)
      with pop_first \<open>repr s xs\<close> obtain s1 where s1: "pop s = Some (x, s1)" "repr s1 zs" by blast
      obtain a o1 f where r: "run push pop ops s1 = (a, o1, f)" by (cases "run push pop ops s1") auto
      from Cons.IH [OF s1(2) r] \<open>run push pop (c # ops) s = (acc, out, s')\<close> Take s1(1) r Cons show ?thesis by auto
    qed
  qed
qed

end

definition irq_push :: "HalInterruptRecord \<Rightarrow> HalInterruptRecord ring \<Rightarrow> bool \<times> HalInterruptRecord ring" where
  "irq_push x r = (case InterruptRecordRing_Push x r of (e, r') \<Rightarrow> (e = Success, r'))"

lemma ring_repr_length: "ring_repr r xs \<Longrightarrow> length xs = ring_size r \<and> ring_size r \<le> 255"
  using ring_size_bound [of r] by (auto simp: ring_repr_def)

interpretation irq_ring: bounded_fifo 255 ring_repr irq_push InterruptRecordRing_Pop
proof
  fix r :: "HalInterruptRecord ring" and xs x
  assume r: "ring_repr r xs"
  then have b: "m_head r < kCapacity" "m_tail r < kCapacity" by (auto simp: ring_repr_def)
  note l = ring_repr_length [OF r]
  show "length xs \<le> 255" using l by simp
  show "length xs < 255 \<Longrightarrow> \<exists>r'. irq_push x r = (True, r') \<and> ring_repr r' (xs @ [x])"
    using ring_repr_push [OF r] ring_full [OF b] l by (simp add: irq_push_def InterruptRecordRing_Push_def Let_def)
  show "length xs = 255 \<Longrightarrow> irq_push x r = (False, r)"
    using ring_full [OF b] l by (simp add: irq_push_def InterruptRecordRing_Push_def Let_def)
next
  fix r :: "HalInterruptRecord ring"
  assume r: "ring_repr r []"
  then show "InterruptRecordRing_Pop r = None"
    using ring_repr_length [OF r] ring_empty [of r] by (simp add: InterruptRecordRing_Pop_def ring_repr_def)
next
  fix r :: "HalInterruptRecord ring" and x xs
  assume r: "ring_repr r (x # xs)"
  then have "m_head r \<noteq> m_tail r"
    using ring_repr_length [OF r] ring_empty [of r] by (auto simp: ring_repr_def)
  with ring_repr_pop [OF r] show "\<exists>r'. InterruptRecordRing_Pop r = Some (x, r') \<and> ring_repr r' xs"
    by (simp add: InterruptRecordRing_Pop_def Let_def)
qed

interpretation byte_ring: bounded_fifo 255 ring_repr ByteRing_Push ByteRing_Pop
proof
  fix r :: "u8 ring" and xs x
  assume r: "ring_repr r xs"
  then have b: "m_head r < kCapacity" "m_tail r < kCapacity" by (auto simp: ring_repr_def)
  note l = ring_repr_length [OF r]
  show "length xs \<le> 255" using l by simp
  show "length xs < 255 \<Longrightarrow> \<exists>r'. ByteRing_Push x r = (True, r') \<and> ring_repr r' (xs @ [x])"
    using ring_repr_push [OF r] ring_full [OF b] l by (simp add: ByteRing_Push_def Let_def)
  show "length xs = 255 \<Longrightarrow> ByteRing_Push x r = (False, r)"
    using ring_full [OF b] l by (simp add: ByteRing_Push_def Let_def)
next
  fix r :: "u8 ring"
  assume r: "ring_repr r []"
  then show "ByteRing_Pop r = None"
    using ring_repr_length [OF r] ring_empty [of r] by (simp add: ByteRing_Pop_def ring_repr_def)
next
  fix r :: "u8 ring" and x xs
  assume r: "ring_repr r (x # xs)"
  then have "m_head r \<noteq> m_tail r"
    using ring_repr_length [OF r] ring_empty [of r] by (auto simp: ring_repr_def)
  with ring_repr_pop [OF r] show "\<exists>r'. ByteRing_Pop r = Some (x, r') \<and> ring_repr r' xs"
    by (simp add: ByteRing_Pop_def Let_def)
qed

subsection \<open>The lock-free ring under interleaving\<close>

text \<open>
  \<open>Push\<close> and \<open>Pop\<close> taken apart into their accesses to the shared members: the producer
  (interrupt context) reads \<open>m_head\<close>, reads \<open>m_tail\<close> to test for room, writes the record,
  then publishes \<open>m_head\<close>; the consumer reads \<open>m_tail\<close>, reads \<open>m_head\<close> to test for a
  record, reads the record, then publishes \<open>m_tail\<close>. Between any two accesses of one side
  the other may take any number of steps. \<open>pushed\<close> and \<open>popped\<close> record what the two
  sides have published.
\<close>

datatype 'a producer = PIdle | PHead 'a nat | PWrite 'a nat | PPublish 'a nat
datatype 'a consumer = CIdle | CTail nat | CRead nat | CPublish nat 'a

record 'a spsc =
  rg :: "'a ring"
  prod_pc :: "'a producer"
  cons_pc :: "'a consumer"
  pushed :: "'a list"
  popped :: "'a list"

inductive spsc_step :: "'a spsc \<Rightarrow> 'a spsc \<Rightarrow> bool" where
  p_head: "prod_pc s = PIdle \<Longrightarrow> spsc_step s (s\<lparr>prod_pc := PHead x (m_head (rg s))\<rparr>)"
| p_full: "prod_pc s = PHead x h \<Longrightarrow> (h + 1) mod kCapacity = m_tail (rg s) \<Longrightarrow> spsc_step s (s\<lparr>prod_pc := PIdle\<rparr>)"
| p_room: "prod_pc s = PHead x h \<Longrightarrow> (h + 1) mod kCapacity \<noteq> m_tail (rg s) \<Longrightarrow> spsc_step s (s\<lparr>prod_pc := PWrite x h\<rparr>)"
| p_write: "prod_pc s = PWrite x h \<Longrightarrow>
    spsc_step s (s\<lparr>prod_pc := PPublish x h, rg := (rg s)\<lparr>m_buf := (m_buf (rg s))[h := x]\<rparr>\<rparr>)"
| p_publish: "prod_pc s = PPublish x h \<Longrightarrow>
    spsc_step s (s\<lparr>prod_pc := PIdle, rg := (rg s)\<lparr>m_head := (h + 1) mod kCapacity\<rparr>, pushed := pushed s @ [x]\<rparr>)"
| c_tail: "cons_pc s = CIdle \<Longrightarrow> spsc_step s (s\<lparr>cons_pc := CTail (m_tail (rg s))\<rparr>)"
| c_empty: "cons_pc s = CTail t \<Longrightarrow> t = m_head (rg s) \<Longrightarrow> spsc_step s (s\<lparr>cons_pc := CIdle\<rparr>)"
| c_some: "cons_pc s = CTail t \<Longrightarrow> t \<noteq> m_head (rg s) \<Longrightarrow> spsc_step s (s\<lparr>cons_pc := CRead t\<rparr>)"
| c_read: "cons_pc s = CRead t \<Longrightarrow> spsc_step s (s\<lparr>cons_pc := CPublish t (m_buf (rg s) ! t)\<rparr>)"
| c_publish: "cons_pc s = CPublish t x \<Longrightarrow>
    spsc_step s (s\<lparr>cons_pc := CIdle, rg := (rg s)\<lparr>m_tail := (t + 1) mod kCapacity\<rparr>, popped := popped s @ [x]\<rparr>)"

definition producer_ok :: "'a spsc \<Rightarrow> 'a list \<Rightarrow> bool" where
  "producer_ok s xs =
     (case prod_pc s of
        PIdle \<Rightarrow> True
      | PHead x h \<Rightarrow> h = m_head (rg s)
      | PWrite x h \<Rightarrow> h = m_head (rg s) \<and> length xs < 255
      | PPublish x h \<Rightarrow> h = m_head (rg s) \<and> length xs < 255 \<and> m_buf (rg s) ! h = x)"

definition consumer_ok :: "'a spsc \<Rightarrow> 'a list \<Rightarrow> bool" where
  "consumer_ok s xs =
     (case cons_pc s of
        CIdle \<Rightarrow> True
      | CTail t \<Rightarrow> t = m_tail (rg s)
      | CRead t \<Rightarrow> t = m_tail (rg s) \<and> xs \<noteq> []
      | CPublish t x \<Rightarrow> t = m_tail (rg s) \<and> xs \<noteq> [] \<and> x = List.hd xs)"

definition spsc_inv :: "'a spsc \<Rightarrow> bool" where
  "spsc_inv s = (\<exists>xs. ring_repr (rg s) xs \<and> pushed s = popped s @ xs \<and> producer_ok s xs \<and> consumer_ok s xs)"

lemma ring_repr_write:
  assumes "ring_repr r xs" "length xs < 255"
  shows "ring_repr (r\<lparr>m_buf := (m_buf r)[m_head r := x]\<rparr>) xs"
proof -
  from assms(1) have b: "length (m_buf r) = kCapacity" "m_head r < kCapacity" "m_tail r < kCapacity"
    and xs: "xs = window (m_buf r) (m_tail r) (ring_size r)" by (auto simp: ring_repr_def)
  have sz: "ring_size (r\<lparr>m_buf := (m_buf r)[m_head r := x]\<rparr>) = ring_size r" by (simp add: ring_size_def)
  have "window ((m_buf r)[m_head r := x]) (m_tail r) (ring_size r) = xs"
    using window_update_outside [of "ring_size r" "ring_size r" "m_buf r" "m_tail r" x]
      ring_size_bound [OF b(2,3)] ring_head [OF b(2,3)] b(1) xs by simp
  with b sz show ?thesis by (simp add: ring_repr_def)
qed

lemma ring_repr_ends:
  assumes "ring_repr r xs"
  shows "(m_head r + 1) mod kCapacity \<noteq> m_tail r \<Longrightarrow> length xs < 255"
    and "m_tail r \<noteq> m_head r \<Longrightarrow> xs \<noteq> []" and "m_head r < kCapacity" "length (m_buf r) = kCapacity"
proof -
  from assms show b: "m_head r < kCapacity" "length (m_buf r) = kCapacity" by (simp_all add: ring_repr_def)
  from assms have t: "m_tail r < kCapacity" by (simp add: ring_repr_def)
  note l = ring_repr_length [OF assms]
  show "(m_head r + 1) mod kCapacity \<noteq> m_tail r \<Longrightarrow> length xs < 255"
    using ring_full [OF b(1) t] l by linarith
  show "m_tail r \<noteq> m_head r \<Longrightarrow> xs \<noteq> []"
    using ring_empty [OF b(1) t] l by (metis list.size(3))
qed

lemma spsc_step_inv:
  assumes "spsc_step s s'" "spsc_inv s"
  shows "spsc_inv s'"
proof -
  from assms(2) obtain xs where r: "ring_repr (rg s) xs" and h: "pushed s = popped s @ xs"
    and p: "producer_ok s xs" and c: "consumer_ok s xs" unfolding spsc_inv_def by blast
  note ends = ring_repr_ends [OF r]
  from assms(1) show ?thesis
  proof cases
    case (p_write x n)
    with p have n: "n = m_head (rg s)" "length xs < 255" by (simp_all add: producer_ok_def)
    have "consumer_ok s' xs" using c p_write by (simp add: consumer_ok_def split: consumer.splits)
    with p_write n r h ends(3,4) ring_repr_write [OF r n(2), of x] show ?thesis
      unfolding spsc_inv_def by (intro exI [of _ xs]) (simp add: producer_ok_def)
  next
    case (p_publish x n)
    from p have "n = m_head (rg s) \<and> length xs < 255 \<and> m_buf (rg s) ! n = x"
      unfolding producer_ok_def p_publish(2) producer.case .
    then have n: "n = m_head (rg s)" "length xs < 255" "m_buf (rg s) ! n = x" by blast+
    have "(rg s)\<lparr>m_buf := (m_buf (rg s))[m_head (rg s) := x]\<rparr> = rg s" using n(1,3) by auto
    then have "ring_repr ((rg s)\<lparr>m_head := (n + 1) mod kCapacity\<rparr>) (xs @ [x])"
      using ring_repr_push [OF r n(2), of x] n(1,3) by auto
    moreover have "consumer_ok s' (xs @ [x])" using c p_publish by (auto simp: consumer_ok_def split: consumer.splits)
    ultimately show ?thesis unfolding spsc_inv_def using p_publish h
      by (intro exI [of _ "xs @ [x]"]) (simp add: producer_ok_def)
  next
    case (c_publish t x)
    with c have t: "t = m_tail (rg s)" "xs \<noteq> []" "x = List.hd xs" by (simp_all add: consumer_ok_def)
    then obtain ys where ys: "xs = x # ys" by (cases xs) auto
    with r have "ring_repr ((rg s)\<lparr>m_tail := (t + 1) mod kCapacity\<rparr>) ys" using ring_repr_pop(2) t(1) by auto
    moreover have "producer_ok s' ys" using p c_publish ys by (auto simp: producer_ok_def split: producer.splits)
    ultimately show ?thesis unfolding spsc_inv_def using c_publish h ys
      by (intro exI [of _ ys]) (simp add: consumer_ok_def)
  next
    case (c_read t)
    with c have t: "t = m_tail (rg s)" "xs \<noteq> []" by (simp_all add: consumer_ok_def)
    then obtain x ys where ys: "xs = x # ys" by (cases xs) auto
    with r have "m_buf (rg s) ! t = x" using ring_repr_pop(1) t(1) by auto
    with c_read t ys r h p show ?thesis
      unfolding spsc_inv_def by (intro exI [of _ xs]) (simp add: consumer_ok_def producer_ok_def split: producer.splits)
  qed (use r h p c ends in \<open>auto simp: spsc_inv_def producer_ok_def consumer_ok_def
      split: producer.splits consumer.splits intro!: exI [of _ xs]\<close>)
qed

subsection \<open>The message ring\<close>

record QueuedMessage =
  hwnd :: u32
  msg :: u32
  wParam :: u32
  lParam :: u32
  msg_time :: u32

record MessageRing =
  slots :: "QueuedMessage list"
  mr_head :: nat
  mr_count :: nat

text \<open>\<open>n\<close> is the capacity and \<open>mm\<close> the code of the mouse-move message (the template parameters).\<close>

definition MessageRing_Empty :: "MessageRing \<Rightarrow> bool" where
  "MessageRing_Empty r = (mr_count r = 0)"

definition MessageRing_Full :: "nat \<Rightarrow> MessageRing \<Rightarrow> bool" where
  "MessageRing_Full n r = (mr_count r = n)"

definition merges :: "nat \<Rightarrow> u32 \<Rightarrow> QueuedMessage \<Rightarrow> MessageRing \<Rightarrow> bool" where
  "merges n mm m r =
     (mr_count r > 0 \<and> msg m = mm \<and>
      (let last_m = slots r ! ((mr_head r + mr_count r - 1) mod n) in msg last_m = mm \<and> hwnd last_m = hwnd m))"

definition MessageRing_Push :: "nat \<Rightarrow> u32 \<Rightarrow> QueuedMessage \<Rightarrow> MessageRing \<Rightarrow> KernelError \<times> MessageRing" where
  "MessageRing_Push n mm m r =
     (if merges n mm m r
      then (Success, r\<lparr>slots := (slots r)[(mr_head r + mr_count r - 1) mod n := m]\<rparr>)
      else if MessageRing_Full n r then (QueueFull, r)
      else (Success, r\<lparr>slots := (slots r)[(mr_head r + mr_count r) mod n := m], mr_count := mr_count r + 1\<rparr>))"

definition MessageRing_Peek :: "MessageRing \<Rightarrow> QueuedMessage option" where
  "MessageRing_Peek r = (if MessageRing_Empty r then None else Some (slots r ! mr_head r))"

definition MessageRing_Pop :: "nat \<Rightarrow> MessageRing \<Rightarrow> (QueuedMessage \<times> MessageRing) option" where
  "MessageRing_Pop n r =
     (case MessageRing_Peek r of
        None \<Rightarrow> None
      | Some m \<Rightarrow> Some (m, r\<lparr>mr_head := (mr_head r + 1) mod n, mr_count := mr_count r - 1\<rparr>))"

fun remove_loop :: "nat \<Rightarrow> u32 \<Rightarrow> nat \<Rightarrow> nat list \<Rightarrow> nat \<Rightarrow> QueuedMessage list \<Rightarrow> nat \<times> QueuedMessage list" where
  "remove_loop n w h [] kept sl = (kept, sl)"
| "remove_loop n w h (i # is) kept sl =
     (let m = sl ! ((h + i) mod n) in
      if hwnd m \<noteq> w then remove_loop n w h is (kept + 1) (sl[(h + kept) mod n := m])
      else remove_loop n w h is kept sl)"

definition MessageRing_RemoveFor :: "nat \<Rightarrow> u32 \<Rightarrow> MessageRing \<Rightarrow> MessageRing" where
  "MessageRing_RemoveFor n w r =
     (case remove_loop n w (mr_head r) [0..<mr_count r] 0 (slots r) of
        (kept, sl) \<Rightarrow> r\<lparr>slots := sl, mr_count := kept\<rparr>)"

definition msg_repr :: "nat \<Rightarrow> MessageRing \<Rightarrow> QueuedMessage list \<Rightarrow> bool" where
  "msg_repr n r xs =
     (length (slots r) = n \<and> mr_head r < n \<and> mr_count r \<le> n \<and> xs = window (slots r) (mr_head r) (mr_count r))"

text \<open>The list a push leaves: a mouse move replaces a mouse move of the same window at the end.\<close>

definition push_spec :: "nat \<Rightarrow> u32 \<Rightarrow> QueuedMessage \<Rightarrow> QueuedMessage list \<Rightarrow> KernelError \<times> QueuedMessage list" where
  "push_spec n mm m xs =
     (if xs \<noteq> [] \<and> msg m = mm \<and> msg (last xs) = mm \<and> hwnd (last xs) = hwnd m then (Success, butlast xs @ [m])
      else if length xs = n then (QueueFull, xs)
      else (Success, xs @ [m]))"

lemma msg_repr_last:
  assumes "msg_repr n r xs" "mr_count r > 0"
  shows "slots r ! ((mr_head r + mr_count r - 1) mod n) = last xs" "xs \<noteq> []"
    "window (slots r) (mr_head r) (mr_count r - 1) = butlast xs"
proof -
  obtain k where k: "mr_count r = Suc k" using assms(2) by (cases "mr_count r") auto
  then have "xs = window (slots r) (mr_head r) k @ [slots r ! ((mr_head r + k) mod n)]"
    using assms(1) by (simp add: msg_repr_def window_snoc)
  with k show "slots r ! ((mr_head r + mr_count r - 1) mod n) = last xs" "xs \<noteq> []"
    "window (slots r) (mr_head r) (mr_count r - 1) = butlast xs" by simp_all
qed

lemma msg_push_repr:
  assumes r: "msg_repr n r xs" and p: "MessageRing_Push n mm m r = (e, r')"
  shows "\<exists>ys. push_spec n mm m xs = (e, ys) \<and> msg_repr n r' ys"
proof -
  from r have l: "length (slots r) = n" "mr_head r < n" "mr_count r \<le> n" "length xs = mr_count r"
    and xs: "xs = window (slots r) (mr_head r) (mr_count r)" by (auto simp: msg_repr_def)
  have m: "merges n mm m r \<longleftrightarrow> xs \<noteq> [] \<and> msg m = mm \<and> msg (last xs) = mm \<and> hwnd (last xs) = hwnd m"
  proof -
    have "mr_count r > 0 \<longleftrightarrow> xs \<noteq> []" using l(4) by (metis length_greater_0_conv)
    then show ?thesis using msg_repr_last(1) [OF r] by (auto simp: merges_def Let_def)
  qed
  show ?thesis
  proof (cases "merges n mm m r")
    case True
    then have pos: "mr_count r > 0" by (simp add: merges_def)
    then obtain k where k: "mr_count r = Suc k" by (cases "mr_count r") auto
    have "window ((slots r)[(mr_head r + k) mod n := m]) (mr_head r) (Suc k) = butlast xs @ [m]"
      using window_push [of k "slots r" "mr_head r" m] msg_repr_last(3) [OF r pos] l k by simp
    then show ?thesis using True p m l k by (auto simp: MessageRing_Push_def push_spec_def msg_repr_def)
  next
    case False
    note nm = False
    show ?thesis
    proof (cases "mr_count r = n")
      case True
      then show ?thesis using nm p m l(4) r by (auto simp: MessageRing_Push_def push_spec_def MessageRing_Full_def)
    next
      case False
      then have "window ((slots r)[(mr_head r + mr_count r) mod n := m]) (mr_head r) (Suc (mr_count r)) = xs @ [m]"
        using window_push [of "mr_count r" "slots r" "mr_head r" m] l xs by simp
      then show ?thesis using nm False p m l by (auto simp: MessageRing_Push_def push_spec_def MessageRing_Full_def msg_repr_def)
    qed
  qed
qed

lemma msg_pop_repr:
  "msg_repr n r (m # xs) \<Longrightarrow> \<exists>r'. MessageRing_Pop n r = Some (m, r') \<and> msg_repr n r' xs"
proof -
  assume r: "msg_repr n r (m # xs)"
  then have l: "length (slots r) = n" "mr_head r < n" "mr_count r \<le> n"
    and w: "m # xs = window (slots r) (mr_head r) (mr_count r)" by (auto simp: msg_repr_def)
  then obtain k where k: "mr_count r = Suc k" by (cases "mr_count r") auto
  then have "window (slots r) (mr_head r) (Suc k) = slots r ! mr_head r # window (slots r) ((mr_head r + 1) mod n) k"
    using window_Cons [of "mr_head r" "slots r" k] l by simp
  with w k l show ?thesis by (auto simp: MessageRing_Pop_def MessageRing_Peek_def MessageRing_Empty_def msg_repr_def)
qed

lemma remove_loop_spec:
  assumes "length sl = n" "length xs \<le> n" "kept \<le> i" "i \<le> length xs"
    and "window sl h kept = filter (\<lambda>m. hwnd m \<noteq> w) (take i xs)"
    and "\<forall>j. i \<le> j \<and> j < length xs \<longrightarrow> sl ! ((h + j) mod n) = xs ! j"
  shows "\<exists>k sl'. remove_loop n w h [i..<length xs] kept sl = (k, sl') \<and> k \<le> length xs \<and> length sl' = n \<and>
    window sl' h k = filter (\<lambda>m. hwnd m \<noteq> w) xs"
  using assms
proof (induction "length xs - i" arbitrary: i kept sl)
  case 0
  then show ?case by simp
next
  case (Suc d)
  then have i: "i < length xs" by simp
  then have upt: "[i..<length xs] = i # [Suc i..<length xs]" by (simp add: upt_conv_Cons)
  have cur: "sl ! ((h + i) mod n) = xs ! i" using Suc.prems(6) i by simp
  have tk: "take (Suc i) xs = take i xs @ [xs ! i]" using i by (rule take_Suc_conv_app_nth)
  have d: "d = length xs - Suc i" using Suc.hyps(2) by simp
  show ?case
  proof (cases "hwnd (xs ! i) = w")
    case True
    have "\<exists>k sl'. remove_loop n w h [Suc i..<length xs] kept sl = (k, sl') \<and> k \<le> length xs \<and> length sl' = n \<and>
      window sl' h k = filter (\<lambda>m. hwnd m \<noteq> w) xs"
      by (rule Suc.hyps(1) [OF d]) (use Suc.prems i tk True in auto)
    then show ?thesis using True cur by (simp add: upt)
  next
    case False
    let ?sl = "sl[(h + kept) mod n := xs ! i]"
    have kn: "kept < length sl" using Suc.prems(1-3) i by simp
    have "window ?sl h (Suc kept) = filter (\<lambda>m. hwnd m \<noteq> w) (take (Suc i) xs)"
      using window_push [OF kn, of h "xs ! i"] Suc.prems(1,5) tk False by simp
    moreover have "?sl ! ((h + j) mod n) = xs ! j" if j: "Suc i \<le> j" "j < length xs" for j
    proof -
      have "(h + j) mod n \<noteq> (h + kept) mod n"
        using mod_offset_inj [of h j n kept] j Suc.prems(2,3) by auto
      with Suc.prems(6) j show ?thesis by simp
    qed
    ultimately have "\<exists>k sl'. remove_loop n w h [Suc i..<length xs] (Suc kept) ?sl = (k, sl') \<and> k \<le> length xs \<and> length sl' = n \<and>
      window sl' h k = filter (\<lambda>m. hwnd m \<noteq> w) xs"
      by (intro Suc.hyps(1) [OF d]) (use Suc.prems i in auto)
    then show ?thesis using False cur by (simp add: upt)
  qed
qed

lemma msg_remove_repr:
  assumes "msg_repr n r xs"
  shows "msg_repr n (MessageRing_RemoveFor n w r) (filter (\<lambda>m. hwnd m \<noteq> w) xs)"
proof -
  from assms have l: "length (slots r) = n" "mr_head r < n" "mr_count r \<le> n" "length xs = mr_count r"
    and xs: "xs = window (slots r) (mr_head r) (mr_count r)" by (auto simp: msg_repr_def)
  have "\<forall>j. 0 \<le> j \<and> j < length xs \<longrightarrow> slots r ! ((mr_head r + j) mod n) = xs ! j"
    using l xs by (auto simp: nth_window)
  with remove_loop_spec [of "slots r" n xs 0 0 "mr_head r" w] l
  obtain k sl' where "remove_loop n w (mr_head r) [0..<mr_count r] 0 (slots r) = (k, sl')"
    "k \<le> mr_count r" "length sl' = n" "window sl' (mr_head r) k = filter (\<lambda>m. hwnd m \<noteq> w) xs" by auto
  with l show ?thesis by (simp add: MessageRing_RemoveFor_def msg_repr_def)
qed

subsection \<open>Properties\<close>

inductive spsc_reachable :: "'a spsc \<Rightarrow> 'a spsc \<Rightarrow> bool" where
  spsc_init: "spsc_reachable s s"
| spsc_next: "spsc_reachable s s' \<Longrightarrow> spsc_step s' s'' \<Longrightarrow> spsc_reachable s s''"

definition spsc_start :: "'a list \<Rightarrow> 'a spsc" where
  "spsc_start buf = \<lparr>rg = \<lparr>m_head = 0, m_tail = 0, m_buf = buf\<rparr>, prod_pc = PIdle, cons_pc = CIdle, pushed = [], popped = []\<rparr>"

lemma spsc_start_inv: "length buf = kCapacity \<Longrightarrow> spsc_inv (spsc_start buf)"
  by (simp add: spsc_inv_def spsc_start_def ring_repr_def ring_size_def producer_ok_def consumer_ok_def)

lemma spsc_reachable_inv: "spsc_reachable s s' \<Longrightarrow> spsc_inv s \<Longrightarrow> spsc_inv s'"
  by (induction rule: spsc_reachable.induct) (auto intro: spsc_step_inv)

text \<open>C6. The lock-free ring is safe under every interleaving of its producer (the interrupt
  handler) and its consumer (the worker thread), down to single reads and writes of the
  shared members: what the consumer has taken is a prefix of what the producer has
  published, in order, each value once and intact, and at most 255 values are in flight.\<close>

theorem spsc_ring_safe:
  assumes "length buf = kCapacity" "spsc_reachable (spsc_start buf) s"
  shows "\<exists>xs. pushed s = popped s @ xs \<and> ring_repr (rg s) xs \<and> length xs \<le> 255"
proof -
  have "spsc_inv s" using spsc_reachable_inv [OF assms(2) spsc_start_inv [OF assms(1)]] .
  then show ?thesis unfolding spsc_inv_def using ring_repr_length by fastforce
qed

theorem spsc_ring_safe_witness:
  "\<exists>(s :: nat spsc) xs. prod_pc s = PHead 7 0 \<and> pushed s = popped s @ xs \<and> ring_repr (rg s) xs"
proof -
  let ?s = "spsc_start (replicate kCapacity (0::nat))"
  let ?s1 = "?s\<lparr>prod_pc := PHead 7 (m_head (rg ?s))\<rparr>"
  have "spsc_step ?s ?s1" by (rule p_head) (simp add: spsc_start_def)
  then have r: "spsc_reachable ?s ?s1" by (blast intro: spsc_init spsc_next)
  have p: "prod_pc ?s1 = PHead 7 0" by (simp add: spsc_start_def)
  have "length (replicate kCapacity (0::nat)) = kCapacity" by simp
  from spsc_ring_safe [OF this r] p show ?thesis by blast
qed

text \<open>Used one operation at a time, the interrupt ring is a first-in first-out queue of
  capacity 255: over any history of \<open>Push\<close> and \<open>Pop\<close>, the initial contents followed by the
  accepted records are the popped records followed by the final contents, and \<open>Push\<close>
  fails with \<open>QueueFull\<close> only on a full ring, which it leaves unchanged.\<close>

theorem irq_ring_fifo:
  assumes "ring_repr r xs"
  shows "(\<forall>acc out r'. run irq_push InterruptRecordRing_Pop ops r = (acc, out, r') \<longrightarrow>
      (\<exists>ys. ring_repr r' ys \<and> xs @ acc = out @ ys)) \<and>
    (InterruptRecordRing_Push rec r = (QueueFull, r) \<longleftrightarrow> length xs = 255) \<and> InterruptRecordRing_Size r = length xs"
proof (intro conjI allI impI)
  fix acc out r'
  assume "run irq_push InterruptRecordRing_Pop ops r = (acc, out, r')"
  with assms show "\<exists>ys. ring_repr r' ys \<and> xs @ acc = out @ ys" by (rule irq_ring.run_fifo)
next
  have b: "m_head r < kCapacity" "m_tail r < kCapacity" using assms by (auto simp: ring_repr_def)
  show "InterruptRecordRing_Push rec r = (QueueFull, r) \<longleftrightarrow> length xs = 255"
    using ring_full [OF b] ring_repr_length [OF assms] by (auto simp: InterruptRecordRing_Push_def Let_def)
  show "InterruptRecordRing_Size r = length xs"
    using ring_repr_length [OF assms] by (simp add: InterruptRecordRing_Size_def ring_size_def)
qed

definition demo_record :: HalInterruptRecord where
  "demo_record = \<lparr>vector = 33, irq = 1, timestamp = 5, flags = 0\<rparr>"

theorem irq_ring_fifo_witness:
  "InterruptRecordRing_Size \<lparr>m_head = 0, m_tail = 0, m_buf = replicate kCapacity demo_record\<rparr> = 0 \<and>
   InterruptRecordRing_Push demo_record \<lparr>m_head = 0, m_tail = 0, m_buf = replicate kCapacity demo_record\<rparr> \<noteq>
     (QueueFull, \<lparr>m_head = 0, m_tail = 0, m_buf = replicate kCapacity demo_record\<rparr>)"
proof -
  have "ring_repr \<lparr>m_head = 0, m_tail = 0, m_buf = replicate kCapacity demo_record\<rparr> []"
    by (simp add: ring_repr_def ring_size_def)
  from irq_ring_fifo [OF this, of "[]" demo_record] show ?thesis by simp
qed

text \<open>The per-thread message ring implements its list specification: \<open>Push\<close> appends,
  merges a mouse move into a directly preceding one for the same window, and otherwise
  fails with \<open>QueueFull\<close> exactly when full; \<open>Pop\<close> takes the oldest message; \<open>RemoveFor\<close>
  drops exactly the messages of the window and keeps the order of the others.\<close>

theorem message_ring_spec:
  assumes "msg_repr n r xs"
  shows "(\<exists>ys. msg_repr n (snd (MessageRing_Push n mm m r)) ys \<and> push_spec n mm m xs = (fst (MessageRing_Push n mm m r), ys)) \<and>
    (case xs of [] \<Rightarrow> MessageRing_Pop n r = None
     | x # ys \<Rightarrow> \<exists>r'. MessageRing_Pop n r = Some (x, r') \<and> msg_repr n r' ys) \<and>
    msg_repr n (MessageRing_RemoveFor n w r) (filter (\<lambda>x. hwnd x \<noteq> w) xs)"
proof (intro conjI)
  show "\<exists>ys. msg_repr n (snd (MessageRing_Push n mm m r)) ys \<and> push_spec n mm m xs = (fst (MessageRing_Push n mm m r), ys)"
    using msg_push_repr [OF assms, of mm m] by (cases "MessageRing_Push n mm m r") auto
  show "case xs of [] \<Rightarrow> MessageRing_Pop n r = None | x # ys \<Rightarrow> \<exists>r'. MessageRing_Pop n r = Some (x, r') \<and> msg_repr n r' ys"
  proof (cases xs)
    case Nil
    with assms have "mr_count r = 0" by (metis length_window list.size(3) msg_repr_def)
    with Nil show ?thesis by (simp add: MessageRing_Pop_def MessageRing_Peek_def MessageRing_Empty_def)
  next
    case (Cons x ys)
    with assms msg_pop_repr [of n r x ys] show ?thesis by simp
  qed
qed (rule msg_remove_repr [OF assms])

theorem message_ring_spec_witness:
  "msg_repr 2 (MessageRing_RemoveFor 2 9 \<lparr>slots = [\<lparr>hwnd = 9, msg = 1, wParam = 0, lParam = 0, msg_time = 0\<rparr>,
     \<lparr>hwnd = 8, msg = 1, wParam = 0, lParam = 0, msg_time = 0\<rparr>], mr_head = 0, mr_count = 2\<rparr>)
     [\<lparr>hwnd = 8, msg = 1, wParam = 0, lParam = 0, msg_time = 0\<rparr>]"
proof -
  let ?a = "\<lparr>hwnd = 9, msg = 1, wParam = 0, lParam = 0, msg_time = 0\<rparr> :: QueuedMessage"
  let ?b = "\<lparr>hwnd = 8, msg = 1, wParam = 0, lParam = 0, msg_time = 0\<rparr> :: QueuedMessage"
  have "msg_repr 2 \<lparr>slots = [?a, ?b], mr_head = 0, mr_count = 2\<rparr> [?a, ?b]"
    by (simp add: msg_repr_def window_def numeral_2_eq_2)
  from message_ring_spec [OF this, of 5 ?a 9] show ?thesis by simp
qed

end
