(* ===== verification/Input_Manager.thy ===== *)
theory Input_Manager
  imports Ring_Buffers Wait
begin

text \<open>
  The input manager: the event types of \<open>kernel/input.hpp\<close>, the coalescing event ring of
  \<open>input/event_ring.hpp\<close> and \<open>input/input_manager.cpp\<close>. Coordinates are 32-bit words whose
  addition wraps. A device is named by its address; \<open>None\<close> is the null device. The part of
  \<open>KE_INPUT_PushEvent\<close> under the event lock is \<open>push_locked\<close>; the signal that follows
  the release of the lock is a step of its own.
\<close>

record KeyboardInputEvent =
  k_unit :: u16
  k_time :: int
  virtualKey :: u16
  scanCode :: u8
  keyFlags :: u16
  character :: u8
  modifiers :: u32

record MouseInputEvent =
  ms_unit :: u16
  ms_time :: int
  isMovementAbsolute :: bool
  lastX :: u32
  lastY :: u32
  buttonFlags :: u16
  buttonData :: u16

datatype AnyInputEvent = BaseEvent | KeyEvent KeyboardInputEvent | MouseEvent MouseInputEvent

record MousePacket =
  dx :: u32
  dy :: u32
  wheel :: u8
  buttons :: u8
  isAbsolute :: bool

record GamepadState =
  axes :: "u16 list"
  pad_buttons :: u32
  hatX :: u8
  hatY :: u8
  pad_sequence :: u32

datatype KInputReport = Key KeyboardInputEvent | Pointer MousePacket | Gamepad GamepadState

subsection \<open>The event ring\<close>

abbreviation evCapacity :: nat where "evCapacity \<equiv> 128"

record EventRing =
  m_items :: "AnyInputEvent list"
  ev_head :: nat
  ev_tail :: nat
  ev_count :: nat

fun IsPureMotionMouseEvent :: "AnyInputEvent \<Rightarrow> bool" where
  "IsPureMotionMouseEvent (MouseEvent m) = (buttonFlags m = 0)"
| "IsPureMotionMouseEvent _ = False"

definition ev_next :: "nat \<Rightarrow> nat" where
  "ev_next i = (i + 1) mod evCapacity"

definition ev_prev :: "nat \<Rightarrow> nat" where
  "ev_prev i = (i + evCapacity - 1) mod evCapacity"

fun coalesce :: "AnyInputEvent \<Rightarrow> AnyInputEvent \<Rightarrow> AnyInputEvent" where
  "coalesce (MouseEvent target) (MouseEvent source) =
     MouseEvent
       ((if isMovementAbsolute source
         then target\<lparr>isMovementAbsolute := True, lastX := lastX source, lastY := lastY source\<rparr>
         else if \<not> isMovementAbsolute target
         then target\<lparr>lastX := lastX target + lastX source, lastY := lastY target + lastY source\<rparr>
         else source)\<lparr>ms_time := ms_time source\<rparr>)"
| "coalesce t s = t"

definition EventRing_Push :: "AnyInputEvent \<Rightarrow> EventRing \<Rightarrow> EventRing" where
  "EventRing_Push event r =
     (if ev_count r < evCapacity
      then r\<lparr>m_items := (m_items r)[ev_head r := event], ev_head := ev_next (ev_head r), ev_count := ev_count r + 1\<rparr>
      else
        (let newest = ev_prev (ev_head r) in
         if IsPureMotionMouseEvent event \<and> IsPureMotionMouseEvent (m_items r ! newest)
         then r\<lparr>m_items := (m_items r)[newest := coalesce (m_items r ! newest) event]\<rparr>
         else r\<lparr>ev_tail := ev_next (ev_tail r), ev_count := ev_count r - 1 + 1,
                m_items := (m_items r)[ev_head r := event], ev_head := ev_next (ev_head r)\<rparr>))"

definition EventRing_Pop :: "EventRing \<Rightarrow> (AnyInputEvent \<times> EventRing) option" where
  "EventRing_Pop r =
     (if ev_count r = 0 then None
      else Some (m_items r ! ev_tail r, r\<lparr>ev_tail := ev_next (ev_tail r), ev_count := ev_count r - 1\<rparr>))"

definition EventRing_Empty :: "EventRing \<Rightarrow> bool" where
  "EventRing_Empty r = (ev_count r = 0)"

definition EventRing_Full :: "EventRing \<Rightarrow> bool" where
  "EventRing_Full r = (ev_count r = evCapacity)"

definition EventRing_new :: EventRing where
  "EventRing_new = \<lparr>m_items = replicate evCapacity BaseEvent, ev_head = 0, ev_tail = 0, ev_count = 0\<rparr>"

text \<open>The ring holds \<open>xs\<close>, oldest first.\<close>

definition ev_repr :: "EventRing \<Rightarrow> AnyInputEvent list \<Rightarrow> bool" where
  "ev_repr r xs =
     (length (m_items r) = evCapacity \<and> ev_head r < evCapacity \<and> ev_tail r < evCapacity \<and> ev_count r \<le> evCapacity \<and>
      ev_head r = (ev_tail r + ev_count r) mod evCapacity \<and>
      xs = window (m_items r) (ev_tail r) (ev_count r))"

definition push_list :: "AnyInputEvent \<Rightarrow> AnyInputEvent list \<Rightarrow> AnyInputEvent list" where
  "push_list e xs =
     (if length xs < evCapacity then xs @ [e]
      else if IsPureMotionMouseEvent e \<and> IsPureMotionMouseEvent (last xs) then butlast xs @ [coalesce (last xs) e]
      else tl xs @ [e])"

lemma ev_push_repr:
  assumes "ev_repr r xs"
  shows "ev_repr (EventRing_Push e r) (push_list e xs)"
proof -
  from assms have l: "length (m_items r) = evCapacity" "ev_head r < evCapacity" "ev_tail r < evCapacity"
      "ev_count r \<le> evCapacity" "ev_head r = (ev_tail r + ev_count r) mod evCapacity" "length xs = ev_count r"
    and xs: "xs = window (m_items r) (ev_tail r) (ev_count r)" by (auto simp: ev_repr_def)
  show ?thesis
  proof (cases "ev_count r < evCapacity")
    case True
    have "window ((m_items r)[ev_head r := e]) (ev_tail r) (Suc (ev_count r)) = xs @ [e]"
      using window_push [of "ev_count r" "m_items r" "ev_tail r" e] True l xs by simp
    with True l show ?thesis by (simp add: ev_repr_def EventRing_Push_def push_list_def ev_next_def mod_Suc_eq)
  next
    case False
    then have full: "ev_count r = evCapacity" using l(4) by simp
    have hd: "ev_head r = ev_tail r" using l(3,5) full by simp
    let ?n = "(ev_tail r + 127) mod evCapacity"
    have np: "ev_prev (ev_head r) = ?n" using l(3) hd by (simp add: ev_prev_def add.commute)
    have snoc: "xs = window (m_items r) (ev_tail r) 127 @ [m_items r ! ?n]"
      using xs full l(1) window_snoc [of "m_items r" "ev_tail r" 127] by simp
    have cons: "xs = m_items r ! ev_tail r # window (m_items r) ((ev_tail r + 1) mod evCapacity) 127"
      using xs full l(1,3) window_Cons [of "ev_tail r" "m_items r" 127] by simp
    show ?thesis
    proof (cases "IsPureMotionMouseEvent e \<and> IsPureMotionMouseEvent (m_items r ! ?n)")
      case True
      have "window ((m_items r)[?n := coalesce (m_items r ! ?n) e]) (ev_tail r) 128 =
          window (m_items r) (ev_tail r) 127 @ [coalesce (m_items r ! ?n) e]"
        using window_push [of 127 "m_items r" "ev_tail r" "coalesce (m_items r ! ?n) e"] l(1) by simp
      with True full l snoc np show ?thesis
        by (simp add: ev_repr_def EventRing_Push_def push_list_def Let_def)
    next
      case False
      have wr: "(ev_tail r + 1 + 127) mod evCapacity = ev_tail r" using l(3) by simp
      have "window ((m_items r)[ev_tail r := e]) ((ev_tail r + 1) mod evCapacity) 128 =
          window (m_items r) ((ev_tail r + 1) mod evCapacity) 127 @ [e]"
        using window_push [of 127 "m_items r" "(ev_tail r + 1) mod evCapacity" e] l(1,3) wr
        by (simp add: mod_add_left_eq)
      moreover have "last xs = m_items r ! ?n" using snoc by simp
      then have "push_list e xs = tl xs @ [e]" using False full l(6) by (auto simp: push_list_def)
      moreover have "EventRing_Push e r = r\<lparr>ev_tail := ev_next (ev_tail r), ev_count := ev_count r - 1 + 1,
          m_items := (m_items r)[ev_head r := e], ev_head := ev_next (ev_head r)\<rparr>"
        using False full unfolding EventRing_Push_def Let_def np by auto
      ultimately show ?thesis using full l hd cons
        by (simp add: ev_repr_def ev_next_def)
    qed
  qed
qed

lemma ev_pop_repr: "ev_repr r (x # xs) \<Longrightarrow> \<exists>r'. EventRing_Pop r = Some (x, r') \<and> ev_repr r' xs"
proof -
  assume r: "ev_repr r (x # xs)"
  then have l: "length (m_items r) = evCapacity" "ev_tail r < evCapacity" "ev_count r \<le> evCapacity"
    "ev_head r = (ev_tail r + ev_count r) mod evCapacity"
    and w: "x # xs = window (m_items r) (ev_tail r) (ev_count r)" by (auto simp: ev_repr_def)
  then obtain k where k: "ev_count r = Suc k" by (cases "ev_count r") auto
  then have "window (m_items r) (ev_tail r) (Suc k) = m_items r ! ev_tail r # window (m_items r) ((ev_tail r + 1) mod evCapacity) k"
    using window_Cons [of "ev_tail r" "m_items r" k] l by simp
  with w k l show ?thesis by (simp add: EventRing_Pop_def ev_repr_def ev_next_def mod_add_left_eq)
qed

lemma ev_pop_empty: "ev_repr r [] \<Longrightarrow> EventRing_Pop r = None \<and> EventRing_Empty r"
  by (auto simp: ev_repr_def EventRing_Pop_def EventRing_Empty_def dest: arg_cong [of _ _ length])

subsection \<open>The manager\<close>

abbreviation kMaxInputDevices :: nat where "kMaxInputDevices \<equiv> 16"
abbreviation kMaxGamepads :: nat where "kMaxGamepads \<equiv> 8"

record UnitSlot =
  us_device :: "nat option"
  previousButtons :: u8

record GamepadSlot =
  gp_device :: "nat option"
  gp_state :: GamepadState

record input_mgr =
  g_eventRing :: EventRing
  g_units :: "UnitSlot list"
  g_gamepads :: "GamepadSlot list"
  g_modifiers :: u32

fun find_index :: "('a \<Rightarrow> bool) \<Rightarrow> 'a list \<Rightarrow> nat option" where
  "find_index P [] = None"
| "find_index P (x # xs) = (if P x then Some 0 else map_option Suc (find_index P xs))"

definition FindOrClaimUnit :: "nat \<Rightarrow> UnitSlot list \<Rightarrow> (nat \<times> UnitSlot list) option" where
  "FindOrClaimUnit dev us =
     (case find_index (\<lambda>u. us_device u = Some dev) us of
        Some i \<Rightarrow> Some (i, us)
      | None \<Rightarrow>
          (case find_index (\<lambda>u. us_device u = None) us of
             Some i \<Rightarrow> Some (i, us[i := (us ! i)\<lparr>us_device := Some dev, previousButtons := 0\<rparr>])
           | None \<Rightarrow> None))"

text \<open>\<open>mouse_buttons\<close> bit \<open>i\<close> is \<open>1 << i\<close>; its transitions are bits \<open>2 i\<close> (down) and \<open>2 i + 1\<close>
  (up) of \<open>mouse_button_flags\<close>; the wheel is bit 10.\<close>

definition diffButton :: "u8 \<Rightarrow> u8 \<Rightarrow> nat \<Rightarrow> u16 \<Rightarrow> u16" where
  "diffButton prev now i fl =
     (let wasDown = (prev AND push_bit i 1 \<noteq> 0); isDown = (now AND push_bit i 1 \<noteq> 0) in
      if isDown \<and> \<not> wasDown then fl OR push_bit (2 * i) 1
      else if \<not> isDown \<and> wasDown then fl OR push_bit (2 * i + 1) 1
      else fl)"

definition BuildMouseEvent :: "MousePacket \<Rightarrow> UnitSlot \<Rightarrow> MouseInputEvent \<times> UnitSlot" where
  "BuildMouseEvent packet slot =
     (let ev = \<lparr>ms_unit = 0, ms_time = 0, isMovementAbsolute = isAbsolute packet, lastX = dx packet,
                lastY = dy packet, buttonFlags = 0, buttonData = 0\<rparr>;
          prev = previousButtons slot;
          fl = fold (diffButton prev (buttons packet)) [0, 1, 2, 3, 4] 0;
          slot1 = slot\<lparr>previousButtons := buttons packet\<rparr>
      in if wheel packet \<noteq> 0
         then (ev\<lparr>buttonFlags := fl OR push_bit 10 1, buttonData := scast (wheel packet)\<rparr>, slot1)
         else (ev\<lparr>buttonFlags := fl\<rparr>, slot1))"

definition push_gamepad :: "nat \<Rightarrow> GamepadState \<Rightarrow> GamepadSlot list \<Rightarrow> GamepadSlot list option" where
  "push_gamepad dev g gs =
     (case (case find_index (\<lambda>s. gp_device s = Some dev) gs of
              Some i \<Rightarrow> Some i | None \<Rightarrow> find_index (\<lambda>s. gp_device s = None) gs) of
        None \<Rightarrow> None
      | Some i \<Rightarrow>
          Some (gs[i := \<lparr>gp_device = Some dev, gp_state = g\<lparr>pad_sequence := pad_sequence (gp_state (gs ! i)) + 1\<rparr>\<rparr>]))"

text \<open>The part under the event lock: the status, whether an event was queued, the new state.\<close>

definition push_locked :: "nat \<Rightarrow> KInputReport \<Rightarrow> int \<Rightarrow> input_mgr \<Rightarrow> KernelError \<times> bool \<times> input_mgr" where
  "push_locked key report now M =
     (case report of
        Key e \<Rightarrow>
          (case FindOrClaimUnit key (g_units M) of
             None \<Rightarrow> (ResourceLimitExceeded, False, M)
           | Some (i, us) \<Rightarrow>
               (Success, True, M\<lparr>g_units := us, g_modifiers := modifiers e,
                  g_eventRing := EventRing_Push (KeyEvent (e\<lparr>k_unit := of_nat i, k_time := now\<rparr>)) (g_eventRing M)\<rparr>))
      | Pointer p \<Rightarrow>
          (case FindOrClaimUnit key (g_units M) of
             None \<Rightarrow> (ResourceLimitExceeded, False, M)
           | Some (i, us) \<Rightarrow>
               (case BuildMouseEvent p (us ! i) of (ev, slot) \<Rightarrow>
                 (Success, True, M\<lparr>g_units := us[i := slot],
                    g_eventRing := EventRing_Push (MouseEvent (ev\<lparr>ms_unit := of_nat i, ms_time := now\<rparr>)) (g_eventRing M)\<rparr>)))
      | Gamepad g \<Rightarrow>
          (case push_gamepad key g (g_gamepads M) of
             None \<Rightarrow> (ResourceLimitExceeded, False, M)
           | Some gs \<Rightarrow> (Success, False, M\<lparr>g_gamepads := gs\<rparr>)))"

text \<open>\<open>h\<close> is the header \<open>g_eventHeader\<close>.\<close>

definition KE_INPUT_PushEvent ::
  "nat \<Rightarrow> hid \<Rightarrow> nat option \<Rightarrow> KInputReport \<Rightarrow> int \<Rightarrow> input_mgr \<times> wait_sys \<Rightarrow>
   (KernelError \<times> input_mgr \<times> wait_sys) option" where
  "KE_INPUT_PushEvent me h device report now st =
     (case st of (M, W) \<Rightarrow>
      (case device of
         None \<Rightarrow> Some (InvalidArgument, M, W)
       | Some key \<Rightarrow>
           (case push_locked key report now M of (status, enq, M1) \<Rightarrow>
             if enq
             then (case KE_EVENT_Signal me h True W of
                     None \<Rightarrow> None
                   | Some W1 \<Rightarrow> Some (status, M1, W1))
             else Some (status, M1, W))))"

definition KE_INPUT_GetGamepadState :: "nat option \<Rightarrow> input_mgr \<Rightarrow> GamepadState expected" where
  "KE_INPUT_GetGamepadState device M =
     (case device of
        None \<Rightarrow> Inl InvalidArgument
      | Some key \<Rightarrow>
          (case find_index (\<lambda>s. gp_device s = Some key) (g_gamepads M) of
             None \<Rightarrow> Inl NotFound
           | Some i \<Rightarrow> Inr (gp_state (g_gamepads M ! i))))"

definition KE_INPUT_DequeueEvent :: "input_mgr \<Rightarrow> (AnyInputEvent \<times> input_mgr) option" where
  "KE_INPUT_DequeueEvent M =
     (case EventRing_Pop (g_eventRing M) of
        None \<Rightarrow> None
      | Some (e, r) \<Rightarrow> Some (e, M\<lparr>g_eventRing := r\<rparr>))"

definition ResetIfEmpty :: "input_mgr \<Rightarrow> KDispatcherHeader \<Rightarrow> bool \<times> KDispatcherHeader" where
  "ResetIfEmpty M h = (if EventRing_Empty (g_eventRing M) then (True, Reset h) else (False, h))"

definition KE_INPUT_GetModifierState :: "input_mgr \<Rightarrow> u32" where
  "KE_INPUT_GetModifierState M = g_modifiers M"

definition new_pad :: GamepadState where
  "new_pad = \<lparr>axes = replicate 6 0, pad_buttons = 0, hatX = 0, hatY = 0, pad_sequence = 0\<rparr>"

definition input_init :: input_mgr where
  "input_init = \<lparr>g_eventRing = EventRing_new,
     g_units = replicate kMaxInputDevices \<lparr>us_device = None, previousButtons = 0\<rparr>,
     g_gamepads = replicate kMaxGamepads \<lparr>gp_device = None, gp_state = new_pad\<rparr>, g_modifiers = 0\<rparr>"

subsection \<open>Units\<close>

lemma find_index_Some:
  "find_index P xs = Some i \<Longrightarrow> i < length xs \<and> P (xs ! i) \<and> (\<forall>j<i. \<not> P (xs ! j))"
proof (induction xs arbitrary: i)
  case (Cons x xs)
  show ?case
  proof (cases "P x")
    case True
    with Cons.prems show ?thesis by simp
  next
    case False
    with Cons.prems obtain k where k: "find_index P xs = Some k" "i = Suc k" by auto
    have "\<not> P ((x # xs) ! j)" if "j < Suc k" for j
      using that Cons.IH [OF k(1)] False by (cases j) auto
    with Cons.IH [OF k(1)] k(2) show ?thesis by simp
  qed
qed simp

lemma find_index_None: "find_index P xs = None \<longleftrightarrow> (\<forall>x\<in>set xs. \<not> P x)"
  by (induction xs) auto

definition units_ok :: "UnitSlot list \<Rightarrow> bool" where
  "units_ok us = (\<forall>i<length us. \<forall>j<length us. us_device (us ! i) \<noteq> None \<longrightarrow> us_device (us ! i) = us_device (us ! j) \<longrightarrow> i = j)"

lemma find_index_unit:
  assumes "units_ok us" "i < length us" "us_device (us ! i) = Some d"
  shows "find_index (\<lambda>u. us_device u = Some d) us = Some i"
proof (cases "find_index (\<lambda>u. us_device u = Some d) us")
  case None
  with assms(2,3) show ?thesis unfolding find_index_None by (metis nth_mem)
next
  case (Some k)
  from find_index_Some [OF this] assms have "k = i" unfolding units_ok_def by (metis option.distinct(1))
  with Some show ?thesis by simp
qed

text \<open>Claiming a free slot for a device that has none.\<close>

lemma units_claim:
  assumes ok: "units_ok us" and "find_index (\<lambda>u. us_device u = Some d) us = None"
    and i: "i < length us" "us_device (us ! i) = None"
  shows "units_ok (us[i := (us ! i)\<lparr>us_device := Some d, previousButtons := 0\<rparr>])"
proof -
  have nd: "us_device (us ! j) \<noteq> Some d" if "j < length us" for j
    using assms(2) that unfolding find_index_None by (metis nth_mem)
  show ?thesis
    unfolding units_ok_def
  proof (intro allI impI)
    fix j k
    assume jk: "j < length (us[i := (us ! i)\<lparr>us_device := Some d, previousButtons := 0\<rparr>])"
      "k < length (us[i := (us ! i)\<lparr>us_device := Some d, previousButtons := 0\<rparr>])"
      "us_device (us[i := (us ! i)\<lparr>us_device := Some d, previousButtons := 0\<rparr>] ! j) \<noteq> None"
      "us_device (us[i := (us ! i)\<lparr>us_device := Some d, previousButtons := 0\<rparr>] ! j) =
       us_device (us[i := (us ! i)\<lparr>us_device := Some d, previousButtons := 0\<rparr>] ! k)"
    show "j = k"
    proof (cases "j = i \<or> k = i")
      case True
      with jk nd [of j] nd [of k] i show ?thesis by (cases "j = i"; cases "k = i") auto
    next
      case False
      with jk have "us_device (us ! j) \<noteq> None" "us_device (us ! j) = us_device (us ! k)" "j < length us" "k < length us" by auto
      with ok show ?thesis unfolding units_ok_def by blast
    qed
  qed
qed

text \<open>Unit numbers are stable and unique: \<open>FindOrClaimUnit\<close> fails exactly when the device
  has no slot and all slots belong to other devices; otherwise it returns a slot that holds
  the device, leaves every other slot alone, keeps the table free of duplicates, and a later
  call for the same device returns the same number without changing the table.\<close>

theorem unit_numbers_stable:
  assumes "units_ok us"
  shows "case FindOrClaimUnit dev us of
      None \<Rightarrow> \<forall>i<length us. \<exists>d. us_device (us ! i) = Some d \<and> d \<noteq> dev
    | Some (i, us') \<Rightarrow> i < length us \<and> length us' = length us \<and> us_device (us' ! i) = Some dev \<and>
        (\<forall>j<length us. j \<noteq> i \<longrightarrow> us' ! j = us ! j) \<and> units_ok us' \<and> FindOrClaimUnit dev us' = Some (i, us')"
proof (cases "find_index (\<lambda>u. us_device u = Some dev) us")
  case (Some i)
  with find_index_Some [OF Some] assms show ?thesis by (simp add: FindOrClaimUnit_def)
next
  case None
  show ?thesis
  proof (cases "find_index (\<lambda>u. us_device u = None) us")
    case None2: None
    have "\<exists>d. us_device (us ! i) = Some d \<and> d \<noteq> dev" if "i < length us" for i
      using None None2 that unfolding find_index_None by (metis nth_mem not_Some_eq)
    with None None2 show ?thesis by (simp add: FindOrClaimUnit_def)
  next
    case (Some i)
    let ?us = "us[i := (us ! i)\<lparr>us_device := Some dev, previousButtons := 0\<rparr>]"
    from find_index_Some [OF Some] have i: "i < length us" "us_device (us ! i) = None" by auto
    have ok': "units_ok ?us" by (rule units_claim [OF assms None i])
    have "find_index (\<lambda>u. us_device u = Some dev) ?us = Some i"
      by (rule find_index_unit [OF ok']) (use i in simp_all)
    with None Some i ok' show ?thesis by (simp add: FindOrClaimUnit_def)
  qed
qed

theorem unit_numbers_stable_witness:
  "units_ok (g_units input_init) \<and> (\<exists>us. FindOrClaimUnit 77 (g_units input_init) = Some (0, us) \<and> FindOrClaimUnit 77 us = Some (0, us))"
proof -
  have "units_ok (g_units input_init)" by (simp add: units_ok_def input_init_def)
  moreover have "FindOrClaimUnit 77 (g_units input_init) =
      Some (0, (g_units input_init)[0 := \<lparr>us_device = Some 77, previousButtons = 0\<rparr>])"
    by (simp add: FindOrClaimUnit_def input_init_def numeral_eq_Suc)
  ultimately show ?thesis using unit_numbers_stable [of "g_units input_init" 77] by simp
qed

subsection \<open>Button transitions\<close>

lemma bit_push_1: "bit (push_bit k 1 :: u16) n \<longleftrightarrow> n = k \<and> k < 16"
  by (auto simp: bit_push_bit_iff bit_1_iff simp del: push_bit_of_1)

lemma bit_diffButton:
  assumes "i < 5"
  shows "bit (diffButton prev now i fl) n \<longleftrightarrow> bit fl n \<or>
    n = 2 * i \<and> bit now i \<and> \<not> bit prev i \<or> n = 2 * i + 1 \<and> \<not> bit now i \<and> bit prev i"
proof -
  have "bit prev i \<longleftrightarrow> prev AND push_bit i 1 \<noteq> 0" "bit now i \<longleftrightarrow> now AND push_bit i 1 \<noteq> 0"
    by (rule bit_iff_and_push_bit_not_eq_0)+
  then show ?thesis using assms by (auto simp: diffButton_def Let_def bit_or_iff bit_push_1 simp del: push_bit_of_1 push_bit_Suc)
qed

text \<open>A pointer report's button flags are exactly the transitions since the device's
  previous report: for each of the five buttons the down flag is set iff the button is
  pressed now and was not before, the up flag iff it is released now and was pressed
  before; the wheel flag is set iff the report has a wheel delta; no other flag is set; the
  coordinates pass through and the slot remembers the reported buttons.\<close>

theorem mouse_transitions:
  "BuildMouseEvent p slot = (ev, slot') \<Longrightarrow>
   (\<forall>i<5. bit (buttonFlags ev) (2 * i) = (bit (buttons p) i \<and> \<not> bit (previousButtons slot) i) \<and>
          bit (buttonFlags ev) (2 * i + 1) = (\<not> bit (buttons p) i \<and> bit (previousButtons slot) i)) \<and>
   bit (buttonFlags ev) 10 = (wheel p \<noteq> 0) \<and> (\<forall>n>10. \<not> bit (buttonFlags ev) n) \<and>
   lastX ev = dx p \<and> lastY ev = dy p \<and> isMovementAbsolute ev = isAbsolute p \<and>
   previousButtons slot' = buttons p \<and> us_device slot' = us_device slot"
proof -
  assume b: "BuildMouseEvent p slot = (ev, slot')"
  let ?n = "buttons p" and ?p = "previousButtons slot"
  let ?fl = "fold (diffButton ?p ?n) [0, 1, 2, 3, 4] 0"
  have ev: "buttonFlags ev = (if wheel p \<noteq> 0 then ?fl OR push_bit 10 1 else ?fl)"
    using b by (auto simp: BuildMouseEvent_def Let_def split: if_splits)
  have bits: "bit (buttonFlags ev) n \<longleftrightarrow> bit ?fl n \<or> n = 10 \<and> wheel p \<noteq> 0" for n
    unfolding ev by (auto simp: bit_or_iff bit_push_1 simp del: push_bit_of_1)
  have "bit ?fl (2 * i) = (bit ?n i \<and> \<not> bit ?p i) \<and> bit ?fl (2 * i + 1) = (\<not> bit ?n i \<and> bit ?p i)" if "i < 5" for i
  proof -
    from that have "i \<in> {0, 1, 2, 3, 4}" by auto
    then show ?thesis by (elim insertE emptyE; simp add: bit_diffButton)
  qed
  moreover have "\<not> bit ?fl n" if "n \<ge> 10" for n using that by (simp add: bit_diffButton)
  ultimately show ?thesis
    using b unfolding bits by (auto simp: BuildMouseEvent_def Let_def split: if_splits)
qed

theorem mouse_transitions_witness:
  "\<exists>ev slot'. BuildMouseEvent \<lparr>dx = 1, dy = 2, wheel = 0, buttons = 1, isAbsolute = False\<rparr>
      \<lparr>us_device = Some 3, previousButtons = 0\<rparr> = (ev, slot') \<and> lastX ev = 1 \<and> previousButtons slot' = 1"
proof -
  let ?p = "\<lparr>dx = 1, dy = 2, wheel = 0, buttons = 1, isAbsolute = False\<rparr> :: MousePacket"
  let ?s = "\<lparr>us_device = Some 3, previousButtons = 0\<rparr> :: UnitSlot"
  obtain ev sl where b: "BuildMouseEvent ?p ?s = (ev, sl)" by (cases "BuildMouseEvent ?p ?s") auto
  from mouse_transitions [OF b] b show ?thesis by auto
qed

subsection \<open>The event queue\<close>

text \<open>The relative horizontal and vertical displacement an event carries.\<close>

fun disp :: "AnyInputEvent \<Rightarrow> u32 \<times> u32" where
  "disp (MouseEvent m) = (if isMovementAbsolute m then (0, 0) else (lastX m, lastY m))"
| "disp _ = (0, 0)"

definition total_x :: "AnyInputEvent list \<Rightarrow> u32" where
  "total_x xs = sum_list (map (fst \<circ> disp) xs)"

definition total_y :: "AnyInputEvent list \<Rightarrow> u32" where
  "total_y xs = sum_list (map (snd \<circ> disp) xs)"

definition relative_motion :: "AnyInputEvent \<Rightarrow> bool" where
  "relative_motion e = (case e of MouseEvent m \<Rightarrow> buttonFlags m = 0 \<and> \<not> isMovementAbsolute m | _ \<Rightarrow> False)"

lemma relative_pure: "relative_motion e \<Longrightarrow> IsPureMotionMouseEvent e"
  by (cases e) (auto simp: relative_motion_def)

lemma disp_coalesce:
  "relative_motion t \<Longrightarrow> relative_motion e \<Longrightarrow>
     fst (disp (coalesce t e)) = fst (disp t) + fst (disp e) \<and> snd (disp (coalesce t e)) = snd (disp t) + snd (disp e)"
  by (cases t; cases e) (auto simp: relative_motion_def)

text \<open>The event ring is a first-in first-out queue of at most 128 events: \<open>Push\<close> appends
  while there is room, otherwise merges a pure motion event into a newest entry that is pure
  motion or displaces the oldest entry; \<open>Pop\<close> takes the oldest. Pushing a relative motion
  onto a full ring whose newest entry is relative motion loses no event and preserves the
  total displacement modulo the word size.\<close>

theorem event_ring_spec:
  assumes "ev_repr r xs"
  shows "ev_repr (EventRing_Push e r) (push_list e xs) \<and> length xs \<le> evCapacity \<and>
    (case xs of [] \<Rightarrow> EventRing_Pop r = None | x # ys \<Rightarrow> \<exists>r'. EventRing_Pop r = Some (x, r') \<and> ev_repr r' ys) \<and>
    (length xs = evCapacity \<longrightarrow> relative_motion e \<longrightarrow> relative_motion (last xs) \<longrightarrow>
       length (push_list e xs) = length xs \<and> butlast (push_list e xs) = butlast xs \<and>
       total_x (push_list e xs) = total_x xs + fst (disp e) \<and> total_y (push_list e xs) = total_y xs + snd (disp e))"
proof (intro conjI impI)
  show "ev_repr (EventRing_Push e r) (push_list e xs)" by (rule ev_push_repr [OF assms])
  show "length xs \<le> evCapacity" using assms by (auto simp: ev_repr_def)
  show "case xs of [] \<Rightarrow> EventRing_Pop r = None | x # ys \<Rightarrow> \<exists>r'. EventRing_Pop r = Some (x, r') \<and> ev_repr r' ys"
    using assms ev_pop_empty ev_pop_repr by (cases xs) auto
  assume full: "length xs = evCapacity" and e: "relative_motion e" and l: "relative_motion (last xs)"
  have p: "push_list e xs = butlast xs @ [coalesce (last xs) e]"
    using full relative_pure [OF e] relative_pure [OF l] by (simp add: push_list_def)
  from full have ne: "xs \<noteq> []" by auto
  then have xs: "xs = butlast xs @ [last xs]" by simp
  show "length (push_list e xs) = length xs" "butlast (push_list e xs) = butlast xs" using p full by simp_all
  have "total_x xs = total_x (butlast xs) + fst (disp (last xs))" "total_y xs = total_y (butlast xs) + snd (disp (last xs))"
    by (subst xs, simp add: total_x_def total_y_def)+
  then show "total_x (push_list e xs) = total_x xs + fst (disp e)" "total_y (push_list e xs) = total_y xs + snd (disp e)"
    unfolding p using disp_coalesce [OF l e] by (simp_all add: total_x_def total_y_def add.assoc)
qed

lemma EventRing_new_repr: "ev_repr EventRing_new []"
  by (simp add: ev_repr_def EventRing_new_def)

theorem event_ring_spec_witness: "ev_repr (EventRing_Push BaseEvent EventRing_new) (push_list BaseEvent [])"
  using event_ring_spec [OF EventRing_new_repr, of BaseEvent] by simp

text \<open>Motion can displace a keystroke: on a full ring whose newest entry is not pure
  motion, pushing a pure motion event drops the oldest entry whatever it is, for instance a
  key event.\<close>

theorem motion_displaces_key:
  assumes "ev_repr r (KeyEvent k # xs)" "length xs = 127" "\<not> IsPureMotionMouseEvent (last xs)"
  shows "ev_repr (EventRing_Push (MouseEvent m) r) (xs @ [MouseEvent m])"
proof -
  have "xs \<noteq> []" using assms(2) by auto
  then have "push_list (MouseEvent m) (KeyEvent k # xs) = xs @ [MouseEvent m]"
    using assms(2,3) by (simp add: push_list_def)
  then show ?thesis using ev_push_repr [OF assms(1), of "MouseEvent m"] by simp
qed

definition demo_key :: KeyboardInputEvent where
  "demo_key = \<lparr>k_unit = 0, k_time = 0, virtualKey = 65, scanCode = 4, keyFlags = 0, character = 97, modifiers = 0\<rparr>"

definition demo_motion :: MouseInputEvent where
  "demo_motion = \<lparr>ms_unit = 0, ms_time = 0, isMovementAbsolute = False, lastX = 1, lastY = 0, buttonFlags = 0, buttonData = 0\<rparr>"

lemma window_replicate: "n > 0 \<Longrightarrow> window (replicate n x) lo k = replicate k x"
  by (rule nth_equalityI) (simp_all add: nth_window)

theorem motion_displaces_key_witness:
  "ev_repr (EventRing_Push (MouseEvent demo_motion) \<lparr>m_items = replicate evCapacity (KeyEvent demo_key), ev_head = 0, ev_tail = 0, ev_count = evCapacity\<rparr>)
     (replicate 127 (KeyEvent demo_key) @ [MouseEvent demo_motion])"
proof -
  have "ev_repr \<lparr>m_items = replicate evCapacity (KeyEvent demo_key), ev_head = 0, ev_tail = 0, ev_count = evCapacity\<rparr>
     (KeyEvent demo_key # replicate 127 (KeyEvent demo_key))"
    unfolding ev_repr_def by (simp add: window_replicate flip: replicate_Suc)
  moreover have "last (replicate 127 (KeyEvent demo_key)) = KeyEvent demo_key" by (subst last_replicate) simp_all
  ultimately show ?thesis by (intro motion_displaces_key) simp_all
qed

subsection \<open>Queue and header\<close>

text \<open>
  The steps producers and consumers take on the event ring and its manual-reset header:
  a push under the event lock, the signal that follows it, a dequeue, and the reset of the
  header by a consumer that finds the ring empty. \<open>pending\<close> counts the pushes whose
  signal has not been delivered yet.
\<close>

record input_sys =
  im :: input_mgr
  iw :: wait_sys
  pending :: nat

inductive input_step :: "hid \<Rightarrow> input_sys \<Rightarrow> input_sys \<Rightarrow> bool" for h where
  in_push: "push_locked key report now (im S) = (status, enq, M) \<Longrightarrow>
    input_step h S (S\<lparr>im := M, pending := pending S + (if enq then 1 else 0)\<rparr>)"
| in_signal: "pending S > 0 \<Longrightarrow> KE_EVENT_Signal me h True (iw S) = Some W \<Longrightarrow>
    input_step h S (S\<lparr>iw := W, pending := pending S - 1\<rparr>)"
| in_pop: "KE_INPUT_DequeueEvent (im S) = Some (e, M) \<Longrightarrow> input_step h S (S\<lparr>im := M\<rparr>)"
| in_reset: "ResetIfEmpty (im S) (hdrs (iw S) h) = (b, hd') \<Longrightarrow>
    input_step h S (S\<lparr>iw := (iw S)\<lparr>hdrs := (hdrs (iw S))(h := hd')\<rparr>\<rparr>)"

definition input_inv :: "hid \<Rightarrow> input_sys \<Rightarrow> bool" where
  "input_inv h S =
     ((\<exists>xs. hdr_repr (hdrs (iw S) h, wbs (iw S)) xs) \<and> manualReset (hdrs (iw S) h) \<and>
      (\<exists>es. ev_repr (g_eventRing (im S)) es) \<and>
      (EventRing_Empty (g_eventRing (im S)) \<or> signalled (hdrs (iw S) h) \<or> pending S > 0))"

lemma push_locked_ring:
  assumes "push_locked key report now M = (status, enq, M')"
  shows "(enq \<and> (\<exists>e. g_eventRing M' = EventRing_Push e (g_eventRing M))) \<or> (\<not> enq \<and> g_eventRing M' = g_eventRing M)"
  using assms by (auto simp: push_locked_def split: KInputReport.splits option.splits prod.splits)

lemma input_step_inv:
  assumes "input_step h S S'" "input_inv h S"
  shows "input_inv h S'"
  using assms(1)
proof cases
  case (in_push key report now status enq M)
  from push_locked_ring [OF in_push(2)] assms(2) in_push(1) show ?thesis
    unfolding input_inv_def by (auto intro!: exI ev_push_repr)
next
  case (in_signal me W)
  from assms(2) obtain xs where r: "hdr_repr (hdrs (iw S) h, wbs (iw S)) xs" and m: "manualReset (hdrs (iw S) h)"
    unfolding input_inv_def by blast
  from Signal_spec [OF r, of True "wake me" "ws (iw S)"] m obtain h' bl s' ys n where
    "Signal True (wake me) ((hdrs (iw S) h, wbs (iw S)), ws (iw S)) = Some (n, ((h', bl), s'))"
    "hdr_repr (h', bl) ys" "manualReset h'" "signalled h'" by (auto simp: signal_state_def)
  with in_signal(3) have "hdrs W h = h'" "wbs W = bl" by (auto simp: KE_EVENT_Signal_def)
  with \<open>hdr_repr (h', bl) ys\<close> \<open>manualReset h'\<close> \<open>signalled h'\<close> in_signal(1) assms(2) show ?thesis
    unfolding input_inv_def by auto
next
  case (in_pop e M)
  from assms(2) obtain es where r: "ev_repr (g_eventRing (im S)) es" unfolding input_inv_def by blast
  from in_pop(2) obtain r' where p: "EventRing_Pop (g_eventRing (im S)) = Some (e, r')" "M = (im S)\<lparr>g_eventRing := r'\<rparr>"
    by (auto simp: KE_INPUT_DequeueEvent_def split: option.splits)
  then obtain ys where "ev_repr r' ys" using r ev_pop_repr ev_pop_empty by (cases es) fastforce+
  moreover have "\<not> EventRing_Empty (g_eventRing (im S))" using p(1) by (auto simp: EventRing_Pop_def EventRing_Empty_def split: if_splits)
  ultimately show ?thesis using assms(2) in_pop(1) p(2) unfolding input_inv_def by auto
next
  case (in_reset b hd')
  have hd': "waiters hd' = waiters (hdrs (iw S) h)" "manualReset hd' = manualReset (hdrs (iw S) h)"
    "EventRing_Empty (g_eventRing (im S)) \<or> hd' = hdrs (iw S) h"
    using in_reset(2) by (auto simp: ResetIfEmpty_def Reset_def split: if_splits)
  with assms(2) in_reset(1) show ?thesis
    unfolding input_inv_def by (auto simp: hdr_repr_def)
qed

inductive input_reachable :: "hid \<Rightarrow> input_sys \<Rightarrow> input_sys \<Rightarrow> bool" for h where
  input_refl: "input_reachable h S S"
| input_next: "input_reachable h S S' \<Longrightarrow> input_step h S' S'' \<Longrightarrow> input_reachable h S S''"

lemma input_reachable_inv: "input_reachable h S S' \<Longrightarrow> input_inv h S \<Longrightarrow> input_inv h S'"
  by (induction rule: input_reachable.induct) (auto intro: input_step_inv)



end
