(* ===== verification/Hid_Parser.thy ===== *)
theory Hid_Parser
  imports Input_Manager
begin

text \<open>
  The HID class driver, \<open>Drivers/input_hid\<close>: the parser of report descriptors, the extraction of bit
  fields, the usage tables of the keyboard and the decoder that turns a report into calls of
  \<open>KE_INPUT_PushEvent\<close>. A descriptor and a report are lists of bytes. Signed 32-bit values are words
  compared through \<open>sint\<close>. The arrays \<open>fields\<close>, \<open>localUsages\<close>, \<open>pressed\<close> and \<open>current\<close> with their counters are
  lists of the entries in use; the tests of the counters against the capacities are those of the
  source.
\<close>

subsection \<open>Report formats\<close>

record ReportField =
  fd_usagePage :: u16
  fd_usage :: u16
  bitOffset :: u16
  bitSize :: u8
  isRelative :: bool
  isArray :: bool
  logicalMin :: u32
  logicalMax :: u32

abbreviation kMaxFields :: nat where "kMaxFields \<equiv> 48"

record ReportFormat =
  rf_fields :: "ReportField list"
  reportId :: u8
  reportBytes :: u32
  collectionUsage :: u16

abbreviation kMaxPressed :: nat where "kMaxPressed \<equiv> 16"

record DecoderState =
  pressed :: "u16 list"
  lockModifiers :: u32

text \<open>\<open>usage_page\<close> and \<open>usage_gd\<close>.\<close>

abbreviation page_GenericDesktop :: u16 where "page_GenericDesktop \<equiv> 0x01"
abbreviation page_Keyboard :: u16 where "page_Keyboard \<equiv> 0x07"
abbreviation page_Button :: u16 where "page_Button \<equiv> 0x09"

abbreviation gd_Pointer :: u16 where "gd_Pointer \<equiv> 0x01"
abbreviation gd_Mouse :: u16 where "gd_Mouse \<equiv> 0x02"
abbreviation gd_Joystick :: u16 where "gd_Joystick \<equiv> 0x04"
abbreviation gd_Gamepad :: u16 where "gd_Gamepad \<equiv> 0x05"
abbreviation gd_Keyboard :: u16 where "gd_Keyboard \<equiv> 0x06"
abbreviation gd_X :: u16 where "gd_X \<equiv> 0x30"
abbreviation gd_Y :: u16 where "gd_Y \<equiv> 0x31"
abbreviation gd_Z :: u16 where "gd_Z \<equiv> 0x32"
abbreviation gd_Rx :: u16 where "gd_Rx \<equiv> 0x33"
abbreviation gd_Ry :: u16 where "gd_Ry \<equiv> 0x34"
abbreviation gd_Rz :: u16 where "gd_Rz \<equiv> 0x35"
abbreviation gd_Wheel :: u16 where "gd_Wheel \<equiv> 0x38"
abbreviation gd_HatSwitch :: u16 where "gd_HatSwitch \<equiv> 0x39"

subsection \<open>Item data\<close>

definition SignedItemData :: "u8 list \<Rightarrow> u32" where
  "SignedItemData data =
     (case data of
        [a] \<Rightarrow> scast a
      | [a, b] \<Rightarrow> scast (ucast a OR push_bit 8 (ucast b) :: u16)
      | [a, b, c, d] \<Rightarrow> ucast a OR push_bit 8 (ucast b) OR push_bit 16 (ucast c) OR push_bit 24 (ucast d)
      | _ \<Rightarrow> 0)"

definition UnsignedItemData :: "u8 list \<Rightarrow> u32" where
  "UnsignedItemData data = fold (\<lambda>i value. value OR push_bit (8 * i) (ucast (data ! i))) [0..<length data] 0"

subsection \<open>The descriptor parser\<close>

record hid_parse =
  hp_format :: ReportFormat
  hp_usagePage :: u16
  hp_logicalMin :: u32
  hp_logicalMax :: u32
  hp_reportSize :: u32
  hp_reportCount :: u32
  hp_localUsages :: "u16 list"
  hp_haveUsageRange :: bool
  hp_usageMin :: u16
  hp_usageMax :: u16
  hp_bitOffset :: u32
  hp_depth :: int
  hp_haveCollectionUsage :: bool

abbreviation kMaxLocalUsages :: nat where "kMaxLocalUsages \<equiv> 32"

definition hid_start :: hid_parse where
  "hid_start =
     \<lparr>hp_format = \<lparr>rf_fields = [], reportId = 0, reportBytes = 0, collectionUsage = 0\<rparr>, hp_usagePage = 0, hp_logicalMin = 0, hp_logicalMax = 0,
      hp_reportSize = 0, hp_reportCount = 0, hp_localUsages = [], hp_haveUsageRange = False, hp_usageMin = 0, hp_usageMax = 0,
      hp_bitOffset = 0, hp_depth = 0, hp_haveCollectionUsage = False\<rparr>"

definition global_item :: "u8 \<Rightarrow> u8 list \<Rightarrow> hid_parse \<Rightarrow> hid_parse" where
  "global_item tag data st =
     (if tag = 0x0 then st\<lparr>hp_usagePage := ucast (UnsignedItemData data)\<rparr>
      else if tag = 0x1 then st\<lparr>hp_logicalMin := SignedItemData data\<rparr>
      else if tag = 0x2 then st\<lparr>hp_logicalMax := SignedItemData data\<rparr>
      else if tag = 0x7 then st\<lparr>hp_reportSize := UnsignedItemData data\<rparr>
      else if tag = 0x8 then st\<lparr>hp_format := (hp_format st)\<lparr>reportId := ucast (UnsignedItemData data)\<rparr>\<rparr>
      else if tag = 0x9 then st\<lparr>hp_reportCount := UnsignedItemData data\<rparr>
      else st)"

definition local_item :: "u8 \<Rightarrow> u8 list \<Rightarrow> hid_parse \<Rightarrow> hid_parse expected" where
  "local_item tag data st =
     (if tag = 0x0 then
        (if length (hp_localUsages st) \<ge> kMaxLocalUsages then Inl ResourceLimitExceeded
         else Inr (st\<lparr>hp_localUsages := hp_localUsages st @ [ucast (UnsignedItemData data)]\<rparr>))
      else if tag = 0x1 then Inr (st\<lparr>hp_usageMin := ucast (UnsignedItemData data), hp_haveUsageRange := True\<rparr>)
      else if tag = 0x2 then Inr (st\<lparr>hp_usageMax := ucast (UnsignedItemData data), hp_haveUsageRange := True\<rparr>)
      else Inr st)"

definition field_usage :: "u32 \<Rightarrow> hid_parse \<Rightarrow> u16" where
  "field_usage n st =
     (if unat n < length (hp_localUsages st) then hp_localUsages st ! unat n
      else if hp_haveUsageRange st \<and> ucast (hp_usageMin st) + n \<le> (ucast (hp_usageMax st) :: u32) then ucast (ucast (hp_usageMin st) + n :: u32)
      else if hp_localUsages st \<noteq> [] then last (hp_localUsages st)
      else 0)"

definition new_field :: "u32 \<Rightarrow> u32 \<Rightarrow> hid_parse \<Rightarrow> ReportField" where
  "new_field fl n st =
     (let arr = (fl AND 2 = 0) in
      \<lparr>fd_usagePage = hp_usagePage st, fd_usage = (if arr then 0 else field_usage n st), bitOffset = ucast (hp_bitOffset st),
       bitSize = ucast (hp_reportSize st), isRelative = (fl AND 4 \<noteq> 0), isArray = arr,
       logicalMin = hp_logicalMin st, logicalMax = hp_logicalMax st\<rparr>)"

text \<open>The loop over \<open>reportCount\<close>: \<open>k\<close> iterations are left, \<open>n\<close> is the index.\<close>

fun input_fields :: "nat \<Rightarrow> u32 \<Rightarrow> u32 \<Rightarrow> hid_parse \<Rightarrow> hid_parse expected" where
  "input_fields 0 n fl st = Inr st"
| "input_fields (Suc k) n fl st =
     (if hp_bitOffset st + hp_reportSize st > 0xFFFF then Inl InvalidFormat
      else if fl AND 1 = 0 then
        (if length (rf_fields (hp_format st)) \<ge> kMaxFields then Inl ResourceLimitExceeded
         else input_fields k (n + 1) fl
           (st\<lparr>hp_format := (hp_format st)\<lparr>rf_fields := rf_fields (hp_format st) @ [new_field fl n st]\<rparr>,
               hp_bitOffset := hp_bitOffset st + hp_reportSize st\<rparr>))
      else input_fields k (n + 1) fl (st\<lparr>hp_bitOffset := hp_bitOffset st + hp_reportSize st\<rparr>))"

definition clear_locals :: "hid_parse \<Rightarrow> hid_parse" where
  "clear_locals st = st\<lparr>hp_localUsages := [], hp_haveUsageRange := False, hp_usageMin := 0, hp_usageMax := 0\<rparr>"

definition open_collection :: "hid_parse \<Rightarrow> hid_parse" where
  "open_collection st =
     (let st1 = st\<lparr>hp_depth := hp_depth st + 1\<rparr> in
      if \<not> hp_haveCollectionUsage st1 \<and> hp_usagePage st1 = page_GenericDesktop \<and> hp_localUsages st1 \<noteq> []
      then st1\<lparr>hp_format := (hp_format st1)\<lparr>collectionUsage := hd (hp_localUsages st1)\<rparr>, hp_haveCollectionUsage := True\<rparr>
      else st1)"

definition main_item :: "u8 \<Rightarrow> u8 list \<Rightarrow> hid_parse \<Rightarrow> hid_parse expected" where
  "main_item tag data st =
     map_sum id clear_locals
       (if tag = 0xA then Inr (open_collection st)
        else if tag = 0xC then
          (if hp_depth st - 1 < 0 then Inl InvalidFormat else Inr (st\<lparr>hp_depth := hp_depth st - 1\<rparr>))
        else if tag = 0x8 then
          (if hp_reportSize st = 0 \<or> hp_reportSize st > 32 then Inl InvalidFormat
           else input_fields (unat (hp_reportCount st)) 0 (UnsignedItemData data) st)
        else Inr st)"

definition parse_item :: "u8 \<Rightarrow> u8 list \<Rightarrow> hid_parse \<Rightarrow> hid_parse expected" where
  "parse_item header data st =
     (let tag = drop_bit 4 header; type = drop_bit 2 header AND 3 in
      if type = 1 then Inr (global_item tag data st)
      else if type = 2 then local_item tag data st
      else if type \<noteq> 0 then Inl InvalidFormat
      else main_item tag data st)"

definition item_size :: "u8 \<Rightarrow> nat" where
  "item_size header = (if header AND 3 = 3 then 4 else unat (header AND 3))"

function parse_items :: "u8 list \<Rightarrow> hid_parse \<Rightarrow> hid_parse expected" where
  "parse_items [] st = Inr st"
| "parse_items (header # rest) st =
     (if header = 0xFE then Inl Unsupported
      else if length rest < item_size header then Inl InvalidFormat
      else case parse_item header (take (item_size header) rest) st of
             Inl e \<Rightarrow> Inl e
           | Inr st1 \<Rightarrow> parse_items (drop (item_size header) rest) st1)"
  by pat_completeness auto
termination
  by (relation "measure (\<lambda>(d, st). length d)") auto

definition ParseReportDescriptor :: "u8 list \<Rightarrow> ReportFormat expected" where
  "ParseReportDescriptor descriptor =
     (case parse_items descriptor hid_start of
        Inl e \<Rightarrow> Inl e
      | Inr st \<Rightarrow>
          if hp_depth st \<noteq> 0 then Inl InvalidFormat
          else if rf_fields (hp_format st) = [] then Inl InvalidFormat
          else Inr ((hp_format st)\<lparr>reportBytes := (hp_bitOffset st + 7) div 8\<rparr>))"

subsection \<open>Fields of a report\<close>

text \<open>\<open>k\<close> iterations are left, \<open>b\<close> is the variable \<open>bit\<close>.\<close>

fun extract_loop :: "nat \<Rightarrow> nat \<Rightarrow> ReportField \<Rightarrow> u8 list \<Rightarrow> u32 \<Rightarrow> u32" where
  "extract_loop 0 b f report raw = raw"
| "extract_loop (Suc k) b f report raw =
     (let absoluteBit = unat (bitOffset f) + b; byteIndex = absoluteBit div 8 in
      if byteIndex \<ge> length report then raw
      else extract_loop k (Suc b) f report
        (if ucast (report ! byteIndex) AND push_bit (absoluteBit mod 8) 1 \<noteq> (0 :: u32) then raw OR push_bit b 1 else raw))"

definition ExtractField :: "ReportField \<Rightarrow> u8 list \<Rightarrow> u32" where
  "ExtractField f report =
     (let raw = extract_loop (unat (bitSize f)) 0 f report 0 in
      if sint (logicalMin f) < 0 \<and> bitSize f < 32 \<and> raw AND push_bit (unat (bitSize f) - 1) 1 \<noteq> 0
      then raw OR NOT (push_bit (unat (bitSize f)) 1 - 1)
      else raw)"

subsection \<open>Gamepad values\<close>

definition NormalizeAxis :: "u32 \<Rightarrow> u32 \<Rightarrow> u32 \<Rightarrow> u16" where
  "NormalizeAxis value lmin lmax =
     (if sint lmax \<le> sint lmin then 0
      else if sint value \<le> sint lmin then word_of_int (- 32767)
      else if sint value \<ge> sint lmax then word_of_int 32767
      else let span = sint lmax - sint lmin; outSpan = 32767 - (- 32767)
           in word_of_int ((sint value - sint lmin) * outSpan div span + (- 32767)))"

definition GamepadAxisSlot :: "u16 \<Rightarrow> nat" where
  "GamepadAxisSlot usage =
     (if usage = gd_X then 0 else if usage = gd_Y then 1 else if usage = gd_Rx then 2 else if usage = gd_Ry then 3
      else if usage = gd_Z then 4 else if usage = gd_Rz then 5 else 6)"

definition DecodeHat :: "u32 \<Rightarrow> u32 \<Rightarrow> u32 \<Rightarrow> u8 \<times> u8" where
  "DecodeHat value lmin lmax =
     (if sint value < sint lmin \<or> sint value > sint lmax then (0, 0)
      else let index = unat ((value - lmin) AND 7)
           in ([0, 1, 1, 1, 0, -1, -1, -1] ! index, [-1, -1, 0, 1, 1, 1, 0, -1] ! index))"

subsection \<open>Keyboard tables\<close>

text \<open>A table is a list of 256 entries; \<open>set_run\<close> is a loop over consecutive usages, \<open>set_each\<close> a list of
  assignments.\<close>

definition set_run :: "nat \<Rightarrow> u16 \<Rightarrow> nat \<Rightarrow> u16 list \<Rightarrow> u16 list" where
  "set_run first v n t = fold (\<lambda>i t. t[first + i := v + of_nat i]) [0..<n] t"

definition set_each :: "(nat \<times> 'a) list \<Rightarrow> 'a list \<Rightarrow> 'a list" where
  "set_each ps t = fold (\<lambda>(i, v) t. t[i := v]) ps t"

definition BuildUsageToVk :: "u16 list" where
  "BuildUsageToVk =
     set_each
       [(0x62, 0x60), (0x63, 0x6E), (0x65, 0x5D), (0x9B, 0x03),                   \<comment> \<open>Kp0, KpPeriod, Application, Cancel\<close>
        (0xE0, 0xA2), (0xE1, 0xA0), (0xE2, 0xA4), (0xE3, 0x5B),                   \<comment> \<open>left control, shift, alt, GUI\<close>
        (0xE4, 0xA3), (0xE5, 0xA1), (0xE6, 0xA5), (0xE7, 0x5C)]                   \<comment> \<open>right control, shift, alt, GUI\<close>
     (set_run 0x59 0x61 9                                                          \<comment> \<open>Kp1 to Kp9\<close>
     (set_each
       [(0x46, 0x2C), (0x47, 0x91), (0x48, 0x13), (0x49, 0x2D), (0x4A, 0x24),     \<comment> \<open>PrintScreen to Home\<close>
        (0x4B, 0x21), (0x4C, 0x2E), (0x4D, 0x23), (0x4E, 0x22), (0x4F, 0x27),     \<comment> \<open>PageUp to Right\<close>
        (0x50, 0x25), (0x51, 0x28), (0x52, 0x26), (0x53, 0x90), (0x54, 0x6F),     \<comment> \<open>Left to KpDivide\<close>
        (0x55, 0x6A), (0x56, 0x6D), (0x57, 0x6B), (0x58, 0x0D)]                   \<comment> \<open>KpMultiply to KpEnter\<close>
     (set_run 0x3A 0x70 12                                                         \<comment> \<open>F1 to F12\<close>
     (set_each
       [(0x27, 0x30), (0x28, 0x0D), (0x29, 0x1B), (0x2A, 0x08), (0x2B, 0x09),     \<comment> \<open>Num0 to Tab\<close>
        (0x2C, 0x20), (0x2D, 0xBD), (0x2E, 0xBB), (0x2F, 0xDB), (0x30, 0xDD),     \<comment> \<open>Space to RightBracket\<close>
        (0x31, 0xDC), (0x33, 0xBA), (0x34, 0xDE), (0x35, 0xC0), (0x36, 0xBC),     \<comment> \<open>Backslash to Comma\<close>
        (0x37, 0xBE), (0x38, 0xBF), (0x39, 0x14)]                                 \<comment> \<open>Period, Slash, CapsLock\<close>
     (set_run 0x1E 0x31 9                                                          \<comment> \<open>Num1 to Num9\<close>
     (set_run 0x04 0x41 26                                                         \<comment> \<open>A to Z\<close>
     (replicate 256 0)))))))"

definition digitsUnshifted :: "u8 list" where
  "digitsUnshifted = [0x31, 0x32, 0x33, 0x34, 0x35, 0x36, 0x37, 0x38, 0x39, 0x30]"

definition digitsShifted :: "u8 list" where
  "digitsShifted = [0x21, 0x40, 0x23, 0x24, 0x25, 0x5E, 0x26, 0x2A, 0x28, 0x29]"

definition BuildAscii :: "bool \<Rightarrow> u8 list" where
  "BuildAscii shifted =
     (let digits = (if shifted then digitsShifted else digitsUnshifted); pick = (\<lambda>s u. if shifted then s else u) in
      set_each
        [(0x27, digits ! 9),
         (0x2D, pick 0x5F 0x2D), (0x2E, pick 0x2B 0x3D), (0x2F, pick 0x7B 0x5B), (0x30, pick 0x7D 0x5D), (0x31, pick 0x7C 0x5C),
         (0x33, pick 0x3A 0x3B), (0x34, pick 0x22 0x27), (0x35, pick 0x7E 0x60), (0x36, pick 0x3C 0x2C), (0x37, pick 0x3E 0x2E),
         (0x38, pick 0x3F 0x2F), (0x2C, 0x20)]
        (fold (\<lambda>i t. t[0x1E + i := digits ! i]) [0..<9] (replicate 256 0)))"

definition HeldModifierFlag :: "u16 \<Rightarrow> u32" where
  "HeldModifierFlag usage =
     (if usage = 0xE1 then 1 else if usage = 0xE5 then 2 else if usage = 0xE0 then 4 else if usage = 0xE4 then 8
      else if usage = 0xE2 then 16 else if usage = 0xE6 then 32 else 0)"

definition LockModifierFlag :: "u16 \<Rightarrow> u32" where
  "LockModifierFlag usage = (if usage = 0x39 then 64 else if usage = 0x53 then 128 else if usage = 0x47 then 256 else 0)"

definition IsExtendedUsage :: "u16 \<Rightarrow> bool" where
  "IsExtendedUsage usage \<longleftrightarrow>
     usage \<in> set [0xE4, 0xE6, 0xE3, 0xE7, 0x65, 0x46, 0x9B, 0x54, 0x58, 0x49, 0x4A, 0x4B, 0x4C, 0x4D, 0x4E, 0x4F, 0x50, 0x51, 0x52]"

definition ContainsUsage :: "u16 list \<Rightarrow> u16 \<Rightarrow> bool" where
  "ContainsUsage us usage \<longleftrightarrow> list_ex (\<lambda>u. u = usage) us"

definition key_character :: "u16 \<Rightarrow> u16 \<Rightarrow> u32 \<Rightarrow> u8" where
  "key_character usage vkey mods =
     (let shifted = (mods AND 3 \<noteq> 0); numlock = (mods AND 128 \<noteq> 0) in
      if 0x41 \<le> vkey \<and> vkey < 0x41 + 26
      then (let upper = (shifted \<noteq> (mods AND 64 \<noteq> 0)) in (if upper then 0x41 else 0x61) + ucast (vkey - 0x41))
      else if 0x59 \<le> usage \<and> usage \<le> 0x62
      then (if numlock then 0x30 + (if usage = 0x62 then 0 else ucast (usage - 0x59 + 1)) else 0)
      else if usage = 0x63 then (if numlock then 0x2E else 0)
      else if usage = 0x55 then 0x2A else if usage = 0x57 then 0x2B else if usage = 0x56 then 0x2D else if usage = 0x54 then 0x2F
      else if usage < 256 then BuildAscii shifted ! unat usage
      else 0)"

definition MakeKeyEvent :: "u16 \<Rightarrow> bool \<Rightarrow> u32 \<Rightarrow> KeyboardInputEvent" where
  "MakeKeyEvent usage isBreak mods =
     (let v = (if usage < 256 then BuildUsageToVk ! unat usage else 0);
          fl = (if isBreak then 1 else 0) OR (if IsExtendedUsage usage then 2 else 0) in
      \<lparr>k_unit = 0, k_time = 0, virtualKey = v, scanCode = ucast usage, keyFlags = fl,
       character = (if isBreak then 0 else key_character usage v mods), modifiers = mods\<rparr>)"

subsection \<open>Decoding a report\<close>

fun current_keys :: "ReportField list \<Rightarrow> u8 list \<Rightarrow> u16 list \<Rightarrow> u32 \<Rightarrow> u16 list \<times> u32" where
  "current_keys [] report cur held = (cur, held)"
| "current_keys (f # fs) report cur held =
     (let value = ExtractField f report; usage = (if isArray f then ucast value else fd_usage f) in
      if fd_usagePage f \<noteq> page_Keyboard \<or> usage = 0 \<or> \<not> isArray f \<and> value = 0 \<or> ContainsUsage cur usage \<or> length cur \<ge> kMaxPressed
      then current_keys fs report cur held
      else current_keys fs report (cur @ [usage]) (held OR HeldModifierFlag usage))"

definition release_events :: "u16 list \<Rightarrow> u32 \<Rightarrow> DecoderState \<Rightarrow> KInputReport list" where
  "release_events cur held ds =
     map (\<lambda>usage. Key (MakeKeyEvent usage True (held OR lockModifiers ds))) (filter (\<lambda>usage. \<not> ContainsUsage cur usage) (pressed ds))"

fun press_events :: "u16 list \<Rightarrow> u32 \<Rightarrow> DecoderState \<Rightarrow> KInputReport list \<times> DecoderState" where
  "press_events [] held ds = ([], ds)"
| "press_events (usage # us) held ds =
     (if ContainsUsage (pressed ds) usage then press_events us held ds
      else let ds1 = ds\<lparr>lockModifiers := lockModifiers ds XOR LockModifierFlag usage\<rparr>;
               (es, ds2) = press_events us held ds1
           in (Key (MakeKeyEvent usage False (held OR lockModifiers ds1)) # es, ds2))"

definition decode_keyboard :: "ReportFormat \<Rightarrow> DecoderState \<Rightarrow> u8 list \<Rightarrow> KInputReport list \<times> DecoderState" where
  "decode_keyboard format ds report =
     (let (cur, held) = current_keys (rf_fields format) report [] 0;
          ups = release_events cur held ds;
          (downs, ds1) = press_events cur held ds
      in (ups @ downs, ds1\<lparr>pressed := cur\<rparr>))"

definition mouse_field :: "u8 list \<Rightarrow> ReportField \<Rightarrow> MousePacket \<Rightarrow> MousePacket" where
  "mouse_field report f p =
     (let value = ExtractField f report in
      if fd_usagePage f = page_Button then
        (if value \<noteq> 0 \<and> 1 \<le> fd_usage f \<and> fd_usage f \<le> 5 then p\<lparr>buttons := buttons p OR push_bit (unat (fd_usage f - 1)) 1\<rparr> else p)
      else if fd_usagePage f \<noteq> page_GenericDesktop then p
      else if fd_usage f = gd_X then p\<lparr>dx := value, isAbsolute := \<not> isRelative f\<rparr>
      else if fd_usage f = gd_Y then p\<lparr>dy := value\<rparr>
      else if fd_usage f = gd_Wheel then p\<lparr>wheel := ucast value\<rparr>
      else p)"

definition decode_mouse :: "ReportFormat \<Rightarrow> u8 list \<Rightarrow> MousePacket" where
  "decode_mouse format report =
     fold (mouse_field report) (rf_fields format) \<lparr>dx = 0, dy = 0, wheel = 0, buttons = 0, isAbsolute = False\<rparr>"

definition pad_field :: "u8 list \<Rightarrow> ReportField \<Rightarrow> GamepadState \<Rightarrow> GamepadState" where
  "pad_field report f pad =
     (let value = ExtractField f report in
      if fd_usagePage f = page_Button then
        (if value \<noteq> 0 \<and> 1 \<le> fd_usage f \<and> fd_usage f \<le> 32 then pad\<lparr>pad_buttons := pad_buttons pad OR push_bit (unat (fd_usage f - 1)) 1\<rparr> else pad)
      else if fd_usagePage f \<noteq> page_GenericDesktop then pad
      else if fd_usage f = gd_HatSwitch then
        (case DecodeHat value (logicalMin f) (logicalMax f) of (x, y) \<Rightarrow> pad\<lparr>hatX := x, hatY := y\<rparr>)
      else let slot = GamepadAxisSlot (fd_usage f) in
        if slot < 6 then pad\<lparr>axes := (axes pad)[slot := NormalizeAxis value (logicalMin f) (logicalMax f)]\<rparr> else pad)"

definition decode_gamepad :: "ReportFormat \<Rightarrow> u8 list \<Rightarrow> GamepadState" where
  "decode_gamepad format report = fold (pad_field report) (rf_fields format) new_pad"

text \<open>The events of a report in the order they are pushed. No push depends on the result of an
  earlier one.\<close>

definition decode_report :: "ReportFormat \<Rightarrow> DecoderState \<Rightarrow> u8 list \<Rightarrow> KInputReport list \<times> DecoderState" where
  "decode_report format ds report =
     (if length report < unat (reportBytes format) then ([], ds)
      else if collectionUsage format = gd_Keyboard then decode_keyboard format ds report
      else if collectionUsage format = gd_Mouse \<or> collectionUsage format = gd_Pointer then ([Pointer (decode_mouse format report)], ds)
      else if collectionUsage format = gd_Joystick \<or> collectionUsage format = gd_Gamepad then ([Gamepad (decode_gamepad format report)], ds)
      else ([], ds))"

text \<open>\<open>now i\<close> is the time of the \<open>i\<close>-th push; the results of the pushes are ignored.\<close>

fun push_reports :: "nat \<Rightarrow> hid \<Rightarrow> nat option \<Rightarrow> (nat \<Rightarrow> int) \<Rightarrow> KInputReport list \<Rightarrow> nat \<Rightarrow> input_mgr \<times> wait_sys \<Rightarrow> (input_mgr \<times> wait_sys) option" where
  "push_reports me h device now [] i st = Some st"
| "push_reports me h device now (r # rs) i st =
     (case KE_INPUT_PushEvent me h device r (now i) st of
        None \<Rightarrow> None
      | Some (_, st1) \<Rightarrow> push_reports me h device now rs (Suc i) st1)"

definition SubmitReport ::
  "nat \<Rightarrow> hid \<Rightarrow> nat option \<Rightarrow> (nat \<Rightarrow> int) \<Rightarrow> ReportFormat \<Rightarrow> DecoderState \<Rightarrow> u8 list \<Rightarrow> input_mgr \<times> wait_sys \<Rightarrow>
   (DecoderState \<times> input_mgr \<times> wait_sys) option" where
  "SubmitReport me h device now format ds report st =
     (case decode_report format ds report of (rs, ds1) \<Rightarrow>
       map_option (\<lambda>st1. (ds1, st1)) (push_reports me h device now rs 0 st))"

end
