(* ===== verification/Hid_Correct.thy ===== *)
theory Hid_Correct
  imports Hid_Parser
begin

text \<open>
  What the HID driver promises: a descriptor that is accepted describes disjoint fields inside the
  report, a field is read as the bits of the report taken as one number, a keyboard's presses and
  releases alternate, and an axis is scaled monotonically into its range.
\<close>

subsection \<open>Accepted descriptors\<close>

definition field_end :: "ReportField \<Rightarrow> nat" where
  "field_end f = unat (bitOffset f) + unat (bitSize f)"

definition hid_ok :: "hid_parse \<Rightarrow> bool" where
  "hid_ok st \<longleftrightarrow> length (rf_fields (hp_format st)) \<le> kMaxFields \<and> length (hp_localUsages st) \<le> kMaxLocalUsages \<and>
     hp_depth st \<ge> 0 \<and> unat (hp_bitOffset st) \<le> 0xFFFF \<and>
     sorted_wrt (\<lambda>f g. field_end f \<le> unat (bitOffset g)) (rf_fields (hp_format st)) \<and>
     (\<forall>f\<in>set (rf_fields (hp_format st)). 0 < bitSize f \<and> bitSize f \<le> 32 \<and> field_end f \<le> unat (hp_bitOffset st))"

lemma new_field_ok:
  assumes "unat (hp_bitOffset st) \<le> 0xFFFF" "0 < hp_reportSize st" "hp_reportSize st \<le> 32"
  shows "unat (bitOffset (new_field fl n st)) = unat (hp_bitOffset st)" "unat (bitSize (new_field fl n st)) = unat (hp_reportSize st)"
proof -
  have "unat (hp_reportSize st) \<le> 32" using assms(3) by (simp add: word_le_nat_alt)
  then show "unat (bitOffset (new_field fl n st)) = unat (hp_bitOffset st)" "unat (bitSize (new_field fl n st)) = unat (hp_reportSize st)"
    using assms(1) by (simp_all add: new_field_def Let_def unsigned_ucast_eq take_bit_nat_eq_self)
qed

lemma input_fields_ok:
  assumes "hid_ok st" "0 < hp_reportSize st" "hp_reportSize st \<le> 32" "input_fields k n fl st = Inr st'"
  shows "hid_ok st'"
  using assms
proof (induction k arbitrary: n st)
  case (Suc k)
  have rs: "0 < unat (hp_reportSize st)" "unat (hp_reportSize st) \<le> 32" using Suc.prems(2,3) by (simp_all add: word_less_nat_alt word_le_nat_alt)
  have off: "unat (hp_bitOffset st) \<le> 0xFFFF" using Suc.prems(1) by (simp add: hid_ok_def)
  then have sum: "unat (hp_bitOffset st + hp_reportSize st) = unat (hp_bitOffset st) + unat (hp_reportSize st)"
    using rs by (simp add: unat_word_ariths)
  have fit: "\<not> hp_bitOffset st + hp_reportSize st > 0xFFFF" using Suc.prems(4) by (auto split: if_splits)
  then have le: "unat (hp_bitOffset st) + unat (hp_reportSize st) \<le> 0xFFFF" unfolding sum [symmetric] by (simp add: word_less_nat_alt not_less)
  show ?case
  proof (cases "fl AND 1 = 0")
    case False
    let ?st = "st\<lparr>hp_bitOffset := hp_bitOffset st + hp_reportSize st\<rparr>"
    have "hid_ok ?st" using Suc.prems(1) le sum by (fastforce simp: hid_ok_def)
    moreover have "input_fields k (n + 1) fl ?st = Inr st'" using Suc.prems(4) False fit by simp
    ultimately show ?thesis using Suc.IH Suc.prems(2,3) by simp
  next
    case True
    let ?f = "new_field fl n st"
    let ?st = "st\<lparr>hp_format := (hp_format st)\<lparr>rf_fields := rf_fields (hp_format st) @ [?f]\<rparr>, hp_bitOffset := hp_bitOffset st + hp_reportSize st\<rparr>"
    note nf = new_field_ok [OF off Suc.prems(2,3), of fl n]
    have len: "length (rf_fields (hp_format st)) < kMaxFields" and run: "input_fields k (n + 1) fl ?st = Inr st'"
      using Suc.prems(4) True fit by (auto split: if_splits)
    have "0 < bitSize ?f \<and> bitSize ?f \<le> 32" using nf rs by (simp add: word_less_nat_alt word_le_nat_alt)
    then have "hid_ok ?st" using Suc.prems(1) le sum len nf by (fastforce simp: hid_ok_def sorted_wrt_append field_end_def)
    with run show ?thesis using Suc.IH Suc.prems(2,3) by simp
  qed
qed simp

lemma clear_locals_ok: "hid_ok st \<Longrightarrow> hid_ok (clear_locals st)"
  by (simp add: hid_ok_def clear_locals_def)

lemma parse_item_ok:
  assumes "hid_ok st" "parse_item header data st = Inr st'"
  shows "hid_ok st'"
proof -
  have g: "hid_ok (global_item tag data st)" for tag using assms(1) by (simp add: global_item_def hid_ok_def)
  have l: "hid_ok s" if "local_item tag data st = Inr s" for tag s
    using that assms(1) by (auto simp: local_item_def hid_ok_def split: if_splits)
  have o: "hid_ok (open_collection st)" using assms(1) by (simp add: open_collection_def Let_def hid_ok_def)
  have i: "hid_ok s" if "\<not> (hp_reportSize st = 0 \<or> hp_reportSize st > 32)" "input_fields k n fl st = Inr s" for k n fl s
    using input_fields_ok [OF assms(1) _ _ that(2)] that(1) by (simp add: word_greater_zero_iff not_less)
  have m: "hid_ok s" if "main_item tag data st = Inr s" for tag s
  proof -
    have cl: "hid_ok t" if "map_sum id clear_locals x = Inr t" "\<And>y. x = Inr y \<Longrightarrow> hid_ok y" for x t
      using that clear_locals_ok by (cases x) auto
    show ?thesis using that unfolding main_item_def
    proof (rule cl)
      fix y assume y: "(if tag = 0xA then Inr (open_collection st)
        else if tag = 0xC then (if hp_depth st - 1 < 0 then Inl InvalidFormat else Inr (st\<lparr>hp_depth := hp_depth st - 1\<rparr>))
        else if tag = 0x8 then (if hp_reportSize st = 0 \<or> hp_reportSize st > 32 then Inl InvalidFormat
           else input_fields (unat (hp_reportCount st)) 0 (UnsignedItemData data) st)
        else Inr st) = Inr y"
      show "hid_ok y"
      proof (cases "tag = 0x8")
        case True
        then show ?thesis using y i by (auto split: if_splits)
      next
        case False
        then show ?thesis using y o assms(1) by (auto simp: hid_ok_def split: if_splits)
      qed
    qed
  qed
  show ?thesis using assms(2) g l m unfolding parse_item_def Let_def by (auto split: if_splits)
qed

lemma parse_items_ok: "parse_items d st = Inr st' \<Longrightarrow> hid_ok st \<Longrightarrow> hid_ok st'"
proof (induction d st rule: parse_items.induct)
  case (2 header rest st)
  then obtain st1 where s: "header \<noteq> 0xFE" "\<not> length rest < item_size header" "parse_item header (take (item_size header) rest) st = Inr st1"
    "parse_items (drop (item_size header) rest) st1 = Inr st'"
    by (auto split: if_splits sum.splits)
  show ?case by (rule 2(1) [OF s parse_item_ok [OF 2(3) s(3)]])
qed simp

lemma hid_start_ok: "hid_ok hid_start"
  by (simp add: hid_ok_def hid_start_def)

text \<open>C11. Accepted descriptors. The parser of report descriptors always comes to a decision. A
  descriptor it accepts has between 1 and 48 fields of 1 to 32 bits each, in the order of the
  report, no two sharing a bit and none reaching past the report's length in bytes, which is at
  most 8192. So a report of that length contains every field.\<close>

theorem parse_descriptor_spec:
  assumes "ParseReportDescriptor descriptor = Inr format"
  shows "0 < length (rf_fields format) \<and> length (rf_fields format) \<le> kMaxFields \<and> unat (reportBytes format) \<le> 8192 \<and>
    sorted_wrt (\<lambda>f g. field_end f \<le> unat (bitOffset g)) (rf_fields format) \<and>
    (\<forall>f\<in>set (rf_fields format). 0 < bitSize f \<and> bitSize f \<le> 32 \<and> field_end f \<le> 8 * unat (reportBytes format))"
proof -
  obtain st where st: "parse_items descriptor hid_start = Inr st" "rf_fields (hp_format st) \<noteq> []"
    "format = (hp_format st)\<lparr>reportBytes := (hp_bitOffset st + 7) div 8\<rparr>"
    using assms by (auto simp: ParseReportDescriptor_def split: sum.splits if_splits)
  note ok = parse_items_ok [OF st(1) hid_start_ok, unfolded hid_ok_def]
  have "unat (hp_bitOffset st + 7) = unat (hp_bitOffset st) + 7" using ok by (simp add: unat_word_ariths)
  then have rb: "unat (reportBytes format) = (unat (hp_bitOffset st) + 7) div 8" by (simp add: st(3) unat_div)
  have "unat (hp_bitOffset st) \<le> 8 * ((unat (hp_bitOffset st) + 7) div 8)" by linarith
  moreover have "(unat (hp_bitOffset st) + 7) div 8 \<le> 8192"
  proof -
    have "unat (hp_bitOffset st) \<le> 65535" using ok by blast
    then show ?thesis by linarith
  qed
  ultimately show ?thesis unfolding rb using ok st(2) by (fastforce simp: st(3))
qed

subsection \<open>Reading a field\<close>

text \<open>The report as one number, least significant byte first.\<close>

fun report_number :: "u8 list \<Rightarrow> int" where
  "report_number [] = 0"
| "report_number (b # bs) = uint b + 256 * report_number bs"

lemma bit_report_number:
  "bit (report_number r) j \<longleftrightarrow> j < 8 * length r \<and> bit (r ! (j div 8)) (j mod 8)"
proof (induction r arbitrary: j)
  case (Cons b bs)
  have e: "report_number (b # bs) = uint b OR push_bit 8 (report_number bs)"
  proof -
    have "uint b AND push_bit 8 (report_number bs) = 0"
      by (rule bit_eqI) (auto simp: bit_and_iff bit_push_bit_iff bit_uint_iff)
    from disjunctive_add_eq_or [OF this] show ?thesis by (simp add: push_bit_eq_mult mult.commute)
  qed
  show ?case
  proof (cases "j < 8")
    case True
    then show ?thesis unfolding e by (simp add: bit_or_iff bit_push_bit_iff bit_uint_iff)
  next
    case False
    then obtain i where i: "j = i + 8" by (metis add.commute le_Suc_ex not_less)
    have "\<not> bit (uint b) j" using False by (simp add: bit_uint_iff)
    moreover have "(i + 8) div 8 = Suc (i div 8)" by simp
    ultimately show ?thesis unfolding e using Cons.IH [of i] by (simp add: bit_or_iff bit_push_bit_iff i)
  qed
qed simp

lemma byte_test: "(ucast (x :: u8) AND push_bit n 1 \<noteq> (0 :: u32)) = (n < 8 \<and> bit x n)" if "n < 8"
proof -
  have "ucast x AND push_bit n 1 = (if bit x n then push_bit n 1 else (0 :: u32))"
    by (rule bit_word_eqI) (use that in \<open>auto simp: bit_and_iff bit_ucast_iff bit_exp_iff\<close>)
  moreover have "push_bit n 1 \<noteq> (0 :: u32)"
  proof
    assume "push_bit n 1 = (0 :: u32)"
    moreover have "bit (push_bit n 1 :: u32) n" using that by (simp add: bit_exp_iff)
    ultimately show False by (simp del: push_bit_of_1)
  qed
  ultimately show ?thesis using that by simp
qed

lemma bit_extract_loop:
  "i < 32 \<Longrightarrow> bit (extract_loop k b f r raw) i \<longleftrightarrow> bit raw i \<or> b \<le> i \<and> i < b + k \<and> bit (report_number r) (unat (bitOffset f) + i)"
proof (induction k arbitrary: b raw)
  case (Suc k)
  let ?a = "unat (bitOffset f) + b"
  show ?case
  proof (cases "?a div 8 \<ge> length r")
    case True
    have "\<not> bit (report_number r) (unat (bitOffset f) + i)" if "b \<le> i"
    proof -
      have "8 * length r \<le> ?a" using True by linarith
      then show ?thesis using that by (simp add: bit_report_number)
    qed
    then show ?thesis using True by auto
  next
    case False
    then have lt: "?a < 8 * length r" by linarith
    let ?raw = "if ucast (r ! (?a div 8)) AND push_bit (?a mod 8) 1 \<noteq> (0 :: u32) then raw OR push_bit b 1 else raw"
    have t: "(ucast (r ! (?a div 8)) AND push_bit (?a mod 8) 1 \<noteq> (0 :: u32)) = bit (report_number r) ?a"
      using byte_test [of "?a mod 8" "r ! (?a div 8)"] lt by (simp add: bit_report_number)
    have "bit ?raw i \<longleftrightarrow> bit raw i \<or> i = b \<and> bit (report_number r) ?a"
      unfolding t using Suc.prems by (auto simp: bit_or_iff bit_exp_iff)
    moreover have "extract_loop (Suc k) b f r raw = extract_loop k (Suc b) f r ?raw" using False by (simp add: Let_def)
    ultimately show ?thesis using Suc.IH [OF Suc.prems, of "Suc b" ?raw] by (auto simp: Suc_le_eq le_less)
  qed
qed auto

lemma sign_bit_test: "n < 32 \<Longrightarrow> (x AND push_bit n 1 \<noteq> (0 :: u32)) = bit x n"
proof -
  assume n: "n < 32"
  have "x AND push_bit n 1 = (if bit x n then push_bit n 1 else 0)"
    by (rule bit_word_eqI) (auto simp: bit_and_iff bit_exp_iff)
  moreover have "bit (push_bit n 1 :: u32) n" using n by (simp add: bit_exp_iff)
  ultimately show ?thesis by (auto simp del: push_bit_of_1)
qed

lemma bit_high_mask: "n < 32 \<Longrightarrow> bit (NOT (push_bit n 1 - 1) :: u32) i = (n \<le> i \<and> i < 32)"
proof -
  assume "n < 32"
  have "push_bit n 1 - 1 = (Bit_Operations.mask n :: u32)" by (simp add: mask_eq_exp_minus_1)
  then show ?thesis by (auto simp: bit_not_iff bit_mask_iff)
qed

text \<open>Reading a field. For a field of 1 to 32 bits, \<open>ExtractField\<close> is the slice of the report, read as
  one little-endian number, at the field's offset: the two's complement value when the
  declared minimum is negative, the unsigned value otherwise. Bits past the end of the report
  read as zero and no byte outside the report is touched.\<close>

theorem extract_field_spec:
  assumes "0 < bitSize f" "bitSize f \<le> 32"
  shows "ExtractField f report =
    (let x = drop_bit (unat (bitOffset f)) (report_number report); n = unat (bitSize f) in
     word_of_int (if sint (logicalMin f) < 0 then signed_take_bit (n - 1) x else take_bit n x))"
proof -
  define n where "n = unat (bitSize f)"
  define x where "x = drop_bit (unat (bitOffset f)) (report_number report)"
  define raw where "raw = extract_loop n 0 f report 0"
  have n: "0 < n" "n \<le> 32" using assms by (simp_all add: n_def word_less_nat_alt word_le_nat_alt)
  have nlt: "bitSize f < 32 \<longleftrightarrow> n < 32" by (simp add: n_def word_less_nat_alt)
  have r: "bit raw i \<longleftrightarrow> i < n \<and> bit x i" if "i < 32" for i
    unfolding raw_def x_def using bit_extract_loop [OF that, of n 0 f report 0] by (simp add: bit_drop_bit_eq)
  have e: "ExtractField f report = (if sint (logicalMin f) < 0 \<and> n < 32 \<and> bit raw (n - 1) then raw OR NOT (push_bit n 1 - 1) else raw)"
    unfolding ExtractField_def Let_def nlt n_def [symmetric] raw_def [symmetric] using sign_bit_test [of "n - 1" raw] n by simp
  have "bit (ExtractField f report) i =
      bit (word_of_int (if sint (logicalMin f) < 0 then signed_take_bit (n - 1) x else take_bit n x) :: u32) i" if i: "i < 32" for i
  proof -
    have s: "bit raw (n - 1) = bit x (n - 1)" using r [of "n - 1"] n by simp
    have w: "bit (word_of_int y :: u32) i = bit y i" for y using i by (simp add: bit_word_of_int_iff)
    show ?thesis
    proof (cases "i < n")
      case True
      then have "i = n - 1 \<or> i < n - 1" by linarith
      then have "bit (signed_take_bit (n - 1) x) i = bit x i" by (auto simp: bit_signed_take_bit_iff min_def)
      then show ?thesis unfolding e w using r [OF i] True bit_high_mask [of n i]
        by (auto simp: bit_or_iff bit_take_bit_iff simp del: push_bit_of_1)
    next
      case False
      then have "min (n - 1) i = n - 1" by simp
      then have "bit (signed_take_bit (n - 1) x) i = bit x (n - 1)" by (simp only: bit_signed_take_bit_iff) simp
      then show ?thesis unfolding e w using r [OF i] False bit_high_mask [of n i] s i
        by (auto simp: bit_or_iff bit_take_bit_iff simp del: push_bit_of_1)
    qed
  qed
  then have "ExtractField f report = word_of_int (if sint (logicalMin f) < 0 then signed_take_bit (n - 1) x else take_bit n x)"
    by (intro bit_word_eqI) simp
  then show ?thesis by (simp add: n_def x_def Let_def)
qed

subsection \<open>Scaling an axis\<close>

lemma sint_16: "- 32768 \<le> x \<Longrightarrow> x \<le> 32767 \<Longrightarrow> sint (word_of_int x :: u16) = x"
  by (simp add: signed_of_int signed_take_bit_int_eq_self)

definition axis_value :: "int \<Rightarrow> int \<Rightarrow> int \<Rightarrow> int" where
  "axis_value v lo hi = (min (max v lo) hi - lo) * 65534 div (hi - lo) - 32767"

lemma axis_top:
  assumes "lo < (hi :: int)"
  shows "(hi * 65534 - lo * 65534) div (hi - lo) = 65534"
proof -
  have e: "hi * 65534 - lo * 65534 = 65534 * (hi - lo)" by (simp add: algebra_simps)
  show ?thesis unfolding e by (rule nonzero_mult_div_cancel_right) (use assms in simp)
qed

lemma axis_value_range:
  assumes "lo < hi"
  shows "- 32767 \<le> axis_value v lo hi" "axis_value v lo hi \<le> 32767"
proof -
  let ?c = "min (max v lo) hi - lo"
  have c: "0 \<le> ?c" "?c \<le> hi - lo" using assms by auto
  then show "- 32767 \<le> axis_value v lo hi" using assms by (simp add: axis_value_def pos_imp_zdiv_nonneg_iff)
  have "?c * 65534 \<le> (hi - lo) * 65534" using c by (intro mult_right_mono) auto
  then have "?c * 65534 div (hi - lo) \<le> (hi - lo) * 65534 div (hi - lo)" using assms by (intro zdiv_mono1) auto
  then show "axis_value v lo hi \<le> 32767" using assms by (simp add: axis_value_def axis_top)
qed

lemma NormalizeAxis_eq:
  assumes "sint lmin < sint lmax"
  shows "sint (NormalizeAxis value lmin lmax) = axis_value (sint value) (sint lmin) (sint lmax)"
proof -
  have "NormalizeAxis value lmin lmax = word_of_int (axis_value (sint value) (sint lmin) (sint lmax))"
    using assms by (auto simp: NormalizeAxis_def axis_value_def Let_def min_def max_def axis_top)
  then show ?thesis using axis_value_range [OF assms, of "sint value"] by (simp add: sint_16)
qed

text \<open>Scaling an axis. For a declared range that is not empty, \<open>NormalizeAxis\<close> maps every raw value
  into the range from -32767 to 32767, monotonically, with the ends of the declared range (and
  everything beyond them) going to the two ends; the intermediate product needs no more than
  48 bits.\<close>

theorem normalize_axis_spec:
  assumes "sint lmin < sint lmax"
  shows "- 32767 \<le> sint (NormalizeAxis v lmin lmax) \<and> sint (NormalizeAxis v lmin lmax) \<le> 32767 \<and>
    (sint v \<le> sint lmin \<longrightarrow> sint (NormalizeAxis v lmin lmax) = - 32767) \<and>
    (sint v \<ge> sint lmax \<longrightarrow> sint (NormalizeAxis v lmin lmax) = 32767) \<and>
    (sint v \<le> sint w \<longrightarrow> sint (NormalizeAxis v lmin lmax) \<le> sint (NormalizeAxis w lmin lmax)) \<and>
    \<bar>(sint v - sint lmin) * 65534\<bar> < 2 ^ 48"
proof -
  note e = NormalizeAxis_eq [OF assms]
  have "axis_value (sint v) (sint lmin) (sint lmax) \<le> axis_value (sint w) (sint lmin) (sint lmax)" if "sint v \<le> sint w"
  proof -
    have "(min (max (sint v) (sint lmin)) (sint lmax) - sint lmin) * 65534 \<le> (min (max (sint w) (sint lmin)) (sint lmax) - sint lmin) * 65534"
      using that by simp
    then show ?thesis unfolding axis_value_def using assms by (simp add: zdiv_mono1)
  qed
  moreover have "\<bar>(sint v - sint lmin) * 65534\<bar> < 2 ^ 48"
    using sint_greater_eq [of v] sint_greater_eq [of lmin] sint_less [of v] sint_less [of lmin] by simp
  ultimately show ?thesis unfolding e using axis_value_range [OF assms, of "sint v"] assms
    by (auto simp: axis_value_def axis_top)
qed

theorem normalize_axis_spec_witness:
  "sint (NormalizeAxis 0 0 255) = - 32767 \<and> sint (NormalizeAxis 300 0 255) = 32767"
  using normalize_axis_spec [of 0 255 0 0] normalize_axis_spec [of 0 255 300 0] by simp

subsection \<open>Key transitions\<close>

text \<open>The usages a keyboard report names as down.\<close>

definition names_key :: "u8 list \<Rightarrow> ReportField \<Rightarrow> u16 \<Rightarrow> bool" where
  "names_key report f u \<longleftrightarrow> fd_usagePage f = page_Keyboard \<and> u \<noteq> 0 \<and>
     (if isArray f then u = ucast (ExtractField f report) else u = fd_usage f \<and> ExtractField f report \<noteq> 0)"

definition keys_down :: "ReportFormat \<Rightarrow> u8 list \<Rightarrow> u16 set" where
  "keys_down format report = {u. \<exists>f\<in>set (rf_fields format). names_key report f u}"

lemma ContainsUsage_iff [simp]: "ContainsUsage us u \<longleftrightarrow> u \<in> set us"
  by (auto simp: ContainsUsage_def list_ex_iff)

lemma current_keys_spec:
  assumes "current_keys fs report cur held = (cur', held')" "distinct cur" "length cur \<le> kMaxPressed"
  shows "distinct cur' \<and> length cur' \<le> kMaxPressed \<and> length cur \<le> length cur' \<and> set cur \<subseteq> set cur' \<and>
    set cur' \<subseteq> set cur \<union> {u. \<exists>f\<in>set fs. names_key report f u} \<and>
    (length cur' < kMaxPressed \<longrightarrow> {u. \<exists>f\<in>set fs. names_key report f u} \<subseteq> set cur')"
  using assms
proof (induction fs arbitrary: cur held)
  case (Cons f fs)
  let ?u = "if isArray f then ucast (ExtractField f report) else fd_usage f"
  let ?skip = "fd_usagePage f \<noteq> page_Keyboard \<or> ?u = 0 \<or> \<not> isArray f \<and> ExtractField f report = 0 \<or> ContainsUsage cur ?u \<or> length cur \<ge> kMaxPressed"
  have nk: "names_key report f u \<longleftrightarrow> fd_usagePage f = page_Keyboard \<and> u = ?u \<and> u \<noteq> 0 \<and> (isArray f \<or> ExtractField f report \<noteq> 0)" for u
    by (auto simp: names_key_def)
  show ?case
  proof (cases ?skip)
    case True
    then have "current_keys fs report cur held = (cur', held')" using Cons.prems(1) by (simp add: Let_def)
    note IH = Cons.IH [OF this Cons.prems(2,3)]
    have "u \<in> set cur \<or> length cur \<ge> kMaxPressed" if "names_key report f u" for u using that True by (auto simp: nk)
    with IH show ?thesis by fastforce
  next
    case False
    let ?cur = "cur @ [?u]"
    have run: "current_keys fs report ?cur (held OR HeldModifierFlag ?u) = (cur', held')"
      using Cons.prems(1) False by (simp only: current_keys.simps Let_def if_False)
    have d: "distinct ?cur" "length ?cur \<le> kMaxPressed" using Cons.prems(2) False by auto
    define u where "u = ?u"
    have "names_key report f w \<longleftrightarrow> w = u" for w unfolding nk u_def using False by auto
    then have S: "{w. \<exists>g\<in>set (f # fs). names_key report g w} = insert u {w. \<exists>g\<in>set fs. names_key report g w}" by auto
    show ?thesis using Cons.IH [OF run d] unfolding S u_def [symmetric] by auto
  qed
qed simp

text \<open>A transition is a usage, whether it is a release, and the modifiers of its event. Replaying
  transitions on the set of held keys fails on a press of a held key or a release of a free one.\<close>

type_synonym transition = "u16 \<times> bool \<times> u32"

fun replay :: "transition list \<Rightarrow> u16 set \<Rightarrow> u16 set option" where
  "replay [] H = Some H"
| "replay ((u, br, m) # ts) H = (if br = (u \<in> H) then replay ts (if br then H - {u} else insert u H) else None)"

definition event_of :: "transition \<Rightarrow> KInputReport" where
  "event_of t = (case t of (u, br, m) \<Rightarrow> Key (MakeKeyEvent u br m))"

definition locks_after :: "transition list \<Rightarrow> u32 \<Rightarrow> u32" where
  "locks_after ts l = fold (\<lambda>(u, br, m) l. if br then l else l XOR LockModifierFlag u) ts l"

lemma replay_append: "replay (a @ b) H = (case replay a H of None \<Rightarrow> None | Some H' \<Rightarrow> replay b H')"
  by (induction a H rule: replay.induct) auto

lemma replay_releases: "distinct us \<Longrightarrow> set us \<subseteq> H \<Longrightarrow> replay (map (\<lambda>u. (u, True, m)) us) H = Some (H - set us)"
proof (induction us arbitrary: H)
  case (Cons u us)
  then have "replay (map (\<lambda>u. (u, True, m)) us) (H - {u}) = Some (H - {u} - set us)" by (intro Cons.IH) auto
  moreover have "H - {u} - set us = H - set (u # us)" by auto
  ultimately show ?case using Cons.prems by simp
qed simp

lemma press_events_spec:
  assumes "press_events us held st = (es, st')" "distinct us" "\<forall>u\<in>set us. u \<notin> set (pressed st) \<longrightarrow> u \<notin> H"
  shows "\<exists>ts. es = map event_of ts \<and> replay ts H = Some (H \<union> (set us - set (pressed st))) \<and>
    lockModifiers st' = locks_after ts (lockModifiers st) \<and> pressed st' = pressed st"
  using assms
proof (induction us arbitrary: st es H)
  case Nil
  then show ?case by (intro exI [of _ "[]"]) (simp add: locks_after_def)
next
  case (Cons u us)
  show ?case
  proof (cases "u \<in> set (pressed st)")
    case True
    then have "press_events us held st = (es, st')" using Cons.prems(1) by simp
    moreover have "set (u # us) - set (pressed st) = set us - set (pressed st)" using True by auto
    ultimately show ?thesis using Cons.IH [of st es H] Cons.prems(2,3) by simp
  next
    case False
    let ?st = "st\<lparr>lockModifiers := lockModifiers st XOR LockModifierFlag u\<rparr>"
    obtain es1 where es: "press_events us held ?st = (es1, st')" "es = Key (MakeKeyEvent u False (held OR lockModifiers ?st)) # es1"
      using Cons.prems(1) False by (auto simp: Let_def split: prod.splits)
    have "\<forall>w\<in>set us. w \<notin> set (pressed ?st) \<longrightarrow> w \<notin> insert u H" using Cons.prems(2,3) by auto
    from Cons.IH [OF es(1) _ this] Cons.prems(2) obtain ts where ts: "es1 = map event_of ts"
      "replay ts (insert u H) = Some (insert u H \<union> (set us - set (pressed st)))" "lockModifiers st' = locks_after ts (lockModifiers ?st)"
      "pressed st' = pressed st" by auto
    have "insert u H \<union> (set us - set (pressed st)) = H \<union> (set (u # us) - set (pressed st))" using False by auto
    with ts es(2) Cons.prems(3) False show ?thesis
      by (intro exI [of _ "(u, False, held OR lockModifiers ?st) # ts"]) (simp add: event_of_def locks_after_def)
  qed
qed

lemma decode_keyboard_transitions:
  assumes "collectionUsage format = gd_Keyboard" "unat (reportBytes format) \<le> length report" "distinct (pressed ds)"
    "decode_report format ds report = (rs, ds')"
  shows "\<exists>ts. rs = map event_of ts \<and> replay ts (set (pressed ds)) = Some (set (pressed ds')) \<and>
    lockModifiers ds' = locks_after ts (lockModifiers ds) \<and>
    distinct (pressed ds') \<and> length (pressed ds') \<le> kMaxPressed \<and> set (pressed ds') \<subseteq> keys_down format report \<and>
    (length (pressed ds') < kMaxPressed \<longrightarrow> set (pressed ds') = keys_down format report)"
proof -
  obtain cur held where c: "current_keys (rf_fields format) report [] 0 = (cur, held)" by (cases "current_keys (rf_fields format) report [] 0")
  obtain downs ds1 where d: "press_events cur held ds = (downs, ds1)" by (cases "press_events cur held ds")
  have r: "rs = release_events cur held ds @ downs" "ds' = ds1\<lparr>pressed := cur\<rparr>"
    using assms(1,2,4) c d by (simp_all add: decode_report_def decode_keyboard_def)
  note k = current_keys_spec [OF c]
  let ?rel = "filter (\<lambda>u. u \<notin> set cur) (pressed ds)" and ?H = "set (pressed ds) \<inter> set cur"
  let ?ups = "map (\<lambda>u. (u, True, held OR lockModifiers ds)) ?rel"
  have u: "replay ?ups (set (pressed ds)) = Some ?H"
    using replay_releases [of ?rel "set (pressed ds)"] assms(3) by (simp add: Diff_eq set_eq_iff) (metis (lifting))
  have "\<forall>u\<in>set cur. u \<notin> set (pressed ds) \<longrightarrow> u \<notin> ?H" by simp
  from press_events_spec [OF d _ this] k obtain ts where ts: "downs = map event_of ts"
    "replay ts ?H = Some (?H \<union> (set cur - set (pressed ds)))" "lockModifiers ds1 = locks_after ts (lockModifiers ds)" by auto
  have e: "?H \<union> (set cur - set (pressed ds)) = set cur" by auto
  have lu: "locks_after (map (\<lambda>u. (u, True, m)) us @ ts) l = locks_after ts l" for us m l
    by (induction us) (simp_all add: locks_after_def)
  have "rs = map event_of (?ups @ ts)" by (simp add: r(1) ts(1) release_events_def event_of_def)
  moreover have "replay (?ups @ ts) (set (pressed ds)) = Some (set (pressed ds'))" using u ts(2) e by (simp add: replay_append r(2))
  moreover have "lockModifiers ds' = locks_after (?ups @ ts) (lockModifiers ds)" using ts(3) by (simp add: lu r(2))
  ultimately show ?thesis using k r(2) by (intro exI [of _ "?ups @ ts"]) (auto simp: keys_down_def)
qed

text \<open>Key transitions. A keyboard report of sufficient length, decoded against a state whose held
  keys are distinct, yields releases and then presses whose replay starts from the keys held before and
  never presses a held key or releases a free one; it ends in the new set of held keys. That
  set holds only keys the report names, at most 16, and all of them when fewer than 16 are held.
  The lock state is toggled once per press of a lock key.\<close>

theorem keyboard_report_spec:
  assumes "collectionUsage format = gd_Keyboard" "unat (reportBytes format) \<le> length report" "distinct (pressed ds)"
    "decode_report format ds report = (rs, ds')"
  shows "\<exists>ts. rs = map event_of ts \<and> replay ts (set (pressed ds)) = Some (set (pressed ds')) \<and>
    lockModifiers ds' = locks_after ts (lockModifiers ds) \<and>
    distinct (pressed ds') \<and> length (pressed ds') \<le> kMaxPressed \<and> set (pressed ds') \<subseteq> keys_down format report \<and>
    (length (pressed ds') < kMaxPressed \<longrightarrow> set (pressed ds') = keys_down format report)"
  by (rule decode_keyboard_transitions [OF assms])

subsection \<open>A concrete keyboard\<close>

definition demo_descriptor :: "u8 list" where
  "demo_descriptor = [0x05, 0x01, 0x09, 0x06, 0xA1, 0x01, 0x05, 0x07, 0x19, 0xE0, 0x29, 0xE1, 0x75, 0x01, 0x95, 0x02, 0x81, 0x02,
     0x75, 0x06, 0x95, 0x01, 0x81, 0x01, 0x75, 0x08, 0x95, 0x02, 0x81, 0x00, 0xC0]"

definition demo_modifier :: "u16 \<Rightarrow> u16 \<Rightarrow> ReportField" where
  "demo_modifier u i = \<lparr>fd_usagePage = 7, fd_usage = u, bitOffset = i, bitSize = 1, isRelative = False, isArray = False, logicalMin = 0, logicalMax = 0\<rparr>"

definition demo_slot :: "u16 \<Rightarrow> ReportField" where
  "demo_slot i = \<lparr>fd_usagePage = 7, fd_usage = 0, bitOffset = i, bitSize = 8, isRelative = False, isArray = True, logicalMin = 0, logicalMax = 0\<rparr>"

definition demo_format :: ReportFormat where
  "demo_format = \<lparr>rf_fields = [demo_modifier 0xE0 0, demo_modifier 0xE1 1, demo_slot 8, demo_slot 16], reportId = 0, reportBytes = 3, collectionUsage = 6\<rparr>"

lemma demo_parse: "ParseReportDescriptor demo_descriptor = Inr demo_format"
  by code_simp

theorem parse_descriptor_spec_witness:
  "ParseReportDescriptor demo_descriptor = Inr demo_format \<and> list_all (\<lambda>f. field_end f \<le> 24) (rf_fields demo_format)"
  using parse_descriptor_spec [OF demo_parse] demo_parse by (simp add: demo_format_def)

theorem extract_field_spec_witness:
  "ExtractField (demo_slot 8) [0x02, 0x04, 0x05] = word_of_int (take_bit 8 (drop_bit 8 (report_number [0x02, 0x04, 0x05])))"
  using extract_field_spec [of "demo_slot 8" "[0x02, 0x04, 0x05]"] by (simp add: demo_slot_def Let_def)

definition demo_decoder :: DecoderState where
  "demo_decoder = \<lparr>pressed = [5], lockModifiers = 0\<rparr>"

theorem keyboard_report_spec_witness:
  "\<exists>ts. fst (decode_report demo_format demo_decoder [0x02, 0x04, 0]) = map event_of ts \<and> replay ts {5} = Some {0xE1, 4}"
proof -
  let ?r = "[0x02, 0x04, 0] :: u8 list"
  have h: "collectionUsage demo_format = gd_Keyboard" "unat (reportBytes demo_format) \<le> length ?r" "distinct (pressed demo_decoder)"
    by (simp_all add: demo_format_def demo_decoder_def)
  have d: "decode_report demo_format demo_decoder ?r = (fst (decode_report demo_format demo_decoder ?r), snd (decode_report demo_format demo_decoder ?r))"
    by simp
  have "pressed (snd (decode_report demo_format demo_decoder ?r)) = [0xE1, 4]" by code_simp
  moreover have "pressed demo_decoder = [5]" by (simp add: demo_decoder_def)
  ultimately show ?thesis using keyboard_report_spec [OF h d] by auto
qed

end
