(* ===== verification/Interrupt_Dispatch.thy ===== *)
theory Interrupt_Dispatch
  imports Ring_Buffers Wait
begin

text \<open>
  Interrupt dispatch: the handler registry of \<open>dispatch.hpp\<close> and the entry points and the
  worker loop of \<open>dispatch.cpp\<close>. An interrupt service routine object is named by its
  address (\<open>None\<close> is null); \<open>runs_isr\<close> tells whether its \<open>service_routine\<close> is set. The vector
  of slots is a list that only grows or is cleared.
\<close>

abbreviation kMaxHandlersPerInterrupt :: nat where "kMaxHandlersPerInterrupt \<equiv> 4"

record Slot =
  interruptId :: u32
  active :: bool
  handlers :: "nat option list"
  count :: nat

definition new_slot :: Slot where
  "new_slot = \<lparr>interruptId = 0, active = False, handlers = replicate kMaxHandlersPerInterrupt None, count = 0\<rparr>"

definition slot_for :: "u32 \<Rightarrow> Slot \<Rightarrow> bool" where
  "slot_for irqid s = (active s \<and> interruptId s = irqid)"

definition add_handler :: "nat \<Rightarrow> Slot \<Rightarrow> KernelError \<times> Slot" where
  "add_handler isr s =
     (if Some isr \<in> set (take (count s) (handlers s)) then (Success, s)
      else if count s \<ge> kMaxHandlersPerInterrupt then (ResourceLimitExceeded, s)
      else (Success, s\<lparr>handlers := (handlers s)[count s := Some isr], count := count s + 1\<rparr>))"

text \<open>The scan of \<open>Register\<close>: the slot of the interrupt ends it; otherwise the first free slot is remembered.\<close>

fun register_scan :: "u32 \<Rightarrow> nat \<Rightarrow> Slot list \<Rightarrow> nat \<Rightarrow> nat option \<Rightarrow> (KernelError \<times> nat \<times> Slot) + nat option" where
  "register_scan irqid isr [] i avail = Inr avail"
| "register_scan irqid isr (s # ss) i avail =
     (if slot_for irqid s then (case add_handler isr s of (e, s') \<Rightarrow> Inl (e, i, s'))
      else register_scan irqid isr ss (Suc i) (if \<not> active s \<and> avail = None then Some i else avail))"

definition Registry_Register :: "u32 \<Rightarrow> nat option \<Rightarrow> Slot list \<Rightarrow> KernelError \<times> Slot list" where
  "Registry_Register irqid isr ss =
     (case isr of
        None \<Rightarrow> (InvalidArgument, ss)
      | Some h \<Rightarrow>
          (case register_scan irqid h ss 0 None of
             Inl (e, i, s) \<Rightarrow> (e, ss[i := s])
           | Inr avail \<Rightarrow>
               (let (i, ss1) = (case avail of Some i \<Rightarrow> (i, ss) | None \<Rightarrow> (length ss, ss @ [new_slot])) in
                (Success, ss1[i := (ss1 ! i)\<lparr>interruptId := irqid, active := True,
                   handlers := (handlers (ss1 ! i))[0 := Some h], count := 1\<rparr>]))))"

fun Registry_CopyHandlers :: "u32 \<Rightarrow> Slot list \<Rightarrow> nat option list" where
  "Registry_CopyHandlers irqid [] = []"
| "Registry_CopyHandlers irqid (s # ss) =
     (if \<not> slot_for irqid s then Registry_CopyHandlers irqid ss else take (count s) (handlers s))"

fun Registry_Unregister :: "u32 \<Rightarrow> Slot list \<Rightarrow> KernelError \<times> Slot list" where
  "Registry_Unregister irqid [] = (Success, [])"
| "Registry_Unregister irqid (s # ss) =
     (if \<not> slot_for irqid s then (case Registry_Unregister irqid ss of (e, ss') \<Rightarrow> (e, s # ss'))
      else (Success, s\<lparr>handlers := replicate (count s) None @ drop (count s) (handlers s), count := 0, active := False\<rparr> # ss))"

definition Registry_Reset :: "Slot list \<Rightarrow> Slot list" where
  "Registry_Reset ss = []"

subsection \<open>Entry points and the worker\<close>

definition KE_DISPATCH_EnqueueInterrupt ::
  "nat \<Rightarrow> hid \<Rightarrow> HalInterruptRecord \<Rightarrow> HalInterruptRecord ring \<times> wait_sys \<Rightarrow>
   (KernelError \<times> HalInterruptRecord ring \<times> wait_sys) option" where
  "KE_DISPATCH_EnqueueInterrupt me h rec st =
     (case st of (r, W) \<Rightarrow>
      (case InterruptRecordRing_Push rec r of (status, r1) \<Rightarrow>
        if status = Success
        then (case KE_EVENT_Signal me h False W of None \<Rightarrow> None | Some W1 \<Rightarrow> Some (status, r1, W1))
        else Some (status, r1, W)))"

definition invoked :: "(nat \<Rightarrow> bool) \<Rightarrow> nat option list \<Rightarrow> nat list" where
  "invoked runs_isr hs = [h. Some h \<leftarrow> hs, runs_isr h]"

text \<open>\<open>while (g_interruptRing.Pop(record))\<close>: the routines invoked, in order.\<close>

partial_function (option) dispatch_drain ::
  "(nat \<Rightarrow> bool) \<Rightarrow> Slot list \<Rightarrow> HalInterruptRecord ring \<Rightarrow> nat list \<Rightarrow> (nat list \<times> HalInterruptRecord ring) option" where
  "dispatch_drain runs_isr ss r calls =
     (case InterruptRecordRing_Pop r of
        None \<Rightarrow> Some (calls, r)
      | Some (rec, r1) \<Rightarrow>
          dispatch_drain runs_isr ss r1 (calls @ invoked runs_isr (Registry_CopyHandlers (irq rec) ss)))"

subsection \<open>The registry as a map\<close>

definition slot_ok :: "Slot \<Rightarrow> bool" where
  "slot_ok s = (length (handlers s) = kMaxHandlersPerInterrupt \<and> count s \<le> kMaxHandlersPerInterrupt \<and>
     None \<notin> set (take (count s) (handlers s)) \<and> distinct (take (count s) (handlers s)))"

definition registry_ok :: "Slot list \<Rightarrow> bool" where
  "registry_ok ss = ((\<forall>s\<in>set ss. slot_ok s) \<and> distinct (map interruptId (filter active ss)))"

lemma add_handler_ok:
  assumes "slot_ok s" "add_handler isr s = (e, s')"
  shows "slot_ok s'" "active s' = active s" "interruptId s' = interruptId s"
    "take (count s') (handlers s') =
       (if Some isr \<in> set (take (count s) (handlers s)) \<or> count s = 4 then take (count s) (handlers s)
        else take (count s) (handlers s) @ [Some isr])"
    "e = (if Some isr \<in> set (take (count s) (handlers s)) \<or> count s < 4 then Success else ResourceLimitExceeded)"
proof -
  let ?hs = "take (count s) (handlers s)"
  have l: "length (handlers s) = 4" "count s \<le> 4" using assms(1) by (simp_all add: slot_ok_def)
  have ap: "take (Suc (count s)) ((handlers s)[count s := Some isr]) = ?hs @ [Some isr]" if "count s < 4"
    using that l(1) take_Suc_conv_app_nth [of "count s" "(handlers s)[count s := Some isr]"] by simp
  show "take (count s') (handlers s') = (if Some isr \<in> set ?hs \<or> count s = 4 then ?hs else ?hs @ [Some isr])"
    using assms(2) l ap by (auto simp: add_handler_def split: if_splits)
  show "slot_ok s'"
    using assms l ap by (auto simp: add_handler_def slot_ok_def split: if_splits)
  show "active s' = active s" "interruptId s' = interruptId s"
    "e = (if Some isr \<in> set ?hs \<or> count s < 4 then Success else ResourceLimitExceeded)"
    using assms(2) by (auto simp: add_handler_def split: if_splits)
qed

lemma CopyHandlers_none: "\<forall>s\<in>set ss. \<not> slot_for irqid s \<Longrightarrow> Registry_CopyHandlers irqid ss = []"
  by (induction ss) auto

lemma CopyHandlers_append:
  "\<forall>s\<in>set as. \<not> slot_for irqid s \<Longrightarrow> Registry_CopyHandlers irqid (as @ bs) = Registry_CopyHandlers irqid bs"
  by (induction as) auto

text \<open>Where the scan ends.\<close>

lemma register_scan_found:
  "\<forall>s\<in>set as. \<not> slot_for irqid s \<Longrightarrow> slot_for irqid s \<Longrightarrow>
   register_scan irqid isr (as @ s # bs) i av = (case add_handler isr s of (e, s') \<Rightarrow> Inl (e, i + length as, s'))"
  by (induction as arbitrary: i av) auto

lemma register_scan_none:
  "\<forall>s\<in>set ss. \<not> slot_for irqid s \<Longrightarrow>
   \<exists>av'. register_scan irqid isr ss i av = Inr av' \<and>
     (av' = av \<or> (av = None \<and> (\<exists>k<length ss. av' = Some (i + k) \<and> \<not> active (ss ! k))))"
proof (induction ss arbitrary: i av)
  case (Cons s ss)
  let ?av = "if \<not> active s \<and> av = None then Some i else av"
  from Cons.IH [of "Suc i" ?av] Cons.prems obtain av' where
    1: "register_scan irqid isr ss (Suc i) ?av = Inr av'"
    and 2: "av' = ?av \<or> (?av = None \<and> (\<exists>k<length ss. av' = Some (Suc i + k) \<and> \<not> active (ss ! k)))" by auto
  from 2 have "av' = av \<or> (av = None \<and> (\<exists>k<length (s # ss). av' = Some (i + k) \<and> \<not> active ((s # ss) ! k)))"
  proof
    assume "av' = ?av"
    then show ?thesis by (cases "\<not> active s \<and> av = None") (auto intro: exI [of _ 0])
  next
    assume "?av = None \<and> (\<exists>k<length ss. av' = Some (Suc i + k) \<and> \<not> active (ss ! k))"
    then obtain k where "k < length ss" "av' = Some (Suc i + k)" "\<not> active (ss ! k)" "av = None"
      by (auto split: if_splits)
    then show ?thesis by (intro disjI2 conjI exI [of _ "Suc k"]) auto
  qed
  with 1 Cons.prems show ?case by simp
qed simp

text \<open>Replacing one slot of the registry.\<close>

lemma CopyHandlers_replace:
  assumes "\<forall>x\<in>set as. \<not> slot_for irqid x" "slot_for irqid s'"
  shows "Registry_CopyHandlers irqid (as @ s' # bs) = take (count s') (handlers s')"
  using assms by (simp add: CopyHandlers_append)

lemma CopyHandlers_other:
  assumes "\<not> slot_for irqid s" "\<not> slot_for irqid s'"
  shows "Registry_CopyHandlers irqid (as @ s # bs) = Registry_CopyHandlers irqid (as @ s' # bs)"
  using assms by (induction as) auto

lemma no_slot_iff: "(\<forall>s\<in>set ss. \<not> slot_for irqid s) \<longleftrightarrow> irqid \<notin> set (map interruptId (filter active ss))"
  by (auto simp: slot_for_def)

definition register_result :: "nat \<Rightarrow> nat option list \<Rightarrow> KernelError \<times> nat option list" where
  "register_result h hs =
     (if Some h \<in> set hs then (Success, hs)
      else if length hs = kMaxHandlersPerInterrupt then (ResourceLimitExceeded, hs)
      else (Success, hs @ [Some h]))"

lemma register_found:
  assumes ok: "registry_ok (as @ s # bs)" and na: "\<forall>x\<in>set as. \<not> slot_for irqid x" and sf: "slot_for irqid s"
    and r: "Registry_Register irqid (Some h) (as @ s # bs) = (e, ss')"
  shows "registry_ok ss' \<and> (e, Registry_CopyHandlers irqid ss') = register_result h (Registry_CopyHandlers irqid (as @ s # bs)) \<and>
    (\<forall>j. j \<noteq> irqid \<longrightarrow> Registry_CopyHandlers j ss' = Registry_CopyHandlers j (as @ s # bs))"
proof -
  obtain e1 s' where a: "add_handler h s = (e1, s')" by fastforce
  have so: "slot_ok s" using ok by (simp add: registry_ok_def)
  note A = add_handler_ok [OF so a]
  have ss': "ss' = as @ s' # bs" "e = e1"
    using r register_scan_found [OF na sf, of h bs 0 None] a by (auto simp: Registry_Register_def)
  have sf': "slot_for irqid s'" using sf A(2,3) by (simp add: slot_for_def)
  have "registry_ok ss'" using ok A(1-3) unfolding ss' registry_ok_def by auto
  moreover have "(e, Registry_CopyHandlers irqid ss') = register_result h (Registry_CopyHandlers irqid (as @ s # bs))"
  proof -
    have "length (take (count s) (handlers s)) = count s" "count s \<le> 4" using so by (simp_all add: slot_ok_def)
    then show ?thesis
      unfolding ss' CopyHandlers_replace [OF na sf'] CopyHandlers_replace [OF na sf] A(4,5)
      by (auto simp: register_result_def)
  qed
  moreover have "Registry_CopyHandlers j ss' = Registry_CopyHandlers j (as @ s # bs)" if "j \<noteq> irqid" for j
    unfolding ss' using CopyHandlers_other [of j s' s as bs] that sf sf' by (auto simp: slot_for_def)
  ultimately show ?thesis by blast
qed

lemma register_fresh:
  fixes h :: nat
  assumes ok: "registry_ok (as @ s # bs)" and na: "\<forall>x\<in>set (as @ s # bs). \<not> slot_for irqid x" and s: "\<not> active s"
  defines "s' \<equiv> s\<lparr>interruptId := irqid, active := True, handlers := (handlers s)[0 := Some h], count := 1\<rparr>"
  shows "registry_ok (as @ s' # bs) \<and> Registry_CopyHandlers irqid (as @ s' # bs) = [Some h] \<and>
    (\<forall>j. j \<noteq> irqid \<longrightarrow> Registry_CopyHandlers j (as @ s' # bs) = Registry_CopyHandlers j (as @ s # bs))"
proof -
  have so: "slot_ok s" using ok by (simp add: registry_ok_def)
  then have hs: "take 1 ((handlers s)[0 := Some h]) = [Some h]" by (cases "handlers s") (auto simp: slot_ok_def)
  have "slot_ok s'" using so hs by (simp add: s'_def slot_ok_def)
  moreover have "irqid \<notin> set (map interruptId (filter active (as @ bs)))"
    using na unfolding no_slot_iff [symmetric] by simp
  ultimately have "registry_ok (as @ s' # bs)" using ok s unfolding registry_ok_def s'_def by auto
  moreover have "slot_for irqid s'" by (simp add: s'_def slot_for_def)
  then have "Registry_CopyHandlers irqid (as @ s' # bs) = [Some h]"
    using na hs by (subst CopyHandlers_replace) (auto simp: s'_def)
  moreover have "Registry_CopyHandlers j (as @ s' # bs) = Registry_CopyHandlers j (as @ s # bs)" if "j \<noteq> irqid" for j
    using that s by (intro CopyHandlers_other) (auto simp: s'_def slot_for_def)
  ultimately show ?thesis by blast
qed

lemma new_slot_ok: "slot_ok new_slot" "\<not> active new_slot" "\<not> slot_for irqid new_slot"
  by (simp_all add: slot_ok_def new_slot_def slot_for_def)

lemma CopyHandlers_snoc_new: "Registry_CopyHandlers j (ss @ [new_slot]) = Registry_CopyHandlers j ss"
  by (induction ss) (auto simp: new_slot_ok)

text \<open>The interrupt registry is a map from interrupt numbers to at most four handlers:
  \<open>Register\<close> appends a new handler, is idempotent for a registered one, fails with
  \<open>ResourceLimitExceeded\<close> on a fifth and with \<open>InvalidArgument\<close> on null; it keeps the registry
  well-formed and changes the handlers of no other interrupt.\<close>

theorem register_spec:
  assumes ok: "registry_ok ss"
  shows "Registry_Register irqid None ss = (InvalidArgument, ss) \<and>
    (\<exists>e ss'. Registry_Register irqid (Some h) ss = (e, ss') \<and> registry_ok ss' \<and>
      (e, Registry_CopyHandlers irqid ss') = register_result h (Registry_CopyHandlers irqid ss) \<and>
      (\<forall>j. j \<noteq> irqid \<longrightarrow> Registry_CopyHandlers j ss' = Registry_CopyHandlers j ss))"
proof (intro conjI)
  show "Registry_Register irqid None ss = (InvalidArgument, ss)" by (simp add: Registry_Register_def)
  obtain e ss' where r: "Registry_Register irqid (Some h) ss = (e, ss')" by fastforce
  show "\<exists>e ss'. Registry_Register irqid (Some h) ss = (e, ss') \<and> registry_ok ss' \<and>
      (e, Registry_CopyHandlers irqid ss') = register_result h (Registry_CopyHandlers irqid ss) \<and>
      (\<forall>j. j \<noteq> irqid \<longrightarrow> Registry_CopyHandlers j ss' = Registry_CopyHandlers j ss)"
  proof (cases "\<exists>s\<in>set ss. slot_for irqid s")
    case True
    then obtain as s bs where s: "ss = as @ s # bs" "slot_for irqid s" "\<forall>x\<in>set as. \<not> slot_for irqid x"
      by (rule split_list_first_propE)
    from register_found [OF ok [unfolded s(1)] s(3,2) r [unfolded s(1)]] r show ?thesis unfolding s(1) by blast
  next
    case False
    then have na: "\<forall>s\<in>set ss. \<not> slot_for irqid s" by blast
    from register_scan_none [OF na, of h 0 None] obtain av where
      sc: "register_scan irqid h ss 0 None = Inr av"
      and av: "av = None \<or> (\<exists>k<length ss. av = Some k \<and> \<not> active (ss ! k))" by auto
    define ss1 i where "ss1 = (case av of Some i \<Rightarrow> ss | None \<Rightarrow> ss @ [new_slot])"
      and "i = (case av of Some i \<Rightarrow> i | None \<Rightarrow> length ss)"
    have i: "i < length ss1" "\<not> active (ss1 ! i)" using av new_slot_ok by (auto simp: ss1_def i_def)
    have ok1: "registry_ok ss1" using ok new_slot_ok by (auto simp: ss1_def registry_ok_def split: option.splits)
    have na1: "\<forall>s\<in>set ss1. \<not> slot_for irqid s" using na new_slot_ok by (auto simp: ss1_def split: option.splits)
    have cp: "Registry_CopyHandlers j ss1 = Registry_CopyHandlers j ss" for j
      by (simp add: ss1_def CopyHandlers_snoc_new split: option.splits)
    define s where "s = ss1 ! i"
    let ?s' = "s\<lparr>interruptId := irqid, active := True, handlers := (handlers s)[0 := Some h], count := 1\<rparr>"
    have sp: "ss1 = take i ss1 @ s # drop (Suc i) ss1" unfolding s_def using i(1) by (rule id_take_nth_drop)
    have up: "ss1[i := ?s'] = take i ss1 @ ?s' # drop (Suc i) ss1" using i(1) by (simp add: upd_conv_take_nth_drop)
    have res: "Registry_Register irqid (Some h) ss = (Success, ss1[i := ?s'])"
      using sc by (auto simp: Registry_Register_def ss1_def i_def s_def Let_def split: option.splits)
    have "registry_ok (take i ss1 @ s # drop (Suc i) ss1)" "\<forall>x\<in>set (take i ss1 @ s # drop (Suc i) ss1). \<not> slot_for irqid x"
      using ok1 na1 sp by simp_all
    from register_fresh [OF this] i(2) have
      "registry_ok (ss1[i := ?s'])" "Registry_CopyHandlers irqid (ss1[i := ?s']) = [Some h]"
      "\<forall>j. j \<noteq> irqid \<longrightarrow> Registry_CopyHandlers j (ss1[i := ?s']) = Registry_CopyHandlers j ss"
      unfolding up using cp sp by (simp_all add: s_def)
    then show ?thesis using res CopyHandlers_none [OF na] by (simp add: register_result_def)
  qed
qed

theorem register_spec_witness:
  "\<exists>e ss'. Registry_Register 5 (Some 100) [] = (e, ss') \<and> registry_ok ss' \<and> Registry_CopyHandlers 5 ss' = [Some 100] \<and> e = Success"
  using register_spec [of "[]" 5 100] by (auto simp: registry_ok_def register_result_def)

lemma Unregister_split:
  "\<forall>x\<in>set as. \<not> slot_for irqid x \<Longrightarrow>
   Registry_Unregister irqid (as @ bs) = (case Registry_Unregister irqid bs of (e, ss) \<Rightarrow> (e, as @ ss))"
  by (induction as) (auto split: prod.splits)

lemma unique_slot:
  assumes "registry_ok (as @ s # bs)" "slot_for irqid s"
  shows "\<forall>x\<in>set (as @ bs). \<not> slot_for irqid x"
  unfolding no_slot_iff using assms by (auto simp: registry_ok_def slot_for_def)

text \<open>\<open>Unregister\<close> removes all handlers of the interrupt and of no other one, keeps the
  registry well-formed, and always reports success, also for an interrupt without handlers.\<close>

theorem unregister_spec:
  assumes "registry_ok ss"
  shows "\<exists>ss'. Registry_Unregister irqid ss = (Success, ss') \<and> registry_ok ss' \<and>
    Registry_CopyHandlers irqid ss' = [] \<and> (\<forall>j. j \<noteq> irqid \<longrightarrow> Registry_CopyHandlers j ss' = Registry_CopyHandlers j ss)"
proof (cases "\<exists>s\<in>set ss. slot_for irqid s")
  case True
  then obtain as s bs where s: "ss = as @ s # bs" "slot_for irqid s" "\<forall>x\<in>set as. \<not> slot_for irqid x"
    by (rule split_list_first_propE)
  let ?s' = "s\<lparr>handlers := replicate (count s) None @ drop (count s) (handlers s), count := 0, active := False\<rparr>"
  have r: "Registry_Unregister irqid ss = (Success, as @ ?s' # bs)" using s(2) unfolding s(1) Unregister_split [OF s(3)] by simp
  have "slot_ok s" using assms s(1) by (simp add: registry_ok_def)
  then have "slot_ok ?s'" by (simp add: slot_ok_def)
  moreover have nf: "\<not> slot_for j ?s'" for j by (simp add: slot_for_def)
  moreover have "active s" using s(2) by (simp add: slot_for_def)
  ultimately have "registry_ok (as @ ?s' # bs)" using assms unfolding s(1) registry_ok_def by auto
  moreover have "\<forall>x\<in>set (as @ ?s' # bs). \<not> slot_for irqid x"
    using unique_slot [OF assms [unfolded s(1)] s(2)] nf [of irqid] by auto
  then have "Registry_CopyHandlers irqid (as @ ?s' # bs) = []" by (rule CopyHandlers_none)
  moreover have "Registry_CopyHandlers j (as @ ?s' # bs) = Registry_CopyHandlers j ss" if "j \<noteq> irqid" for j
    unfolding s(1) using that s(2) nf by (intro CopyHandlers_other) (auto simp: slot_for_def)
  ultimately show ?thesis using r by blast
next
  case False
  then have na: "\<forall>s\<in>set ss. \<not> slot_for irqid s" by blast
  then have "Registry_Unregister irqid ss = (Success, ss)" using Unregister_split [of ss irqid "[]"] by simp
  with assms CopyHandlers_none [OF na] show ?thesis by simp
qed

theorem unregister_spec_witness:
  "\<exists>ss'. Registry_Unregister 5 [new_slot\<lparr>interruptId := 5, active := True, handlers := [Some 1, None, None, None], count := 1\<rparr>]
      = (Success, ss') \<and> Registry_CopyHandlers 5 ss' = []"
  using unregister_spec [of "[new_slot\<lparr>interruptId := 5, active := True, handlers := [Some 1, None, None, None], count := 1\<rparr>]" 5]
  by (auto simp: registry_ok_def slot_ok_def)



end
