(* ===== verification/Phys_Memory.thy ===== *)
theory Phys_Memory
  imports Prelude
begin

text \<open>
  The physical memory manager of the x86 HAL (\<open>pmm.cpp\<close>): a bitmap with one bit per 4 KiB
  frame, set while the frame is in use. Frames and word indices are natural numbers (they
  stay below \<open>2 ^ 20\<close>), physical addresses 32-bit words. An access outside the bitmap array
  is the value \<open>None\<close>. Diagnostics printed by the code are not part of the model.
\<close>

abbreviation BITMAP_MAX_SIZE :: nat where "BITMAP_MAX_SIZE \<equiv> 4096"
abbreviation PAGE_SIZE :: nat where "PAGE_SIZE \<equiv> 4096"
abbreviation BITMAP_INIT :: u32 where "BITMAP_INIT \<equiv> 0xFFFFFFFF"
abbreviation BITMAP_WORD_SIZE :: nat where "BITMAP_WORD_SIZE \<equiv> 32"
abbreviation dma_frames :: nat where "dma_frames \<equiv> 4096"

record pmm =
  bitmap :: "u32 list"
  total_frames :: nat
  bitmap_size_words :: nat

definition frame_to_word :: "nat \<Rightarrow> nat" where
  "frame_to_word frame = frame div BITMAP_WORD_SIZE"

definition frame_to_bit :: "nat \<Rightarrow> nat" where
  "frame_to_bit frame = frame mod BITMAP_WORD_SIZE"

definition set_bit :: "nat \<Rightarrow> pmm \<Rightarrow> pmm option" where
  "set_bit frame p =
     (let w = frame_to_word frame in
      if w < length (bitmap p)
      then Some (p\<lparr>bitmap := (bitmap p)[w := (bitmap p ! w) OR push_bit (frame_to_bit frame) 1]\<rparr>)
      else None)"

definition clear_bit :: "nat \<Rightarrow> pmm \<Rightarrow> pmm option" where
  "clear_bit frame p =
     (let w = frame_to_word frame in
      if w < length (bitmap p)
      then Some (p\<lparr>bitmap := (bitmap p)[w := (bitmap p ! w) AND NOT (push_bit (frame_to_bit frame) 1)]\<rparr>)
      else None)"

definition test_bit :: "nat \<Rightarrow> pmm \<Rightarrow> bool" where
  "test_bit frame p = ((bitmap p ! frame_to_word frame) AND push_bit (frame_to_bit frame) 1 \<noteq> 0)"

fun set_range :: "nat \<Rightarrow> nat \<Rightarrow> pmm \<Rightarrow> pmm option" where
  "set_range start 0 p = Some p"
| "set_range start (Suc n) p = (case set_bit start p of None \<Rightarrow> None | Some p' \<Rightarrow> set_range (Suc start) n p')"

fun clear_range :: "nat \<Rightarrow> nat \<Rightarrow> pmm \<Rightarrow> pmm option" where
  "clear_range start 0 p = Some p"
| "clear_range start (Suc n) p = (case clear_bit start p of None \<Rightarrow> None | Some p' \<Rightarrow> clear_range (Suc start) n p')"

definition HAL_PMM_ReserveRegion :: "u32 \<Rightarrow> u32 \<Rightarrow> pmm \<Rightarrow> pmm option" where
  "HAL_PMM_ReserveRegion base len p =
     set_range (unat base div PAGE_SIZE)
       (unat len div PAGE_SIZE + (if unat len mod PAGE_SIZE \<noteq> 0 then 1 else 0)) p"

text \<open>
  The search loops. \<open>free\<close> counts the free frames directly before \<open>frame\<close>; the first frame
  of that run is the loop variable \<open>start_frame\<close>. The high search skips a full word when no
  run is open.
\<close>

function scan_high :: "pmm \<Rightarrow> nat \<Rightarrow> nat \<Rightarrow> nat \<Rightarrow> nat \<Rightarrow> nat \<Rightarrow> nat option" where
  "scan_high p cnt max_frames frame free start =
     (if frame < max_frames then
        if free = 0 \<and> frame mod BITMAP_WORD_SIZE = 0 \<and> bitmap p ! (frame div BITMAP_WORD_SIZE) = BITMAP_INIT
        then scan_high p cnt max_frames (frame + BITMAP_WORD_SIZE) free start
        else if \<not> test_bit frame p then
          (let start' = (if free = 0 then frame else start) in
           if free + 1 = cnt then Some start'
           else scan_high p cnt max_frames (frame + 1) (free + 1) start')
        else scan_high p cnt max_frames (frame + 1) 0 start
      else None)"
  by pat_completeness auto
termination by (relation "measure (\<lambda>(p, cnt, m, frame, free, start). m - frame)") auto

function scan_low :: "pmm \<Rightarrow> nat \<Rightarrow> nat \<Rightarrow> nat \<Rightarrow> nat \<Rightarrow> nat \<Rightarrow> nat option" where
  "scan_low p cnt limit frame free start =
     (if frame < limit then
        if \<not> test_bit frame p then
          (let start' = (if free = 0 then frame else start) in
           if free + 1 = cnt then Some start'
           else scan_low p cnt limit (frame + 1) (free + 1) start')
        else scan_low p cnt limit (frame + 1) 0 start
      else None)"
  by pat_completeness auto
termination by (relation "measure (\<lambda>(p, cnt, m, frame, free, start). m - frame)") auto

declare scan_high.simps [simp del] scan_low.simps [simp del]

definition max_frames_of :: "pmm \<Rightarrow> nat" where
  "max_frames_of p = bitmap_size_words p * BITMAP_WORD_SIZE"

definition frame_address :: "nat \<Rightarrow> u32" where
  "frame_address frame = of_nat (frame * PAGE_SIZE)"

definition HAL_PMM_AllocateFrames :: "nat \<Rightarrow> pmm \<Rightarrow> (u32 \<times> pmm) option" where
  "HAL_PMM_AllocateFrames cnt p =
     (if cnt = 0 then Some (0, p)
      else
        (case (case scan_high p cnt (max_frames_of p) dma_frames 0 0 of
                 Some s \<Rightarrow> Some s
               | None \<Rightarrow> scan_low p cnt (min dma_frames (max_frames_of p)) 0 0 0) of
           None \<Rightarrow> Some (0, p)
         | Some start \<Rightarrow>
             (case set_range start cnt p of None \<Rightarrow> None | Some p' \<Rightarrow> Some (frame_address start, p'))))"

definition HAL_PMM_AllocateFramesDMA :: "nat \<Rightarrow> pmm \<Rightarrow> (u32 \<times> pmm) option" where
  "HAL_PMM_AllocateFramesDMA cnt p =
     (if cnt = 0 then Some (0, p)
      else
        (case scan_low p cnt (min dma_frames (max_frames_of p)) 0 0 0 of
           None \<Rightarrow> Some (0, p)
         | Some start \<Rightarrow>
             (case set_range start cnt p of None \<Rightarrow> None | Some p' \<Rightarrow> Some (frame_address start, p'))))"

definition HAL_PMM_FreeFrames :: "u32 \<Rightarrow> nat \<Rightarrow> pmm \<Rightarrow> pmm option" where
  "HAL_PMM_FreeFrames base cnt p = clear_range (unat base div PAGE_SIZE) cnt p"

subsection \<open>Initialisation\<close>

datatype MemoryRegionType = NoRegion | Available | Reserved | ACPI_Reclaim

record MemoryRegionT =
  reg_base :: u32
  reg_length :: u64
  reg_type :: MemoryRegionType

record MappedMemoryT =
  physical_base :: u32
  map_length :: nat
  map_used :: bool      \<comment> \<open>the type is not \<open>None\<close>\<close>

definition find_highest_physical_address :: "MemoryRegionT list \<Rightarrow> u64" where
  "find_highest_physical_address rs =
     fold (\<lambda>r m. if reg_type r = Available \<and> ucast (reg_base r) + reg_length r > m
                 then ucast (reg_base r) + reg_length r else m) rs 0"

fun free_regions :: "MemoryRegionT list \<Rightarrow> pmm \<Rightarrow> pmm option" where
  "free_regions [] p = Some p"
| "free_regions (r # rs) p =
     (if reg_type r = Available \<and> \<not> reg_base r < 0x100000
      then (case clear_range (unat (reg_base r) div PAGE_SIZE) (unat (reg_length r) div PAGE_SIZE mod 2 ^ 32) p of
              None \<Rightarrow> None | Some p' \<Rightarrow> free_regions rs p')
      else free_regions rs p)"

fun protect_regions :: "MappedMemoryT list \<Rightarrow> pmm \<Rightarrow> pmm option" where
  "protect_regions [] p = Some p"
| "protect_regions (m # ms) p =
     (if map_used m
      then (case set_range (unat (physical_base m) div PAGE_SIZE)
                   (map_length m div PAGE_SIZE + (if map_length m mod PAGE_SIZE \<noteq> 0 then 1 else 0)) p of
              None \<Rightarrow> None | Some p' \<Rightarrow> protect_regions ms p')
      else protect_regions ms p)"

definition init_bitmap :: "MemoryRegionT list \<Rightarrow> pmm \<Rightarrow> pmm" where
  "init_bitmap rs p =
     (let tf = unat (find_highest_physical_address rs) div PAGE_SIZE mod 2 ^ 32;
          bw = tf div BITMAP_WORD_SIZE + (if tf mod BITMAP_WORD_SIZE \<noteq> 0 then 1 else 0);
          (tf1, bw1) = (if bw > BITMAP_MAX_SIZE then (PAGE_SIZE * BITMAP_WORD_SIZE, BITMAP_MAX_SIZE) else (tf, bw))
      in p\<lparr>total_frames := tf1, bitmap_size_words := bw1,
            bitmap := replicate bw1 BITMAP_INIT @ drop bw1 (bitmap p)\<rparr>)"

definition init_pmm :: "MemoryRegionT list \<Rightarrow> MappedMemoryT list \<Rightarrow> pmm \<Rightarrow> pmm option" where
  "init_pmm rs ms p =
     (case free_regions rs (init_bitmap rs p) of None \<Rightarrow> None | Some p2 \<Rightarrow> protect_regions ms p2)"

subsection \<open>Frames in use\<close>

definition used :: "pmm \<Rightarrow> nat \<Rightarrow> bool" where
  "used p f = bit (bitmap p ! (f div 32)) (f mod 32)"

abbreviation in_bitmap :: "pmm \<Rightarrow> nat \<Rightarrow> bool" where
  "in_bitmap p f \<equiv> f div 32 < length (bitmap p)"

lemma test_bit_used: "test_bit f p = used p f"
  unfolding test_bit_def used_def frame_to_word_def frame_to_bit_def
  by (rule bit_iff_and_push_bit_not_eq_0 [symmetric])

lemma bit_push_1_u32: "bit (push_bit k 1 :: u32) n \<longleftrightarrow> n = k \<and> k < 32"
  by (auto simp: bit_push_bit_iff bit_1_iff simp del: push_bit_of_1)

lemma div_mod_32_eq: "f div 32 = g div 32 \<Longrightarrow> f mod 32 = g mod 32 \<Longrightarrow> f = (g::nat)"
  by (metis div_mult_mod_eq)

lemma set_bit_used:
  assumes "in_bitmap p f"
  obtains p' where "set_bit f p = Some p'" "\<And>g. used p' g = (used p g \<or> g = f)"
    "length (bitmap p') = length (bitmap p)" "bitmap_size_words p' = bitmap_size_words p"
proof
  let ?p' = "p\<lparr>bitmap := (bitmap p)[f div 32 := (bitmap p ! (f div 32)) OR push_bit (f mod 32) 1]\<rparr>"
  show "set_bit f p = Some ?p'" using assms by (simp add: set_bit_def frame_to_word_def frame_to_bit_def Let_def)
  show "used ?p' g = (used p g \<or> g = f)" for g
  proof (cases "g div 32 = f div 32")
    case True
    then have "used ?p' g = (used p g \<or> g mod 32 = f mod 32)"
      using assms by (simp add: used_def bit_or_iff bit_push_1_u32 del: push_bit_of_1)
    with True div_mod_32_eq [of g f] show ?thesis by auto
  next
    case False
    then show ?thesis by (auto simp: used_def)
  qed
qed simp_all

lemma clear_bit_used:
  assumes "in_bitmap p f"
  obtains p' where "clear_bit f p = Some p'" "\<And>g. used p' g = (used p g \<and> g \<noteq> f)"
    "length (bitmap p') = length (bitmap p)" "bitmap_size_words p' = bitmap_size_words p"
proof
  let ?p' = "p\<lparr>bitmap := (bitmap p)[f div 32 := (bitmap p ! (f div 32)) AND NOT (push_bit (f mod 32) 1)]\<rparr>"
  show "clear_bit f p = Some ?p'" using assms by (simp add: clear_bit_def frame_to_word_def frame_to_bit_def Let_def)
  show "used ?p' g = (used p g \<and> g \<noteq> f)" for g
  proof (cases "g div 32 = f div 32")
    case True
    then have "used ?p' g = (used p g \<and> g mod 32 \<noteq> f mod 32)"
      using assms by (simp add: used_def bit_and_iff bit_not_iff bit_push_1_u32 del: push_bit_of_1)
    with True div_mod_32_eq [of g f] show ?thesis by auto
  next
    case False
    then show ?thesis by (auto simp: used_def)
  qed
qed simp_all

lemma set_range_used:
  "\<forall>g. start \<le> g \<and> g < start + n \<longrightarrow> in_bitmap p g \<Longrightarrow>
   \<exists>p'. set_range start n p = Some p' \<and> (\<forall>g. used p' g = (used p g \<or> start \<le> g \<and> g < start + n)) \<and>
     length (bitmap p') = length (bitmap p) \<and> bitmap_size_words p' = bitmap_size_words p"
proof (induction n arbitrary: start p)
  case 0
  then show ?case by auto
next
  case (Suc n)
  then have "in_bitmap p start" by simp
  then obtain p1 where p1: "set_bit start p = Some p1" "\<And>g. used p1 g = (used p g \<or> g = start)"
    "length (bitmap p1) = length (bitmap p)" "bitmap_size_words p1 = bitmap_size_words p" using set_bit_used by blast
  have "\<forall>g. Suc start \<le> g \<and> g < Suc start + n \<longrightarrow> in_bitmap p1 g" using Suc.prems p1(3) by simp
  from Suc.IH [OF this] p1 show ?case by fastforce
qed

lemma clear_range_used:
  "\<forall>g. start \<le> g \<and> g < start + n \<longrightarrow> in_bitmap p g \<Longrightarrow>
   \<exists>p'. clear_range start n p = Some p' \<and> (\<forall>g. used p' g = (used p g \<and> \<not> (start \<le> g \<and> g < start + n))) \<and>
     length (bitmap p') = length (bitmap p) \<and> bitmap_size_words p' = bitmap_size_words p"
proof (induction n arbitrary: start p)
  case 0
  then show ?case by auto
next
  case (Suc n)
  then have "in_bitmap p start" by simp
  then obtain p1 where p1: "clear_bit start p = Some p1" "\<And>g. used p1 g = (used p g \<and> g \<noteq> start)"
    "length (bitmap p1) = length (bitmap p)" "bitmap_size_words p1 = bitmap_size_words p" using clear_bit_used by blast
  have "\<forall>g. Suc start \<le> g \<and> g < Suc start + n \<longrightarrow> in_bitmap p1 g" using Suc.prems p1(3) by simp
  from Suc.IH [OF this] p1 show ?case by fastforce
qed

lemma clear_range_overrun:
  "start \<le> g \<Longrightarrow> g < start + n \<Longrightarrow> \<not> in_bitmap p g \<Longrightarrow> clear_range start n p = None"
proof (induction n arbitrary: start p)
  case (Suc n)
  show ?case
  proof (cases "clear_bit start p")
    case (Some p1)
    then have l: "length (bitmap p1) = length (bitmap p)" and "in_bitmap p start"
      by (auto simp: clear_bit_def frame_to_word_def Let_def split: if_splits)
    with Suc.prems have "g \<noteq> start" by auto
    with Suc.IH [of "Suc start" p1] Suc.prems l Some show ?thesis by simp
  qed simp
qed simp

lemma clear_range_length: "clear_range start n p = Some p' \<Longrightarrow> length (bitmap p') = length (bitmap p)"
proof (induction n arbitrary: start p)
  case (Suc n)
  then obtain p1 where "clear_bit start p = Some p1" "clear_range (Suc start) n p1 = Some p'"
    by (auto split: option.splits)
  moreover from this(1) have "length (bitmap p1) = length (bitmap p)"
    by (auto simp: clear_bit_def Let_def split: if_splits)
  ultimately show ?case using Suc.IH by metis
qed simp

subsection \<open>The search\<close>

definition free_run :: "pmm \<Rightarrow> nat \<Rightarrow> nat \<Rightarrow> bool" where
  "free_run p s n = (\<forall>f. s \<le> f \<and> f < s + n \<longrightarrow> \<not> used p f)"

lemma free_run_snoc: "free_run p s n \<Longrightarrow> \<not> used p (s + n) \<Longrightarrow> free_run p s (n + 1)"
  by (auto simp: free_run_def less_Suc_eq)

text \<open>
  The loop invariant: the \<open>free\<close> frames before \<open>frame\<close> are free, the one before them is in
  use (or the search began there), and no run of \<open>cnt\<close> free frames ends at or before \<open>frame\<close>.
\<close>

definition scan_inv :: "pmm \<Rightarrow> nat \<Rightarrow> nat \<Rightarrow> nat \<Rightarrow> nat \<Rightarrow> nat \<Rightarrow> bool" where
  "scan_inv p lo cnt frame free start =
     (lo + free \<le> frame \<and> free < cnt \<and> (free > 0 \<longrightarrow> start = frame - free) \<and> free_run p (frame - free) free \<and>
      (frame - free = lo \<or> used p (frame - free - 1)) \<and>
      (\<forall>s. lo \<le> s \<and> s + cnt \<le> frame \<longrightarrow> \<not> free_run p s cnt))"

lemma scan_inv_init: "cnt > 0 \<Longrightarrow> scan_inv p lo cnt lo 0 start"
  by (auto simp: scan_inv_def free_run_def)

lemma scan_inv_used:
  assumes "scan_inv p lo cnt frame free start" "\<forall>f. frame \<le> f \<and> f < frame + k \<longrightarrow> used p f" "k > 0"
  shows "scan_inv p lo cnt (frame + k) 0 start"
proof -
  have "\<not> free_run p s cnt" if s: "lo \<le> s" "s + cnt \<le> frame + k" for s
  proof (cases "s + cnt \<le> frame")
    case True
    with assms(1) s show ?thesis by (simp add: scan_inv_def)
  next
    case False
    have c: "cnt > 0" using assms(1) by (auto simp: scan_inv_def)
    have "frame \<le> s + cnt - 1 \<and> s + cnt - 1 < frame + k" using False s c by linarith
    then have "used p (s + cnt - 1)" using assms(2) by blast
    with c show ?thesis unfolding free_run_def by (intro notI) (auto dest: spec [of _ "s + cnt - 1"])
  qed
  moreover have "used p (frame + k - 1)" using assms(2,3) by simp
  ultimately show ?thesis using assms(1,3) by (auto simp: scan_inv_def free_run_def)
qed

lemma scan_inv_free:
  assumes "scan_inv p lo cnt frame free start" "\<not> used p frame" "free + 1 < cnt"
  shows "scan_inv p lo cnt (frame + 1) (free + 1) (if free = 0 then frame else start)"
proof -
  have inv: "lo + free \<le> frame" "free > 0 \<longrightarrow> start = frame - free" "free_run p (frame - free) free"
    "frame - free = lo \<or> used p (frame - free - 1)" "\<forall>s. lo \<le> s \<and> s + cnt \<le> frame \<longrightarrow> \<not> free_run p s cnt"
    using assms(1) by (auto simp: scan_inv_def)
  have "\<not> free_run p s cnt" if s: "lo \<le> s" "s + cnt \<le> frame + 1" for s
  proof (cases "s + cnt \<le> frame")
    case True
    with inv(5) s show ?thesis by blast
  next
    case False
    then have e: "s + cnt = frame + 1" using s(2) by simp
    then have "s < frame - free" using assms(3) by simp
    moreover from this s(1) inv(4) have "used p (frame - free - 1)" by auto
    ultimately show ?thesis unfolding free_run_def using e by (intro notI) (auto dest: spec [of _ "frame - free - 1"])
  qed
  moreover have "free_run p (frame - free) (free + 1)"
    using free_run_snoc [OF inv(3)] inv(1) assms(2) by simp
  ultimately show ?thesis using inv assms(3) by (auto simp: scan_inv_def)
qed

definition found_at :: "pmm \<Rightarrow> nat \<Rightarrow> nat \<Rightarrow> nat \<Rightarrow> nat option \<Rightarrow> bool" where
  "found_at p lo hi cnt r =
     (case r of
        Some s \<Rightarrow> lo \<le> s \<and> s + cnt \<le> hi \<and> free_run p s cnt
      | None \<Rightarrow> \<forall>s. lo \<le> s \<and> s + cnt \<le> hi \<longrightarrow> \<not> free_run p s cnt)"

lemma scan_inv_done:
  assumes "scan_inv p lo cnt frame free start" "\<not> used p frame" "free + 1 = cnt" "frame < hi"
  shows "found_at p lo hi cnt (Some (if free = 0 then frame else start))"
proof -
  have "free_run p (frame - free) cnt"
    using free_run_snoc [of p "frame - free" free] assms by (simp add: scan_inv_def)
  moreover have st: "(if free = 0 then frame else start) = frame - free" using assms(1) by (auto simp: scan_inv_def)
  moreover have "lo \<le> frame - free \<and> frame - free + cnt \<le> hi"
  proof -
    have "lo + free \<le> frame" using assms(1) by (simp add: scan_inv_def)
    with assms(3,4) show ?thesis by linarith
  qed
  ultimately show ?thesis unfolding found_at_def st by simp
qed

lemma scan_inv_end:
  "scan_inv p lo cnt frame free start \<Longrightarrow> \<not> frame < hi \<Longrightarrow> found_at p lo hi cnt None"
  unfolding found_at_def scan_inv_def by (simp add: not_less)

lemma full_word_used:
  assumes "bitmap p ! (frame div 32) = BITMAP_INIT" "frame mod 32 = 0" "frame \<le> f" "f < frame + 32"
  shows "used p f"
proof -
  have "f div 32 = frame div 32"
  proof -
    have "frame = 32 * (frame div 32)" using assms(2) by (metis add.right_neutral mult_div_mod_eq)
    with assms(3,4) show ?thesis by (metis div_nat_eqI mult.commute mult_Suc add.commute)
  qed
  moreover have "bit BITMAP_INIT (f mod 32)"
  proof -
    have "(BITMAP_INIT :: u32) = mask 32" by (simp add: mask_eq_exp_minus_1)
    then show ?thesis by (simp only: bit_mask_iff possible_bit_def) simp
  qed
  ultimately show ?thesis using assms(1) by (simp add: used_def)
qed

lemma scan_high_spec:
  "scan_inv p lo cnt frame free start \<Longrightarrow> found_at p lo hi cnt (scan_high p cnt hi frame free start)"
proof (induction p cnt hi frame free start rule: scan_high.induct)
  case (1 p cnt hi frame free start)
  show ?case
  proof (cases "frame < hi")
    case False
    with scan_inv_end [OF 1(4)] show ?thesis by (subst scan_high.simps) simp
  next
    case lt: True
    let ?skip = "free = 0 \<and> frame mod 32 = 0 \<and> bitmap p ! (frame div 32) = BITMAP_INIT"
    show ?thesis
    proof (cases ?skip)
      case True
      then have "\<forall>f. frame \<le> f \<and> f < frame + 32 \<longrightarrow> used p f"
        by (intro allI impI, elim conjE) (rule full_word_used)
      from scan_inv_used [OF 1(4) this] have "scan_inv p lo cnt (frame + 32) free start" using True by simp
      from 1(1) [OF lt True this] show ?thesis using True lt by (subst scan_high.simps) simp
    next
      case ns: False
      show ?thesis
      proof (cases "used p frame")
        case True
        then have "\<forall>f. frame \<le> f \<and> f < frame + 1 \<longrightarrow> used p f" by (metis Suc_eq_plus1 le_antisym less_Suc_eq_le)
        from scan_inv_used [OF 1(4) this] have "scan_inv p lo cnt (frame + 1) 0 start" by simp
        from 1(3) [OF lt ns _ this] True show ?thesis using lt ns by (subst scan_high.simps) (auto simp: test_bit_used)
      next
        case False
        show ?thesis
        proof (cases "free + 1 = cnt")
          case True
          from scan_inv_done [OF 1(4) False True lt] show ?thesis
            using lt ns False True by (subst scan_high.simps) (auto simp: test_bit_used Let_def)
        next
          case ne: False
          then have "free + 1 < cnt" using 1(4) by (simp add: scan_inv_def)
          from scan_inv_free [OF 1(4) False this] 1(2) [OF lt ns _ refl ne] False
          show ?thesis using lt ns ne by (subst scan_high.simps) (auto simp: test_bit_used Let_def)
        qed
      qed
    qed
  qed
qed

lemma scan_low_spec:
  "scan_inv p lo cnt frame free start \<Longrightarrow> found_at p lo hi cnt (scan_low p cnt hi frame free start)"
proof (induction p cnt hi frame free start rule: scan_low.induct)
  case (1 p cnt hi frame free start)
  show ?case
  proof (cases "frame < hi")
    case False
    with scan_inv_end [OF 1(3)] show ?thesis by (subst scan_low.simps) simp
  next
    case lt: True
    show ?thesis
    proof (cases "used p frame")
      case True
      then have "\<forall>f. frame \<le> f \<and> f < frame + 1 \<longrightarrow> used p f" by (metis Suc_eq_plus1 le_antisym less_Suc_eq_le)
      from scan_inv_used [OF 1(3) this] have "scan_inv p lo cnt (frame + 1) 0 start" by simp
      from 1(2) [OF lt _ this] True show ?thesis using lt by (subst scan_low.simps) (simp add: test_bit_used)
    next
      case False
      show ?thesis
      proof (cases "free + 1 = cnt")
        case True
        from scan_inv_done [OF 1(3) False True lt] show ?thesis
          using lt False True by (subst scan_low.simps) (simp add: test_bit_used Let_def)
      next
        case ne: False
        then have "free + 1 < cnt" using 1(3) by (simp add: scan_inv_def)
        from scan_inv_free [OF 1(3) False this] 1(1) [OF lt _ refl ne] False
        show ?thesis using lt ne by (subst scan_low.simps) (simp add: test_bit_used Let_def)
      qed
    qed
  qed
qed

subsection \<open>Allocation\<close>

definition pmm_ok :: "pmm \<Rightarrow> bool" where
  "pmm_ok p = (length (bitmap p) = BITMAP_MAX_SIZE \<and> bitmap_size_words p \<le> BITMAP_MAX_SIZE)"

lemma unat_frame_address: "s < 131072 \<Longrightarrow> unat (frame_address s) = s * PAGE_SIZE"
  unfolding frame_address_def by (simp only: unat_of_nat) simp

lemma frame_address_nonzero: "0 < s \<Longrightarrow> s < 131072 \<Longrightarrow> frame_address s \<noteq> 0"
  using unat_frame_address [of s] by auto

lemma max_frames_bound: "pmm_ok p \<Longrightarrow> max_frames_of p \<le> 131072"
  by (simp add: pmm_ok_def max_frames_of_def)

lemma in_bitmap_max: "pmm_ok p \<Longrightarrow> f < max_frames_of p \<Longrightarrow> in_bitmap p f"
  by (simp add: pmm_ok_def max_frames_of_def div_less_iff_less_mult)

text \<open>Taking the run a search found.\<close>

lemma take_run:
  assumes ok: "pmm_ok p" and s: "s + cnt \<le> max_frames_of p" "free_run p s cnt" and "cnt > 0" "used p 0"
  obtains p' where "set_range s cnt p = Some p'" "pmm_ok p'" "max_frames_of p' = max_frames_of p"
    "\<forall>f. used p' f = (used p f \<or> s \<le> f \<and> f < s + cnt)" "frame_address s \<noteq> 0" "unat (frame_address s) = s * PAGE_SIZE"
proof -
  have "\<forall>g. s \<le> g \<and> g < s + cnt \<longrightarrow> in_bitmap p g"
    using in_bitmap_max [OF ok] s(1) by (meson less_le_trans)
  from set_range_used [OF this] obtain p' where p': "set_range s cnt p = Some p'"
    "\<forall>g. used p' g = (used p g \<or> s \<le> g \<and> g < s + cnt)" "length (bitmap p') = length (bitmap p)"
    "bitmap_size_words p' = bitmap_size_words p" by blast
  have "s \<noteq> 0" using s(2) assms(4,5) by (auto simp: free_run_def)
  moreover have "s < 131072" using s(1) assms(4) max_frames_bound [OF ok] by linarith
  ultimately have "frame_address s \<noteq> 0" "unat (frame_address s) = s * PAGE_SIZE"
    by (simp_all add: frame_address_nonzero unat_frame_address)
  with that p' ok show ?thesis by (simp add: pmm_ok_def max_frames_of_def)
qed

lemma set_range_size: "set_range start n p = Some p' \<Longrightarrow> bitmap_size_words p' = bitmap_size_words p"
proof (induction n arbitrary: start p)
  case (Suc n)
  then obtain p1 where "set_bit start p = Some p1" "set_range (Suc start) n p1 = Some p'"
    by (auto split: option.splits)
  moreover from this(1) have "bitmap_size_words p1 = bitmap_size_words p"
    by (auto simp: set_bit_def Let_def split: if_splits)
  ultimately show ?case using Suc.IH by metis
qed simp

lemma allocate_frames_size:
  "HAL_PMM_AllocateFrames cnt p = Some (a, p') \<Longrightarrow> bitmap_size_words p' = bitmap_size_words p"
  by (auto simp: HAL_PMM_AllocateFrames_def set_range_size split: if_splits option.splits)

definition no_run :: "pmm \<Rightarrow> nat \<Rightarrow> nat \<Rightarrow> nat \<Rightarrow> bool" where
  "no_run p lo hi cnt = (\<forall>s. lo \<le> s \<and> s + cnt \<le> hi \<longrightarrow> \<not> free_run p s cnt)"

lemma allocate_frames_correct:
  assumes "pmm_ok p" "cnt > 0" "used p 0"
  shows "\<exists>a p'. HAL_PMM_AllocateFrames cnt p = Some (a, p') \<and> pmm_ok p' \<and>
    (if a = 0 then p' = p \<and> no_run p dma_frames (max_frames_of p) cnt \<and> no_run p 0 (min dma_frames (max_frames_of p)) cnt
     else \<exists>s. unat a = s * PAGE_SIZE \<and> s + cnt \<le> max_frames_of p \<and> free_run p s cnt \<and>
            (\<forall>f. used p' f = (used p f \<or> s \<le> f \<and> f < s + cnt)))"
proof -
  let ?hi = "scan_high p cnt (max_frames_of p) dma_frames 0 0"
  let ?lo = "scan_low p cnt (min dma_frames (max_frames_of p)) 0 0 0"
  have h: "found_at p dma_frames (max_frames_of p) cnt ?hi"
    by (rule scan_high_spec [OF scan_inv_init [OF assms(2)]])
  have l: "found_at p 0 (min dma_frames (max_frames_of p)) cnt ?lo"
    by (rule scan_low_spec [OF scan_inv_init [OF assms(2)]])
  show ?thesis
  proof (cases "(case ?hi of Some s \<Rightarrow> Some s | None \<Rightarrow> ?lo)")
    case None
    then have n: "?hi = None" "?lo = None" by (auto split: option.splits)
    with h l have "no_run p dma_frames (max_frames_of p) cnt \<and> no_run p 0 (min dma_frames (max_frames_of p)) cnt"
      by (simp add: found_at_def no_run_def)
    with None assms show ?thesis by (simp add: HAL_PMM_AllocateFrames_def)
  next
    case (Some s)
    then have s: "s + cnt \<le> max_frames_of p" "free_run p s cnt"
      using h l by (auto simp: found_at_def split: option.splits)
    from assms(1) s assms(2,3) obtain p' where p': "set_range s cnt p = Some p'" "pmm_ok p'"
      "\<forall>f. used p' f = (used p f \<or> s \<le> f \<and> f < s + cnt)" "frame_address s \<noteq> 0" "unat (frame_address s) = s * PAGE_SIZE"
      by (rule take_run)
    with Some s assms(2) show ?thesis by (auto simp: HAL_PMM_AllocateFrames_def)
  qed
qed


definition demo_pmm :: pmm where
  "demo_pmm = \<lparr>bitmap = replicate BITMAP_MAX_SIZE BITMAP_INIT, total_frames = 8192, bitmap_size_words = 256\<rparr>"

lemma demo_pmm_ok: "pmm_ok demo_pmm" "used demo_pmm 0"
proof -
  show "pmm_ok demo_pmm" by (simp add: pmm_ok_def demo_pmm_def)
  show "used demo_pmm 0" by (rule full_word_used [of _ 0]) (simp_all add: demo_pmm_def)
qed


text \<open>Freeing what an allocation returned restores every frame's state.\<close>

theorem free_after_allocate:
  assumes "pmm_ok p" "cnt > 0" "used p 0" "HAL_PMM_AllocateFrames cnt p = Some (a, p')" "a \<noteq> 0"
  shows "\<exists>p''. HAL_PMM_FreeFrames a cnt p' = Some p'' \<and> pmm_ok p'' \<and> (\<forall>f. used p'' f = used p f)"
proof -
  have h: "found_at p dma_frames (max_frames_of p) cnt (scan_high p cnt (max_frames_of p) dma_frames 0 0)"
    by (rule scan_high_spec [OF scan_inv_init [OF assms(2)]])
  have l: "found_at p 0 (min dma_frames (max_frames_of p)) cnt (scan_low p cnt (min dma_frames (max_frames_of p)) 0 0 0)"
    by (rule scan_low_spec [OF scan_inv_init [OF assms(2)]])
  from assms(2,4,5) obtain s where a: "set_range s cnt p = Some p'" "a = frame_address s"
    and s: "s + cnt \<le> max_frames_of p" "free_run p s cnt"
    using h l by (auto simp: HAL_PMM_AllocateFrames_def found_at_def split: option.splits)
  from assms(1) s assms(2,3) obtain p1 where p1: "set_range s cnt p = Some p1" "pmm_ok p1" "max_frames_of p1 = max_frames_of p"
    "\<forall>f. used p1 f = (used p f \<or> s \<le> f \<and> f < s + cnt)" "unat (frame_address s) = s * PAGE_SIZE" by (rule take_run)
  then have p': "p1 = p'" using a(1) by simp
  have "\<forall>g. s \<le> g \<and> g < s + cnt \<longrightarrow> in_bitmap p' g"
    using in_bitmap_max [OF p1(2)] p1(3) s(1) unfolding p' by (metis less_le_trans)
  from clear_range_used [OF this] obtain p'' where p'': "clear_range s cnt p' = Some p''"
    "\<forall>g. used p'' g = (used p' g \<and> \<not> (s \<le> g \<and> g < s + cnt))" "length (bitmap p'') = length (bitmap p')"
    "bitmap_size_words p'' = bitmap_size_words p'" by blast
  have "used p'' f = used p f" for f
    using p''(2) p1(4) s(2) unfolding p' by (auto simp: free_run_def)
  moreover have "HAL_PMM_FreeFrames a cnt p' = Some p''" using p1(5) a(2) p''(1) by (simp add: HAL_PMM_FreeFrames_def)
  moreover have "pmm_ok p''" using p1(2) p''(3,4) unfolding p' by (simp add: pmm_ok_def)
  ultimately show ?thesis by blast
qed

definition demo_pmm_free :: pmm where
  "demo_pmm_free = demo_pmm\<lparr>bitmap := (bitmap demo_pmm)[128 := 0]\<rparr>"

lemma demo_pmm_free_ok: "pmm_ok demo_pmm_free" "used demo_pmm_free 0" "max_frames_of demo_pmm_free = 8192"
proof -
  show "pmm_ok demo_pmm_free" "max_frames_of demo_pmm_free = 8192"
    by (simp_all add: pmm_ok_def demo_pmm_free_def demo_pmm_def max_frames_of_def)
  show "used demo_pmm_free 0" by (rule full_word_used [of _ 0]) (simp_all add: demo_pmm_free_def demo_pmm_def)
qed

lemma demo_pmm_free_run: "free_run demo_pmm_free 4096 3"
  unfolding free_run_def
proof (intro allI impI)
  fix f :: nat assume "4096 \<le> f \<and> f < 4096 + 3"
  then have "f div 32 = 128" by auto
  then show "\<not> used demo_pmm_free f" by (simp add: used_def demo_pmm_free_def demo_pmm_def)
qed

theorem free_after_allocate_witness:
  "\<exists>a p' p''. HAL_PMM_AllocateFrames 3 demo_pmm_free = Some (a, p') \<and> a \<noteq> 0 \<and>
     HAL_PMM_FreeFrames a 3 p' = Some p'' \<and> (\<forall>f. used p'' f = used demo_pmm_free f)"
proof -
  have "\<exists>a p'. HAL_PMM_AllocateFrames 3 demo_pmm_free = Some (a, p') \<and>
      (a = 0 \<longrightarrow> no_run demo_pmm_free dma_frames (max_frames_of demo_pmm_free) 3)"
    using allocate_frames_correct [OF demo_pmm_free_ok(1) _ demo_pmm_free_ok(2), of 3] by (auto split: if_splits)
  then obtain a p' where a: "HAL_PMM_AllocateFrames 3 demo_pmm_free = Some (a, p')"
    and z: "a = 0 \<longrightarrow> no_run demo_pmm_free dma_frames (max_frames_of demo_pmm_free) 3" by blast
  have "\<not> no_run demo_pmm_free dma_frames (max_frames_of demo_pmm_free) 3"
    unfolding no_run_def demo_pmm_free_ok(3) using demo_pmm_free_run by (auto intro!: exI [of _ 4096])
  with z have "a \<noteq> 0" by blast
  from free_after_allocate [OF demo_pmm_free_ok(1) _ demo_pmm_free_ok(2) a this] a \<open>a \<noteq> 0\<close> show ?thesis by auto
qed

subsection \<open>Initialisation\<close>

definition region_frames :: "MemoryRegionT \<Rightarrow> nat set" where
  "region_frames r =
     {unat (reg_base r) div PAGE_SIZE ..< unat (reg_base r) div PAGE_SIZE + unat (reg_length r) div PAGE_SIZE mod 2 ^ 32}"

definition usable :: "MemoryRegionT \<Rightarrow> bool" where
  "usable r = (reg_type r = Available \<and> \<not> reg_base r < 0x100000)"

definition mapped_frames :: "MappedMemoryT \<Rightarrow> nat set" where
  "mapped_frames m =
     {unat (physical_base m) div PAGE_SIZE ..<
      unat (physical_base m) div PAGE_SIZE + (map_length m div PAGE_SIZE + (if map_length m mod PAGE_SIZE \<noteq> 0 then 1 else 0))}"

lemma free_regions_used:
  "\<forall>r\<in>set rs. usable r \<longrightarrow> (\<forall>f\<in>region_frames r. in_bitmap p f) \<Longrightarrow>
   \<exists>p'. free_regions rs p = Some p' \<and> length (bitmap p') = length (bitmap p) \<and> bitmap_size_words p' = bitmap_size_words p \<and>
     (\<forall>f. used p' f = (used p f \<and> \<not> (\<exists>r\<in>set rs. usable r \<and> f \<in> region_frames r)))"
proof (induction rs arbitrary: p)
  case (Cons r rs)
  show ?case
  proof (cases "usable r")
    case True
    let ?s = "unat (reg_base r) div PAGE_SIZE" and ?n = "unat (reg_length r) div PAGE_SIZE mod 2 ^ 32"
    have "\<forall>g. ?s \<le> g \<and> g < ?s + ?n \<longrightarrow> in_bitmap p g" using Cons.prems True by (auto simp: region_frames_def)
    from clear_range_used [OF this] obtain p1 where p1: "clear_range ?s ?n p = Some p1"
      "\<forall>g. used p1 g = (used p g \<and> \<not> (?s \<le> g \<and> g < ?s + ?n))" "length (bitmap p1) = length (bitmap p)"
      "bitmap_size_words p1 = bitmap_size_words p" by blast
    have u: "used p1 g = (used p g \<and> g \<notin> region_frames r)" for g using p1(2) by (simp add: region_frames_def)
    have "\<forall>r\<in>set rs. usable r \<longrightarrow> (\<forall>f\<in>region_frames r. in_bitmap p1 f)" using Cons.prems p1(3) by simp
    from Cons.IH [OF this] p1(1,3,4) True u show ?thesis by (auto simp: usable_def)
  next
    case False
    with Cons.IH [of p] Cons.prems show ?thesis by (auto simp: usable_def)
  qed
qed simp

lemma protect_regions_used:
  "\<forall>m\<in>set ms. map_used m \<longrightarrow> (\<forall>f\<in>mapped_frames m. in_bitmap p f) \<Longrightarrow>
   \<exists>p'. protect_regions ms p = Some p' \<and> length (bitmap p') = length (bitmap p) \<and> bitmap_size_words p' = bitmap_size_words p \<and>
     (\<forall>f. used p' f = (used p f \<or> (\<exists>m\<in>set ms. map_used m \<and> f \<in> mapped_frames m)))"
proof (induction ms arbitrary: p)
  case (Cons m ms)
  show ?case
  proof (cases "map_used m")
    case True
    let ?s = "unat (physical_base m) div PAGE_SIZE"
    let ?n = "map_length m div PAGE_SIZE + (if map_length m mod PAGE_SIZE \<noteq> 0 then 1 else 0)"
    have "\<forall>g. ?s \<le> g \<and> g < ?s + ?n \<longrightarrow> in_bitmap p g"
      using Cons.prems True unfolding mapped_frames_def by simp
    from set_range_used [OF this] obtain p1 where p1: "set_range ?s ?n p = Some p1"
      "\<forall>g. used p1 g = (used p g \<or> ?s \<le> g \<and> g < ?s + ?n)" "length (bitmap p1) = length (bitmap p)"
      "bitmap_size_words p1 = bitmap_size_words p" by blast
    have u: "used p1 g = (used p g \<or> g \<in> mapped_frames m)" for g using p1(2) by (simp add: mapped_frames_def)
    have "\<forall>m\<in>set ms. map_used m \<longrightarrow> (\<forall>f\<in>mapped_frames m. in_bitmap p1 f)" using Cons.prems p1(3) by simp
    from Cons.IH [OF this] p1(1,3,4) True u show ?thesis by auto
  next
    case False
    with Cons.IH [of p] Cons.prems show ?thesis by auto
  qed
qed simp

lemma free_regions_overrun:
  "r \<in> set rs \<Longrightarrow> usable r \<Longrightarrow> f \<in> region_frames r \<Longrightarrow> \<not> in_bitmap p f \<Longrightarrow> free_regions rs p = None"
proof (induction rs arbitrary: p)
  case (Cons r' rs)
  let ?s = "unat (reg_base r') div PAGE_SIZE" and ?n = "unat (reg_length r') div PAGE_SIZE mod 2 ^ 32"
  show ?case
  proof (cases "r' = r")
    case True
    then have "clear_range ?s ?n p = None"
      using Cons.prems(3,4) by (intro clear_range_overrun [of _ f]) (auto simp: region_frames_def)
    with True Cons.prems(2) show ?thesis by (simp add: usable_def)
  next
    case False
    with Cons.prems(1) have "r \<in> set rs" by simp
    note IH = Cons.IH [OF this Cons.prems(2,3)]
    show ?thesis
    proof (cases "clear_range ?s ?n p")
      case None
      then show ?thesis using IH [OF Cons.prems(4)] by simp
    next
      case (Some p1)
      then have "\<not> in_bitmap p1 f" using Cons.prems(4) clear_range_length by fastforce
      with IH [OF Cons.prems(4)] IH [of p1] Some show ?thesis by simp
    qed
  qed
qed simp

lemma init_bitmap_words:
  "bitmap (init_bitmap rs p) = replicate (bitmap_size_words (init_bitmap rs p)) BITMAP_INIT @
     drop (bitmap_size_words (init_bitmap rs p)) (bitmap p)"
  by (simp add: init_bitmap_def Let_def split_def)

lemma init_bitmap_size: "bitmap_size_words (init_bitmap rs p) \<le> BITMAP_MAX_SIZE"
  by (simp add: init_bitmap_def Let_def split_def)

lemma init_bitmap_used:
  assumes "length (bitmap p) = BITMAP_MAX_SIZE"
  shows "pmm_ok (init_bitmap rs p)" "\<forall>f < max_frames_of (init_bitmap rs p). used (init_bitmap rs p) f"
proof -
  have "length (bitmap (init_bitmap rs p)) = BITMAP_MAX_SIZE"
    using assms init_bitmap_size [of rs p] by (subst init_bitmap_words) simp
  then show "pmm_ok (init_bitmap rs p)" using init_bitmap_size by (simp add: pmm_ok_def)
  show "\<forall>f < max_frames_of (init_bitmap rs p). used (init_bitmap rs p) f"
  proof (intro allI impI)
    fix f assume "f < max_frames_of (init_bitmap rs p)"
    then have "f div 32 < bitmap_size_words (init_bitmap rs p)" by (simp add: max_frames_of_def div_less_iff_less_mult)
    then have w: "bitmap (init_bitmap rs p) ! (f div 32) = BITMAP_INIT"
      by (subst init_bitmap_words) (simp add: nth_append)
    have "f div 32 * 32 \<le> f" "f < f div 32 * 32 + 32" by linarith+
    with w show "used (init_bitmap rs p) f" by (intro full_word_used [of _ "f div 32 * 32"]) simp_all
  qed
qed

text \<open>What the frame bitmap says after boot. If no usable region and no mapped region
  extends beyond the 512 MiB the bitmap covers, \<open>init_pmm\<close> returns, and a managed frame is
  free exactly when a usable region (available RAM starting at 1 MiB or above) holds it and no
  region the boot loader mapped does; so the allocator can never hand out the kernel image.\<close>

theorem init_pmm_spec:
  assumes "length (bitmap p) = BITMAP_MAX_SIZE"
    "\<forall>r\<in>set rs. usable r \<longrightarrow> (\<forall>f\<in>region_frames r. f < 131072)"
    "\<forall>m\<in>set ms. map_used m \<longrightarrow> (\<forall>f\<in>mapped_frames m. f < 131072)"
  shows "\<exists>p'. init_pmm rs ms p = Some p' \<and> pmm_ok p' \<and>
    (\<forall>f < max_frames_of p'. used p' f \<longleftrightarrow>
       \<not> (\<exists>r\<in>set rs. usable r \<and> f \<in> region_frames r) \<or> (\<exists>m\<in>set ms. map_used m \<and> f \<in> mapped_frames m))"
proof -
  let ?p1 = "init_bitmap rs p"
  note i = init_bitmap_used [OF assms(1), of rs]
  have len: "length (bitmap ?p1) = BITMAP_MAX_SIZE" using i(1) by (simp add: pmm_ok_def)
  have in1: "in_bitmap q f" if "f < 131072" "length (bitmap q) = length (bitmap ?p1)" for f and q :: pmm
    using that len by (simp add: div_less_iff_less_mult)
  have "\<forall>r\<in>set rs. usable r \<longrightarrow> (\<forall>f\<in>region_frames r. in_bitmap ?p1 f)" using assms(2) in1 [OF _ refl] by blast
  from free_regions_used [OF this] obtain p2 where p2: "free_regions rs ?p1 = Some p2" "length (bitmap p2) = length (bitmap ?p1)"
    "bitmap_size_words p2 = bitmap_size_words ?p1"
    "\<forall>f. used p2 f = (used ?p1 f \<and> \<not> (\<exists>r\<in>set rs. usable r \<and> f \<in> region_frames r))"
    by blast
  have "\<forall>m\<in>set ms. map_used m \<longrightarrow> (\<forall>f\<in>mapped_frames m. in_bitmap p2 f)" using assms(3) in1 [OF _ p2(2)] by blast
  from protect_regions_used [OF this] obtain p3 where p3: "protect_regions ms p2 = Some p3" "length (bitmap p3) = length (bitmap p2)"
    "bitmap_size_words p3 = bitmap_size_words p2"
    "\<forall>f. used p3 f = (used p2 f \<or> (\<exists>m\<in>set ms. map_used m \<and> f \<in> mapped_frames m))"
    by blast
  have "max_frames_of p3 = max_frames_of ?p1" using p2(3) p3(3) by (simp add: max_frames_of_def)
  moreover have "pmm_ok p3" using i(1) p2(2,3) p3(2,3) by (simp add: pmm_ok_def)
  moreover have "init_pmm rs ms p = Some p3" using p2(1) p3(1) by (simp add: init_pmm_def)
  moreover have "\<forall>f < max_frames_of ?p1. used p3 f \<longleftrightarrow>
       \<not> (\<exists>r\<in>set rs. usable r \<and> f \<in> region_frames r) \<or> (\<exists>m\<in>set ms. map_used m \<and> f \<in> mapped_frames m)"
    using i(2) unfolding p3(4) [rule_format] p2(4) [rule_format] by blast
  ultimately show ?thesis by (intro exI [of _ p3]) simp
qed

definition demo_regions :: "MemoryRegionT list" where
  "demo_regions = [\<lparr>reg_base = 0, reg_length = 0x9F000, reg_type = Available\<rparr>,
                   \<lparr>reg_base = 0x100000, reg_length = 0x1F00000, reg_type = Available\<rparr>]"

definition demo_mapped :: "MappedMemoryT list" where
  "demo_mapped = [\<lparr>physical_base = 0x100000, map_length = 0x80000, map_used = True\<rparr>]"

definition blank_pmm :: pmm where
  "blank_pmm = \<lparr>bitmap = replicate BITMAP_MAX_SIZE 0, total_frames = 0, bitmap_size_words = 0\<rparr>"

theorem init_pmm_spec_witness:
  "\<exists>p'. init_pmm demo_regions demo_mapped blank_pmm = Some p' \<and> pmm_ok p'"
proof -
  have "\<exists>p'. init_pmm demo_regions demo_mapped blank_pmm = Some p' \<and> pmm_ok p' \<and>
    (\<forall>f < max_frames_of p'. used p' f \<longleftrightarrow>
       \<not> (\<exists>r\<in>set demo_regions. usable r \<and> f \<in> region_frames r) \<or>
       (\<exists>m\<in>set demo_mapped. map_used m \<and> f \<in> mapped_frames m))"
    by (rule init_pmm_spec)
      (auto simp: blank_pmm_def demo_regions_def demo_mapped_def usable_def region_frames_def mapped_frames_def)
  then show ?thesis by blast
qed

text \<open>The truncation to 512 MiB does not hold where it matters: \<open>init_pmm\<close> limits
  \<open>bitmap_size_words\<close> to the array, but the loop that frees the usable regions does not look at
  it, so any usable region that reaches beyond 512 MiB makes it write past the array
  (\<open>None\<close>).\<close>

theorem init_pmm_overruns_bitmap:
  assumes "length (bitmap p) = BITMAP_MAX_SIZE" "r \<in> set rs" "usable r" "f \<in> region_frames r" "131072 \<le> f"
  shows "init_pmm rs ms p = None"
proof -
  have "\<not> in_bitmap (init_bitmap rs p) f"
    using init_bitmap_used(1) [OF assms(1), of rs] assms(5) by (simp add: pmm_ok_def not_less div_le_mono)
  from free_regions_overrun [OF assms(2-4) this] show ?thesis by (simp add: init_pmm_def)
qed

definition demo_big_region :: MemoryRegionT where
  "demo_big_region = \<lparr>reg_base = 0x100000, reg_length = 0x3FF00000, reg_type = Available\<rparr>"

theorem init_pmm_overruns_bitmap_witness: "init_pmm [demo_big_region] [] blank_pmm = None"
  by (rule init_pmm_overruns_bitmap [of _ demo_big_region _ 200000])
    (simp_all add: blank_pmm_def demo_big_region_def usable_def region_frames_def)

end
