(* ===== verification/Page_Tables.thy ===== *)
theory Page_Tables
  imports Phys_Memory "HOL-Library.Monad_Syntax"
begin

text \<open>
  The two-level page tables of the x86 HAL (\<open>vmm.cpp\<close>). Physical memory is a function from
  frame number and word index to 32-bit words. The code reaches page directories and page
  tables only through the recursive window, so every access of the model goes through the
  walk the processor makes (\<open>mmu_frame\<close>); an access through an absent mapping is the value
  \<open>None\<close> (a page fault). TLB flushes have no counterpart: a walk always reads the tables.
\<close>

record hal =
  pm :: pmm
  mem :: "nat \<Rightarrow> nat \<Rightarrow> u32"
  cr3 :: u32
  roots :: "u32 list"      \<comment> \<open>\<open>g_roots[0 .. g_root_count)\<close>\<close>

subsection \<open>Entries\<close>

abbreviation PRESENT :: u32 where "PRESENT \<equiv> 1"
abbreviation WRITABLE :: u32 where "WRITABLE \<equiv> 2"
abbreviation USER :: u32 where "USER \<equiv> 4"
abbreviation WRITE_THROUGH :: u32 where "WRITE_THROUGH \<equiv> 8"
abbreviation CACHE_DISABLE :: u32 where "CACHE_DISABLE \<equiv> 16"

definition set_frame :: "u32 \<Rightarrow> u32 \<Rightarrow> u32" where
  "set_frame physical_address flags = (physical_address AND 0xFFFFF000) OR flags"

definition get_frame :: "u32 \<Rightarrow> u32" where
  "get_frame e = e AND 0xFFFFF000"

definition is_present :: "u32 \<Rightarrow> bool" where
  "is_present e = (e AND PRESENT \<noteq> 0)"

definition has_flag :: "u32 \<Rightarrow> u32 \<Rightarrow> bool" where
  "has_flag fmask flag = (fmask AND flag = flag)"

abbreviation P_READ :: u32 where "P_READ \<equiv> 1"
abbreviation P_WRITE :: u32 where "P_WRITE \<equiv> 2"
abbreviation P_EXEC :: u32 where "P_EXEC \<equiv> 4"
abbreviation P_USER :: u32 where "P_USER \<equiv> 8"
abbreviation P_NOCACHE :: u32 where "P_NOCACHE \<equiv> 16"

definition translate_flags :: "u32 \<Rightarrow> u32" where
  "translate_flags flags =
     (let f1 = PRESENT;
          f2 = (if has_flag flags P_WRITE then f1 OR WRITABLE else f1);
          f3 = (if has_flag flags P_USER then f2 OR USER else f2)
      in if has_flag flags P_NOCACHE then f3 OR CACHE_DISABLE OR WRITE_THROUGH else f3)"

subsection \<open>The walk and the recursive window\<close>

definition frame_no :: "u32 \<Rightarrow> nat" where
  "frame_no a = unat (drop_bit 12 a)"

definition pd_index :: "u32 \<Rightarrow> nat" where
  "pd_index va = unat (drop_bit 22 va)"

definition pt_index :: "u32 \<Rightarrow> nat" where
  "pt_index va = unat (drop_bit 12 va AND 0x3FF)"

definition mmu_frame :: "hal \<Rightarrow> u32 \<Rightarrow> nat option" where
  "mmu_frame h va =
     (let pde = mem h (frame_no (cr3 h)) (pd_index va) in
      if is_present pde then
        let pte = mem h (frame_no pde) (pt_index va) in
        if is_present pte then Some (frame_no pte) else None
      else None)"

abbreviation RECURSIVE_PT_WINDOW :: u32 where "RECURSIVE_PT_WINDOW \<equiv> 0xFFC00000"
abbreviation RECURSIVE_PD_WINDOW :: u32 where "RECURSIVE_PD_WINDOW \<equiv> 0xFFFFF000"
abbreviation TEMP_PD_SLOT :: nat where "TEMP_PD_SLOT \<equiv> 1022"
abbreviation KERNEL_SPLIT :: nat where "KERNEL_SPLIT \<equiv> 768"
abbreviation MAX_ADDRESS_SPACES :: nat where "MAX_ADDRESS_SPACES \<equiv> 64"

definition get_page_directory :: "hal \<Rightarrow> nat option" where
  "get_page_directory h = mmu_frame h RECURSIVE_PD_WINDOW"

definition window :: "nat \<Rightarrow> hal \<Rightarrow> nat option" where
  "window slot h = mmu_frame h (RECURSIVE_PT_WINDOW + of_nat (slot * 4096))"

definition get_page_table :: "u32 \<Rightarrow> hal \<Rightarrow> nat option" where
  "get_page_table va h = window (pd_index va) h"

definition put :: "nat \<Rightarrow> nat \<Rightarrow> u32 \<Rightarrow> hal \<Rightarrow> hal" where
  "put f i v h = h\<lparr>mem := (mem h)(f := (mem h f)(i := v))\<rparr>"

definition directory :: "nat \<Rightarrow> hal \<Rightarrow> u32 option" where
  "directory i h = do { f \<leftarrow> get_page_directory h; Some (mem h f i) }"

definition set_directory :: "nat \<Rightarrow> u32 \<Rightarrow> hal \<Rightarrow> hal option" where
  "set_directory i v h = do { f \<leftarrow> get_page_directory h; Some (put f i v h) }"

definition window_read :: "nat \<Rightarrow> nat \<Rightarrow> hal \<Rightarrow> u32 option" where
  "window_read slot i h = do { f \<leftarrow> window slot h; Some (mem h f i) }"

definition window_write :: "nat \<Rightarrow> nat \<Rightarrow> u32 \<Rightarrow> hal \<Rightarrow> hal option" where
  "window_write slot i v h = do { f \<leftarrow> window slot h; Some (put f i v h) }"

primrec window_clear :: "nat \<Rightarrow> nat \<Rightarrow> hal \<Rightarrow> hal option" where
  "window_clear slot 0 h = Some h"
| "window_clear slot (Suc n) h = do { h \<leftarrow> window_clear slot n h; window_write slot n 0 h }"

subsection \<open>Operations\<close>

definition HAL_VMM_GetCurrentTranslationRoot :: "hal \<Rightarrow> u32" where
  "HAL_VMM_GetCurrentTranslationRoot h = cr3 h"

definition HAL_VMM_GetPhysicalAddress :: "u32 \<Rightarrow> hal \<Rightarrow> u32 option" where
  "HAL_VMM_GetPhysicalAddress va h = do {
     pde \<leftarrow> directory (pd_index va) h;
     if \<not> is_present pde then Some 0
     else do {
       pte \<leftarrow> window_read (pd_index va) (pt_index va) h;
       if \<not> is_present pte then Some 0 else Some (get_frame pte + (va AND 0xFFF)) } }"

definition HAL_VMM_SwitchAddressSpace :: "u32 \<Rightarrow> hal \<Rightarrow> hal" where
  "HAL_VMM_SwitchAddressSpace new_root h = h\<lparr>cr3 := new_root\<rparr>"

definition register_root :: "u32 \<Rightarrow> hal \<Rightarrow> hal" where
  "register_root root h =
     (if length (roots h) < MAX_ADDRESS_SPACES then h\<lparr>roots := roots h @ [root]\<rparr> else h)"

fun swap_remove :: "u32 \<Rightarrow> u32 list \<Rightarrow> u32 list" where
  "swap_remove root [] = []"
| "swap_remove root (r # rs) =
     (if r = root then (if rs = [] then [] else last rs # butlast rs) else r # swap_remove root rs)"

definition unregister_root :: "u32 \<Rightarrow> hal \<Rightarrow> hal" where
  "unregister_root root h = h\<lparr>roots := swap_remove root (roots h)\<rparr>"

definition init_vmm :: "hal \<Rightarrow> hal option" where
  "init_vmm h = do {
     h1 \<leftarrow> set_directory 1023 (set_frame (cr3 h) (PRESENT OR WRITABLE OR USER)) h;
     Some (register_root (cr3 h) h1) }"

fun propagate_loop :: "nat \<Rightarrow> u32 list \<Rightarrow> hal \<Rightarrow> hal option" where
  "propagate_loop pd [] h = Some h"
| "propagate_loop pd (r # rs) h =
     (if r = HAL_VMM_GetCurrentTranslationRoot h then propagate_loop pd rs h
      else do {
        h1 \<leftarrow> set_directory TEMP_PD_SLOT (set_frame r (PRESENT OR WRITABLE)) h;
        e \<leftarrow> directory pd h1;
        h2 \<leftarrow> window_write TEMP_PD_SLOT pd e h1;
        propagate_loop pd rs h2 })"

definition propagate_kernel_pde :: "nat \<Rightarrow> hal \<Rightarrow> hal option" where
  "propagate_kernel_pde pd h = do {
     h1 \<leftarrow> propagate_loop pd (roots h) h;
     set_directory TEMP_PD_SLOT 0 h1 }"

primrec clone_loop :: "nat \<Rightarrow> hal \<Rightarrow> hal option" where
  "clone_loop 0 h = Some h"
| "clone_loop (Suc n) h = do {
     h1 \<leftarrow> clone_loop n h;
     e \<leftarrow> directory (KERNEL_SPLIT + n) h1;
     window_write TEMP_PD_SLOT (KERNEL_SPLIT + n) e h1 }"

definition HAL_VMM_CreateAddressSpace :: "hal \<Rightarrow> (u32 \<times> hal) option" where
  "HAL_VMM_CreateAddressSpace h = do {
     (a, p) \<leftarrow> HAL_PMM_AllocateFrames 1 (pm h);
     let h0 = h\<lparr>pm := p\<rparr> in
     if a = 0 then Some (0, h0)
     else do {
       h1 \<leftarrow> set_directory TEMP_PD_SLOT (set_frame a (PRESENT OR WRITABLE)) h0;
       h2 \<leftarrow> window_clear TEMP_PD_SLOT KERNEL_SPLIT h1;
       h3 \<leftarrow> clone_loop (1023 - KERNEL_SPLIT) h2;
       h4 \<leftarrow> window_write TEMP_PD_SLOT TEMP_PD_SLOT 0 h3;
       h5 \<leftarrow> window_write TEMP_PD_SLOT 1023 (set_frame a (PRESENT OR WRITABLE)) h4;
       h6 \<leftarrow> set_directory TEMP_PD_SLOT 0 h5;
       Some (a, register_root a h6) } }"

primrec reclaim_loop :: "nat \<Rightarrow> hal \<Rightarrow> hal option" where
  "reclaim_loop 0 h = Some h"
| "reclaim_loop (Suc n) h = do {
     h1 \<leftarrow> reclaim_loop n h;
     e \<leftarrow> window_read TEMP_PD_SLOT n h1;
     if is_present e then do {
       p \<leftarrow> HAL_PMM_FreeFrames (get_frame e) 1 (pm h1);
       window_write TEMP_PD_SLOT n 0 (h1\<lparr>pm := p\<rparr>) }
     else Some h1 }"

definition HAL_VMM_DestroyAddressSpace :: "u32 \<Rightarrow> hal \<Rightarrow> hal option" where
  "HAL_VMM_DestroyAddressSpace root h =
     (if root = 0 then Some h
      else do {
        h1 \<leftarrow> set_directory TEMP_PD_SLOT (set_frame root (PRESENT OR WRITABLE)) h;
        h2 \<leftarrow> reclaim_loop KERNEL_SPLIT h1;
        h3 \<leftarrow> set_directory TEMP_PD_SLOT 0 h2;
        let h4 = unregister_root root h3 in do {
        p \<leftarrow> HAL_PMM_FreeFrames root 1 (pm h4);
        Some (h4\<lparr>pm := p\<rparr>) } })"

definition add_table :: "u32 \<Rightarrow> hal \<Rightarrow> (bool \<times> hal) option" where
  "add_table va h = do {
     (a, p) \<leftarrow> HAL_PMM_AllocateFrames 1 (pm h);
     let h0 = h\<lparr>pm := p\<rparr> in
     if a = 0 then Some (False, h0)
     else do {
       h1 \<leftarrow> set_directory (pd_index va) (set_frame a (PRESENT OR WRITABLE OR USER)) h0;
       h2 \<leftarrow> window_clear (pd_index va) 1024 h1;
       h3 \<leftarrow> (if KERNEL_SPLIT \<le> pd_index va \<and> pd_index va < TEMP_PD_SLOT
               then propagate_kernel_pde (pd_index va) h2 else Some h2);
       Some (True, h3) } }"

definition HAL_VMM_MapPage :: "u32 \<Rightarrow> u32 \<Rightarrow> u32 \<Rightarrow> hal \<Rightarrow> (bool \<times> hal) option" where
  "HAL_VMM_MapPage va pa flags h = do {
     pde \<leftarrow> directory (pd_index va) h;
     (ok, h1) \<leftarrow> (if is_present pde then Some (True, h) else add_table va h);
     if \<not> ok then Some (False, h1)
     else do {
       pte \<leftarrow> window_read (pd_index va) (pt_index va) h1;
       if is_present pte then Some (False, h1)
       else do {
         h2 \<leftarrow> window_write (pd_index va) (pt_index va) (set_frame pa (translate_flags flags)) h1;
         Some (True, h2) } } }"

fun table_is_empty :: "nat \<Rightarrow> nat \<Rightarrow> hal \<Rightarrow> bool option" where
  "table_is_empty slot 0 h = Some True"
| "table_is_empty slot (Suc n) h = do {
     b \<leftarrow> table_is_empty slot n h;
     if b then do { e \<leftarrow> window_read slot n h; Some (\<not> is_present e) } else Some False }"

definition HAL_VMM_UnmapPage :: "u32 \<Rightarrow> hal \<Rightarrow> hal option" where
  "HAL_VMM_UnmapPage va h = do {
     pde \<leftarrow> directory (pd_index va) h;
     if is_present pde then do {
       h1 \<leftarrow> window_write (pd_index va) (pt_index va) 0 h;
       b \<leftarrow> table_is_empty (pd_index va) 1024 h1;
       if b \<and> pd_index va < KERNEL_SPLIT then do {
         e \<leftarrow> directory (pd_index va) h1;
         h2 \<leftarrow> set_directory (pd_index va) 0 h1;
         p \<leftarrow> HAL_PMM_FreeFrames (get_frame e) 1 (pm h2);
         Some (h2\<lparr>pm := p\<rparr>) }
       else Some h1 }
     else Some h }"

definition ensure_page_user_writable :: "u32 \<Rightarrow> u32 \<Rightarrow> hal \<Rightarrow> hal option" where
  "ensure_page_user_writable va pa h = do {
     pde \<leftarrow> directory (pd_index va) h;
     r \<leftarrow> (if \<not> is_present pde then do {
            (a, p) \<leftarrow> HAL_PMM_AllocateFrames 1 (pm h);
            let h0 = h\<lparr>pm := p\<rparr> in
            if a = 0 then Some (False, h0)
            else do {
              h1 \<leftarrow> set_directory (pd_index va) (set_frame a (PRESENT OR WRITABLE OR USER)) h0;
              h2 \<leftarrow> window_clear (pd_index va) 1024 h1;
              Some (True, h2) } }
          else if \<not> has_flag pde USER then do {
            h1 \<leftarrow> set_directory (pd_index va) (set_frame (get_frame pde) (PRESENT OR WRITABLE OR USER)) h;
            Some (True, h1) }
          else Some (True, h));
     if \<not> fst r then Some (snd r)
     else do {
       pte \<leftarrow> window_read (pd_index va) (pt_index va) (snd r);
       if \<not> is_present pte \<or> \<not> has_flag pte USER \<or> \<not> has_flag pte WRITABLE
       then window_write (pd_index va) (pt_index va) (set_frame pa (PRESENT OR WRITABLE OR USER)) (snd r)
       else Some (snd r) } }"

subsection \<open>Entries and indices\<close>

lemma frame_mask: "(0xFFFFF000 :: u32) = NOT (mask 12)"
  by (simp add: mask_eq_exp_minus_1 not_eq_complement)

lemma unat_drop: "unat (drop_bit n (a :: u32)) = unat a div 2 ^ n"
  unfolding unat_drop_bit_eq by (rule drop_bit_eq_div)

lemma unat_less_2p32: "unat (a :: u32) < 4294967296"
  using unsigned_less [of a] by simp

lemma frame_no_get_frame [simp]: "frame_no (get_frame e) = frame_no e"
proof -
  have "drop_bit 12 (e AND 0xFFFFF000) = drop_bit 12 e"
    unfolding frame_mask
    by (rule bit_word_eqI) (auto simp: bit_drop_bit_eq bit_and_iff bit_not_iff bit_mask_iff dest: bit_imp_le_length)
  then show ?thesis by (simp only: frame_no_def get_frame_def)
qed

lemma present_odd: "is_present e = odd e"
  unfolding is_present_def and_one_eq by (simp add: odd_iff_mod_2_eq_one)

lemma not_present_0 [simp]: "\<not> is_present 0"
  by (simp add: is_present_def)

lemma present_set_frame [simp]: "is_present (set_frame pa fl) = odd fl"
  unfolding present_odd set_frame_def even_or_iff even_and_iff by simp

lemma frame_no_set_frame:
  assumes "fl < 4096"
  shows "frame_no (set_frame pa fl) = frame_no pa"
proof -
  have "unat fl < 4096" using assms by (simp add: word_less_nat_alt)
  then have "unat (drop_bit 12 fl) = 0" by (simp only: unat_drop) simp
  then have "drop_bit 12 fl = 0" by (simp only: unat_eq_0)
  then have "drop_bit 12 (set_frame pa fl) = drop_bit 12 (get_frame pa)"
    by (simp only: set_frame_def get_frame_def drop_bit_or or.right_neutral)
  then show ?thesis using frame_no_get_frame [of pa] by (simp only: frame_no_def)
qed

lemma frame_no_inj:
  assumes "get_frame a = a" "get_frame b = b" "frame_no a = frame_no b"
  shows "a = b"
proof (rule bit_word_eqI)
  fix n assume "n < LENGTH(32)"
  have d: "drop_bit 12 a = drop_bit 12 b" using assms(3) by (simp only: frame_no_def unsigned_word_eqI)
  have z: "\<not> bit c n" if "n < 12" "get_frame c = c" for c :: u32
    using that unfolding get_frame_def frame_mask by (metis bit_and_iff bit_mask_iff bit_not_iff)
  show "bit a n = bit b n"
  proof (cases "n < 12")
    case True
    with z assms(1,2) show ?thesis by blast
  next
    case False
    then have "bit a n = bit (drop_bit 12 a) (n - 12)" "bit b n = bit (drop_bit 12 b) (n - 12)"
      by (simp_all add: bit_drop_bit_eq)
    with d show ?thesis by simp
  qed
qed

lemma nth_frame:
  assumes "k < 1048576"
  shows "frame_no (of_nat (k * 4096)) = k" "get_frame (of_nat (k * 4096)) = of_nat (k * 4096)"
proof -
  have u: "unat (of_nat (k * 4096) :: u32) = k * 4096" by (simp only: unat_of_nat) (use assms in simp)
  then show "frame_no (of_nat (k * 4096)) = k" by (simp only: frame_no_def unat_drop) simp
  have "unat (take_bit 12 (of_nat (k * 4096) :: u32)) = 0" by (simp only: unsigned_take_bit_eq u) (simp add: take_bit_eq_mod)
  then have "take_bit 12 (of_nat (k * 4096) :: u32) = 0" by (simp only: unat_eq_0)
  moreover have "bit (take_bit 12 (of_nat (k * 4096) :: u32)) n = bit (of_nat (k * 4096) :: u32) n" if "n < 12" for n
    using that by (simp add: bit_take_bit_iff del: take_bit_eq_0_iff)
  ultimately have "\<not> bit (of_nat (k * 4096) :: u32) n" if "n < 12" for n using that by (simp only: bit_0_eq bot_apply) simp
  then show "get_frame (of_nat (k * 4096)) = of_nat (k * 4096)" unfolding get_frame_def frame_mask
    by (intro bit_word_eqI) (auto simp: bit_and_iff bit_not_iff bit_mask_iff simp del: of_nat_mult)
qed

lemma unat_get_frame: "unat (get_frame x) = unat x div 4096 * 4096"
proof -
  have k: "frame_no x < 1048576" unfolding frame_no_def unat_drop using unat_less_2p32 [of x] by simp
  have "get_frame (get_frame x) = get_frame x" unfolding get_frame_def by (simp add: and.assoc)
  from frame_no_inj [OF this nth_frame(2) [OF k]] have "get_frame x = of_nat (frame_no x * 4096)"
    unfolding frame_no_get_frame nth_frame(1) [OF k] by blast
  moreover have "unat (of_nat (frame_no x * 4096) :: u32) = frame_no x * 4096" by (simp only: unat_of_nat) (use k in simp)
  moreover have "frame_no x = unat x div 4096" by (simp only: frame_no_def unat_drop) simp
  ultimately show ?thesis by simp
qed

lemma odd_translate_flags [simp]: "odd (translate_flags fl)"
  by (simp add: translate_flags_def Let_def even_or_iff)

lemma nat_pd_index: "pd_index va = unat va div 4194304"
  unfolding pd_index_def unat_drop by simp

lemma nat_pt_index: "pt_index va = unat va div 4096 mod 1024"
proof -
  have "(0x3FF :: u32) = mask 10" by (simp add: mask_eq_exp_minus_1)
  then have "drop_bit 12 va AND 0x3FF = take_bit 10 (drop_bit 12 va)" by (simp only: take_bit_eq_mask)
  then show ?thesis by (simp only: pt_index_def unsigned_take_bit_eq unat_drop) (simp add: take_bit_eq_mod)
qed

lemma pd_index_less: "pd_index va < 1024"
  unfolding nat_pd_index using unat_less_2p32 [of va] by linarith

lemma pt_index_less: "pt_index va < 1024"
  by (simp add: nat_pt_index)

lemma window_address:
  assumes "slot < 1024"
  shows "pd_index (RECURSIVE_PT_WINDOW + of_nat (slot * 4096)) = 1023" "pt_index (RECURSIVE_PT_WINDOW + of_nat (slot * 4096)) = slot"
proof -
  have s: "unat (of_nat (slot * 4096) :: u32) = slot * 4096"
    by (simp only: unat_of_nat) (use assms in simp)
  have "unat (RECURSIVE_PT_WINDOW + of_nat (slot * 4096)) = 4290772992 + slot * 4096"
    by (subst unat_plus_if') (use s assms in simp)
  moreover have "(slot + 1023 * 1024) mod 1024 = slot" using assms by (simp only: mod_mult_self1 mod_less)
  then have "(1047552 + slot) mod 1024 = slot" by (simp add: add.commute)
  ultimately show "pd_index (RECURSIVE_PT_WINDOW + of_nat (slot * 4096)) = 1023" "pt_index (RECURSIVE_PT_WINDOW + of_nat (slot * 4096)) = slot"
    using assms by (simp_all add: nat_pd_index nat_pt_index)
qed

lemma pd_window_address: "pd_index RECURSIVE_PD_WINDOW = 1023" "pt_index RECURSIVE_PD_WINDOW = 1023"
  by (simp_all add: nat_pd_index nat_pt_index)

subsection \<open>What the window reaches\<close>

abbreviation root :: "hal \<Rightarrow> nat" where "root h \<equiv> frame_no (cr3 h)"

definition self_mapped :: "hal \<Rightarrow> nat \<Rightarrow> bool" where
  "self_mapped h f = (is_present (mem h f 1023) \<and> frame_no (mem h f 1023) = f)"

lemma get_page_directory_root: "self_mapped h (root h) \<Longrightarrow> get_page_directory h = Some (root h)"
  by (simp add: get_page_directory_def mmu_frame_def pd_window_address self_mapped_def)

lemma window_root:
  assumes "self_mapped h (root h)" "slot < 1024"
  shows "window slot h = (if is_present (mem h (root h) slot) then Some (frame_no (mem h (root h) slot)) else None)"
  using assms unfolding window_def mmu_frame_def window_address [OF assms(2)] by (simp add: self_mapped_def)

lemma put_simps [simp]:
  "mem (put f i v h) g j = (if g = f \<and> j = i then v else mem h g j)"
  "pm (put f i v h) = pm h" "cr3 (put f i v h) = cr3 h" "roots (put f i v h) = roots h"
  "put f i v h\<lparr>pm := p\<rparr> = put f i v (h\<lparr>pm := p\<rparr>)"
  by (simp_all add: put_def)

lemma directory_root [simp]: "self_mapped h (root h) \<Longrightarrow> directory i h = Some (mem h (root h) i)"
  by (simp add: directory_def get_page_directory_root)

lemma set_directory_root [simp]: "self_mapped h (root h) \<Longrightarrow> set_directory i v h = Some (put (root h) i v h)"
  by (simp add: set_directory_def get_page_directory_root)

lemma window_read_root [simp]:
  "self_mapped h (root h) \<Longrightarrow> slot < 1024 \<Longrightarrow> is_present (mem h (root h) slot) \<Longrightarrow>
   window_read slot i h = Some (mem h (frame_no (mem h (root h) slot)) i)"
  by (simp add: window_read_def window_root)

lemma window_write_root [simp]:
  "self_mapped h (root h) \<Longrightarrow> slot < 1024 \<Longrightarrow> is_present (mem h (root h) slot) \<Longrightarrow>
   window_write slot i v h = Some (put (frame_no (mem h (root h) slot)) i v h)"
  by (simp add: window_write_def window_root)

lemma self_mapped_put [simp]: "(f, i) \<noteq> (g, 1023) \<Longrightarrow> self_mapped (put f i v h) g = self_mapped h g"
  by (auto simp: self_mapped_def)

lemma self_mapped_pm [simp]: "self_mapped (h\<lparr>pm := p\<rparr>) f = self_mapped h f"
  "self_mapped (h\<lparr>roots := rs\<rparr>) f = self_mapped h f"
  by (simp_all add: self_mapped_def)

end
