(* ===== verification/Address_Space.thy ===== *)
theory Address_Space
  imports Avl_Tree Page_Tables
begin

text \<open>
  Address spaces as the kernel's memory manager keeps them (\<open>Source/src/vmm.cpp\<close>,
  \<open>memory/vad.hpp\<close>, \<open>virtual_memory.hpp\<close>): an AVL tree of virtual address descriptors (VADs)
  ordered by start address, and a bump pointer. Sizes and addresses are 32-bit words. The
  allocation of a descriptor (\<open>KE_CreateObject\<close>) is an argument: it may fail, and, as the source
  notes, it may itself reserve regions of the same address space.
\<close>

datatype BackingKind = Anonymous | FileBacked | Shared | KernelModule

record KMemoryBackingObject =
  backing_kind :: BackingKind
  backing_size :: u32

record VirtualAddressDescriptor =
  vstart :: u32
  vend :: u32
  vflags :: u32
  backing :: "KMemoryBackingObject option"
  lock_count :: u16

type_synonym VAD = VirtualAddressDescriptor

definition vad_less :: "VAD \<Rightarrow> VAD \<Rightarrow> bool" where
  "vad_less a b = (vstart a < vstart b)"

definition vad_key_less :: "u32 \<Rightarrow> VAD \<Rightarrow> bool" where
  "vad_key_less addr v = (addr < vstart v)"

definition vad_key_eq :: "u32 \<Rightarrow> VAD \<Rightarrow> bool" where
  "vad_key_eq addr v = (addr \<ge> vstart v \<and> addr < vend v)"

record AddressSpace =
  vads :: "VAD avl"
  translation_root :: u32
  asid :: u32
  current_base :: u32
  limit :: u32

definition vad_find :: "u32 \<Rightarrow> AddressSpace \<Rightarrow> VAD loc option" where
  "vad_find addr as = AvlTree_find (vad_key_eq addr) (vad_key_less addr) (vads as)"

definition insert_vad :: "VAD \<Rightarrow> AddressSpace \<Rightarrow> AddressSpace" where
  "insert_vad v as = as\<lparr>vads := AvlTree_insert vad_less v (vads as)\<rparr>"

subsection \<open>Reserving and releasing ranges\<close>

definition align_size :: "u32 \<Rightarrow> u32 \<Rightarrow> u32" where
  "align_size ps sz = (sz + ps - 1) AND NOT (ps - 1)"

type_synonym create = "AddressSpace \<Rightarrow> KernelError option \<times> AddressSpace"

definition exhausted :: "AddressSpace \<Rightarrow> u32 \<Rightarrow> bool" where
  "exhausted as aligned_size = (current_base as > limit as \<or> aligned_size > limit as - current_base as)"

definition reserve_with ::
    "KMemoryBackingObject option \<Rightarrow> u32 \<Rightarrow> create \<Rightarrow> u32 \<Rightarrow> u32 \<Rightarrow> AddressSpace \<Rightarrow> VAD expected \<times> AddressSpace" where
  "reserve_with b ps create sz flags as =
     (if current_base as = 0 then (Inl NotInitialized, as)
      else if sz = 0 then (Inl InvalidSize, as)
      else if sz > 0xFFFFFFFF - (ps - 1) then (Inl ArithmeticOverflow, as)
      else if exhausted as (align_size ps sz) then (Inl AddressSpaceExhausted, as)
      else case create as of
        (Some e, as1) \<Rightarrow> (Inl e, as1)
      | (None, as1) \<Rightarrow>
          if exhausted as1 (align_size ps sz) then (Inl AddressSpaceExhausted, as1)
          else let addr = current_base as1;
                   vad = \<lparr>vstart = addr, vend = addr + sz, vflags = flags, backing = b, lock_count = 0\<rparr>
               in (Inr vad, (insert_vad vad as1)\<lparr>current_base := addr + align_size ps sz\<rparr>))"

definition reserve_vad :: "u32 \<Rightarrow> create \<Rightarrow> u32 \<Rightarrow> u32 \<Rightarrow> AddressSpace \<Rightarrow> VAD expected \<times> AddressSpace" where
  "reserve_vad = reserve_with None"

definition KE_VMM_AllocateRegion :: "u32 \<Rightarrow> create \<Rightarrow> u32 \<Rightarrow> u32 \<Rightarrow> AddressSpace \<Rightarrow> u32 expected \<times> AddressSpace" where
  "KE_VMM_AllocateRegion ps create sz flags as =
     (case reserve_vad ps create sz flags as of
        (Inl e, as1) \<Rightarrow> (Inl e, as1)
      | (Inr vad, as1) \<Rightarrow> (Inr (vstart vad), as1))"

text \<open>\<open>KE_VMM_MapBackingObject\<close> stores the backing object into the descriptor that
  \<open>reserve_vad\<close> has just inserted; the model inserts the descriptor with it.\<close>

definition KE_VMM_MapBackingObject ::
    "u32 \<Rightarrow> create \<Rightarrow> KMemoryBackingObject option \<Rightarrow> u32 \<Rightarrow> u32 \<Rightarrow> AddressSpace \<Rightarrow> VAD expected \<times> AddressSpace" where
  "KE_VMM_MapBackingObject ps create b sz flags as =
     (if b = None then (Inl InvalidArgument, as) else reserve_with b ps create sz flags as)"

definition KE_VMM_FreeRegion :: "u32 \<Rightarrow> AddressSpace \<Rightarrow> KernelError \<times> AddressSpace" where
  "KE_VMM_FreeRegion addr as =
     (case vad_find addr as of
        None \<Rightarrow> (NotFound, as)
      | Some loc \<Rightarrow> (Success, as\<lparr>vads := AvlTree_remove loc\<rparr>))"

subsection \<open>Well-formed address spaces\<close>

definition vad_before :: "VAD \<Rightarrow> VAD \<Rightarrow> bool" where
  "vad_before a b = (vstart a \<le> vend a \<and> vend a \<le> vstart b)"

interpretation vad_order: item_order vad_less
  by unfold_locales (auto simp: vad_less_def)

interpretation vad_lookup: range_lookup vad_key_eq vad_key_less vad_before
  by unfold_locales (auto simp: vad_key_eq_def vad_key_less_def vad_before_def)

abbreviation vad_set :: "AddressSpace \<Rightarrow> VAD set" where
  "vad_set as \<equiv> set (each_order (vads as))"

definition as_ok :: "AddressSpace \<Rightarrow> bool" where
  "as_ok as = (avl_ok (vads as) \<and> sorted_wrt vad_before (each_order (vads as)) \<and>
     (\<forall>v\<in>vad_set as. vstart v < vend v) \<and> current_base as \<le> limit as)"

text \<open>All descriptors lie below the bump pointer: what the reservations alone establish.\<close>

definition bumped :: "AddressSpace \<Rightarrow> bool" where
  "bumped as = (\<forall>v\<in>vad_set as. vend v \<le> current_base as)"

lemma sorted_ordered: "\<forall>v\<in>set xs. vstart v < vend v \<Longrightarrow> sorted_wrt vad_before xs \<Longrightarrow> sorted_wrt (\<lambda>a b. \<not> vad_less b a) xs"
  by (induction xs) (auto simp: vad_before_def vad_less_def)

lemma as_ok_ordered: "as_ok as \<Longrightarrow> ordered vad_less (vads as)"
  by (simp add: as_ok_def ordered_def sorted_ordered)

lemma vad_find_complete:
  assumes "as_ok as" "v \<in> vad_set as" "vad_key_eq addr v"
  shows "\<exists>f cs. vad_find addr as = Some (f, cs) \<and> item f = v"
  using vad_lookup.find_loc_complete [of "vads as" v addr "[]"] assms by (simp add: as_ok_def vad_find_def AvlTree_find_def)

lemma find_loc_key: "find_loc ke kl t cs = Some (f, ds) \<Longrightarrow> ke (item f) \<and> item f \<in> set (each_order t) \<and> f \<noteq> Null"
  by (induction t arbitrary: cs) (auto split: if_splits)

lemma vad_find_sound:
  assumes "vad_find addr as = Some (f, cs)"
  shows "vad_key_eq addr (item f)" "item f \<in> vad_set as" "f \<noteq> Null"
  using find_loc_key [OF assms [unfolded vad_find_def AvlTree_find_def]] by auto

lemma insert_set: "as_ok as \<Longrightarrow> vad_set (insert_vad v as) = insert v (vad_set as)"
  using vad_order.each_order_insert [OF as_ok_ordered, of as v] by (auto simp: insert_vad_def)

lemma insert_vad_ok:
  assumes "as_ok as" "vstart v < vend v" "\<forall>w\<in>vad_set as. vad_before w v \<or> vad_before v w"
  shows "as_ok (insert_vad v as)"
proof -
  note e = vad_order.each_order_insert [OF as_ok_ordered [OF assms(1)], of v]
  have st: "\<forall>w\<in>vad_set as. vstart w < vend w" using assms(1) by (simp add: as_ok_def)
  have lo: "vad_before w v" if "w \<in> vad_set as" "\<not> vad_less v w" for w
    using assms(2,3) st that by (auto simp: vad_before_def vad_less_def)
  have hi: "vad_before v w" if "w \<in> vad_set as" "vad_less v w" for w
    using assms(2,3) st that by (auto simp: vad_before_def vad_less_def)
  have tr: "vad_before x z" if "vad_before x v" "vad_before v z" for x z using that assms(2) by (auto simp: vad_before_def)
  have s: "sorted_wrt vad_before (each_order (vads as))" using assms(1) by (simp add: as_ok_def)
  have "sorted_wrt vad_before (each_order (AvlTree_insert vad_less v (vads as)))"
    unfolding e sorted_wrt_append using lo hi tr s
    by (auto simp: sorted_wrt_filter)
  moreover have "avl_ok (AvlTree_insert vad_less v (vads as))" using assms(1) by (simp add: as_ok_def avl_insert_ok)
  moreover have "\<forall>w\<in>vad_set (insert_vad v as). vstart w < vend w" unfolding insert_set [OF assms(1)] using st assms(2) by simp
  ultimately show ?thesis using assms(1) by (simp add: as_ok_def insert_vad_def)
qed

subsection \<open>Reservation and release\<close>

abbreviation page_size :: u32 where "page_size \<equiv> 4096"

lemma align_size_page:
  assumes "sz \<le> 0xFFFFF000"
  shows "unat (align_size page_size sz) = (unat sz + 4095) div 4096 * 4096" "sz \<le> align_size page_size sz"
proof -
  have "unat (sz + page_size - 1) = unat sz + 4095"
  proof -
    have "sz + page_size - 1 = sz + 4095" by simp
    moreover have "unat sz + 4095 < 4294967296" using assms by (simp add: word_le_nat_alt)
    ultimately show ?thesis by (simp add: unat_word_ariths)
  qed
  moreover have "align_size page_size sz = get_frame (sz + page_size - 1)"
  proof -
    have "page_size - 1 = mask 12" by (simp add: mask_eq_exp_minus_1)
    then show ?thesis by (simp only: align_size_def get_frame_def frame_mask)
  qed
  ultimately show e: "unat (align_size page_size sz) = (unat sz + 4095) div 4096 * 4096" by (simp add: unat_get_frame)
  have "unat sz + 4095 = (unat sz + 4095) div 4096 * 4096 + (unat sz + 4095) mod 4096" by (rule div_mult_mod_eq [symmetric])
  moreover have "(unat sz + 4095) mod 4096 < 4096" by (rule mod_less_divisor) simp
  ultimately have "unat sz \<le> (unat sz + 4095) div 4096 * 4096" by linarith
  then show "sz \<le> align_size page_size sz" unfolding word_le_nat_alt e .
qed

definition extends :: "AddressSpace \<Rightarrow> AddressSpace \<Rightarrow> bool" where
  "extends as as1 = (as_ok as1 \<and> bumped as1 \<and> vad_set as \<subseteq> vad_set as1 \<and> limit as1 = limit as \<and>
     translation_root as1 = translation_root as \<and> current_base as \<le> current_base as1 \<and> current_base as1 \<noteq> 0)"

lemma reserve_with_spec:
  assumes "as_ok as" "bumped as" "extends as (snd (create as))"
    "reserve_with b page_size create sz flags as = (r, as')"
  shows "case r of
      Inl e \<Rightarrow> as_ok as' \<and> bumped as' \<and> vad_set as \<subseteq> vad_set as'
    | Inr v \<Rightarrow> as_ok as' \<and> bumped as' \<and> insert v (vad_set as) \<subseteq> vad_set as' \<and>
        (\<forall>w\<in>vad_set as' - {v}. vend w \<le> vstart v) \<and>
        unat (vend v) = unat (vstart v) + unat sz \<and> vend v \<le> limit as \<and> current_base as \<le> vstart v \<and>
        vflags v = flags \<and> backing v = b"
proof -
  obtain ce as1 where c: "create as = (ce, as1)" by force
  have e: "extends as as1" using assms(3) c by simp
  show ?thesis
  proof (cases "current_base as = 0 \<or> sz = 0 \<or> sz > 0xFFFFFFFF - (page_size - 1) \<or> exhausted as (align_size page_size sz)
      \<or> ce \<noteq> None \<or> exhausted as1 (align_size page_size sz)")
    case True
    with assms(4) c have "(\<exists>x. r = Inl x) \<and> (as' = as \<or> as' = as1)"
      by (auto simp: reserve_with_def split: if_splits option.splits)
    with e assms(1,2) show ?thesis by (auto simp: extends_def)
  next
    case False
    let ?a = "align_size page_size sz" and ?v = "\<lparr>vstart = current_base as1, vend = current_base as1 + sz, vflags = flags, backing = b, lock_count = 0\<rparr>"
    have r: "r = Inr ?v" "as' = (insert_vad ?v as1)\<lparr>current_base := current_base as1 + ?a\<rparr>"
      using assms(4) c False by (auto simp: reserve_with_def Let_def)
    have "sz \<le> 0xFFFFF000" using False by (simp add: not_less)
    note al = align_size_page [OF this]
    have ok1: "as_ok as1" "bumped as1" "current_base as1 \<le> limit as" "limit as1 = limit as" using e by (auto simp: extends_def as_ok_def)
    have ll: "?a \<le> limit as - current_base as1" using False ok1(4) by (auto simp: exhausted_def not_less)
    have u1: "unat (limit as - current_base as1) = unat (limit as) - unat (current_base as1)"
      using ok1(3) by (simp add: unat_sub_if' word_le_nat_alt)
    have b1: "unat (current_base as1) + unat ?a \<le> unat (limit as)"
      using ll ok1(3) unfolding word_le_nat_alt u1 by linarith
    have b2: "unat (current_base as1) + unat sz \<le> unat (limit as)" using b1 al(2) unfolding word_le_nat_alt by linarith
    have ua: "unat (current_base as1 + ?a) = unat (current_base as1) + unat ?a"
      using b1 unat_less_2p32 [of "limit as"] by (intro unat_add_lem [THEN iffD1]) simp
    have us: "unat (current_base as1 + sz) = unat (current_base as1) + unat sz"
      using b2 unat_less_2p32 [of "limit as"] by (intro unat_add_lem [THEN iffD1]) simp
    have sz: "0 < unat sz" using False by (simp add: unat_gt_0)
    have lt: "vstart ?v < vend ?v" using us sz by (simp add: word_less_nat_alt)
    have bef: "\<forall>w\<in>vad_set as1. vad_before w ?v" using ok1(1,2) by (auto simp: bumped_def as_ok_def vad_before_def)
    have iok: "as_ok (insert_vad ?v as1)" by (rule insert_vad_ok [OF ok1(1) lt]) (use bef in blast)
    have ins: "vad_set (insert_vad ?v as1) = insert ?v (vad_set as1)" by (rule insert_set [OF ok1(1)])
    have cb: "current_base as1 + sz \<le> current_base as1 + ?a" "current_base as1 \<le> current_base as1 + ?a"
      using us ua al(2) by (simp_all add: word_le_nat_alt)
    have "as_ok as'" using iok ua b1 ok1(4) unfolding r(2) by (simp add: as_ok_def insert_vad_def word_le_nat_alt)
    moreover have "bumped as'" using ins ok1(2) cb unfolding r(2) bumped_def by (auto intro: order_trans)
    moreover have "insert ?v (vad_set as) \<subseteq> vad_set as'" using ins e unfolding r(2) by (auto simp: extends_def)
    moreover have "\<forall>w\<in>vad_set as' - {?v}. vend w \<le> vstart ?v" using ins ok1(2) unfolding r(2) by (auto simp: bumped_def)
    moreover have "vend ?v \<le> limit as" using us b2 by (simp add: word_le_nat_alt)
    moreover have "current_base as \<le> vstart ?v" using e by (simp add: extends_def)
    ultimately show ?thesis unfolding r(1) using us by simp
  qed
qed


definition demo_as :: AddressSpace where
  "demo_as = \<lparr>vads = Null, translation_root = 0x1000, asid = 0, current_base = 0x10000000, limit = 0xC0000000\<rparr>"

lemma demo_as_ok: "as_ok demo_as" "bumped demo_as"
  by (simp_all add: as_ok_def bumped_def demo_as_def)

definition plain_create :: create where
  "plain_create as = (None, as)"

lemma plain_create_extends: "extends demo_as (snd (plain_create demo_as))"
  using demo_as_ok by (auto simp: plain_create_def extends_def demo_as_def)


text \<open>Releasing a region. \<open>KE_VMM_FreeRegion\<close> of any address inside a descriptor's range removes
  exactly that descriptor and keeps the tree well formed; for an address no descriptor covers
  it reports \<open>NotFound\<close> and changes nothing.\<close>

theorem free_region_spec:
  assumes "as_ok as"
  shows "(if \<exists>v\<in>vad_set as. vad_key_eq addr v
     then \<exists>v as'. KE_VMM_FreeRegion addr as = (Success, as') \<and> v \<in> vad_set as \<and> vad_key_eq addr v \<and>
        as_ok as' \<and> vad_set as' = vad_set as - {v} \<and> vad_find addr as' = None \<and> current_base as' = current_base as
     else KE_VMM_FreeRegion addr as = (NotFound, as))"
proof (cases "vad_find addr as")
  case None
  then have "\<not> (\<exists>v\<in>vad_set as. vad_key_eq addr v)" using vad_find_complete [OF assms] by fastforce
  with None show ?thesis by (simp add: KE_VMM_FreeRegion_def)
next
  case (Some loc)
  then obtain f cs where l: "vad_find addr as = Some (f, cs)" by (cases loc) auto
  note s = vad_find_sound [OF l]
  let ?as = "as\<lparr>vads := AvlTree_remove (f, cs)\<rparr>"
  have c: "path_before cs @ each_order f @ path_after cs = each_order (vads as)"
    using find_loc_content [OF l [unfolded vad_find_def AvlTree_find_def]] by simp
  obtain lf x h rt where f: "f = AvlNode lf x h rt" using s(3) by (cases f) auto
  have split: "each_order (vads as) = (path_before cs @ each_order lf) @ x # (each_order rt @ path_after cs)"
    using c f by simp
  have rem: "each_order (vads ?as) = (path_before cs @ each_order lf) @ (each_order rt @ path_after cs)"
    using each_order_remove [OF s(3), of cs] f by simp
  have st: "\<forall>v\<in>vad_set as. vstart v < vend v" and so: "sorted_wrt vad_before (each_order (vads as))"
    using assms by (simp_all add: as_ok_def)
  have "x \<notin> set ((path_before cs @ each_order lf) @ (each_order rt @ path_after cs))"
    using so st unfolding split by (auto simp: sorted_wrt_append vad_before_def dest!: bspec)
  then have set: "vad_set ?as = vad_set as - {x}" unfolding rem split by auto
  have "avl_ok (vads ?as)"
    using avl_find_loc [of "vads as" "[]" "vad_key_eq addr" "vad_key_less addr" f cs] l assms s(3) avl_remove_ok [of f cs]
    by (simp add: vad_find_def AvlTree_find_def as_ok_def)
  moreover have "sorted_wrt vad_before (each_order (vads ?as))" using so unfolding rem split by (auto simp: sorted_wrt_append)
  ultimately have ok: "as_ok ?as" using assms set st by (auto simp: as_ok_def)
  have uniq: "v = x" if v: "v \<in> vad_set as" "vad_key_eq addr v" for v
    using vad_find_complete [OF assms v] l f by auto
  have "vad_find addr ?as = None"
  proof (rule ccontr)
    assume "vad_find addr ?as \<noteq> None"
    then obtain f' cs' where "vad_find addr ?as = Some (f', cs')" by (metis option.exhaust surj_pair)
    from vad_find_sound [OF this] set uniq show False by auto
  qed
  moreover have "KE_VMM_FreeRegion addr as = (Success, ?as)" using l by (simp add: KE_VMM_FreeRegion_def)
  ultimately show ?thesis using s(1,2) f ok set by auto
qed

definition demo_vad :: VAD where
  "demo_vad = \<lparr>vstart = 0x400000, vend = 0x402000, vflags = 3, backing = None, lock_count = 0\<rparr>"

definition demo_as1 :: AddressSpace where
  "demo_as1 = demo_as\<lparr>vads := AvlNode Null demo_vad 1 Null\<rparr>"

theorem free_region_spec_witness:
  "\<exists>as'. KE_VMM_FreeRegion 0x401000 demo_as1 = (Success, as') \<and> vad_set as' = {}"
proof -
  have ok: "as_ok demo_as1" by (simp add: as_ok_def demo_as1_def demo_as_def demo_vad_def)
  have e: "vad_set demo_as1 = {demo_vad}" "vad_key_eq 0x401000 demo_vad" by (simp_all add: demo_as1_def demo_vad_def vad_key_eq_def)
  then have "\<exists>v\<in>vad_set demo_as1. vad_key_eq 0x401000 v" by simp
  with free_region_spec [OF ok, of "0x401000"] e show ?thesis by auto
qed

text \<open>The bump pointer does not look at the tree. When a descriptor placed by
  \<open>map_fixed_memory\<close> covers the bump pointer, a successful reservation returns a region that
  overlaps it: the first address of the new region already belonged to that descriptor.\<close>

theorem reserve_overlaps_fixed:
  assumes "w \<in> vad_set as" "vad_key_eq (current_base as) w" "snd (create as) = as"
    "KE_VMM_AllocateRegion page_size create sz flags as = (Inr addr, as')"
  shows "addr = current_base as \<and> vad_key_eq addr w \<and> 0 < sz"
proof -
  have "addr = current_base as \<and> sz \<noteq> 0"
    using assms(3,4)
    by (auto simp: KE_VMM_AllocateRegion_def reserve_vad_def reserve_with_def Let_def split: if_splits sum.splits prod.splits option.splits)
  with assms(2) show ?thesis by (simp add: word_gt_0)
qed

definition demo_fixed :: VAD where
  "demo_fixed = \<lparr>vstart = 0x10000000, vend = 0x10004000, vflags = 11, backing = None, lock_count = 0\<rparr>"

theorem reserve_overlaps_fixed_witness:
  "\<exists>as'. KE_VMM_AllocateRegion page_size plain_create 0x1000 3 (insert_vad demo_fixed demo_as) = (Inr 0x10000000, as') \<and>
     vad_key_eq 0x10000000 demo_fixed"
proof -
  let ?as = "insert_vad demo_fixed demo_as"
  obtain as' where r: "KE_VMM_AllocateRegion page_size plain_create 0x1000 3 ?as = (Inr 0x10000000, as')"
    by (simp add: KE_VMM_AllocateRegion_def reserve_vad_def reserve_with_def plain_create_def demo_as_def insert_vad_def
        exhausted_def align_size_def Let_def)
  have "demo_fixed \<in> vad_set ?as" using insert_set [OF demo_as_ok(1)] by simp
  moreover have "vad_key_eq (current_base ?as) demo_fixed" by (simp add: insert_vad_def demo_as_def demo_fixed_def vad_key_eq_def)
  moreover have "snd (plain_create ?as) = ?as" by (simp add: plain_create_def)
  ultimately have "vad_key_eq 0x10000000 demo_fixed" using reserve_overlaps_fixed [OF _ _ _ r] by blast
  with r show ?thesis by blast
qed

end
