(* ===== verification/Address_Translation.thy ===== *)
theory Address_Translation
  imports Page_Tables
begin

text \<open>
  What the page-table operations of \<open>Page_Tables\<close> do to address translation. The invariant
  \<open>vm_ok\<close> says that every registered page directory maps itself, that page tables and
  directories occupy distinct frames which the frame allocator knows to be in use, and that
  all address spaces share the kernel half. The abstract view is \<open>tr\<close>: for each address space
  and virtual address, the page-table entry that translates it.
\<close>

definition owned :: "hal \<Rightarrow> nat \<Rightarrow> bool" where
  "owned h f = (0 < f \<and> f < max_frames_of (pm h) \<and> used (pm h) f)"

abbreviation dir_frames :: "hal \<Rightarrow> nat set" where
  "dir_frames h \<equiv> frame_no ` set (roots h)"

definition maps :: "hal \<Rightarrow> nat \<Rightarrow> nat \<Rightarrow> bool" where
  "maps h d i = (i < TEMP_PD_SLOT \<and> is_present (mem h d i))"

abbreviation tbl :: "hal \<Rightarrow> nat \<Rightarrow> nat \<Rightarrow> nat" where
  "tbl h d i \<equiv> frame_no (mem h d i)"

definition roots_ok :: "hal \<Rightarrow> bool" where
  "roots_ok h = (cr3 h \<in> set (roots h) \<and> distinct (roots h) \<and> length (roots h) \<le> MAX_ADDRESS_SPACES \<and>
     (\<forall>r\<in>set (roots h). get_frame r = r) \<and>
     (\<forall>d\<in>dir_frames h. owned h d \<and> self_mapped h d \<and> mem h d TEMP_PD_SLOT = 0))"

definition tables_ok :: "hal \<Rightarrow> bool" where
  "tables_ok h = (\<forall>d\<in>dir_frames h. \<forall>i. maps h d i \<longrightarrow> owned h (tbl h d i) \<and> tbl h d i \<notin> dir_frames h)"

definition tables_inj :: "hal \<Rightarrow> bool" where
  "tables_inj h = (\<forall>d\<in>dir_frames h. \<forall>d'\<in>dir_frames h. \<forall>i i'.
     maps h d i \<and> maps h d' i' \<and> tbl h d i = tbl h d' i' \<longrightarrow> i = i' \<and> (d = d' \<or> KERNEL_SPLIT \<le> i))"

definition kernel_shared :: "hal \<Rightarrow> bool" where
  "kernel_shared h = (\<forall>d\<in>dir_frames h. \<forall>d'\<in>dir_frames h. \<forall>i.
     KERNEL_SPLIT \<le> i \<and> i < TEMP_PD_SLOT \<longrightarrow> mem h d i = mem h d' i)"

definition vm_ok :: "hal \<Rightarrow> bool" where
  "vm_ok h = (pmm_ok (pm h) \<and> used (pm h) 0 \<and> roots_ok h \<and> tables_ok h \<and> tables_inj h \<and> kernel_shared h)"

definition tr :: "hal \<Rightarrow> nat \<Rightarrow> u32 \<Rightarrow> u32 option" where
  "tr h d va =
     (if is_present (mem h d (pd_index va)) \<and> is_present (mem h (tbl h d (pd_index va)) (pt_index va))
      then Some (mem h (tbl h d (pd_index va)) (pt_index va)) else None)"

definition same_page :: "u32 \<Rightarrow> u32 \<Rightarrow> bool" where
  "same_page va va' = (pd_index va = pd_index va' \<and> pt_index va = pt_index va')"

subsection \<open>Consequences of the invariant\<close>

lemma vm_okD:
  assumes "vm_ok h"
  shows "self_mapped h (root h)" "root h \<in> dir_frames h" "mem h (root h) TEMP_PD_SLOT = 0"
    "pmm_ok (pm h)" "used (pm h) 0"
  using assms by (auto simp: vm_ok_def roots_ok_def)

lemma root_tableD:
  assumes "vm_ok h" "d \<in> dir_frames h" "maps h d i"
  shows "owned h (tbl h d i)" "tbl h d i \<notin> dir_frames h"
  using assms by (auto simp: vm_ok_def tables_ok_def)

lemma tables_injD:
  assumes "vm_ok h" "d \<in> dir_frames h" "d' \<in> dir_frames h" "maps h d i" "maps h d' i'" "tbl h d i = tbl h d' i'"
  shows "i = i'" "d = d' \<or> KERNEL_SPLIT \<le> i"
  using assms unfolding vm_ok_def tables_inj_def by blast+

lemma kernel_sharedD:
  assumes "vm_ok h" "d \<in> dir_frames h" "d' \<in> dir_frames h" "KERNEL_SPLIT \<le> i" "i < TEMP_PD_SLOT"
  shows "mem h d i = mem h d' i"
  using assms unfolding vm_ok_def kernel_shared_def by blast

lemma dir_owned: "vm_ok h \<Longrightarrow> d \<in> dir_frames h \<Longrightarrow> owned h d"
  unfolding vm_ok_def roots_ok_def by blast

lemma root_frame_iff:
  assumes "vm_ok h" "r \<in> set (roots h)"
  shows "frame_no r = root h \<longleftrightarrow> r = cr3 h"
  using assms frame_no_inj [of r "cr3 h"] by (auto simp: vm_ok_def roots_ok_def)

lemma vm_ok_mem_cong:
  assumes "\<And>d. d \<in> dir_frames h \<Longrightarrow> mem h' d = mem h d" "pm h' = pm h" "cr3 h' = cr3 h" "roots h' = roots h"
  shows "vm_ok h' = vm_ok h"
  using assms by (simp add: vm_ok_def roots_ok_def tables_ok_def tables_inj_def kernel_shared_def owned_def maps_def self_mapped_def)

subsection \<open>One frame\<close>

lemma free_run_1: "free_run p s (Suc 0) = (\<not> used p s)"
proof -
  have "(s \<le> f \<and> f < s + 1) = (f = s)" for f by linarith
  then show ?thesis by (simp add: free_run_def)
qed

lemma alloc_one:
  assumes "vm_ok h"
  obtains (none) "HAL_PMM_AllocateFrames 1 (pm h) = Some (0, pm h)" "\<forall>f < max_frames_of (pm h). used (pm h) f"
  | (one) a p where "HAL_PMM_AllocateFrames 1 (pm h) = Some (a, p)" "a \<noteq> 0" "get_frame a = a"
      "pmm_ok p" "max_frames_of p = max_frames_of (pm h)"
      "0 < frame_no a" "frame_no a < max_frames_of (pm h)" "\<not> used (pm h) (frame_no a)"
      "\<forall>g. used p g = (used (pm h) g \<or> g = frame_no a)"
proof -
  obtain a p where r: "HAL_PMM_AllocateFrames 1 (pm h) = Some (a, p)" "pmm_ok p" and
    c: "if a = 0 then p = pm h \<and> no_run (pm h) dma_frames (max_frames_of (pm h)) 1 \<and> no_run (pm h) 0 (min dma_frames (max_frames_of (pm h))) 1
     else \<exists>s. unat a = s * PAGE_SIZE \<and> s + 1 \<le> max_frames_of (pm h) \<and> free_run (pm h) s 1 \<and>
            (\<forall>f. used p f = (used (pm h) f \<or> s \<le> f \<and> f < s + 1))"
    using allocate_frames_correct [OF vm_okD(4) [OF assms] _ vm_okD(5) [OF assms], of 1] by auto
  have size: "max_frames_of p = max_frames_of (pm h)"
    using allocate_frames_size [OF r(1)] by (simp add: max_frames_of_def)
  show ?thesis
  proof (cases "a = 0")
    case True
    with c have "p = pm h" "no_run (pm h) dma_frames (max_frames_of (pm h)) 1" "no_run (pm h) 0 (min dma_frames (max_frames_of (pm h))) 1"
      by simp_all
    then have "used (pm h) f" if "f < max_frames_of (pm h)" for f
      using that by (cases "f < dma_frames") (simp_all add: no_run_def free_run_1 Suc_le_eq)
    with that(1) r(1) True \<open>p = pm h\<close> show ?thesis by simp
  next
    case False
    with c obtain s where s: "unat a = s * PAGE_SIZE" "s + 1 \<le> max_frames_of (pm h)" "free_run (pm h) s 1"
      "\<forall>f. used p f = (used (pm h) f \<or> s \<le> f \<and> f < s + 1)" by auto
    have f: "frame_no a = s" using s(1) by (simp only: frame_no_def unat_drop) simp
    have "unat (take_bit 12 a) = 0" using s(1) by (simp only: unsigned_take_bit_eq) (simp add: take_bit_eq_mod)
    then have "take_bit 12 a = 0" by (simp only: unat_eq_0)
    moreover have "bit (take_bit 12 a) n = bit a n" if "n < 12" for n using that by (simp add: bit_take_bit_iff del: take_bit_eq_0_iff)
    ultimately have "\<not> bit a n" if "n < 12" for n using that by (simp only: bit_0_eq bot_apply) simp
    then have al: "get_frame a = a" unfolding get_frame_def frame_mask
      by (intro bit_word_eqI) (auto simp: bit_and_iff bit_not_iff bit_mask_iff)
    have u: "\<not> used (pm h) s" using s(3) by (simp add: free_run_1)
    have "0 < s" using vm_okD(5) [OF assms] u by (cases s) auto
    moreover have "(s \<le> g \<and> g < s + 1) = (g = s)" for g by linarith
    then have "\<forall>g. used p g = (used (pm h) g \<or> g = s)" using s(4) by simp
    ultimately show ?thesis using that(2) [OF r(1) False al r(2) size] s(2) u unfolding f by simp
  qed
qed

lemma free_one:
  assumes "pmm_ok p" "frame_no a < max_frames_of p"
  obtains p' where "HAL_PMM_FreeFrames a 1 p = Some p'" "pmm_ok p'" "max_frames_of p' = max_frames_of p"
    "\<forall>g. used p' g = (used p g \<and> g \<noteq> frame_no a)"
proof -
  have s: "unat a div PAGE_SIZE = frame_no a" by (simp only: frame_no_def unat_drop) simp
  have "\<forall>g. frame_no a \<le> g \<and> g < frame_no a + 1 \<longrightarrow> in_bitmap p g"
    using in_bitmap_max [OF assms] by (auto simp: less_Suc_eq_le dest: le_antisym)
  from clear_range_used [OF this] obtain p' where p': "clear_range (frame_no a) 1 p = Some p'"
    "\<forall>g. used p' g = (used p g \<and> \<not> (frame_no a \<le> g \<and> g < frame_no a + 1))" "length (bitmap p') = length (bitmap p)"
    "bitmap_size_words p' = bitmap_size_words p" by blast
  show ?thesis
  proof (rule that)
    show "HAL_PMM_FreeFrames a 1 p = Some p'" using p'(1) by (simp add: HAL_PMM_FreeFrames_def s)
    show "pmm_ok p'" "max_frames_of p' = max_frames_of p" using assms(1) p'(3,4) by (simp_all add: pmm_ok_def max_frames_of_def)
    have "(frame_no a \<le> g \<and> g < frame_no a + 1) = (g = frame_no a)" for g by linarith
    then show "\<forall>g. used p' g = (used p g \<and> g \<noteq> frame_no a)" using p'(2) by simp
  qed
qed

subsection \<open>The loops over a table\<close>

lemma mem_update_id: "\<forall>f i. g f i = mem h f i \<Longrightarrow> h\<lparr>mem := g\<rparr> = h"
proof -
  assume "\<forall>f i. g f i = mem h f i"
  then have "g = mem h" by blast
  then show ?thesis by simp
qed

lemma mem_update_id': "\<forall>f i. g f i = mem h f i \<Longrightarrow> h = h\<lparr>mem := g\<rparr>"
  using mem_update_id by metis

lemma window_clear_eq:
  assumes "self_mapped h (root h)" "slot < 1023" "is_present (mem h (root h) slot)" "tbl h (root h) slot \<noteq> root h"
  shows "window_clear slot n h = Some (h\<lparr>mem := \<lambda>f i. if f = tbl h (root h) slot \<and> i < n then 0 else mem h f i\<rparr>)"
proof (induction n)
  case 0
  show ?case by simp
next
  case (Suc n)
  let ?h = "h\<lparr>mem := \<lambda>f i. if f = tbl h (root h) slot \<and> i < n then 0 else mem h f i\<rparr>"
  have "self_mapped ?h (root ?h)" using assms by (auto simp: self_mapped_def)
  moreover have "mem ?h (root ?h) slot = mem h (root h) slot" using assms(4) by simp
  ultimately have "window_write slot n 0 ?h = Some (put (tbl h (root h) slot) n 0 ?h)" using assms(2,3) by simp
  moreover have "put (tbl h (root h) slot) n 0 ?h = h\<lparr>mem := \<lambda>f i. if f = tbl h (root h) slot \<and> i < Suc n then 0 else mem h f i\<rparr>"
    by (simp add: put_def fun_eq_iff less_Suc_eq)
  ultimately show ?case using Suc by simp
qed

lemma clone_loop_eq:
  assumes "self_mapped h (root h)" "is_present (mem h (root h) TEMP_PD_SLOT)" "tbl h (root h) TEMP_PD_SLOT \<noteq> root h"
    "n \<le> 255"
  shows "clone_loop n h = Some (h\<lparr>mem := \<lambda>f i. if f = tbl h (root h) TEMP_PD_SLOT \<and> KERNEL_SPLIT \<le> i \<and> i < KERNEL_SPLIT + n
           then mem h (root h) i else mem h f i\<rparr>)"
  using assms(4)
proof (induction n)
  case 0
  show ?case unfolding clone_loop.simps by (intro arg_cong [of _ _ Some] mem_update_id') auto
next
  case (Suc n)
  let ?t = "tbl h (root h) TEMP_PD_SLOT"
  let ?h = "h\<lparr>mem := \<lambda>f i. if f = ?t \<and> KERNEL_SPLIT \<le> i \<and> i < KERNEL_SPLIT + n then mem h (root h) i else mem h f i\<rparr>"
  have s: "self_mapped ?h (root ?h)" using assms by (auto simp: self_mapped_def)
  have m: "mem ?h (root ?h) i = mem h (root h) i" for i using assms(3) by simp
  have "window_write TEMP_PD_SLOT (KERNEL_SPLIT + n) (mem h (root h) (KERNEL_SPLIT + n)) ?h =
      Some (put ?t (KERNEL_SPLIT + n) (mem h (root h) (KERNEL_SPLIT + n)) ?h)"
    using window_write_root [OF s] m [of TEMP_PD_SLOT] assms(2) by simp
  moreover have "put ?t (KERNEL_SPLIT + n) (mem h (root h) (KERNEL_SPLIT + n)) ?h =
      h\<lparr>mem := \<lambda>f i. if f = ?t \<and> KERNEL_SPLIT \<le> i \<and> i < KERNEL_SPLIT + Suc n then mem h (root h) i else mem h f i\<rparr>"
    by (simp add: put_def fun_eq_iff less_Suc_eq)
  moreover have "directory (KERNEL_SPLIT + n) ?h = Some (mem h (root h) (KERNEL_SPLIT + n))"
    using directory_root [OF s] m by simp
  ultimately show ?case using Suc by simp
qed

lemma table_is_empty_eq:
  assumes "self_mapped h (root h)" "slot < 1024" "is_present (mem h (root h) slot)"
  shows "table_is_empty slot n h = Some (\<forall>i<n. \<not> is_present (mem h (tbl h (root h) slot) i))"
  using assms by (induction n) (auto simp: less_Suc_eq)

lemma propagate_loop_eq:
  assumes "pd < TEMP_PD_SLOT"
  shows "self_mapped h (root h) \<Longrightarrow> \<forall>r\<in>set rs. r \<noteq> cr3 h \<longrightarrow> frame_no r \<noteq> root h \<Longrightarrow>
    \<exists>v. propagate_loop pd rs h = Some (h\<lparr>mem := \<lambda>f i. if f = root h \<and> i = TEMP_PD_SLOT then v
          else if i = pd \<and> f \<in> frame_no ` set rs \<and> f \<noteq> root h then mem h (root h) pd else mem h f i\<rparr>)"
proof (induction rs arbitrary: h)
  case Nil
  show ?case by (intro exI [of _ "mem h (root h) TEMP_PD_SLOT"]) (simp add: mem_update_id)
next
  case (Cons r rs)
  show ?case
  proof (cases "r = cr3 h")
    case True
    have "frame_no ` set (r # rs) - {root h} = frame_no ` set rs - {root h}" using True by auto
    then have "f \<in> frame_no ` set (r # rs) \<and> f \<noteq> root h \<longleftrightarrow> f \<in> frame_no ` set rs \<and> f \<noteq> root h" for f by blast
    moreover have "propagate_loop pd (r # rs) h = propagate_loop pd rs h"
      using True by (simp add: HAL_VMM_GetCurrentTranslationRoot_def)
    moreover have "\<forall>r\<in>set rs. r \<noteq> cr3 h \<longrightarrow> frame_no r \<noteq> root h" using Cons.prems(2) by simp
    ultimately show ?thesis using Cons.IH [OF Cons.prems(1)] by (simp only:)
  next
    case False
    with Cons.prems(2) have ne: "frame_no r \<noteq> root h" by simp
    let ?h1 = "put (root h) TEMP_PD_SLOT (set_frame r (PRESENT OR WRITABLE)) h"
    let ?h2 = "put (frame_no r) pd (mem h (root h) pd) ?h1"
    have fl: "frame_no (set_frame r (PRESENT OR WRITABLE)) = frame_no r" "is_present (set_frame r (PRESENT OR WRITABLE))"
      by (simp_all add: frame_no_set_frame)
    have s1: "self_mapped ?h1 (root ?h1)" using Cons.prems(1) by simp
    have w: "window_write TEMP_PD_SLOT pd (mem h (root h) pd) ?h1 = Some ?h2"
      using window_write_root [OF s1] fl by simp
    have s2: "self_mapped ?h2 (root ?h2)" using s1 ne by simp
    have "propagate_loop pd (r # rs) h = propagate_loop pd rs ?h2"
      using Cons.prems(1) False directory_root [OF s1] w assms by (simp add: HAL_VMM_GetCurrentTranslationRoot_def)
    moreover obtain v where "propagate_loop pd rs ?h2 = Some (?h2\<lparr>mem := \<lambda>f i. if f = root ?h2 \<and> i = TEMP_PD_SLOT then v
          else if i = pd \<and> f \<in> frame_no ` set rs \<and> f \<noteq> root ?h2 then mem ?h2 (root ?h2) pd else mem ?h2 f i\<rparr>)"
      using Cons.IH [OF s2] Cons.prems(2) by auto
    moreover have "?h2\<lparr>mem := \<lambda>f i. if f = root ?h2 \<and> i = TEMP_PD_SLOT then v
          else if i = pd \<and> f \<in> frame_no ` set rs \<and> f \<noteq> root ?h2 then mem ?h2 (root ?h2) pd else mem ?h2 f i\<rparr> =
        h\<lparr>mem := \<lambda>f i. if f = root h \<and> i = TEMP_PD_SLOT then v
          else if i = pd \<and> f \<in> frame_no ` set (r # rs) \<and> f \<noteq> root h then mem h (root h) pd else mem h f i\<rparr>"
      using ne assms by (simp add: put_def fun_eq_iff)
    ultimately show ?thesis by (intro exI [of _ v]) simp
  qed
qed

subsection \<open>A new page table\<close>

definition shared_dirs :: "hal \<Rightarrow> nat \<Rightarrow> nat set" where
  "shared_dirs h pd = (if KERNEL_SPLIT \<le> pd then dir_frames h else {root h})"

definition linked :: "hal \<Rightarrow> nat \<Rightarrow> u32 \<Rightarrow> pmm \<Rightarrow> hal" where
  "linked h pd a p = h\<lparr>pm := p, mem := \<lambda>f i.
     if i = pd \<and> f \<in> shared_dirs h pd then set_frame a (PRESENT OR WRITABLE OR USER)
     else if f = frame_no a \<and> i < 1024 then 0 else mem h f i\<rparr>"

lemma new_frame:
  assumes "vm_ok h" "\<not> used (pm h) f"
  shows "f \<notin> dir_frames h" "d \<in> dir_frames h \<Longrightarrow> maps h d i \<Longrightarrow> tbl h d i \<noteq> f"
  using assms dir_owned [of h] root_tableD(1) [of h d i] by (auto simp: owned_def)

lemma user_rw_entry: "frame_no (set_frame a (PRESENT OR WRITABLE OR USER)) = frame_no a" "is_present (set_frame a (PRESENT OR WRITABLE OR USER))"
  "frame_no (set_frame a (PRESENT OR WRITABLE)) = frame_no a" "is_present (set_frame a (PRESENT OR WRITABLE))"
  by (simp_all add: frame_no_set_frame)

lemma frame_no_entry [simp]: "frame_no (set_frame a 7) = frame_no a" "frame_no (set_frame a 3) = frame_no a"
  by (simp_all add: frame_no_set_frame)

lemma not_mapped_shared:
  assumes "vm_ok h" "pd < TEMP_PD_SLOT" "\<not> is_present (mem h (root h) pd)" "d \<in> shared_dirs h pd"
  shows "d \<in> dir_frames h" "\<not> is_present (mem h d pd)"
proof -
  show d: "d \<in> dir_frames h" using assms(4) vm_okD(2) [OF assms(1)] by (auto simp: shared_dirs_def split: if_splits)
  show "\<not> is_present (mem h d pd)"
    using assms kernel_sharedD [OF assms(1) d vm_okD(2) [OF assms(1)], of pd] by (auto simp: shared_dirs_def split: if_splits)
qed

lemma add_table_linked:
  assumes "vm_ok h" "pd_index va < TEMP_PD_SLOT" "HAL_PMM_AllocateFrames 1 (pm h) = Some (a, p)" "a \<noteq> 0"
    "\<not> used (pm h) (frame_no a)"
  shows "add_table va h = Some (True, linked h (pd_index va) a p)"
proof -
  let ?pd = "pd_index va" and ?A = "frame_no a"
  let ?e = "set_frame a (PRESENT OR WRITABLE OR USER)"
  let ?h1 = "put (root h) ?pd ?e (h\<lparr>pm := p\<rparr>)"
  let ?h2 = "?h1\<lparr>mem := \<lambda>f i. if f = ?A \<and> i < 1024 then 0 else mem ?h1 f i\<rparr>"
  note A = new_frame(1) [OF assms(1,5)]
  have ne: "?A \<noteq> root h" using A vm_okD(2) [OF assms(1)] by metis
  have s1: "self_mapped ?h1 (root ?h1)" using vm_okD(1) [OF assms(1)] assms(2) by simp
  have c: "window_clear ?pd 1024 ?h1 = Some ?h2"
    using window_clear_eq [OF s1, of ?pd 1024] user_rw_entry(1,2) [of a] ne assms(2) by simp
  have s2: "self_mapped ?h2 (root ?h2)" using s1 ne by (simp add: self_mapped_def)
  have d1: "set_directory ?pd ?e (h\<lparr>pm := p\<rparr>) = Some ?h1" using vm_okD(1) [OF assms(1)] by simp
  show ?thesis
  proof (cases "KERNEL_SPLIT \<le> ?pd")
    case True
    have "\<forall>r\<in>set (roots ?h2). r \<noteq> cr3 ?h2 \<longrightarrow> frame_no r \<noteq> root ?h2" using root_frame_iff [OF assms(1)] by simp
    from propagate_loop_eq [OF assms(2) s2 this] obtain v where
      v: "propagate_loop ?pd (roots ?h2) ?h2 = Some (?h2\<lparr>mem := \<lambda>f i. if f = root ?h2 \<and> i = TEMP_PD_SLOT then v
          else if i = ?pd \<and> f \<in> dir_frames ?h2 \<and> f \<noteq> root ?h2 then mem ?h2 (root ?h2) ?pd else mem ?h2 f i\<rparr>)"
      (is "_ = Some ?h3") by blast
    have "self_mapped ?h3 (root ?h3)" using s2 assms(2) by (simp add: self_mapped_def)
    then have "propagate_kernel_pde ?pd ?h2 = Some (put (root h) TEMP_PD_SLOT 0 ?h3)"
      using v by (simp add: propagate_kernel_pde_def)
    moreover have "put (root h) TEMP_PD_SLOT 0 ?h3 = linked h ?pd a p"
      using True ne assms(2) vm_okD(2,3) [OF assms(1)] A
      by (auto simp: put_def linked_def shared_dirs_def fun_eq_iff)
    ultimately show ?thesis using True assms(2-4) d1 c by (simp add: add_table_def)
  next
    case False
    have "?h2 = linked h ?pd a p" using False ne by (auto simp: put_def linked_def shared_dirs_def fun_eq_iff)
    then show ?thesis using False assms(3,4) d1 c by (simp add: add_table_def)
  qed
qed

definition fresh :: "hal \<Rightarrow> u32 \<Rightarrow> pmm \<Rightarrow> bool" where
  "fresh h a p = (pmm_ok p \<and> max_frames_of p = max_frames_of (pm h) \<and> 0 < frame_no a \<and>
     frame_no a < max_frames_of (pm h) \<and> \<not> used (pm h) (frame_no a) \<and>
     (\<forall>g. used p g = (used (pm h) g \<or> g = frame_no a)))"

lemma owned_fresh: "fresh h a p \<Longrightarrow> owned h f \<Longrightarrow> 0 < f \<and> f < max_frames_of p \<and> used p f"
  by (simp add: fresh_def owned_def)

lemma linked_dir:
  assumes "vm_ok h" "fresh h a p" "d \<in> dir_frames h"
  shows "mem (linked h pd a p) d i = (if i = pd \<and> d \<in> shared_dirs h pd then set_frame a (PRESENT OR WRITABLE OR USER) else mem h d i)"
proof -
  have "d \<noteq> frame_no a" using assms new_frame(1) [of h "frame_no a"] unfolding fresh_def by blast
  then show ?thesis by (simp add: linked_def)
qed

lemma linked_simps [simp]: "pm (linked h pd a p) = p" "cr3 (linked h pd a p) = cr3 h" "roots (linked h pd a p) = roots h"
  by (simp_all add: linked_def)

lemma linked_maps:
  assumes "vm_ok h" "fresh h a p" "d \<in> dir_frames h" "pd < TEMP_PD_SLOT" "maps (linked h pd a p) d i"
  shows "i = pd \<and> d \<in> shared_dirs h pd \<and> tbl (linked h pd a p) d i = frame_no a \<or>
    \<not> (i = pd \<and> d \<in> shared_dirs h pd) \<and> maps h d i \<and> tbl (linked h pd a p) d i = tbl h d i"
  using assms(4,5) linked_dir [OF assms(1-3), of pd i] user_rw_entry by (auto simp: maps_def)

lemma linked_ok:
  assumes ok: "vm_ok h" and pd: "pd < TEMP_PD_SLOT" and np: "\<not> is_present (mem h (root h) pd)" and fr: "fresh h a p"
  shows "vm_ok (linked h pd a p)"
proof -
  let ?h = "linked h pd a p"
  note dir = linked_dir [OF ok fr]
  note mp = linked_maps [OF ok fr _ pd]
  have nf: "\<not> used (pm h) (frame_no a)" using fr by (simp add: fresh_def)
  have "roots_ok ?h"
    using ok owned_fresh [OF fr] pd by (simp add: vm_ok_def roots_ok_def dir self_mapped_def owned_def)
  moreover have "tables_ok ?h"
    unfolding tables_ok_def
  proof (intro ballI allI impI)
    fix d i assume d: "d \<in> dir_frames ?h" and m: "maps ?h d i"
    then have d': "d \<in> dir_frames h" by simp
    have "owned ?h (frame_no a)" using fr by (simp add: owned_def fresh_def)
    moreover have "owned ?h f" if "owned h f" for f using owned_fresh [OF fr that] by (simp add: owned_def)
    ultimately show "owned ?h (tbl ?h d i) \<and> tbl ?h d i \<notin> dir_frames ?h"
      unfolding linked_simps using mp [OF d' m] new_frame(1) [OF ok nf] root_tableD [OF ok d'] by metis
  qed
  moreover have "tables_inj ?h"
    unfolding tables_inj_def
  proof (intro ballI allI impI)
    fix d d' i i' assume "d \<in> dir_frames ?h" "d' \<in> dir_frames ?h" and m: "maps ?h d i \<and> maps ?h d' i' \<and> tbl ?h d i = tbl ?h d' i'"
    then have d: "d \<in> dir_frames h" "d' \<in> dir_frames h" by simp_all
    have u: "d = d' \<or> KERNEL_SPLIT \<le> pd" if "d \<in> shared_dirs h pd" "d' \<in> shared_dirs h pd"
      using that by (simp add: shared_dirs_def split: if_splits)
    show "i = i' \<and> (d = d' \<or> KERNEL_SPLIT \<le> i)"
      using mp [OF d(1), of i] mp [OF d(2), of i'] m u new_frame(2) [OF ok nf d(1)] new_frame(2) [OF ok nf d(2)]
        tables_injD [OF ok d] by metis
  qed
  moreover have "kernel_shared ?h"
    unfolding kernel_shared_def
  proof (intro ballI allI impI)
    fix d d' i assume "d \<in> dir_frames ?h" "d' \<in> dir_frames ?h" and i: "KERNEL_SPLIT \<le> i \<and> i < TEMP_PD_SLOT"
    then have d: "d \<in> dir_frames h" "d' \<in> dir_frames h" by simp_all
    show "mem ?h d i = mem ?h d' i"
      using i kernel_sharedD [OF ok d, of i] d by (auto simp: dir [OF d(1)] dir [OF d(2)] shared_dirs_def)
  qed
  moreover have "pmm_ok p" "used p 0" using fr vm_okD(5) [OF ok] by (simp_all add: fresh_def)
  ultimately show ?thesis by (simp add: vm_ok_def)
qed

lemma linked_tr:
  assumes ok: "vm_ok h" and pd: "pd < TEMP_PD_SLOT" and np: "\<not> is_present (mem h (root h) pd)" and fr: "fresh h a p"
    and d: "d \<in> dir_frames h" and va: "pd_index va < TEMP_PD_SLOT"
  shows "tr (linked h pd a p) d va = tr h d va"
proof (cases "pd_index va = pd \<and> d \<in> shared_dirs h pd")
  case True
  then have "mem (linked h pd a p) (frame_no a) (pt_index va) = 0"
    using pt_index_less [of va] new_frame(1) [OF ok, of "frame_no a"] not_mapped_shared(1) [OF ok pd np] fr
    by (auto simp: linked_def fresh_def)
  with True not_mapped_shared(2) [OF ok pd np] show ?thesis by (simp add: tr_def linked_dir [OF ok fr d] user_rw_entry)
next
  case False
  have e: "mem (linked h pd a p) d (pd_index va) = mem h d (pd_index va)" using False by (auto simp: linked_dir [OF ok fr d])
  show ?thesis
  proof (cases "is_present (mem h d (pd_index va))")
    case True
    then have m: "maps h d (pd_index va)" using va by (simp add: maps_def)
    have "tbl h d (pd_index va) \<noteq> frame_no a" using new_frame(2) [OF ok _ d m] fr by (simp add: fresh_def)
    moreover have "tbl h d (pd_index va) \<notin> shared_dirs h pd"
      using root_tableD(2) [OF ok d m] vm_okD(2) [OF ok] by (auto simp: shared_dirs_def)
    ultimately show ?thesis unfolding tr_def e by (simp add: linked_def)
  next
    case False
    then show ?thesis unfolding tr_def e by simp
  qed
qed

subsection \<open>Writing one entry of a page table\<close>

lemma put_table_ok:
  assumes "vm_ok h" "d \<in> dir_frames h" "maps h d i"
  shows "vm_ok (put (tbl h d i) j v h)"
proof -
  have "vm_ok (put (tbl h d i) j v h) = vm_ok h"
  proof (intro vm_ok_mem_cong)
    fix d' assume "d' \<in> dir_frames h"
    then have "d' \<noteq> tbl h d i" using root_tableD(2) [OF assms] by metis
    then show "mem (put (tbl h d i) j v h) d' = mem h d'" by (simp add: fun_eq_iff)
  qed simp_all
  with assms(1) show ?thesis by simp
qed

definition sees :: "hal \<Rightarrow> u32 \<Rightarrow> nat \<Rightarrow> u32 \<Rightarrow> bool" where
  "sees h va d va' = (same_page va va' \<and> d \<in> shared_dirs h (pd_index va))"

lemma put_table_tr:
  assumes ok: "vm_ok h" and m: "maps h (root h) (pd_index va)" and d: "d \<in> dir_frames h" and va': "pd_index va' < TEMP_PD_SLOT"
  shows "tr (put (tbl h (root h) (pd_index va)) (pt_index va) v h) d va' =
    (if sees h va d va' then (if is_present v then Some v else None) else tr h d va')"
proof -
  let ?t = "tbl h (root h) (pd_index va)" and ?i = "pd_index va'"
  have rd: "root h \<in> dir_frames h" by (rule vm_okD(2) [OF ok])
  have "d \<noteq> ?t" using root_tableD(2) [OF ok rd m] d by metis
  then have e: "mem (put ?t (pt_index va) v h) d ?i = mem h d ?i" by simp
  show ?thesis
  proof (cases "maps h d ?i \<and> tbl h d ?i = ?t")
    case True
    then have i: "?i = pd_index va" "d = root h \<or> KERNEL_SPLIT \<le> ?i"
      using tables_injD [OF ok d rd _ m] by simp_all
    then have "d \<in> shared_dirs h (pd_index va)" using d by (auto simp: shared_dirs_def)
    with i True show ?thesis unfolding tr_def e by (auto simp: sees_def same_page_def maps_def)
  next
    case False
    have "\<not> sees h va d va'"
    proof
      assume s: "sees h va d va'"
      then have "?i = pd_index va" "d \<in> shared_dirs h (pd_index va)" by (auto simp: sees_def same_page_def)
      moreover from this have "mem h d ?i = mem h (root h) ?i"
        using kernel_sharedD [OF ok d rd] va' by (auto simp: shared_dirs_def split: if_splits)
      ultimately show False using False m by (simp add: maps_def)
    qed
    with False va' show ?thesis unfolding tr_def e by (auto simp: maps_def)
  qed
qed

lemma shared_dirs_linked [simp]: "shared_dirs (linked h pd a p) i = shared_dirs h i"
  by (simp add: shared_dirs_def)

lemma shared_dirs_put [simp]: "shared_dirs (put f i v h) = shared_dirs h"
  by (simp add: shared_dirs_def fun_eq_iff)

lemma tr_none: "vm_ok h \<Longrightarrow> maps h d (pd_index va) \<Longrightarrow>
    (tr h d va = None) = (\<not> is_present (mem h (tbl h d (pd_index va)) (pt_index va)))"
  by (simp add: tr_def maps_def)

definition map_result :: "u32 \<Rightarrow> u32 \<Rightarrow> u32 \<Rightarrow> hal \<Rightarrow> bool \<Rightarrow> hal \<Rightarrow> bool" where
  "map_result va pa flags h ok h' =
     (vm_ok h' \<and> cr3 h' = cr3 h \<and> roots h' = roots h \<and>
      (if ok then tr h (root h) va = None \<and>
         (\<forall>d\<in>dir_frames h. \<forall>va'. pd_index va' < TEMP_PD_SLOT \<longrightarrow>
            tr h' d va' = (if sees h va d va' then Some (set_frame pa (translate_flags flags)) else tr h d va'))
       else (\<forall>d\<in>dir_frames h. \<forall>va'. pd_index va' < TEMP_PD_SLOT \<longrightarrow> tr h' d va' = tr h d va') \<and>
         (tr h (root h) va \<noteq> None \<or> (\<forall>f < max_frames_of (pm h). used (pm h) f))))"

lemma map_present:
  assumes ok: "vm_ok h" and m: "maps h (root h) (pd_index va)"
  shows "\<exists>b h'. (do { pte \<leftarrow> window_read (pd_index va) (pt_index va) h;
       if is_present pte then Some (False, h)
       else do {
         h2 \<leftarrow> window_write (pd_index va) (pt_index va) (set_frame pa (translate_flags flags)) h;
         Some (True, h2) } }) = Some (b, h') \<and> map_result va pa flags h b h' \<and> b = (tr h (root h) va = None)"
proof -
  let ?t = "tbl h (root h) (pd_index va)"
  let ?v = "set_frame pa (translate_flags flags)"
  have pr: "is_present (mem h (root h) (pd_index va))" and lt: "pd_index va < 1024" using m by (simp_all add: maps_def)
  have r: "window_read (pd_index va) (pt_index va) h = Some (mem h ?t (pt_index va))"
    "window_write (pd_index va) (pt_index va) ?v h = Some (put ?t (pt_index va) ?v h)"
    using vm_okD(1) [OF ok] pr lt by simp_all
  show ?thesis
  proof (cases "is_present (mem h ?t (pt_index va))")
    case True
    then have "map_result va pa flags h False h" using ok tr_none [OF ok m] by (simp add: map_result_def)
    with True r tr_none [OF ok m] show ?thesis by auto
  next
    case False
    have "map_result va pa flags h True (put ?t (pt_index va) ?v h)"
      using put_table_ok [OF ok vm_okD(2) [OF ok] m] put_table_tr [OF ok m] tr_none [OF ok m] False by (simp add: map_result_def)
    with False r tr_none [OF ok m] show ?thesis by auto
  qed
qed

lemma map_page_result:
  assumes ok: "vm_ok h" and pd: "pd_index va < TEMP_PD_SLOT"
  shows "\<exists>b h'. HAL_VMM_MapPage va pa flags h = Some (b, h') \<and> map_result va pa flags h b h'"
proof (cases "is_present (mem h (root h) (pd_index va))")
  case True
  then have m: "maps h (root h) (pd_index va)" using pd by (simp add: maps_def)
  have "HAL_VMM_MapPage va pa flags h = (do { pte \<leftarrow> window_read (pd_index va) (pt_index va) h;
       if is_present pte then Some (False, h)
       else do {
         h2 \<leftarrow> window_write (pd_index va) (pt_index va) (set_frame pa (translate_flags flags)) h;
         Some (True, h2) } })"
    using True vm_okD(1) [OF ok] by (simp add: HAL_VMM_MapPage_def)
  then show ?thesis using map_present [OF ok m, of pa flags] by (simp only:) blast
next
  case np: False
  show ?thesis
  proof (rule alloc_one [OF ok])
    assume a: "HAL_PMM_AllocateFrames 1 (pm h) = Some (0, pm h)" "\<forall>f < max_frames_of (pm h). used (pm h) f"
    then have "HAL_VMM_MapPage va pa flags h = Some (False, h)"
      using np vm_okD(1) [OF ok] by (simp add: HAL_VMM_MapPage_def add_table_def)
    with a(2) ok show ?thesis by (auto simp: map_result_def)
  next
    fix a p assume a: "HAL_PMM_AllocateFrames 1 (pm h) = Some (a, p)" "a \<noteq> 0" and
      "pmm_ok p" "max_frames_of p = max_frames_of (pm h)"
      "0 < frame_no a" "frame_no a < max_frames_of (pm h)" and nu: "\<not> used (pm h) (frame_no a)" and
      "\<forall>g. used p g = (used (pm h) g \<or> g = frame_no a)"
    then have fr: "fresh h a p" by (simp add: fresh_def)
    let ?h = "linked h (pd_index va) a p"
    have ok': "vm_ok ?h" by (rule linked_ok [OF ok pd np fr])
    have "root h \<in> shared_dirs h (pd_index va)" using vm_okD(2) [OF ok] by (simp add: shared_dirs_def)
    then have m: "maps ?h (root ?h) (pd_index va)"
      using pd linked_dir [OF ok fr vm_okD(2) [OF ok]] by (simp add: maps_def)
    have t: "\<forall>d\<in>dir_frames h. \<forall>va'. pd_index va' < TEMP_PD_SLOT \<longrightarrow> tr ?h d va' = tr h d va'"
      using linked_tr [OF ok pd np fr] by blast
    have t0: "tr ?h (root h) va = tr h (root h) va" using t vm_okD(2) [OF ok] pd by blast
    have "tr h (root h) va = None" using np by (simp add: tr_def)
    have "HAL_VMM_MapPage va pa flags h = (do { pte \<leftarrow> window_read (pd_index va) (pt_index va) ?h;
       if is_present pte then Some (False, ?h)
       else do {
         h2 \<leftarrow> window_write (pd_index va) (pt_index va) (set_frame pa (translate_flags flags)) ?h;
         Some (True, h2) } })"
      using np vm_okD(1) [OF ok] add_table_linked [OF ok pd a nu] by (simp add: HAL_VMM_MapPage_def)
    moreover from map_present [OF ok' m] obtain b h' where
      "(do { pte \<leftarrow> window_read (pd_index va) (pt_index va) ?h;
       if is_present pte then Some (False, ?h)
       else do {
         h2 \<leftarrow> window_write (pd_index va) (pt_index va) (set_frame pa (translate_flags flags)) ?h;
         Some (True, h2) } }) = Some (b, h')" and r: "map_result va pa flags ?h b h'" "b = (tr ?h (root ?h) va = None)" by blast
    moreover have "map_result va pa flags h b h'"
      using r t t0 \<open>tr h (root h) va = None\<close> by (simp add: map_result_def sees_def)
    ultimately show ?thesis by simp
  qed
qed

subsection \<open>Releasing frames\<close>

text \<open>Dropping user page tables, and address spaces, from a consistent state.\<close>

definition freed :: "hal \<Rightarrow> nat set \<Rightarrow> pmm \<Rightarrow> bool" where
  "freed h F p = (pmm_ok p \<and> max_frames_of p = max_frames_of (pm h) \<and> (\<forall>g. used p g = (used (pm h) g \<and> g \<notin> F)))"

lemma vm_ok_restrict:
  assumes ok: "vm_ok h" and fr: "freed h F (pm h')"
    and sub: "set (roots h') \<subseteq> set (roots h)" "distinct (roots h')" "length (roots h') \<le> length (roots h)" "cr3 h' \<in> set (roots h')"
    and mem: "\<And>d i. d \<in> dir_frames h' \<Longrightarrow> mem h' d i = mem h d i \<or> i < KERNEL_SPLIT \<and> \<not> is_present (mem h' d i)"
    and keep: "0 \<notin> F" "\<And>d. d \<in> dir_frames h' \<Longrightarrow> d \<notin> F" "\<And>d i. d \<in> dir_frames h' \<Longrightarrow> maps h' d i \<Longrightarrow> tbl h' d i \<notin> F"
  shows "vm_ok h'"
proof -
  have D: "d \<in> dir_frames h" if "d \<in> dir_frames h'" for d using that sub(1) by blast
  have M: "maps h d i" "mem h' d i = mem h d i" if "d \<in> dir_frames h'" "maps h' d i" for d i
    using mem [OF that(1), of i] that(2) by (auto simp: maps_def)
  have O: "owned h' f" if "owned h f" "f \<notin> F" for f using that fr by (simp add: owned_def freed_def)
  have K: "mem h' d i = mem h d i" if "d \<in> dir_frames h'" "KERNEL_SPLIT \<le> i" for d i
    using mem [OF that(1), of i] that(2) by auto
  have "roots_ok h'"
    unfolding roots_ok_def
  proof (intro conjI ballI)
    show "length (roots h') \<le> MAX_ADDRESS_SPACES" using ok sub(3) by (simp add: vm_ok_def roots_ok_def)
    show "get_frame r = r" if "r \<in> set (roots h')" for r using that ok sub(1) unfolding vm_ok_def roots_ok_def by blast
    fix d assume d: "d \<in> dir_frames h'"
    show "owned h' d" by (rule O [OF dir_owned [OF ok D [OF d]] keep(2) [OF d]])
    have "self_mapped h d" "mem h d TEMP_PD_SLOT = 0" using ok D [OF d] unfolding vm_ok_def roots_ok_def by blast+
    then show "self_mapped h' d" "mem h' d TEMP_PD_SLOT = 0" using K [OF d] by (simp_all add: self_mapped_def)
  qed (use sub in simp_all)
  moreover have "tables_ok h'"
    unfolding tables_ok_def
  proof (intro ballI allI impI)
    fix d i assume d: "d \<in> dir_frames h'" and m: "maps h' d i"
    note t = root_tableD [OF ok D [OF d] M(1) [OF d m]]
    have e: "tbl h' d i = tbl h d i" using M(2) [OF d m] by simp
    have "tbl h d i \<notin> dir_frames h'" using t(2) D by blast
    moreover have "owned h' (tbl h d i)" using O [OF t(1)] keep(3) [OF d m] e by simp
    ultimately show "owned h' (tbl h' d i) \<and> tbl h' d i \<notin> dir_frames h'" using e by simp
  qed
  moreover have "tables_inj h'"
    unfolding tables_inj_def using M D tables_injD [OF ok] by metis
  moreover have "kernel_shared h'"
    unfolding kernel_shared_def using K D kernel_sharedD [OF ok] by metis
  moreover have "pmm_ok (pm h')" "used (pm h') 0" using fr keep(1) vm_okD(5) [OF ok] by (simp_all add: freed_def)
  ultimately show ?thesis by (simp add: vm_ok_def)
qed

definition unmap_result :: "u32 \<Rightarrow> hal \<Rightarrow> hal \<Rightarrow> bool" where
  "unmap_result va h h' =
     (vm_ok h' \<and> cr3 h' = cr3 h \<and> roots h' = roots h \<and>
      (\<forall>d\<in>dir_frames h. \<forall>va'. pd_index va' < TEMP_PD_SLOT \<longrightarrow>
         tr h' d va' = (if sees h va d va' then None else tr h d va')))"

lemma drop_table:
  assumes ok: "vm_ok h" and i: "i < KERNEL_SPLIT" and m: "maps h (root h) i"
    and e: "\<forall>j<1024. \<not> is_present (mem h (tbl h (root h) i) j)"
    and p: "pmm_ok p" "max_frames_of p = max_frames_of (pm h)" "\<forall>g. used p g = (used (pm h) g \<and> g \<noteq> tbl h (root h) i)"
  shows "vm_ok ((put (root h) i 0 h)\<lparr>pm := p\<rparr>)" (is "vm_ok ?h")
    "d \<in> dir_frames h \<Longrightarrow> pd_index va < TEMP_PD_SLOT \<Longrightarrow> tr ((put (root h) i 0 h)\<lparr>pm := p\<rparr>) d va = tr h d va"
proof -
  let ?t = "tbl h (root h) i"
  have rd: "root h \<in> dir_frames h" by (rule vm_okD(2) [OF ok])
  have t: "owned h ?t" "?t \<notin> dir_frames h" using root_tableD [OF ok rd m] .
  show "vm_ok ?h"
  proof (rule vm_ok_restrict [OF ok, of "{?t}"])
    show "freed h {?t} (pm ?h)" using p by (simp add: freed_def)
    show "0 \<notin> {?t}" using t(1) by (simp add: owned_def)
    show "d \<notin> {?t}" if "d \<in> dir_frames ?h" for d using that t(2) by (simp del: image_iff) metis
    show "tbl ?h d j \<notin> {?t}" if "d \<in> dir_frames ?h" "maps ?h d j" for d j
    proof -
      have d: "d \<in> dir_frames h" using that(1) by simp
      have nj: "\<not> (d = root h \<and> j = i)" and mj: "maps h d j" "tbl ?h d j = tbl h d j"
        using that(2) by (auto simp: maps_def split: if_splits)
      from tables_injD [OF ok d rd mj(1) m] nj i mj(2) show ?thesis by auto
    qed
  qed (use ok i in \<open>auto simp: vm_ok_def roots_ok_def\<close>)
  assume d: "d \<in> dir_frames h" and va: "pd_index va < TEMP_PD_SLOT"
  show "tr ?h d va = tr h d va"
  proof (cases "d = root h \<and> pd_index va = i")
    case True
    with e pt_index_less [of va] show ?thesis by (auto simp: tr_def)
  next
    case False
    then have "mem ?h d (pd_index va) = mem h d (pd_index va)" by auto
    moreover have "tbl h d (pd_index va) \<noteq> root h" if "is_present (mem h d (pd_index va))"
      using root_tableD(2) [OF ok d, of "pd_index va"] that va rd by (metis maps_def)
    ultimately show ?thesis by (auto simp: tr_def)
  qed
qed

lemma unmap_page_result:
  assumes ok: "vm_ok h" and pd: "pd_index va < TEMP_PD_SLOT"
  shows "\<exists>h'. HAL_VMM_UnmapPage va h = Some h' \<and> unmap_result va h h'"
proof (cases "is_present (mem h (root h) (pd_index va))")
  case False
  have "\<not> is_present (mem h d (pd_index va'))" if "sees h va d va'" for d va'
    using that not_mapped_shared(2) [OF ok pd False, of d] by (auto simp: sees_def same_page_def)
  then have "tr h d va' = None" if "sees h va d va'" for d va' using that by (auto simp: tr_def)
  then have "unmap_result va h h" using ok by (simp add: unmap_result_def)
  with False vm_okD(1) [OF ok] show ?thesis by (simp add: HAL_VMM_UnmapPage_def)
next
  case True
  then have m: "maps h (root h) (pd_index va)" using pd by (simp add: maps_def)
  let ?t = "tbl h (root h) (pd_index va)"
  let ?h1 = "put ?t (pt_index va) 0 h"
  have rd: "root h \<in> dir_frames h" by (rule vm_okD(2) [OF ok])
  have ne: "?t \<noteq> root h" using root_tableD(2) [OF ok rd m] rd by metis
  have ok1: "vm_ok ?h1" by (rule put_table_ok [OF ok rd m])
  have s1: "self_mapped ?h1 (root ?h1)" by (rule vm_okD(1) [OF ok1])
  have e1: "mem ?h1 (root ?h1) (pd_index va) = mem h (root h) (pd_index va)" using ne by simp
  then have m1: "maps ?h1 (root ?h1) (pd_index va)" using m by (simp add: maps_def)
  have w: "window_write (pd_index va) (pt_index va) 0 h = Some ?h1" using vm_okD(1) [OF ok] True pd by simp
  have t1: "\<forall>d\<in>dir_frames h. \<forall>va'. pd_index va' < TEMP_PD_SLOT \<longrightarrow> tr ?h1 d va' = (if sees h va d va' then None else tr h d va')"
    using put_table_tr [OF ok m, of _ _ 0] by simp
  have b: "table_is_empty (pd_index va) 1024 ?h1 = Some (\<forall>i<1024. \<not> is_present (mem ?h1 ?t i))" (is "_ = Some ?b")
    using table_is_empty_eq [OF s1, of "pd_index va" 1024] True pd unfolding e1 by simp
  show ?thesis
  proof (cases "?b \<and> pd_index va < KERNEL_SPLIT")
    case True
    have "tbl h (root h) (pd_index va) < max_frames_of (pm h)" using root_tableD(1) [OF ok rd m] by (simp add: owned_def)
    then obtain p where p: "HAL_PMM_FreeFrames (get_frame (mem h (root h) (pd_index va))) 1 (pm h) = Some p"
      "pmm_ok p" "max_frames_of p = max_frames_of (pm h)" "\<forall>g. used p g = (used (pm h) g \<and> g \<noteq> ?t)"
      using free_one [OF vm_okD(4) [OF ok], of "get_frame (mem h (root h) (pd_index va))"] by auto
    let ?h2 = "(put (root ?h1) (pd_index va) 0 ?h1)\<lparr>pm := p\<rparr>"
    have d: "vm_ok ?h2" "\<And>d va'. d \<in> dir_frames ?h1 \<Longrightarrow> pd_index va' < TEMP_PD_SLOT \<Longrightarrow> tr ?h2 d va' = tr ?h1 d va'"
    proof -
      have q: "pmm_ok p" "max_frames_of p = max_frames_of (pm ?h1)" "\<forall>g. used p g = (used (pm ?h1) g \<and> g \<noteq> tbl ?h1 (root ?h1) (pd_index va))"
        "\<forall>j<1024. \<not> is_present (mem ?h1 (tbl ?h1 (root ?h1) (pd_index va)) j)" "pd_index va < KERNEL_SPLIT"
        using True p(2-4) unfolding e1 by simp_all
      show "vm_ok ?h2" by (rule drop_table(1) [OF ok1 q(5) m1 q(4) q(1-3)])
      show "tr ?h2 d va' = tr ?h1 d va'" if "d \<in> dir_frames ?h1" "pd_index va' < TEMP_PD_SLOT" for d va'
        by (rule drop_table(2) [OF ok1 q(5) m1 q(4) q(1-3) that])
    qed
    then have "unmap_result va h ?h2" using t1 unfolding unmap_result_def by simp
    moreover have "HAL_VMM_UnmapPage va h = Some ?h2"
      using vm_okD(1) [OF ok] directory_root [OF s1] set_directory_root [OF s1] \<open>is_present (mem h (root h) (pd_index va))\<close> w b True p(1) ne
      by (simp add: HAL_VMM_UnmapPage_def)
    ultimately show ?thesis by blast
  next
    case False
    have "HAL_VMM_UnmapPage va h = Some ?h1" using vm_okD(1) [OF ok] True w b False by (auto simp: HAL_VMM_UnmapPage_def split: if_split_asm)
    moreover have "unmap_result va h ?h1" using ok1 t1 by (simp add: unmap_result_def)
    ultimately show ?thesis by blast
  qed
qed

subsection \<open>New address spaces\<close>

definition spawned :: "hal \<Rightarrow> u32 \<Rightarrow> pmm \<Rightarrow> hal" where
  "spawned h a p = h\<lparr>pm := p, roots := roots h @ [a], mem := \<lambda>f i.
     if f = frame_no a \<and> i < KERNEL_SPLIT then 0
     else if f = frame_no a \<and> i < TEMP_PD_SLOT then mem h (root h) i
     else if f = frame_no a \<and> i = TEMP_PD_SLOT then 0
     else if f = frame_no a \<and> i = 1023 then set_frame a (PRESENT OR WRITABLE)
     else mem h f i\<rparr>"

lemma create_register:
  assumes ok: "vm_ok h" and al: "HAL_PMM_AllocateFrames 1 (pm h) = Some (a, p)" "a \<noteq> 0"
    and fr: "\<not> used (pm h) (frame_no a)"
  shows "HAL_VMM_CreateAddressSpace h = Some (a, register_root a ((spawned h a p)\<lparr>roots := roots h\<rparr>))"
proof -
  let ?A = "frame_no a" and ?e = "set_frame a (PRESENT OR WRITABLE)"
  have ne: "?A \<noteq> root h" using new_frame(1) [OF ok fr] vm_okD(2) [OF ok] by metis
  let ?h1 = "put (root h) TEMP_PD_SLOT ?e (h\<lparr>pm := p\<rparr>)"
  have s1: "self_mapped ?h1 (root ?h1)" using vm_okD(1) [OF ok] by simp
  have e1: "mem ?h1 (root ?h1) TEMP_PD_SLOT = ?e" by simp
  let ?h2 = "?h1\<lparr>mem := \<lambda>f i. if f = ?A \<and> i < KERNEL_SPLIT then 0 else mem ?h1 f i\<rparr>"
  have c2: "window_clear TEMP_PD_SLOT KERNEL_SPLIT ?h1 = Some ?h2"
    using window_clear_eq [OF s1, of TEMP_PD_SLOT KERNEL_SPLIT] ne by simp
  have s2: "self_mapped ?h2 (root ?h2)" using s1 ne by (simp add: self_mapped_def)
  have e2: "mem ?h2 (root ?h2) TEMP_PD_SLOT = ?e" using ne by simp
  let ?h3 = "?h2\<lparr>mem := \<lambda>f i. if f = ?A \<and> KERNEL_SPLIT \<le> i \<and> i < 1023 then mem ?h2 (root ?h2) i else mem ?h2 f i\<rparr>"
  have c3: "clone_loop (1023 - KERNEL_SPLIT) ?h2 = Some ?h3"
    using clone_loop_eq [OF s2, of 255] unfolding e2 using ne by simp
  have s3: "self_mapped ?h3 (root ?h3)" using s2 ne by (simp add: self_mapped_def)
  have e3: "mem ?h3 (root ?h3) TEMP_PD_SLOT = ?e" using ne by simp
  let ?h4 = "put ?A TEMP_PD_SLOT 0 ?h3"
  have c4: "window_write TEMP_PD_SLOT TEMP_PD_SLOT 0 ?h3 = Some ?h4"
    using window_write_root [OF s3, of TEMP_PD_SLOT] unfolding e3 by simp
  have s4: "self_mapped ?h4 (root ?h4)" using s3 by simp
  have e4: "mem ?h4 (root ?h4) TEMP_PD_SLOT = ?e" using ne by simp
  let ?h5 = "put ?A 1023 ?e ?h4"
  have c5: "window_write TEMP_PD_SLOT 1023 ?e ?h4 = Some ?h5"
    using window_write_root [OF s4, of TEMP_PD_SLOT] unfolding e4 by simp
  have s5: "self_mapped ?h5 (root ?h5)" using s4 ne by simp
  let ?h6 = "put (root ?h5) TEMP_PD_SLOT 0 ?h5"
  have c6: "set_directory TEMP_PD_SLOT 0 ?h5 = Some ?h6" by (rule set_directory_root [OF s5])
  have c1: "set_directory TEMP_PD_SLOT ?e (h\<lparr>pm := p\<rparr>) = Some ?h1" using vm_okD(1) [OF ok] by simp
  have "?h6 = (spawned h a p)\<lparr>roots := roots h\<rparr>"
    using ne vm_okD(3) [OF ok] by (auto simp: spawned_def put_def fun_eq_iff)
  then show ?thesis
    unfolding HAL_VMM_CreateAddressSpace_def al(1) using al(2) c1 c2 c3 c4 c5 c6 by (simp only: bind.bind_lunit prod.case Let_def if_False)
qed

lemma create_spawned:
  assumes "vm_ok h" "HAL_PMM_AllocateFrames 1 (pm h) = Some (a, p)" "a \<noteq> 0" "\<not> used (pm h) (frame_no a)"
    "length (roots h) < MAX_ADDRESS_SPACES"
  shows "HAL_VMM_CreateAddressSpace h = Some (a, spawned h a p)"
  using create_register [OF assms(1-4)] assms(5) by (simp add: register_root_def spawned_def)

lemma spawned_simps [simp]: "pm (spawned h a p) = p" "cr3 (spawned h a p) = cr3 h" "roots (spawned h a p) = roots h @ [a]"
  by (simp_all add: spawned_def)

lemma spawned_old:
  assumes "f \<noteq> frame_no a"
  shows "mem (spawned h a p) f i = mem h f i"
  using assms by (simp add: spawned_def)

lemma spawned_new:
  "mem (spawned h a p) (frame_no a) i =
    (if i < KERNEL_SPLIT then 0 else if i < TEMP_PD_SLOT then mem h (root h) i else if i = TEMP_PD_SLOT then 0
     else if i = 1023 then set_frame a (PRESENT OR WRITABLE) else mem h (frame_no a) i)"
  by (simp add: spawned_def)

lemma spawned_maps:
  assumes ok: "vm_ok h" and fr: "fresh h a p" and d: "d \<in> dir_frames (spawned h a p)" and m: "maps (spawned h a p) d i"
  obtains e where "e \<in> dir_frames h" "maps h e i" "tbl (spawned h a p) d i = tbl h e i" "e = d \<or> KERNEL_SPLIT \<le> i"
    "d = frame_no a \<longrightarrow> KERNEL_SPLIT \<le> i"
proof (cases "d = frame_no a")
  case True
  with m have i: "KERNEL_SPLIT \<le> i" "i < TEMP_PD_SLOT" by (auto simp: maps_def spawned_new split: if_splits)
  then have "mem (spawned h a p) d i = mem h (root h) i" using True by (simp add: spawned_new)
  with that [OF vm_okD(2) [OF ok]] i m show ?thesis by (simp add: maps_def)
next
  case False
  with d have "d \<in> dir_frames h" by auto
  with that [of d] m False show ?thesis by (simp add: maps_def spawned_old)
qed

lemma spawned_ok:
  assumes ok: "vm_ok h" and fr: "fresh h a p" and a: "get_frame a = a" and len: "length (roots h) < MAX_ADDRESS_SPACES"
  shows "vm_ok (spawned h a p)"
proof -
  let ?h = "spawned h a p" and ?A = "frame_no a"
  have nu: "\<not> used (pm h) ?A" using fr by (simp add: fresh_def)
  have nd: "?A \<notin> dir_frames h" by (rule new_frame(1) [OF ok nu])
  have D: "dir_frames ?h = insert ?A (dir_frames h)" by auto
  have old: "mem ?h d i = mem h d i" if "d \<in> dir_frames h" for d i using that nd by (intro spawned_old) metis
  have O: "owned ?h f" if "owned h f" for f using owned_fresh [OF fr that] by (simp add: owned_def)
  have OA: "owned ?h ?A" using fr by (simp add: owned_def fresh_def)
  have "roots_ok ?h"
    unfolding roots_ok_def
  proof (intro conjI ballI)
    show "cr3 ?h \<in> set (roots ?h)" "length (roots ?h) \<le> MAX_ADDRESS_SPACES" using ok len by (simp_all add: vm_ok_def roots_ok_def)
    have "a \<notin> set (roots h)" using nd by blast
    then show "distinct (roots ?h)" using ok by (simp add: vm_ok_def roots_ok_def)
    show "get_frame r = r" if "r \<in> set (roots ?h)" for r using that ok a by (auto simp: vm_ok_def roots_ok_def)
    fix d assume "d \<in> dir_frames ?h"
    then consider "d = ?A" | "d \<in> dir_frames h" unfolding D by blast
    then have "owned ?h d \<and> self_mapped ?h d \<and> mem ?h d TEMP_PD_SLOT = 0"
    proof cases
      case 1
      then show ?thesis using OA by (simp add: self_mapped_def spawned_new)
    next
      case 2
      then have "owned h d \<and> self_mapped h d \<and> mem h d TEMP_PD_SLOT = 0" using ok unfolding vm_ok_def roots_ok_def by blast
      then show ?thesis using O old [OF 2] by (simp add: self_mapped_def)
    qed
    then show "owned ?h d" "self_mapped ?h d" "mem ?h d TEMP_PD_SLOT = 0" by simp_all
  qed
  moreover have "tables_ok ?h"
    unfolding tables_ok_def
  proof (intro ballI allI impI)
    fix d i assume "d \<in> dir_frames ?h" "maps ?h d i"
    from spawned_maps [OF ok fr this] obtain e where e: "e \<in> dir_frames h" "maps h e i" "tbl ?h d i = tbl h e i" .
    show "owned ?h (tbl ?h d i) \<and> tbl ?h d i \<notin> dir_frames ?h"
      unfolding D e(3) using O root_tableD [OF ok e(1,2)] new_frame(2) [OF ok nu e(1,2)] by blast
  qed
  moreover have "tables_inj ?h"
    unfolding tables_inj_def
  proof (intro ballI allI impI)
    fix d d' i i' assume d: "d \<in> dir_frames ?h" "d' \<in> dir_frames ?h" and m: "maps ?h d i \<and> maps ?h d' i' \<and> tbl ?h d i = tbl ?h d' i'"
    from spawned_maps [OF ok fr d(1)] m obtain e where e: "e \<in> dir_frames h" "maps h e i" "tbl ?h d i = tbl h e i" "e = d \<or> KERNEL_SPLIT \<le> i" by blast
    from spawned_maps [OF ok fr d(2)] m obtain e' where e': "e' \<in> dir_frames h" "maps h e' i'" "tbl ?h d' i' = tbl h e' i'" "e' = d' \<or> KERNEL_SPLIT \<le> i'" by blast
    have "tbl h e i = tbl h e' i'" using m e(3) e'(3) by simp
    from tables_injD [OF ok e(1) e'(1) e(2) e'(2) this] show "i = i' \<and> (d = d' \<or> KERNEL_SPLIT \<le> i)" using e(4) e'(4) by blast
  qed
  moreover have "kernel_shared ?h"
  proof -
    have "mem ?h d i = mem h (root h) i" if "d \<in> dir_frames ?h" "KERNEL_SPLIT \<le> i" "i < TEMP_PD_SLOT" for d i
    proof (cases "d = ?A")
      case True
      then show ?thesis using that by (simp add: spawned_new)
    next
      case False
      then have d: "d \<in> dir_frames h" using that(1) unfolding D by blast
      then show ?thesis using old [OF d] kernel_sharedD [OF ok d vm_okD(2) [OF ok] that(2,3)] by simp
    qed
    then show ?thesis unfolding kernel_shared_def by metis
  qed
  moreover have "pmm_ok p" "used p 0" using fr vm_okD(5) [OF ok] by (simp_all add: fresh_def)
  ultimately show ?thesis by (simp add: vm_ok_def)
qed

lemma spawned_tr:
  assumes ok: "vm_ok h" and fr: "fresh h a p" and va: "pd_index va < TEMP_PD_SLOT"
  shows "d \<in> dir_frames h \<Longrightarrow> tr (spawned h a p) d va = tr h d va"
    "tr (spawned h a p) (frame_no a) va = (if KERNEL_SPLIT \<le> pd_index va then tr h (root h) va else None)"
proof -
  let ?A = "frame_no a"
  have nu: "\<not> used (pm h) ?A" using fr by (simp add: fresh_def)
  have t: "mem (spawned h a p) (tbl h d (pd_index va)) i = mem h (tbl h d (pd_index va)) i"
    if "d \<in> dir_frames h" "is_present (mem h d (pd_index va))" for d i
    using new_frame(2) [OF ok nu that(1)] that(2) va by (intro spawned_old) (simp add: maps_def)
  show "tr (spawned h a p) d va = tr h d va" if "d \<in> dir_frames h"
  proof -
    have "d \<noteq> ?A" using that new_frame(1) [OF ok nu] by metis
    then show ?thesis using t [OF that] by (auto simp: tr_def spawned_old)
  qed
  show "tr (spawned h a p) ?A va = (if KERNEL_SPLIT \<le> pd_index va then tr h (root h) va else None)"
    using t [OF vm_okD(2) [OF ok]] va by (auto simp: tr_def spawned_new)
qed

subsection \<open>Destroyed address spaces\<close>

definition user_tables :: "hal \<Rightarrow> nat \<Rightarrow> nat \<Rightarrow> nat set" where
  "user_tables h d n = {tbl h d i |i. i < n \<and> maps h d i}"

lemma reclaim_loop_eq:
  assumes ok: "vm_ok h" and d: "d \<in> dir_frames h" "d \<noteq> root h"
    and h1: "h1 = put (root h) TEMP_PD_SLOT v h" "is_present v" "frame_no v = d"
  shows "n \<le> KERNEL_SPLIT \<Longrightarrow> \<exists>p. freed h (user_tables h d n) p \<and>
    reclaim_loop n h1 = Some (h1\<lparr>pm := p, mem := \<lambda>f i. if f = d \<and> i < n \<and> is_present (mem h d i) then 0 else mem h1 f i\<rparr>)"
proof (induction n)
  case 0
  have "freed h (user_tables h d 0) (pm h)" using vm_okD(4) [OF ok] by (simp add: freed_def user_tables_def)
  moreover have "h1 = h1\<lparr>pm := pm h, mem := \<lambda>f i. if f = d \<and> i < 0 \<and> is_present (mem h d i) then 0 else mem h1 f i\<rparr>"
    using h1(1) by (simp add: put_def fun_eq_iff)
  ultimately show ?case by auto
next
  case (Suc n)
  from Suc.IH Suc.prems obtain p where p: "freed h (user_tables h d n) p"
    "reclaim_loop n h1 = Some (h1\<lparr>pm := p, mem := \<lambda>f i. if f = d \<and> i < n \<and> is_present (mem h d i) then 0 else mem h1 f i\<rparr>)"
    (is "_ = Some ?h2") by auto
  have s: "self_mapped ?h2 (root ?h2)" using vm_okD(1) [OF ok] d(2) h1(1) by (simp add: self_mapped_def)
  have t: "mem ?h2 (root ?h2) TEMP_PD_SLOT = v" using d(2) h1(1) by simp
  have r: "window_read TEMP_PD_SLOT n ?h2 = Some (mem h d n)"
    using window_read_root [OF s, of TEMP_PD_SLOT n] h1 d(2) unfolding t by simp
  show ?case
  proof (cases "is_present (mem h d n)")
    case True
    then have m: "maps h d n" using Suc.prems by (simp add: maps_def)
    have lt: "frame_no (get_frame (mem h d n)) < max_frames_of p"
      using root_tableD(1) [OF ok d(1) m] p(1) by (simp add: owned_def freed_def)
    have "pmm_ok p" using p(1) by (simp add: freed_def)
    from free_one [OF this lt] obtain p' where p': "HAL_PMM_FreeFrames (get_frame (mem h d n)) 1 p = Some p'" "pmm_ok p'"
      "max_frames_of p' = max_frames_of p" "\<forall>g. used p' g = (used p g \<and> g \<noteq> frame_no (get_frame (mem h d n)))" .
    have "user_tables h d (Suc n) = insert (tbl h d n) (user_tables h d n)" using m by (auto simp: user_tables_def less_Suc_eq)
    then have "freed h (user_tables h d (Suc n)) p'" using p(1) p'(2-4) by (auto simp: freed_def)
    moreover have "window_write TEMP_PD_SLOT n 0 (?h2\<lparr>pm := p'\<rparr>) = Some (put d n 0 (?h2\<lparr>pm := p'\<rparr>))"
      using window_write_root [of "?h2\<lparr>pm := p'\<rparr>" TEMP_PD_SLOT n 0] s h1 d(2) by simp
    moreover have "put d n 0 (?h2\<lparr>pm := p'\<rparr>) =
        h1\<lparr>pm := p', mem := \<lambda>f i. if f = d \<and> i < Suc n \<and> is_present (mem h d i) then 0 else mem h1 f i\<rparr>"
      using True by (auto simp: put_def fun_eq_iff less_Suc_eq)
    ultimately show ?thesis using p(2) r True p'(1) by (intro exI [of _ p']) simp
  next
    case False
    have "user_tables h d (Suc n) = user_tables h d n" using False by (auto simp: user_tables_def less_Suc_eq maps_def)
    moreover have "?h2 = h1\<lparr>pm := p, mem := \<lambda>f i. if f = d \<and> i < Suc n \<and> is_present (mem h d i) then 0 else mem h1 f i\<rparr>"
      using False by (auto simp: fun_eq_iff less_Suc_eq)
    ultimately show ?thesis using p r False by (intro exI [of _ p]) simp
  qed
qed

lemma swap_remove_set: "distinct rs \<Longrightarrow> set (swap_remove r rs) = set rs - {r} \<and> distinct (swap_remove r rs) \<and> length (swap_remove r rs) \<le> length rs"
proof (induction rs)
  case (Cons x rs)
  have "set (last rs # butlast rs) = set rs" "distinct (last rs # butlast rs)" "length (last rs # butlast rs) = length rs" if "rs \<noteq> []"
  proof -
    have e: "rs = butlast rs @ [last rs]" using that by simp
    then have "set rs = set (butlast rs @ [last rs])" "distinct (butlast rs @ [last rs])" using Cons.prems by simp_all
    then show "set (last rs # butlast rs) = set rs" "distinct (last rs # butlast rs)" by auto
    show "length (last rs # butlast rs) = length rs" using that by (cases rs) auto
  qed
  with Cons show ?case by (cases "rs = []") auto
qed simp

definition destroy_result :: "u32 \<Rightarrow> hal \<Rightarrow> hal \<Rightarrow> bool" where
  "destroy_result r h h' =
     (vm_ok h' \<and> cr3 h' = cr3 h \<and> set (roots h') = set (roots h) - {r} \<and>
      (\<forall>g. used (pm h') g = (used (pm h) g \<and> g \<notin> insert (frame_no r) (user_tables h (frame_no r) KERNEL_SPLIT))) \<and>
      (\<forall>d\<in>dir_frames h'. \<forall>va. pd_index va < TEMP_PD_SLOT \<longrightarrow> tr h' d va = tr h d va))"

lemma destroy_result:
  assumes ok: "vm_ok h" and r: "r \<in> set (roots h)" "r \<noteq> cr3 h"
  shows "\<exists>h'. HAL_VMM_DestroyAddressSpace r h = Some h' \<and> destroy_result r h h'"
proof -
  let ?d = "frame_no r" and ?v = "set_frame r (PRESENT OR WRITABLE)"
  have d: "?d \<in> dir_frames h" using r(1) by blast
  have ne: "?d \<noteq> root h" using root_frame_iff [OF ok r(1)] r(2) by blast
  have r0: "r \<noteq> 0" using dir_owned [OF ok d] by (auto simp: owned_def frame_no_def)
  let ?h1 = "put (root h) TEMP_PD_SLOT ?v h"
  from reclaim_loop_eq [OF ok d ne refl, of ?v KERNEL_SPLIT] obtain p where
    p: "freed h (user_tables h ?d KERNEL_SPLIT) p"
    "reclaim_loop KERNEL_SPLIT ?h1 = Some (?h1\<lparr>pm := p, mem := \<lambda>f i. if f = ?d \<and> i < KERNEL_SPLIT \<and> is_present (mem h ?d i) then 0 else mem ?h1 f i\<rparr>)"
    (is "_ = Some ?h2") by auto
  have s2: "self_mapped ?h2 (root ?h2)" using vm_okD(1) [OF ok] ne by (simp add: self_mapped_def)
  let ?h4 = "(put (root ?h2) TEMP_PD_SLOT 0 ?h2)\<lparr>roots := swap_remove r (roots h)\<rparr>"
  have "pmm_ok p" "?d < max_frames_of p" using p(1) dir_owned [OF ok d] by (simp_all add: freed_def owned_def)
  from free_one [OF this] obtain q where q: "HAL_PMM_FreeFrames r 1 p = Some q" "pmm_ok q"
    "max_frames_of q = max_frames_of p" "\<forall>g. used q g = (used p g \<and> g \<noteq> ?d)" .
  let ?h5 = "?h4\<lparr>pm := q\<rparr>"
  have ex: "HAL_VMM_DestroyAddressSpace r h = Some ?h5"
    using r0 vm_okD(1) [OF ok] p(2) set_directory_root [OF s2] q(1) by (simp add: HAL_VMM_DestroyAddressSpace_def unregister_root_def)
  let ?F = "insert ?d (user_tables h ?d KERNEL_SPLIT)"
  have F: "freed h ?F q" using p(1) q(2-4) by (auto simp: freed_def)
  have "distinct (roots h)" using ok by (simp add: vm_ok_def roots_ok_def)
  from swap_remove_set [OF this] have sr: "set (roots ?h5) = set (roots h) - {r}" "distinct (roots ?h5)" "length (roots ?h5) \<le> length (roots h)"
    by simp_all
  have D: "d \<in> dir_frames h" "d \<noteq> ?d" if "d \<in> dir_frames ?h5" for d
  proof -
    from that sr(1) obtain x where x: "d = frame_no x" "x \<in> set (roots h)" "x \<noteq> r" by auto
    then show "d \<in> dir_frames h" by blast
    show "d \<noteq> ?d" using x r(1) ok frame_no_inj [of x r] by (auto simp: vm_ok_def roots_ok_def)
  qed
  have M: "mem ?h5 d i = mem h d i" if "d \<noteq> ?d" for d i
    using that vm_okD(3) [OF ok] by simp
  have tne: "tbl h d i \<noteq> ?d" if "d \<in> dir_frames h" "maps h d i" for d i using root_tableD(2) [OF ok that] r(1) by blast
  have UT: "tbl h d i \<notin> user_tables h ?d KERNEL_SPLIT" if "d \<in> dir_frames h" "d \<noteq> ?d" "maps h d i" for d i
    using tables_injD [OF ok that(1) d that(3)] that(2) by (fastforce simp: user_tables_def)
  have "vm_ok ?h5"
  proof (rule vm_ok_restrict [OF ok, of ?F])
    show "cr3 ?h5 \<in> set (roots ?h5)" using ok r(2) unfolding sr(1) by (simp add: vm_ok_def roots_ok_def)
    show "freed h ?F (pm ?h5)" using F by simp
    show "mem ?h5 d i = mem h d i \<or> i < KERNEL_SPLIT \<and> \<not> is_present (mem ?h5 d i)" if "d \<in> dir_frames ?h5" for d i
      using M [OF D(2) [OF that]] by blast
    show "0 \<notin> ?F" using dir_owned [OF ok d] root_tableD(1) [OF ok d] by (fastforce simp: user_tables_def owned_def)
    show "e \<notin> ?F" if "e \<in> dir_frames ?h5" for e
      using D [OF that] root_tableD(2) [OF ok d] unfolding user_tables_def by blast
    show "tbl ?h5 e i \<notin> ?F" if e: "e \<in> dir_frames ?h5" and m: "maps ?h5 e i" for e i
    proof -
      have "maps h e i" using m M [OF D(2) [OF e]] by (simp add: maps_def)
      then show ?thesis using tne [OF D(1) [OF e]] UT [OF D [OF e]] M [OF D(2) [OF e]] by simp
    qed
  qed (use sr in auto)
  moreover have "tr ?h5 e va = tr h e va" if e: "e \<in> dir_frames ?h5" and va: "pd_index va < TEMP_PD_SLOT" for e va
  proof -
    have "tbl h e (pd_index va) \<noteq> ?d" if "is_present (mem h e (pd_index va))"
      using tne [OF D(1) [OF e]] that va by (simp add: maps_def)
    then show ?thesis unfolding tr_def M [OF D(2) [OF e]] using M by auto
  qed
  ultimately have "destroy_result r h ?h5" using sr(1) F unfolding destroy_result_def freed_def by simp
  with ex show ?thesis by blast
qed

subsection \<open>Properties\<close>

lemma get_physical_tr:
  assumes "vm_ok h" "pd_index va < TEMP_PD_SLOT"
  shows "HAL_VMM_GetPhysicalAddress va h =
    Some (case tr h (root h) va of None \<Rightarrow> 0 | Some e \<Rightarrow> get_frame e + (va AND 0xFFF))"
  using assms vm_okD(1) [OF assms(1)] by (simp add: HAL_VMM_GetPhysicalAddress_def tr_def)

lemma get_frame_translated: "get_frame (set_frame pa (translate_flags flags)) = get_frame pa"
proof -
  have "translate_flags flags AND 0xFFFFF000 = 0" by (simp add: translate_flags_def Let_def)
  then show ?thesis unfolding get_frame_def set_frame_def by (simp add: bit.conj_disj_distrib2 and.assoc)
qed

definition demo_hal :: hal where
  "demo_hal = \<lparr>pm = demo_pmm_free, mem = (\<lambda>f i. if f = 1 \<and> i = 1023 then 0x1003 else 0), cr3 = 0x1000, roots = [0x1000]\<rparr>"

lemma frame_no_numeral: "frame_no 0x1000 = 1" "frame_no 0x1003 = 1" "frame_no 0x40000000 = 0x40000"
  by (simp_all only: frame_no_def unat_drop) simp_all

lemma demo_hal_ok: "vm_ok demo_hal"
proof -
  have "used demo_pmm_free 1" by (rule full_word_used [of _ 0]) (simp_all add: demo_pmm_free_def demo_pmm_def)
  moreover have "is_present (0x1003 :: u32)" by (simp add: present_odd)
  moreover have "get_frame (0x1000 :: u32) = 0x1000" by (simp add: get_frame_def)
  ultimately show ?thesis
    using demo_pmm_free_ok
    by (simp add: vm_ok_def roots_ok_def tables_ok_def tables_inj_def kernel_shared_def maps_def owned_def self_mapped_def demo_hal_def frame_no_numeral)
qed

text \<open>C14. Mapping a page. From every consistent state \<open>HAL_VMM_MapPage\<close> returns without a
  fault in a consistent state. When it succeeds the page was not mapped before; afterwards
  the active address space, and for a kernel address every registered one, translates exactly
  that page to the requested frame with the requested rights, and no other page of any address
  space changes. When it fails nothing changes for anyone, and either the page was mapped
  already or no physical frame was free.\<close>

theorem map_page_spec:
  assumes "vm_ok h" "pd_index va < TEMP_PD_SLOT"
  shows "\<exists>b h'. HAL_VMM_MapPage va pa flags h = Some (b, h') \<and> vm_ok h' \<and> cr3 h' = cr3 h \<and> roots h' = roots h \<and>
    (if b then tr h (root h) va = None \<and>
       (\<forall>d\<in>dir_frames h. \<forall>va'. pd_index va' < TEMP_PD_SLOT \<longrightarrow>
          tr h' d va' = (if sees h va d va' then Some (set_frame pa (translate_flags flags)) else tr h d va'))
     else (\<forall>d\<in>dir_frames h. \<forall>va'. pd_index va' < TEMP_PD_SLOT \<longrightarrow> tr h' d va' = tr h d va') \<and>
       (tr h (root h) va \<noteq> None \<or> (\<forall>f < max_frames_of (pm h). used (pm h) f)))"
  using map_page_result [OF assms] unfolding map_result_def .

theorem map_page_spec_witness:
  "\<exists>b h'. HAL_VMM_MapPage 0xC0000000 0x400000 P_WRITE demo_hal = Some (b, h') \<and> vm_ok h'"
proof -
  have "pd_index 0xC0000000 < TEMP_PD_SLOT" by (simp add: nat_pd_index)
  from map_page_spec [OF demo_hal_ok this, of "0x400000" P_WRITE] show ?thesis by blast
qed

text \<open>Map, translate, unmap. After a successful map the physical address of the page is the
  requested frame plus the offset in the page; unmapping it then gives back the translation
  every address space had before the map.\<close>

theorem map_unmap_round_trip:
  assumes "vm_ok h" "pd_index va < TEMP_PD_SLOT" "HAL_VMM_MapPage va pa flags h = Some (True, h')"
  shows "HAL_VMM_GetPhysicalAddress va h' = Some (get_frame pa + (va AND 0xFFF)) \<and>
    (\<exists>h''. HAL_VMM_UnmapPage va h' = Some h'' \<and> vm_ok h'' \<and>
      (\<forall>d\<in>dir_frames h. \<forall>va'. pd_index va' < TEMP_PD_SLOT \<longrightarrow> tr h'' d va' = tr h d va'))"
proof -
  from map_page_result [OF assms(1,2), of pa flags] assms(3) have r: "map_result va pa flags h True h'" by auto
  then have ok': "vm_ok h'" and c: "cr3 h' = cr3 h" "roots h' = roots h" by (simp_all add: map_result_def)
  have rd: "root h \<in> dir_frames h" by (rule vm_okD(2) [OF assms(1)])
  have "sees h va (root h) va" using rd by (simp add: sees_def same_page_def shared_dirs_def)
  moreover have all: "\<forall>d\<in>dir_frames h. \<forall>va'. pd_index va' < TEMP_PD_SLOT \<longrightarrow>
      tr h' d va' = (if sees h va d va' then Some (set_frame pa (translate_flags flags)) else tr h d va')"
    using r unfolding map_result_def if_True by blast
  ultimately have "tr h' (root h') va = Some (set_frame pa (translate_flags flags))"
    using all [rule_format, OF rd assms(2)] by (simp add: c)
  then have phys: "HAL_VMM_GetPhysicalAddress va h' = Some (get_frame pa + (va AND 0xFFF))"
    by (simp add: get_physical_tr [OF ok' assms(2)] get_frame_translated)
  from unmap_page_result [OF ok' assms(2)] obtain h'' where u: "HAL_VMM_UnmapPage va h' = Some h''" "unmap_result va h' h''" by blast
  have se: "sees h' va d va' = sees h va d va'" for d va' by (simp add: sees_def shared_dirs_def c)
  have uall: "\<forall>d\<in>dir_frames h'. \<forall>va'. pd_index va' < TEMP_PD_SLOT \<longrightarrow>
      tr h'' d va' = (if sees h' va d va' then None else tr h' d va')" using u(2) unfolding unmap_result_def by blast
  have "tr h'' d va' = tr h d va'" if d: "d \<in> dir_frames h" and va': "pd_index va' < TEMP_PD_SLOT" for d va'
  proof (cases "sees h va d va'")
    case True
    then have "mem h d (pd_index va') = mem h (root h) (pd_index va')"
      using kernel_sharedD [OF assms(1) d rd _ va'] by (auto simp: sees_def same_page_def shared_dirs_def split: if_splits)
    with True have "tr h d va' = tr h (root h) va" by (auto simp: tr_def sees_def same_page_def)
    moreover have "tr h (root h) va = None" using r by (simp add: map_result_def)
    moreover have "tr h'' d va' = None" using uall [unfolded c se, rule_format, OF d va'] True by simp
    ultimately show ?thesis by simp
  next
    case False
    then show ?thesis using uall [unfolded c se, rule_format, OF d va'] all [rule_format, OF d va'] by simp
  qed
  then have "\<forall>d\<in>dir_frames h. \<forall>va'. pd_index va' < TEMP_PD_SLOT \<longrightarrow> tr h'' d va' = tr h d va'" by blast
  with phys u show ?thesis unfolding unmap_result_def by blast
qed

lemma demo_hal_map: "\<exists>h'. HAL_VMM_MapPage 0xC0000000 0x400000 P_WRITE demo_hal = Some (True, h')"
proof -
  have pd: "pd_index 0xC0000000 < TEMP_PD_SLOT" by (simp add: nat_pd_index)
  have "\<not> used (pm demo_hal) 4096" using demo_pmm_free_run by (simp add: demo_hal_def free_run_def)
  moreover have "4096 < max_frames_of (pm demo_hal)" using demo_pmm_free_ok(3) by (simp add: demo_hal_def)
  ultimately have nf: "\<not> (\<forall>f < max_frames_of (pm demo_hal). used (pm demo_hal) f)" by blast
  have "tr demo_hal (root demo_hal) 0xC0000000 = None" by (simp add: tr_def demo_hal_def nat_pd_index)
  with map_page_result [OF demo_hal_ok pd, of "0x400000" P_WRITE] nf show ?thesis
    unfolding map_result_def by (metis (full_types))
qed

theorem map_unmap_round_trip_witness:
  "\<exists>h' h''. HAL_VMM_MapPage 0xC0000000 0x400000 P_WRITE demo_hal = Some (True, h') \<and>
     HAL_VMM_GetPhysicalAddress 0xC0000000 h' = Some 0x400000 \<and> HAL_VMM_UnmapPage 0xC0000000 h' = Some h'' \<and> vm_ok h''"
proof -
  obtain h' where h': "HAL_VMM_MapPage 0xC0000000 0x400000 P_WRITE demo_hal = Some (True, h')" using demo_hal_map by blast
  have pd: "pd_index 0xC0000000 < TEMP_PD_SLOT" by (simp add: nat_pd_index)
  have "get_frame 0x400000 + (0xC0000000 AND 0xFFF) = (0x400000 :: u32)" by (simp add: get_frame_def)
  with map_unmap_round_trip [OF demo_hal_ok pd h'] h' show ?thesis by metis
qed

text \<open>C15. A new address space. While fewer than 64 are registered, \<open>HAL_VMM_CreateAddressSpace\<close>
  either finds no free frame and changes nothing, or returns a new root whose user half is
  empty and whose kernel half translates exactly as the active one; every existing address
  space keeps its translation.\<close>

theorem create_address_space_spec:
  assumes "vm_ok h" "length (roots h) < MAX_ADDRESS_SPACES"
  shows "\<exists>a h'. HAL_VMM_CreateAddressSpace h = Some (a, h') \<and> vm_ok h' \<and> cr3 h' = cr3 h \<and>
    (if a = 0 then h' = h \<and> (\<forall>f < max_frames_of (pm h). used (pm h) f)
     else frame_no a \<notin> dir_frames h \<and> roots h' = roots h @ [a] \<and>
       (\<forall>va. pd_index va < TEMP_PD_SLOT \<longrightarrow>
          tr h' (frame_no a) va = (if KERNEL_SPLIT \<le> pd_index va then tr h (root h) va else None) \<and>
          (\<forall>d\<in>dir_frames h. tr h' d va = tr h d va)))"
proof (rule alloc_one [OF assms(1)])
  assume a: "HAL_PMM_AllocateFrames 1 (pm h) = Some (0, pm h)" "\<forall>f < max_frames_of (pm h). used (pm h) f"
  then have "HAL_VMM_CreateAddressSpace h = Some (0, h)" by (simp add: HAL_VMM_CreateAddressSpace_def)
  with a(2) assms(1) show ?thesis by auto
next
  fix a p assume a: "HAL_PMM_AllocateFrames 1 (pm h) = Some (a, p)" "a \<noteq> 0" "get_frame a = a" and
      "pmm_ok p" "max_frames_of p = max_frames_of (pm h)"
      "0 < frame_no a" "frame_no a < max_frames_of (pm h)" and nu: "\<not> used (pm h) (frame_no a)" and
      "\<forall>g. used p g = (used (pm h) g \<or> g = frame_no a)"
  then have fr: "fresh h a p" by (simp add: fresh_def)
  have "HAL_VMM_CreateAddressSpace h = Some (a, spawned h a p)" by (rule create_spawned [OF assms(1) a(1,2) nu assms(2)])
  moreover have "vm_ok (spawned h a p)" by (rule spawned_ok [OF assms(1) fr a(3) assms(2)])
  moreover have "frame_no a \<notin> dir_frames h" by (rule new_frame(1) [OF assms(1) nu])
  ultimately show ?thesis using a(2) spawned_tr [OF assms(1) fr] by (intro exI [of _ a] exI [of _ "spawned h a p"]) simp
qed

theorem create_address_space_spec_witness:
  "\<exists>a h'. HAL_VMM_CreateAddressSpace demo_hal = Some (a, h') \<and> vm_ok h'"
proof -
  have "length (roots demo_hal) < MAX_ADDRESS_SPACES" by (simp add: demo_hal_def)
  from create_address_space_spec [OF demo_hal_ok this] show ?thesis by blast
qed

text \<open>C16. Destroying an address space that is registered and not active releases exactly its page
  directory and its user page tables, unregisters it, and leaves the translation of every
  other address space as it was.\<close>

theorem destroy_address_space_spec:
  assumes "vm_ok h" "r \<in> set (roots h)" "r \<noteq> cr3 h"
  shows "\<exists>h'. HAL_VMM_DestroyAddressSpace r h = Some h' \<and> vm_ok h' \<and> cr3 h' = cr3 h \<and> set (roots h') = set (roots h) - {r} \<and>
      (\<forall>g. used (pm h') g = (used (pm h) g \<and> g \<notin> insert (frame_no r) (user_tables h (frame_no r) KERNEL_SPLIT))) \<and>
      (\<forall>d\<in>dir_frames h'. \<forall>va. pd_index va < TEMP_PD_SLOT \<longrightarrow> tr h' d va = tr h d va)"
  using destroy_result [OF assms] unfolding destroy_result_def .

definition demo_hal2 :: hal where
  "demo_hal2 = demo_hal\<lparr>mem := (\<lambda>f i. if f = 1 \<and> i = 1023 then 0x1003 else if f = 2 \<and> i = 1023 then 0x2003 else 0),
     roots := [0x1000, 0x2000]\<rparr>"

lemma demo_hal2_ok: "vm_ok demo_hal2"
proof -
  have "used demo_pmm_free 1" "used demo_pmm_free 2"
    by (rule full_word_used [of _ 0]; simp add: demo_pmm_free_def demo_pmm_def)+
  moreover have "is_present (0x1003 :: u32)" "is_present (0x2003 :: u32)" by (simp_all add: present_odd)
  moreover have "get_frame (0x1000 :: u32) = 0x1000" "get_frame (0x2000 :: u32) = 0x2000" by (simp_all add: get_frame_def)
  moreover have "frame_no 0x2000 = 2" "frame_no 0x2003 = 2" by (simp_all only: frame_no_def unat_drop) simp_all
  ultimately show ?thesis
    using demo_pmm_free_ok
    by (simp add: vm_ok_def roots_ok_def tables_ok_def tables_inj_def kernel_shared_def maps_def owned_def self_mapped_def
      demo_hal2_def demo_hal_def frame_no_numeral)
qed

theorem destroy_address_space_spec_witness:
  "\<exists>h'. HAL_VMM_DestroyAddressSpace 0x2000 demo_hal2 = Some h' \<and> vm_ok h' \<and> set (roots h') = {0x1000}"
proof -
  have "0x2000 \<in> set (roots demo_hal2)" "0x2000 \<noteq> cr3 demo_hal2" "set (roots demo_hal2) - {0x2000} = {0x1000}"
    by (auto simp: demo_hal2_def demo_hal_def)
  with destroy_address_space_spec [OF demo_hal2_ok, of "0x2000"] show ?thesis by metis
qed

subsection \<open>Beyond sixty-four address spaces\<close>

lemma unregistered_ok:
  assumes ok: "vm_ok h" and fr: "fresh h a p"
  shows "vm_ok ((spawned h a p)\<lparr>roots := roots h\<rparr>)" (is "vm_ok ?h")
proof -
  have nu: "\<not> used (pm h) (frame_no a)" using fr by (simp add: fresh_def)
  have old: "mem ?h d i = mem h d i" if "d \<in> dir_frames h" for d i
    using that new_frame(1) [OF ok nu] spawned_old [of d a h p i] by (metis hal.select_convs(2) hal.surjective hal.update_convs(4))
  have O: "owned ?h f" if "owned h f" for f using owned_fresh [OF fr that] by (simp add: owned_def)
  have "roots_ok ?h"
    unfolding roots_ok_def
  proof (intro conjI ballI)
    fix d assume "d \<in> dir_frames ?h"
    then have d: "d \<in> dir_frames h" by simp
    then have "owned h d \<and> self_mapped h d \<and> mem h d TEMP_PD_SLOT = 0" using ok unfolding vm_ok_def roots_ok_def by blast
    then show "owned ?h d" "self_mapped ?h d" "mem ?h d TEMP_PD_SLOT = 0" using O old [OF d] by (simp_all add: self_mapped_def)
  qed (use ok in \<open>simp_all add: vm_ok_def roots_ok_def\<close>)
  moreover have mp: "maps ?h d i = maps h d i" if "d \<in> dir_frames h" for d i using old [OF that] by (simp add: maps_def)
  have "tables_ok ?h"
    unfolding tables_ok_def
  proof (intro ballI allI impI)
    fix d i assume "d \<in> dir_frames ?h" and m: "maps ?h d i"
    then have d: "d \<in> dir_frames h" by simp
    have "maps h d i" using m mp [OF d] by simp
    from root_tableD [OF ok d this] show "owned ?h (tbl ?h d i) \<and> tbl ?h d i \<notin> dir_frames ?h" using O old [OF d] by simp
  qed
  moreover have "tables_inj ?h"
    unfolding tables_inj_def
  proof (intro ballI allI impI)
    fix d d' i i' assume "d \<in> dir_frames ?h" "d' \<in> dir_frames ?h" and m: "maps ?h d i \<and> maps ?h d' i' \<and> tbl ?h d i = tbl ?h d' i'"
    then have d: "d \<in> dir_frames h" "d' \<in> dir_frames h" by simp_all
    show "i = i' \<and> (d = d' \<or> KERNEL_SPLIT \<le> i)"
      using tables_injD [OF ok d] m unfolding mp [OF d(1)] mp [OF d(2)] old [OF d(1)] old [OF d(2)] by blast
  qed
  moreover have "kernel_shared ?h"
    unfolding kernel_shared_def
  proof (intro ballI allI impI)
    fix d d' i assume "d \<in> dir_frames ?h" "d' \<in> dir_frames ?h" and i: "KERNEL_SPLIT \<le> i \<and> i < TEMP_PD_SLOT"
    then have d: "d \<in> dir_frames h" "d' \<in> dir_frames h" by simp_all
    show "mem ?h d i = mem ?h d' i" using kernel_sharedD [OF ok d] i old [OF d(1)] old [OF d(2)] by simp
  qed
  moreover have "pmm_ok p" "used p 0" using fr vm_okD(5) [OF ok] by (simp_all add: fresh_def)
  ultimately show ?thesis by (simp add: vm_ok_def)
qed

lemma map_new_table:
  assumes ok: "vm_ok h" and pd: "pd_index va < TEMP_PD_SLOT" and np: "\<not> is_present (mem h (root h) (pd_index va))"
    and f: "f \<notin> dir_frames h" "used (pm h) f" and m: "HAL_VMM_MapPage va pa flags h = Some (True, h')"
  shows "mem h' f i = mem h f i"
proof (rule alloc_one [OF ok])
  assume "HAL_PMM_AllocateFrames 1 (pm h) = Some (0, pm h)"
  then have "HAL_VMM_MapPage va pa flags h = Some (False, h)"
    using np vm_okD(1) [OF ok] by (simp add: HAL_VMM_MapPage_def add_table_def)
  with m show ?thesis by simp
next
  fix a p assume a: "HAL_PMM_AllocateFrames 1 (pm h) = Some (a, p)" "a \<noteq> 0" and
      "pmm_ok p" "max_frames_of p = max_frames_of (pm h)"
      "0 < frame_no a" "frame_no a < max_frames_of (pm h)" and nu: "\<not> used (pm h) (frame_no a)" and
      "\<forall>g. used p g = (used (pm h) g \<or> g = frame_no a)"
  then have fr: "fresh h a p" by (simp add: fresh_def)
  let ?h = "linked h (pd_index va) a p"
  have rd: "root h \<in> dir_frames h" by (rule vm_okD(2) [OF ok])
  have ok': "vm_ok ?h" by (rule linked_ok [OF ok pd np fr])
  have "root h \<in> shared_dirs h (pd_index va)" using rd by (simp add: shared_dirs_def)
  then have e: "mem ?h (root ?h) (pd_index va) = set_frame a (PRESENT OR WRITABLE OR USER)"
    using linked_dir [OF ok fr rd] by simp
  have "h' = put (frame_no a) (pt_index va) (set_frame pa (translate_flags flags)) ?h"
    using m np vm_okD(1) [OF ok] add_table_linked [OF ok pd a nu] window_read_root [OF vm_okD(1) [OF ok'], of "pd_index va"]
      window_write_root [OF vm_okD(1) [OF ok'], of "pd_index va"] pd unfolding e
    by (auto simp: HAL_VMM_MapPage_def split: if_splits)
  moreover have "f \<noteq> frame_no a" using f(2) nu by blast
  moreover have "f \<notin> shared_dirs h (pd_index va)" using f(1) rd by (auto simp: shared_dirs_def)
  ultimately show ?thesis by (simp add: linked_def)
qed

text \<open>The sixty-fifth address space. With 64 page directories registered,
  \<open>HAL_VMM_CreateAddressSpace\<close> still returns a new root, but nobody registers it: when the kernel
  then maps a page whose page table does not exist yet, every registered address space sees
  the page and the new one does not.\<close>

theorem unregistered_root_misses_mapping:
  assumes "vm_ok h" "length (roots h) = MAX_ADDRESS_SPACES"
    "HAL_VMM_CreateAddressSpace h = Some (a, h1)" "a \<noteq> 0"
    "KERNEL_SPLIT \<le> pd_index va" "pd_index va < TEMP_PD_SLOT" "\<not> is_present (mem h (root h) (pd_index va))"
    "HAL_VMM_MapPage va pa flags h1 = Some (True, h2)"
  shows "a \<notin> set (roots h2) \<and> tr h2 (frame_no a) va = None \<and>
    (\<forall>d\<in>dir_frames h. tr h2 d va = Some (set_frame pa (translate_flags flags)))"
proof (rule alloc_one [OF assms(1)])
  assume "HAL_PMM_AllocateFrames 1 (pm h) = Some (0, pm h)"
  with assms(3,4) show ?thesis by (simp add: HAL_VMM_CreateAddressSpace_def)
next
  fix b p assume b: "HAL_PMM_AllocateFrames 1 (pm h) = Some (b, p)" "b \<noteq> 0" and
      "pmm_ok p" "max_frames_of p = max_frames_of (pm h)"
      "0 < frame_no b" "frame_no b < max_frames_of (pm h)" and nu: "\<not> used (pm h) (frame_no b)" and
      u: "\<forall>g. used p g = (used (pm h) g \<or> g = frame_no b)"
  then have fr: "fresh h b p" by (simp add: fresh_def)
  let ?h1 = "(spawned h b p)\<lparr>roots := roots h\<rparr>"
  have h1: "a = b" "h1 = ?h1" using create_register [OF assms(1) b nu] assms(2,3) by (simp_all add: register_root_def)
  have nd: "frame_no b \<notin> dir_frames h" by (rule new_frame(1) [OF assms(1) nu])
  have ok1: "vm_ok h1" unfolding h1 by (rule unregistered_ok [OF assms(1) fr])
  have r1: "roots h1 = roots h" "root h1 = root h" unfolding h1 by simp_all
  have rd: "root h \<in> dir_frames h" by (rule vm_okD(2) [OF assms(1)])
  have "root h \<noteq> frame_no b" using rd nd by metis
  then have np: "\<not> is_present (mem h1 (root h1) (pd_index va))" using assms(7) unfolding h1 by (simp add: spawned_old)
  have "used (pm h1) (frame_no b)" using u unfolding h1 by simp
  with map_new_table [OF ok1 assms(6) np _ _ assms(8)] nd have "mem h2 (frame_no b) (pd_index va) = mem h1 (frame_no b) (pd_index va)"
    unfolding r1 by blast
  also have "\<dots> = mem h (root h) (pd_index va)" using assms(5,6) unfolding h1 by (simp add: spawned_new)
  finally have "tr h2 (frame_no b) va = None" using assms(7) by (simp add: tr_def)
  moreover from map_page_result [OF ok1 assms(6), of pa flags] assms(8) have r: "map_result va pa flags h1 True h2" by auto
  then have all: "\<forall>d\<in>dir_frames h1. \<forall>va'. pd_index va' < TEMP_PD_SLOT \<longrightarrow>
      tr h2 d va' = (if sees h1 va d va' then Some (set_frame pa (translate_flags flags)) else tr h1 d va')"
    and r2: "roots h2 = roots h1" unfolding map_result_def if_True by blast+
  have "tr h2 d va = Some (set_frame pa (translate_flags flags))" if "d \<in> dir_frames h" for d
    using all [unfolded r1, rule_format, OF that assms(6)] that assms(5) r1
    by (simp add: sees_def same_page_def shared_dirs_def)
  moreover have "a \<notin> set (roots h2)" using nd unfolding r2 r1 h1(1) by (meson image_eqI)
  ultimately show ?thesis unfolding h1(1) by blast
qed

definition demo_hal64 :: hal where
  "demo_hal64 = \<lparr>pm = demo_pmm_free,
     mem = (\<lambda>f i. if 1 \<le> f \<and> f \<le> 64 \<and> i = 1023 then set_frame (of_nat (f * 4096)) 3 else 0),
     cr3 = of_nat (1 * 4096), roots = map (\<lambda>k. of_nat (k * 4096)) [1..<65]\<rparr>"

lemma demo_low_used: "f < 96 \<Longrightarrow> used demo_pmm_free f"
proof -
  assume f: "f < 96"
  then have "f div 32 < 3" by (simp add: div_less_iff_less_mult)
  then have "bitmap demo_pmm_free ! (f div 32) = BITMAP_INIT" by (simp add: demo_pmm_free_def demo_pmm_def)
  moreover have "f div 32 * 32 \<le> f" "f < f div 32 * 32 + 32" by linarith+
  ultimately show ?thesis by (intro full_word_used [of _ "f div 32 * 32"]) simp_all
qed

lemma demo_hal64_ok: "vm_ok demo_hal64" "length (roots demo_hal64) = MAX_ADDRESS_SPACES"
proof -
  show "length (roots demo_hal64) = MAX_ADDRESS_SPACES" by (simp add: demo_hal64_def)
  have fn: "frame_no (of_nat (k * 4096)) = k" if "k \<in> {1..<65}" for k using nth_frame [of k] that by simp
  have D: "dir_frames demo_hal64 = {1..<65}"
  proof -
    have "dir_frames demo_hal64 = (\<lambda>k. frame_no (of_nat (k * 4096))) ` {1..<65}" by (simp add: demo_hal64_def image_image del: of_nat_mult)
    also have "\<dots> = (\<lambda>k. k) ` {1..<65}" by (rule image_cong [OF refl fn])
    finally show ?thesis by simp
  qed
  have inj: "inj_on (\<lambda>k. of_nat (k * 4096) :: u32) {1..<65}"
  proof (rule inj_onI)
    fix x y :: nat assume "x \<in> {1..<65}" "y \<in> {1..<65}" "(of_nat (x * 4096) :: u32) = of_nat (y * 4096)"
    then show "x = y" using fn by metis
  qed
  have e: "mem demo_hal64 d i = (if 1 \<le> d \<and> d \<le> 64 \<and> i = 1023 then set_frame (of_nat (d * 4096)) 3 else 0)" for d i
    by (simp add: demo_hal64_def)
  have "roots_ok demo_hal64"
    unfolding roots_ok_def D
  proof (intro conjI ballI)
    show "cr3 demo_hal64 \<in> set (roots demo_hal64)" by (auto simp: demo_hal64_def intro!: image_eqI [of _ _ 1])
    show "distinct (roots demo_hal64)" using inj by (simp add: demo_hal64_def distinct_map del: of_nat_mult)
    show "length (roots demo_hal64) \<le> MAX_ADDRESS_SPACES" by (simp add: demo_hal64_def)
    show "get_frame r = r" if "r \<in> set (roots demo_hal64)" for r using that nth_frame(2) by (auto simp: demo_hal64_def simp del: of_nat_mult)
    fix d :: nat assume d: "d \<in> {1..<65}"
    then show "owned demo_hal64 d" using demo_low_used demo_pmm_free_ok(3) by (simp add: owned_def demo_hal64_def)
    have "is_present (set_frame (of_nat (d * 4096)) 3)" by simp
    moreover have "frame_no (set_frame (of_nat (d * 4096)) 3) = d" using fn [OF d] by (simp del: of_nat_mult)
    ultimately show "self_mapped demo_hal64 d" using d unfolding self_mapped_def e by simp
    show "mem demo_hal64 d TEMP_PD_SLOT = 0" by (simp add: e)
  qed
  moreover have np: "\<not> maps demo_hal64 d i" for d i by (auto simp: maps_def e)
  then have "tables_ok demo_hal64" "tables_inj demo_hal64" by (simp_all add: tables_ok_def tables_inj_def)
  moreover have "kernel_shared demo_hal64" unfolding kernel_shared_def e by simp
  ultimately show "vm_ok demo_hal64" using demo_pmm_free_ok by (simp add: vm_ok_def demo_hal64_def)
qed

theorem unregistered_root_misses_mapping_witness:
  "\<exists>a h1 h2. HAL_VMM_CreateAddressSpace demo_hal64 = Some (a, h1) \<and>
     HAL_VMM_MapPage 0xC0000000 0x400000 P_WRITE h1 = Some (True, h2) \<and>
     tr h2 (frame_no a) 0xC0000000 = None \<and> tr h2 1 0xC0000000 \<noteq> None"
proof (rule alloc_one [OF demo_hal64_ok(1)])
  assume "\<forall>f < max_frames_of (pm demo_hal64). used (pm demo_hal64) f"
  moreover have "\<not> used (pm demo_hal64) 4096" "4096 < max_frames_of (pm demo_hal64)"
    using demo_pmm_free_run demo_pmm_free_ok(3) by (simp_all add: demo_hal64_def free_run_def)
  ultimately show ?thesis by blast
next
  fix b p assume b: "HAL_PMM_AllocateFrames 1 (pm demo_hal64) = Some (b, p)" "b \<noteq> 0" and
      "pmm_ok p" and mx: "max_frames_of p = max_frames_of (pm demo_hal64)" and
      "0 < frame_no b" "frame_no b < max_frames_of (pm demo_hal64)" and nu: "\<not> used (pm demo_hal64) (frame_no b)" and
      u: "\<forall>g. used p g = (used (pm demo_hal64) g \<or> g = frame_no b)"
  then have fr: "fresh demo_hal64 b p" by (simp add: fresh_def)
  let ?h1 = "(spawned demo_hal64 b p)\<lparr>roots := roots demo_hal64\<rparr>"
  have c: "HAL_VMM_CreateAddressSpace demo_hal64 = Some (b, ?h1)"
    using create_register [OF demo_hal64_ok(1) b nu] demo_hal64_ok(2) by (simp add: register_root_def)
  have ok1: "vm_ok ?h1" by (rule unregistered_ok [OF demo_hal64_ok(1) fr])
  have pd: "pd_index 0xC0000000 = 768" by (simp add: nat_pd_index)
  have r: "root demo_hal64 = 1" using nth_frame(1) [of 1] by (simp add: demo_hal64_def)
  have d1: "1 \<in> dir_frames demo_hal64" using vm_okD(2) [OF demo_hal64_ok(1)] unfolding r .
  have np: "\<not> is_present (mem demo_hal64 (root demo_hal64) (pd_index 0xC0000000))" by (simp add: pd demo_hal64_def)
  have "1 \<noteq> frame_no b" using new_frame(1) [OF demo_hal64_ok(1) nu] d1 by metis
  then have "tr ?h1 (root ?h1) 0xC0000000 = None" using np by (simp add: tr_def spawned_old r)
  have nf: "\<not> (\<forall>f < max_frames_of p. used p f)"
  proof
    assume all: "\<forall>f < max_frames_of p. used p f"
    have "4096 < max_frames_of p" "4097 < max_frames_of p" using mx demo_pmm_free_ok(3) by (simp_all add: demo_hal64_def)
    then have "used p 4096" "used p 4097" using all by blast+
    moreover have "\<not> used (pm demo_hal64) 4096" "\<not> used (pm demo_hal64) 4097"
      using demo_pmm_free_run by (simp_all add: demo_hal64_def free_run_def)
    ultimately have "frame_no b = 4096" "frame_no b = 4097" using u by auto
    then show False by simp
  qed
  have pl: "pd_index 0xC0000000 < TEMP_PD_SLOT" by (simp add: pd)
  obtain b2 h2 where m: "HAL_VMM_MapPage 0xC0000000 0x400000 P_WRITE ?h1 = Some (b2, h2)" "map_result 0xC0000000 0x400000 P_WRITE ?h1 b2 h2"
    using map_page_result [OF ok1 pl, of "0x400000" P_WRITE] by blast
  have b2: b2
  proof (rule ccontr)
    assume "\<not> b2"
    then have "tr ?h1 (root ?h1) 0xC0000000 \<noteq> None \<or> (\<forall>f < max_frames_of (pm ?h1). used (pm ?h1) f)"
      using m(2) unfolding map_result_def by (simp only: if_False)
    moreover have "pm ?h1 = p" by simp
    ultimately show False using nf \<open>tr ?h1 (root ?h1) 0xC0000000 = None\<close> by simp
  qed
  then have m: "HAL_VMM_MapPage 0xC0000000 0x400000 P_WRITE ?h1 = Some (True, h2)" using m(1) by simp
  have "768 \<le> pd_index 0xC0000000" "pd_index 0xC0000000 < TEMP_PD_SLOT" by (simp_all add: pd)
  from unregistered_root_misses_mapping [OF demo_hal64_ok c b(2) this np m]
  have "tr h2 (frame_no b) 0xC0000000 = None" "tr h2 1 0xC0000000 \<noteq> None" using d1 by blast+
  with c m show ?thesis by blast
qed

end
