(* ===== verification/Vm_Operations.thy ===== *)
theory Vm_Operations
  imports Address_Space Address_Translation
begin

text \<open>
  The operations of \<open>Source/src/vmm.cpp\<close> that act on page tables and frames: they compose the
  descriptor trees of \<open>Address_Space\<close> with the page tables of \<open>Page_Tables\<close>. A value \<open>None\<close> is a
  processor fault (or a panic of the physical memory manager), an error code is a value of
  \<open>KernelError\<close>. Clearing a page writes the frame the processor's walk reaches. The page size
  is the global \<open>g_page_size\<close>; TLB shoot-downs, interrupt masking and messages have no
  counterpart.
\<close>

record kvm =
  hw :: hal
  g_page_size :: u32
  kernel_as :: AddressSpace      \<comment> \<open>\<open>g_kernel_address_space\<close>\<close>

abbreviation Invalid_root :: u32 where "Invalid_root \<equiv> 0xFFFFFFFF"

subsection \<open>Creating and destroying user address spaces\<close>

definition create_user_address_space :: "AddressSpace \<Rightarrow> hal \<Rightarrow> (KernelError \<times> AddressSpace \<times> hal) option" where
  "create_user_address_space as h =
     (if translation_root as \<noteq> 0 \<and> translation_root as \<noteq> Invalid_root then Some (InvalidState, as, h)
      else do {
        (root, h1) \<leftarrow> HAL_VMM_CreateAddressSpace h;
        if root = 0 then Some (OutOfMemory, as, h1)
        else Some (Success, \<lparr>vads = Null, translation_root = root, asid = 0, current_base = 0x10000000, limit = 0xC0000000\<rparr>, h1) })"

function free_pages :: "u32 \<Rightarrow> u32 \<Rightarrow> u32 \<Rightarrow> nat \<Rightarrow> hal \<Rightarrow> hal option" where
  "free_pages ps page e fuel h =
     (if fuel = 0 then None
      else if page < e then do {
        phys \<leftarrow> HAL_VMM_GetPhysicalAddress page h;
        h1 \<leftarrow> (if phys \<noteq> 0 then do { p \<leftarrow> HAL_PMM_FreeFrames phys 1 (pm h); Some (h\<lparr>pm := p\<rparr>) } else Some h);
        free_pages ps (page + ps) e (fuel - 1) h1 }
      else Some h)"
  by pat_completeness auto
termination by (relation "measure (\<lambda>(ps, page, e, fuel, h). fuel)") auto

declare free_pages.simps [simp del]

fun free_vads :: "u32 \<Rightarrow> VAD list \<Rightarrow> hal \<Rightarrow> hal option" where
  "free_vads ps [] h = Some h"
| "free_vads ps (v # vs) h = do { h1 \<leftarrow> free_pages ps (vstart v) (vend v) (2 ^ 20 + 1) h; free_vads ps vs h1 }"

definition destroy_user_address_space :: "u32 \<Rightarrow> AddressSpace \<Rightarrow> hal \<Rightarrow> (AddressSpace \<times> hal) option" where
  "destroy_user_address_space ps as h =
     (if translation_root as = 0 \<or> translation_root as = Invalid_root then Some (as, h)
      else do {
        let caller_root = HAL_VMM_GetCurrentTranslationRoot h;
        h1 \<leftarrow> free_vads ps (clear_order (vads as)) (HAL_VMM_SwitchAddressSpace (translation_root as) h);
        let h2 = HAL_VMM_SwitchAddressSpace caller_root h1;
        h3 \<leftarrow> HAL_VMM_DestroyAddressSpace (translation_root as) h2;
        Some (as\<lparr>vads := Null, translation_root := 0\<rparr>, h3) })"

subsection \<open>Placing pages\<close>

definition zero_page :: "u32 \<Rightarrow> hal \<Rightarrow> hal option" where
  "zero_page va h = do {
     f \<leftarrow> mmu_frame h va;
     Some (h\<lparr>mem := (mem h)(f := (\<lambda>i. if i < 1024 then 0 else mem h f i))\<rparr>) }"

definition with_flag :: "u32 \<Rightarrow> u32 \<Rightarrow> u32" where
  "with_flag fl x = fl OR x"

definition release_frame :: "u32 \<Rightarrow> hal \<Rightarrow> hal option" where
  "release_frame phys h = do { p \<leftarrow> HAL_PMM_FreeFrames phys 1 (pm h); Some (h\<lparr>pm := p\<rparr>) }"

text \<open>Map a page writable, clear it, and take the write permission away again when the
  region has none: the common body of the two mapping loops.\<close>

definition fill_page :: "u32 \<Rightarrow> u32 \<Rightarrow> u32 \<Rightarrow> hal \<Rightarrow> (bool \<times> hal) option" where
  "fill_page page phys map_flags h = do {
     (ok, h1) \<leftarrow> HAL_VMM_MapPage page phys (with_flag map_flags P_WRITE) h;
     if \<not> ok then Some (False, h1)
     else do {
       h2 \<leftarrow> zero_page page h1;
       if has_flag map_flags P_WRITE then Some (True, h2)
       else do {
         h3 \<leftarrow> HAL_VMM_UnmapPage page h2;
         HAL_VMM_MapPage page phys map_flags h3 } } }"

definition place_page :: "u32 \<Rightarrow> u32 \<Rightarrow> hal \<Rightarrow> (KernelError \<times> hal) option" where
  "place_page page map_flags h = do {
     old \<leftarrow> HAL_VMM_GetPhysicalAddress page h;
     if old \<noteq> 0 then Some (ResourceConflict, h)
     else do {
       (phys, p) \<leftarrow> HAL_PMM_AllocateFrames 1 (pm h);
       let h1 = h\<lparr>pm := p\<rparr>;
       if phys = 0 then Some (OutOfMemory, h1)
       else do {
         (ok, h2) \<leftarrow> fill_page page phys map_flags h1;
         if ok then Some (Success, h2)
         else do { h3 \<leftarrow> release_frame phys h2; Some (DeviceError, h3) } } } }"

text \<open>The loop of \<open>map_fixed_memory\<close>: \<open>n\<close> pages are left, \<open>k\<close> are placed.\<close>

fun place_pages :: "u32 \<Rightarrow> u32 \<Rightarrow> u32 \<Rightarrow> nat \<Rightarrow> nat \<Rightarrow> hal \<Rightarrow> (KernelError \<times> nat \<times> hal) option" where
  "place_pages ps address map_flags 0 k h = Some (Success, k, h)"
| "place_pages ps address map_flags (Suc n) k h = do {
     (e, h1) \<leftarrow> place_page (address + of_nat k * ps) map_flags h;
     if e = Success then place_pages ps address map_flags n (Suc k) h1 else Some (e, k, h1) }"

primrec undo_pages :: "u32 \<Rightarrow> u32 \<Rightarrow> nat \<Rightarrow> hal \<Rightarrow> hal option" where
  "undo_pages ps address 0 h = Some h"
| "undo_pages ps address (Suc k) h = do {
     h1 \<leftarrow> undo_pages ps address k h;
     phys \<leftarrow> HAL_VMM_GetPhysicalAddress (address + of_nat k * ps) h1;
     h2 \<leftarrow> HAL_VMM_UnmapPage (address + of_nat k * ps) h1;
     release_frame phys h2 }"

definition overlaps :: "u32 \<Rightarrow> u32 \<Rightarrow> VAD \<Rightarrow> bool" where
  "overlaps address aligned v = (address < vend v \<and> address + aligned > vstart v)"

definition map_fixed_memory ::
    "KernelError option \<Rightarrow> u32 \<Rightarrow> u32 \<Rightarrow> u32 \<Rightarrow> u32 \<Rightarrow> AddressSpace \<Rightarrow> hal \<Rightarrow> (KernelError \<times> AddressSpace \<times> hal) option" where
  "map_fixed_memory create ps address sz flags as h =
     (if ps = 0 then Some (NotInitialized, as, h)
      else if sz = 0 then Some (InvalidSize, as, h)
      else if address AND (ps - 1) \<noteq> 0 \<or> address < 0x10000 \<or> address \<ge> limit as \<or> sz > limit as - address
        then Some (InvalidAddress, as, h)
      else if sz > 0xFFFFFFFF - (ps - 1) then Some (ArithmeticOverflow, as, h)
      else let aligned = align_size ps sz in
      if aligned > limit as - address then Some (OutOfRange, as, h)
      else if \<exists>v\<in>vad_set as. overlaps address aligned v then Some (ResourceConflict, as, h)
      else case create of
        Some e \<Rightarrow> Some (e, as, h)
      | None \<Rightarrow> do {
          let caller = HAL_VMM_GetCurrentTranslationRoot h;
          let map_flags = with_flag flags P_USER;
          let pages = unat aligned div unat ps;
          (err, k, h1) \<leftarrow> place_pages ps address map_flags pages 0 (HAL_VMM_SwitchAddressSpace (translation_root as) h);
          h2 \<leftarrow> (if k \<noteq> pages then undo_pages ps address k h1 else Some h1);
          let h3 = HAL_VMM_SwitchAddressSpace caller h2;
          if k \<noteq> pages then Some (err, as, h3)
          else Some (Success, insert_vad \<lparr>vstart = address, vend = address + aligned, vflags = map_flags, backing = None, lock_count = 0\<rparr> as, h3) })"

subsection \<open>Allocating memory\<close>

fun fill_pages :: "u32 \<Rightarrow> u32 \<Rightarrow> u32 \<Rightarrow> u32 \<Rightarrow> nat \<Rightarrow> nat \<Rightarrow> hal \<Rightarrow> (bool \<times> nat \<times> hal) option" where
  "fill_pages ps v_addr phys map_flags 0 k h = Some (True, k, h)"
| "fill_pages ps v_addr phys map_flags (Suc n) k h = do {
     (ok, h1) \<leftarrow> fill_page (v_addr + of_nat k * ps) (phys + of_nat k * ps) map_flags h;
     if ok then fill_pages ps v_addr phys map_flags n (Suc k) h1 else Some (False, k, h1) }"

primrec unmap_pages :: "u32 \<Rightarrow> u32 \<Rightarrow> nat \<Rightarrow> hal \<Rightarrow> hal option" where
  "unmap_pages ps v_addr 0 h = Some h"
| "unmap_pages ps v_addr (Suc k) h = do { h1 \<leftarrow> unmap_pages ps v_addr k h; HAL_VMM_UnmapPage (v_addr + of_nat k * ps) h1 }"

definition allocate_memory ::
    "bool \<Rightarrow> create \<Rightarrow> u32 \<Rightarrow> u32 \<Rightarrow> u32 \<Rightarrow> AddressSpace \<Rightarrow> hal \<Rightarrow> (u32 expected \<times> AddressSpace \<times> hal) option" where
  "allocate_memory is_kernel create ps sz flags as h =
     (if ps = 0 then Some (Inl NotInitialized, as, h)
      else if sz = 0 then Some (Inl InvalidSize, as, h)
      else if sz > 0xFFFFFFFF - (ps - 1) then Some (Inl ArithmeticOverflow, as, h)
      else let cnt = (sz + ps - 1) div ps in
      if cnt > 0xFFFFFFFF div ps then Some (Inl ArithmeticOverflow, as, h)
      else do {
        (phys, p) \<leftarrow> HAL_PMM_AllocateFrames (unat cnt) (pm h);
        let h1 = h\<lparr>pm := p\<rparr>;
        if phys = 0 then Some (Inl OutOfMemory, as, h1)
        else
          (let map_flags = (if is_kernel then flags else with_flag flags P_USER) in
          case KE_VMM_AllocateRegion ps create (cnt * ps) map_flags as of
            (Inl e, as1) \<Rightarrow> do {
              q \<leftarrow> HAL_PMM_FreeFrames phys (unat cnt) (pm h1);
              Some (Inl e, as1, h1\<lparr>pm := q\<rparr>) }
          | (Inr virt, as1) \<Rightarrow> do {
              let caller_root = HAL_VMM_GetCurrentTranslationRoot h1;
              let switch_as = (translation_root as1 \<noteq> 0 \<and> translation_root as1 \<noteq> caller_root);
              let h2 = (if switch_as then HAL_VMM_SwitchAddressSpace (translation_root as1) h1 else h1);
              (ok, k, h3) \<leftarrow> fill_pages ps virt phys map_flags (unat cnt) 0 h2;
              h4 \<leftarrow> (if ok then Some h3 else unmap_pages ps virt k h3);
              let as2 = (if ok then as1 else snd (KE_VMM_FreeRegion virt as1));
              let h5 = (if switch_as then HAL_VMM_SwitchAddressSpace caller_root h4 else h4);
              if ok then Some (Inr virt, as2, h5)
              else do { q \<leftarrow> HAL_PMM_FreeFrames phys (unat cnt) (pm h5); Some (Inl DeviceError, as2, h5\<lparr>pm := q\<rparr>) } }) })"

subsection \<open>Borrowed and physical mappings\<close>

definition KE_VMM_MapPhysical :: "AddressSpace \<Rightarrow> u32 \<Rightarrow> u32 \<Rightarrow> u32 \<Rightarrow> hal \<Rightarrow> (KernelError \<times> hal) option" where
  "KE_VMM_MapPhysical as virt phys flags h =
     (if virt = 0 \<or> phys = 0 then Some (InvalidAddress, h)
      else if translation_root as \<noteq> HAL_VMM_GetCurrentTranslationRoot h then Some (Unsupported, h)
      else do { (ok, h1) \<leftarrow> HAL_VMM_MapPage virt phys flags h; Some (if ok then Success else DeviceError, h1) })"

definition align_down :: "u32 \<Rightarrow> u32 \<Rightarrow> u32" where
  "align_down ps a = a AND NOT (ps - 1)"

fun frames_of :: "u32 \<Rightarrow> u32 \<Rightarrow> nat \<Rightarrow> nat \<Rightarrow> hal \<Rightarrow> u32 list option option" where
  "frames_of ps page_start 0 k h = Some (Some [])"
| "frames_of ps page_start (Suc n) k h = do {
     phys \<leftarrow> HAL_VMM_GetPhysicalAddress (page_start + of_nat k * ps) h;
     if phys = 0 then Some None
     else do {
       r \<leftarrow> frames_of ps page_start n (Suc k) h;
       Some (case r of None \<Rightarrow> None | Some fs \<Rightarrow> Some (phys # fs)) } }"

fun map_frames :: "u32 \<Rightarrow> u32 \<Rightarrow> u32 list \<Rightarrow> nat \<Rightarrow> hal \<Rightarrow> (bool \<times> nat \<times> hal) option" where
  "map_frames ps kernel_start [] k h = Some (True, k, h)"
| "map_frames ps kernel_start (phys # fs) k h = do {
     (ok, h1) \<leftarrow> HAL_VMM_MapPage (kernel_start + of_nat k * ps) phys (with_flag P_READ P_WRITE) h;
     if ok then map_frames ps kernel_start fs (Suc k) h1 else Some (False, k, h1) }"

definition borrow_overflows :: "u32 \<Rightarrow> u32 \<Rightarrow> u32 \<Rightarrow> bool" where
  "borrow_overflows ps addr sz =
     (sz > 0xFFFFFFFF - addr \<or> addr + sz > 0xFFFFFFFF - (ps - 1) \<or> sz > 0xFFFFFFFF - (ps - 1))"

definition borrow_pages :: "u32 \<Rightarrow> u32 \<Rightarrow> u32 \<Rightarrow> u32" where
  "borrow_pages ps addr sz = (align_size ps (addr + sz) - align_down ps addr) div ps"

definition KE_VMM_MapBorrowed ::
    "bool \<Rightarrow> create \<Rightarrow> u32 \<Rightarrow> u32 \<Rightarrow> AddressSpace \<Rightarrow> kvm \<Rightarrow> (u32 expected \<times> kvm) option" where
  "KE_VMM_MapBorrowed malloc_ok create addr sz as s =
     (let ps = g_page_size s; h = hw s in
      if addr = 0 \<or> sz = 0 then Some (Inl InvalidArgument, s)
      else if ps = 0 then Some (Inl NotInitialized, s)
      else if borrow_overflows ps addr sz then Some (Inl ArithmeticOverflow, s)
      else let page_start = align_down ps addr; page_count = borrow_pages ps addr sz; offset = addr - page_start in
      if page_count > 0xFFFFFFFF div 4 then Some (Inl ArithmeticOverflow, s)
      else if \<not> malloc_ok then Some (Inl OutOfMemory, s)
      else do {
        let caller_root = HAL_VMM_GetCurrentTranslationRoot h;
        let src = (if translation_root as \<noteq> 0 \<and> translation_root as \<noteq> caller_root
                   then HAL_VMM_SwitchAddressSpace (translation_root as) h else h);
        r \<leftarrow> frames_of ps page_start (unat page_count) 0 src;
        (case r of
           None \<Rightarrow> Some (Inl InvalidAddress, s)
         | Some fs \<Rightarrow>
             (case KE_VMM_AllocateRegion ps create (page_count * ps) (with_flag P_READ P_WRITE) (kernel_as s) of
                (Inl e, kas1) \<Rightarrow> Some (Inl e, s\<lparr>kernel_as := kas1\<rparr>)
              | (Inr kernel_start, kas1) \<Rightarrow> do {
                  (ok, k, h1) \<leftarrow> map_frames ps kernel_start fs 0 h;
                  if ok then Some (Inr (kernel_start + offset), s\<lparr>hw := h1, kernel_as := kas1\<rparr>)
                  else do {
                    h2 \<leftarrow> unmap_pages ps kernel_start k h1;
                    Some (Inl DeviceError, s\<lparr>hw := h2, kernel_as := snd (KE_VMM_FreeRegion kernel_start kas1)\<rparr>) } })) })"

definition KE_VMM_UnmapBorrowed :: "u32 \<Rightarrow> u32 \<Rightarrow> kvm \<Rightarrow> (KernelError \<times> kvm) option" where
  "KE_VMM_UnmapBorrowed addr sz s =
     (let ps = g_page_size s in
      if addr = 0 \<or> sz = 0 then Some (InvalidArgument, s)
      else if ps = 0 then Some (NotInitialized, s)
      else if borrow_overflows ps addr sz then Some (ArithmeticOverflow, s)
      else do {
        let page_start = align_down ps addr;
        h1 \<leftarrow> unmap_pages ps page_start (unat (borrow_pages ps addr sz)) (hw s);
        let (e, kas1) = KE_VMM_FreeRegion page_start (kernel_as s);
        Some (e, s\<lparr>hw := h1, kernel_as := kas1\<rparr>) })"

subsection \<open>Page faults\<close>

record PageFaultInfo =
  fault_addr :: u32
  pf_present :: bool
  pf_write :: bool
  pf_user :: bool
  pf_exec :: bool
  pf_ip :: u32

datatype fault_result = Fatal string | Resolved kvm

text \<open>\<open>owner\<close> is the address space of the process that owns the current thread, when there is
  one. \<open>Fatal\<close> is the panic of the handler.\<close>

definition KE_VMM_HandlePagefault :: "AddressSpace option \<Rightarrow> PageFaultInfo \<Rightarrow> kvm \<Rightarrow> fault_result option" where
  "KE_VMM_HandlePagefault owner info s =
     (case (if pf_user info then owner else Some (kernel_as s)) of
        None \<Rightarrow> Some (Fatal ''user-mode fault with no owning process'')
      | Some as \<Rightarrow>
          (case vad_find (fault_addr info) as of
             None \<Rightarrow> Some (Fatal ''access to unmapped/invalid address'')
           | Some (node, _) \<Rightarrow>
               (let vad = item node in
                if pf_write info \<and> \<not> has_flag (vflags vad) P_WRITE then Some (Fatal ''write fault on non-writable region'')
                else if pf_exec info \<and> \<not> has_flag (vflags vad) P_EXEC then Some (Fatal ''exec fault on non-executable region'')
                else if pf_user info \<and> \<not> has_flag (vflags vad) P_USER then Some (Fatal ''user-mode fault on kernel-only region'')
                else (case (case backing vad of None \<Rightarrow> Anonymous | Some b \<Rightarrow> backing_kind b) of
                    Anonymous \<Rightarrow> do {
                      (phys, p) \<leftarrow> HAL_PMM_AllocateFrames 1 (pm (hw s));
                      if phys = 0 then Some (Fatal ''out of physical memory'')
                      else do {
                        (ok, h1) \<leftarrow> HAL_VMM_MapPage (align_down (g_page_size s) (fault_addr info)) phys (vflags vad) ((hw s)\<lparr>pm := p\<rparr>);
                        Some (if ok then Resolved (s\<lparr>hw := h1\<rparr>) else Fatal ''HAL_VMM_MapPage failed'') } }
                  | FileBacked \<Rightarrow> Some (Fatal ''file-backed read not implemented'')
                  | Shared \<Rightarrow> Some (Fatal ''shared-memory fault not implemented'')
                  | KernelModule \<Rightarrow> Some (Fatal ''kernel-module-backed fault not implemented'')))))"

end
