(* ===== verification/Slab_Heap.thy ===== *)
theory Slab_Heap
  imports Vm_Operations
begin

text \<open>
  The kernel heap: the slab layout, slabs, caches and the registry of \<open>Source/src/memory\<close>, and
  \<open>KE_Malloc\<close> and \<open>KE_Free\<close> of \<open>vmm.cpp\<close> on top of them. A slab is named by the address of its
  memory; its control block (the structure \<open>Slab\<close> and its array of \<open>Storage\<close> nodes, kept at the end of
  that memory) is a record of the model's store \<open>slabs\<close>. The free list holds the indices of
  the nodes, the lists of a cache the slabs. The sizes of the two structures are the
  arguments \<open>sS\<close> and \<open>sT\<close>. A value \<open>None\<close> is a fault: an access to memory that is not mapped or
  a node outside the array. The header of a large block lies in the mapped pages.
\<close>

record Layout =
  object_size :: u32
  object_offset :: u32
  objects :: u32
  control_offset :: u32
  slab_size :: u32
  l_page_size :: u32

record Slab =
  freelist :: "nat list"
  s_allocated :: u32
  layout_objects :: u32
  s_cache :: nat
  memory_data :: u32
  memory_size :: u32
  storage :: "u32 list"          \<comment> \<open>the pointers of \<open>storage_base_\<close>\<close>

record Cache =
  layout :: Layout
  free_slabs :: "u32 list"
  partial_slabs :: "u32 list"
  full_slabs :: "u32 list"
  c_allocated :: u32
  total_allocated :: u32

type_synonym slab_range = "u32 \<times> u32"

record heap =
  slabs :: "u32 \<Rightarrow> Slab"
  registry :: "slab_range avl"   \<comment> \<open>\<open>g_global_registry\<close>\<close>
  caches :: "Cache list"         \<comment> \<open>\<open>g_malloc_caches\<close>\<close>
  vm :: kvm

subsection \<open>Layout\<close>

definition control_at :: "u32 \<Rightarrow> u32 \<Rightarrow> u32" where
  "control_at n sz = (n * sz + 7) AND NOT 7"

function shrink_layout :: "u32 \<Rightarrow> u32 \<Rightarrow> Layout \<Rightarrow> Layout" where
  "shrink_layout sS sT l =
     (if objects l > 0 \<and> control_offset l + sS + objects l * sT > slab_size l
      then shrink_layout sS sT (l\<lparr>objects := objects l - 1, control_offset := control_at (objects l - 1) (object_size l)\<rparr>)
      else l)"
  by pat_completeness auto
termination
  by (relation "measure (\<lambda>(sS, sT, l). unat (objects l))") (auto simp: unat_minus_one word_less_nat_alt unat_gt_0)

declare shrink_layout.simps [simp del]

definition calculate_layout :: "u32 \<Rightarrow> u32 \<Rightarrow> u32 \<Rightarrow> u32 \<Rightarrow> u32 \<Rightarrow> Layout" where
  "calculate_layout sS sT osz al ps =
     (let sz = (osz + al - 1) AND NOT (al - 1);
          l0 = \<lparr>object_size = sz, object_offset = 0, objects = 0, control_offset = 0, slab_size = ps, l_page_size = ps\<rparr> in
      if ps \<le> sS then l0
      else let n = (ps - sS) div (sz + sT) in
      shrink_layout sS sT (l0\<lparr>objects := n, control_offset := control_at n sz\<rparr>))"

subsection \<open>Slabs\<close>

definition Slab_new :: "Layout \<Rightarrow> u32 \<Rightarrow> u32 \<Rightarrow> nat \<Rightarrow> Slab" where
  "Slab_new l data sz k =
     \<lparr>freelist = [0..<unat (objects l)], s_allocated = 0, layout_objects = objects l, s_cache = k, memory_data = data, memory_size = sz,
      storage = map (\<lambda>i. data + object_offset l + of_nat i * object_size l) [0..<unat (objects l)]\<rparr>"

definition Slab_allocate :: "Slab \<Rightarrow> u32 \<times> Slab" where
  "Slab_allocate s =
     (case freelist s of
        [] \<Rightarrow> (0, s)
      | i # is \<Rightarrow> (storage s ! i, s\<lparr>freelist := is, s_allocated := s_allocated s + 1\<rparr>))"

definition Slab_free :: "u32 \<Rightarrow> u32 \<Rightarrow> Slab \<Rightarrow> Slab option" where
  "Slab_free ptr osz s =
     (let index = unat ((ptr - memory_data s) div osz) in
      if index < length (storage s)
      then Some (s\<lparr>freelist := freelist s @ [index], s_allocated := s_allocated s - 1\<rparr>)
      else None)"

definition Slab_empty :: "Slab \<Rightarrow> bool" where
  "Slab_empty s \<longleftrightarrow> s_allocated s = 0"

definition Slab_full :: "Slab \<Rightarrow> bool" where
  "Slab_full s \<longleftrightarrow> s_allocated s = layout_objects s"

subsection \<open>The registry\<close>

definition slab_less :: "slab_range \<Rightarrow> slab_range \<Rightarrow> bool" where
  "slab_less a b \<longleftrightarrow> fst a < fst b"

definition slab_key_less :: "u32 \<Rightarrow> slab_range \<Rightarrow> bool" where
  "slab_key_less addr s \<longleftrightarrow> addr < fst s"

definition slab_key_eq :: "u32 \<Rightarrow> slab_range \<Rightarrow> bool" where
  "slab_key_eq addr s \<longleftrightarrow> addr \<ge> fst s \<and> addr < fst s + snd s"

definition registry_find :: "u32 \<Rightarrow> heap \<Rightarrow> slab_range loc option" where
  "registry_find ptr h = AvlTree_find (slab_key_eq ptr) (slab_key_less ptr) (registry h)"

definition find_slab :: "u32 \<Rightarrow> heap \<Rightarrow> u32 option" where
  "find_slab ptr h = map_option (\<lambda>(node, _). fst (item node)) (registry_find ptr h)"

subsection \<open>Backing slabs with pages\<close>

text \<open>The result of \<open>HAL_VMM_MapPage\<close> is ignored.\<close>

fun map_run :: "u32 \<Rightarrow> u32 \<Rightarrow> u32 \<Rightarrow> nat \<Rightarrow> nat \<Rightarrow> hal \<Rightarrow> hal option" where
  "map_run ps virt phys 0 i h = Some h"
| "map_run ps virt phys (Suc n) i h = do {
     (_, h1) \<leftarrow> HAL_VMM_MapPage (virt + of_nat i * ps) (phys + of_nat i * ps) (with_flag P_READ P_WRITE) h;
     map_run ps virt phys n (Suc i) h1 }"

definition allocate_slab :: "nat \<Rightarrow> heap \<Rightarrow> (u32 option \<times> heap) option" where
  "allocate_slab k h =
     (let c = caches h ! k; l = layout c; v = vm h; pages = unat (slab_size l div l_page_size l) in do {
        (phys, p) \<leftarrow> HAL_PMM_AllocateFrames pages (pm (hw v));
        if phys = 0 then Some (None, h\<lparr>vm := v\<lparr>hw := (hw v)\<lparr>pm := p\<rparr>\<rparr>\<rparr>)
        else do {
          let virt = current_base (kernel_as v) + l_page_size l;
          h1 \<leftarrow> map_run (l_page_size l) virt phys pages 0 ((hw v)\<lparr>pm := p\<rparr>);
          _ \<leftarrow> mmu_frame h1 (virt + control_offset l);
          Some (Some virt,
            h\<lparr>slabs := (slabs h)(virt := Slab_new l virt (slab_size l) k),
              registry := AvlTree_insert slab_less (virt, slab_size l) (registry h),
              caches := (caches h)[k := c\<lparr>total_allocated := total_allocated c + slab_size l\<rparr>],
              vm := v\<lparr>hw := h1, kernel_as := (kernel_as v)\<lparr>current_base := virt + slab_size l\<rparr>\<rparr>\<rparr>) } })"

definition free_slab :: "nat \<Rightarrow> u32 \<Rightarrow> heap \<Rightarrow> heap option" where
  "free_slab k s h =
     (let c = caches h ! k; v = vm h; pages = unat (memory_size (slabs h s) div l_page_size (layout c)) in do {
        phys \<leftarrow> HAL_VMM_GetPhysicalAddress (memory_data (slabs h s)) (hw v);
        h1 \<leftarrow> unmap_pages (l_page_size (layout c)) (memory_data (slabs h s)) pages (hw v);
        p \<leftarrow> HAL_PMM_FreeFrames phys pages (pm h1);
        Some (h\<lparr>registry := (case registry_find s h of None \<Rightarrow> registry h | Some loc \<Rightarrow> AvlTree_remove loc),
                caches := (caches h)[k := c\<lparr>total_allocated := total_allocated c - slab_size (layout c)\<rparr>],
                vm := v\<lparr>hw := h1\<lparr>pm := p\<rparr>\<rparr>\<rparr>) })"

subsection \<open>Caches\<close>

definition Cache_new :: "u32 \<Rightarrow> u32 \<Rightarrow> u32 \<Rightarrow> u32 \<Rightarrow> u32 \<Rightarrow> Cache" where
  "Cache_new sS sT osz al ps =
     \<lparr>layout = calculate_layout sS sT osz al ps, free_slabs = [], partial_slabs = [], full_slabs = [], c_allocated = 0, total_allocated = 0\<rparr>"

definition get_available_slab :: "nat \<Rightarrow> heap \<Rightarrow> (u32 option \<times> heap) option" where
  "get_available_slab k h =
     (case partial_slabs (caches h ! k) of
        s # _ \<Rightarrow> Some (Some s, h)
      | [] \<Rightarrow>
          (case free_slabs (caches h ! k) of
             s # _ \<Rightarrow> Some (Some s, h)
           | [] \<Rightarrow> do {
               (r, h1) \<leftarrow> allocate_slab k h;
               case r of
                 None \<Rightarrow> Some (None, h1)
               | Some s \<Rightarrow>
                   (let c = caches h1 ! k in
                    Some (Some s, h1\<lparr>caches := (caches h1)[k := c\<lparr>free_slabs := free_slabs c @ [s]\<rparr>]\<rparr>)) }))"

definition allocate_from :: "nat \<Rightarrow> u32 \<Rightarrow> heap \<Rightarrow> u32 \<times> heap" where
  "allocate_from k s h =
     (let c = caches h ! k;
          was_empty = Slab_empty (slabs h s);
          (ptr, s1) = Slab_allocate (slabs h s);
          c1 = c\<lparr>c_allocated := c_allocated c + object_size (layout c)\<rparr>;
          c2 = (if was_empty then
                  (let c' = c1\<lparr>free_slabs := remove1 s (free_slabs c1)\<rparr> in
                   if Slab_full s1 then c'\<lparr>full_slabs := full_slabs c' @ [s]\<rparr>
                   else c'\<lparr>partial_slabs := partial_slabs c' @ [s]\<rparr>)
                else if Slab_full s1 then
                  c1\<lparr>partial_slabs := remove1 s (partial_slabs c1), full_slabs := full_slabs c1 @ [s]\<rparr>
                else c1)
      in (ptr, h\<lparr>slabs := (slabs h)(s := s1), caches := (caches h)[k := c2]\<rparr>))"

definition Cache_allocate :: "nat \<Rightarrow> heap \<Rightarrow> (u32 \<times> heap) option" where
  "Cache_allocate k h = do {
     (r, h1) \<leftarrow> get_available_slab k h;
     Some (case r of None \<Rightarrow> (0, h1) | Some s \<Rightarrow> allocate_from k s h1) }"

definition Cache_free :: "nat \<Rightarrow> u32 \<Rightarrow> u32 \<Rightarrow> heap \<Rightarrow> heap option" where
  "Cache_free k ptr s h =
     (let c = caches h ! k; was_full = Slab_full (slabs h s) in do {
        s1 \<leftarrow> Slab_free ptr (object_size (layout (caches h ! s_cache (slabs h s)))) (slabs h s);
        let c1 = c\<lparr>c_allocated := c_allocated c - object_size (layout c)\<rparr>;
        let c2 = (if Slab_empty s1 then
                    (let c' = (if \<not> was_full then c1\<lparr>partial_slabs := remove1 s (partial_slabs c1)\<rparr>
                               else c1\<lparr>full_slabs := remove1 s (full_slabs c1)\<rparr>)
                     in c'\<lparr>free_slabs := free_slabs c' @ [s]\<rparr>)
                  else if was_full then
                    c1\<lparr>full_slabs := remove1 s (full_slabs c1), partial_slabs := partial_slabs c1 @ [s]\<rparr>
                  else c1);
        Some (h\<lparr>slabs := (slabs h)(s := s1), caches := (caches h)[k := c2]\<rparr>) })"

definition Cache_free_ptr :: "nat \<Rightarrow> u32 \<Rightarrow> heap \<Rightarrow> heap option" where
  "Cache_free_ptr k ptr h = (case find_slab ptr h of None \<Rightarrow> Some h | Some s \<Rightarrow> Cache_free k ptr s h)"

fun reclaim_slabs :: "nat \<Rightarrow> u32 list \<Rightarrow> nat \<Rightarrow> heap \<Rightarrow> (nat \<times> heap) option" where
  "reclaim_slabs k [] n h = Some (n, h)"
| "reclaim_slabs k (s # ss) n h = do {
     let c = caches h ! k;
     h1 \<leftarrow> free_slab k s (h\<lparr>caches := (caches h)[k := c\<lparr>free_slabs := remove1 s (free_slabs c)\<rparr>]\<rparr>);
     reclaim_slabs k ss (Suc n) h1 }"

definition Cache_reclaim :: "nat \<Rightarrow> heap \<Rightarrow> (nat \<times> heap) option" where
  "Cache_reclaim k h = reclaim_slabs k (free_slabs (caches h ! k)) 0 h"

subsection \<open>Large blocks\<close>

abbreviation kLargeAllocMagic :: u32 where "kLargeAllocMagic \<equiv> 0x4C524745"

definition store_word :: "u32 \<Rightarrow> u32 \<Rightarrow> hal \<Rightarrow> hal option" where
  "store_word va x h = do { f \<leftarrow> mmu_frame h va; Some (put f (unat va mod 4096 div 4) x h) }"

definition load_word :: "u32 \<Rightarrow> hal \<Rightarrow> u32 option" where
  "load_word va h = do { f \<leftarrow> mmu_frame h va; Some (mem h f (unat va mod 4096 div 4)) }"

definition allocate_large :: "create \<Rightarrow> u32 \<Rightarrow> heap \<Rightarrow> (u32 \<times> heap) option" where
  "allocate_large create sz h =
     (if sz > 0xFFFFFFFF - 8 then Some (0, h)
      else let v = vm h; ps = g_page_size v; total = sz + 8;
               page_count = total div ps + (if total mod ps \<noteq> 0 then 1 else 0) in do {
        (r, kas, h1) \<leftarrow> allocate_memory True create ps total (with_flag P_READ P_WRITE) (kernel_as v) (hw v);
        case r of
          Inl _ \<Rightarrow> Some (0, h\<lparr>vm := v\<lparr>hw := h1, kernel_as := kas\<rparr>\<rparr>)
        | Inr virt \<Rightarrow> do {
            h2 \<leftarrow> store_word virt kLargeAllocMagic h1;
            h3 \<leftarrow> store_word (virt + 4) page_count h2;
            Some (virt + 8, h\<lparr>vm := v\<lparr>hw := h3, kernel_as := kas\<rparr>\<rparr>) } })"

definition free_large :: "u32 \<Rightarrow> heap \<Rightarrow> heap option" where
  "free_large ptr h =
     (let v = vm h; virt = ptr - 8 in do {
        magic \<leftarrow> load_word virt (hw v);
        if magic \<noteq> kLargeAllocMagic then Some h
        else do {
          pages \<leftarrow> load_word (virt + 4) (hw v);
          phys \<leftarrow> HAL_VMM_GetPhysicalAddress virt (hw v);
          h1 \<leftarrow> unmap_pages (g_page_size v) virt (unat pages) (hw v);
          p \<leftarrow> HAL_PMM_FreeFrames phys (unat pages) (pm h1);
          let kas = snd (KE_VMM_FreeRegion virt (kernel_as v));
          Some (h\<lparr>vm := v\<lparr>hw := h1\<lparr>pm := p\<rparr>, kernel_as := kas\<rparr>\<rparr>) } })"

subsection \<open>The allocator interface\<close>

definition cache_sizes :: "u32 list" where
  "cache_sizes = [16, 32, 64, 128, 256, 512, 1024, 2048]"

definition vmm_init :: "u32 \<Rightarrow> u32 \<Rightarrow> heap \<Rightarrow> heap" where
  "vmm_init sS sT h = h\<lparr>caches := map (\<lambda>sz. Cache_new sS sT sz sz (g_page_size (vm h))) cache_sizes\<rparr>"

fun pick_cache :: "u32 \<Rightarrow> Cache list \<Rightarrow> nat \<Rightarrow> nat option" where
  "pick_cache sz [] k = None"
| "pick_cache sz (c # cs) k = (if sz \<le> object_size (layout c) then Some k else pick_cache sz cs (Suc k))"

definition KE_Malloc :: "create \<Rightarrow> u32 \<Rightarrow> heap \<Rightarrow> (u32 \<times> heap) option" where
  "KE_Malloc create sz h =
     (if sz = 0 then Some (0, h)
      else case pick_cache sz (caches h) 0 of
        Some k \<Rightarrow> Cache_allocate k h
      | None \<Rightarrow> allocate_large create sz h)"

definition debug_slab_cache_allocated_bytes :: "u32 \<Rightarrow> heap \<Rightarrow> u32" where
  "debug_slab_cache_allocated_bytes sz h =
     (case pick_cache sz (caches h) 0 of Some k \<Rightarrow> c_allocated (caches h ! k) | None \<Rightarrow> 0)"

definition KE_Free :: "u32 \<Rightarrow> heap \<Rightarrow> heap option" where
  "KE_Free ptr h =
     (if ptr = 0 then Some h
      else case find_slab ptr h of
        Some s \<Rightarrow> Cache_free (s_cache (slabs h s)) ptr s h
      | None \<Rightarrow> free_large ptr h)"

end
