(* ===== verification/Slab_Correct.thy ===== *)
theory Slab_Correct
  imports Slab_Heap
begin

text \<open>
  The slab heap hands out every object to one owner at a time. \<open>live\<close> is the set of objects that
  are handed out, a pair of a slab and an index; the invariant \<open>heap_ok\<close> ties the free lists, the
  counters, the three lists of each cache and the registry together.
\<close>

subsection \<open>The invariant\<close>

definition slab_before :: "slab_range \<Rightarrow> slab_range \<Rightarrow> bool" where
  "slab_before a b \<longleftrightarrow> fst a \<le> fst a + snd a \<and> fst a + snd a \<le> fst b"

interpretation slab_order: item_order slab_less
  by unfold_locales (auto simp: slab_less_def)

interpretation slab_lookup: range_lookup slab_key_eq slab_key_less slab_before
  by unfold_locales (auto simp: slab_key_eq_def slab_key_less_def slab_before_def)

definition bases :: "heap \<Rightarrow> u32 set" where
  "bases h = fst ` set (each_order (registry h))"

definition layout_ok :: "Layout \<Rightarrow> bool" where
  "layout_ok l \<longleftrightarrow> object_offset l = 0 \<and> 0 < object_size l \<and> 0 < objects l \<and> l_page_size l = slab_size l \<and> 0 < slab_size l \<and>
     unat (objects l) * unat (object_size l) \<le> unat (slab_size l)"

definition slab_ok :: "Layout \<Rightarrow> u32 \<Rightarrow> Slab \<Rightarrow> bool" where
  "slab_ok l s sl \<longleftrightarrow> memory_data sl = s \<and> memory_size sl = slab_size l \<and> layout_objects sl = objects l \<and>
     storage sl = map (\<lambda>i. s + of_nat i * object_size l) [0..<unat (objects l)] \<and>
     distinct (freelist sl) \<and> set (freelist sl) \<subseteq> {..<unat (objects l)} \<and>
     unat (s_allocated sl) + length (freelist sl) = unat (objects l)"

definition lists_ok :: "heap \<Rightarrow> nat \<Rightarrow> bool" where
  "lists_ok h k \<longleftrightarrow> (let c = caches h ! k in
     distinct (free_slabs c) \<and> distinct (partial_slabs c) \<and> distinct (full_slabs c) \<and>
     (\<forall>s. s \<in> set (free_slabs c) \<longleftrightarrow> s \<in> bases h \<and> s_cache (slabs h s) = k \<and> Slab_empty (slabs h s)) \<and>
     (\<forall>s. s \<in> set (partial_slabs c) \<longleftrightarrow> s \<in> bases h \<and> s_cache (slabs h s) = k \<and> \<not> Slab_empty (slabs h s) \<and> \<not> Slab_full (slabs h s)) \<and>
     (\<forall>s. s \<in> set (full_slabs c) \<longleftrightarrow> s \<in> bases h \<and> s_cache (slabs h s) = k \<and> Slab_full (slabs h s)))"

definition registry_ok :: "heap \<Rightarrow> bool" where
  "registry_ok h \<longleftrightarrow> avl_ok (registry h) \<and> sorted_wrt slab_before (each_order (registry h)) \<and>
     (\<forall>x\<in>set (each_order (registry h)). fst x < fst x + snd x \<and> fst x + snd x \<le> current_base (kernel_as (vm h))) \<and>
     0 \<notin> fst ` set (each_order (registry h))"

definition heap_ok :: "heap \<Rightarrow> bool" where
  "heap_ok h \<longleftrightarrow> registry_ok h \<and>
     (\<forall>k<length (caches h). layout_ok (layout (caches h ! k)) \<and> lists_ok h k) \<and>
     (\<forall>x\<in>set (each_order (registry h)). s_cache (slabs h (fst x)) < length (caches h) \<and>
        snd x = slab_size (layout (caches h ! s_cache (slabs h (fst x)))) \<and>
        slab_ok (layout (caches h ! s_cache (slabs h (fst x)))) (fst x) (slabs h (fst x)))"

definition live :: "heap \<Rightarrow> (u32 \<times> nat) set" where
  "live h = {(s, i). s \<in> bases h \<and> i < unat (layout_objects (slabs h s)) \<and> i \<notin> set (freelist (slabs h s))}"

definition object_at :: "heap \<Rightarrow> u32 \<times> nat \<Rightarrow> u32" where
  "object_at h x = storage (slabs h (fst x)) ! snd x"

definition size_at :: "heap \<Rightarrow> u32 \<Rightarrow> u32" where
  "size_at h s = object_size (layout (caches h ! s_cache (slabs h s)))"

lemma heap_okD:
  assumes "heap_ok h" "s \<in> bases h"
  shows "s_cache (slabs h s) < length (caches h)" "layout_ok (layout (caches h ! s_cache (slabs h s)))"
    "slab_ok (layout (caches h ! s_cache (slabs h s))) s (slabs h s)" "lists_ok h (s_cache (slabs h s))"
  using assms by (auto simp: heap_ok_def bases_def)

subsection \<open>Finding slabs\<close>

lemma slab_sorted_inj:
  "sorted_wrt slab_before xs \<Longrightarrow> \<forall>x\<in>set xs. fst x < fst x + snd x \<Longrightarrow> x \<in> set xs \<Longrightarrow> y \<in> set xs \<Longrightarrow> fst x = fst y \<Longrightarrow> x = y"
  by (induction xs) (auto simp: slab_before_def)

lemma find_slab_object:
  assumes "registry_ok h" "(s, sz) \<in> set (each_order (registry h))" "s \<le> p" "p < s + sz"
  shows "find_slab p h = Some s"
proof -
  have "slab_key_eq p (s, sz)" using assms(3,4) by (simp add: slab_key_eq_def)
  then obtain f ds where "AvlTree_find (slab_key_eq p) (slab_key_less p) (registry h) = Some (f, ds)" "item f = (s, sz)"
    using slab_lookup.find_loc_complete [of "registry h" "(s, sz)" p "[]"] assms(1,2) by (auto simp: registry_ok_def AvlTree_find_def)
  then show ?thesis by (simp add: find_slab_def registry_find_def)
qed

lemma slab_in_range:
  assumes ok: "heap_ok h" and s: "s \<in> bases h"
  shows "unat s + unat (slab_size (layout (caches h ! s_cache (slabs h s)))) \<le> unat (current_base (kernel_as (vm h)))"
    "(s, slab_size (layout (caches h ! s_cache (slabs h s)))) \<in> set (each_order (registry h))"
proof -
  obtain x where x: "x \<in> set (each_order (registry h))" "s = fst x" using s by (auto simp: bases_def)
  then have sz: "snd x = slab_size (layout (caches h ! s_cache (slabs h s)))" using ok by (simp add: heap_ok_def)
  then show "(s, slab_size (layout (caches h ! s_cache (slabs h s)))) \<in> set (each_order (registry h))" using x by (metis prod.collapse)
  have "\<forall>x\<in>set (each_order (registry h)). fst x < fst x + snd x \<and> fst x + snd x \<le> current_base (kernel_as (vm h))"
    using ok unfolding heap_ok_def registry_ok_def by blast
  from bspec [OF this x(1)] have "unat (fst x + snd x) = unat (fst x) + unat (snd x)" "unat (fst x + snd x) \<le> unat (current_base (kernel_as (vm h)))"
    using unat_less_2p32 [of "snd x"] by (auto simp: word_less_nat_alt word_le_nat_alt unat_plus_if' split: if_splits)
  then show "unat s + unat (slab_size (layout (caches h ! s_cache (slabs h s)))) \<le> unat (current_base (kernel_as (vm h)))"
    using sz x(2) by simp
qed

text \<open>The address of an object, with the index recovered from it as \<open>Slab::free\<close> does.\<close>

lemma object_address:
  assumes ok: "heap_ok h" and s: "s \<in> bases h" and i: "i < unat (layout_objects (slabs h s))"
  shows "unat (object_at h (s, i)) = unat s + i * unat (size_at h s)"
    "i * unat (size_at h s) + unat (size_at h s) \<le> unat (slab_size (layout (caches h ! s_cache (slabs h s))))"
    "unat ((object_at h (s, i) - s) div size_at h s) = i"
    "find_slab (object_at h (s, i)) h = Some s"
proof -
  note k = heap_okD [OF ok s]
  let ?l = "layout (caches h ! s_cache (slabs h s))"
  let ?z = "unat (size_at h s)"
  note r = slab_in_range [OF ok s]
  have lo: "layout_objects (slabs h s) = objects ?l" using k(3) by (simp add: slab_ok_def)
  have z: "0 < ?z" using k(2) by (simp add: layout_ok_def size_at_def word_less_nat_alt)
  have "i + 1 \<le> unat (objects ?l)" using i lo by simp
  then have "(i + 1) * ?z \<le> unat (objects ?l) * ?z" by (rule mult_le_mono1)
  then show b: "i * ?z + ?z \<le> unat (slab_size ?l)" using k(2) unfolding size_at_def layout_ok_def by simp
  have cb: "unat (current_base (kernel_as (vm h))) < 2 ^ 32" using unsigned_less [of "current_base (kernel_as (vm h))"] by simp
  have iz: "unat (of_nat i * size_at h s) = i * ?z"
  proof -
    have "i * ?z < 2 ^ 32" using b r(1) cb z by simp
    moreover have "i * 1 \<le> i * ?z" using z by (intro mult_le_mono2) simp
    ultimately have "i < 2 ^ 32" "i * ?z < 2 ^ 32" by linarith+
    then show ?thesis by (simp add: unat_word_ariths unat_of_nat)
  qed
  have o: "object_at h (s, i) = s + of_nat i * size_at h s"
    using k(3) i lo unfolding object_at_def slab_ok_def size_at_def by simp
  then show u: "unat (object_at h (s, i)) = unat s + i * ?z" using iz b r(1) cb z by (simp add: unat_word_ariths)
  have "object_at h (s, i) - s = of_nat i * size_at h s" unfolding o by simp
  then show "unat ((object_at h (s, i) - s) div size_at h s) = i" using iz z by (simp add: unat_div)
  have le: "s \<le> object_at h (s, i)" using u by (simp add: word_le_nat_alt)
  have "unat (s + slab_size ?l) = unat s + unat (slab_size ?l)" using r(1) cb by (simp add: unat_word_ariths)
  then have "object_at h (s, i) < s + slab_size ?l" using u b z by (simp add: word_less_nat_alt)
  with le show "find_slab (object_at h (s, i)) h = Some s" using find_slab_object [OF _ r(2)] ok by (simp add: heap_ok_def)
qed

subsection \<open>Allocating from a slab and giving back to it\<close>

lemma Slab_allocate_ok:
  assumes "slab_ok l s sl" "\<not> Slab_full sl"
  obtains i "is" where "freelist sl = i # is" "i < unat (objects l)" "i \<notin> set is"
    "Slab_allocate sl = (storage sl ! i, sl\<lparr>freelist := is, s_allocated := s_allocated sl + 1\<rparr>)"
    "slab_ok l s (sl\<lparr>freelist := is, s_allocated := s_allocated sl + 1\<rparr>)" "s_allocated sl + 1 \<noteq> 0"
proof -
  have "freelist sl \<noteq> []"
  proof
    assume "freelist sl = []"
    then have "unat (s_allocated sl) = unat (layout_objects sl)" using assms(1) by (simp add: slab_ok_def)
    then show False using assms(2) by (simp add: Slab_full_def word_unat_eq_iff)
  qed
  then obtain i "is" where f: "freelist sl = i # is" by (cases "freelist sl") auto
  have u: "unat (s_allocated sl + 1) = unat (s_allocated sl) + 1"
    using assms(1) f unat_less_2p32 [of "objects l"] by (simp add: slab_ok_def unat_word_ariths)
  then have "s_allocated sl + 1 \<noteq> 0" by auto
  moreover have "slab_ok l s (sl\<lparr>freelist := is, s_allocated := s_allocated sl + 1\<rparr>)"
    using assms(1) f u by (auto simp: slab_ok_def)
  moreover have "i < unat (objects l)" "i \<notin> set is" using assms(1) f by (auto simp: slab_ok_def)
  ultimately show ?thesis using that f by (simp add: Slab_allocate_def)
qed

lemma Slab_free_ok:
  assumes ok: "slab_ok l s sl" and i: "i < unat (objects l)" "i \<notin> set (freelist sl)" and d: "unat ((ptr - s) div osz) = i"
  shows "Slab_free ptr osz sl = Some (sl\<lparr>freelist := freelist sl @ [i], s_allocated := s_allocated sl - 1\<rparr>)"
    "slab_ok l s (sl\<lparr>freelist := freelist sl @ [i], s_allocated := s_allocated sl - 1\<rparr>)" "s_allocated sl \<noteq> 0" "s_allocated sl - 1 \<noteq> layout_objects sl"
proof -
  have md: "memory_data sl = s" "length (storage sl) = unat (objects l)" using ok by (simp_all add: slab_ok_def)
  then show "Slab_free ptr osz sl = Some (sl\<lparr>freelist := freelist sl @ [i], s_allocated := s_allocated sl - 1\<rparr>)"
    using i(1) d by (simp add: Slab_free_def Let_def)
  have "insert i (set (freelist sl)) \<subseteq> {..<unat (objects l)}" using ok i(1) by (auto simp: slab_ok_def)
  then have "card (insert i (set (freelist sl))) \<le> unat (objects l)" by (metis card_lessThan card_mono finite_lessThan)
  moreover have "card (set (freelist sl)) = length (freelist sl)" using ok by (simp add: slab_ok_def distinct_card)
  ultimately have lt: "length (freelist sl) < unat (objects l)" using i(2) by simp
  then show ne: "s_allocated sl \<noteq> 0" using ok by (auto simp: slab_ok_def)
  then have u: "unat (s_allocated sl - 1) = unat (s_allocated sl) - 1" "0 < unat (s_allocated sl)" by (simp_all add: unat_minus_one unat_gt_0)
  show "slab_ok l s (sl\<lparr>freelist := freelist sl @ [i], s_allocated := s_allocated sl - 1\<rparr>)"
    using ok i u by (auto simp: slab_ok_def)
  show "s_allocated sl - 1 \<noteq> layout_objects sl"
  proof
    assume "s_allocated sl - 1 = layout_objects sl"
    then have "unat (s_allocated sl) - 1 = unat (objects l)" using u ok by (metis slab_ok_def)
    moreover have "unat (s_allocated sl) + length (freelist sl) = unat (objects l)" using ok by (simp add: slab_ok_def)
    ultimately show False using u(2) by linarith
  qed
qed

text \<open>Changing one slab and the lists of its cache.\<close>

lemma heap_ok_update:
  assumes ok: "heap_ok h" and s: "s \<in> bases h" and k: "s_cache (slabs h s) = k" "s_cache sl = k" and l: "layout c = layout (caches h ! k)"
    and sl: "slab_ok (layout c) s sl"
    and h': "h' = h\<lparr>slabs := (slabs h)(s := sl), caches := (caches h)[k := c]\<rparr>" and ls: "lists_ok h' k"
  shows "heap_ok h'" "bases h' = bases h"
proof -
  have kl: "k < length (caches h)" using heap_okD(1) [OF ok s] k by simp
  have reg: "registry h' = registry h" "vm h' = vm h" using h' by simp_all
  then show b: "bases h' = bases h" by (simp add: bases_def)
  have lay: "layout (caches h' ! j) = layout (caches h ! j)" if "j < length (caches h)" for j
    using that l kl h' by (cases "j = k") simp_all
  have len: "length (caches h') = length (caches h)" using h' by simp
  have sc: "s_cache (slabs h' t) = s_cache (slabs h t)" for t using h' k by simp
  have other: "slabs h' t = slabs h t" if "t \<noteq> s" for t using that h' by simp
  have "lists_ok h' j" if j: "j < length (caches h)" for j
  proof (cases "j = k")
    case True
    then show ?thesis using ls by simp
  next
    case False
    then have c: "caches h' ! j = caches h ! j" using h' by simp
    have e: "(t \<in> bases h \<and> s_cache (slabs h' t) = j \<and> P (slabs h' t)) = (t \<in> bases h \<and> s_cache (slabs h t) = j \<and> P (slabs h t))" for t P
      using sc other k False by (cases "t = s") auto
    have "lists_ok h j" using ok j by (simp add: heap_ok_def)
    then show ?thesis unfolding lists_ok_def c b e [of _ Slab_empty] e [of _ Slab_full] e [of _ "\<lambda>x. \<not> Slab_empty x \<and> \<not> Slab_full x"] .
  qed
  moreover have "s_cache (slabs h' (fst x)) < length (caches h') \<and>
        snd x = slab_size (layout (caches h' ! s_cache (slabs h' (fst x)))) \<and>
        slab_ok (layout (caches h' ! s_cache (slabs h' (fst x)))) (fst x) (slabs h' (fst x))"
    if x: "x \<in> set (each_order (registry h))" for x
  proof -
    have o: "s_cache (slabs h (fst x)) < length (caches h)" "snd x = slab_size (layout (caches h ! s_cache (slabs h (fst x))))"
      "slab_ok (layout (caches h ! s_cache (slabs h (fst x)))) (fst x) (slabs h (fst x))" using ok x by (auto simp: heap_ok_def)
    have "slab_ok (layout (caches h ! s_cache (slabs h (fst x)))) (fst x) (slabs h' (fst x))"
      using o(3) sl k l h' by (cases "fst x = s") auto
    then show ?thesis using o sc lay len by simp
  qed
  moreover have "layout_ok (layout (caches h' ! j))" if "j < length (caches h)" for j using ok that lay by (simp add: heap_ok_def)
  moreover have "registry_ok h" using ok unfolding heap_ok_def by blast
  then have "registry_ok h'" unfolding registry_ok_def reg .
  ultimately show "heap_ok h'" using len reg by (simp add: heap_ok_def)
qed

lemma lists_okD:
  assumes "lists_ok h k"
  shows "distinct (free_slabs (caches h ! k))" "distinct (partial_slabs (caches h ! k))" "distinct (full_slabs (caches h ! k))"
    "s \<in> set (free_slabs (caches h ! k)) \<longleftrightarrow> s \<in> bases h \<and> s_cache (slabs h s) = k \<and> Slab_empty (slabs h s)"
    "s \<in> set (partial_slabs (caches h ! k)) \<longleftrightarrow> s \<in> bases h \<and> s_cache (slabs h s) = k \<and> \<not> Slab_empty (slabs h s) \<and> \<not> Slab_full (slabs h s)"
    "s \<in> set (full_slabs (caches h ! k)) \<longleftrightarrow> s \<in> bases h \<and> s_cache (slabs h s) = k \<and> Slab_full (slabs h s)"
  using assms unfolding lists_ok_def Let_def by blast+

text \<open>Moving a slab between the lists of its cache.\<close>

lemma lists_move:
  assumes ls: "lists_ok h k" and s: "s \<in> bases h" "s_cache (slabs h s) = k" and k: "k < length (caches h)" "s_cache sl = k"
    and h': "h' = h\<lparr>slabs := (slabs h)(s := sl), caches := (caches h)[k := c']\<rparr>"
    and d: "distinct (free_slabs c')" "distinct (partial_slabs c')" "distinct (full_slabs c')"
    and m: "set (free_slabs c') = set (free_slabs (caches h ! k)) - {s} \<union> (if Slab_empty sl then {s} else {})"
      "set (partial_slabs c') = set (partial_slabs (caches h ! k)) - {s} \<union> (if \<not> Slab_empty sl \<and> \<not> Slab_full sl then {s} else {})"
      "set (full_slabs c') = set (full_slabs (caches h ! k)) - {s} \<union> (if Slab_full sl then {s} else {})"
  shows "lists_ok h' k"
proof -
  have c: "caches h' ! k = c'" using h' k by simp
  have b: "bases h' = bases h" using h' by (simp add: bases_def)
  have sl': "slabs h' t = (if t = s then sl else slabs h t)" for t using h' by simp
  note D = lists_okD [OF ls]
  show ?thesis unfolding lists_ok_def c b Let_def
  proof (intro conjI allI)
    fix t
    show "t \<in> set (free_slabs c') \<longleftrightarrow> t \<in> bases h \<and> s_cache (slabs h' t) = k \<and> Slab_empty (slabs h' t)"
      using D(4) [of t] s k(2) unfolding m(1) sl' by (cases "t = s") auto
    show "t \<in> set (partial_slabs c') \<longleftrightarrow> t \<in> bases h \<and> s_cache (slabs h' t) = k \<and> \<not> Slab_empty (slabs h' t) \<and> \<not> Slab_full (slabs h' t)"
      using D(5) [of t] s k(2) unfolding m(2) sl' by (cases "t = s") auto
    show "t \<in> set (full_slabs c') \<longleftrightarrow> t \<in> bases h \<and> s_cache (slabs h' t) = k \<and> Slab_full (slabs h' t)"
      using D(6) [of t] s k(2) unfolding m(3) sl' by (cases "t = s") auto
  qed (use d in simp_all)
qed

definition same_objects :: "heap \<Rightarrow> heap \<Rightarrow> bool" where
  "same_objects h h' \<longleftrightarrow> bases h \<subseteq> bases h' \<and> (\<forall>s\<in>bases h. size_at h' s = size_at h s \<and> (\<forall>i. object_at h' (s, i) = object_at h (s, i)))"

lemma empty_not_full: "layout_ok l \<Longrightarrow> slab_ok l s sl \<Longrightarrow> Slab_empty sl \<Longrightarrow> \<not> Slab_full sl"
  by (auto simp: layout_ok_def slab_ok_def Slab_empty_def Slab_full_def)

lemma allocate_from_ok:
  assumes ok: "heap_ok h" and s: "s \<in> bases h" "s_cache (slabs h s) = k" and nf: "\<not> Slab_full (slabs h s)"
  obtains p h' i where "allocate_from k s h = (p, h')" "heap_ok h'" "(s, i) \<notin> live h" "live h' = insert (s, i) (live h)" "p = object_at h' (s, i)"
    "same_objects h h'" "vm h' = vm h" "s \<in> bases h'" "size_at h' s = object_size (layout (caches h ! k))"
proof -
  let ?c = "caches h ! k" and ?sl = "slabs h s"
  note k = heap_okD [OF ok s(1), unfolded s(2)]
  from Slab_allocate_ok [OF k(3) nf] obtain i "is" where a: "freelist ?sl = i # is" "i < unat (objects (layout ?c))" "i \<notin> set is"
    "Slab_allocate ?sl = (storage ?sl ! i, ?sl\<lparr>freelist := is, s_allocated := s_allocated ?sl + 1\<rparr>)"
    "slab_ok (layout ?c) s (?sl\<lparr>freelist := is, s_allocated := s_allocated ?sl + 1\<rparr>)" "s_allocated ?sl + 1 \<noteq> 0" .
  define sl where "sl = ?sl\<lparr>freelist := is, s_allocated := s_allocated ?sl + 1\<rparr>"
  have sl: "slab_ok (layout ?c) s sl" "s_cache sl = k" "\<not> Slab_empty sl" "storage sl = storage ?sl" "layout_objects sl = layout_objects ?sl" "freelist sl = is"
    using a(5,6) s(2) by (simp_all add: sl_def Slab_empty_def)
  define c1 where "c1 = ?c\<lparr>c_allocated := c_allocated ?c + object_size (layout ?c)\<rparr>"
  define c2 where "c2 = (if Slab_empty ?sl then
                  (let c' = c1\<lparr>free_slabs := remove1 s (free_slabs c1)\<rparr> in
                   if Slab_full sl then c'\<lparr>full_slabs := full_slabs c' @ [s]\<rparr>
                   else c'\<lparr>partial_slabs := partial_slabs c' @ [s]\<rparr>)
                else if Slab_full sl then
                  c1\<lparr>partial_slabs := remove1 s (partial_slabs c1), full_slabs := full_slabs c1 @ [s]\<rparr>
                else c1)"
  define h' where "h' = h\<lparr>slabs := (slabs h)(s := sl), caches := (caches h)[k := c2]\<rparr>"
  have run: "allocate_from k s h = (storage ?sl ! i, h')"
    unfolding allocate_from_def Let_def a(4) h'_def c2_def c1_def sl_def by simp
  note D = lists_okD [OF k(4)]
  have mem: "s \<in> set (free_slabs ?c) \<longleftrightarrow> Slab_empty ?sl" "s \<in> set (partial_slabs ?c) \<longleftrightarrow> \<not> Slab_empty ?sl" "s \<notin> set (full_slabs ?c)"
    using D(4-6) [of s] s nf by auto
  have c1: "free_slabs c1 = free_slabs ?c" "partial_slabs c1 = partial_slabs ?c" "full_slabs c1 = full_slabs ?c" "layout c1 = layout ?c"
    by (simp_all add: c1_def)
  have lay: "layout c2 = layout ?c" by (simp add: c2_def Let_def c1)
  have "lists_ok h' k"
  proof (rule lists_move [OF k(4) s k(1) sl(2) h'_def])
    show "distinct (free_slabs c2)" "distinct (partial_slabs c2)" "distinct (full_slabs c2)"
      using D(1-3) mem by (auto simp: c2_def Let_def c1)
    show "set (free_slabs c2) = set (free_slabs ?c) - {s} \<union> (if Slab_empty sl then {s} else {})"
      using D(1) mem sl(3) by (auto simp: c2_def Let_def c1)
    show "set (partial_slabs c2) = set (partial_slabs ?c) - {s} \<union> (if \<not> Slab_empty sl \<and> \<not> Slab_full sl then {s} else {})"
      using D(2) mem sl(3) by (auto simp: c2_def Let_def c1)
    show "set (full_slabs c2) = set (full_slabs ?c) - {s} \<union> (if Slab_full sl then {s} else {})"
      using D(3) mem sl(3) by (auto simp: c2_def Let_def c1)
  qed
  from heap_ok_update [OF ok s(1,2) sl(2) lay _ h'_def this] sl(1) lay have ok': "heap_ok h'" "bases h' = bases h" by simp_all
  have ut: "slabs h' t = (if t = s then sl else slabs h t)" for t by (simp add: h'_def)
  have lo: "unat (layout_objects ?sl) = unat (objects (layout ?c))" using k(3) by (simp add: slab_ok_def)
  have "(s, i) \<notin> live h" using a(1) by (simp add: live_def)
  moreover have "live h' = insert (s, i) (live h)"
    unfolding live_def ok'(2) ut using sl(5,6) a(1-3) s(1) lo by (auto split: if_splits)
  moreover have "storage ?sl ! i = object_at h' (s, i)" by (simp add: object_at_def ut sl)
  moreover have "same_objects h h'"
  proof -
    have "layout (caches h' ! j) = layout (caches h ! j)" for j using lay k(1) by (cases "j = k") (simp_all add: h'_def)
    then show ?thesis unfolding same_objects_def using ok'(2) sl s by (auto simp: size_at_def object_at_def ut)
  qed
  moreover have "size_at h' s = object_size (layout ?c)" using lay k(1) sl(2) by (simp add: size_at_def ut h'_def)
  ultimately show ?thesis using that [OF run ok'(1)] ok'(2) s(1) by (simp add: h'_def)
qed

lemma Cache_free_ok:
  assumes ok: "heap_ok h" and x: "(s, i) \<in> live h" and k: "s_cache (slabs h s) = k"
  obtains h' where "Cache_free k (object_at h (s, i)) s h = Some h'" "heap_ok h'" "live h' = live h - {(s, i)}" "same_objects h h'" "vm h' = vm h"
proof -
  let ?c = "caches h ! k" and ?sl = "slabs h s"
  have s: "s \<in> bases h" "i < unat (layout_objects ?sl)" "i \<notin> set (freelist ?sl)" using x by (simp_all add: live_def)
  note K = heap_okD [OF ok s(1), unfolded k]
  have lo: "layout_objects ?sl = objects (layout ?c)" using K(3) by (simp add: slab_ok_def)
  have d: "unat ((object_at h (s, i) - s) div object_size (layout ?c)) = i" using object_address(3) [OF ok s(1,2)] k by (simp add: size_at_def)
  have iz: "i < unat (objects (layout ?c))" using s(2) lo by simp
  note F = Slab_free_ok [OF K(3) iz s(3) d]
  define sl where "sl = ?sl\<lparr>freelist := freelist ?sl @ [i], s_allocated := s_allocated ?sl - 1\<rparr>"
  have sl: "slab_ok (layout ?c) s sl" "s_cache sl = k" "\<not> Slab_full sl" "storage sl = storage ?sl" "layout_objects sl = layout_objects ?sl" "freelist sl = freelist ?sl @ [i]"
    using F(2,4) k by (simp_all add: sl_def Slab_full_def)
  have ne: "\<not> Slab_empty ?sl" using F(3) by (simp add: Slab_empty_def)
  define c1 where "c1 = ?c\<lparr>c_allocated := c_allocated ?c - object_size (layout ?c)\<rparr>"
  define c2 where "c2 = (if Slab_empty sl then
                    (let c' = (if \<not> Slab_full ?sl then c1\<lparr>partial_slabs := remove1 s (partial_slabs c1)\<rparr>
                               else c1\<lparr>full_slabs := remove1 s (full_slabs c1)\<rparr>)
                     in c'\<lparr>free_slabs := free_slabs c' @ [s]\<rparr>)
                  else if Slab_full ?sl then
                    c1\<lparr>full_slabs := remove1 s (full_slabs c1), partial_slabs := partial_slabs c1 @ [s]\<rparr>
                  else c1)"
  define h' where "h' = h\<lparr>slabs := (slabs h)(s := sl), caches := (caches h)[k := c2]\<rparr>"
  have run: "Cache_free k (object_at h (s, i)) s h = Some h'"
    unfolding Cache_free_def Let_def k F(1) h'_def c2_def c1_def sl_def by simp
  note D = lists_okD [OF K(4)]
  have mem: "s \<notin> set (free_slabs ?c)" "s \<in> set (partial_slabs ?c) \<longleftrightarrow> \<not> Slab_full ?sl" "s \<in> set (full_slabs ?c) \<longleftrightarrow> Slab_full ?sl"
    using D(4-6) [of s] s(1) k ne by auto
  have c1: "free_slabs c1 = free_slabs ?c" "partial_slabs c1 = partial_slabs ?c" "full_slabs c1 = full_slabs ?c" "layout c1 = layout ?c"
    by (simp_all add: c1_def)
  have lay: "layout c2 = layout ?c" by (simp add: c2_def Let_def c1)
  have "lists_ok h' k"
  proof (rule lists_move [OF K(4) s(1) k K(1) sl(2) h'_def])
    show "distinct (free_slabs c2)" "distinct (partial_slabs c2)" "distinct (full_slabs c2)"
      using D(1-3) mem by (auto simp: c2_def Let_def c1)
    show "set (free_slabs c2) = set (free_slabs ?c) - {s} \<union> (if Slab_empty sl then {s} else {})"
      using D(1) mem by (auto simp: c2_def Let_def c1)
    show "set (partial_slabs c2) = set (partial_slabs ?c) - {s} \<union> (if \<not> Slab_empty sl \<and> \<not> Slab_full sl then {s} else {})"
      using D(2) mem sl(3) by (auto simp: c2_def Let_def c1)
    show "set (full_slabs c2) = set (full_slabs ?c) - {s} \<union> (if Slab_full sl then {s} else {})"
      using D(3) mem sl(3) by (auto simp: c2_def Let_def c1)
  qed
  from heap_ok_update [OF ok s(1) k sl(2) lay _ h'_def this] sl(1) lay have ok': "heap_ok h'" "bases h' = bases h" by simp_all
  have ut: "slabs h' t = (if t = s then sl else slabs h t)" for t by (simp add: h'_def)
  have "live h' = live h - {(s, i)}" unfolding live_def ok'(2) ut using sl(5,6) by (auto split: if_splits)
  moreover have "same_objects h h'"
  proof -
    have "layout (caches h' ! j) = layout (caches h ! j)" for j using lay K(1) by (cases "j = k") (simp_all add: h'_def)
    then show ?thesis unfolding same_objects_def using ok'(2) sl k by (auto simp: size_at_def object_at_def ut)
  qed
  ultimately show ?thesis using that [OF run ok'(1)] by (simp add: h'_def)
qed

subsection \<open>A new slab\<close>

lemma registry_ordered: "registry_ok h \<Longrightarrow> ordered slab_less (registry h)"
proof -
  have "sorted_wrt slab_before xs \<Longrightarrow> sorted_wrt (\<lambda>a b. \<not> slab_less b a) xs" for xs
    by (induction xs) (auto simp: slab_before_def slab_less_def)
  then show "registry_ok h \<Longrightarrow> ordered slab_less (registry h)" by (simp add: registry_ok_def ordered_def)
qed

lemma grow_ok:
  assumes ok: "heap_ok h" and k: "k < length (caches h)" and l: "l = layout (caches h ! k)"
    and space: "unat (current_base (kernel_as (vm h))) + unat (slab_size l) + unat (slab_size l) < 2 ^ 32"
    and virt: "virt = current_base (kernel_as (vm h)) + slab_size l"
    and c': "layout c' = l" "free_slabs c' = free_slabs (caches h ! k) @ [virt]" "partial_slabs c' = partial_slabs (caches h ! k)"
      "full_slabs c' = full_slabs (caches h ! k)"
    and h': "slabs h' = (slabs h)(virt := Slab_new l virt (slab_size l) k)"
      "registry h' = AvlTree_insert slab_less (virt, slab_size l) (registry h)" "caches h' = (caches h)[k := c']"
      "current_base (kernel_as (vm h')) = virt + slab_size l"
  shows "heap_ok h'" "live h' = live h" "same_objects h h'" "virt \<in> bases h'" "s_cache (slabs h' virt) = k" "\<not> Slab_full (slabs h' virt)"
proof -
  let ?sl = "Slab_new l virt (slab_size l) k"
  have lok: "layout_ok l" using ok k l by (simp add: heap_ok_def)
  have rok: "registry_ok h" using ok unfolding heap_ok_def by blast
  note R = rok [unfolded registry_ok_def]
  have ss: "0 < unat (slab_size l)" using lok by (simp add: layout_ok_def word_less_nat_alt)
  have uv: "unat virt = unat (current_base (kernel_as (vm h))) + unat (slab_size l)" using space virt by (simp add: unat_word_ariths)
  have ue: "unat (virt + slab_size l) = unat virt + unat (slab_size l)" using space uv by (simp add: unat_word_ariths)
  have below: "fst x < virt \<and> fst x + snd x \<le> virt" if "x \<in> set (each_order (registry h))" for x
  proof -
    have "fst x < fst x + snd x" "fst x + snd x \<le> current_base (kernel_as (vm h))" using R that by blast+
    moreover have "current_base (kernel_as (vm h)) \<le> virt" using uv by (simp add: word_le_nat_alt)
    ultimately show ?thesis by auto
  qed
  have eo: "each_order (registry h') = each_order (registry h) @ [(virt, slab_size l)]"
  proof -
    have "\<not> slab_less (virt, slab_size l) x" if "x \<in> set (each_order (registry h))" for x using below [OF that] by (auto simp: slab_less_def)
    then have "filter (\<lambda>y. \<not> slab_less (virt, slab_size l) y) (each_order (registry h)) = each_order (registry h)"
      "filter (slab_less (virt, slab_size l)) (each_order (registry h)) = []" by (simp_all add: filter_empty_conv)
    then show ?thesis unfolding h'(2) slab_order.each_order_insert [OF registry_ordered [OF rok]] by simp
  qed
  have bs: "bases h' = insert virt (bases h)" by (simp add: bases_def eo)
  then show "virt \<in> bases h'" by simp
  have nb: "virt \<notin> bases h" using below by (auto simp: bases_def)
  have n0: "0 < unat (objects l)" using lok by (simp add: layout_ok_def word_less_nat_alt)
  have sl: "slab_ok l virt ?sl" "Slab_empty ?sl" "\<not> Slab_full ?sl" "s_cache ?sl = k"
    using lok by (auto simp: slab_ok_def Slab_new_def Slab_empty_def Slab_full_def layout_ok_def)
  show "s_cache (slabs h' virt) = k" "\<not> Slab_full (slabs h' virt)" using h'(1) sl by simp_all
  have old: "slabs h' s = slabs h s" if "s \<in> bases h" for s using that nb h'(1) by auto
  have lay: "layout (caches h' ! j) = layout (caches h ! j)" for j using c'(1) l k h'(3) by (cases "j = k") simp_all
  show "live h' = live h"
  proof -
    have "{i. i < unat (layout_objects ?sl) \<and> i \<notin> set (freelist ?sl)} = {}" by (auto simp: Slab_new_def)
    then show ?thesis unfolding live_def bs using old h'(1) nb by auto
  qed
  show "same_objects h h'" unfolding same_objects_def bs using old lay by (auto simp: size_at_def object_at_def)
  have "registry_ok h'"
  proof -
    have "avl_ok (registry h')" unfolding h'(2) using R by (simp add: avl_insert_ok)
    moreover have "sorted_wrt slab_before (each_order (registry h'))" unfolding eo sorted_wrt_append
      using R below by (auto simp: slab_before_def)
    moreover have "fst x < fst x + snd x \<and> fst x + snd x \<le> current_base (kernel_as (vm h'))" if "x \<in> set (each_order (registry h'))" for x
    proof (cases "x = (virt, slab_size l)")
      case True
      then show ?thesis unfolding h'(4) using ue ss by (simp add: word_less_nat_alt)
    next
      case False
      then have x: "x \<in> set (each_order (registry h))" using that eo by simp
      then have "fst x < fst x + snd x" using R by blast
      moreover have "fst x + snd x \<le> virt + slab_size l" using below [OF x] ue by (auto simp: word_le_nat_alt)
      ultimately show ?thesis unfolding h'(4) by simp
    qed
    moreover have "0 \<notin> fst ` set (each_order (registry h'))" using R uv ss by (auto simp: eo)
    ultimately show ?thesis by (simp add: registry_ok_def)
  qed
  moreover have "lists_ok h' j" if j: "j < length (caches h)" for j
  proof -
    have lj: "lists_ok h j" using ok j by (simp add: heap_ok_def)
    note D = lists_okD [OF lj]
    show ?thesis
    proof (cases "j = k")
      case True
      then have c: "caches h' ! j = c'" using h'(3) k by simp
      show ?thesis unfolding lists_ok_def c Let_def bs c'(2-4)
        using D(1-3) D(4) [of virt] nb sl h'(1) D(4-6) True by (auto split: if_splits)
    next
      case False
      then have c: "caches h' ! j = caches h ! j" using h'(3) by simp
      show ?thesis unfolding lists_ok_def c Let_def bs using D(1-3) nb sl h'(1) D(4-6) False by (auto split: if_splits)
    qed
  qed
  moreover have "s_cache (slabs h' (fst x)) < length (caches h') \<and>
        snd x = slab_size (layout (caches h' ! s_cache (slabs h' (fst x)))) \<and>
        slab_ok (layout (caches h' ! s_cache (slabs h' (fst x)))) (fst x) (slabs h' (fst x))"
    if x: "x \<in> set (each_order (registry h'))" for x
  proof (cases "x = (virt, slab_size l)")
    case True
    then show ?thesis using k sl h'(1,3) c'(1) by simp
  next
    case False
    then have x': "x \<in> set (each_order (registry h))" using x eo by simp
    then have "fst x \<in> bases h" by (simp add: bases_def)
    moreover have "s_cache (slabs h (fst x)) < length (caches h) \<and> snd x = slab_size (layout (caches h ! s_cache (slabs h (fst x)))) \<and>
        slab_ok (layout (caches h ! s_cache (slabs h (fst x)))) (fst x) (slabs h (fst x))" using ok x' unfolding heap_ok_def by blast
    ultimately show ?thesis using old lay h'(3) by simp
  qed
  moreover have "layout_ok (layout (caches h' ! j))" if "j < length (caches h)" for j using ok that lay by (simp add: heap_ok_def)
  ultimately show "heap_ok h'" unfolding heap_ok_def using h'(3) by simp
qed

subsection \<open>Objects do not overlap\<close>

lemma sorted_wrt_before:
  "sorted_wrt R xs \<Longrightarrow> x \<in> set xs \<Longrightarrow> y \<in> set xs \<Longrightarrow> x = y \<or> R x y \<or> R y x"
  by (induction xs) auto

lemma slabs_apart:
  assumes ok: "heap_ok h" and s: "s \<in> bases h" "t \<in> bases h" "s \<noteq> t"
  shows "unat s + unat (slab_size (layout (caches h ! s_cache (slabs h s)))) \<le> unat t \<or>
    unat t + unat (slab_size (layout (caches h ! s_cache (slabs h t)))) \<le> unat s"
proof -
  let ?z = "\<lambda>s. slab_size (layout (caches h ! s_cache (slabs h s)))"
  have b: "unat (u + ?z u) = unat u + unat (?z u)" if "u \<in> bases h" for u
    using slab_in_range(1) [OF ok that] unat_less_2p32 [of "current_base (kernel_as (vm h))"] by (simp add: unat_word_ariths)
  have "sorted_wrt slab_before (each_order (registry h))" using ok by (simp add: heap_ok_def registry_ok_def)
  from sorted_wrt_before [OF this slab_in_range(2) [OF ok s(1)] slab_in_range(2) [OF ok s(2)]] s(3)
  have "s + ?z s \<le> t \<or> t + ?z t \<le> s" by (auto simp: slab_before_def)
  then show ?thesis using b [OF s(1)] b [OF s(2)] by (auto simp: word_le_nat_alt)
qed

definition apart :: "heap \<Rightarrow> u32 \<times> nat \<Rightarrow> u32 \<times> nat \<Rightarrow> bool" where
  "apart h x y \<longleftrightarrow> unat (object_at h x) + unat (size_at h (fst x)) \<le> unat (object_at h y) \<or>
     unat (object_at h y) + unat (size_at h (fst y)) \<le> unat (object_at h x)"

lemma index_apart: "i \<noteq> j \<Longrightarrow> i * z + z \<le> j * z \<or> j * z + z \<le> i * (z :: nat)"
  using mult_le_mono1 [of "Suc i" j z] mult_le_mono1 [of "Suc j" i z] by (cases "i < j") auto

end
