(* ===== verification/Vm_Correct.thy ===== *)
theory Vm_Correct
  imports Vm_Operations
begin

text \<open>
  Correctness of the memory operations that compose descriptor trees, page tables and frames.
  \<open>keeps\<close> collects what every page-table operation promises about frames that hold data:
  a frame in use that is neither a page directory nor a page table stays so, with its content.
\<close>

subsection \<open>Outcomes of mapping and unmapping one page\<close>

lemma map_page_cases:
  assumes ok: "vm_ok h" and pd: "pd_index va < TEMP_PD_SLOT" and m: "HAL_VMM_MapPage va pa flags h = Some (b, h')"
  obtains (same) "\<not> b" "h' = h"
  | (entry) "b" "maps h (root h) (pd_index va)"
      "h' = put (tbl h (root h) (pd_index va)) (pt_index va) (set_frame pa (translate_flags flags)) h"
  | (newtab) a p where "b" "fresh h a p" "\<not> is_present (mem h (root h) (pd_index va))"
      "h' = put (frame_no a) (pt_index va) (set_frame pa (translate_flags flags)) (linked h (pd_index va) a p)"
proof (cases "is_present (mem h (root h) (pd_index va))")
  case True
  then have mp: "maps h (root h) (pd_index va)" using pd by (simp add: maps_def)
  show ?thesis
  proof (cases "is_present (mem h (tbl h (root h) (pd_index va)) (pt_index va))")
    case p: True
    have "HAL_VMM_MapPage va pa flags h = Some (False, h)" using True p vm_okD(1) [OF ok] pd by (simp add: HAL_VMM_MapPage_def)
    with m same show ?thesis by simp
  next
    case p: False
    have "HAL_VMM_MapPage va pa flags h =
        Some (True, put (tbl h (root h) (pd_index va)) (pt_index va) (set_frame pa (translate_flags flags)) h)"
      using True p vm_okD(1) [OF ok] pd by (simp add: HAL_VMM_MapPage_def)
    with m entry mp show ?thesis by simp
  qed
next
  case np: False
  show ?thesis
  proof (rule alloc_one [OF ok])
    assume "HAL_PMM_AllocateFrames 1 (pm h) = Some (0, pm h)"
    then have "HAL_VMM_MapPage va pa flags h = Some (False, h)"
      using np vm_okD(1) [OF ok] by (simp add: HAL_VMM_MapPage_def add_table_def)
    with m same show ?thesis by simp
  next
    fix a p assume a: "HAL_PMM_AllocateFrames 1 (pm h) = Some (a, p)" "a \<noteq> 0" and
      "pmm_ok p" "max_frames_of p = max_frames_of (pm h)"
      "0 < frame_no a" "frame_no a < max_frames_of (pm h)" and nu: "\<not> used (pm h) (frame_no a)" and
      "\<forall>g. used p g = (used (pm h) g \<or> g = frame_no a)"
    then have fr: "fresh h a p" by (simp add: fresh_def)
    let ?h = "linked h (pd_index va) a p"
    have rd: "root h \<in> dir_frames h" by (rule vm_okD(2) [OF ok])
    have ok': "vm_ok ?h" by (rule linked_ok [OF ok pd np fr])
    have rs: "root h \<in> shared_dirs h (pd_index va)" using rd by (simp add: shared_dirs_def)
    then have e: "mem ?h (root ?h) (pd_index va) = set_frame a (PRESENT OR WRITABLE OR USER)"
      using linked_dir [OF ok fr rd] by simp
    have "frame_no a \<notin> shared_dirs h (pd_index va)" using new_frame(1) [OF ok nu] rd by (auto simp: shared_dirs_def)
    then have z: "mem ?h (frame_no a) (pt_index va) = 0" using pt_index_less [of va] by (simp add: linked_def)
    have "HAL_VMM_MapPage va pa flags h =
        Some (True, put (frame_no a) (pt_index va) (set_frame pa (translate_flags flags)) ?h)"
      using np vm_okD(1) [OF ok] add_table_linked [OF ok pd a nu] window_read_root [OF vm_okD(1) [OF ok'], of "pd_index va"]
        window_write_root [OF vm_okD(1) [OF ok'], of "pd_index va"] pd z unfolding e
      by (simp add: HAL_VMM_MapPage_def)
    with m newtab [OF _ fr np] show ?thesis by simp
  qed
qed

subsection \<open>Data frames\<close>

definition tabs :: "hal \<Rightarrow> nat set" where
  "tabs h = {tbl h d i |d i. d \<in> dir_frames h \<and> maps h d i}"

definition data_frame :: "hal \<Rightarrow> nat \<Rightarrow> bool" where
  "data_frame h f = (owned h f \<and> f \<notin> dir_frames h \<and> f \<notin> tabs h)"

definition keeps :: "hal \<Rightarrow> hal \<Rightarrow> bool" where
  "keeps h h' = (vm_ok h' \<and> cr3 h' = cr3 h \<and> roots h' = roots h \<and> max_frames_of (pm h') = max_frames_of (pm h) \<and>
     (\<forall>g. data_frame h g \<longrightarrow> data_frame h' g \<and> mem h' g = mem h g))"

lemma keeps_refl: "vm_ok h \<Longrightarrow> keeps h h"
  by (simp add: keeps_def)

lemma keeps_trans: "keeps h h1 \<Longrightarrow> keeps h1 h2 \<Longrightarrow> keeps h h2"
  by (simp add: keeps_def)

lemma tabs_cong:
  assumes "\<And>d. d \<in> dir_frames h \<Longrightarrow> mem h' d = mem h d" "roots h' = roots h"
  shows "tabs h' = tabs h"
proof -
  have m: "maps h' d i = maps h d i" "tbl h' d i = tbl h d i" if "d \<in> dir_frames h" for d i
    using assms(1) [OF that] by (simp_all add: maps_def)
  show ?thesis
  proof (intro set_eqI iffI)
    fix t assume "t \<in> tabs h'"
    then obtain d i where "t = tbl h' d i" "d \<in> dir_frames h" "maps h' d i" unfolding tabs_def assms(2) by blast
    with m show "t \<in> tabs h" unfolding tabs_def by blast
  next
    fix t assume "t \<in> tabs h"
    then obtain d i where "t = tbl h d i" "d \<in> dir_frames h" "maps h d i" unfolding tabs_def by blast
    with m [of d i] show "t \<in> tabs h'" unfolding tabs_def assms(2) by (metis (mono_tags, lifting) mem_Collect_eq)
  qed
qed

lemma tabs_put: "f \<notin> dir_frames h \<Longrightarrow> tabs (put f i v h) = tabs h"
proof (rule tabs_cong)
  fix d assume "f \<notin> dir_frames h" "d \<in> dir_frames h"
  then have "d \<noteq> f" by metis
  then show "mem (put f i v h) d = mem h d" by (simp add: fun_eq_iff)
qed simp

lemma owned_put [simp]: "owned (put f i v h) g = owned h g"
  by (simp add: owned_def)

lemma keeps_put_table:
  assumes "vm_ok h" "maps h (root h) i"
  shows "keeps h (put (tbl h (root h) i) j v h)"
proof -
  have rd: "root h \<in> dir_frames h" by (rule vm_okD(2) [OF assms(1)])
  have "tbl h (root h) i \<notin> dir_frames h" by (rule root_tableD(2) [OF assms(1) rd assms(2)])
  moreover have "tbl h (root h) i \<in> tabs h" using rd assms(2) by (auto simp: tabs_def)
  ultimately show ?thesis using put_table_ok [OF assms(1) rd assms(2)] tabs_put [of "tbl h (root h) i" h]
    by (auto simp: keeps_def data_frame_def fun_eq_iff)
qed

lemma linked_tabs:
  assumes ok: "vm_ok h" and fr: "fresh h a p" and pd: "pd < TEMP_PD_SLOT"
  shows "tabs (linked h pd a p) \<subseteq> insert (frame_no a) (tabs h)"
proof
  fix t assume "t \<in> tabs (linked h pd a p)"
  then obtain d i where d: "d \<in> dir_frames h" "maps (linked h pd a p) d i" "t = tbl (linked h pd a p) d i" by (auto simp: tabs_def)
  from linked_maps [OF ok fr d(1) pd d(2)] d show "t \<in> insert (frame_no a) (tabs h)" unfolding tabs_def by auto
qed

lemma keeps_map:
  assumes ok: "vm_ok h" and pd: "pd_index va < TEMP_PD_SLOT" and m: "HAL_VMM_MapPage va pa flags h = Some (b, h')"
  shows "keeps h h'"
  using ok pd m
proof (cases rule: map_page_cases)
  case same
  then show ?thesis using keeps_refl [OF ok] by simp
next
  case entry
  then show ?thesis using keeps_put_table [OF ok] by simp
next
  case (newtab a p)
  let ?h = "linked h (pd_index va) a p"
  have okl: "vm_ok ?h" by (rule linked_ok [OF ok pd newtab(3,2)])
  have rd: "root h \<in> dir_frames h" by (rule vm_okD(2) [OF ok])
  have rs: "root h \<in> shared_dirs h (pd_index va)" using rd by (simp add: shared_dirs_def)
  have e: "mem ?h (root ?h) (pd_index va) = set_frame a (PRESENT OR WRITABLE OR USER)" using linked_dir [OF ok newtab(2) rd] rs by simp
  then have "maps ?h (root ?h) (pd_index va)" "tbl ?h (root ?h) (pd_index va) = frame_no a" using pd user_rw_entry by (simp_all add: maps_def)
  then have k1: "keeps ?h h'" using keeps_put_table [OF okl] newtab(4) by metis
  have sd: "shared_dirs h (pd_index va) \<subseteq> dir_frames h" using rd by (auto simp: shared_dirs_def)
  have "keeps h ?h"
    unfolding keeps_def
  proof (intro conjI allI impI)
    show "max_frames_of (pm ?h) = max_frames_of (pm h)" using newtab(2) by (simp add: fresh_def)
    fix g assume g: "data_frame h g"
    then have ne: "g \<noteq> frame_no a" using newtab(2) by (auto simp: data_frame_def owned_def fresh_def)
    then show "data_frame ?h g"
      using g linked_tabs [OF ok newtab(2) pd] owned_fresh [OF newtab(2)] unfolding data_frame_def linked_simps
      by (auto simp: owned_def)
    show "mem ?h g = mem h g" using g ne sd by (auto simp: linked_def data_frame_def fun_eq_iff)
  qed (use okl in simp_all)
  then show ?thesis using k1 by (rule keeps_trans)
qed

lemma unmap_page_cases:
  assumes ok: "vm_ok h" and pd: "pd_index va < TEMP_PD_SLOT" and u: "HAL_VMM_UnmapPage va h = Some h'"
  obtains (none) "h' = h"
  | (clear) "maps h (root h) (pd_index va)" "h' = put (tbl h (root h) (pd_index va)) (pt_index va) 0 h"
  | (drop) p where "maps h (root h) (pd_index va)"
      "h' = (put (root h) (pd_index va) 0 (put (tbl h (root h) (pd_index va)) (pt_index va) 0 h))\<lparr>pm := p\<rparr>"
      "pmm_ok p" "max_frames_of p = max_frames_of (pm h)" "\<forall>g. used p g = (used (pm h) g \<and> g \<noteq> tbl h (root h) (pd_index va))"
proof (cases "is_present (mem h (root h) (pd_index va))")
  case False
  then show ?thesis using u none vm_okD(1) [OF ok] by (simp add: HAL_VMM_UnmapPage_def)
next
  case True
  then have m: "maps h (root h) (pd_index va)" using pd by (simp add: maps_def)
  let ?t = "tbl h (root h) (pd_index va)"
  let ?h1 = "put ?t (pt_index va) 0 h"
  have rd: "root h \<in> dir_frames h" by (rule vm_okD(2) [OF ok])
  have ne: "?t \<noteq> root h" using root_tableD(2) [OF ok rd m] rd by metis
  have ok1: "vm_ok ?h1" by (rule put_table_ok [OF ok rd m])
  have s1: "self_mapped ?h1 (root ?h1)" by (rule vm_okD(1) [OF ok1])
  have w: "window_write (pd_index va) (pt_index va) 0 h = Some ?h1" using vm_okD(1) [OF ok] True pd by simp
  have e1: "mem ?h1 (root ?h1) (pd_index va) = mem h (root h) (pd_index va)" using ne by simp
  obtain b where b: "table_is_empty (pd_index va) 1024 ?h1 = Some b"
    using table_is_empty_eq [OF s1, of "pd_index va" 1024] True pd unfolding e1 by simp
  show ?thesis
  proof (cases "b \<and> pd_index va < KERNEL_SPLIT")
    case False
    have "HAL_VMM_UnmapPage va h = Some ?h1" using vm_okD(1) [OF ok] True w b False by (auto simp: HAL_VMM_UnmapPage_def)
    then show ?thesis using u clear m by simp
  next
    case d: True
    have "?t < max_frames_of (pm h)" using root_tableD(1) [OF ok rd m] by (simp add: owned_def)
    then obtain p where p: "HAL_PMM_FreeFrames (get_frame (mem h (root h) (pd_index va))) 1 (pm h) = Some p"
      "pmm_ok p" "max_frames_of p = max_frames_of (pm h)" "\<forall>g. used p g = (used (pm h) g \<and> g \<noteq> ?t)"
      using free_one [OF vm_okD(4) [OF ok], of "get_frame (mem h (root h) (pd_index va))"] by auto
    have "HAL_VMM_UnmapPage va h = Some ((put (root h) (pd_index va) 0 ?h1)\<lparr>pm := p\<rparr>)"
      using vm_okD(1) [OF ok] directory_root [OF s1] set_directory_root [OF s1] True w b d p(1) ne
      by (simp add: HAL_VMM_UnmapPage_def)
    then show ?thesis using u drop [OF m _ p(2-4)] by simp
  qed
qed

lemma keeps_unmap:
  assumes ok: "vm_ok h" and pd: "pd_index va < TEMP_PD_SLOT" and u: "HAL_VMM_UnmapPage va h = Some h'"
  shows "keeps h h'"
proof -
  have okk: "vm_ok h'" "cr3 h' = cr3 h" "roots h' = roots h"
    using unmap_page_result [OF ok pd] u by (auto simp: unmap_result_def)
  from ok pd u show ?thesis
  proof (cases rule: unmap_page_cases)
    case none
    then show ?thesis using keeps_refl [OF ok] by simp
  next
    case clear
    then show ?thesis using keeps_put_table [OF ok] by simp
  next
    case (drop p)
    let ?t = "tbl h (root h) (pd_index va)"
    have rd: "root h \<in> dir_frames h" by (rule vm_okD(2) [OF ok])
    have t: "?t \<in> tabs h" using rd drop(1) unfolding tabs_def by blast
    have me: "mem h' f i = (if f = root h \<and> i = pd_index va then 0 else if f = ?t \<and> i = pt_index va then 0 else mem h f i)" for f i
      using drop(2) root_tableD(2) [OF ok rd drop(1)] rd by auto
    have sub: "tabs h' \<subseteq> tabs h"
    proof
      fix x assume "x \<in> tabs h'"
      then obtain d i where d: "x = tbl h' d i" "d \<in> dir_frames h" "maps h' d i" unfolding tabs_def okk(3) by blast
      have "d \<noteq> ?t" using root_tableD(2) [OF ok rd drop(1)] d(2) by metis
      then have "mem h' d i = mem h d i" using d(3) me by (auto simp: maps_def split: if_splits)
      then show "x \<in> tabs h" using d unfolding tabs_def maps_def by auto
    qed
    show ?thesis
      unfolding keeps_def
    proof (intro conjI allI impI)
      show "max_frames_of (pm h') = max_frames_of (pm h)" using drop(2,4) by simp
      fix g assume g: "data_frame h g"
      then have ne: "g \<noteq> ?t" "g \<noteq> root h" using t rd by (auto simp: data_frame_def)
      show "data_frame h' g" using g ne(1) sub drop(2,4,5) unfolding data_frame_def okk(3) by (auto simp: owned_def)
      show "mem h' g = mem h g" using ne me by (auto simp: fun_eq_iff)
    qed (use okk in simp_all)
  qed
qed

subsection \<open>Clearing and releasing data frames\<close>

lemma mmu_frame_tr: "mmu_frame h va = (case tr h (root h) va of None \<Rightarrow> None | Some e \<Rightarrow> Some (frame_no e))"
  by (simp add: mmu_frame_def tr_def Let_def)

lemma data_frame_tr:
  assumes ok: "vm_ok h" and f: "data_frame h f" and m: "\<And>g. g \<noteq> f \<Longrightarrow> mem h' g = mem h g" and c: "roots h' = roots h"
    and d: "d \<in> dir_frames h" and va: "pd_index va < TEMP_PD_SLOT"
  shows "tr h' d va = tr h d va"
proof -
  have "d \<noteq> f" using d f unfolding data_frame_def by metis
  then have e: "mem h' d = mem h d" by (rule m)
  have "tbl h d (pd_index va) \<noteq> f" if "is_present (mem h d (pd_index va))"
  proof -
    have "tbl h d (pd_index va) \<in> tabs h" using d that va unfolding tabs_def maps_def by blast
    then show ?thesis using f unfolding data_frame_def by metis
  qed
  then show ?thesis unfolding tr_def e using m by auto
qed

lemma data_frame_ok:
  assumes ok: "vm_ok h" and f: "data_frame h f" and m: "\<And>g. g \<noteq> f \<Longrightarrow> mem h' g = mem h g"
    and c: "roots h' = roots h" "cr3 h' = cr3 h" "pm h' = pm h"
  shows "vm_ok h'" "data_frame h' g = data_frame h g"
proof -
  have e: "mem h' d = mem h d" if "d \<in> dir_frames h" for d using that f m unfolding data_frame_def by metis
  then show "vm_ok h'" using vm_ok_mem_cong [of h h'] ok c by blast
  have "tabs h' = tabs h" using tabs_cong [of h h'] e c(1) by blast
  then show "data_frame h' g = data_frame h g" using c by (simp add: data_frame_def owned_def)
qed

lemma zero_page_spec:
  assumes ok: "vm_ok h" and t: "tr h (root h) va = Some e" and f: "data_frame h (frame_no e)"
  shows "\<exists>h'. zero_page va h = Some h' \<and> vm_ok h' \<and> pm h' = pm h \<and> cr3 h' = cr3 h \<and> roots h' = roots h \<and>
    (\<forall>g. data_frame h' g = data_frame h g) \<and> (\<forall>g. g \<noteq> frame_no e \<longrightarrow> mem h' g = mem h g) \<and>
    (\<forall>i<1024. mem h' (frame_no e) i = 0) \<and>
    (\<forall>d\<in>dir_frames h. \<forall>va'. pd_index va' < TEMP_PD_SLOT \<longrightarrow> tr h' d va' = tr h d va')"
proof -
  let ?f = "frame_no e"
  let ?h = "h\<lparr>mem := (mem h)(?f := (\<lambda>i. if i < 1024 then 0 else mem h ?f i))\<rparr>"
  have m: "mem ?h g = mem h g" if "g \<noteq> ?f" for g using that by simp
  have "zero_page va h = Some ?h" using t by (simp add: zero_page_def mmu_frame_tr)
  moreover note data_frame_ok [OF ok f m] data_frame_tr [OF ok f m]
  ultimately show ?thesis by (intro exI [of _ ?h]) simp
qed

lemma release_frame_spec:
  assumes ok: "vm_ok h" and f: "data_frame h (frame_no phys)"
  shows "\<exists>h'. release_frame phys h = Some h' \<and> vm_ok h' \<and> cr3 h' = cr3 h \<and> roots h' = roots h \<and> mem h' = mem h \<and>
    (\<forall>g. g \<noteq> frame_no phys \<longrightarrow> data_frame h g \<longrightarrow> data_frame h' g)"
proof -
  have lt: "frame_no phys < max_frames_of (pm h)" using f by (simp add: data_frame_def owned_def)
  from free_one [OF vm_okD(4) [OF ok] lt] obtain p where p: "HAL_PMM_FreeFrames phys 1 (pm h) = Some p" "pmm_ok p"
    "max_frames_of p = max_frames_of (pm h)" "\<forall>g. used p g = (used (pm h) g \<and> g \<noteq> frame_no phys)" .
  let ?h = "h\<lparr>pm := p\<rparr>"
  have fd: "freed h {frame_no phys} (pm ?h)" using p by (simp add: freed_def)
  have "vm_ok ?h"
  proof (rule vm_ok_restrict [OF ok fd])
    show "0 \<notin> {frame_no phys}" using f by (simp add: data_frame_def owned_def)
    show "d \<notin> {frame_no phys}" if "d \<in> dir_frames ?h" for d
    proof -
      have "d \<in> dir_frames h" using that by simp
      then show ?thesis using f unfolding data_frame_def by (metis singletonD)
    qed
    show "tbl ?h d i \<notin> {frame_no phys}" if "d \<in> dir_frames ?h" "maps ?h d i" for d i
    proof -
      have "tbl h d i \<in> tabs h" using that unfolding tabs_def maps_def by auto
      then show ?thesis using f unfolding data_frame_def by auto
    qed
  qed (use ok in \<open>auto simp: vm_ok_def roots_ok_def\<close>)
  moreover have "tabs ?h = tabs h" by (rule tabs_cong) simp_all
  ultimately show ?thesis using p by (intro exI [of _ ?h]) (auto simp: release_frame_def data_frame_def owned_def)
qed

subsection \<open>Filling a page\<close>

lemma map_page_tr:
  assumes "vm_ok h" "pd_index va < TEMP_PD_SLOT" "HAL_VMM_MapPage va pa flags h = Some (b, h')"
  shows "b \<Longrightarrow> tr h (root h) va = None"
    "b \<Longrightarrow> d \<in> dir_frames h \<Longrightarrow> pd_index va' < TEMP_PD_SLOT \<Longrightarrow>
       tr h' d va' = (if sees h va d va' then Some (set_frame pa (translate_flags flags)) else tr h d va')"
    "\<not> b \<Longrightarrow> d \<in> dir_frames h \<Longrightarrow> pd_index va' < TEMP_PD_SLOT \<Longrightarrow> tr h' d va' = tr h d va'"
proof -
  have r: "map_result va pa flags h b h'" using map_page_result [OF assms(1,2), of pa flags] assms(3) by auto
  show "tr h (root h) va = None" if b using r that by (simp add: map_result_def)
  have T: "\<forall>d\<in>dir_frames h. \<forall>va'. pd_index va' < TEMP_PD_SLOT \<longrightarrow>
      tr h' d va' = (if sees h va d va' then Some (set_frame pa (translate_flags flags)) else tr h d va')" if b
    using r that unfolding map_result_def by (simp only: if_True) (elim conjE, assumption)
  show "tr h' d va' = (if sees h va d va' then Some (set_frame pa (translate_flags flags)) else tr h d va')"
    if "b" "d \<in> dir_frames h" "pd_index va' < TEMP_PD_SLOT" using T [OF that(1), rule_format, OF that(2,3)] .
  have F: "\<forall>d\<in>dir_frames h. \<forall>va'. pd_index va' < TEMP_PD_SLOT \<longrightarrow> tr h' d va' = tr h d va'" if "\<not> b"
    using r that unfolding map_result_def by (simp only: if_False) (elim conjE, assumption)
  show "tr h' d va' = tr h d va'" if "\<not> b" "d \<in> dir_frames h" "pd_index va' < TEMP_PD_SLOT" using F [OF that(1), rule_format, OF that(2,3)] .
qed

lemma unmap_page_tr:
  assumes "vm_ok h" "pd_index va < TEMP_PD_SLOT" "HAL_VMM_UnmapPage va h = Some h'" "d \<in> dir_frames h" "pd_index va' < TEMP_PD_SLOT"
  shows "tr h' d va' = (if sees h va d va' then None else tr h d va')"
proof -
  have "unmap_result va h h'" using unmap_page_result [OF assms(1,2)] assms(3) by auto
  then have "\<forall>d\<in>dir_frames h. \<forall>va'. pd_index va' < TEMP_PD_SLOT \<longrightarrow> tr h' d va' = (if sees h va d va' then None else tr h d va')"
    unfolding unmap_result_def by blast
  from this [rule_format, OF assms(4,5)] show ?thesis .
qed

lemma sees_tr:
  assumes "vm_ok h" "sees h va d va'" "d \<in> dir_frames h" "pd_index va' < TEMP_PD_SLOT"
  shows "tr h d va' = tr h (root h) va"
proof -
  have "mem h d (pd_index va') = mem h (root h) (pd_index va')"
    using assms(2) kernel_sharedD [OF assms(1,3) vm_okD(2) [OF assms(1)] _ assms(4)]
    by (auto simp: sees_def same_page_def shared_dirs_def split: if_splits)
  with assms(2) show ?thesis by (auto simp: tr_def sees_def same_page_def)
qed

lemma sees_cong: "cr3 h' = cr3 h \<Longrightarrow> roots h' = roots h \<Longrightarrow> sees h' va d va' = sees h va d va'"
  by (simp add: sees_def shared_dirs_def)

lemma sees_self: "vm_ok h \<Longrightarrow> sees h va (root h) va"
  using vm_okD(2) [of h] by (simp add: sees_def same_page_def shared_dirs_def)

lemma with_flag_has: "has_flag fl x \<Longrightarrow> with_flag fl x = fl"
proof -
  assume "has_flag fl x"
  then have "fl AND x = x" by (simp add: has_flag_def)
  then have "fl OR x = fl OR (fl AND x)" by simp
  also have "\<dots> = fl" by (rule bit_word_eqI) (auto simp: bit_or_iff bit_and_iff)
  finally show ?thesis by (simp add: with_flag_def)
qed

lemma frame_no_translated: "frame_no (set_frame pa (translate_flags flags)) = frame_no pa"
  using frame_no_get_frame [of "set_frame pa (translate_flags flags)"] get_frame_translated frame_no_get_frame [of pa] by simp

definition fills :: "hal \<Rightarrow> hal \<Rightarrow> nat \<Rightarrow> bool" where
  "fills h h' f = (vm_ok h' \<and> cr3 h' = cr3 h \<and> roots h' = roots h \<and>
     (\<forall>g. data_frame h g \<longrightarrow> data_frame h' g \<and> (g \<noteq> f \<longrightarrow> mem h' g = mem h g)))"

lemma keeps_fills: "keeps h h' \<Longrightarrow> fills h h' f"
  by (simp add: keeps_def fills_def)

lemma fills_trans: "fills h h1 f \<Longrightarrow> fills h1 h2 f \<Longrightarrow> fills h h2 f"
  by (simp add: fills_def)

definition page_result :: "u32 \<Rightarrow> u32 \<Rightarrow> u32 \<Rightarrow> bool \<Rightarrow> hal \<Rightarrow> hal \<Rightarrow> bool" where
  "page_result page phys fl b h h' =
     (if b then tr h (root h) page = None \<and> (\<forall>i<1024. mem h' (frame_no phys) i = 0) \<and>
        (\<forall>d\<in>dir_frames h. \<forall>va. pd_index va < TEMP_PD_SLOT \<longrightarrow>
           tr h' d va = (if sees h page d va then Some (set_frame phys (translate_flags fl)) else tr h d va))
      else (\<forall>d\<in>dir_frames h. \<forall>va. pd_index va < TEMP_PD_SLOT \<longrightarrow> tr h' d va = tr h d va))"

lemma fill_page_spec:
  assumes ok: "vm_ok h" and pd: "pd_index page < TEMP_PD_SLOT" and f: "data_frame h (frame_no phys)"
  shows "\<exists>b h'. fill_page page phys fl h = Some (b, h') \<and> fills h h' (frame_no phys) \<and> page_result page phys fl b h h'"
proof -
  let ?f = "frame_no phys"
  from map_page_result [OF ok pd] obtain b1 h1 where m1: "HAL_VMM_MapPage page phys (with_flag fl P_WRITE) h = Some (b1, h1)" by blast
  have k1: "keeps h h1" by (rule keeps_map [OF ok pd m1])
  note t1 = map_page_tr [OF ok pd m1]
  show ?thesis
  proof (cases b1)
    case False
    then have "page_result page phys fl False h h1" using t1(3) by (simp add: page_result_def)
    with m1 False keeps_fills [OF k1] show ?thesis by (auto simp: fill_page_def)
  next
    case True
    have c1: "cr3 h1 = cr3 h" "roots h1 = roots h" "vm_ok h1" "data_frame h1 ?f" using k1 f by (simp_all add: keeps_def)
    let ?e = "set_frame phys (translate_flags (with_flag fl P_WRITE))"
    have e1: "tr h1 (root h1) page = Some ?e" using t1(2) [OF True vm_okD(2) [OF ok] pd] sees_self [OF ok] c1 by simp
    have "data_frame h1 (frame_no ?e)" using c1(4) by (simp add: frame_no_translated)
    from zero_page_spec [OF c1(3) e1 this] obtain h2 where h2: "zero_page page h1 = Some h2" "vm_ok h2" "cr3 h2 = cr3 h" "roots h2 = roots h"
      "\<forall>g. data_frame h2 g = data_frame h1 g" "\<forall>g. g \<noteq> ?f \<longrightarrow> mem h2 g = mem h1 g" "\<forall>i<1024. mem h2 ?f i = 0"
      "\<forall>d\<in>dir_frames h. \<forall>va'. pd_index va' < TEMP_PD_SLOT \<longrightarrow> tr h2 d va' = tr h1 d va'"
      unfolding frame_no_translated c1(1,2) by blast
    have f2: "fills h h2 ?f" using k1 h2 by (simp add: fills_def keeps_def)
    have none: "tr h (root h) page = None" by (rule t1(1) [OF True])
    show ?thesis
    proof (cases "has_flag fl P_WRITE")
      case w: True
      have "page_result page phys fl True h h2"
        using none h2(7,8) t1(2) [OF True] with_flag_has [OF w] unfolding page_result_def by simp
      moreover have "fill_page page phys fl h = Some (True, h2)" using m1 True h2(1) w by (simp add: fill_page_def)
      ultimately show ?thesis using f2 by blast
    next
      case w: False
      from unmap_page_result [OF h2(2) pd] obtain h3 where u: "HAL_VMM_UnmapPage page h2 = Some h3" by blast
      have k3: "keeps h2 h3" by (rule keeps_unmap [OF h2(2) pd u])
      have c3: "vm_ok h3" "cr3 h3 = cr3 h" "roots h3 = roots h" using k3 h2(3,4) by (simp_all add: keeps_def)
      have t3: "tr h3 d va = tr h d va" if d: "d \<in> dir_frames h" and va: "pd_index va < TEMP_PD_SLOT" for d va
      proof (cases "sees h page d va")
        case True
        then have "tr h d va = None" using sees_tr [OF ok True d va] none by simp
        then show ?thesis using unmap_page_tr [OF h2(2) pd u _ va, of d] d True sees_cong [OF h2(3,4)] h2(4) by simp
      next
        case False
        have "tr h3 d va = tr h2 d va" using unmap_page_tr [OF h2(2) pd u _ va, of d] d False sees_cong [OF h2(3,4)] h2(4) by simp
        also have "\<dots> = tr h1 d va" using h2(8) d va by blast
        also have "\<dots> = tr h d va" using t1(2) [OF True d va] False by simp
        finally show ?thesis .
      qed
      have d3: "data_frame h3 ?f" "mem h3 ?f = mem h2 ?f" using k3 h2(5) c1(4) by (simp_all add: keeps_def)
      from map_page_result [OF c3(1) pd] obtain b4 h4 where m4: "HAL_VMM_MapPage page phys fl h3 = Some (b4, h4)" by blast
      have k4: "keeps h3 h4" by (rule keeps_map [OF c3(1) pd m4])
      have z4: "\<forall>i<1024. mem h4 ?f i = 0" using k4 d3 h2(7) by (simp add: keeps_def)
      have t4: "tr h4 d va = (if b4 \<and> sees h page d va then Some (set_frame phys (translate_flags fl)) else tr h d va)"
        if d: "d \<in> dir_frames h" and va: "pd_index va < TEMP_PD_SLOT" for d va
      proof -
        have d': "d \<in> dir_frames h3" using d c3(3) by simp
        show ?thesis using map_page_tr(2,3) [OF c3(1) pd m4 _ d' va] t3 [OF d va] sees_cong [OF c3(2,3)] by (cases b4) simp_all
      qed
      have "page_result page phys fl b4 h h4" using none z4 t4 unfolding page_result_def by simp
      moreover have "fill_page page phys fl h = Some (b4, h4)" using m1 True h2(1) w u m4 by (simp add: fill_page_def)
      moreover have "fills h h4 ?f" using f2 keeps_fills [OF k3] keeps_fills [OF k4] fills_trans by blast
      ultimately show ?thesis by blast
    qed
  qed
qed

subsection \<open>Placing and removing pages\<close>

lemma vm_ok_pm:
  assumes ok: "vm_ok h" and o: "\<And>f. owned h f \<Longrightarrow> owned (h\<lparr>pm := p\<rparr>) f" and p: "pmm_ok p" "used p 0"
  shows "vm_ok (h\<lparr>pm := p\<rparr>)"
proof -
  let ?h = "h\<lparr>pm := p\<rparr>"
  have "roots_ok ?h"
    unfolding roots_ok_def
  proof (intro conjI ballI)
    fix d assume "d \<in> dir_frames ?h"
    then have d: "d \<in> dir_frames h" by simp
    show "owned ?h d" by (rule o [OF dir_owned [OF ok d]])
    have "self_mapped h d \<and> mem h d TEMP_PD_SLOT = 0" using ok d unfolding vm_ok_def roots_ok_def by blast
    then show "self_mapped ?h d" "mem ?h d TEMP_PD_SLOT = 0" by simp_all
  qed (use ok in \<open>simp_all add: vm_ok_def roots_ok_def\<close>)
  moreover have "tables_ok ?h"
    unfolding tables_ok_def
  proof (intro ballI allI impI)
    fix d i assume "d \<in> dir_frames ?h" "maps ?h d i"
    then have "d \<in> dir_frames h" "maps h d i" by (simp_all add: maps_def)
    note t = root_tableD [OF ok this]
    have e: "tbl ?h d i = tbl h d i" "dir_frames ?h = dir_frames h" by simp_all
    show "owned ?h (tbl ?h d i) \<and> tbl ?h d i \<notin> dir_frames ?h" unfolding e using o [OF t(1)] t(2) by blast
  qed
  moreover have "tables_inj ?h = tables_inj h" by (simp add: tables_inj_def maps_def)
  moreover have "kernel_shared ?h = kernel_shared h" by (simp add: kernel_shared_def)
  ultimately show ?thesis using ok p by (simp add: vm_ok_def)
qed

lemma page_result_pm: "page_result page phys fl b (h\<lparr>pm := p\<rparr>) h' = page_result page phys fl b h h'"
  by (simp add: page_result_def tr_def sees_def shared_dirs_def)

lemma tr_mem: "mem h' = mem h \<Longrightarrow> tr h' d va = tr h d va"
  by (simp add: tr_def)

lemma alloc_data:
  assumes ok: "vm_ok h" and fr: "fresh h a p"
  shows "keeps h (h\<lparr>pm := p\<rparr>)" "data_frame (h\<lparr>pm := p\<rparr>) (frame_no a)" "\<not> data_frame h (frame_no a)"
    "tr (h\<lparr>pm := p\<rparr>) d va = tr h d va"
proof -
  let ?h = "h\<lparr>pm := p\<rparr>"
  have O: "owned h f \<Longrightarrow> owned ?h f" for f using owned_fresh [OF fr] by (simp add: owned_def)
  have nu: "\<not> used (pm h) (frame_no a)" using fr by (simp add: fresh_def)
  have T: "tabs ?h = tabs h" by (rule tabs_cong) simp_all
  have "pmm_ok p" "used p 0" using fr vm_okD(5) [OF ok] by (simp_all add: fresh_def)
  then have "vm_ok ?h" using vm_ok_pm [OF ok O] by blast
  moreover have "data_frame ?h g" if "data_frame h g" for g using that O [of g] T by (simp add: data_frame_def)
  ultimately show "keeps h ?h" using fr by (simp add: keeps_def fresh_def)
  have "frame_no a \<notin> tabs h"
  proof
    assume "frame_no a \<in> tabs h"
    then obtain d i where "frame_no a = tbl h d i" "d \<in> dir_frames h" "maps h d i" unfolding tabs_def by blast
    with new_frame(2) [OF ok nu] show False by metis
  qed
  moreover have "owned ?h (frame_no a)" using fr by (simp add: owned_def fresh_def)
  ultimately show "data_frame ?h (frame_no a)" using T new_frame(1) [OF ok nu] by (simp add: data_frame_def)
  show "\<not> data_frame h (frame_no a)" using nu by (simp add: data_frame_def owned_def)
  show "tr ?h d va = tr h d va" by (simp add: tr_def)
qed

definition preserves :: "hal \<Rightarrow> hal \<Rightarrow> bool" where
  "preserves h h' = (vm_ok h' \<and> cr3 h' = cr3 h \<and> roots h' = roots h \<and>
     (\<forall>g. data_frame h g \<longrightarrow> data_frame h' g \<and> mem h' g = mem h g))"

lemma preserves_refl: "vm_ok h \<Longrightarrow> preserves h h"
  by (simp add: preserves_def)

lemma preserves_trans: "preserves h h1 \<Longrightarrow> preserves h1 h2 \<Longrightarrow> preserves h h2"
  by (simp add: preserves_def)

definition placed :: "u32 \<Rightarrow> u32 \<Rightarrow> u32 \<Rightarrow> hal \<Rightarrow> hal \<Rightarrow> bool" where
  "placed page phys fl h h' =
     (\<not> data_frame h (frame_no phys) \<and> data_frame h' (frame_no phys) \<and> get_frame phys = phys \<and> page_result page phys fl True h h')"

lemma place_page_spec:
  assumes ok: "vm_ok h" and pd: "pd_index page < TEMP_PD_SLOT"
  shows "\<exists>e h'. place_page page fl h = Some (e, h') \<and> preserves h h' \<and>
     (if e = Success then \<exists>phys. placed page phys fl h h'
      else (\<forall>d\<in>dir_frames h. \<forall>va. pd_index va < TEMP_PD_SLOT \<longrightarrow> tr h' d va = tr h d va))"
proof -
  obtain old where old: "HAL_VMM_GetPhysicalAddress page h = Some old" using get_physical_tr [OF ok pd] by simp
  show ?thesis
  proof (cases "old = 0")
    case False
    then show ?thesis using old ok by (auto simp: place_page_def preserves_def)
  next
    case True
    show ?thesis
    proof (rule alloc_one [OF ok])
      assume "HAL_PMM_AllocateFrames 1 (pm h) = Some (0, pm h)"
      then show ?thesis using old True ok by (auto simp: place_page_def preserves_def)
    next
      fix a p assume a: "HAL_PMM_AllocateFrames 1 (pm h) = Some (a, p)" "a \<noteq> 0" and al: "get_frame a = a" and
        "pmm_ok p" "max_frames_of p = max_frames_of (pm h)"
        "0 < frame_no a" "frame_no a < max_frames_of (pm h)" and nu: "\<not> used (pm h) (frame_no a)" and
        "\<forall>g. used p g = (used (pm h) g \<or> g = frame_no a)"
      then have fr: "fresh h a p" by (simp add: fresh_def)
      let ?h1 = "h\<lparr>pm := p\<rparr>"
      note ad = alloc_data [OF ok fr]
      have k: "vm_ok ?h1" using ad(1) by (simp add: keeps_def)
      from fill_page_spec [OF k pd ad(2), of fl] obtain b h2 where f: "fill_page page a fl ?h1 = Some (b, h2)"
        "fills ?h1 h2 (frame_no a)" "page_result page a fl b ?h1 h2" by blast
      have pr: "page_result page a fl b h h2"
        using f(3) unfolding page_result_pm .
      have K: "preserves h h2" using f(2) ad(1,3) by (auto simp: preserves_def fills_def keeps_def)
      have df: "data_frame h2 (frame_no a)" using f(2) ad(2) by (simp add: fills_def)
      show ?thesis
      proof (cases b)
        case b: True
        then have "placed page a fl h h2" using ad(3) df al pr by (simp add: placed_def)
        moreover have "place_page page fl h = Some (Success, h2)" using old True a f(1) b by (simp add: place_page_def)
        ultimately show ?thesis using K by auto
      next
        case b: False
        have "vm_ok h2" using f(2) by (simp add: fills_def)
        from release_frame_spec [OF this df] obtain h3 where r: "release_frame a h2 = Some h3" "vm_ok h3" "cr3 h3 = cr3 h2"
          "roots h3 = roots h2" "mem h3 = mem h2" "\<forall>g. g \<noteq> frame_no a \<longrightarrow> data_frame h2 g \<longrightarrow> data_frame h3 g" by blast
        have "preserves h h3" using K r ad(3) unfolding preserves_def by metis
        moreover have "place_page page fl h = Some (DeviceError, h3)" using old True a f(1) b r(1) by (simp add: place_page_def)
        moreover have "\<forall>d\<in>dir_frames h. \<forall>va. pd_index va < TEMP_PD_SLOT \<longrightarrow> tr h3 d va = tr h d va"
          using pr b tr_mem [OF r(5)] unfolding page_result_def by simp
        ultimately show ?thesis by auto
      qed
    qed
  qed
qed

subsection \<open>Ranges of pages\<close>

abbreviation page_at :: "u32 \<Rightarrow> nat \<Rightarrow> u32" where
  "page_at address k \<equiv> address + of_nat k * 4096"

lemma same_page_iff: "same_page a b \<longleftrightarrow> unat a div 4096 = unat b div 4096"
proof -
  have e: "n div 4096 = n div 4194304 * 1024 + n div 4096 mod 1024" for n :: nat
  proof -
    have "n div 4096 div 1024 = n div 4194304" by (simp add: div_mult2_eq [symmetric])
    then show ?thesis using div_mult_mod_eq [of "n div 4096" 1024] by simp
  qed
  have d: "n div 4194304 = n div 4096 div 1024" for n :: nat by (simp add: div_mult2_eq [symmetric])
  show ?thesis unfolding same_page_def nat_pd_index nat_pt_index using e [of "unat a"] e [of "unat b"] d by metis
qed

lemma unat_page_at:
  assumes "unat address + N * 4096 \<le> 4294967296" "k < N"
  shows "unat (page_at address k) = unat address + k * 4096"
proof -
  have "k * 4096 + 4096 \<le> N * 4096" using mult_le_mono1 [of "Suc k" N 4096] assms(2) by simp
  then have b: "unat address + k * 4096 < 4294967296" using assms(1) by linarith
  then have "unat (of_nat k * 4096 :: u32) = k * 4096"
    by (simp only: unat_word_ariths unat_of_nat) simp
  with b show ?thesis by (simp add: unat_word_ariths)
qed

lemma page_at_props:
  assumes "unat address + N * 4096 \<le> 3221225472" "unat address mod 4096 = 0" "k < N"
  shows "pd_index (page_at address k) < KERNEL_SPLIT" "page_at address k AND 0xFFF = 0"
    "j < N \<Longrightarrow> same_page (page_at address j) (page_at address k) \<Longrightarrow> j = k"
    "same_page (page_at address k) x \<longleftrightarrow> unat address + k * 4096 \<le> unat x \<and> unat x < unat address + (k + 1) * 4096"
proof -
  have b: "unat address + N * 4096 \<le> 4294967296" using assms(1) by simp
  note u = unat_page_at [OF b]
  obtain q where q: "unat address = q * 4096" using assms(2) by (metis dvd_div_mult_self mod_0_imp_dvd)
  have s: "q * 4096 + i * 4096 = (q + i) * 4096" for i by (rule distrib_right [symmetric])
  have k: "k * 4096 + 4096 \<le> N * 4096" using mult_le_mono1 [of "Suc k" N 4096] assms(3) by simp
  show "pd_index (page_at address k) < KERNEL_SPLIT"
    unfolding nat_pd_index u [OF assms(3)] using assms(1) k by (simp add: div_less_iff_less_mult)
  have "unat (page_at address k AND 0xFFF) = 0"
  proof -
    have "(0xFFF :: u32) = mask 12" by (simp add: mask_eq_exp_minus_1)
    then have "page_at address k AND 0xFFF = take_bit 12 (page_at address k)" by (simp only: take_bit_eq_mask)
    then show ?thesis by (simp only: unsigned_take_bit_eq u [OF assms(3)] q s) (simp add: take_bit_eq_mod)
  qed
  then show "page_at address k AND 0xFFF = 0" by (simp only: unat_eq_0)
  have d: "unat (page_at address i) div 4096 = q + i" if "i < N" for i
    unfolding u [OF that] q s by (rule nonzero_mult_div_cancel_right) simp
  show "j = k" if "j < N" "same_page (page_at address j) (page_at address k)"
    using that(2) unfolding same_page_iff d [OF that(1)] d [OF assms(3)] by simp
  show "same_page (page_at address k) x \<longleftrightarrow> unat address + k * 4096 \<le> unat x \<and> unat x < unat address + (k + 1) * 4096"
    unfolding same_page_iff d [OF assms(3)] q by (auto simp: algebra_simps dest: dividend_less_div_times)
qed

lemma tr_same_page: "same_page a b \<Longrightarrow> tr h d a = tr h d b"
  by (simp add: tr_def same_page_def)

lemma sees_user: "pd_index va < KERNEL_SPLIT \<Longrightarrow> sees h va d va' \<longleftrightarrow> same_page va va' \<and> d = root h"
  by (simp add: sees_def shared_dirs_def)

definition page_filled :: "hal \<Rightarrow> hal \<Rightarrow> u32 \<Rightarrow> u32 \<Rightarrow> u32 \<Rightarrow> bool" where
  "page_filled h h' page phys fl =
     (data_frame h' (frame_no phys) \<and> \<not> data_frame h (frame_no phys) \<and> get_frame phys = phys \<and>
      (\<forall>i<1024. mem h' (frame_no phys) i = 0) \<and>
      tr h (root h) page = None \<and> tr h' (root h) page = Some (set_frame phys (translate_flags fl)))"

definition run_result :: "u32 \<Rightarrow> u32 \<Rightarrow> nat \<Rightarrow> nat \<Rightarrow> (nat \<Rightarrow> u32) \<Rightarrow> hal \<Rightarrow> hal \<Rightarrow> bool" where
  "run_result address fl k k' F h h' =
     (preserves h h' \<and> inj_on (\<lambda>j. frame_no (F j)) {k..<k'} \<and>
      (\<forall>j\<in>{k..<k'}. page_filled h h' (page_at address j) (F j) fl) \<and>
      (\<forall>d\<in>dir_frames h. \<forall>va. pd_index va < TEMP_PD_SLOT \<longrightarrow>
         \<not> (d = root h \<and> (\<exists>j\<in>{k..<k'}. same_page (page_at address j) va)) \<longrightarrow> tr h' d va = tr h d va))"

lemma run_result_empty: "preserves h h' \<Longrightarrow>
    (\<forall>d\<in>dir_frames h. \<forall>va. pd_index va < TEMP_PD_SLOT \<longrightarrow> tr h' d va = tr h d va) \<Longrightarrow> run_result address fl k k F h h'"
  by (simp add: run_result_def)

lemma run_result_step:
  assumes ok: "vm_ok h" and pg: "\<And>j. j < N \<Longrightarrow> pd_index (page_at address j) < KERNEL_SPLIT"
    and ds: "\<And>i j. i < N \<Longrightarrow> j < N \<Longrightarrow> same_page (page_at address i) (page_at address j) \<Longrightarrow> i = j"
    and k: "k < N" "k' \<le> N" "Suc k \<le> k'"
    and p1: "preserves h h1" "placed (page_at address k) phys fl h h1" and r: "run_result address fl (Suc k) k' F h1 h'"
  shows "run_result address fl k k' (F(k := phys)) h h'"
proof -
  have c1: "cr3 h1 = cr3 h" "roots h1 = roots h" "vm_ok h1" using p1(1) by (simp_all add: preserves_def)
  have p2: "preserves h1 h'" using r by (simp add: run_result_def)
  have rd: "root h \<in> dir_frames h" by (rule vm_okD(2) [OF ok])
  have pk: "pd_index (page_at address k) < TEMP_PD_SLOT" using pg [OF k(1)] by simp
  have t1: "tr h1 d va = (if same_page (page_at address k) va \<and> d = root h then Some (set_frame phys (translate_flags fl)) else tr h d va)"
    if "d \<in> dir_frames h" "pd_index va < TEMP_PD_SLOT" for d va
  proof -
    have "\<forall>d\<in>dir_frames h. \<forall>va. pd_index va < TEMP_PD_SLOT \<longrightarrow>
        tr h1 d va = (if sees h (page_at address k) d va then Some (set_frame phys (translate_flags fl)) else tr h d va)"
      using p1(2) unfolding placed_def page_result_def by (simp only: if_True) (elim conjE, assumption)
    from this [rule_format, OF that] show ?thesis unfolding sees_user [OF pg [OF k(1)]] .
  qed
  have t2: "tr h' d va = tr h1 d va"
    if "d \<in> dir_frames h" "pd_index va < TEMP_PD_SLOT" "\<not> (d = root h \<and> (\<exists>j\<in>{Suc k..<k'}. same_page (page_at address j) va))" for d va
  proof -
    have "\<forall>d\<in>dir_frames h1. \<forall>va. pd_index va < TEMP_PD_SLOT \<longrightarrow>
         \<not> (d = root h1 \<and> (\<exists>j\<in>{Suc k..<k'}. same_page (page_at address j) va)) \<longrightarrow> tr h' d va = tr h1 d va"
      using r unfolding run_result_def by blast
    from this [unfolded c1, rule_format, OF that] show ?thesis .
  qed
  have other: "\<not> (root h = root h \<and> (\<exists>j\<in>{Suc k..<k'}. same_page (page_at address j) (page_at address k)))"
  proof
    assume "root h = root h \<and> (\<exists>j\<in>{Suc k..<k'}. same_page (page_at address j) (page_at address k))"
    then obtain j where j: "j \<in> {Suc k..<k'}" "same_page (page_at address j) (page_at address k)" by blast
    then have "j < N" using k by simp
    from ds [OF this k(1) j(2)] j(1) show False by simp
  qed
  have F1: "page_filled h h' (page_at address k) phys fl"
    using p1(2) p2 t1 [OF rd pk] t2 [OF rd pk other] unfolding page_filled_def placed_def page_result_def preserves_def
    by (simp add: same_page_def)
  have F2: "page_filled h h' (page_at address j) (F j) fl" if j: "j \<in> {Suc k..<k'}" for j
  proof -
    have pf: "page_filled h1 h' (page_at address j) (F j) fl" using r j unfolding run_result_def by blast
    have jN: "j < N" "j \<noteq> k" using j k by auto
    have "pd_index (page_at address j) < TEMP_PD_SLOT" using pg [OF jN(1)] by simp
    from t1 [OF rd this] have "tr h (root h) (page_at address j) = tr h1 (root h) (page_at address j)"
      using ds [OF k(1) jN(1)] jN(2) by auto
    moreover have "\<not> data_frame h (frame_no (F j))" using pf p1(1) unfolding page_filled_def preserves_def by blast
    ultimately show ?thesis using pf unfolding page_filled_def c1(1) by simp
  qed
  have nk: "frame_no phys \<noteq> frame_no (F j)" if j: "j \<in> {Suc k..<k'}" for j
  proof -
    have "data_frame h1 (frame_no phys)" using p1(2) by (simp add: placed_def)
    moreover have "\<not> data_frame h1 (frame_no (F j))" using r j unfolding run_result_def page_filled_def by blast
    ultimately show ?thesis by metis
  qed
  have ins: "{k..<k'} = insert k {Suc k..<k'}" using k(3) by auto
  have fs: "(F(k := phys)) j = F j" if "j \<in> {Suc k..<k'}" for j using that by auto
  have "inj_on (\<lambda>j. frame_no (F j)) {Suc k..<k'}" using r by (simp add: run_result_def)
  then have "inj_on (\<lambda>j. frame_no ((F(k := phys)) j)) {Suc k..<k'}" using fs by (simp add: inj_on_def)
  then have "inj_on (\<lambda>j. frame_no ((F(k := phys)) j)) {k..<k'}" unfolding ins using nk nk [THEN not_sym] fs by (auto simp: inj_on_def)
  moreover have "\<forall>j\<in>{k..<k'}. page_filled h h' (page_at address j) ((F(k := phys)) j) fl" unfolding ins using F1 F2 fs by auto
  moreover have "tr h' d va = tr h d va"
    if d: "d \<in> dir_frames h" and va: "pd_index va < TEMP_PD_SLOT" and n: "\<not> (d = root h \<and> (\<exists>j\<in>{k..<k'}. same_page (page_at address j) va))" for d va
  proof -
    have "tr h' d va = tr h1 d va" by (rule t2 [OF d va]) (use n ins in auto)
    also have "\<dots> = tr h d va" using t1 [OF d va] n ins by auto
    finally show ?thesis .
  qed
  ultimately show ?thesis unfolding run_result_def using preserves_trans [OF p1(1) p2] by blast
qed

lemma place_pages_spec:
  assumes "\<And>j. j < N \<Longrightarrow> pd_index (page_at address j) < KERNEL_SPLIT"
    and "\<And>i j. i < N \<Longrightarrow> j < N \<Longrightarrow> same_page (page_at address i) (page_at address j) \<Longrightarrow> i = j"
  shows "vm_ok h \<Longrightarrow> k + n = N \<Longrightarrow> \<exists>e k' h' F. place_pages 4096 address fl n k h = Some (e, k', h') \<and>
    k \<le> k' \<and> (if e = Success then k' = N else k' < N) \<and> run_result address fl k k' F h h'"
proof (induction n arbitrary: k h)
  case 0
  then show ?case using run_result_empty [OF preserves_refl] by auto
next
  case (Suc n)
  have k: "k < N" using Suc.prems(2) by simp
  have "pd_index (page_at address k) < TEMP_PD_SLOT" using assms(1) [OF k] by simp
  from place_page_spec [OF Suc.prems(1) this, of fl] obtain e h1 where p: "place_page (page_at address k) fl h = Some (e, h1)"
    "preserves h h1" "if e = Success then \<exists>phys. placed (page_at address k) phys fl h h1
      else (\<forall>d\<in>dir_frames h. \<forall>va. pd_index va < TEMP_PD_SLOT \<longrightarrow> tr h1 d va = tr h d va)" by blast
  show ?case
  proof (cases "e = Success")
    case False
    then have "run_result address fl k k undefined h h1" using p(2,3) by (intro run_result_empty) simp_all
    then show ?thesis using False p(1) k by (intro exI [of _ e] exI [of _ k] exI [of _ h1] exI [of _ undefined]) simp
  next
    case True
    then obtain phys where ph: "placed (page_at address k) phys fl h h1" using p(3) by auto
    have ok1: "vm_ok h1" using p(2) by (simp add: preserves_def)
    from Suc.IH [OF ok1, of "Suc k"] Suc.prems(2) obtain e' k' h' F where r: "place_pages 4096 address fl n (Suc k) h1 = Some (e', k', h')"
      "Suc k \<le> k'" "if e' = Success then k' = N else k' < N" "run_result address fl (Suc k) k' F h1 h'" by auto
    have "k' \<le> N" using r(3) by (auto split: if_splits)
    from run_result_step [OF Suc.prems(1) assms k this r(2) p(2) ph r(4)] have "run_result address fl k k' (F(k := phys)) h h'" .
    moreover have "place_pages 4096 address fl (Suc n) k h = Some (e', k', h')" using p(1) True r(1) by simp
    ultimately show ?thesis using r(2,3) by (metis Suc_leD)
  qed
qed

lemma undo_pages_spec:
  assumes pg: "\<And>j. j < N \<Longrightarrow> pd_index (page_at address j) < KERNEL_SPLIT" and off: "\<And>j. j < N \<Longrightarrow> page_at address j AND 0xFFF = 0"
    and ds: "\<And>i j. i < N \<Longrightarrow> j < N \<Longrightarrow> same_page (page_at address i) (page_at address j) \<Longrightarrow> i = j"
    and ok: "vm_ok h" and K: "K \<le> N" and inj: "inj_on (\<lambda>j. frame_no (F j)) {0..<K}"
    and F: "\<forall>j\<in>{0..<K}. data_frame h (frame_no (F j)) \<and> get_frame (F j) = F j \<and>
       tr h (root h) (page_at address j) = Some (set_frame (F j) (translate_flags fl))"
  shows "k \<le> K \<Longrightarrow> \<exists>h'. undo_pages 4096 address k h = Some h' \<and> vm_ok h' \<and> cr3 h' = cr3 h \<and> roots h' = roots h \<and>
    (\<forall>j. k \<le> j \<and> j < K \<longrightarrow> data_frame h' (frame_no (F j))) \<and>
    (\<forall>d\<in>dir_frames h. \<forall>va. pd_index va < TEMP_PD_SLOT \<longrightarrow>
       tr h' d va = (if d = root h \<and> (\<exists>j<k. same_page (page_at address j) va) then None else tr h d va))"
proof (induction k)
  case 0
  then show ?case using ok F by auto
next
  case (Suc k)
  then have kK: "k < K" and kN: "k < N" using K by simp_all
  from Suc.IH kK obtain h1 where h1: "undo_pages 4096 address k h = Some h1" "vm_ok h1" "cr3 h1 = cr3 h" "roots h1 = roots h"
    "\<forall>j. k \<le> j \<and> j < K \<longrightarrow> data_frame h1 (frame_no (F j))"
    "\<forall>d\<in>dir_frames h. \<forall>va. pd_index va < TEMP_PD_SLOT \<longrightarrow>
       tr h1 d va = (if d = root h \<and> (\<exists>j<k. same_page (page_at address j) va) then None else tr h d va)" by auto
  let ?p = "page_at address k"
  have pd: "pd_index ?p < TEMP_PD_SLOT" using pg [OF kN] by simp
  have rd: "root h \<in> dir_frames h" by (rule vm_okD(2) [OF ok])
  have "\<not> (\<exists>j<k. same_page (page_at address j) ?p)" 
  proof
    assume "\<exists>j<k. same_page (page_at address j) ?p"
    then obtain j where "j < k" "same_page (page_at address j) ?p" by blast
    with ds [OF _ kN, of j] kN show False by simp
  qed
  with h1(6) [rule_format, OF rd pd] have t1: "tr h1 (root h1) ?p = Some (set_frame (F k) (translate_flags fl))"
    using F kK unfolding h1(3) by simp
  then have phys: "HAL_VMM_GetPhysicalAddress ?p h1 = Some (F k)"
    using get_physical_tr [OF h1(2) pd] F kK off [OF kN] get_frame_translated by simp
  from unmap_page_result [OF h1(2) pd] obtain h2 where u: "HAL_VMM_UnmapPage ?p h1 = Some h2" by blast
  have k2: "keeps h1 h2" by (rule keeps_unmap [OF h1(2) pd u])
  have d2: "data_frame h2 (frame_no (F j))" if "k \<le> j" "j < K" for j using that h1(5) k2 unfolding keeps_def by blast
  have ok2: "vm_ok h2" "cr3 h2 = cr3 h" "roots h2 = roots h" using k2 h1(3,4) by (simp_all add: keeps_def)
  from release_frame_spec [OF ok2(1) d2 [OF le_refl kK]] obtain h3 where h3: "release_frame (F k) h2 = Some h3" "vm_ok h3"
    "cr3 h3 = cr3 h2" "roots h3 = roots h2" "mem h3 = mem h2" "\<forall>g. g \<noteq> frame_no (F k) \<longrightarrow> data_frame h2 g \<longrightarrow> data_frame h3 g" by blast
  have d3: "data_frame h3 (frame_no (F j))" if j: "Suc k \<le> j \<and> j < K" for j
  proof -
    have "frame_no (F j) \<noteq> frame_no (F k)" using inj_onD [OF inj, of j k] j kK by auto
    then show ?thesis using h3(6) d2 [of j] j by simp
  qed
  have t3: "tr h3 d va = (if d = root h \<and> (\<exists>j<Suc k. same_page (page_at address j) va) then None else tr h d va)"
    if d: "d \<in> dir_frames h" and va: "pd_index va < TEMP_PD_SLOT" for d va
  proof -
    have d1: "d \<in> dir_frames h1" using d h1(4) by simp
    have "tr h3 d va = tr h2 d va" by (rule tr_mem [OF h3(5)])
    also have "\<dots> = (if same_page ?p va \<and> d = root h then None else tr h1 d va)"
      using unmap_page_tr [OF h1(2) pd u d1 va] unfolding sees_user [OF pg [OF kN]] h1(3) .
    also have "\<dots> = (if d = root h \<and> (\<exists>j<Suc k. same_page (page_at address j) va) then None else tr h d va)"
      using h1(6) [rule_format, OF d va] by (auto simp: less_Suc_eq)
    finally show ?thesis .
  qed
  have "undo_pages 4096 address (Suc k) h = Some h3" using h1(1) phys u h3(1) by simp
  then show ?case using h3(2-4) ok2(2,3) d3 t3 by auto
qed

lemma switch_ok:
  assumes "vm_ok h" "r \<in> set (roots h)"
  shows "vm_ok (h\<lparr>cr3 := r\<rparr>)"
proof -
  have "owned (h\<lparr>cr3 := r\<rparr>) f = owned h f" "self_mapped (h\<lparr>cr3 := r\<rparr>) f = self_mapped h f" "maps (h\<lparr>cr3 := r\<rparr>) f i = maps h f i" for f i
    by (simp_all add: owned_def self_mapped_def maps_def)
  then have "roots_ok (h\<lparr>cr3 := r\<rparr>) = (r \<in> set (roots h) \<and> roots_ok h)" if "cr3 h \<in> set (roots h)"
    using that by (auto simp: roots_ok_def)
  moreover have "tables_ok (h\<lparr>cr3 := r\<rparr>) = tables_ok h" by (simp add: tables_ok_def maps_def owned_def)
  moreover have "tables_inj (h\<lparr>cr3 := r\<rparr>) = tables_inj h" by (simp add: tables_inj_def maps_def)
  moreover have "kernel_shared (h\<lparr>cr3 := r\<rparr>) = kernel_shared h" by (simp add: kernel_shared_def)
  moreover have "cr3 h \<in> set (roots h)" using assms(1) by (simp add: vm_ok_def roots_ok_def)
  ultimately show ?thesis using assms by (simp add: vm_ok_def)
qed

lemma switch_simps [simp]:
  "tr (h\<lparr>cr3 := r\<rparr>) d va = tr h d va" "data_frame (h\<lparr>cr3 := r\<rparr>) f = data_frame h f"
proof -
  show "tr (h\<lparr>cr3 := r\<rparr>) d va = tr h d va" by (simp add: tr_def)
  have "tabs (h\<lparr>cr3 := r\<rparr>) = tabs h" by (rule tabs_cong) simp_all
  then show "data_frame (h\<lparr>cr3 := r\<rparr>) f = data_frame h f" by (simp add: data_frame_def owned_def)
qed

subsection \<open>Fixed mappings\<close>

definition fixed_result :: "u32 \<Rightarrow> u32 \<Rightarrow> u32 \<Rightarrow> nat \<Rightarrow> hal \<Rightarrow> hal \<Rightarrow> bool" where
  "fixed_result address e fl d0 h h' =
     ((\<forall>x. address \<le> x \<and> x < e \<longrightarrow>
         (\<exists>phys. \<not> data_frame h (frame_no phys) \<and> data_frame h' (frame_no phys) \<and> (\<forall>i<1024. mem h' (frame_no phys) i = 0) \<and>
            tr h d0 x = None \<and> tr h' d0 x = Some (set_frame phys (translate_flags fl)))) \<and>
      (\<forall>d\<in>dir_frames h. \<forall>va. pd_index va < TEMP_PD_SLOT \<longrightarrow> \<not> (d = d0 \<and> address \<le> va \<and> va < e) \<longrightarrow> tr h' d va = tr h d va))"

lemma run_fixed:
  assumes b: "unat address + N * 4096 \<le> 3221225472" "unat address mod 4096 = 0" and e: "unat e = unat address + N * 4096"
    and r: "run_result address fl 0 N F h h'"
  shows "fixed_result address e fl (root h) h h'"
proof -
  note pp = page_at_props [OF b]
  have cover: "\<exists>j\<in>{0..<N}. same_page (page_at address j) x" if x: "address \<le> x" "x < e" for x
  proof -
    let ?j = "(unat x - unat address) div 4096"
    have x': "unat address \<le> unat x" "unat x < unat address + N * 4096" using x e by (simp_all add: word_le_nat_alt word_less_nat_alt)
    have "unat x - unat address < N * 4096" using x' by linarith
    then have j: "?j < N" by (simp add: div_less_iff_less_mult)
    have m: "unat x - unat address = ?j * 4096 + (unat x - unat address) mod 4096" by (rule div_mult_mod_eq [symmetric])
    have l: "(unat x - unat address) mod 4096 < 4096" by (rule mod_less_divisor) simp
    have "unat address + ?j * 4096 \<le> unat x" using m x'(1) by linarith
    moreover have "unat x < unat address + (?j + 1) * 4096" using m l x'(1) by (simp add: distrib_right)
    ultimately show ?thesis using pp(4) [OF j, of x] j by (intro bexI [of _ ?j]) simp_all
  qed
  have inside: "address \<le> x \<and> x < e" if j: "j \<in> {0..<N}" "same_page (page_at address j) x" for j x
  proof -
    have "j < N" using j(1) by simp
    from pp(4) [OF this, of x] j(2) have u: "unat address + j * 4096 \<le> unat x" "unat x < unat address + (j + 1) * 4096" by simp_all
    have "(j + 1) * 4096 \<le> N * 4096" using j(1) by (intro mult_le_mono1) simp
    with u e show ?thesis by (auto simp: word_le_nat_alt word_less_nat_alt)
  qed
  show ?thesis
    unfolding fixed_result_def
  proof (intro conjI allI impI ballI)
    fix x assume "address \<le> x \<and> x < e"
    then obtain j where j: "j \<in> {0..<N}" "same_page (page_at address j) x" using cover by blast
    then have "page_filled h h' (page_at address j) (F j) fl" using r unfolding run_result_def by blast
    then show "\<exists>phys. \<not> data_frame h (frame_no phys) \<and> data_frame h' (frame_no phys) \<and> (\<forall>i<1024. mem h' (frame_no phys) i = 0) \<and>
            tr h (root h) x = None \<and> tr h' (root h) x = Some (set_frame phys (translate_flags fl))"
      unfolding page_filled_def tr_same_page [OF j(2)] by blast
  next
    fix d va assume "d \<in> dir_frames h" "pd_index va < TEMP_PD_SLOT" "\<not> (d = root h \<and> address \<le> va \<and> va < e)"
    then show "tr h' d va = tr h d va" using r inside unfolding run_result_def by blast
  qed
qed

lemma fixed_pages:
  assumes ok: "vm_ok h" and b: "unat address + N * 4096 \<le> 3221225472" "unat address mod 4096 = 0"
    and root: "tr_root \<in> set (roots h)" and e: "unat e = unat address + N * 4096"
  shows "\<exists>err k h1 h2. place_pages 4096 address fl N 0 (HAL_VMM_SwitchAddressSpace tr_root h) = Some (err, k, h1) \<and>
    (if k \<noteq> N then undo_pages 4096 address k h1 else Some h1) = Some h2 \<and>
    vm_ok (HAL_VMM_SwitchAddressSpace (cr3 h) h2) \<and> roots h2 = roots h \<and> (k = N \<longrightarrow> err = Success) \<and> (k \<noteq> N \<longrightarrow> err \<noteq> Success) \<and>
    (if k = N then fixed_result address e fl (frame_no tr_root) h (HAL_VMM_SwitchAddressSpace (cr3 h) h2)
     else \<forall>d\<in>dir_frames h. \<forall>va. pd_index va < TEMP_PD_SLOT \<longrightarrow> tr (HAL_VMM_SwitchAddressSpace (cr3 h) h2) d va = tr h d va)"
proof -
  let ?s = "h\<lparr>cr3 := tr_root\<rparr>"
  note sw = HAL_VMM_SwitchAddressSpace_def
  note pp = page_at_props [OF b]
  have oks: "vm_ok ?s" by (rule switch_ok [OF ok root])
  have ds: "i = j" if "i < N" "j < N" "same_page (page_at address i) (page_at address j)" for i j
    using pp(3) [OF that(2,1,3)] .
  from place_pages_spec [OF pp(1) ds oks, where k = 0 and n = N and fl = fl] obtain err k h1 F where p: "place_pages 4096 address fl N 0 ?s = Some (err, k, h1)"
    "if err = Success then k = N else k < N" "run_result address fl 0 k F ?s h1" by auto
  have pr: "preserves ?s h1" using p(3) by (simp add: run_result_def)
  then have c1: "vm_ok h1" "cr3 h1 = tr_root" "roots h1 = roots h" by (simp_all add: preserves_def)
  have c0: "cr3 h \<in> set (roots h)" using ok by (simp add: vm_ok_def roots_ok_def)
  show ?thesis
  proof (cases "k = N")
    case True
    then have "err = Success" using p(2) by (auto split: if_splits)
    have "fixed_result address e fl (frame_no tr_root) h (HAL_VMM_SwitchAddressSpace (cr3 h) h1)"
      using run_fixed [OF b e p(3) [unfolded True]] by (simp add: fixed_result_def sw)
    moreover have "vm_ok (HAL_VMM_SwitchAddressSpace (cr3 h) h1)" unfolding sw by (rule switch_ok [OF c1(1)]) (use c0 c1 in simp)
    ultimately show ?thesis using p(1) True \<open>err = Success\<close> c1(3) by (auto simp: sw)
  next
    case False
    then have kN: "k \<le> N" "err \<noteq> Success" using p(2) by (auto split: if_splits)
    have inj: "inj_on (\<lambda>j. frame_no (F j)) {0..<k}" using p(3) by (simp add: run_result_def)
    have "\<forall>j\<in>{0..<k}. data_frame h1 (frame_no (F j)) \<and> get_frame (F j) = F j \<and>
       tr h1 (root h1) (page_at address j) = Some (set_frame (F j) (translate_flags fl))"
      using p(3) c1(2) unfolding run_result_def page_filled_def by simp
    from undo_pages_spec [OF pp(1,2) ds c1(1) kN(1) inj this le_refl] obtain h2 where h2: "undo_pages 4096 address k h1 = Some h2"
      "vm_ok h2" "cr3 h2 = cr3 h1" "roots h2 = roots h1"
      "\<forall>d\<in>dir_frames h1. \<forall>va. pd_index va < TEMP_PD_SLOT \<longrightarrow>
       tr h2 d va = (if d = root h1 \<and> (\<exists>j<k. same_page (page_at address j) va) then None else tr h1 d va)" by auto
    have t: "tr h2 d va = tr h d va" if d: "d \<in> dir_frames h" and va: "pd_index va < TEMP_PD_SLOT" for d va
    proof (cases "d = root h1 \<and> (\<exists>j<k. same_page (page_at address j) va)")
      case True
      then obtain j where j: "j < k" "same_page (page_at address j) va" by blast
      then have "tr ?s (root ?s) (page_at address j) = None" using p(3) unfolding run_result_def page_filled_def by auto
      then have "tr h d va = None" using tr_same_page [OF j(2)] True c1(2) by simp
      moreover have d1: "d \<in> dir_frames h1" using d c1(3) by simp
      ultimately show ?thesis using h2(5) [rule_format, OF d1 va] True by simp
    next
      case False
      have d1: "d \<in> dir_frames h1" using d c1(3) by simp
      have "tr h2 d va = tr h1 d va" using h2(5) [rule_format, OF d1 va] False by simp
      also have "\<dots> = tr ?s d va"
      proof -
        have "\<forall>d\<in>dir_frames ?s. \<forall>va. pd_index va < TEMP_PD_SLOT \<longrightarrow>
         \<not> (d = root ?s \<and> (\<exists>j\<in>{0..<k}. same_page (page_at address j) va)) \<longrightarrow> tr h1 d va = tr ?s d va"
          using p(3) unfolding run_result_def by blast
        moreover have "d \<in> dir_frames ?s" using d by simp
        moreover have "\<not> (d = root ?s \<and> (\<exists>j\<in>{0..<k}. same_page (page_at address j) va))" using False c1(2) by auto
        ultimately show ?thesis using va by blast
      qed
      finally show ?thesis by simp
    qed
    have "vm_ok (HAL_VMM_SwitchAddressSpace (cr3 h) h2)" unfolding sw by (rule switch_ok [OF h2(2)]) (use c0 c1 h2(4) in simp)
    then show ?thesis using p(1) False kN(2) h2(1,4) c1(3) t by (auto simp: sw)
  qed
qed


lemma demo_hal_map_fixed:
  "as_ok demo_as" "translation_root demo_as \<in> set (roots demo_hal)" "limit demo_as \<le> 0xC0000000" "(None :: KernelError option) \<noteq> Some Success"
  by (simp_all add: as_ok_def demo_as_def demo_hal_def)


end
