(* ===== verification/Page_Faults.thy ===== *)
theory Page_Faults
  imports Vm_Correct
begin

text \<open>
  Demand paging: what \<open>KE_VMM_HandlePagefault\<close> of \<open>vmm.cpp\<close> promises about the descriptor it
  consults, the frame it takes and the translation it installs.
\<close>

lemma drop_align_down:
  assumes "12 \<le> n"
  shows "drop_bit n (align_down page_size va) = drop_bit n (va :: u32)"
proof (rule bit_word_eqI)
  fix i
  have m: "(page_size - 1 :: u32) = mask 12" by (simp add: mask_eq_exp_minus_1)
  show "bit (drop_bit n (align_down page_size va)) i = bit (drop_bit n va) i"
    using assms bit_imp_le_length [of va "n + i"] unfolding align_down_def m by (auto simp: bit_simps)
qed

lemma align_down_page: "pd_index (align_down page_size va) = pd_index va" "pt_index (align_down page_size va) = pt_index va"
  by (simp_all add: pd_index_def pt_index_def drop_align_down)

lemma sees_align_down: "sees h (align_down page_size va) d x = sees h va d x"
  by (simp add: sees_def same_page_def align_down_page)

lemma tr_align_down: "tr h d (align_down page_size va) = tr h d va"
  by (rule tr_same_page) (simp add: same_page_def align_down_page)

text \<open>The access the fault reports is one the descriptor allows, and anonymous memory backs it.\<close>

definition fault_space :: "AddressSpace option \<Rightarrow> PageFaultInfo \<Rightarrow> kvm \<Rightarrow> AddressSpace option" where
  "fault_space owner info s = (if pf_user info then owner else Some (kernel_as s))"

definition permits :: "VAD \<Rightarrow> PageFaultInfo \<Rightarrow> bool" where
  "permits v info \<longleftrightarrow> vad_key_eq (fault_addr info) v \<and>
     (pf_write info \<longrightarrow> has_flag (vflags v) P_WRITE) \<and> (pf_exec info \<longrightarrow> has_flag (vflags v) P_EXEC) \<and>
     (pf_user info \<longrightarrow> has_flag (vflags v) P_USER)"

definition demand_zero :: "VAD \<Rightarrow> bool" where
  "demand_zero v \<longleftrightarrow> (case backing v of None \<Rightarrow> True | Some b \<Rightarrow> backing_kind b = Anonymous)"

definition paged_in :: "u32 \<Rightarrow> u32 \<Rightarrow> u32 \<Rightarrow> hal \<Rightarrow> hal \<Rightarrow> bool" where
  "paged_in va flags phys h h' =
     (vm_ok h' \<and> cr3 h' = cr3 h \<and> roots h' = roots h \<and> tr h (root h) va = None \<and>
      \<not> data_frame h (frame_no phys) \<and> data_frame h' (frame_no phys) \<and> mem h' (frame_no phys) = mem h (frame_no phys) \<and>
      (\<forall>g. data_frame h g \<longrightarrow> data_frame h' g \<and> mem h' g = mem h g) \<and>
      (\<forall>d\<in>dir_frames h. \<forall>va'. pd_index va' < TEMP_PD_SLOT \<longrightarrow>
         tr h' d va' = (if sees h va d va' then Some (set_frame phys (translate_flags flags)) else tr h d va')))"

lemma page_in:
  assumes ok: "vm_ok h" and pd: "pd_index va < TEMP_PD_SLOT"
  obtains (none) "HAL_PMM_AllocateFrames 1 (pm h) = Some (0, pm h)" "\<forall>f < max_frames_of (pm h). used (pm h) f"
  | (failed) a p h' where "HAL_PMM_AllocateFrames 1 (pm h) = Some (a, p)" "a \<noteq> 0"
      "HAL_VMM_MapPage (align_down page_size va) a flags (h\<lparr>pm := p\<rparr>) = Some (False, h')"
      "tr h (root h) va \<noteq> None \<or> (\<forall>f < max_frames_of (pm h). used (pm h) f \<or> f = frame_no a)"
      "\<forall>x. pd_index x < TEMP_PD_SLOT \<longrightarrow> tr h' (root h') x = tr h (root h) x"
  | (mapped) a p h' where "HAL_PMM_AllocateFrames 1 (pm h) = Some (a, p)" "a \<noteq> 0"
      "HAL_VMM_MapPage (align_down page_size va) a flags (h\<lparr>pm := p\<rparr>) = Some (True, h')" "paged_in va flags a h h'"
proof (rule alloc_one [OF ok])
  assume "HAL_PMM_AllocateFrames 1 (pm h) = Some (0, pm h)" "\<forall>f < max_frames_of (pm h). used (pm h) f"
  then show ?thesis by (rule none)
next
  fix a p assume a: "HAL_PMM_AllocateFrames 1 (pm h) = Some (a, p)" "a \<noteq> 0" and
    pp: "pmm_ok p" "max_frames_of p = max_frames_of (pm h)" "0 < frame_no a" "frame_no a < max_frames_of (pm h)"
    "\<not> used (pm h) (frame_no a)" "\<forall>g. used p g = (used (pm h) g \<or> g = frame_no a)"
  then have fr: "fresh h a p" by (simp add: fresh_def)
  let ?h = "h\<lparr>pm := p\<rparr>" and ?page = "align_down page_size va"
  note ad = alloc_data [OF ok fr]
  have ok1: "vm_ok ?h" using ad(1) by (simp add: keeps_def)
  have pd1: "pd_index ?page < TEMP_PD_SLOT" using pd by (simp add: align_down_page)
  from map_page_result [OF ok1 pd1, of a flags] obtain b h' where m: "HAL_VMM_MapPage ?page a flags ?h = Some (b, h')"
    and r: "map_result ?page a flags ?h b h'" by blast
  have k: "keeps ?h h'" by (rule keeps_map [OF ok1 pd1 m])
  show ?thesis
  proof (cases b)
    case False
    have "tr ?h (root ?h) ?page \<noteq> None \<or> (\<forall>f < max_frames_of (pm ?h). used (pm ?h) f)"
      using r False unfolding map_result_def by (simp only: if_False)
    then have "tr h (root h) va \<noteq> None \<or> (\<forall>f < max_frames_of (pm h). used (pm h) f \<or> f = frame_no a)"
      using pp(2,6) ad(4) tr_align_down [of h] by auto
    moreover have "\<forall>x. pd_index x < TEMP_PD_SLOT \<longrightarrow> tr h' (root h') x = tr h (root h) x"
    proof (intro allI impI)
      fix x assume x: "pd_index x < TEMP_PD_SLOT"
      have c: "cr3 h' = cr3 h" "root ?h \<in> dir_frames ?h" using r vm_okD(2) [OF ok1] unfolding map_result_def by simp_all
      have "\<forall>d\<in>dir_frames ?h. \<forall>va'. pd_index va' < TEMP_PD_SLOT \<longrightarrow> tr h' d va' = tr ?h d va'"
        using r False unfolding map_result_def by presburger
      from this [rule_format, OF c(2) x] show "tr h' (root h') x = tr h (root h) x" using c(1) ad(4) by simp
    qed
    ultimately show ?thesis using failed [OF a] m False by simp
  next
    case True
    note t = map_page_tr [OF ok1 pd1 m]
    have none: "tr h (root h) va = None" using t(1) [OF True] ad(4) tr_align_down [of h] by simp
    have new: "tr h' d x = (if sees h va d x then Some (set_frame a (translate_flags flags)) else tr h d x)"
      if "d \<in> dir_frames h" "pd_index x < TEMP_PD_SLOT" for d x
    proof -
      have "d \<in> dir_frames ?h" using that(1) by simp
      then have "tr h' d x = (if sees ?h ?page d x then Some (set_frame a (translate_flags flags)) else tr ?h d x)"
        using t(2) [OF True _ that(2)] by simp
      then show ?thesis using ad(4) sees_cong [of h ?h ?page d x] sees_align_down [of h va d x] by simp
    qed
    have df: "data_frame h' g \<and> mem h' g = mem h g" if "data_frame ?h g" for g using k that by (simp add: keeps_def)
    have up: "data_frame ?h g" if "data_frame h g" for g using ad(1) that by (simp add: keeps_def)
    have "paged_in va flags a h h'"
      unfolding paged_in_def
    proof (intro conjI allI ballI impI)
      show "vm_ok h'" "cr3 h' = cr3 h" "roots h' = roots h" using k by (simp_all add: keeps_def)
      show "tr h (root h) va = None" by (rule none)
      show "\<not> data_frame h (frame_no a)" by (rule ad(3))
      show "data_frame h' (frame_no a)" "mem h' (frame_no a) = mem h (frame_no a)" using df [OF ad(2)] by simp_all
      show "data_frame h' g" "mem h' g = mem h g" if "data_frame h g" for g using df [OF up [OF that]] by simp_all
      show "tr h' d x = (if sees h va d x then Some (set_frame a (translate_flags flags)) else tr h d x)"
        if "d \<in> dir_frames h" "pd_index x < TEMP_PD_SLOT" for d x by (rule new [OF that])
    qed
    with mapped [OF a] m True show ?thesis by simp
  qed
qed

lemma handle_found:
  assumes "fault_space owner info s = Some as" "vad_find (fault_addr info) as = Some (node, cs)"
  shows "if permits (item node) info \<and> demand_zero (item node)
    then KE_VMM_HandlePagefault owner info s = (do {
           (phys, p) \<leftarrow> HAL_PMM_AllocateFrames 1 (pm (hw s));
           if phys = 0 then Some (Fatal ''out of physical memory'')
           else do {
             (ok, h1) \<leftarrow> HAL_VMM_MapPage (align_down (g_page_size s) (fault_addr info)) phys (vflags (item node)) ((hw s)\<lparr>pm := p\<rparr>);
             Some (if ok then Resolved (s\<lparr>hw := h1\<rparr>) else Fatal ''HAL_VMM_MapPage failed'') } })
    else \<exists>m. KE_VMM_HandlePagefault owner info s = Some (Fatal m)"
  using assms vad_find_sound [OF assms(2)]
  by (auto simp: KE_VMM_HandlePagefault_def fault_space_def permits_def demand_zero_def Let_def split: option.splits BackingKind.splits)


definition demo_kvm :: kvm where
  "demo_kvm = \<lparr>hw = demo_hal, g_page_size = page_size, kernel_as = demo_as1\<rparr>"

definition demo_fault :: PageFaultInfo where
  "demo_fault = \<lparr>fault_addr = 0x401234, pf_present = False, pf_write = True, pf_user = False, pf_exec = False, pf_ip = 0x100000\<rparr>"

lemma demo_two_free: "\<not> (\<exists>g. \<forall>f < max_frames_of (pm demo_hal). used (pm demo_hal) f \<or> f = g)"
proof
  assume "\<exists>g. \<forall>f < max_frames_of (pm demo_hal). used (pm demo_hal) f \<or> f = g"
  then obtain g where g: "\<forall>f < max_frames_of demo_pmm_free. used demo_pmm_free f \<or> f = g" by (auto simp: demo_hal_def)
  have "4096 < max_frames_of demo_pmm_free" "4097 < max_frames_of demo_pmm_free" using demo_pmm_free_ok(3) by simp_all
  moreover have "\<not> used demo_pmm_free 4096" "\<not> used demo_pmm_free 4097" using demo_pmm_free_run by (simp_all add: free_run_def)
  ultimately have "(4096 :: nat) = g" "(4097 :: nat) = g" using g by blast+
  then show False by simp
qed


end
