(* ===== verification/Kernel_Heap.thy ===== *)
theory Kernel_Heap
  imports Slab_Correct Page_Faults
begin

text \<open>
  The kernel heap as its callers see it: \<open>KE_Malloc\<close> of an object that fits a cache, \<open>KE_Free\<close> of
  it, the layout of a slab and the initial caches. The frames and page tables behind a new slab
  are those of the page-table model, so the theorems say when growing the heap works and
  what happens when it does not.
\<close>

text \<open>The state in which the heap can take one more slab: the next page of the kernel's address
  space is free and lies below the recursive windows.\<close>

definition can_grow :: "heap \<Rightarrow> bool" where
  "can_grow h \<longleftrightarrow> (let base = current_base (kernel_as (vm h)) in
     vm_ok (hw (vm h)) \<and> unat base mod 4096 = 0 \<and> unat base + 8192 \<le> 0xFF800000 \<and>
     tr (hw (vm h)) (root (hw (vm h))) (base + 4096) = None \<and>
     (\<forall>c\<in>set (caches h). slab_size (layout c) = 4096 \<and> control_offset (layout c) < 4096))"

lemma page_aligned:
  assumes "unat (va :: u32) mod 4096 = 0"
  shows "align_down page_size va = va"
proof -
  have m: "(page_size - 1 :: u32) = mask 12" by (simp add: mask_eq_exp_minus_1)
  have "unat (take_bit 12 va) = 0" using assms by (simp only: unsigned_take_bit_eq) (simp add: take_bit_eq_mod)
  then have "take_bit 12 va = 0" by (simp only: unat_eq_0)
  moreover have "bit (take_bit 12 va) n = bit va n" if "n < 12" for n using that by (simp add: bit_take_bit_iff del: take_bit_eq_0_iff)
  ultimately have "\<not> bit va n" if "n < 12" for n using that by (simp only: bit_0_eq bot_apply) simp
  then show ?thesis unfolding align_down_def m
    by (intro bit_word_eqI) (auto simp: bit_and_iff bit_not_iff bit_mask_iff)
qed

lemma next_page:
  assumes "unat base mod 4096 = 0" "unat base + 8192 \<le> 0xFF800000" "off < 4096"
  shows "unat (base + 4096) = unat base + 4096" "pd_index (base + 4096) < TEMP_PD_SLOT"
    "same_page (base + 4096) (base + 4096 + off)" "align_down page_size (base + 4096) = (base + 4096 :: u32)"
proof -
  show u: "unat (base + 4096) = unat base + 4096" using assms(2) by (simp add: unat_word_ariths)
  then show "pd_index (base + 4096) < TEMP_PD_SLOT" using assms(2) by (simp add: nat_pd_index)
  have o: "unat off < 4096" using assms(3) by (simp add: word_less_nat_alt)
  have "unat (base + 4096 + off) = unat base + 4096 + unat off" using u o assms(2) by (simp add: unat_word_ariths)
  moreover obtain q where "unat base = 4096 * q" using assms(1) by auto
  ultimately show "same_page (base + 4096) (base + 4096 + off)" unfolding same_page_iff u using o by simp
  show "align_down page_size (base + 4096) = (base + 4096 :: u32)" by (rule page_aligned) (simp add: u assms(1))
qed

lemma paged_in_tr:
  assumes "paged_in va flags phys h h'" "d \<in> dir_frames h" "pd_index x < TEMP_PD_SLOT"
  shows "tr h' d x = (if sees h va d x then Some (set_frame phys (translate_flags flags)) else tr h d x)"
  using assms unfolding paged_in_def by blast

text \<open>Growing a cache by one slab: no frame left, a fault because the frame was the last one and the
  page could not be mapped, or a new empty slab.\<close>

lemma allocate_slab_cases:
  assumes g: "can_grow h" and k: "k < length (caches h)" and lk: "l_page_size (layout (caches h ! k)) = slab_size (layout (caches h ! k))"
  obtains (none) "allocate_slab k h = Some (None, h)" "\<forall>f < max_frames_of (pm (hw (vm h))). used (pm (hw (vm h))) f"
  | (fault) a where "allocate_slab k h = None" "\<forall>f < max_frames_of (pm (hw (vm h))). used (pm (hw (vm h))) f \<or> f = a"
  | (new) h1 where "allocate_slab k h = (let c = caches h ! k; l = layout c; v = vm h; virt = current_base (kernel_as v) + 4096 in
       Some (Some virt,
         h\<lparr>slabs := (slabs h)(virt := Slab_new l virt (slab_size l) k),
           registry := AvlTree_insert slab_less (virt, slab_size l) (registry h),
           caches := (caches h)[k := c\<lparr>total_allocated := total_allocated c + slab_size l\<rparr>],
           vm := v\<lparr>hw := h1, kernel_as := (kernel_as v)\<lparr>current_base := virt + slab_size l\<rparr>\<rparr>\<rparr>))" "vm_ok h1"
proof -
  let ?c = "caches h ! k" and ?v = "vm h" and ?base = "current_base (kernel_as (vm h))"
  let ?hw = "hw ?v" and ?fl = "with_flag P_READ P_WRITE"
  have G: "vm_ok ?hw" "unat ?base mod 4096 = 0" "unat ?base + 8192 \<le> 0xFF800000" "tr ?hw (root ?hw) (?base + 4096) = None"
    "slab_size (layout ?c) = 4096" "control_offset (layout ?c) < 4096"
    using g k unfolding can_grow_def Let_def by simp_all
  note n = next_page [OF G(2,3,6)]
  have e: "allocate_slab k h = (do {
        (phys, p) \<leftarrow> HAL_PMM_AllocateFrames 1 (pm ?hw);
        if phys = 0 then Some (None, h\<lparr>vm := ?v\<lparr>hw := ?hw\<lparr>pm := p\<rparr>\<rparr>\<rparr>)
        else do {
          (_, h1) \<leftarrow> HAL_VMM_MapPage (?base + 4096) phys ?fl (?hw\<lparr>pm := p\<rparr>);
          _ \<leftarrow> mmu_frame h1 (?base + 4096 + control_offset (layout ?c));
          (let virt = ?base + 4096; l = layout ?c in
          Some (Some virt,
            h\<lparr>slabs := (slabs h)(virt := Slab_new l virt (slab_size l) k),
              registry := AvlTree_insert slab_less (virt, slab_size l) (registry h),
              caches := (caches h)[k := ?c\<lparr>total_allocated := total_allocated ?c + slab_size l\<rparr>],
              vm := ?v\<lparr>hw := h1, kernel_as := (kernel_as ?v)\<lparr>current_base := virt + slab_size l\<rparr>\<rparr>\<rparr>)) } })"
    unfolding allocate_slab_def Let_def lk G(5) by (simp add: case_prod_unfold cong: if_cong)
  show ?thesis
  proof (rule page_in [OF G(1) n(2), where flags = ?fl], goal_cases none failed mapped)
    case none
    then show ?thesis using that(1) by (simp add: e)
  next
    case (failed a p h1)
    have "tr h1 (root h1) (?base + 4096 + control_offset (layout ?c)) = None"
    proof -
      have "pd_index (?base + 4096 + control_offset (layout ?c)) < TEMP_PD_SLOT" using n(2,3) by (simp add: same_page_def)
      with failed(5) have "tr h1 (root h1) (?base + 4096 + control_offset (layout ?c)) = tr ?hw (root ?hw) (?base + 4096 + control_offset (layout ?c))" by blast
      then show ?thesis using tr_same_page [OF n(3)] G(4) by simp
    qed
    then have "allocate_slab k h = None" using failed(1-3) unfolding e n(4) by (simp add: mmu_frame_tr)
    then show ?thesis using that(2) [of "frame_no a"] failed(4) G(4) by simp
  next
    case (mapped a p h1)
    have "vm_ok h1" "cr3 h1 = cr3 ?hw" using mapped(4) by (simp_all add: paged_in_def)
    moreover have "mmu_frame h1 (?base + 4096 + control_offset (layout ?c)) \<noteq> None"
    proof -
      have "pd_index (?base + 4096 + control_offset (layout ?c)) < TEMP_PD_SLOT" using n(2,3) by (simp add: same_page_def)
      moreover have "sees ?hw (?base + 4096) (root ?hw) (?base + 4096 + control_offset (layout ?c))"
        using n(3) vm_okD(2) [OF G(1)] by (simp add: sees_def shared_dirs_def)
      ultimately have "tr h1 (root ?hw) (?base + 4096 + control_offset (layout ?c)) \<noteq> None"
        using paged_in_tr [OF mapped(4) vm_okD(2) [OF G(1)]] by simp
      then show ?thesis using \<open>cr3 h1 = cr3 ?hw\<close> by (auto simp: mmu_frame_tr)
    qed
    ultimately show ?thesis using that(3) [of h1] mapped(1-3) unfolding e n(4) by (auto simp: Let_def)
  qed
qed

text \<open>The slab an allocation takes its object from.\<close>

lemma available_cases:
  assumes ok: "heap_ok h" and g: "can_grow h" and k: "k < length (caches h)"
  obtains (none) "get_available_slab k h = Some (None, h)" "\<forall>f < max_frames_of (pm (hw (vm h))). used (pm (hw (vm h))) f"
  | (fault) a where "get_available_slab k h = None" "\<forall>f < max_frames_of (pm (hw (vm h))). used (pm (hw (vm h))) f \<or> f = a"
  | (slab) s h1 where "get_available_slab k h = Some (Some s, h1)" "heap_ok h1" "live h1 = live h" "same_objects h h1" "vm_ok (hw (vm h1))"
      "s \<in> bases h1" "s_cache (slabs h1 s) = k" "\<not> Slab_full (slabs h1 s)" "layout (caches h1 ! k) = layout (caches h ! k)"
proof -
  let ?c = "caches h ! k"
  have lk: "layout_ok (layout ?c)" "lists_ok h k" using ok k by (simp_all add: heap_ok_def)
  note D = lists_okD [OF lk(2)]
  have so: "same_objects h h" by (simp add: same_objects_def)
  have hk: "vm_ok (hw (vm h))" "slab_size (layout ?c) = 4096" using g k by (simp_all add: can_grow_def Let_def)
  show ?thesis
  proof (cases "partial_slabs ?c")
    case (Cons s ss)
    then have "s \<in> bases h" "s_cache (slabs h s) = k" "\<not> Slab_full (slabs h s)" using D(5) [of s] by simp_all
    with slab [OF _ ok refl so hk(1)] Cons show ?thesis by (simp add: get_available_slab_def)
  next
    case p: Nil
    show ?thesis
    proof (cases "free_slabs ?c")
      case (Cons s ss)
      then have s: "s \<in> bases h" "s_cache (slabs h s) = k" "Slab_empty (slabs h s)" using D(4) [of s] by simp_all
      moreover have "\<not> Slab_full (slabs h s)" using empty_not_full [OF _ _ s(3)] heap_okD [OF ok s(1)] by blast
      ultimately show ?thesis using slab [OF _ ok refl so hk(1)] Cons p by (simp add: get_available_slab_def)
    next
      case f: Nil
      note e = get_available_slab_def [of k h, unfolded p f list.case]
      have ps: "l_page_size (layout ?c) = slab_size (layout ?c)" using lk(1) by (simp add: layout_ok_def)
      show ?thesis
      proof (rule allocate_slab_cases [OF g k ps], goal_cases none fault new)
        case none
        then show ?thesis using that(1) by (simp add: e)
      next
        case (fault a)
        then show ?thesis using that(2) by (simp add: e)
      next
        case (new hw1)
        let ?virt = "current_base (kernel_as (vm h)) + slab_size (layout ?c)"
        define c' where "c' = ?c\<lparr>total_allocated := total_allocated ?c + slab_size (layout ?c), free_slabs := free_slabs ?c @ [?virt]\<rparr>"
        define h1 where "h1 = h\<lparr>slabs := (slabs h)(?virt := Slab_new (layout ?c) ?virt (slab_size (layout ?c)) k),
           registry := AvlTree_insert slab_less (?virt, slab_size (layout ?c)) (registry h), caches := (caches h)[k := c'],
           vm := (vm h)\<lparr>hw := hw1, kernel_as := (kernel_as (vm h))\<lparr>current_base := ?virt + slab_size (layout ?c)\<rparr>\<rparr>\<rparr>"
        have run: "get_available_slab k h = Some (Some ?virt, h1)"
          unfolding e new(1) h1_def c'_def using k f by (simp add: Let_def hk(2))
        have space: "unat (current_base (kernel_as (vm h))) + unat (slab_size (layout ?c)) + unat (slab_size (layout ?c)) < 2 ^ 32"
          using g unfolding hk(2) by (simp add: can_grow_def Let_def)
        have c: "layout c' = layout ?c" "free_slabs c' = free_slabs ?c @ [?virt]" "partial_slabs c' = partial_slabs ?c" "full_slabs c' = full_slabs ?c"
          by (simp_all add: c'_def)
        have h1: "slabs h1 = (slabs h)(?virt := Slab_new (layout ?c) ?virt (slab_size (layout ?c)) k)"
          "registry h1 = AvlTree_insert slab_less (?virt, slab_size (layout ?c)) (registry h)" "caches h1 = (caches h)[k := c']"
          "current_base (kernel_as (vm h1)) = ?virt + slab_size (layout ?c)" by (simp_all add: h1_def)
        note G = grow_ok [OF ok k refl space refl c h1]
        show ?thesis using slab [OF run G(1,2,3) _ G(4,5,6)] new(2) k c(1) by (simp add: h1_def)
      qed
    qed
  qed
qed

lemma pick_cache_Some:
  "pick_cache sz cs j = Some k \<Longrightarrow> j \<le> k \<and> k - j < length cs \<and> sz \<le> object_size (layout (cs ! (k - j)))"
proof (induction cs arbitrary: j)
  case (Cons c cs)
  show ?case
  proof (cases "sz \<le> object_size (layout c)")
    case False
    with Cons.prems have "pick_cache sz cs (Suc j) = Some k" by simp
    from Cons.IH [OF this] have "Suc j \<le> k" "k - Suc j < length cs" "sz \<le> object_size (layout (cs ! (k - Suc j)))" by auto
    moreover then have "k - j = Suc (k - Suc j)" by simp
    ultimately show ?thesis by simp
  qed (use Cons.prems in simp)
qed simp

lemma pick_cache_exists: "c \<in> set cs \<Longrightarrow> sz \<le> object_size (layout c) \<Longrightarrow> \<exists>k. pick_cache sz cs j = Some k"
  by (induction cs arbitrary: j) auto

subsection \<open>Allocating and freeing\<close>

lemma object_nonzero:
  assumes "heap_ok h" "s \<in> bases h" "i < unat (layout_objects (slabs h s))"
  shows "object_at h (s, i) \<noteq> 0"
proof
  assume "object_at h (s, i) = 0"
  then have "unat s = 0" using object_address(1) [OF assms] by simp
  then have "s = 0" by (simp only: unat_eq_0)
  then show False using assms(1,2) by (auto simp: heap_ok_def registry_ok_def bases_def)
qed


lemma heap_malloc_ok:
  assumes "heap_ok h" "can_grow h" "sz \<noteq> 0" "\<exists>c\<in>set (caches h). sz \<le> object_size (layout c)"
  shows "case KE_Malloc create sz h of
      None \<Rightarrow> \<exists>g. \<forall>f < max_frames_of (pm (hw (vm h))). used (pm (hw (vm h))) f \<or> f = g
    | Some (p, h') \<Rightarrow> p = 0 \<and> h' = h \<and> (\<forall>f < max_frames_of (pm (hw (vm h))). used (pm (hw (vm h))) f) \<or>
        heap_ok h' \<and> vm_ok (hw (vm h')) \<and> same_objects h h' \<and>
        (\<exists>s i. (s, i) \<notin> live h \<and> live h' = insert (s, i) (live h) \<and> p = object_at h' (s, i) \<and> sz \<le> size_at h' s)"
proof -
  from assms(4) pick_cache_exists obtain k where pc: "pick_cache sz (caches h) 0 = Some k" by blast
  from pick_cache_Some [OF this] have k: "k < length (caches h)" "sz \<le> object_size (layout (caches h ! k))" by simp_all
  have e: "KE_Malloc create sz h = Cache_allocate k h" using assms(3) pc by (simp add: KE_Malloc_def)
  show ?thesis
  proof (rule available_cases [OF assms(1,2) k(1)], goal_cases none fault slab)
    case none
    then show ?thesis by (simp add: e Cache_allocate_def)
  next
    case (fault a)
    then show ?thesis by (auto simp: e Cache_allocate_def)
  next
    case (slab s h1)
    from allocate_from_ok [OF slab(2,6,7,8)] obtain p h' i where a: "allocate_from k s h1 = (p, h')" "heap_ok h'" "(s, i) \<notin> live h1"
      "live h' = insert (s, i) (live h1)" "p = object_at h' (s, i)" "same_objects h1 h'" "vm h' = vm h1" "s \<in> bases h'"
      "size_at h' s = object_size (layout (caches h1 ! k))" .
    have "same_objects h h'" using slab(4) a(6) by (auto simp: same_objects_def)
    moreover have "KE_Malloc create sz h = Some (p, h')" using slab(1) a(1) by (simp add: e Cache_allocate_def)
    moreover have "(s, i) \<notin> live h \<and> live h' = insert (s, i) (live h) \<and> p = object_at h' (s, i) \<and> sz \<le> size_at h' s"
      using a slab(3,9) k(2) by simp
    moreover have "vm_ok (hw (vm h'))" using a(7) slab(5) by simp
    ultimately show ?thesis using a(2) by (simp only: option.case prod.case) blast
  qed
qed


text \<open>C20. Freeing. \<open>KE_Free\<close> of the address of a live object finds its slab in the registry, recovers
  its index, returns without a fault, and takes exactly that object out of the live ones; all other
  objects stay where they are and the heap stays consistent. Memory is not given back to the
  page tables.\<close>

theorem heap_free_spec:
  assumes "heap_ok h" "x \<in> live h"
  shows "\<exists>h'. KE_Free (object_at h x) h = Some h' \<and> heap_ok h' \<and> live h' = live h - {x} \<and> same_objects h h' \<and> vm h' = vm h"
proof -
  obtain s i where x: "x = (s, i)" by (cases x)
  then have l: "(s, i) \<in> live h" "s \<in> bases h" "i < unat (layout_objects (slabs h s))" using assms(2) by (simp_all add: live_def)
  note a = object_address [OF assms(1) l(2,3)]
  have "object_at h (s, i) \<noteq> 0" by (rule object_nonzero [OF assms(1) l(2,3)])
  then have "KE_Free (object_at h x) h = Cache_free (s_cache (slabs h s)) (object_at h (s, i)) s h" using a(4) by (simp add: KE_Free_def x)
  with Cache_free_ok [OF assms(1) l(1) refl] show ?thesis unfolding x by metis
qed

subsection \<open>The layout of a slab\<close>

text \<open>\<open>n\<close> objects of \<open>z\<close> bytes, the control block of \<open>a\<close> bytes on the next multiple of 8, and \<open>n\<close> list
  nodes of \<open>b\<close> bytes fit into \<open>p\<close> bytes.\<close>

definition fits :: "nat \<Rightarrow> nat \<Rightarrow> nat \<Rightarrow> nat \<Rightarrow> nat \<Rightarrow> bool" where
  "fits a b z p n \<longleftrightarrow> (n * z + 7) div 8 * 8 + a + n * b \<le> p"

lemma unat_and_not_7: "unat (x AND NOT 7 :: u32) = unat x div 8 * 8"
proof -
  have m: "(7 :: u32) = mask 3" by (simp add: mask_eq_exp_minus_1)
  have "x AND NOT 7 = push_bit 3 (drop_bit 3 x)" unfolding m
    by (intro bit_word_eqI) (auto simp: bit_simps)
  then have "x AND NOT 7 = drop_bit 3 x * 8" by (simp add: push_bit_eq_mult)
  moreover have d: "unat (drop_bit 3 x) = unat x div 8" by (simp only: unat_drop) simp
  moreover have "unat x div 8 * 8 < 2 ^ 32" using unat_less_2p32 [of x] by simp
  ultimately show ?thesis by (simp add: unat_word_ariths)
qed

lemma unat_control_at:
  assumes "unat n * unat z < 2 ^ 31"
  shows "unat (control_at n z) = (unat n * unat z + 7) div 8 * 8"
proof -
  have "unat (n * z + 7) = unat n * unat z + 7" using assms by (simp add: unat_word_ariths)
  then show ?thesis unfolding control_at_def unat_and_not_7 by simp
qed

lemma shrink_layout_spec:
  assumes "unat (objects l) * unat (object_size l) + unat sS + unat (objects l) * unat sT < 2 ^ 31"
    "control_offset l = control_at (objects l) (object_size l)"
  defines "l' \<equiv> shrink_layout sS sT l"
  defines "F \<equiv> fits (unat sS) (unat sT) (unat (object_size l)) (unat (slab_size l))"
  shows "l' = l\<lparr>objects := objects l', control_offset := control_at (objects l') (object_size l)\<rparr> \<and>
    unat (objects l') \<le> unat (objects l) \<and> (objects l' = 0 \<or> F (unat (objects l'))) \<and>
    (\<forall>m. unat (objects l') < m \<and> m \<le> unat (objects l) \<longrightarrow> \<not> F m)"
  using assms(1,2) unfolding l'_def F_def
proof (induction sS sT l rule: shrink_layout.induct)
  case (1 sS sT l)
  let ?F = "fits (unat sS) (unat sT) (unat (object_size l)) (unat (slab_size l))"
  have c: "unat (control_offset l) = (unat (objects l) * unat (object_size l) + 7) div 8 * 8"
    using unat_control_at [of "objects l" "object_size l"] 1(2,3) by simp
  have up: "(n + 7) div 8 * 8 \<le> n + (7 :: nat)" for n by (rule div_times_less_eq_dividend)
  have "unat (control_offset l) + unat sS + unat (objects l) * unat sT < 2 ^ 32"
    using up [of "unat (objects l) * unat (object_size l)"] 1(2) unfolding c by simp
  then have t: "control_offset l + sS + objects l * sT > slab_size l \<longleftrightarrow> \<not> ?F (unat (objects l))"
    unfolding fits_def c [symmetric] by (simp add: word_less_nat_alt unat_word_ariths not_le)
  show ?case
  proof (cases "objects l > 0 \<and> control_offset l + sS + objects l * sT > slab_size l")
    case False
    then have "shrink_layout sS sT l = l" by (subst shrink_layout.simps) (simp only: if_False)
    moreover have "l\<lparr>objects := objects l, control_offset := control_at (objects l) (object_size l)\<rparr> = l" using 1(3) by simp
    ultimately show ?thesis using False t by (auto simp: word_greater_zero_iff)
  next
    case True
    let ?l = "l\<lparr>objects := objects l - 1, control_offset := control_at (objects l - 1) (object_size l)\<rparr>"
    have u: "unat (objects l) = Suc (unat (objects l - 1))" using True by (simp add: unat_minus_one word_greater_zero_iff unat_gt_0)
    have b: "unat (objects ?l) * unat (object_size ?l) + unat sS + unat (objects ?l) * unat sT < 2 ^ 31"
      using 1(2) unfolding u by simp
    have e: "shrink_layout sS sT l = shrink_layout sS sT ?l" using True by (subst shrink_layout.simps) (simp only: simp_thms if_True)
    from 1(1) [OF True b] have IH: "shrink_layout sS sT ?l = ?l\<lparr>objects := objects (shrink_layout sS sT ?l),
        control_offset := control_at (objects (shrink_layout sS sT ?l)) (object_size l)\<rparr>"
      "unat (objects (shrink_layout sS sT ?l)) \<le> unat (objects l - 1)"
      "objects (shrink_layout sS sT ?l) = 0 \<or> ?F (unat (objects (shrink_layout sS sT ?l)))"
      "\<forall>m. unat (objects (shrink_layout sS sT ?l)) < m \<and> m \<le> unat (objects l - 1) \<longrightarrow> \<not> ?F m"
      by simp_all
    have "\<not> ?F m" if "unat (objects (shrink_layout sS sT ?l)) < m" "m \<le> unat (objects l)" for m
      using that IH(4) t True u by (cases "m = unat (objects l)") auto
    moreover have "shrink_layout sS sT ?l = l\<lparr>objects := objects (shrink_layout sS sT ?l),
        control_offset := control_at (objects (shrink_layout sS sT ?l)) (object_size l)\<rparr>" using IH(1) by simp
    ultimately show ?thesis unfolding e using IH(2,3) u by auto
  qed
qed

lemma calculate_layout_fits:
  assumes "unat sS < unat ps" "unat ps \<le> 2 ^ 24" "unat sT \<le> 2 ^ 24" "unat ((osz + al - 1) AND NOT (al - 1)) \<le> 2 ^ 24"
    "(osz + al - 1) AND NOT (al - 1) \<noteq> 0"
  shows "let l = calculate_layout sS sT osz al ps; z = unat (object_size l) in
    object_size l = (osz + al - 1) AND NOT (al - 1) \<and> slab_size l = ps \<and> l_page_size l = ps \<and> object_offset l = 0 \<and>
    unat (control_offset l) = (unat (objects l) * z + 7) div 8 * 8 \<and>
    (objects l = 0 \<or> unat (control_offset l) + unat sS + unat (objects l) * unat sT \<le> unat ps) \<and>
    (\<forall>m. fits (unat sS) (unat sT) z (unat ps) m \<longrightarrow> m \<le> unat (objects l))"
proof -
  let ?sz = "(osz + al - 1) AND NOT (al - 1)" and ?n = "(ps - sS) div (((osz + al - 1) AND NOT (al - 1)) + sT)"
  let ?l0 = "\<lparr>object_size = ?sz, object_offset = 0, objects = ?n, control_offset = control_at ?n ?sz, slab_size = ps, l_page_size = ps\<rparr>"
  define l where "l = shrink_layout sS sT ?l0"
  have z: "0 < unat ?sz" unfolding unat_gt_0 by (rule assms(5))
  have e: "calculate_layout sS sT osz al ps = l"
    using assms(1) unfolding calculate_layout_def Let_def l_def by (simp add: word_le_nat_alt)
  have d: "unat (?sz + sT) = unat ?sz + unat sT" using assms(3,4) by (simp add: unat_word_ariths)
  have n: "unat ?n = (unat ps - unat sS) div (unat ?sz + unat sT)"
    using assms(1) unfolding unat_div d by (simp add: unat_sub word_le_nat_alt)
  have nb: "unat ?n * (unat ?sz + unat sT) \<le> unat ps - unat sS" unfolding n by (rule div_times_less_eq_dividend)
  have b: "unat ?n * unat ?sz + unat sS + unat ?n * unat sT < 2 ^ 31" using nb assms(1,2) by (simp add: distrib_left)
  have "l = ?l0\<lparr>objects := objects l, control_offset := control_at (objects l) ?sz\<rparr> \<and>
    unat (objects l) \<le> unat ?n \<and> (objects l = 0 \<or> fits (unat sS) (unat sT) (unat ?sz) (unat ps) (unat (objects l))) \<and>
    (\<forall>m. unat (objects l) < m \<and> m \<le> unat ?n \<longrightarrow> \<not> fits (unat sS) (unat sT) (unat ?sz) (unat ps) m)"
    using shrink_layout_spec [of ?l0 sS sT] b unfolding l_def by simp
  then have s: "l = ?l0\<lparr>objects := objects l, control_offset := control_at (objects l) ?sz\<rparr>" "unat (objects l) \<le> unat ?n"
    "objects l = 0 \<or> fits (unat sS) (unat sT) (unat ?sz) (unat ps) (unat (objects l))"
    and mx: "\<And>m. unat (objects l) < m \<Longrightarrow> m \<le> unat ?n \<Longrightarrow> \<not> fits (unat sS) (unat sT) (unat ?sz) (unat ps) m" by blast+
  have f: "object_size l = ?sz" "slab_size l = ps" "l_page_size l = ps" "object_offset l = 0" "control_offset l = control_at (objects l) ?sz"
    by (subst s(1), simp)+
  have "unat (objects l) * unat ?sz \<le> unat ?n * unat ?sz" using s(2) by (rule mult_le_mono1)
  then have c: "unat (control_offset l) = (unat (objects l) * unat ?sz + 7) div 8 * 8"
    unfolding f(5) using b by (intro unat_control_at) linarith
  have "m \<le> unat (objects l)" if m: "fits (unat sS) (unat sT) (unat ?sz) (unat ps) m" for m
  proof (rule ccontr)
    assume "\<not> m \<le> unat (objects l)"
    moreover have "m * unat ?sz \<le> (m * unat ?sz + 7) div 8 * 8" by linarith
    then have "m * (unat ?sz + unat sT) \<le> unat ps - unat sS" using m unfolding fits_def distrib_left by linarith
    then have "m \<le> unat ?n" unfolding n using z by (simp add: less_eq_div_iff_mult_less_eq)
    ultimately show False using mx m by simp
  qed
  then show ?thesis unfolding e Let_def f(1) using f c s(3) by (simp add: fits_def)
qed

text \<open>The layout. For a page that can hold the control block, and sizes for which the arithmetic
  of the source stays far from 32 bits, \<open>calculate_layout\<close> puts the largest number of objects on
  the page with which the objects, the aligned control block behind them and one list node per
  object still fit; the parts do not overlap.\<close>

theorem calculate_layout_spec:
  assumes "unat sS < unat ps" "unat ps \<le> 2 ^ 24" "unat sT \<le> 2 ^ 24" "unat ((osz + al - 1) AND NOT (al - 1)) \<le> 2 ^ 24"
    "(osz + al - 1) AND NOT (al - 1) \<noteq> 0"
  shows "let l = calculate_layout sS sT osz al ps; z = unat (object_size l) in
    object_size l = (osz + al - 1) AND NOT (al - 1) \<and> slab_size l = ps \<and> l_page_size l = ps \<and> object_offset l = 0 \<and>
    unat (control_offset l) = (unat (objects l) * z + 7) div 8 * 8 \<and>
    (objects l = 0 \<or> unat (control_offset l) + unat sS + unat (objects l) * unat sT \<le> unat ps) \<and>
    (\<forall>m. fits (unat sS) (unat sT) z (unat ps) m \<longrightarrow> m \<le> unat (objects l))"
  by (rule calculate_layout_fits [OF assms])

theorem calculate_layout_spec_witness:
  "let l = calculate_layout 60 12 100 4 4096; z = unat (object_size l) in
    object_size l = 100 \<and> (\<forall>m. fits 60 12 z 4096 m \<longrightarrow> m \<le> unat (objects l))"
  using calculate_layout_spec [of 60 4096 12 100 4] by (simp add: Let_def)

subsection \<open>The initial caches\<close>

lemma cache_layout:
  assumes "sz \<in> set cache_sizes" "0 < unat sS" "unat sS + unat sT \<le> 2040"
  shows "layout_ok (calculate_layout sS sT sz sz 4096)" "object_size (calculate_layout sS sT sz sz 4096) = sz"
    "slab_size (calculate_layout sS sT sz sz 4096) = 4096" "control_offset (calculate_layout sS sT sz sz 4096) < 4096"
proof -
  define l where "l = calculate_layout sS sT sz sz 4096"
  have al: "(sz + sz - 1) AND NOT (sz - 1) = sz" "0 < unat sz" "unat sz \<le> 2048" "sz \<noteq> 0"
    using assms(1) unfolding cache_sizes_def by auto
  have "object_size l = sz \<and> slab_size l = 4096 \<and> l_page_size l = 4096 \<and> object_offset l = 0 \<and>
    unat (control_offset l) = (unat (objects l) * unat (object_size l) + 7) div 8 * 8 \<and>
    (objects l = 0 \<or> unat (control_offset l) + unat sS + unat (objects l) * unat sT \<le> 4096) \<and>
    (\<forall>m. fits (unat sS) (unat sT) (unat (object_size l)) 4096 m \<longrightarrow> m \<le> unat (objects l))"
  proof -
    have u: "unat (4096 :: u32) = 4096" by simp
    have pre: "unat sS < unat (4096 :: u32)" "unat (4096 :: u32) \<le> 2 ^ 24" "unat sT \<le> 2 ^ 24"
      "unat ((sz + sz - 1) AND NOT (sz - 1)) \<le> 2 ^ 24" "(sz + sz - 1) AND NOT (sz - 1) \<noteq> 0"
      unfolding al(1) using assms(3) al by simp_all
    from calculate_layout_fits [OF pre] show ?thesis unfolding l_def [symmetric] Let_def al(1) u .
  qed
  then have F: "object_size l = sz" "slab_size l = 4096" "l_page_size l = 4096" "object_offset l = 0"
    "unat (control_offset l) = (unat (objects l) * unat sz + 7) div 8 * 8"
    "objects l = 0 \<or> unat (control_offset l) + unat sS + unat (objects l) * unat sT \<le> 4096"
    "\<forall>m. fits (unat sS) (unat sT) (unat sz) 4096 m \<longrightarrow> m \<le> unat (objects l)" by metis+
  have "(unat sz + 7) div 8 * 8 \<le> unat sz + 7" by (rule div_times_less_eq_dividend)
  then have "fits (unat sS) (unat sT) (unat sz) 4096 1" using assms(3) al(3) unfolding fits_def by simp
  then have n: "0 < unat (objects l)" using F(7) by (metis Suc_le_eq One_nat_def)
  then have nz: "objects l \<noteq> 0" unfolding unat_gt_0 .
  show "object_size (calculate_layout sS sT sz sz 4096) = sz" "slab_size (calculate_layout sS sT sz sz 4096) = 4096"
    using F(1,2) by (simp_all add: l_def)
  have c: "unat (control_offset l) < 4096" using F(6) nz assms(2) by linarith
  then have "unat (objects l) * unat sz \<le> 4096" unfolding F(5) by linarith
  then show "layout_ok (calculate_layout sS sT sz sz 4096)"
    unfolding layout_ok_def l_def [symmetric] using F(1-4) nz al(4) by (simp add: word_greater_zero_iff)
  show "control_offset (calculate_layout sS sT sz sz 4096) < 4096" using c by (simp add: l_def word_less_nat_alt)
qed

text \<open>The heap after \<open>vmm::init\<close>: eight caches for exactly the sizes 16 to 2048, at least one object
  to a slab, and a consistent empty heap.\<close>

lemma vmm_init_ok:
  assumes "registry h = Null" "g_page_size (vm h) = 4096" "0 < unat sS" "unat sS + unat sT \<le> 2040"
  shows "heap_ok (vmm_init sS sT h) \<and> live (vmm_init sS sT h) = {} \<and>
    map (\<lambda>c. object_size (layout c)) (caches (vmm_init sS sT h)) = cache_sizes \<and>
    (\<forall>c\<in>set (caches (vmm_init sS sT h)). 0 < objects (layout c) \<and> slab_size (layout c) = 4096 \<and> control_offset (layout c) < 4096)"
proof -
  let ?h = "vmm_init sS sT h"
  have r: "registry ?h = Null" "bases ?h = {}" using assms(1) by (simp_all add: vmm_init_def bases_def)
  have cs: "caches ?h = map (\<lambda>sz. Cache_new sS sT sz sz 4096) cache_sizes" using assms(2) by (simp add: vmm_init_def)
  note L = cache_layout [OF _ assms(3,4)]
  have lay: "layout_ok (layout c) \<and> slab_size (layout c) = 4096 \<and> control_offset (layout c) < 4096 \<and>
    free_slabs c = [] \<and> partial_slabs c = [] \<and> full_slabs c = []" if "c \<in> set (caches ?h)" for c
    using that L unfolding cs by (auto simp: Cache_new_def)
  have "lists_ok ?h k" if "k < length (caches ?h)" for k
    using lay [OF nth_mem [OF that]] by (simp add: lists_ok_def Let_def r)
  then have "heap_ok ?h" using lay nth_mem by (fastforce simp: heap_ok_def registry_ok_def r)
  moreover have "map (\<lambda>c. object_size (layout c)) (caches ?h) = cache_sizes"
    unfolding cs map_map using L(2) by (intro map_idI) (simp add: Cache_new_def)
  moreover have "live ?h = {}" by (simp add: live_def r)
  ultimately show ?thesis using lay by (auto simp: layout_ok_def)
qed

subsection \<open>A concrete heap\<close>

definition demo_heap_vm :: kvm where
  "demo_heap_vm = \<lparr>hw = demo_hal, g_page_size = 4096, kernel_as = demo_as\<lparr>current_base := 0xD0000000, limit := 0xFF800000\<rparr>\<rparr>"

definition demo_heap :: heap where
  "demo_heap = vmm_init 60 12 \<lparr>slabs = (\<lambda>_. Slab_new (calculate_layout 60 12 16 16 4096) 0 0 0), registry = Null, caches = [], vm = demo_heap_vm\<rparr>"

lemma demo_heap_ok: "heap_ok demo_heap" "can_grow demo_heap" "live demo_heap = {}"
  "map (\<lambda>c. object_size (layout c)) (caches demo_heap) = cache_sizes"
proof -
  let ?h = "\<lparr>slabs = (\<lambda>_. Slab_new (calculate_layout 60 12 16 16 4096) 0 0 0), registry = Null, caches = [], vm = demo_heap_vm\<rparr> :: heap"
  have I: "heap_ok demo_heap \<and> live demo_heap = {} \<and> map (\<lambda>c. object_size (layout c)) (caches demo_heap) = cache_sizes \<and>
    (\<forall>c\<in>set (caches demo_heap). 0 < objects (layout c) \<and> slab_size (layout c) = 4096 \<and> control_offset (layout c) < 4096)"
    unfolding demo_heap_def by (rule vmm_init_ok) (simp_all add: demo_heap_vm_def)
  then show "heap_ok demo_heap" "live demo_heap = {}" "map (\<lambda>c. object_size (layout c)) (caches demo_heap) = cache_sizes" by blast+
  have "vm demo_heap = demo_heap_vm" by (simp add: demo_heap_def vmm_init_def)
  moreover have "tr demo_hal (root demo_hal) 0xD0001000 = None" by (simp add: tr_def demo_hal_def nat_pd_index)
  ultimately show "can_grow demo_heap" using I demo_hal_ok by (simp add: can_grow_def Let_def demo_heap_vm_def)
qed

lemma demo_heap_fits: "\<exists>c\<in>set (caches demo_heap). 100 \<le> object_size (layout c)"
proof -
  have "128 \<in> set (map (\<lambda>c. object_size (layout c)) (caches demo_heap))" unfolding demo_heap_ok(4) by (simp add: cache_sizes_def)
  then show ?thesis by force
qed


definition demo_heap1 :: heap where
  "demo_heap1 = (case KE_Malloc plain_create 100 demo_heap of None \<Rightarrow> demo_heap | Some (_, h) \<Rightarrow> h)"

lemma demo_heap1_ok: "heap_ok demo_heap1" "\<exists>x. live demo_heap1 = {x}"
proof -
  have v: "hw (vm demo_heap) = demo_hal" by (simp add: demo_heap_def vmm_init_def demo_heap_vm_def)
  from heap_malloc_ok [OF demo_heap_ok(1,2) _ demo_heap_fits, of plain_create, unfolded v demo_heap_ok(3)] demo_two_free
  obtain p h' x where "KE_Malloc plain_create 100 demo_heap = Some (p, h')" "heap_ok h'" "live h' = {x}"
    by (cases "KE_Malloc plain_create 100 demo_heap") auto
  then show "heap_ok demo_heap1" "\<exists>x. live demo_heap1 = {x}" by (auto simp: demo_heap1_def)
qed

theorem heap_free_spec_witness:
  "\<exists>x\<in>live demo_heap1. \<exists>h'. KE_Free (object_at demo_heap1 x) demo_heap1 = Some h' \<and> heap_ok h' \<and> live h' = {}"
proof -
  obtain x where "live demo_heap1 = {x}" using demo_heap1_ok(2) by blast
  with heap_free_spec [OF demo_heap1_ok(1), of x] show ?thesis by auto
qed

definition demo_layout :: Layout where
  "demo_layout = \<lparr>object_size = 1024, object_offset = 0, objects = 2, control_offset = 2048, slab_size = 4096, l_page_size = 4096\<rparr>"

definition demo_full_heap :: heap where
  "demo_full_heap =
     \<lparr>slabs = (\<lambda>_. (Slab_new demo_layout 0xC8001000 4096 0)\<lparr>freelist := [], s_allocated := 2\<rparr>),
      registry = AvlNode Null (0xC8001000, 4096) 1 Null,
      caches = [\<lparr>layout = demo_layout, free_slabs = [], partial_slabs = [], full_slabs = [0xC8001000], c_allocated = 2048, total_allocated = 4096\<rparr>],
      vm = demo_heap_vm\<rparr>"

lemma demo_full_heap_ok: "heap_ok demo_full_heap" "(0xC8001000, 0) \<in> live demo_full_heap" "(0xC8001000, 1) \<in> live demo_full_heap"
proof -
  have b: "bases demo_full_heap = {0xC8001000}" by (simp add: bases_def demo_full_heap_def)
  show "(0xC8001000, 0) \<in> live demo_full_heap" "(0xC8001000, 1) \<in> live demo_full_heap"
    by (simp_all add: live_def b) (simp_all add: demo_full_heap_def Slab_new_def demo_layout_def)
  have "registry_ok demo_full_heap"
    by (simp add: registry_ok_def) (simp add: demo_full_heap_def demo_heap_vm_def)
  moreover have "lists_ok demo_full_heap 0"
    unfolding lists_ok_def b Let_def by (simp add: demo_full_heap_def Slab_empty_def Slab_full_def Slab_new_def demo_layout_def)
  ultimately show "heap_ok demo_full_heap" unfolding heap_ok_def
    by (simp add: demo_full_heap_def layout_ok_def slab_ok_def Slab_new_def demo_layout_def)
qed


end
