(* ===== verification/Object_Manager.thy ===== *)
theory Object_Manager
  imports Prelude "HOL-Library.Monad_Syntax"
begin

text \<open>
  The object manager, \<open>Source/src/object_manager.cpp\<close>, with the headers \<open>kobject/KObject.hpp\<close>,
  \<open>kobject/KDirectoryObject.hpp\<close> and \<open>StaticIdentifier.hpp\<close>. An object is named by its index in the store; a freed
  object is \<open>None\<close> there and touching it is a fault, the result \<open>None\<close> of an operation. The
  intrusive list of children is a list of indices. Lookups are pure: the reference the returned pointer takes
  is the caller's. Destructors other than the directory's and the closing of files are
  arguments of \<open>KE_OB_Release\<close>.
\<close>

subsection \<open>Names and objects\<close>

definition fnv1a64 :: "string \<Rightarrow> u64 \<Rightarrow> u64" where
  "fnv1a64 s seed = fold (\<lambda>c h. (h XOR of_char c) * 1099511628211) s seed"

definition object_hash :: "string \<Rightarrow> u64" where
  "object_hash s = fnv1a64 s 0xcbf29ce484222325"

definition object_type :: "string \<Rightarrow> u64" where
  "object_type s = fnv1a64 s 0x84222325cbf1291b"

definition TYPE_DIRECTORY :: u64 where "TYPE_DIRECTORY = object_type ''directory''"
definition TYPE_IO :: u64 where "TYPE_IO = object_type ''io''"

record KObject =
  ob_type :: u64
  ob_name :: string
  name_hash :: u64
  reference_count :: u32
  ob_parent :: "nat option"
  child_list :: "nat list"          \<comment> \<open>of a \<open>KDirectoryObject\<close>\<close>

record object_manager =
  objs :: "KObject option list"
  g_root :: "nat option"
  g_file :: "nat option"
  g_dirs :: "nat list"              \<comment> \<open>the other directories \<open>init\<close> keeps a pointer to\<close>

definition ob_get :: "nat \<Rightarrow> object_manager \<Rightarrow> KObject option" where
  "ob_get i s = (if i < length (objs s) then objs s ! i else None)"

definition ob_put :: "nat \<Rightarrow> KObject option \<Rightarrow> object_manager \<Rightarrow> object_manager" where
  "ob_put i x s = s\<lparr>objs := (objs s)[i := x]\<rparr>"

definition new_object :: "u64 \<Rightarrow> string \<Rightarrow> KObject" where
  "new_object ty name =
     \<lparr>ob_type = ty, ob_name = name, name_hash = object_hash name, reference_count = 0, ob_parent = None, child_list = []\<rparr>"

subsection \<open>Lookup\<close>

fun child_find :: "string \<Rightarrow> nat list \<Rightarrow> object_manager \<Rightarrow> nat option option" where
  "child_find key [] s = Some None"
| "child_find key (c # cs) s = do {
     ob \<leftarrow> ob_get c s;
     if ob_name ob = key then Some (Some c) else child_find key cs s }"

definition LookupChild :: "nat option \<Rightarrow> string \<Rightarrow> object_manager \<Rightarrow> nat option option" where
  "LookupChild parent path s =
     (case parent of
        None \<Rightarrow> Some None
      | Some p \<Rightarrow>
          if path = '''' then Some None
          else if path = ''.'' then Some (Some p)
          else do {
            ob \<leftarrow> ob_get p s;
            if path = ''..'' then Some (ob_parent ob) else child_find path (child_list ob) s })"

text \<open>\<open>rest\<close> is the part of the path from \<open>pos\<close>.\<close>

function lookup_loop :: "nat \<Rightarrow> string \<Rightarrow> object_manager \<Rightarrow> nat option option" where
  "lookup_loop cur rest s =
     (let part = takeWhile (\<lambda>c. c \<noteq> CHR ''/'') rest in do {
        r \<leftarrow> LookupChild (Some cur) part s;
        case r of
          None \<Rightarrow> Some None
        | Some partObj \<Rightarrow>
            if length part = length rest then Some (Some partObj)
            else do {
              ob \<leftarrow> ob_get partObj s;
              if ob_type ob \<noteq> TYPE_DIRECTORY then Some None
              else lookup_loop partObj (drop (length part + 1) rest) s } })"
  by pat_completeness auto
termination
proof (relation "measure (\<lambda>(cur, rest, s). length rest)", goal_cases)
  case (2 cur rest s part)
  then have "length part \<noteq> length rest" by simp
  moreover have "length part \<le> length rest" using 2(1) by (simp add: length_takeWhile_le)
  ultimately show ?case by simp
qed simp

declare lookup_loop.simps [simp del]

definition LookupPathFrom :: "nat option \<Rightarrow> string \<Rightarrow> object_manager \<Rightarrow> nat option option" where
  "LookupPathFrom parent path s =
     (case parent of
        None \<Rightarrow> Some None
      | Some p \<Rightarrow>
          if path = '''' then Some None
          else if path = ''.'' then Some (Some p)
          else if path = ''..'' then map_option ob_parent (ob_get p s)
          else lookup_loop p path s)"

definition KE_OB_LookupObject :: "string \<Rightarrow> object_manager \<Rightarrow> nat option option" where
  "KE_OB_LookupObject path s =
     (case path of
        [] \<Rightarrow> Some None
      | c # rest \<Rightarrow> if c = CHR ''/'' then LookupPathFrom (g_root s) rest s else Some None)"

definition KE_OB_LookupObjectWithRoot :: "nat option \<Rightarrow> string \<Rightarrow> object_manager \<Rightarrow> nat option option" where
  "KE_OB_LookupObjectWithRoot rt path s =
     (case rt of
        None \<Rightarrow> Some None
      | Some r \<Rightarrow>
          (case path of
             [] \<Rightarrow> Some (Some r)
           | c # _ \<Rightarrow> do {
               ob \<leftarrow> ob_get r s;
               if ob_type ob \<noteq> TYPE_DIRECTORY \<or> c = CHR ''/'' then Some None
               else LookupPathFrom (Some r) path s }))"

definition KE_OB_FindDirectChild :: "nat option \<Rightarrow> string \<Rightarrow> object_manager \<Rightarrow> nat option option" where
  "KE_OB_FindDirectChild parent name s = LookupChild parent name s"

subsection \<open>References and the tree\<close>

definition KE_OB_Retain :: "nat option \<Rightarrow> object_manager \<Rightarrow> object_manager option" where
  "KE_OB_Retain obj s =
     (case obj of
        None \<Rightarrow> Some s
      | Some i \<Rightarrow> map_option (\<lambda>ob. ob_put i (Some (ob\<lparr>reference_count := reference_count ob + 1\<rparr>)) s) (ob_get i s))"

definition KE_OB_InsertObject :: "nat option \<Rightarrow> nat option \<Rightarrow> object_manager \<Rightarrow> (KernelError \<times> object_manager) option" where
  "KE_OB_InsertObject parent child s =
     (case (parent, child) of
        (Some p, Some c) \<Rightarrow> do {
          cob \<leftarrow> ob_get c s;
          if ob_parent cob \<noteq> None then Some (AlreadyAttached, s)
          else do {
            pob \<leftarrow> ob_get p s;
            found \<leftarrow> child_find (ob_name cob) (child_list pob) s;
            if found \<noteq> None then Some (AlreadyExists, s)
            else do {
              s1 \<leftarrow> KE_OB_Retain (Some c) (ob_put c (Some (cob\<lparr>ob_parent := Some p\<rparr>)) s);
              pob1 \<leftarrow> ob_get p s1;
              Some (Success, ob_put p (Some (pob1\<lparr>child_list := child_list pob1 @ [c]\<rparr>)) s1) } } }
      | _ \<Rightarrow> Some (InvalidArgument, s))"

datatype ob_task = Rel "nat option" | Destroy nat

text \<open>\<open>KE_OB_Release\<close> and the destructor of a directory call each other; the list holds the calls
  that are still to be made.\<close>

type_synonym ob_effect = "nat \<Rightarrow> object_manager \<Rightarrow> object_manager option"

fun release_step :: "ob_effect \<Rightarrow> ob_effect \<Rightarrow> ob_task list \<Rightarrow> object_manager \<Rightarrow> (ob_task list \<times> object_manager) option" where
  "release_step close dtor [] s = Some ([], s)"
| "release_step close dtor (Rel None # ts) s = Some (ts, s)"
| "release_step close dtor (Rel (Some i) # ts) s = do {
     ob \<leftarrow> ob_get i s;
     let s1 = ob_put i (Some (ob\<lparr>reference_count := reference_count ob - 1\<rparr>)) s;
     if reference_count ob = 2 \<and> ob_type ob = TYPE_IO \<and> ob_parent ob = g_file s
     then map_option (Pair ts) (close i s1)
     else if reference_count ob = 1 then Some (Destroy i # ts, s1)
     else Some (ts, s1) }"
| "release_step close dtor (Destroy i # ts) s = do {
     ob \<leftarrow> ob_get i s;
     if ob_type ob = TYPE_DIRECTORY then
       Some (case child_list ob of
               [] \<Rightarrow> (ts, ob_put i None s)
             | c # cs \<Rightarrow> (Rel (Some c) # Destroy i # ts, ob_put i (Some (ob\<lparr>child_list := cs\<rparr>)) s))
     else map_option (\<lambda>s1. (ts, ob_put i None s1)) (dtor i s) }"

partial_function (option) release_run :: "ob_effect \<Rightarrow> ob_effect \<Rightarrow> ob_task list \<Rightarrow> object_manager \<Rightarrow> object_manager option" where
  "release_run close dtor ts s =
     (if ts = [] then Some s
      else Option.bind (release_step close dtor ts s) (\<lambda>x. release_run close dtor (fst x) (snd x)))"

definition KE_OB_Release ::
  "ob_effect \<Rightarrow> ob_effect \<Rightarrow> nat option \<Rightarrow> object_manager \<Rightarrow> object_manager option"
where
  "KE_OB_Release close dtor obj s = release_run close dtor [Rel obj] s"

definition KE_OB_RemoveObject ::
  "ob_effect \<Rightarrow> ob_effect \<Rightarrow> nat option \<Rightarrow> nat option \<Rightarrow>
   object_manager \<Rightarrow> (KernelError \<times> object_manager) option"
where
  "KE_OB_RemoveObject close dtor parent child s =
     (case (parent, child) of
        (Some p, Some c) \<Rightarrow> do {
          cob \<leftarrow> ob_get c s;
          if ob_parent cob \<noteq> Some p then Some (ParentMismatch, s)
          else do {
            pob \<leftarrow> ob_get p s;
            let s1 = ob_put p (Some (pob\<lparr>child_list := remove1 c (child_list pob)\<rparr>)) s;
            cob1 \<leftarrow> ob_get c s1;
            s2 \<leftarrow> KE_OB_Release close dtor (Some c) (ob_put c (Some (cob1\<lparr>ob_parent := None\<rparr>)) s1);
            Some (Success, s2) } }
      | _ \<Rightarrow> Some (InvalidArgument, s))"

subsection \<open>Unique names\<close>

fun digits_of :: "nat \<Rightarrow> nat" where
  "digits_of n = (if n < 10 then 1 else Suc (digits_of (n div 10)))"

fun decimal :: "nat \<Rightarrow> string" where
  "decimal n = (if n < 10 then [char_of (48 + n)] else decimal (n div 10) @ [char_of (48 + n mod 10)])"

declare digits_of.simps [simp del] decimal.simps [simp del]

fun hash_exists :: "u64 \<Rightarrow> nat list \<Rightarrow> object_manager \<Rightarrow> bool option" where
  "hash_exists h [] s = Some False"
| "hash_exists h (c # cs) s = do { ob \<leftarrow> ob_get c s; if name_hash ob = h then Some True else hash_exists h cs s }"

function unique_from :: "nat \<Rightarrow> nat list \<Rightarrow> string \<Rightarrow> object_manager \<Rightarrow> u32 expected option" where
  "unique_from ret cs baseName s =
     (if length baseName + digits_of ret > 63 then Some (Inl NameTooLong)
      else do {
        exists \<leftarrow> hash_exists (object_hash (baseName @ decimal ret)) cs s;
        if \<not> exists then Some (Inr (of_nat ret))
        else if ret \<ge> 0xFFFFFFFF then Some (Inl ResourceLimitExceeded)
        else unique_from (ret + 1) cs baseName s })"
  by pat_completeness auto
termination
  by (relation "measure (\<lambda>(ret, cs, b, s). 0xFFFFFFFF - ret)") auto

declare unique_from.simps [simp del]

definition KE_OB_MakeUniqueName :: "nat option \<Rightarrow> string \<Rightarrow> object_manager \<Rightarrow> u32 expected option" where
  "KE_OB_MakeUniqueName parent baseName s =
     (case parent of
        None \<Rightarrow> Some (Inl InvalidArgument)
      | Some p \<Rightarrow>
          if baseName = '''' then Some (Inl InvalidArgument)
          else do { ob \<leftarrow> ob_get p s; unique_from 0 (child_list ob) baseName s })"

subsection \<open>Initialisation\<close>

definition create_directory :: "string \<Rightarrow> object_manager \<Rightarrow> object_manager" where
  "create_directory name s = s\<lparr>objs := objs s @ [Some ((new_object TYPE_DIRECTORY name)\<lparr>reference_count := 1\<rparr>)]\<rparr>"

definition ob_names :: "string list" where
  "ob_names = [''Device'', ''Driver'', ''Memory'', ''Threads'', ''Processes'', ''FileSystem'', ''VFS'', ''File'', ''Subsystems'', ''Modules'',
     ''Hive'', ''Gfx'', ''System'']"

fun insert_children :: "nat \<Rightarrow> nat list \<Rightarrow> object_manager \<Rightarrow> object_manager option" where
  "insert_children rt [] s = Some s"
| "insert_children rt (c # cs) s = do {
     (status, s1) \<leftarrow> KE_OB_InsertObject (Some rt) (Some c) s;
     if status \<noteq> Success then None else insert_children rt cs s1 }"

text \<open>\<open>ok\<close> says whether the heap could provide the fourteen objects; \<open>None\<close> is the panic. The objects follow
  the root in the order of \<open>ob_names\<close>; the children are inserted in the order of the source. The
  local pointer to the last one is dropped.\<close>

definition objectmanager_init :: "ob_effect \<Rightarrow> ob_effect \<Rightarrow> bool \<Rightarrow> object_manager \<Rightarrow> object_manager option" where
  "objectmanager_init close dtor ok s =
     (if \<not> ok then None
      else let b = length (objs s);
               s1 = fold create_directory (''<Root>'' # ob_names) s in do {
        s2 \<leftarrow> insert_children b (map (\<lambda>i. b + i) [1, 2, 3, 6, 4, 5, 7, 8, 9, 10, 11, 12, 13]) s1;
        KE_OB_Release close dtor (Some (b + 13))
          (s2\<lparr>g_root := Some b, g_file := Some (b + 8), g_dirs := map (\<lambda>i. b + i) [1, 2, 3, 4, 5, 6, 7, 9, 10, 11, 12]\<rparr>) })"

end
