(* ===== verification/Object_Tree.thy ===== *)
theory Object_Tree
  imports Object_Manager
begin

text \<open>
  The name space of the object manager: the invariant of the tree of objects, what inserting and removing do to
  it, that an absolute path resolves exactly to the object the names lead to, and that generated
  names are new.
\<close>

definition name_of :: "object_manager \<Rightarrow> nat \<Rightarrow> string" where
  "name_of s i = (case ob_get i s of Some ob \<Rightarrow> ob_name ob | None \<Rightarrow> '''')"

definition ob_ok :: "object_manager \<Rightarrow> bool" where
  "ob_ok s \<longleftrightarrow> (\<forall>i ob. ob_get i s = Some ob \<longrightarrow>
     distinct (child_list ob) \<and> inj_on (name_of s) (set (child_list ob)) \<and>
     (\<forall>c\<in>set (child_list ob). \<exists>cb. ob_get c s = Some cb \<and> ob_parent cb = Some i) \<and>
     (\<forall>p. ob_parent ob = Some p \<longrightarrow> (\<exists>pb. ob_get p s = Some pb \<and> i \<in> set (child_list pb))))"

lemma ob_okD:
  assumes "ob_ok s" "ob_get i s = Some ob"
  shows "distinct (child_list ob)" "inj_on (name_of s) (set (child_list ob))"
    "c \<in> set (child_list ob) \<Longrightarrow> \<exists>cb. ob_get c s = Some cb \<and> ob_parent cb = Some i"
    "ob_parent ob = Some p \<Longrightarrow> \<exists>pb. ob_get p s = Some pb \<and> i \<in> set (child_list pb)"
  using assms unfolding ob_ok_def by blast+

lemma ob_get_put [simp]: "ob_get j (ob_put i x s) = (if j = i \<and> i < length (objs s) then x else ob_get j s)"
  by (simp add: ob_get_def ob_put_def)

lemma ob_get_bound: "ob_get i s = Some ob \<Longrightarrow> i < length (objs s)"
  by (simp add: ob_get_def split: if_splits)

lemma ob_put_length [simp]: "length (objs (ob_put i x s)) = length (objs s)"
  by (simp add: ob_put_def)

lemma child_find_eq:
  assumes "\<forall>c\<in>set cs. ob_get c s \<noteq> None"
  shows "child_find key cs s = Some (List.find (\<lambda>c. name_of s c = key) cs)"
  using assms by (induction cs) (auto simp: name_of_def)

lemma child_find_children:
  assumes "ob_ok s" "ob_get p s = Some pb"
  shows "child_find key (child_list pb) s = Some (List.find (\<lambda>c. name_of s c = key) (child_list pb))"
  using ob_okD(3) [OF assms] by (intro child_find_eq) auto

lemma find_child_iff:
  assumes "ob_ok s" "ob_get p s = Some pb"
  shows "List.find (\<lambda>c. name_of s c = key) (child_list pb) = Some c \<longleftrightarrow> c \<in> set (child_list pb) \<and> name_of s c = key"
proof
  assume "List.find (\<lambda>c. name_of s c = key) (child_list pb) = Some c"
  then show "c \<in> set (child_list pb) \<and> name_of s c = key" by (auto simp: find_Some_iff)
next
  assume c: "c \<in> set (child_list pb) \<and> name_of s c = key"
  then have "List.find (\<lambda>c. name_of s c = key) (child_list pb) \<noteq> None" by (auto simp: find_None_iff)
  then obtain d where d: "List.find (\<lambda>c. name_of s c = key) (child_list pb) = Some d" by blast
  then have "d \<in> set (child_list pb)" "name_of s d = key" by (auto simp: find_Some_iff)
  then have "d = c" using c inj_onD [OF ob_okD(2) [OF assms], of d c] by simp
  with d show "List.find (\<lambda>c. name_of s c = key) (child_list pb) = Some c" by simp
qed

subsection \<open>Inserting and removing\<close>

definition attached :: "nat \<Rightarrow> nat \<Rightarrow> KObject \<Rightarrow> KObject \<Rightarrow> object_manager \<Rightarrow> object_manager" where
  "attached p c pb cb s =
     ob_put p (Some (pb\<lparr>child_list := child_list pb @ [c]\<rparr>))
       (ob_put c (Some (cb\<lparr>ob_parent := Some p, reference_count := reference_count cb + 1\<rparr>)) s)"

lemma insert_cases:
  assumes ok: "ob_ok s" and p: "ob_get p s = Some pb" and c: "ob_get c s = Some cb" and pc: "p \<noteq> c"
  shows "KE_OB_InsertObject (Some p) (Some c) s =
    Some (if ob_parent cb \<noteq> None then (AlreadyAttached, s)
          else if ob_name cb \<in> name_of s ` set (child_list pb) then (AlreadyExists, s)
          else (Success, attached p c pb cb s))"
proof -
  note f = child_find_children [OF ok p, of "ob_name cb"]
  have "List.find (\<lambda>d. name_of s d = ob_name cb) (child_list pb) = None \<longleftrightarrow> ob_name cb \<notin> name_of s ` set (child_list pb)"
    unfolding find_None_iff image_iff by metis
  moreover have "ob_put c x (ob_put c y s) = ob_put c x s" for x y by (simp add: ob_put_def)
  ultimately show ?thesis
    using p c pc f ob_get_bound [OF p] ob_get_bound [OF c]
    by (cases "ob_parent cb") (auto simp: KE_OB_InsertObject_def KE_OB_Retain_def attached_def)
qed

lemma attached_ok:
  assumes ok: "ob_ok s" and p: "ob_get p s = Some pb" and c: "ob_get c s = Some cb" and pc: "p \<noteq> c"
    and free: "ob_parent cb = None" "ob_name cb \<notin> name_of s ` set (child_list pb)"
  shows "ob_ok (attached p c pb cb s)"
proof -
  let ?s = "attached p c pb cb s"
  have g: "ob_get i ?s = (if i = p then Some (pb\<lparr>child_list := child_list pb @ [c]\<rparr>)
      else if i = c then Some (cb\<lparr>ob_parent := Some p, reference_count := reference_count cb + 1\<rparr>) else ob_get i s)" for i
    using ob_get_bound [OF p] ob_get_bound [OF c] by (simp add: attached_def)
  have nm: "name_of ?s = name_of s" using p c by (auto simp: fun_eq_iff name_of_def g)
  have nc: "c \<notin> set (child_list ob)" if "ob_get i s = Some ob" for i ob
    using ob_okD(3) [OF ok that, of c] c free(1) by auto
  show ?thesis unfolding ob_ok_def nm
  proof (intro allI impI)
    fix i ob assume i: "ob_get i ?s = Some ob"
    obtain ob0 where o: "ob_get i s = Some ob0" using i p c by (auto simp: g split: if_splits)
    have cl: "child_list ob = (if i = p then child_list ob0 @ [c] else child_list ob0)" "ob_parent ob = (if i = c then Some p else ob_parent ob0)"
      using i o p c pc by (auto simp: g split: if_splits)
    have "distinct (child_list ob)" using cl(1) ob_okD(1) [OF ok o] nc [OF o] by auto
    moreover have "inj_on (name_of s) (set (child_list ob))"
    proof (cases "i = p")
      case True
      then have "ob0 = pb" "name_of s c = ob_name cb" using o p c by (simp_all add: name_of_def)
      then show ?thesis using cl(1) True ob_okD(2) [OF ok p] free(2) by (auto simp: inj_on_insert)
    qed (use cl(1) ob_okD(2) [OF ok o] in simp)
    moreover have "\<exists>db. ob_get d ?s = Some db \<and> ob_parent db = Some i" if "d \<in> set (child_list ob)" for d
    proof (cases "d = c")
      case True
      then have "i = p" using that cl(1) nc [OF o] by (auto split: if_splits)
      with True pc show ?thesis by (simp add: g)
    next
      case False
      then have "d \<in> set (child_list ob0)" using that cl(1) by (auto split: if_splits)
      then obtain db where "ob_get d s = Some db" "ob_parent db = Some i" using ob_okD(3) [OF ok o] by blast
      with False p show ?thesis by (auto simp: g)
    qed
    moreover have "\<exists>qb. ob_get q ?s = Some qb \<and> i \<in> set (child_list qb)" if "ob_parent ob = Some q" for q
    proof (cases "i = c")
      case True
      then have q: "q = p" using that cl(2) by simp
      show ?thesis unfolding q True using pc by (simp add: g)
    next
      case False
      then have "ob_parent ob0 = Some q" using that cl(2) by simp
      then obtain qb where "ob_get q s = Some qb" "i \<in> set (child_list qb)" using ob_okD(4) [OF ok o] by blast
      then show ?thesis using p c by (auto simp: g)
    qed
    ultimately show "distinct (child_list ob) \<and> inj_on (name_of s) (set (child_list ob)) \<and>
      (\<forall>c\<in>set (child_list ob). \<exists>cb. ob_get c ?s = Some cb \<and> ob_parent cb = Some i) \<and>
      (\<forall>p. ob_parent ob = Some p \<longrightarrow> (\<exists>pb. ob_get p ?s = Some pb \<and> i \<in> set (child_list pb)))" by blast
  qed
qed

lemma release_held:
  assumes "ob_get i s = Some ob" "reference_count ob \<noteq> 1" "ob_parent ob \<noteq> g_file s"
  shows "KE_OB_Release close dtor (Some i) s = Some (ob_put i (Some (ob\<lparr>reference_count := reference_count ob - 1\<rparr>)) s)"
  unfolding KE_OB_Release_def using assms by (simp add: release_run.simps Let_def)

lemma restore_state:
  assumes "ob_get p s = Some pb" "ob_get c s = Some cb" "p \<noteq> c"
  shows "ob_put c (Some cb) (ob_put c z (ob_put p (Some pb) (ob_put p x (ob_put c y s)))) = s"
proof -
  have "objs s ! p = Some pb" "objs s ! c = Some cb" using assms(1,2) by (simp_all add: ob_get_def split: if_splits)
  then have "(objs s)[c := y, p := x, p := Some pb, c := z, c := Some cb] = objs s"
    using assms(3) by (metis list_update_id list_update_overwrite list_update_swap)
  then show ?thesis by (simp add: ob_put_def)
qed


subsection \<open>Paths\<close>

definition good_name :: "string \<Rightarrow> bool" where
  "good_name n \<longleftrightarrow> n \<noteq> '''' \<and> n \<noteq> ''.'' \<and> n \<noteq> ''..'' \<and> CHR ''/'' \<notin> set n"

fun join :: "string list \<Rightarrow> string" where
  "join [] = ''''"
| "join [n] = n"
| "join (n # m # ns) = n @ CHR ''/'' # join (m # ns)"

text \<open>\<open>leads_to s p ns o\<close>: from directory \<open>p\<close> the names \<open>ns\<close> lead through directories to the object \<open>o\<close>.\<close>

inductive leads_to :: "object_manager \<Rightarrow> nat \<Rightarrow> string list \<Rightarrow> nat \<Rightarrow> bool" for s where
  leads_here: "ob_get p s = Some pb \<Longrightarrow> c \<in> set (child_list pb) \<Longrightarrow> name_of s c = n \<Longrightarrow> leads_to s p [n] c"
| leads_on: "ob_get p s = Some pb \<Longrightarrow> c \<in> set (child_list pb) \<Longrightarrow> name_of s c = n \<Longrightarrow> ob_get c s = Some cb \<Longrightarrow> ob_type cb = TYPE_DIRECTORY \<Longrightarrow>
    leads_to s c (m # ns) x \<Longrightarrow> leads_to s p (n # m # ns) x"

inductive_cases leads_oneE: "leads_to s p [n] x"
inductive_cases leads_moreE: "leads_to s p (n # m # ns) x"

lemma takeWhile_name: "CHR ''/'' \<notin> set n \<Longrightarrow> takeWhile (\<lambda>c. c \<noteq> CHR ''/'') (n @ CHR ''/'' # r) = n"
  "CHR ''/'' \<notin> set n \<Longrightarrow> takeWhile (\<lambda>c. c \<noteq> CHR ''/'') n = n"
  by (induction n) auto

lemma drop_name: "drop (length n + 1) (n @ c # r) = r"
  by simp

lemma LookupChild_good:
  assumes "ob_ok s" "ob_get p s = Some pb" "good_name n"
  shows "LookupChild (Some p) n s = Some (List.find (\<lambda>c. name_of s c = n) (child_list pb))"
  using assms child_find_children [OF assms(1,2), of n] by (simp add: LookupChild_def good_name_def)

lemma lookup_loop_step:
  assumes "takeWhile (\<lambda>c. c \<noteq> CHR ''/'') rest = part" "LookupChild (Some cur) part s = Some r"
  shows "lookup_loop cur rest s =
    (case r of
       None \<Rightarrow> Some None
     | Some c \<Rightarrow>
         if length part = length rest then Some (Some c)
         else do { ob \<leftarrow> ob_get c s; if ob_type ob \<noteq> TYPE_DIRECTORY then Some None else lookup_loop c (drop (length part + 1) rest) s })"
  unfolding lookup_loop.simps [of cur rest s] Let_def assms(1) assms(2) by simp

lemma lookup_loop_names:
  assumes "ob_ok s" "ob_get p s = Some pb" "ns \<noteq> []" "\<forall>n\<in>set ns. good_name n"
  shows "\<exists>r. lookup_loop p (join ns) s = Some r \<and> (\<forall>x. r = Some x \<longleftrightarrow> leads_to s p ns x)"
  using assms(2-4)
proof (induction ns arbitrary: p pb rule: join.induct)
  case 1
  then show ?case by simp
next
  case (2 n)
  then have g: "good_name n" "CHR ''/'' \<notin> set n" by (simp_all add: good_name_def)
  have "lookup_loop p n s = Some (List.find (\<lambda>c. name_of s c = n) (child_list pb))"
    using lookup_loop_step [OF takeWhile_name(2) [OF g(2)] LookupChild_good [OF assms(1) 2(1) g(1)]]
    by (cases "List.find (\<lambda>c. name_of s c = n) (child_list pb)") simp_all
  moreover have "leads_to s p [n] x \<longleftrightarrow> x \<in> set (child_list pb) \<and> name_of s x = n" for x
    using 2(1) leads_here [of p s pb x n] by (auto elim!: leads_oneE)
  ultimately show ?case using find_child_iff [OF assms(1) 2(1), of n] by simp
next
  case (3 n m ns)
  then have g: "good_name n" "CHR ''/'' \<notin> set n" by (simp_all add: good_name_def)
  have e: "lookup_loop p (join (n # m # ns)) s =
      (case List.find (\<lambda>c. name_of s c = n) (child_list pb) of
         None \<Rightarrow> Some None
       | Some c \<Rightarrow> do { ob \<leftarrow> ob_get c s; if ob_type ob \<noteq> TYPE_DIRECTORY then Some None else lookup_loop c (join (m # ns)) s })"
    using lookup_loop_step [OF takeWhile_name(1) [OF g(2)] LookupChild_good [OF assms(1) 3(2) g(1)], of "join (m # ns)"]
    unfolding drop_name by (cases "List.find (\<lambda>c. name_of s c = n) (child_list pb)") simp_all
  show ?case
  proof (cases "List.find (\<lambda>c. name_of s c = n) (child_list pb)")
    case None
    have "\<not> leads_to s p (n # m # ns) x" for x
      using None 3(2) by (auto simp: find_None_iff elim!: leads_moreE)
    with e None show ?thesis by simp
  next
    case (Some c)
    then have c: "c \<in> set (child_list pb)" "name_of s c = n" using find_child_iff [OF assms(1) 3(2)] by blast+
    obtain cb where cb: "ob_get c s = Some cb" using ob_okD(3) [OF assms(1) 3(2) c(1)] by blast
    have uniq: "d = c" if "d \<in> set (child_list pb)" "name_of s d = n" for d
      using inj_onD [OF ob_okD(2) [OF assms(1) 3(2)], of d c] that c by simp
    have l: "leads_to s p (n # m # ns) x \<longleftrightarrow> ob_type cb = TYPE_DIRECTORY \<and> leads_to s c (m # ns) x" for x
    proof
      assume "leads_to s p (n # m # ns) x"
      then show "ob_type cb = TYPE_DIRECTORY \<and> leads_to s c (m # ns) x" using 3(2) cb uniq by (auto elim!: leads_moreE)
    next
      assume "ob_type cb = TYPE_DIRECTORY \<and> leads_to s c (m # ns) x"
      then show "leads_to s p (n # m # ns) x" using leads_on [OF 3(2) c cb] by blast
    qed
    show ?thesis
    proof (cases "ob_type cb = TYPE_DIRECTORY")
      case False
      with e Some cb l show ?thesis by simp
    next
      case True
      with e Some cb l 3(1) [OF cb] 3(4) show ?thesis by simp
    qed
  qed
qed

text \<open>C33. Path lookup. In a consistent tree the lookup of an absolute path made of ordinary names (not empty, not
  a dot or two dots, without a separator) never faults, and it returns exactly the object
  to which the names lead from the root through directories, if there is one. In particular the path
  of every object below the root resolves to that object.\<close>

theorem lookup_object_spec:
  assumes "ob_ok s" "g_root s = Some rt" "ob_get rt s = Some rb" "ns \<noteq> []" "\<forall>n\<in>set ns. good_name n"
  shows "\<exists>r. KE_OB_LookupObject (CHR ''/'' # join ns) s = Some r \<and> (\<forall>x. r = Some x \<longleftrightarrow> leads_to s rt ns x)"
proof -
  obtain n ns' where ns: "ns = n # ns'" "good_name n" using assms(4,5) by (cases ns) auto
  have "join ns \<notin> {'''', ''.'', ''..''}"
  proof (cases ns')
    case Nil
    then show ?thesis using ns by (simp add: good_name_def)
  next
    case (Cons m ms)
    then have "CHR ''/'' \<in> set (join ns)" by (simp add: ns)
    moreover have "CHR ''/'' \<notin> set ''..''" "CHR ''/'' \<notin> set ''.''" by simp_all
    ultimately show ?thesis by (metis empty_iff insert_iff list.set(1))
  qed
  then have "KE_OB_LookupObject (CHR ''/'' # join ns) s = lookup_loop rt (join ns) s"
    using assms(2) by (simp add: KE_OB_LookupObject_def LookupPathFrom_def)
  with lookup_loop_names [OF assms(1,3,4,5)] show ?thesis by simp
qed

subsection \<open>Unique names\<close>

definition taken :: "object_manager \<Rightarrow> nat list \<Rightarrow> string \<Rightarrow> nat \<Rightarrow> bool" where
  "taken s cs b n \<longleftrightarrow> (\<exists>c\<in>set cs. \<exists>cb. ob_get c s = Some cb \<and> name_hash cb = object_hash (b @ decimal n))"

lemma hash_exists_taken:
  assumes "\<forall>c\<in>set cs. ob_get c s \<noteq> None"
  shows "hash_exists (object_hash (b @ decimal n)) cs s = Some (taken s cs b n)"
  using assms by (induction cs) (auto simp: taken_def)

lemma unique_from_spec:
  assumes "\<forall>c\<in>set cs. ob_get c s \<noteq> None" "ret \<le> 0xFFFFFFFF" "\<forall>m<ret. taken s cs b m"
  shows "\<exists>n. n \<le> 0xFFFFFFFF \<and> (\<forall>m<n. taken s cs b m) \<and>
    (unique_from ret cs b s = Some (Inr (of_nat n)) \<and> \<not> taken s cs b n \<and> length b + digits_of n \<le> 63 \<or>
     unique_from ret cs b s = Some (Inl NameTooLong) \<and> length b + digits_of n > 63 \<or>
     unique_from ret cs b s = Some (Inl ResourceLimitExceeded) \<and> taken s cs b n \<and> n = 0xFFFFFFFF)"
  using assms
proof (induction ret cs b s rule: unique_from.induct)
  case (1 ret cs b s)
  note h = hash_exists_taken [OF 1(2), of b ret]
  note e = unique_from.simps [of ret cs b s, unfolded h]
  show ?case
  proof (cases "length b + digits_of ret > 63")
    case True
    then have "unique_from ret cs b s = Some (Inl NameTooLong)" using e by simp
    with True 1(3,4) show ?thesis by blast
  next
    case short: False
    show ?thesis
    proof (cases "taken s cs b ret")
      case False
      then have "unique_from ret cs b s = Some (Inr (of_nat ret))" using e short by simp
      moreover have "length b + digits_of ret \<le> 63" using short by linarith
      ultimately show ?thesis using False 1(3,4) by blast
    next
      case True
      show ?thesis
      proof (cases "ret \<ge> 0xFFFFFFFF")
        case last: True
        then have "unique_from ret cs b s = Some (Inl ResourceLimitExceeded)" using e short True by simp
        moreover have "ret = 0xFFFFFFFF" using last 1(3) by linarith
        ultimately show ?thesis using True 1(4) by blast
      next
        case False
        then have s: "unique_from ret cs b s = unique_from (ret + 1) cs b s" using e short True by simp
        have "\<forall>m<ret + 1. taken s cs b m" using 1(4) True by (auto simp: less_Suc_eq)
        moreover have "hash_exists (object_hash (b @ decimal ret)) cs s = Some True" using h True by simp
        ultimately show ?thesis unfolding s using 1(1) [OF short, of True] False 1(2) by auto
      qed
    qed
  qed
qed

text \<open>Unique names. For a non-empty base name, \<open>KE_OB_MakeUniqueName\<close> always returns: the least number whose
  name's hash no child of the directory has, \<open>NameTooLong\<close> when the numbers below are taken and the next name
  does not fit 63 characters, or \<open>ResourceLimitExceeded\<close> when all 32-bit numbers are taken. With hashes computed
  from the names, an object of the returned name can be inserted.\<close>

theorem unique_name_spec:
  assumes "ob_ok s" "ob_get p s = Some pb" "b \<noteq> ''''"
  shows "\<exists>n. n \<le> 0xFFFFFFFF \<and> (\<forall>m<n. taken s (child_list pb) b m) \<and>
    (KE_OB_MakeUniqueName (Some p) b s = Some (Inr (of_nat n)) \<and> \<not> taken s (child_list pb) b n \<and> length b + digits_of n \<le> 63 \<and>
       ((\<forall>c\<in>set (child_list pb). \<forall>cb. ob_get c s = Some cb \<longrightarrow> name_hash cb = object_hash (ob_name cb)) \<longrightarrow>
          b @ decimal n \<notin> name_of s ` set (child_list pb)) \<or>
     KE_OB_MakeUniqueName (Some p) b s = Some (Inl NameTooLong) \<and> length b + digits_of n > 63 \<or>
     KE_OB_MakeUniqueName (Some p) b s = Some (Inl ResourceLimitExceeded) \<and> taken s (child_list pb) b n \<and> n = 0xFFFFFFFF)"
proof -
  have live: "\<forall>c\<in>set (child_list pb). ob_get c s \<noteq> None" using ob_okD(3) [OF assms(1,2)] by auto
  have e: "KE_OB_MakeUniqueName (Some p) b s = unique_from 0 (child_list pb) b s" using assms(2,3) by (simp add: KE_OB_MakeUniqueName_def)
  have new: "b @ decimal n \<notin> name_of s ` set (child_list pb)" if "\<not> taken s (child_list pb) b n"
    "\<forall>c\<in>set (child_list pb). \<forall>cb. ob_get c s = Some cb \<longrightarrow> name_hash cb = object_hash (ob_name cb)" for n
  proof
    assume "b @ decimal n \<in> name_of s ` set (child_list pb)"
    then obtain c where c: "c \<in> set (child_list pb)" "name_of s c = b @ decimal n" by auto
    moreover obtain cb where "ob_get c s = Some cb" using live c(1) by blast
    ultimately show False using that unfolding taken_def by (auto simp: name_of_def)
  qed
  from unique_from_spec [OF live, of 0 b] obtain n where "n \<le> 0xFFFFFFFF" "\<forall>m<n. taken s (child_list pb) b m"
    "unique_from 0 (child_list pb) b s = Some (Inr (of_nat n)) \<and> \<not> taken s (child_list pb) b n \<and> length b + digits_of n \<le> 63 \<or>
     unique_from 0 (child_list pb) b s = Some (Inl NameTooLong) \<and> length b + digits_of n > 63 \<or>
     unique_from 0 (child_list pb) b s = Some (Inl ResourceLimitExceeded) \<and> taken s (child_list pb) b n \<and> n = 0xFFFFFFFF" by auto
  then show ?thesis unfolding e using new [of n] by (intro exI [of _ n]) blast
qed

subsection \<open>Releasing a directory\<close>

text \<open>The destructor of a directory releases its children but leaves their parent pointers: when the last
  reference to a directory goes away while a child is held by someone else, the child points to freed memory.\<close>

lemma released_directory_dangles:
  assumes "ob_get d s = Some db" "ob_type db = TYPE_DIRECTORY" "reference_count db = 1" "child_list db = [c]" "c \<noteq> d"
    "ob_parent db \<noteq> g_file s" "ob_get c s = Some cb" "ob_parent cb = Some d" "reference_count cb = 2" "g_file s \<noteq> Some d"
  shows "\<exists>s' cb'. KE_OB_Release close dtor (Some d) s = Some s' \<and> ob_get d s' = None \<and> ob_get c s' = Some cb' \<and> ob_parent cb' = Some d"
proof -
  note b = ob_get_bound [OF assms(1)] ob_get_bound [OF assms(7)]
  let ?s1 = "ob_put d (Some (db\<lparr>reference_count := 0\<rparr>)) s"
  let ?s2 = "ob_put d (Some (db\<lparr>reference_count := 0, child_list := []\<rparr>)) ?s1"
  let ?s3 = "ob_put c (Some (cb\<lparr>reference_count := 1\<rparr>)) ?s2"
  let ?s4 = "ob_put d None ?s3"
  have gf: "g_file (ob_put i x t) = g_file t" for i x t by (simp add: ob_put_def)
  have 1: "release_step close dtor [Rel (Some d)] s = Some ([Destroy d], ?s1)" using assms(1,3) by simp
  have 2: "release_step close dtor [Destroy d] ?s1 = Some ([Rel (Some c), Destroy d], ?s2)" using assms(2,4) b by simp
  have 3: "release_step close dtor [Rel (Some c), Destroy d] ?s2 = Some ([Destroy d], ?s3)"
    using assms(5,7-10) b by (simp add: gf)
  have 4: "release_step close dtor [Destroy d] ?s3 = Some ([], ?s4)" using assms(2,5) b by simp
  have r: "release_run close dtor ts t = release_run close dtor ts' t'" if "ts \<noteq> []" "release_step close dtor ts t = Some (ts', t')" for ts t ts' t'
    using that by (subst release_run.simps) simp
  have "release_run close dtor [Rel (Some d)] s = Some ?s4"
    using r [OF _ 1] r [OF _ 2] r [OF _ 3] r [OF _ 4] by (simp add: release_run.simps)
  then show ?thesis using assms(5,8) b by (simp add: KE_OB_Release_def)
qed

subsection \<open>A concrete tree\<close>

definition demo_obs :: object_manager where
  "demo_obs =
     \<lparr>objs = [Some ((new_object TYPE_DIRECTORY ''<Root>'')\<lparr>reference_count := 1, child_list := [1]\<rparr>),
              Some ((new_object TYPE_DIRECTORY ''Device'')\<lparr>reference_count := 2, ob_parent := Some 0, child_list := [2]\<rparr>),
              Some ((new_object TYPE_IO ''Disk0'')\<lparr>reference_count := 2, ob_parent := Some 1\<rparr>),
              Some ((new_object TYPE_IO ''Disk1'')\<lparr>reference_count := 1\<rparr>)],
      g_root = Some 0, g_file = Some 0, g_dirs = []\<rparr>"

lemma demo_obs_get:
  "ob_get 0 demo_obs = Some ((new_object TYPE_DIRECTORY ''<Root>'')\<lparr>reference_count := 1, child_list := [1]\<rparr>)"
  "ob_get 1 demo_obs = Some ((new_object TYPE_DIRECTORY ''Device'')\<lparr>reference_count := 2, ob_parent := Some 0, child_list := [2]\<rparr>)"
  "ob_get 2 demo_obs = Some ((new_object TYPE_IO ''Disk0'')\<lparr>reference_count := 2, ob_parent := Some 1\<rparr>)"
  "ob_get 3 demo_obs = Some ((new_object TYPE_IO ''Disk1'')\<lparr>reference_count := 1\<rparr>)"
  "4 \<le> i \<Longrightarrow> ob_get i demo_obs = None"
  by (simp_all add: ob_get_def demo_obs_def)

lemma demo_obs_ok: "ob_ok demo_obs"
  unfolding ob_ok_def
proof (intro allI impI)
  fix i ob assume i: "ob_get i demo_obs = Some ob"
  have "\<not> 4 \<le> i" using i demo_obs_get(5) [of i] by auto
  then consider "i = 0" | "i = 1" | "i = 2" | "i = 3" by linarith
  then show "distinct (child_list ob) \<and> inj_on (name_of demo_obs) (set (child_list ob)) \<and>
     (\<forall>c\<in>set (child_list ob). \<exists>cb. ob_get c demo_obs = Some cb \<and> ob_parent cb = Some i) \<and>
     (\<forall>p. ob_parent ob = Some p \<longrightarrow> (\<exists>pb. ob_get p demo_obs = Some pb \<and> i \<in> set (child_list pb)))"
  proof cases
    case 1
    then have "ob = (new_object TYPE_DIRECTORY ''<Root>'')\<lparr>reference_count := 1, child_list := [1]\<rparr>" using i demo_obs_get(1) by simp
    then show ?thesis using 1 demo_obs_get(2) by (simp add: new_object_def)
  next
    case 2
    then have "ob = (new_object TYPE_DIRECTORY ''Device'')\<lparr>reference_count := 2, ob_parent := Some 0, child_list := [2]\<rparr>" using i demo_obs_get(2) by simp
    then show ?thesis using 2 demo_obs_get(1,3) by (simp add: new_object_def)
  next
    case 3
    then have "ob = (new_object TYPE_IO ''Disk0'')\<lparr>reference_count := 2, ob_parent := Some 1\<rparr>" using i demo_obs_get(3) by simp
    then show ?thesis using 3 demo_obs_get(2) by (simp add: new_object_def)
  next
    case 4
    then have "ob = (new_object TYPE_IO ''Disk1'')\<lparr>reference_count := 1\<rparr>" using i demo_obs_get(4) by simp
    then show ?thesis by (simp add: new_object_def)
  qed
qed


theorem lookup_object_spec_witness: "KE_OB_LookupObject ''/Device/Disk0'' demo_obs = Some (Some 2)"
proof -
  obtain rb db cb where g: "ob_get 0 demo_obs = Some rb" "ob_get 1 demo_obs = Some db" "ob_get 2 demo_obs = Some cb"
    "child_list rb = [1]" "child_list db = [2]" "ob_type db = TYPE_DIRECTORY"
    by (simp add: ob_get_def demo_obs_def new_object_def)
  have n: "name_of demo_obs 1 = ''Device''" "name_of demo_obs 2 = ''Disk0''" by (simp_all add: name_of_def ob_get_def demo_obs_def new_object_def)
  have "leads_to demo_obs 1 [''Disk0''] 2" using leads_here [OF g(2)] g(5) n(2) by simp
  then have "leads_to demo_obs 0 [''Device'', ''Disk0''] 2" using leads_on [OF g(1) _ n(1) g(2)] g(4,6) by simp
  moreover have "g_root demo_obs = Some 0" "\<forall>n\<in>set [''Device'', ''Disk0'']. good_name n" by (simp_all add: demo_obs_def good_name_def)
  ultimately show ?thesis using lookup_object_spec [OF demo_obs_ok _ g(1), of "[''Device'', ''Disk0'']"] by auto
qed

lemma demo_hashes: "object_hash ''Disk0'' \<noteq> object_hash ''Disk1''"
  by code_simp

theorem unique_name_spec_witness:
  "KE_OB_MakeUniqueName (Some 1) ''Disk'' demo_obs = Some (Inr 1) \<and> taken demo_obs [2] ''Disk'' 0"
proof -
  obtain pb cb where g: "ob_get 1 demo_obs = Some pb" "child_list pb = [2]" "ob_get 2 demo_obs = Some cb" "name_hash cb = object_hash ''Disk0''"
    using demo_obs_get(2,3) by (simp add: new_object_def)
  have d: "decimal 0 = ''0''" "decimal 1 = ''1''" "digits_of 0 = 1" "digits_of 1 = 1"
    by (simp_all add: decimal.simps digits_of.simps char_of_def bit_0)
  have h: "hash_exists (object_hash (''Disk'' @ decimal 0)) [2] demo_obs = Some True"
    "hash_exists (object_hash (''Disk'' @ decimal 1)) [2] demo_obs = Some False" using g(3,4) d demo_hashes by simp_all
  have "unique_from 1 [2] ''Disk'' demo_obs = Some (Inr 1)" unfolding unique_from.simps [of 1] h(2) d(4) by simp
  then have "unique_from 0 [2] ''Disk'' demo_obs = Some (Inr 1)" unfolding unique_from.simps [of 0] h(1) d(3) by simp
  then have r: "KE_OB_MakeUniqueName (Some 1) ''Disk'' demo_obs = Some (Inr 1)" using g(1,2) by (simp add: KE_OB_MakeUniqueName_def)
  from unique_name_spec [OF demo_obs_ok g(1), of "''Disk''"] r obtain n where n: "n \<le> 0xFFFFFFFF" "\<forall>m<n. taken demo_obs [2] ''Disk'' m"
    "of_nat n = (1 :: u32)" by (auto simp: g(2))
  have "n \<noteq> 0" using n(3) by (cases n) auto
  with n(2) r show ?thesis by simp
qed

end
