(* ===== verification/Region.thy ===== *)
theory Region
  imports Prelude "HOL-Library.Monad_Syntax"
begin

text \<open>
  Clip regions of the window manager, from \<open>API/include/kernel/gfx/region.hpp\<close>. A rectangle is
  half open; a region is a list of at most 32 rectangles (the prefix of the array that \<open>count\<close>
  delimits). Coordinates are \<open>int32_t\<close>: comparisons are those of the integers, and an
  arithmetic result outside the type, undefined in C++, is \<open>None\<close>. The abstract
  value of a region is its set of pixels.
\<close>

record URect =
  left_of :: int
  top_of :: int
  right_of :: int
  bottom_of :: int

definition rect :: "int \<Rightarrow> int \<Rightarrow> int \<Rightarrow> int \<Rightarrow> URect" where
  "rect l t r b = \<lparr>left_of = l, top_of = t, right_of = r, bottom_of = b\<rparr>"

definition URect_Empty :: "URect \<Rightarrow> bool" where
  "URect_Empty r = (right_of r \<le> left_of r \<or> bottom_of r \<le> top_of r)"

definition URect_Intersect :: "URect \<Rightarrow> URect \<Rightarrow> URect" where
  "URect_Intersect s o' =
     (let r = rect (if left_of s > left_of o' then left_of s else left_of o')
                   (if top_of s > top_of o' then top_of s else top_of o')
                   (if right_of s < right_of o' then right_of s else right_of o')
                   (if bottom_of s < bottom_of o' then bottom_of s else bottom_of o')
      in if URect_Empty r then rect 0 0 0 0 else r)"

definition URect_Union :: "URect \<Rightarrow> URect \<Rightarrow> URect" where
  "URect_Union s o' =
     (if URect_Empty s then o'
      else if URect_Empty o' then s
      else rect (if left_of s < left_of o' then left_of s else left_of o')
                (if top_of s < top_of o' then top_of s else top_of o')
                (if right_of s > right_of o' then right_of s else right_of o')
                (if bottom_of s > bottom_of o' then bottom_of s else bottom_of o'))"

definition int32 :: "int \<Rightarrow> int option" where
  "int32 i = (if - (2 ^ 31) \<le> i \<and> i < 2 ^ 31 then Some i else None)"

definition URect_Offset :: "URect \<Rightarrow> int \<Rightarrow> int \<Rightarrow> URect option" where
  "URect_Offset s dx dy = do {
     l \<leftarrow> int32 (left_of s + dx);
     t \<leftarrow> int32 (top_of s + dy);
     r \<leftarrow> int32 (right_of s + dx);
     b \<leftarrow> int32 (bottom_of s + dy);
     Some (rect l t r b) }"

type_synonym URegion = "URect list"

abbreviation kMaxRects :: nat where "kMaxRects \<equiv> 32"

definition URegion_Set :: "URect \<Rightarrow> URegion" where
  "URegion_Set r = (if \<not> URect_Empty r then [r] else [])"

definition URegion_Empty :: "URegion \<Rightarrow> bool" where
  "URegion_Empty R = (length R = 0)"

definition URegion_Bounds :: "URegion \<Rightarrow> URect" where
  "URegion_Bounds R = foldl URect_Union (rect 0 0 0 0) R"

fun URegion_Intersect :: "URect \<Rightarrow> URegion \<Rightarrow> URegion" where
  "URegion_Intersect clip [] = []"
| "URegion_Intersect clip (s # R) =
     (let r = URect_Intersect s clip in
      if \<not> URect_Empty r then r # URegion_Intersect clip R else URegion_Intersect clip R)"

text \<open>The fragments of one rectangle around its intersection \<open>x\<close> with the hole.\<close>

definition parts_of :: "URect \<Rightarrow> URect \<Rightarrow> URect list" where
  "parts_of r x =
     (if top_of r < top_of x then [rect (left_of r) (top_of r) (right_of r) (top_of x)] else []) @
     (if bottom_of x < bottom_of r then [rect (left_of r) (bottom_of x) (right_of r) (bottom_of r)] else []) @
     (if left_of r < left_of x then [rect (left_of r) (top_of x) (left_of x) (bottom_of x)] else []) @
     (if right_of x < right_of r then [rect (right_of x) (top_of x) (right_of r) (bottom_of x)] else [])"

fun subtract_loop :: "URect \<Rightarrow> URegion \<Rightarrow> URegion \<Rightarrow> URegion" where
  "subtract_loop hole [] out = out"
| "subtract_loop hole (r # R) out =
     (let x = URect_Intersect r hole in
      if URect_Empty x then subtract_loop hole R (if length out < kMaxRects then out @ [r] else out)
      else
        (let parts = parts_of r x in
         if length out + length parts > kMaxRects then subtract_loop hole R out
         else subtract_loop hole R (out @ parts)))"

definition URegion_Subtract :: "URect \<Rightarrow> URegion \<Rightarrow> URegion" where
  "URegion_Subtract hole R = (if URect_Empty hole then R else subtract_loop hole R [])"

fun covered_area :: "URegion \<Rightarrow> u64 \<Rightarrow> u64 option" where
  "covered_area [] acc = Some acc"
| "covered_area (r # R) acc = do {
     w \<leftarrow> int32 (right_of r - left_of r);
     h \<leftarrow> int32 (bottom_of r - top_of r);
     covered_area R (acc + of_int w * of_int h) }"

definition region_merges_to_bounds :: "URegion \<Rightarrow> bool option" where
  "region_merges_to_bounds R =
     (if length R < 2 then Some True
      else do {
        covered \<leftarrow> covered_area R 0;
        let b = URegion_Bounds R;
        w \<leftarrow> int32 (right_of b - left_of b);
        h \<leftarrow> int32 (bottom_of b - top_of b);
        Some (of_int w * of_int h \<le> covered + covered div 4) })"

subsection \<open>Pixels\<close>

definition pixels :: "URect \<Rightarrow> (int \<times> int) set" where
  "pixels r = {left_of r ..< right_of r} \<times> {top_of r ..< bottom_of r}"

definition region_pixels :: "URegion \<Rightarrow> (int \<times> int) set" where
  "region_pixels R = \<Union> (pixels ` set R)"

definition region_ok :: "URegion \<Rightarrow> bool" where
  "region_ok R \<longleftrightarrow> length R \<le> kMaxRects \<and> (\<forall>r\<in>set R. \<not> URect_Empty r) \<and>
     sorted_wrt (\<lambda>a b. pixels a \<inter> pixels b = {}) R"

lemma rect_sel [simp]:
  "left_of (rect l t r b) = l" "top_of (rect l t r b) = t" "right_of (rect l t r b) = r" "bottom_of (rect l t r b) = b"
  by (simp_all add: rect_def)

lemma pixels_iff: "(x, y) \<in> pixels r \<longleftrightarrow> left_of r \<le> x \<and> x < right_of r \<and> top_of r \<le> y \<and> y < bottom_of r"
  by (auto simp: pixels_def)

lemma pixels_empty: "pixels r = {} \<longleftrightarrow> URect_Empty r"
  by (auto simp: pixels_def URect_Empty_def)

lemma pixels_intersect: "pixels (URect_Intersect a b) = pixels a \<inter> pixels b"
  by (auto simp: URect_Intersect_def URect_Empty_def Let_def pixels_def)

lemma pixels_union: "pixels a \<union> pixels b \<subseteq> pixels (URect_Union a b)"
  by (auto simp: URect_Union_def URect_Empty_def pixels_def)

lemma region_pixels_simps [simp]:
  "region_pixels [] = {}" "region_pixels (r # R) = pixels r \<union> region_pixels R"
  "region_pixels (R @ S) = region_pixels R \<union> region_pixels S"
  by (auto simp: region_pixels_def)

text \<open>The fragments are nonempty, pairwise disjoint, and cover exactly the rectangle less the hole.\<close>

lemma intersect_inside:
  assumes "\<not> URect_Empty (URect_Intersect r c)"
  shows "left_of r \<le> left_of (URect_Intersect r c)" "right_of (URect_Intersect r c) \<le> right_of r"
    "top_of r \<le> top_of (URect_Intersect r c)" "bottom_of (URect_Intersect r c) \<le> bottom_of r"
    "left_of (URect_Intersect r c) < right_of (URect_Intersect r c)" "top_of (URect_Intersect r c) < bottom_of (URect_Intersect r c)"
  using assms by (auto simp: URect_Intersect_def URect_Empty_def Let_def split: if_splits)

lemma parts_pixels:
  assumes "left_of r \<le> left_of x" "right_of x \<le> right_of r" "top_of r \<le> top_of x" "bottom_of x \<le> bottom_of r"
    "left_of x < right_of x" "top_of x < bottom_of x"
  shows "region_pixels (parts_of r x) = pixels r - pixels x"
  using assms by (auto simp: parts_of_def pixels_def)

lemma apart_disjoint:
  "right_of a \<le> left_of b \<or> right_of b \<le> left_of a \<or> bottom_of a \<le> top_of b \<or> bottom_of b \<le> top_of a \<Longrightarrow> pixels a \<inter> pixels b = {}"
  by (auto simp: pixels_def)

lemma parts_disjoint:
  assumes "left_of r \<le> left_of x" "right_of x \<le> right_of r" "top_of r \<le> top_of x" "bottom_of x \<le> bottom_of r"
    "left_of x < right_of x" "top_of x < bottom_of x"
  shows "sorted_wrt (\<lambda>a b. pixels a \<inter> pixels b = {}) (parts_of r x)"
    "\<forall>p\<in>set (parts_of r x). \<not> URect_Empty p"
proof -
  show "sorted_wrt (\<lambda>a b. pixels a \<inter> pixels b = {}) (parts_of r x)"
    using assms unfolding parts_of_def
    by (cases "top_of r < top_of x"; cases "bottom_of x < bottom_of r"; cases "left_of r < left_of x"; cases "right_of x < right_of r")
      (simp_all only: if_True if_False append.simps, simp_all add: apart_disjoint)
  show "\<forall>p\<in>set (parts_of r x). \<not> URect_Empty p"
    using assms unfolding parts_of_def
    by (cases "top_of r < top_of x"; cases "bottom_of x < bottom_of r"; cases "left_of r < left_of x"; cases "right_of x < right_of r")
      (simp_all only: if_True if_False append.simps, simp_all add: URect_Empty_def)
qed

text \<open>Both branches of the loop append the fragments of a rectangle when they fit.\<close>

definition fragments :: "URect \<Rightarrow> URect \<Rightarrow> URect list" where
  "fragments hole r = (if URect_Empty (URect_Intersect r hole) then [r] else parts_of r (URect_Intersect r hole))"

lemma subtract_loop_step:
  "subtract_loop hole (r # R) out =
     subtract_loop hole R (if length out + length (fragments hole r) > kMaxRects then out else out @ fragments hole r)"
  by (simp add: fragments_def Let_def)

lemma fragments_pixels: "region_pixels (fragments hole r) = pixels r - pixels hole"
proof (cases "URect_Empty (URect_Intersect r hole)")
  case True
  then have "pixels r \<inter> pixels hole = {}" using pixels_empty [of "URect_Intersect r hole"] by (simp add: pixels_intersect)
  with True show ?thesis by (auto simp: fragments_def)
next
  case False
  then show ?thesis using parts_pixels [OF intersect_inside [OF False]] by (auto simp: fragments_def pixels_intersect)
qed

lemma fragments_disjoint:
  assumes "\<not> URect_Empty r"
  shows "sorted_wrt (\<lambda>a b. pixels a \<inter> pixels b = {}) (fragments hole r)" "\<forall>p\<in>set (fragments hole r). \<not> URect_Empty p"
  using assms parts_disjoint [OF intersect_inside, of r hole] by (auto simp: fragments_def)

lemma region_ok_append:
  assumes "region_ok A" "region_ok B" "length A + length B \<le> kMaxRects" "region_pixels A \<inter> region_pixels B = {}"
  shows "region_ok (A @ B)"
  using assms by (auto simp: region_ok_def sorted_wrt_append region_pixels_def)

lemma region_ok_Cons: "region_ok (r # R) \<Longrightarrow> region_ok R \<and> \<not> URect_Empty r \<and> pixels r \<inter> region_pixels R = {}"
  by (auto simp: region_ok_def region_pixels_def)

lemma subtract_loop_spec:
  assumes "region_ok R" "region_ok out" "region_pixels out \<inter> region_pixels R = {}"
  shows "region_ok (subtract_loop hole R out) \<and> region_pixels out \<subseteq> region_pixels (subtract_loop hole R out) \<and>
    region_pixels (subtract_loop hole R out) \<subseteq> region_pixels out \<union> (region_pixels R - pixels hole) \<and>
    (length out + length (concat (map (fragments hole) R)) \<le> kMaxRects \<longrightarrow>
       region_pixels (subtract_loop hole R out) = region_pixels out \<union> (region_pixels R - pixels hole))"
  using assms
proof (induction R arbitrary: out)
  case Nil
  then show ?case by simp
next
  case (Cons r R)
  note rR = region_ok_Cons [OF Cons.prems(1)]
  show ?case
  proof (cases "length out + length (fragments hole r) > kMaxRects")
    case True
    have "region_pixels out \<inter> region_pixels R = {}" using Cons.prems(3) by auto
    from Cons.IH [OF _ Cons.prems(2) this] rR True show ?thesis unfolding subtract_loop_step by auto
  next
    case False
    let ?o = "out @ fragments hole r"
    have f: "region_ok (fragments hole r)" using fragments_disjoint [of r hole] rR False by (simp add: region_ok_def)
    have "region_pixels out \<inter> region_pixels (fragments hole r) = {}" using Cons.prems(3) by (auto simp: fragments_pixels)
    with f False Cons.prems(2) have o: "region_ok ?o" by (intro region_ok_append) auto
    have "region_pixels ?o \<inter> region_pixels R = {}" using Cons.prems(3) rR by (auto simp: fragments_pixels)
    from Cons.IH [OF _ o this] rR False show ?thesis unfolding subtract_loop_step by (auto simp: fragments_pixels)
  qed
qed

lemma intersect_spec:
  assumes "region_ok R"
  shows "region_ok (URegion_Intersect clip R) \<and> region_pixels (URegion_Intersect clip R) = region_pixels R \<inter> pixels clip \<and>
    length (URegion_Intersect clip R) \<le> length R"
  using assms
proof (induction R)
  case Nil
  then show ?case by simp
next
  case (Cons r R)
  note rR = region_ok_Cons [OF Cons.prems]
  let ?x = "URect_Intersect r clip" and ?R = "URegion_Intersect clip R"
  have IH: "region_ok ?R" "region_pixels ?R = region_pixels R \<inter> pixels clip" "length ?R \<le> length R" using Cons.IH rR by auto
  have px: "pixels ?x = pixels r \<inter> pixels clip" by (rule pixels_intersect)
  show ?case
  proof (cases "URect_Empty ?x")
    case True
    then have "pixels r \<inter> pixels clip = {}" using pixels_empty px by metis
    with True IH show ?thesis by (auto simp: Let_def)
  next
    case False
    have "length R < kMaxRects" using Cons.prems by (simp add: region_ok_def)
    moreover have "region_ok [?x]" using False by (simp add: region_ok_def)
    moreover have "region_pixels [?x] \<inter> region_pixels ?R = {}" using px IH(2) rR by auto
    ultimately have "region_ok ([?x] @ ?R)" using IH by (intro region_ok_append) auto
    with False IH px show ?thesis by (auto simp: Let_def)
  qed
qed

lemma bounds_loop: "pixels b \<union> region_pixels R \<subseteq> pixels (foldl URect_Union b R)"
proof (induction R arbitrary: b)
  case (Cons r R)
  from Cons [of "URect_Union b r"] pixels_union [of b r] show ?case by auto
qed simp

text \<open>C38. Region algebra. On a region of at most 32 disjoint, nonempty rectangles, subtracting a
  rectangle gives such a region again whose pixels all lie in the region and outside the hole;
  it is exactly their difference whenever the fragments fit the 32 slots, and otherwise
  pixels are only lost. Intersecting gives exactly the common pixels and never needs more
  slots, and the bounding rectangle contains every pixel.\<close>

theorem region_algebra:
  assumes "region_ok R"
  shows "region_ok (URegion_Subtract hole R) \<and>
    region_pixels (URegion_Subtract hole R) \<subseteq> region_pixels R - pixels hole \<and>
    (length (concat (map (fragments hole) R)) \<le> kMaxRects \<longrightarrow> region_pixels (URegion_Subtract hole R) = region_pixels R - pixels hole) \<and>
    region_ok (URegion_Intersect hole R) \<and> region_pixels (URegion_Intersect hole R) = region_pixels R \<inter> pixels hole \<and>
    region_pixels R \<subseteq> pixels (URegion_Bounds R)"
proof -
  have e: "region_ok []" by (simp add: region_ok_def)
  have s: "region_ok (URegion_Subtract hole R) \<and> region_pixels (URegion_Subtract hole R) \<subseteq> region_pixels R - pixels hole \<and>
    (length (concat (map (fragments hole) R)) \<le> kMaxRects \<longrightarrow> region_pixels (URegion_Subtract hole R) = region_pixels R - pixels hole)"
  proof (cases "URect_Empty hole")
    case True
    then have "pixels hole = {}" by (simp add: pixels_empty)
    with True assms show ?thesis by (simp add: URegion_Subtract_def)
  next
    case False
    with subtract_loop_spec [OF assms e, of hole] show ?thesis by (simp add: URegion_Subtract_def)
  qed
  have "region_pixels R \<subseteq> pixels (URegion_Bounds R)" using bounds_loop [of "rect 0 0 0 0" R] by (simp add: URegion_Bounds_def)
  with s intersect_spec [OF assms, of hole] show ?thesis by blast
qed

theorem region_algebra_witness:
  "URegion_Subtract (rect 10 10 20 20) [rect 0 0 30 30] =
     [rect 0 0 30 10, rect 0 20 30 30, rect 0 10 10 20, rect 20 10 30 20] \<and>
   region_pixels (URegion_Subtract (rect 10 10 20 20) [rect 0 0 30 30]) = pixels (rect 0 0 30 30) - pixels (rect 10 10 20 20)"
proof -
  have ok: "region_ok [rect 0 0 30 30]" by (simp add: region_ok_def URect_Empty_def)
  have "fragments (rect 10 10 20 20) (rect 0 0 30 30) = [rect 0 0 30 10, rect 0 20 30 30, rect 0 10 10 20, rect 20 10 30 20]"
    by (simp add: fragments_def parts_of_def URect_Intersect_def URect_Empty_def Let_def)
  with region_algebra [OF ok, of "rect 10 10 20 20"] show ?thesis
    by (simp add: URegion_Subtract_def URect_Intersect_def URect_Empty_def parts_of_def Let_def)
qed

end
