(* ===== verification/Resource_Manager.thy ===== *)
theory Resource_Manager
  imports Prelude "HOL-Library.Monad_Syntax"
begin

text \<open>
  Hardware resource reservation: the descriptor types of \<open>API/include/kernel/resource.hpp\<close>, the
  conflict test of \<open>resource_arbiter.hpp\<close> and the grants of \<open>Source/src/resource_manager.cpp\<close>.
  A list of nodes is a list of records, a null pointer is \<open>None\<close> (or the device 0), and the
  kernel heap is a parameter: an allocation succeeds or fails and changes a heap state
  about which nothing is assumed.
\<close>

datatype ResourceType = NullResource | Port | Memory | Interrupt | Dma

datatype ResourceShare = DeviceExclusive | Shared

datatype ResourceOption = Preferred | Alternative | Fixed

record IoResourceDescriptor =
  io_type :: ResourceType
  io_share :: ResourceShare
  io_option :: ResourceOption
  io_start :: u32
  io_end :: u32
  io_length :: u32
  io_alignment :: u32

type_synonym IoResourceList = "IoResourceDescriptor list"

record IoResourceRequirementsList =
  interfaceType :: u32
  alternatives :: "IoResourceList list"

record CmPartialResourceDescriptor =
  cm_type :: ResourceType
  cm_share :: ResourceShare
  cm_flags :: u16
  cm_start :: u32
  cm_length :: u32

type_synonym CmResourceList = "CmPartialResourceDescriptor list"

record 'h allocator =
  KE_Malloc :: "'h \<Rightarrow> bool \<times> 'h"
  KE_Free :: "'h \<Rightarrow> 'h"

subsection \<open>The conflict test\<close>

definition RangesOverlap :: "u32 \<Rightarrow> u32 \<Rightarrow> u32 \<Rightarrow> u32 \<Rightarrow> bool" where
  "RangesOverlap aStart aEnd bStart bEnd \<longleftrightarrow> aStart \<le> bEnd \<and> bStart \<le> aEnd"

definition SpanEnd :: "u32 \<Rightarrow> u32 \<Rightarrow> u32" where
  "SpanEnd start len = start + (if len \<noteq> 0 then len - 1 else 0)"

fun ConflictsWithReserved :: "IoResourceDescriptor \<Rightarrow> CmResourceList \<Rightarrow> bool" where
  "ConflictsWithReserved d [] = False"
| "ConflictsWithReserved d (r # reserved) =
     (if cm_type r \<noteq> io_type d then ConflictsWithReserved d reserved
      else if \<not> RangesOverlap (io_start d) (SpanEnd (io_start d) (io_length d)) (cm_start r) (SpanEnd (cm_start r) (cm_length r))
        then ConflictsWithReserved d reserved
      else if \<not> (io_share d = Shared \<and> cm_share r = Shared) then True
      else ConflictsWithReserved d reserved)"

definition grant_of :: "IoResourceDescriptor \<Rightarrow> CmPartialResourceDescriptor" where
  "grant_of d = \<lparr>cm_type = io_type d, cm_share = io_share d, cm_flags = 0, cm_start = io_start d,
     cm_length = (if io_length d \<noteq> 0 then io_length d else 1)\<rparr>"

fun emit :: "'h allocator \<Rightarrow> IoResourceList \<Rightarrow> CmResourceList \<Rightarrow> 'h \<Rightarrow> KernelError \<times> CmResourceList \<times> 'h" where
  "emit A [] out h = (Success, out, h)"
| "emit A (d # ds) out h =
     (let (ok, h1) = KE_Malloc A h in
      if \<not> ok then (OutOfMemory, out, h1) else emit A ds (out @ [grant_of d]) h1)"

definition TryReserveAlternative ::
    "'h allocator \<Rightarrow> IoResourceList \<Rightarrow> CmResourceList \<Rightarrow> CmResourceList \<Rightarrow> 'h \<Rightarrow> KernelError \<times> CmResourceList \<times> 'h" where
  "TryReserveAlternative A alt reserved out h =
     (if list_ex (\<lambda>d. ConflictsWithReserved d reserved) alt then (ResourceConflict, out, h)
      else emit A alt out h)"

subsection \<open>Building requirements\<close>

definition AddDescriptor ::
    "'h allocator \<Rightarrow> IoResourceList option \<Rightarrow> ResourceType \<Rightarrow> u32 \<Rightarrow> u32 \<Rightarrow> ResourceOption \<Rightarrow> ResourceShare \<Rightarrow> 'h \<Rightarrow>
     KernelError \<times> IoResourceList option \<times> 'h" where
  "AddDescriptor A alt ty start len opt share h =
     (case alt of
        None \<Rightarrow> (InvalidArgument, None, h)
      | Some ds \<Rightarrow>
          (let (ok, h1) = KE_Malloc A h in
           if \<not> ok then (OutOfMemory, alt, h1)
           else (Success, Some (ds @ [\<lparr>io_type = ty, io_share = share, io_option = opt, io_start = start,
                   io_end = start + (if len \<noteq> 0 then len - 1 else 0), io_length = len, io_alignment = 1\<rparr>]), h1)))"

definition KE_RES_AddPort where
  "KE_RES_AddPort A alt start len opt share h = AddDescriptor A alt Port start len opt share h"

definition KE_RES_AddInterrupt where
  "KE_RES_AddInterrupt A alt vector opt share h = AddDescriptor A alt Interrupt vector 1 opt share h"

definition KE_RES_AddMemory where
  "KE_RES_AddMemory A alt start len opt share h = AddDescriptor A alt Memory start len opt share h"

definition KE_RES_AddDma where
  "KE_RES_AddDma A alt channel opt share h = AddDescriptor A alt Dma channel 1 opt share h"

definition KE_RES_CreateRequirementsList :: "'h allocator \<Rightarrow> u32 \<Rightarrow> 'h \<Rightarrow> IoResourceRequirementsList expected \<times> 'h" where
  "KE_RES_CreateRequirementsList A ity h =
     (let (ok, h1) = KE_Malloc A h in
      if \<not> ok then (Inl OutOfMemory, h1) else (Inr \<lparr>interfaceType = ity, alternatives = []\<rparr>, h1))"

definition KE_RES_AddAlternative ::
    "'h allocator \<Rightarrow> IoResourceRequirementsList option \<Rightarrow> 'h \<Rightarrow> (IoResourceList expected) \<times> IoResourceRequirementsList option \<times> 'h" where
  "KE_RES_AddAlternative A lst h =
     (case lst of
        None \<Rightarrow> (Inl InvalidArgument, None, h)
      | Some l \<Rightarrow>
          (let (ok, h1) = KE_Malloc A h in
           if \<not> ok then (Inl OutOfMemory, lst, h1)
           else (Inr [], Some (l\<lparr>alternatives := alternatives l @ [[]]\<rparr>), h1)))"

definition KE_RES_FreeRequirementsList :: "'h allocator \<Rightarrow> IoResourceRequirementsList option \<Rightarrow> 'h \<Rightarrow> 'h" where
  "KE_RES_FreeRequirementsList A lst h =
     (case lst of
        None \<Rightarrow> h
      | Some l \<Rightarrow> KE_Free A (foldl (\<lambda>h alt. KE_Free A ((KE_Free A ^^ length alt) h)) h (alternatives l)))"

subsection \<open>Grants\<close>

record ResourceAssignment =
  device :: nat
  granted :: CmResourceList

fun FindAssignment :: "nat \<Rightarrow> ResourceAssignment list \<Rightarrow> ResourceAssignment option" where
  "FindAssignment dev [] = None"
| "FindAssignment dev (a # s) = (if device a = dev then Some a else FindAssignment dev s)"

definition FreeCmDescriptors :: "'h allocator \<Rightarrow> CmResourceList \<Rightarrow> 'h \<Rightarrow> 'h" where
  "FreeCmDescriptors A ds h = (KE_Free A ^^ length ds) h"

definition DestroyAssignment :: "'h allocator \<Rightarrow> ResourceAssignment \<Rightarrow> 'h \<Rightarrow> 'h" where
  "DestroyAssignment A node h = KE_Free A (FreeCmDescriptors A (granted node) h)"

fun resource_init :: "'h allocator \<Rightarrow> ResourceAssignment list \<Rightarrow> 'h \<Rightarrow> ResourceAssignment list \<times> 'h" where
  "resource_init A [] h = ([], h)"
| "resource_init A (a # s) h = resource_init A s (DestroyAssignment A a h)"

definition KE_RES_ReleaseResources ::
    "'h allocator \<Rightarrow> nat \<Rightarrow> ResourceAssignment list \<Rightarrow> 'h \<Rightarrow> ResourceAssignment list \<times> 'h" where
  "KE_RES_ReleaseResources A dev s h =
     (if dev = 0 then (s, h)
      else case FindAssignment dev s of
        None \<Rightarrow> (s, h)
      | Some node \<Rightarrow> (remove1 node s, DestroyAssignment A node h))"

fun copy_descriptors :: "'h allocator \<Rightarrow> CmResourceList \<Rightarrow> CmResourceList \<Rightarrow> 'h \<Rightarrow> bool \<times> CmResourceList \<times> 'h" where
  "copy_descriptors A [] reserved h = (False, reserved, h)"
| "copy_descriptors A (d # ds) reserved h =
     (let (ok, h1) = KE_Malloc A h in
      if \<not> ok then (True, reserved, h1) else copy_descriptors A ds (reserved @ [d]) h1)"

fun flatten_grants :: "'h allocator \<Rightarrow> ResourceAssignment list \<Rightarrow> CmResourceList \<Rightarrow> 'h \<Rightarrow> bool \<times> CmResourceList \<times> 'h" where
  "flatten_grants A [] reserved h = (False, reserved, h)"
| "flatten_grants A (a # s) reserved h =
     (let (oom, reserved1, h1) = copy_descriptors A (granted a) reserved h in
      if oom then (True, reserved1, h1) else flatten_grants A s reserved1 h1)"

definition KE_RES_AssignResources ::
    "'h allocator \<Rightarrow> nat \<Rightarrow> IoResourceRequirementsList option \<Rightarrow> ResourceAssignment list \<Rightarrow> 'h \<Rightarrow>
     KernelError \<times> ResourceAssignment list \<times> 'h" where
  "KE_RES_AssignResources A dev requirements s h =
     (if dev = 0 then (InvalidArgument, s, h)
      else
        (let (s1, h1) = KE_RES_ReleaseResources A dev s h;
             (ok, h2) = KE_Malloc A h1 in
         if \<not> ok then (OutOfMemory, s1, h2)
         else case (case requirements of None \<Rightarrow> [] | Some r \<Rightarrow> alternatives r) of
           [] \<Rightarrow> (Success, s1 @ [\<lparr>device = dev, granted = []\<rparr>], h2)
         | alt # _ \<Rightarrow>
             (let (oom, reserved, h3) = flatten_grants A s1 [] h2;
                  (status, out, h4) = (if oom then (OutOfMemory, [], h3) else TryReserveAlternative A alt reserved [] h3);
                  h5 = FreeCmDescriptors A reserved h4;
                  assignment = \<lparr>device = dev, granted = out\<rparr> in
              if status \<noteq> Success then (status, s1, DestroyAssignment A assignment h5)
              else (Success, s1 @ [assignment], h5))))"

definition KE_RES_GetAssignedResources :: "nat \<Rightarrow> ResourceAssignment list \<Rightarrow> CmResourceList option" where
  "KE_RES_GetAssignedResources dev s = map_option granted (FindAssignment dev s)"

fun nth_of_type :: "ResourceType \<Rightarrow> nat \<Rightarrow> CmResourceList \<Rightarrow> nat \<Rightarrow> CmPartialResourceDescriptor option" where
  "nth_of_type ty index [] seen = None"
| "nth_of_type ty index (d # ds) seen =
     (if cm_type d \<noteq> ty then nth_of_type ty index ds seen
      else if seen = index then Some d
      else nth_of_type ty index ds (Suc seen))"

definition KE_RES_FindAssigned :: "nat \<Rightarrow> ResourceType \<Rightarrow> nat \<Rightarrow> ResourceAssignment list \<Rightarrow> CmPartialResourceDescriptor option" where
  "KE_RES_FindAssigned dev ty index s =
     (case FindAssignment dev s of None \<Rightarrow> None | Some a \<Rightarrow> nth_of_type ty index (granted a) 0)"

subsection \<open>What a descriptor stands for\<close>

definition span :: "u32 \<Rightarrow> nat" where
  "span len = (if len = 0 then 1 else unat len)"

definition units :: "CmPartialResourceDescriptor \<Rightarrow> nat set" where
  "units d = {unat (cm_start d) ..< unat (cm_start d) + span (cm_length d)}"

definition in_space :: "CmPartialResourceDescriptor \<Rightarrow> bool" where
  "in_space d \<longleftrightarrow> unat (cm_start d) + span (cm_length d) \<le> 2 ^ 32"

definition clash :: "CmPartialResourceDescriptor \<Rightarrow> CmPartialResourceDescriptor \<Rightarrow> bool" where
  "clash a b \<longleftrightarrow> cm_type a = cm_type b \<and> units a \<inter> units b \<noteq> {} \<and> \<not> (cm_share a = Shared \<and> cm_share b = Shared)"

lemma clash_sym: "clash a b \<longleftrightarrow> clash b a"
  by (auto simp: clash_def)

lemma unat_SpanEnd:
  assumes "in_space d"
  shows "unat (SpanEnd (cm_start d) (cm_length d)) = unat (cm_start d) + span (cm_length d) - 1"
proof (cases "cm_length d = 0")
  case True
  then show ?thesis by (simp add: SpanEnd_def span_def)
next
  case False
  then have l: "0 < unat (cm_length d)" by (simp add: unat_gt_0)
  have "unat (cm_length d - 1) = unat (cm_length d) - 1" using False by (simp add: unat_minus_one)
  moreover have "unat (cm_start d) + (unat (cm_length d) - 1) < 2 ^ 32" using assms False l by (simp add: in_space_def span_def)
  ultimately show ?thesis using False l by (simp add: SpanEnd_def span_def unat_word_ariths)
qed

lemma RangesOverlap_units:
  assumes "in_space a" "in_space b"
  shows "RangesOverlap (cm_start a) (SpanEnd (cm_start a) (cm_length a)) (cm_start b) (SpanEnd (cm_start b) (cm_length b))
    \<longleftrightarrow> units a \<inter> units b \<noteq> {}"
proof -
  have p: "0 < span (cm_length a)" "0 < span (cm_length b)" by (simp_all add: span_def unat_gt_0)
  have i: "{x ..< x + m} \<inter> {y ..< y + n} \<noteq> {} \<longleftrightarrow> x \<le> y + n - 1 \<and> y \<le> x + m - 1" if "0 < m" "0 < n" for x y m n :: nat
  proof
    assume "{x ..< x + m} \<inter> {y ..< y + n} \<noteq> {}"
    then show "x \<le> y + n - 1 \<and> y \<le> x + m - 1" by auto
  next
    assume "x \<le> y + n - 1 \<and> y \<le> x + m - 1"
    with that have "max x y \<in> {x ..< x + m} \<inter> {y ..< y + n}" by auto
    then show "{x ..< x + m} \<inter> {y ..< y + n} \<noteq> {}" by blast
  qed
  show ?thesis unfolding RangesOverlap_def word_le_nat_alt unat_SpanEnd [OF assms(1)] unat_SpanEnd [OF assms(2)] units_def
    using i [OF p] by simp
qed

lemma grant_of_span: "SpanEnd (io_start d) (io_length d) = SpanEnd (cm_start (grant_of d)) (cm_length (grant_of d))"
  by (simp add: SpanEnd_def grant_of_def)

lemma ConflictsWithReserved_iff:
  assumes "in_space (grant_of d)" "\<forall>r\<in>set rs. in_space r"
  shows "ConflictsWithReserved d rs \<longleftrightarrow> (\<exists>r\<in>set rs. clash (grant_of d) r)"
  using assms(2)
proof (induction rs)
  case (Cons r rs)
  have e: "RangesOverlap (io_start d) (SpanEnd (io_start d) (io_length d)) (cm_start r) (SpanEnd (cm_start r) (cm_length r)) \<longleftrightarrow>
      units (grant_of d) \<inter> units r \<noteq> {}"
    using RangesOverlap_units [OF assms(1), of r] Cons.prems unfolding grant_of_span by (simp add: grant_of_def)
  have f: "cm_type (grant_of d) = io_type d" "cm_share (grant_of d) = io_share d" by (simp_all add: grant_of_def)
  show ?case using Cons unfolding ConflictsWithReserved.simps e by (auto simp: clash_def f)
qed simp

definition may_fail :: "'h allocator \<Rightarrow> bool" where
  "may_fail A \<longleftrightarrow> (\<exists>h. \<not> fst (KE_Malloc A h))"

lemma may_failI: "KE_Malloc A h = (b, h1) \<Longrightarrow> \<not> b \<Longrightarrow> may_fail A"
  unfolding may_fail_def by (rule exI [of _ h]) simp

lemma emit_result: "emit A ds out h = (e, out', h') \<Longrightarrow> e = Success \<and> out' = out @ map grant_of ds \<or> e = OutOfMemory \<and> may_fail A"
proof (induction ds arbitrary: out h)
  case (Cons d ds)
  obtain b h1 where m: "KE_Malloc A h = (b, h1)" by (metis prod.collapse)
  then have "\<not> b \<Longrightarrow> may_fail A" by (rule may_failI)
  with Cons.prems Cons.IH [of "out @ [grant_of d]" h1] m show ?case by (cases b) (auto simp: Let_def)
qed auto

lemma copy_result: "copy_descriptors A ds out h = (oom, out', h') \<Longrightarrow> \<not> oom \<and> out' = out @ ds \<or> oom \<and> may_fail A"
proof (induction ds arbitrary: out h)
  case (Cons d ds)
  obtain b h1 where m: "KE_Malloc A h = (b, h1)" by (metis prod.collapse)
  then have "\<not> b \<Longrightarrow> may_fail A" by (rule may_failI)
  with Cons.prems Cons.IH [of "out @ [d]" h1] m show ?case by (cases b) (auto simp: Let_def)
qed auto

lemma flatten_result: "flatten_grants A s out h = (oom, out', h') \<Longrightarrow>
    \<not> oom \<and> out' = out @ concat (map granted s) \<or> oom \<and> may_fail A"
proof (induction A s out h rule: flatten_grants.induct)
  case (2 A a s out h)
  obtain oom1 out1 h1 where c: "copy_descriptors A (granted a) out h = (oom1, out1, h1)" by (metis prod_cases3)
  from copy_result [OF c] 2 show ?case unfolding flatten_grants.simps c by (auto split: if_splits)
qed auto

subsection \<open>The registry invariant\<close>

definition res_ok :: "ResourceAssignment list \<Rightarrow> bool" where
  "res_ok s \<longleftrightarrow> distinct (map device s) \<and> (\<forall>a\<in>set s. device a \<noteq> 0 \<and> (\<forall>d\<in>set (granted a). in_space d)) \<and>
     (\<forall>a\<in>set s. \<forall>b\<in>set s. device a \<noteq> device b \<longrightarrow> (\<forall>x\<in>set (granted a). \<forall>y\<in>set (granted b). \<not> clash x y))"

definition others :: "nat \<Rightarrow> ResourceAssignment list \<Rightarrow> ResourceAssignment list" where
  "others dev s = filter (\<lambda>a. device a \<noteq> dev) s"

definition wanted :: "IoResourceRequirementsList option \<Rightarrow> IoResourceList" where
  "wanted req = (case req of None \<Rightarrow> [] | Some r \<Rightarrow> (case alternatives r of [] \<Rightarrow> [] | alt # _ \<Rightarrow> alt))"

lemma remove_found:
  "distinct (map device s) \<Longrightarrow> FindAssignment dev s = Some node \<Longrightarrow> remove1 node s = others dev s"
proof (induction s)
  case (Cons a s)
  then show ?case
  proof (cases "device a = dev")
    case True
    then have "others dev s = s" using Cons.prems(1) unfolding others_def by (intro filter_True) (auto simp: image_iff)
    with True Cons.prems show ?thesis by (simp add: others_def)
  next
    case False
    then have "a \<noteq> node" using Cons.prems(2) by (induction s) (auto split: if_splits)
    with False Cons show ?thesis by (simp add: others_def)
  qed
qed simp

lemma find_none: "FindAssignment dev s = None \<Longrightarrow> others dev s = s"
  by (induction s) (auto simp: others_def split: if_splits)

lemma release_others: "res_ok s \<Longrightarrow> dev \<noteq> 0 \<Longrightarrow> fst (KE_RES_ReleaseResources A dev s h) = others dev s"
  by (auto simp: KE_RES_ReleaseResources_def res_ok_def remove_found find_none split: option.splits)

lemma others_ok: "res_ok s \<Longrightarrow> res_ok (others dev s)"
  by (auto simp: res_ok_def others_def distinct_map_filter)

lemma others_granted: "set (concat (map granted (others dev s))) = (\<Union>a\<in>{a\<in>set s. device a \<noteq> dev}. set (granted a))"
  by (auto simp: others_def)

lemma assign_cases:
  assumes ok: "res_ok s" and dev: "dev \<noteq> 0" and fit: "\<forall>d\<in>set (wanted req). in_space (grant_of d)"
    and r: "KE_RES_AssignResources A dev req s h = (e, s', h')"
  obtains (granted) "e = Success" "s' = others dev s @ [\<lparr>device = dev, granted = map grant_of (wanted req)\<rparr>]"
      "\<forall>d\<in>set (wanted req). \<forall>a\<in>set (others dev s). \<forall>y\<in>set (granted a). \<not> clash (grant_of d) y"
  | (conflict) d a y where "e = ResourceConflict" "s' = others dev s"
      "d \<in> set (wanted req)" "a \<in> set (others dev s)" "y \<in> set (granted a)" "clash (grant_of d) y"
  | (oom) "e = OutOfMemory" "s' = others dev s" "may_fail A"
proof -
  obtain h1 where rel: "KE_RES_ReleaseResources A dev s h = (others dev s, h1)"
    using release_others [OF ok dev, of A h] by (metis prod.collapse)
  obtain b h2 where m: "KE_Malloc A h1 = (b, h2)" by (metis prod.collapse)
  show ?thesis
  proof (cases b)
    case False
    then have "may_fail A" using may_failI [OF m] by blast
    with False r dev rel m oom show ?thesis by (simp add: KE_RES_AssignResources_def)
  next
    case b: True
    show ?thesis
    proof (cases "case req of None \<Rightarrow> [] | Some r \<Rightarrow> alternatives r")
      case Nil
      then have "wanted req = []" by (auto simp: wanted_def split: option.splits)
      with r dev rel m b Nil granted show ?thesis by (simp add: KE_RES_AssignResources_def)
    next
      case (Cons alt alts)
      then have w: "wanted req = alt" by (auto simp: wanted_def split: option.splits)
      obtain om reserved h3 where f: "flatten_grants A (others dev s) [] h2 = (om, reserved, h3)" by (metis prod_cases3)
      from flatten_result [OF f] show ?thesis
      proof
        assume "om \<and> may_fail A"
        with r dev rel m b Cons f oom show ?thesis by (simp add: KE_RES_AssignResources_def)
      next
        assume fl: "\<not> om \<and> reserved = [] @ concat (map granted (others dev s))"
        then have rs: "\<forall>r\<in>set reserved. in_space r" using others_ok [OF ok] by (auto simp: res_ok_def)
        have c: "ConflictsWithReserved d reserved \<longleftrightarrow> (\<exists>a\<in>set (others dev s). \<exists>y\<in>set (granted a). clash (grant_of d) y)"
          if "d \<in> set alt" for d
          using ConflictsWithReserved_iff [of d reserved] fit that rs fl unfolding w by auto
        show ?thesis
        proof (cases "list_ex (\<lambda>d. ConflictsWithReserved d reserved) alt")
          case True
          then obtain d a y where "d \<in> set alt" "a \<in> set (others dev s)" "y \<in> set (granted a)" "clash (grant_of d) y"
            using c by (auto simp: list_ex_iff)
          with r dev rel m b Cons f fl True conflict w show ?thesis
            by (simp add: KE_RES_AssignResources_def TryReserveAlternative_def)
        next
          case False
          obtain st out h4 where em: "emit A alt [] h3 = (st, out, h4)" by (metis prod_cases3)
          have "\<forall>d\<in>set alt. \<forall>a\<in>set (others dev s). \<forall>y\<in>set (granted a). \<not> clash (grant_of d) y"
            using False c by (auto simp: list_ex_iff)
          with emit_result [OF em] r dev rel m b Cons f fl False granted oom w em show ?thesis
            by (auto simp: KE_RES_AssignResources_def TryReserveAlternative_def)
        qed
      qed
    qed
  qed
qed

lemma assign_ok:
  assumes "res_ok s" "dev \<noteq> 0" "\<forall>d\<in>set (wanted req). in_space (grant_of d)"
    "KE_RES_AssignResources A dev req s h = (e, s', h')"
  shows "res_ok s'"
  using assms
proof (cases rule: assign_cases)
  case granted
  have "dev \<notin> set (map device (others dev s))" by (auto simp: others_def)
  with granted(2,3) others_ok [OF assms(1), of dev] assms(2,3) show ?thesis
    unfolding res_ok_def by (auto simp: clash_sym)
qed (use others_ok [OF assms(1)] in simp_all)

inductive res_reach :: "'h allocator \<Rightarrow> ResourceAssignment list \<Rightarrow> bool" for A where
  start: "res_reach A []"
| reset: "res_reach A s \<Longrightarrow> resource_init A s h = (s', h') \<Longrightarrow> res_reach A s'"
| release: "res_reach A s \<Longrightarrow> KE_RES_ReleaseResources A dev s h = (s', h') \<Longrightarrow> res_reach A s'"
| assign: "res_reach A s \<Longrightarrow> \<forall>d\<in>set (wanted req). in_space (grant_of d) \<Longrightarrow>
    KE_RES_AssignResources A dev req s h = (e, s', h') \<Longrightarrow> res_reach A s'"

lemma resource_init_empty: "fst (resource_init A s h) = []"
  by (induction A s h rule: resource_init.induct) simp_all

lemma res_reach_ok: "res_reach A s \<Longrightarrow> res_ok s"
proof (induction rule: res_reach.induct)
  case start
  show ?case by (simp add: res_ok_def)
next
  case (reset s h s' h')
  then show ?case using resource_init_empty [of A s h] by (simp add: res_ok_def)
next
  case (release s dev h s' h')
  then show ?case using release_others [of s dev A h] others_ok [of s dev]
    by (cases "dev = 0") (auto simp: KE_RES_ReleaseResources_def)
next
  case (assign s req dev h e s' h')
  then show ?case using assign_ok [of s dev req A h e s' h']
    by (cases "dev = 0") (auto simp: KE_RES_AssignResources_def)
qed


text \<open>C36. Assigning resources. An assignment to a device either succeeds, and the device then
  holds exactly the descriptors of the first alternative (a zero length counting as one unit)
  while every other grant is untouched; or reports a conflict, and one of the
  descriptors really collides with the grant of another device; or runs out of memory, which
  needs a failing allocation. On both errors the previous grant of the device is gone.\<close>

theorem assign_resources_spec:
  assumes "res_reach A s" "dev \<noteq> 0" "\<forall>d\<in>set (wanted req). in_space (grant_of d)"
    "KE_RES_AssignResources A dev req s h = (e, s', h')"
  shows "KE_RES_GetAssignedResources dev s' = (if e = Success then Some (map grant_of (wanted req)) else None) \<and>
    (\<forall>dev'. dev' \<noteq> dev \<longrightarrow> KE_RES_GetAssignedResources dev' s' = KE_RES_GetAssignedResources dev' s) \<and>
    (e = Success \<or> e = OutOfMemory \<and> may_fail A \<or>
     e = ResourceConflict \<and> (\<exists>d\<in>set (wanted req). \<exists>a\<in>set s. device a \<noteq> dev \<and> (\<exists>y\<in>set (granted a). clash (grant_of d) y)))"
proof -
  have f: "FindAssignment dev' (others dev t) = (if dev' = dev then None else FindAssignment dev' t)" for dev' t
    by (induction t) (auto simp: others_def)
  have g: "FindAssignment dev' (t @ [a]) = (case FindAssignment dev' t of None \<Rightarrow> (if device a = dev' then Some a else None) | Some b \<Rightarrow> Some b)" for dev' t a
    by (induction t) auto
  from res_reach_ok [OF assms(1)] assms(2-4) show ?thesis
  proof (cases rule: assign_cases)
    case granted
    then show ?thesis by (simp add: KE_RES_GetAssignedResources_def f g split: option.splits)
  next
    case (conflict d a y)
    then have "a \<in> set s" "device a \<noteq> dev" by (simp_all add: others_def)
    with conflict show ?thesis by (auto simp: KE_RES_GetAssignedResources_def f)
  next
    case oom
    then show ?thesis by (simp add: KE_RES_GetAssignedResources_def f)
  qed
qed

definition demo_alloc :: "unit allocator" where
  "demo_alloc = \<lparr>KE_Malloc = (\<lambda>h. (True, h)), KE_Free = (\<lambda>h. h)\<rparr>"

definition demo_port :: "u32 \<Rightarrow> u32 \<Rightarrow> IoResourceRequirementsList option" where
  "demo_port start len = Some \<lparr>interfaceType = 0, alternatives = [[\<lparr>io_type = Port, io_share = DeviceExclusive, io_option = Fixed,
     io_start = start, io_end = start + len - 1, io_length = len, io_alignment = 1\<rparr>]]\<rparr>"

lemma demo_port_fits: "\<forall>d\<in>set (wanted (demo_port 0x3F8 8)). in_space (grant_of d)"
  by (simp add: wanted_def demo_port_def in_space_def grant_of_def span_def)

lemmas demo_run = KE_RES_AssignResources_def KE_RES_ReleaseResources_def TryReserveAlternative_def demo_port_def demo_alloc_def
  RangesOverlap_def SpanEnd_def grant_of_def

lemma demo_assign: "KE_RES_AssignResources demo_alloc 1 (demo_port 0x3F8 8) [] () =
   (Success, [\<lparr>device = 1, granted = [\<lparr>cm_type = Port, cm_share = DeviceExclusive, cm_flags = 0, cm_start = 0x3F8, cm_length = 8\<rparr>]\<rparr>], ())"
  by (simp add: demo_run)


theorem assign_resources_spec_witness:
  "\<exists>s'. KE_RES_AssignResources demo_alloc 1 (demo_port 0x3F8 8) [] () = (Success, s', ()) \<and>
     KE_RES_GetAssignedResources 1 s' = Some (map grant_of (wanted (demo_port 0x3F8 8)))"
  using demo_assign assign_resources_spec [OF res_reach.start _ demo_port_fits demo_assign] by simp

text \<open>A range that runs past the end of the 32-bit space wraps: its inclusive end is smaller than
  its start, and the conflict test then passes over every reserved range above that end, even one
  with the same start.\<close>

lemma wrapped_span_unseen:
  assumes "SpanEnd (io_start d) (io_length d) < cm_start r"
  shows "\<not> ConflictsWithReserved d [r]"
  using assms by (simp add: RangesOverlap_def not_le)

lemma wrapped_span_granted_twice:
  "\<exists>s. KE_RES_AssignResources demo_alloc 2 (demo_port 0xFFFFF000 0x2000)
      [\<lparr>device = 1, granted = [\<lparr>cm_type = Port, cm_share = DeviceExclusive, cm_flags = 0, cm_start = 0xFFFFF000, cm_length = 0x1000\<rparr>]\<rparr>] () =
    (Success, s, ()) \<and> length s = 2"
  by (simp add: demo_run)

end
