(* ===== verification/Partition_Table.thy ===== *)
theory Partition_Table
  imports Prelude "HOL-Library.Monad_Syntax"
begin

text \<open>
  Partition tables, from \<open>Drivers/volmgr/volmgr_partition.hpp\<close>. A byte view is a list of bytes;
  an access outside it, undefined in the source, is \<open>None\<close>, so that a result \<open>Some\<close> includes that
  every access was in bounds. The output span is represented by its capacity and the list of
  the entries written. \<open>size_t\<close> is 32 bits wide.
\<close>

type_synonym ByteView = "u8 list"

record PartitionInfo =
  baseOffsetBytes :: u64
  lengthBytes :: u64

datatype PartitionScheme = NoScheme | Mbr | Gpt

definition byte :: "ByteView \<Rightarrow> nat \<Rightarrow> u8 option" where
  "byte p i = (if i < length p then Some (p ! i) else None)"

definition ReadLe16 :: "ByteView \<Rightarrow> u16 option" where
  "ReadLe16 p = do { a \<leftarrow> byte p 0; b \<leftarrow> byte p 1; Some (ucast a OR push_bit 8 (ucast b)) }"

definition ReadLe32 :: "ByteView \<Rightarrow> u32 option" where
  "ReadLe32 p = do {
     a \<leftarrow> byte p 0; b \<leftarrow> byte p 1; c \<leftarrow> byte p 2; d \<leftarrow> byte p 3;
     Some (ucast a OR push_bit 8 (ucast b) OR push_bit 16 (ucast c) OR push_bit 24 (ucast d)) }"

definition ReadLe64 :: "ByteView \<Rightarrow> u64 option" where
  "ReadLe64 p = do { lo \<leftarrow> ReadLe32 p; hi \<leftarrow> ReadLe32 (drop 4 p); Some (ucast lo OR push_bit 32 (ucast hi)) }"

definition HasMbrSignature :: "ByteView \<Rightarrow> bool option" where
  "HasMbrSignature sector0 =
     (if length sector0 \<ge> 512 then do { a \<leftarrow> byte sector0 510; b \<leftarrow> byte sector0 511; Some (a = 0x55 \<and> b = 0xAA) }
      else Some False)"

fun protective_from :: "ByteView \<Rightarrow> nat \<Rightarrow> nat \<Rightarrow> bool option" where
  "protective_from sector0 i 0 = Some False"
| "protective_from sector0 i (Suc n) = do {
     t \<leftarrow> byte sector0 (446 + i * 16 + 4);
     if t = 0xEE then Some True else protective_from sector0 (Suc i) n }"

definition IsGptProtectiveMbr :: "ByteView \<Rightarrow> bool option" where
  "IsGptProtectiveMbr sector0 = protective_from sector0 0 4"

definition gpt_sig :: "u8 list" where
  "gpt_sig = [0x45, 0x46, 0x49, 0x20, 0x50, 0x41, 0x52, 0x54]"

definition HasGptSignature :: "ByteView \<Rightarrow> bool" where
  "HasGptSignature lba1 = (if length lba1 < 8 then False else take 8 lba1 = gpt_sig)"

definition DetectScheme :: "ByteView \<Rightarrow> ByteView \<Rightarrow> PartitionScheme option" where
  "DetectScheme sector0 lba1 =
     (if lba1 \<noteq> [] \<and> HasGptSignature lba1 then Some Gpt
      else do {
        m \<leftarrow> HasMbrSignature sector0;
        if m then do { g \<leftarrow> IsGptProtectiveMbr sector0; Some (if g then Gpt else Mbr) }
        else Some NoScheme })"

fun mbr_loop :: "ByteView \<Rightarrow> nat \<Rightarrow> nat \<Rightarrow> nat \<Rightarrow> PartitionInfo list \<Rightarrow> PartitionInfo list option" where
  "mbr_loop sector0 cap i 0 out = Some out"
| "mbr_loop sector0 cap i (Suc n) out =
     (if length out < cap then do {
        let e = drop (446 + i * 16) sector0;
        ty \<leftarrow> byte e 4;
        if ty = 0 \<or> ty = 0xEE then mbr_loop sector0 cap (Suc i) n out
        else do {
          startLba \<leftarrow> ReadLe32 (drop 8 e);
          sectors \<leftarrow> ReadLe32 (drop 12 e);
          if sectors = 0 then mbr_loop sector0 cap (Suc i) n out
          else mbr_loop sector0 cap (Suc i) n
                 (out @ [\<lparr>baseOffsetBytes = ucast startLba * 512, lengthBytes = ucast sectors * 512\<rparr>]) } }
      else Some out)"

definition ParseMbr :: "ByteView \<Rightarrow> nat \<Rightarrow> (PartitionInfo list expected) option" where
  "ParseMbr sector0 cap = do {
     m \<leftarrow> HasMbrSignature sector0;
     if \<not> m then Some (Inl InvalidFormat)
     else do { out \<leftarrow> mbr_loop sector0 cap 0 4 []; Some (Inr out) } }"

fun any_used :: "ByteView \<Rightarrow> nat \<Rightarrow> nat \<Rightarrow> bool option" where
  "any_used e b 0 = Some False"
| "any_used e b (Suc n) = do { x \<leftarrow> byte e b; if x \<noteq> 0 then Some True else any_used e (Suc b) n }"

text \<open>\<open>n\<close> iterations are left of the \<open>numEntries\<close>.\<close>

fun gpt_loop :: "ByteView \<Rightarrow> u32 \<Rightarrow> nat \<Rightarrow> nat \<Rightarrow> nat \<Rightarrow> PartitionInfo list \<Rightarrow> PartitionInfo list option" where
  "gpt_loop entries entrySize cap i 0 out = Some out"
| "gpt_loop entries entrySize cap i (Suc n) out =
     (if length out < cap then
        (let off = of_nat i * entrySize in
         if off + entrySize > of_nat (length entries) then Some out
         else do {
           let e = take (unat entrySize) (drop (unat off) entries);
           used \<leftarrow> any_used e 0 16;
           if \<not> used then gpt_loop entries entrySize cap (Suc i) n out
           else do {
             firstLba \<leftarrow> ReadLe64 (drop 32 e);
             lastLba \<leftarrow> ReadLe64 (drop 40 e);
             if lastLba < firstLba then gpt_loop entries entrySize cap (Suc i) n out
             else gpt_loop entries entrySize cap (Suc i) n
                    (out @ [\<lparr>baseOffsetBytes = firstLba * 512, lengthBytes = (lastLba - firstLba + 1) * 512\<rparr>]) } })
      else Some out)"

definition ParseGptEntries :: "ByteView \<Rightarrow> ByteView \<Rightarrow> nat \<Rightarrow> (PartitionInfo list expected) option" where
  "ParseGptEntries header entries cap =
     (if length header < 88 \<or> \<not> HasGptSignature header then Some (Inl InvalidFormat)
      else do {
        numEntries \<leftarrow> ReadLe32 (drop 80 header);
        entrySize \<leftarrow> ReadLe32 (drop 84 header);
        if entrySize < 128 then Some (Inl InvalidFormat)
        else do { out \<leftarrow> gpt_loop entries entrySize cap 0 (unat numEntries) []; Some (Inr out) } })"

definition ComputeAbsoluteOffset :: "u64 \<Rightarrow> u64 \<Rightarrow> u64 \<Rightarrow> u64 \<Rightarrow> u64 expected" where
  "ComputeAbsoluteOffset base len reqOffset reqLength =
     (if reqOffset > len \<or> reqLength > len - reqOffset \<or>
         reqOffset > 0xFFFFFFFFFFFFFFFF - base \<or> reqLength > 0xFFFFFFFFFFFFFFFF - base - reqOffset
      then Inl OutOfRange else Inr (base + reqOffset))"

subsection \<open>The entries of a table\<close>

definition le32 :: "u8 list \<Rightarrow> u32" where
  "le32 p = ucast (p ! 0) OR push_bit 8 (ucast (p ! 1)) OR push_bit 16 (ucast (p ! 2)) OR push_bit 24 (ucast (p ! 3))"

definition le64 :: "u8 list \<Rightarrow> u64" where
  "le64 p = ucast (le32 p) OR push_bit 32 (ucast (le32 (drop 4 p)))"

lemma ReadLe32_le32: "4 \<le> length p \<Longrightarrow> ReadLe32 p = Some (le32 p)"
  by (cases p) (auto simp: ReadLe32_def byte_def le32_def)

lemma ReadLe64_le64: "8 \<le> length p \<Longrightarrow> ReadLe64 p = Some (le64 p)"
  by (simp add: ReadLe64_def le64_def ReadLe32_le32)

definition mbr_entry :: "ByteView \<Rightarrow> nat \<Rightarrow> u8 list" where
  "mbr_entry sector0 i = take 16 (drop (446 + i * 16) sector0)"

definition mbr_used :: "u8 list \<Rightarrow> bool" where
  "mbr_used e \<longleftrightarrow> e ! 4 \<noteq> 0 \<and> e ! 4 \<noteq> 0xEE \<and> le32 (drop 12 e) \<noteq> 0"

definition mbr_info :: "u8 list \<Rightarrow> PartitionInfo" where
  "mbr_info e = \<lparr>baseOffsetBytes = ucast (le32 (drop 8 e)) * 512, lengthBytes = ucast (le32 (drop 12 e)) * 512\<rparr>"

definition gpt_entry :: "ByteView \<Rightarrow> nat \<Rightarrow> nat \<Rightarrow> u8 list" where
  "gpt_entry entries n i = take n (drop (i * n) entries)"

definition gpt_used :: "u8 list \<Rightarrow> bool" where
  "gpt_used e \<longleftrightarrow> (\<exists>b<16. e ! b \<noteq> 0) \<and> le64 (drop 32 e) \<le> le64 (drop 40 e)"

definition gpt_info :: "u8 list \<Rightarrow> PartitionInfo" where
  "gpt_info e = \<lparr>baseOffsetBytes = le64 (drop 32 e) * 512, lengthBytes = (le64 (drop 40 e) - le64 (drop 32 e) + 1) * 512\<rparr>"

lemma le32_take: "4 \<le> n \<Longrightarrow> le32 (take n p) = le32 p"
  by (simp add: le32_def)

lemma mbr_loop_spec:
  assumes "512 \<le> length sector0" "i + n \<le> 4" "length out \<le> cap"
  shows "mbr_loop sector0 cap i n out =
    Some (take cap (out @ map mbr_info (filter mbr_used (map (mbr_entry sector0) [i..<i + n]))))"
  using assms(2-)
proof (induction n arbitrary: i out)
  case 0
  then show ?case by simp
next
  case (Suc n)
  let ?e = "drop (446 + i * 16) sector0"
  have l: "16 \<le> length ?e" using assms(1) Suc.prems by simp
  have b4: "byte ?e 4 = Some (mbr_entry sector0 i ! 4)" using l by (simp add: byte_def mbr_entry_def)
  have r8: "ReadLe32 (drop 8 ?e) = Some (le32 (drop 8 (mbr_entry sector0 i)))"
    using l le32_take [of 8 "drop 8 ?e"] by (simp add: ReadLe32_le32 mbr_entry_def drop_take)
  have r12: "ReadLe32 (drop 12 ?e) = Some (le32 (drop 12 (mbr_entry sector0 i)))"
    using l le32_take [of 4 "drop 12 ?e"] by (simp add: ReadLe32_le32 mbr_entry_def drop_take)
  have u: "[i..<i + Suc n] = i # [Suc i..<Suc i + n]" by (simp add: upt_rec)
  show ?case
  proof (cases "length out < cap")
    case False
    then show ?thesis using Suc.prems by simp
  next
    case True
    have k: "Suc i + n \<le> 4" using Suc.prems by simp
    show ?thesis
    proof (cases "mbr_used (mbr_entry sector0 i)")
      case used: True
      have "length (out @ [mbr_info (mbr_entry sector0 i)]) \<le> cap" using True by simp
      from Suc.IH [OF k this] used True b4 r8 r12 show ?thesis
        unfolding u by (simp add: mbr_used_def mbr_info_def Let_def)
    next
      case unused: False
      have "length out \<le> cap" using True by simp
      from Suc.IH [OF k this] unused True b4 r8 r12 show ?thesis
        unfolding u by (auto simp: mbr_used_def Let_def)
    qed
  qed
qed

lemma any_used_iff: "b + n \<le> length e \<Longrightarrow> any_used e b n = Some (\<exists>k\<in>{b..<b + n}. e ! k \<noteq> 0)"
proof (induction n arbitrary: b)
  case (Suc n)
  have "{b..<b + Suc n} = insert b {Suc b..<Suc b + n}" by auto
  with Suc.IH [of "Suc b"] Suc.prems show ?case by (auto simp: byte_def)
qed simp

lemma gpt_loop_spec:
  assumes small: "length entries < 2 ^ 31" and sz: "128 \<le> entrySize" "0 < length entries div unat entrySize"
    and "i \<le> length entries div unat entrySize" "length out \<le> cap"
  shows "gpt_loop entries entrySize cap i n out =
    Some (take cap (out @ map gpt_info (filter gpt_used (map (gpt_entry entries (unat entrySize)) [i..<min (i + n) (length entries div unat entrySize)]))))"
  using assms(4-)
proof (induction n arbitrary: i out)
  case 0
  then show ?case by simp
next
  case (Suc n)
  let ?n = "unat entrySize" and ?L = "length entries"
  let ?M = "?L div ?n"
  let ?off = "of_nat i * entrySize :: u32"
  have n: "128 \<le> ?n" using sz(1) by (simp add: word_le_nat_alt)
  have nL: "?n \<le> ?L" using sz(2) n by (metis div_less less_irrefl not_le)
  have "i * ?n \<le> ?M * ?n" using Suc.prems(1) by (rule mult_le_mono1)
  then have iL: "i * ?n \<le> ?L" by (rule order_trans) (rule div_times_less_eq_dividend)
  have i31: "i < 2 ^ 31"
  proof -
    have "i * 1 \<le> i * ?n" using n by (intro mult_le_mono2) simp
    then show ?thesis using iL small by linarith
  qed
  have uo: "unat ?off = i * ?n" using iL small i31 by (simp add: unat_word_ariths unat_of_nat)
  have ue: "unat (?off + entrySize) = i * ?n + ?n" using uo iL nL small by (simp add: unat_word_ariths)
  have uL: "unat (of_nat ?L :: u32) = ?L" using small by (simp add: unat_of_nat)
  have c: "of_nat ?L < ?off + entrySize \<longleftrightarrow> \<not> i < ?M"
  proof -
    have "i < ?M \<longleftrightarrow> i * ?n + ?n \<le> ?L" using n by (simp add: less_eq_div_iff_mult_less_eq Suc_le_eq [symmetric] add.commute)
    then show ?thesis unfolding word_less_nat_alt ue uL by auto
  qed
  show ?case
  proof (cases "length out < cap \<and> i < ?M")
    case False
    then show ?thesis using c Suc.prems by (auto simp: Let_def not_less)
  next
    case True
    let ?e = "gpt_entry entries ?n i"
    have f: "i * ?n + ?n \<le> ?L" using c True ue uL by (simp add: word_less_nat_alt not_less)
    have le: "length ?e = ?n" using f by (simp add: gpt_entry_def)
    have e: "take ?n (drop (unat ?off) entries) = ?e" unfolding uo gpt_entry_def by simp
    have us: "any_used ?e 0 16 = Some (\<exists>b<16. ?e ! b \<noteq> 0)" using any_used_iff [of 0 16 ?e] le n by (simp add: Bex_def)
    have r: "ReadLe64 (drop 32 ?e) = Some (le64 (drop 32 ?e))" "ReadLe64 (drop 40 ?e) = Some (le64 (drop 40 ?e))"
      using le n by (simp_all add: ReadLe64_le64)
    have u: "[i..<min (i + Suc n) ?M] = i # [Suc i..<min (Suc i + n) ?M]" using True by (simp add: upt_conv_Cons min_def)
    have k: "Suc i \<le> ?M" using True by simp
    have step: "gpt_loop entries entrySize cap i (Suc n) out =
        gpt_loop entries entrySize cap (Suc i) n (if gpt_used ?e then out @ [gpt_info ?e] else out)"
      using True c unfolding gpt_loop.simps Let_def e us r by (auto simp: gpt_used_def gpt_info_def)
    show ?thesis
    proof (cases "gpt_used ?e")
      case used: True
      have "length (out @ [gpt_info ?e]) \<le> cap" using True by simp
      from Suc.IH [OF k this] used show ?thesis unfolding u step by simp
    next
      case unused: False
      have "length out \<le> cap" using True by simp
      from Suc.IH [OF k this] unused show ?thesis unfolding u step by simp
    qed
  qed
qed

lemma gpt_loop_none:
  assumes "length entries < 2 ^ 31" "length entries div unat entrySize = 0" "128 \<le> entrySize"
  shows "gpt_loop entries entrySize cap 0 n [] = Some []"
proof (cases n)
  case (Suc m)
  have "0 < unat entrySize" using assms(3) by (simp add: word_le_nat_alt)
  then have "length entries < unat entrySize" using assms(2) by (simp add: div_eq_0_iff)
  then have "(of_nat (length entries) :: u32) < entrySize" using assms(1) by (simp add: word_less_nat_alt unat_of_nat)
  with Suc show ?thesis by simp
qed simp

lemma ParseMbr_eq:
  "ParseMbr sector0 cap =
     Some (if 512 \<le> length sector0 \<and> sector0 ! 510 = 0x55 \<and> sector0 ! 511 = 0xAA
           then Inr (take cap (map mbr_info (filter mbr_used (map (mbr_entry sector0) [0..<4]))))
           else Inl InvalidFormat)"
  using mbr_loop_spec [of sector0 0 4 "[]" cap] by (auto simp: ParseMbr_def HasMbrSignature_def byte_def)

lemma DetectScheme_defined: "512 \<le> length sector0 \<Longrightarrow> \<exists>s. DetectScheme sector0 lba1 = Some s"
  by (auto simp: DetectScheme_def HasMbrSignature_def IsGptProtectiveMbr_def byte_def numeral_nat)

text \<open>C37. Partition tables. Whatever the bytes, the parsers read only inside the buffers. On a
  sector with the boot signature the MBR parser returns exactly the partitions of the four
  primary entries that are used, not protective and not empty, in order and up to the
  capacity. With a GPT header and less than 2 GB of entries, the GPT parser returns exactly the
  used entries, with ranges that are not reversed, among the declared ones that lie wholly in
  the buffer.\<close>

theorem parse_partitions_spec:
  "ParseMbr sector0 cap =
     Some (if 512 \<le> length sector0 \<and> sector0 ! 510 = 0x55 \<and> sector0 ! 511 = 0xAA
           then Inr (take cap (map mbr_info (filter mbr_used (map (mbr_entry sector0) [0..<4]))))
           else Inl InvalidFormat) \<and>
   (length entries < 2 ^ 31 \<longrightarrow> ParseGptEntries header entries cap =
     Some (if 88 \<le> length header \<and> take 8 header = gpt_sig \<and> 128 \<le> le32 (drop 84 header)
           then Inr (take cap (map gpt_info (filter gpt_used (map (gpt_entry entries (unat (le32 (drop 84 header))))
                  [0..<min (unat (le32 (drop 80 header))) (length entries div unat (le32 (drop 84 header)))]))))
           else Inl InvalidFormat))"
proof (intro conjI impI)
  show "ParseMbr sector0 cap =
     Some (if 512 \<le> length sector0 \<and> sector0 ! 510 = 0x55 \<and> sector0 ! 511 = 0xAA
           then Inr (take cap (map mbr_info (filter mbr_used (map (mbr_entry sector0) [0..<4]))))
           else Inl InvalidFormat)"
    by (rule ParseMbr_eq)
next
  assume small: "length entries < 2 ^ 31"
  let ?e = "le32 (drop 84 header)"
  have loop: "gpt_loop entries ?e cap 0 n [] =
      Some (take cap (map gpt_info (filter gpt_used (map (gpt_entry entries (unat ?e)) [0..<min n (length entries div unat ?e)]))))"
    if "128 \<le> ?e" for n
    using gpt_loop_spec [OF small that, of 0 "[]" cap n] gpt_loop_none [OF small _ that, of cap n]
    by (cases "length entries div unat ?e = 0") simp_all
  show "ParseGptEntries header entries cap =
     Some (if 88 \<le> length header \<and> take 8 header = gpt_sig \<and> 128 \<le> ?e
           then Inr (take cap (map gpt_info (filter gpt_used (map (gpt_entry entries (unat ?e))
                  [0..<min (unat (le32 (drop 80 header))) (length entries div unat ?e)]))))
           else Inl InvalidFormat)"
    using loop by (auto simp: ParseGptEntries_def HasGptSignature_def ReadLe32_le32 not_less not_le)
qed

definition demo_mbr :: ByteView where
  "demo_mbr = replicate 446 0 @ [0, 0, 0, 0, 6, 0, 0, 0, 1, 0, 0, 0, 16, 0, 0, 0] @ replicate 48 0 @ [0x55, 0xAA]"

lemma demo_entries: "map (mbr_entry demo_mbr) [0..<4] = [[0, 0, 0, 0, 6, 0, 0, 0, 1, 0, 0, 0, 16, 0, 0, 0], replicate 16 0, replicate 16 0, replicate 16 0]"
  by (simp add: upt_rec mbr_entry_def demo_mbr_def)

lemma demo_used: "mbr_used [0, 0, 0, 0, 6, 0, 0, 0, 1, 0, 0, 0, 16, 0, 0, 0]" "\<not> mbr_used (replicate 16 0)"
    "mbr_info [0, 0, 0, 0, 6, 0, 0, 0, 1, 0, 0, 0, 16, 0, 0, 0] = \<lparr>baseOffsetBytes = 512, lengthBytes = 8192\<rparr>"
  by (simp_all add: mbr_used_def mbr_info_def le32_def)

theorem parse_partitions_spec_witness:
  "ParseMbr demo_mbr 4 = Some (Inr [\<lparr>baseOffsetBytes = 512, lengthBytes = 8192\<rparr>]) \<and>
   ParseGptEntries [] [] 4 = Some (Inl InvalidFormat)"
proof -
  have s: "512 \<le> length demo_mbr" "demo_mbr ! 510 = 0x55" "demo_mbr ! 511 = 0xAA" by (simp_all add: demo_mbr_def nth_append)
  show ?thesis using parse_partitions_spec [of demo_mbr 4 "[]" "[]"] s unfolding demo_entries by (simp add: demo_used)
qed

lemma absolute_offset_in_partition:
  assumes "ComputeAbsoluteOffset base len off n = Inr a"
  shows "unat a = unat base + unat off \<and> unat off + unat n \<le> unat len \<and> unat base + unat off + unat n < 2 ^ 64"
proof -
  have c: "off \<le> len" "n \<le> len - off" "off \<le> 0xFFFFFFFFFFFFFFFF - base" "n \<le> 0xFFFFFFFFFFFFFFFF - base - off" "a = base + off"
    using assms by (auto simp: ComputeAbsoluteOffset_def not_less split: if_splits)
  have m: "(0xFFFFFFFFFFFFFFFF :: u64) = - 1" by simp
  have u1: "unat (- 1 :: u64) = 2 ^ 64 - 1" by (simp add: unsigned_minus_1_eq_mask mask_eq_exp_minus_1)
  have "base \<le> - 1" by simp
  then have ub: "unat (- 1 - base) = 2 ^ 64 - 1 - unat base" unfolding u1 [symmetric] by (rule unat_sub)
  have o: "unat off \<le> 2 ^ 64 - 1 - unat base" using c(3) ub unfolding m word_le_nat_alt by simp
  have "unat (- 1 - base - off) = 2 ^ 64 - 1 - unat base - unat off" using c(3) ub unfolding m by (simp add: unat_sub)
  then have nn: "unat n \<le> 2 ^ 64 - 1 - unat base - unat off" using c(4) unfolding m word_le_nat_alt by simp
  have "unat n \<le> unat len - unat off" using c(1,2) by (simp add: word_le_nat_alt unat_sub)
  moreover have "unat off \<le> unat len" using c(1) by (simp add: word_le_nat_alt)
  moreover have "unat base < 2 ^ 64" using unsigned_less [of base] by simp
  ultimately have "unat off + unat n \<le> unat len" "unat base + unat off + unat n < 2 ^ 64" using o nn by linarith+
  then show ?thesis unfolding c(5) by (simp add: unat_word_ariths)
qed

end
