(* ===== verification/Mini_Fat.thy ===== *)
theory Mini_Fat
  imports Partition_Table
begin

text \<open>
  The read-only FAT16 reader the kernel boots from, \<open>Source/src/initial/mini_fat16.cpp\<close>. The boot
  disk is a function that reads a number of sectors from an absolute sector, \<open>None\<close> when the
  read fails; whether a vector can grow to a size is the argument \<open>fits\<close>. Names and paths are byte
  strings. The stack buffers are the sectors just read. A value \<open>None\<close> of a result is an access
  outside a buffer.
\<close>

type_synonym disk = "u32 \<Rightarrow> u32 \<Rightarrow> u8 list option"

abbreviation kFatEofMin :: u16 where "kFatEofMin \<equiv> 0xFFF8"
abbreviation kAttrLongName :: u8 where "kAttrLongName \<equiv> 0x0F"
abbreviation kAttrDirectory :: u8 where "kAttrDirectory \<equiv> 0x10"
abbreviation kAttrVolumeId :: u8 where "kAttrVolumeId \<equiv> 0x08"
abbreviation kEntryDeleted :: u8 where "kEntryDeleted \<equiv> 0xE5"

record FatBpb =
  jmpBoot :: "u8 list"
  oemName :: "u8 list"
  bpb_bytesPerSector :: u16
  bpb_sectorsPerCluster :: u8
  bpb_reservedSectors :: u16
  bpb_numFATs :: u8
  bpb_rootEntryCount :: u16
  totalSectors16 :: u16
  media :: u8
  fatSize16 :: u16
  sectorsPerTrack :: u16
  numHeads :: u16
  hiddenSectors :: u32
  totalSectors32 :: u32

record FatDirEntry =
  fname :: "u8 list"
  attr :: u8
  ntReserved :: u8
  createTimeTenth :: u8
  createTime :: u16
  createDate :: u16
  lastAccessDate :: u16
  firstClusterHigh :: u16
  writeTime :: u16
  writeDate :: u16
  firstClusterLow :: u16
  fileSize :: u32

record Volume =
  partitionLba :: u32
  partitionSectors :: u64
  bytesPerSector :: u16
  sectorsPerCluster :: u8
  reservedSectors :: u16
  numFATs :: u8
  rootEntryCount :: u16
  fatSizeSectors :: u16
  rootDirSector :: u32
  rootDirSectors :: u32
  dataStartSector :: u32
  bytesPerCluster :: u32

definition read_le16 :: "u8 list \<Rightarrow> u16" where
  "read_le16 p = ucast (p ! 0) OR push_bit 8 (ucast (p ! 1))"

text \<open>The packed structures as the processor reads them from memory, least significant byte first.\<close>

definition FatBpb_of :: "u8 list \<Rightarrow> FatBpb" where
  "FatBpb_of b = \<lparr>jmpBoot = take 3 b, oemName = take 8 (drop 3 b), bpb_bytesPerSector = read_le16 (drop 11 b),
     bpb_sectorsPerCluster = b ! 13, bpb_reservedSectors = read_le16 (drop 14 b), bpb_numFATs = b ! 16,
     bpb_rootEntryCount = read_le16 (drop 17 b), totalSectors16 = read_le16 (drop 19 b), media = b ! 21,
     fatSize16 = read_le16 (drop 22 b), sectorsPerTrack = read_le16 (drop 24 b), numHeads = read_le16 (drop 26 b),
     hiddenSectors = le32 (drop 28 b), totalSectors32 = le32 (drop 32 b)\<rparr>"

definition FatDirEntry_of :: "u8 list \<Rightarrow> FatDirEntry" where
  "FatDirEntry_of b = \<lparr>fname = take 11 b, attr = b ! 11, ntReserved = b ! 12, createTimeTenth = b ! 13,
     createTime = read_le16 (drop 14 b), createDate = read_le16 (drop 16 b), lastAccessDate = read_le16 (drop 18 b),
     firstClusterHigh = read_le16 (drop 20 b), writeTime = read_le16 (drop 22 b), writeDate = read_le16 (drop 24 b),
     firstClusterLow = read_le16 (drop 26 b), fileSize = le32 (drop 28 b)\<rparr>"

subsection \<open>Sectors\<close>

definition read_abs_sectors :: "disk \<Rightarrow> u32 \<Rightarrow> u32 \<Rightarrow> u8 list expected" where
  "read_abs_sectors d lba cnt = (case d lba cnt of Some bs \<Rightarrow> Inr bs | None \<Rightarrow> Inl IoError)"

definition read_part_sectors :: "disk \<Rightarrow> Volume \<Rightarrow> u32 \<Rightarrow> u32 \<Rightarrow> u8 list expected" where
  "read_part_sectors d vol rel_lba cnt =
     (if ucast rel_lba > partitionSectors vol \<or> ucast cnt > partitionSectors vol - ucast rel_lba then Inl OutOfRange
      else let absoluteLba = ucast (partitionLba vol) + ucast rel_lba :: u64 in
      if absoluteLba > 0xFFFFFFFF \<or> (cnt \<noteq> 0 \<and> ucast (cnt - 1) > 0xFFFFFFFF - absoluteLba) then Inl ArithmeticOverflow
      else read_abs_sectors d (ucast absoluteLba) cnt)"

subsection \<open>Short names\<close>

definition to_upper_ascii :: "u8 \<Rightarrow> u8" where
  "to_upper_ascii c = (if c \<ge> 97 \<and> c \<le> 122 then c - 97 + 65 else c)"

fun last_dot :: "u8 list \<Rightarrow> nat \<Rightarrow> nat option \<Rightarrow> nat option" where
  "last_dot [] i dot = dot"
| "last_dot (c # cs) i dot = last_dot cs (Suc i) (if c = 46 then Some i else dot)"

definition put_name :: "nat \<Rightarrow> u8 list \<Rightarrow> u8 list \<Rightarrow> u8 list" where
  "put_name at cs out = take at out @ map to_upper_ascii cs @ drop (at + length cs) out"

definition to_short_name :: "u8 list \<Rightarrow> u8 list expected" where
  "to_short_name name =
     (if name = [] \<or> name = [46] \<or> name = [46, 46] then Inl InvalidArgument
      else let dot = last_dot name 0 None;
               base = (case dot of None \<Rightarrow> name | Some i \<Rightarrow> take i name);
               ext = (case dot of None \<Rightarrow> [] | Some i \<Rightarrow> drop (i + 1) name) in
      if base = [] then Inl InvalidArgument
      else Inr (put_name 8 (take 3 ext) (put_name 0 (take 8 base) (replicate 11 32))))"

definition names_equal :: "u8 list \<Rightarrow> u8 list \<Rightarrow> bool" where
  "names_equal entry want \<longleftrightarrow> list_all (\<lambda>i. entry ! i = want ! i) [0..<11]"

subsection \<open>Opening the volume\<close>

definition volume_of :: "PartitionInfo \<Rightarrow> FatBpb \<Rightarrow> Volume" where
  "volume_of p bpb =
     (let root = ucast (bpb_reservedSectors bpb) + ucast (bpb_numFATs bpb) * ucast (fatSize16 bpb);
          rsec = (ucast (bpb_rootEntryCount bpb) * 32 + (ucast (bpb_bytesPerSector bpb) - 1)) div ucast (bpb_bytesPerSector bpb)
      in \<lparr>partitionLba = ucast (baseOffsetBytes p div 512), partitionSectors = lengthBytes p div 512,
          bytesPerSector = bpb_bytesPerSector bpb, sectorsPerCluster = bpb_sectorsPerCluster bpb,
          reservedSectors = bpb_reservedSectors bpb, numFATs = bpb_numFATs bpb, rootEntryCount = bpb_rootEntryCount bpb,
          fatSizeSectors = fatSize16 bpb, rootDirSector = root, rootDirSectors = rsec, dataStartSector = root + rsec,
          bytesPerCluster = ucast (bpb_sectorsPerCluster bpb) * ucast (bpb_bytesPerSector bpb)\<rparr>)"

definition unopened :: "PartitionInfo \<Rightarrow> Volume" where
  "unopened p = \<lparr>partitionLba = ucast (baseOffsetBytes p div 512), partitionSectors = lengthBytes p div 512,
     bytesPerSector = 512, sectorsPerCluster = 0, reservedSectors = 0, numFATs = 0, rootEntryCount = 0, fatSizeSectors = 0,
     rootDirSector = 0, rootDirSectors = 0, dataStartSector = 0, bytesPerCluster = 0\<rparr>"

definition open_partition :: "disk \<Rightarrow> PartitionInfo \<Rightarrow> Volume expected" where
  "open_partition d p =
     (if baseOffsetBytes p mod 512 \<noteq> 0 then Inl InvalidAlignment
      else if baseOffsetBytes p div 512 > 0xFFFFFFFF \<or> lengthBytes p mod 512 \<noteq> 0 then Inl InvalidAlignment
      else case read_part_sectors d (unopened p) 0 1 of
        Inl e \<Rightarrow> Inl e
      | Inr s \<Rightarrow>
          if s ! 510 \<noteq> 0x55 \<or> s ! 511 \<noteq> 0xAA then Inl InvalidData
          else let bpb = FatBpb_of s in
          if bpb_bytesPerSector bpb \<noteq> 512 \<or> bpb_sectorsPerCluster bpb = 0 \<or> bpb_numFATs bpb = 0 \<or> fatSize16 bpb = 0 \<or>
             bpb_rootEntryCount bpb = 0 then Inl InvalidData
          else Inr (volume_of p bpb))"

definition open_volume :: "bool \<Rightarrow> disk \<Rightarrow> (Volume expected) option" where
  "open_volume present d =
     (if \<not> present then Some (Inl DeviceNotReady)
      else case read_abs_sectors d 0 1 of
        Inl e \<Rightarrow> Some (Inl e)
      | Inr sector0 \<Rightarrow> do {
          scheme \<leftarrow> DetectScheme sector0 [];
          if scheme \<noteq> Mbr then Some (Inl Unsupported)
          else do {
            parsed \<leftarrow> ParseMbr sector0 4;
            Some (case parsed of
                Inl e \<Rightarrow> Inl e
              | Inr [] \<Rightarrow> Inl NotFound
              | Inr (p # _) \<Rightarrow> open_partition d p) } })"

subsection \<open>Clusters and directories\<close>

definition read_fat_entry :: "disk \<Rightarrow> Volume \<Rightarrow> u16 \<Rightarrow> u16 expected" where
  "read_fat_entry d vol cluster =
     (let offset_bytes = ucast cluster * 2 :: u32;
          sector = ucast (reservedSectors vol) + offset_bytes div ucast (bytesPerSector vol);
          entry_off = offset_bytes mod ucast (bytesPerSector vol) in
      case read_part_sectors d vol sector 1 of
        Inl e \<Rightarrow> Inl e
      | Inr buf \<Rightarrow> Inr (read_le16 (drop (unat entry_off) buf)))"

definition cluster_to_lba :: "Volume \<Rightarrow> u16 \<Rightarrow> u32 expected" where
  "cluster_to_lba vol cluster =
     (if cluster < 2 then Inl InvalidData
      else Inr (dataStartSector vol + ucast (cluster - 2) * ucast (sectorsPerCluster vol)))"

definition read_cluster :: "disk \<Rightarrow> Volume \<Rightarrow> u16 \<Rightarrow> nat \<Rightarrow> u8 list expected" where
  "read_cluster d vol cluster bufsize =
     (if bufsize < unat (bytesPerCluster vol) then Inl BufferTooSmall
      else case cluster_to_lba vol cluster of
        Inl e \<Rightarrow> Inl e
      | Inr rel_lba \<Rightarrow> read_part_sectors d vol rel_lba (ucast (sectorsPerCluster vol)))"

fun find_entry :: "u8 list \<Rightarrow> u8 list \<Rightarrow> bool \<Rightarrow> nat \<Rightarrow> nat \<Rightarrow> FatDirEntry expected" where
  "find_entry dir want want_dir i 0 = Inl NotFound"
| "find_entry dir want want_dir i (Suc n) =
     (let e = FatDirEntry_of (take 32 (drop (i * 32) dir)) in
      if fname e ! 0 = 0 then Inl NotFound
      else if fname e ! 0 = kEntryDeleted then find_entry dir want want_dir (Suc i) n
      else if attr e = kAttrLongName then find_entry dir want want_dir (Suc i) n
      else if attr e AND kAttrVolumeId \<noteq> 0 \<and> attr e AND kAttrDirectory = 0 then find_entry dir want want_dir (Suc i) n
      else if (attr e AND kAttrDirectory \<noteq> 0) \<noteq> want_dir then find_entry dir want want_dir (Suc i) n
      else if \<not> names_equal (fname e) want then find_entry dir want want_dir (Suc i) n
      else Inr e)"

definition find_in_dir_bytes :: "u8 list \<Rightarrow> u8 list \<Rightarrow> bool \<Rightarrow> FatDirEntry expected" where
  "find_in_dir_bytes dir want want_dir = find_entry dir want want_dir 0 (length dir div 32)"

definition load_root_dir :: "(nat \<Rightarrow> bool) \<Rightarrow> disk \<Rightarrow> Volume \<Rightarrow> u8 list expected" where
  "load_root_dir fits d vol =
     (if \<not> fits (unat (rootDirSectors vol * ucast (bytesPerSector vol))) then Inl OutOfMemory
      else read_part_sectors d vol (rootDirSector vol) (rootDirSectors vol))"

text \<open>The two chain loops; the first argument counts the iterations the guard still allows.\<close>

fun dir_chain :: "nat \<Rightarrow> (nat \<Rightarrow> bool) \<Rightarrow> disk \<Rightarrow> Volume \<Rightarrow> u16 \<Rightarrow> u8 list \<Rightarrow> u8 list expected" where
  "dir_chain 0 fits d vol cluster out = Inl InvalidData"
| "dir_chain (Suc g) fits d vol cluster out =
     (if cluster < 2 \<or> cluster \<ge> kFatEofMin then Inl InvalidData
      else if \<not> fits (length out + unat (bytesPerCluster vol)) then Inl OutOfMemory
      else case read_cluster d vol cluster (unat (bytesPerCluster vol)) of
        Inl e \<Rightarrow> Inl e
      | Inr bs \<Rightarrow>
          (case read_fat_entry d vol cluster of
             Inl e \<Rightarrow> Inl e
           | Inr next \<Rightarrow> if next \<ge> kFatEofMin then Inr (out @ bs) else dir_chain g fits d vol next (out @ bs)))"

definition load_cluster_chain_dir :: "(nat \<Rightarrow> bool) \<Rightarrow> disk \<Rightarrow> Volume \<Rightarrow> u16 \<Rightarrow> u8 list expected" where
  "load_cluster_chain_dir fits d vol start_cluster = dir_chain 4096 fits d vol start_cluster []"

fun file_chain :: "nat \<Rightarrow> (nat \<Rightarrow> bool) \<Rightarrow> disk \<Rightarrow> Volume \<Rightarrow> u16 \<Rightarrow> u32 \<Rightarrow> u8 list \<Rightarrow> u8 list expected" where
  "file_chain 0 fits d vol cluster remaining out = (if remaining = 0 then Inr out else Inl InvalidData)"
| "file_chain (Suc g) fits d vol cluster remaining out =
     (if remaining = 0 then Inr out
      else if cluster < 2 \<or> cluster \<ge> kFatEofMin then Inl UnexpectedEndOfFile
      else case read_cluster d vol cluster (unat (bytesPerCluster vol)) of
        Inl e \<Rightarrow> Inl e
      | Inr buf \<Rightarrow>
          (let n = (if remaining < bytesPerCluster vol then remaining else bytesPerCluster vol) in
           if \<not> fits (length out + unat n) then Inl OutOfMemory
           else let out1 = out @ take (unat n) buf; remaining1 = remaining - n in
           if remaining1 = 0 then Inr out1
           else case read_fat_entry d vol cluster of
             Inl e \<Rightarrow> Inl e
           | Inr next \<Rightarrow> if next \<ge> kFatEofMin then Inl UnexpectedEndOfFile
                        else file_chain g fits d vol next remaining1 out1))"

definition read_file_clusters :: "(nat \<Rightarrow> bool) \<Rightarrow> disk \<Rightarrow> Volume \<Rightarrow> u16 \<Rightarrow> u32 \<Rightarrow> u8 list expected" where
  "read_file_clusters fits d vol start_cluster file_size =
     (if file_size = 0 then Inr []
      else if start_cluster = 0 then Inl InvalidData
      else if \<not> fits (unat file_size) then Inl OutOfMemory
      else if \<not> fits (unat (bytesPerCluster vol)) then Inl OutOfMemory
      else file_chain 65536 fits d vol start_cluster file_size [])"

subsection \<open>Paths\<close>

text \<open>The result is whether there is a component, the component, and the rest of the path.\<close>

definition next_component :: "u8 list \<Rightarrow> bool \<times> u8 list \<times> u8 list" where
  "next_component path =
     (let p = dropWhile (\<lambda>c. c = 47) path in
      if p = [] then (False, [], [])
      else let component = takeWhile (\<lambda>c. c \<noteq> 47) p in
      (component \<noteq> [], component, if length component = length p then [] else drop (length component + 1) p))"

lemma next_component_shorter [termination_simp]:
  assumes "next_component path = (True, c, rest)"
  shows "length rest < length path"
proof -
  have l: "length (dropWhile (\<lambda>c. c = 47) path) \<le> length path" by (rule length_dropWhile_le)
  from assms show ?thesis
  proof (cases "dropWhile (\<lambda>c. c = 47) path")
    case (Cons x xs)
    with assms l show ?thesis by (auto simp: next_component_def Let_def split: if_splits)
  qed (simp add: next_component_def)
qed

function walk :: "(nat \<Rightarrow> bool) \<Rightarrow> disk \<Rightarrow> Volume \<Rightarrow> u8 list \<Rightarrow> u8 list \<Rightarrow> u8 list \<Rightarrow> KernelError \<times> u8 list" where
  "walk fits d vol dir component remaining =
     (let (has_more, look, rest) = next_component remaining in
      case to_short_name component of
        Inl e \<Rightarrow> (e, [])
      | Inr short_name \<Rightarrow>
          if has_more then
            (case find_in_dir_bytes dir short_name True of
               Inl e \<Rightarrow> (e, [])
             | Inr entry \<Rightarrow>
                 (case load_cluster_chain_dir fits d vol (firstClusterLow entry) of
                    Inl e \<Rightarrow> (e, [])
                  | Inr dir1 \<Rightarrow> walk fits d vol dir1 look rest))
          else
            (case find_in_dir_bytes dir short_name False of
               Inl e \<Rightarrow> (e, [])
             | Inr entry \<Rightarrow>
                 (case read_file_clusters fits d vol (firstClusterLow entry) (fileSize entry) of
                    Inl e \<Rightarrow> (e, [])
                  | Inr out \<Rightarrow> (Success, out))))"
  by pat_completeness auto
termination
  by (relation "measure (\<lambda>(fits, d, vol, dir, component, remaining). length remaining)") (auto intro: next_component_shorter [OF sym])

declare walk.simps [simp del]

definition ReadFile :: "(nat \<Rightarrow> bool) \<Rightarrow> bool \<Rightarrow> disk \<Rightarrow> u8 list \<Rightarrow> (KernelError \<times> u8 list) option" where
  "ReadFile fits present d path = do {
     vol \<leftarrow> open_volume present d;
     Some (case vol of
         Inl e \<Rightarrow> (e, [])
       | Inr v \<Rightarrow>
           (case load_root_dir fits d v of
              Inl e \<Rightarrow> (e, [])
            | Inr root \<Rightarrow>
                (let (ok, component, remaining) = next_component path in
                 if \<not> ok then (InvalidArgument, []) else walk fits d v root component remaining))) }"

end
