(* ===== verification/Boot_Files.thy ===== *)
theory Boot_Files
  imports Mini_Fat
begin

text \<open>
  What the FAT16 reader reads. A \<open>chain\<close> relates the first cluster of a chain to the clusters on it
  and their bytes; \<open>resolves\<close> relates a directory image and the components of a path to the
  directory entry of the file. \<open>ReadFile\<close> is characterised by them.
\<close>

subsection \<open>Chains\<close>

definition valid_cluster :: "u16 \<Rightarrow> bool" where
  "valid_cluster c \<longleftrightarrow> 2 \<le> c \<and> c < kFatEofMin"

abbreviation cluster_bytes :: "disk \<Rightarrow> Volume \<Rightarrow> u16 \<Rightarrow> u8 list expected" where
  "cluster_bytes d vol c \<equiv> read_cluster d vol c (unat (bytesPerCluster vol))"

inductive chain :: "disk \<Rightarrow> Volume \<Rightarrow> u16 \<Rightarrow> u16 list \<Rightarrow> u8 list \<Rightarrow> bool" for d vol where
  one: "valid_cluster c \<Longrightarrow> cluster_bytes d vol c = Inr b \<Longrightarrow> chain d vol c [c] b"
| link: "valid_cluster c \<Longrightarrow> cluster_bytes d vol c = Inr b \<Longrightarrow> read_fat_entry d vol c = Inr y \<Longrightarrow>
    chain d vol y cs bs \<Longrightarrow> chain d vol c (c # cs) (b @ bs)"

definition disk_ok :: "disk \<Rightarrow> bool" where
  "disk_ok d \<longleftrightarrow> (\<forall>lba n bs. d lba n = Some bs \<longrightarrow> length bs = unat n * 512)"

definition vol_ok :: "Volume \<Rightarrow> bool" where
  "vol_ok v \<longleftrightarrow> bytesPerSector v = 512 \<and> sectorsPerCluster v \<noteq> 0 \<and> bytesPerCluster v = ucast (sectorsPerCluster v) * 512"

lemma read_part_length: "disk_ok d \<Longrightarrow> read_part_sectors d vol l n = Inr bs \<Longrightarrow> length bs = unat n * 512"
  by (auto simp: read_part_sectors_def read_abs_sectors_def disk_ok_def Let_def split: if_splits option.splits)

lemma unat_u8_u32: "unat (ucast (x :: u8) :: u32) = unat x"
proof -
  have "unat x < 256" using unsigned_less [of x] by simp
  then show ?thesis by (simp add: unsigned_ucast_eq take_bit_nat_eq_self)
qed

lemma vol_bytes: "vol_ok v \<Longrightarrow> unat (bytesPerCluster v) = unat (sectorsPerCluster v) * 512"
proof -
  assume v: "vol_ok v"
  have "unat (sectorsPerCluster v) < 256" using unsigned_less [of "sectorsPerCluster v"] by simp
  with v show ?thesis by (simp add: vol_ok_def unat_word_ariths unat_u8_u32)
qed

lemma vol_bytes_pos: "vol_ok v \<Longrightarrow> 0 < unat (bytesPerCluster v)"
  using vol_bytes [of v] by (simp add: vol_ok_def unat_gt_0)

lemma cluster_length:
  assumes "disk_ok d" "vol_ok v" "cluster_bytes d v c = Inr b"
  shows "length b = unat (bytesPerCluster v)"
proof -
  obtain l where "read_part_sectors d v l (ucast (sectorsPerCluster v)) = Inr b"
    using assms(3) by (auto simp: read_cluster_def split: if_splits sum.splits)
  from read_part_length [OF assms(1) this] show ?thesis
    using vol_bytes [OF assms(2)] by (simp add: unat_u8_u32)
qed

lemma chain_valid: "chain d vol c cs bs \<Longrightarrow> valid_cluster c \<and> cs \<noteq> [] \<and> (\<exists>b. cluster_bytes d vol c = Inr b)"
  by (cases rule: chain.cases) auto

lemma chain_single: "chain d vol c cs bs \<Longrightarrow> length cs = 1 \<Longrightarrow> cluster_bytes d vol c = Inr bs"
  by (cases rule: chain.cases) (auto dest: chain_valid)

lemma chain_next:
  assumes "chain d vol c cs bs" "1 < length cs"
  obtains b y cs' bs' where "cs = c # cs'" "bs = b @ bs'" "cluster_bytes d vol c = Inr b" "read_fat_entry d vol c = Inr y" "chain d vol y cs' bs'"
  using assms(1)
proof cases
  case one
  then show ?thesis using assms(2) by simp
next
  case (link b y cs' bs')
  then show ?thesis using that by blast
qed

subsection \<open>Directory chains\<close>

lemma dir_chain_spec:
  assumes "\<forall>n. fits n"
  shows "dir_chain g fits d vol c out = Inr r \<longleftrightarrow>
    (\<exists>cs bs e. chain d vol c cs bs \<and> length cs \<le> g \<and> read_fat_entry d vol (last cs) = Inr e \<and> kFatEofMin \<le> e \<and> r = out @ bs)"
proof (induction g arbitrary: c out)
  case 0
  then show ?case by (auto dest: chain_valid)
next
  case (Suc g)
  show ?case (is "?L \<longleftrightarrow> ?R")
  proof (cases "valid_cluster c \<and> (\<exists>b y. cluster_bytes d vol c = Inr b \<and> read_fat_entry d vol c = Inr y)")
    case False
    then have "\<not> ?L" using assms by (auto simp: valid_cluster_def not_less split: sum.splits)
    moreover have "\<not> ?R"
    proof
      assume ?R
      then obtain cs bs e where c: "chain d vol c cs bs" "read_fat_entry d vol (last cs) = Inr e" by blast
      then have "\<exists>y. read_fat_entry d vol c = Inr y" by (cases rule: chain.cases) auto
      with chain_valid [OF c(1)] False show False by blast
    qed
    ultimately show ?thesis by blast
  next
    case True
    then obtain b y where c: "valid_cluster c" "cluster_bytes d vol c = Inr b" "read_fat_entry d vol c = Inr y" by blast
    then have nc: "\<not> (c < 2 \<or> kFatEofMin \<le> c)" by (auto simp: valid_cluster_def not_less)
    show ?thesis
    proof (cases "kFatEofMin \<le> y")
      case True
      have "chain d vol y cs bs \<Longrightarrow> False" for cs bs using chain_valid [of d vol y cs bs] True by (auto simp: valid_cluster_def)
      then have "chain d vol c cs bs \<longleftrightarrow> cs = [c] \<and> bs = b" for cs bs 
        using c chain.one [OF c(1,2)] by (subst chain.simps) auto
      then have "?R \<longleftrightarrow> r = out @ b" using c True by auto
      then show ?thesis using c True nc assms by auto
    next
      case False
      have "?R \<longleftrightarrow> (\<exists>cs bs e. chain d vol y cs bs \<and> length cs \<le> g \<and> read_fat_entry d vol (last cs) = Inr e \<and> kFatEofMin \<le> e \<and> r = (out @ b) @ bs)"
        (is "_ \<longleftrightarrow> ?S")
      proof
        assume ?R
        then obtain cs bs e where h: "chain d vol c cs bs" "length cs \<le> Suc g" "read_fat_entry d vol (last cs) = Inr e" "kFatEofMin \<le> e" "r = out @ bs" by blast
        from h(1) show ?S
        proof cases
          case one
          then show ?thesis using h(3,4) c False by simp
        next
          case (link b' y' cs' bs')
          moreover have "cs' \<noteq> []" using chain_valid [OF link(6)] by simp
          ultimately show ?thesis using h c by auto
        qed
      next
        assume ?S
        then obtain cs bs e where h: "chain d vol y cs bs" "length cs \<le> g" "read_fat_entry d vol (last cs) = Inr e" "kFatEofMin \<le> e" "r = (out @ b) @ bs" by blast
        have "cs \<noteq> []" using chain_valid [OF h(1)] by simp
        with chain.link [OF c h(1)] h show ?R by (intro exI [of _ "c # cs"] exI [of _ "b @ bs"] exI [of _ e]) simp
      qed
      moreover have "?L \<longleftrightarrow> dir_chain g fits d vol y (out @ b) = Inr r"
        using c False nc assms [rule_format, of "length out + unat (bytesPerCluster vol)"] by simp
      ultimately show ?thesis using Suc.IH [of y "out @ b"] by blast
    qed
  qed
qed

subsection \<open>File chains\<close>

definition clusters_for :: "Volume \<Rightarrow> u32 \<Rightarrow> nat" where
  "clusters_for vol n = (unat n + unat (bytesPerCluster vol) - 1) div unat (bytesPerCluster vol)"

lemma clusters_for_small:
  assumes "0 < B" "0 < n" "n \<le> B"
  shows "(n + B - 1) div B = (1 :: nat)"
proof -
  have "(n + B - 1) div B = (B + (n - 1)) div B" using assms(2) by (simp add: add.commute)
  also have "\<dots> = (n - 1) div B + 1" using assms(1) by (intro div_add_self1) simp
  finally show ?thesis using assms by simp
qed

lemma clusters_for_step:
  assumes "0 < B" "B < n"
  shows "(n + B - 1) div B = Suc ((n - B + B - 1) div (B :: nat))" "0 < (n - B + B - 1) div B"
proof -
  have e: "n + B - 1 = n - 1 + B" "n - B + B - 1 = n - 1" using assms by simp_all
  have "B \<noteq> 0" using assms(1) by simp
  then show "(n + B - 1) div B = Suc ((n - B + B - 1) div B)" unfolding e using div_add_self2 [of B "n - 1"] by simp
  have "B \<le> n - 1" using assms by simp
  then show "0 < (n - B + B - 1) div B" unfolding e using assms(1) by (simp add: div_greater_zero_iff)
qed

lemma file_chain_step:
  assumes ok: "disk_ok d" "vol_ok vol" and fits: "\<forall>n. fits n" and rem: "0 < rem"
    and c: "valid_cluster c" "cluster_bytes d vol c = Inr b"
  shows "file_chain (Suc g) fits d vol c rem out =
    (if rem \<le> bytesPerCluster vol then Inr (out @ take (unat rem) b)
     else case read_fat_entry d vol c of
         Inl e \<Rightarrow> Inl e
       | Inr y \<Rightarrow> if kFatEofMin \<le> y then Inl UnexpectedEndOfFile else file_chain g fits d vol y (rem - bytesPerCluster vol) (out @ b))"
proof -
  have nc: "\<not> (c < 2 \<or> kFatEofMin \<le> c)" using c(1) by (auto simp: valid_cluster_def not_less)
  have l: "length b = unat (bytesPerCluster vol)" by (rule cluster_length [OF ok c(2)])
  have r0: "rem \<noteq> 0" using rem by auto
  note f = fits [rule_format, of "length out + unat rem"] fits [rule_format, of "length out + unat (bytesPerCluster vol)"]
  show ?thesis
  proof (cases "rem < bytesPerCluster vol")
    case True
    then have "rem \<le> bytesPerCluster vol" by simp
    with True show ?thesis using nc c(2) r0 f by (simp add: Let_def)
  next
    case False
    show ?thesis
    proof (cases "rem = bytesPerCluster vol")
      case True
      then show ?thesis using nc c(2) r0 f l by (simp add: Let_def)
    next
      case ne: False
      then have "\<not> rem \<le> bytesPerCluster vol" using False by auto
      then show ?thesis using nc c(2) r0 f l ne False by (simp add: Let_def)
    qed
  qed
qed

lemma file_chain_spec:
  assumes ok: "disk_ok d" "vol_ok vol" and fits: "\<forall>n. fits n"
  shows "0 < rem \<Longrightarrow> file_chain g fits d vol c rem out = Inr r \<longleftrightarrow>
    (\<exists>cs bs. chain d vol c cs bs \<and> length cs = clusters_for vol rem \<and> length cs \<le> g \<and> r = out @ take (unat rem) bs)"
proof (induction g arbitrary: c rem out)
  case 0
  then show ?case by (auto dest: chain_valid)
next
  case (Suc g)
  let ?B = "unat (bytesPerCluster vol)"
  note B = vol_bytes_pos [OF ok(2)]
  have r0: "0 < unat rem" using Suc.prems by (simp add: word_less_nat_alt)
  show ?case (is "?L \<longleftrightarrow> ?R")
  proof (cases "valid_cluster c \<and> (\<exists>b. cluster_bytes d vol c = Inr b)")
    case False
    then have "\<not> ?R" using chain_valid by blast
    moreover have "\<not> ?L" using False Suc.prems by (auto simp: valid_cluster_def not_less split: sum.splits)
    ultimately show ?thesis by blast
  next
    case True
    then obtain b where c: "valid_cluster c" "cluster_bytes d vol c = Inr b" by blast
    have l: "length b = ?B" by (rule cluster_length [OF ok c(2)])
    note step = file_chain_step [OF ok fits Suc.prems c]
    show ?thesis
    proof (cases "rem \<le> bytesPerCluster vol")
      case True
      then have n: "clusters_for vol rem = 1"
        unfolding clusters_for_def by (intro clusters_for_small B r0) (simp add: word_le_nat_alt)
      have "?R \<longleftrightarrow> r = out @ take (unat rem) b"
      proof
        assume ?R
        then obtain cs bs where "chain d vol c cs bs" "length cs = 1" "r = out @ take (unat rem) bs" unfolding n by blast
        with chain_single c(2) show "r = out @ take (unat rem) b" by fastforce
      next
        assume "r = out @ take (unat rem) b"
        with chain.one [OF c] show ?R unfolding n by (intro exI [of _ "[c]"] exI [of _ b]) simp
      qed
      then show ?thesis using True unfolding step by auto
    next
      case False
      let ?r = "rem - bytesPerCluster vol"
      have lt: "?B < unat rem" using False by (simp add: word_le_nat_alt)
      have ur: "unat ?r = unat rem - ?B" using False by (intro unat_sub) simp
      have rp: "0 < ?r" using ur lt by (simp add: word_less_nat_alt)
      have n: "clusters_for vol rem = Suc (clusters_for vol ?r)" "0 < clusters_for vol ?r"
        using clusters_for_step [OF B lt] unfolding clusters_for_def ur by simp_all
      have split: "take (unat rem) (b @ bs) = b @ take (unat ?r) bs" for bs using l lt ur by simp
      have "?R \<longleftrightarrow> (\<exists>y cs bs. read_fat_entry d vol c = Inr y \<and> chain d vol y cs bs \<and> length cs = clusters_for vol ?r \<and> length cs \<le> g \<and> r = (out @ b) @ take (unat ?r) bs)"
        (is "_ \<longleftrightarrow> ?S")
      proof
        assume ?R
        then obtain cs bs where h: "chain d vol c cs bs" "length cs = Suc (clusters_for vol ?r)" "length cs \<le> Suc g" "r = out @ take (unat rem) bs"
          unfolding n by blast
        have "1 < length cs" using h(2) n(2) by simp
        from chain_next [OF h(1) this] obtain b' y cs' bs' where k: "cs = c # cs'" "bs = b' @ bs'" "cluster_bytes d vol c = Inr b'"
          "read_fat_entry d vol c = Inr y" "chain d vol y cs' bs'" .
        then have "b' = b" using c(2) by simp
        then have "r = (out @ b) @ take (unat ?r) bs'" using h(4) k(2) split [of bs'] by simp
        moreover have "length cs' = clusters_for vol ?r" "length cs' \<le> g" using h(2,3) k(1) by simp_all
        ultimately show ?S using k(4,5) by blast
      next
        assume ?S
        then obtain y cs bs where h: "read_fat_entry d vol c = Inr y" "chain d vol y cs bs" "length cs = clusters_for vol ?r" "length cs \<le> g"
          "r = (out @ b) @ take (unat ?r) bs" by blast
        with chain.link [OF c h(1,2)] split [of bs] show ?R unfolding n(1)
          by (intro exI [of _ "c # cs"] exI [of _ "b @ bs"]) simp
      qed
      moreover have "?L \<longleftrightarrow> ?S"
      proof (cases "\<exists>y. read_fat_entry d vol c = Inr y \<and> valid_cluster y")
        case True
        then obtain y where y: "read_fat_entry d vol c = Inr y" "\<not> kFatEofMin \<le> y" by (auto simp: valid_cluster_def not_le)
        then have "?L \<longleftrightarrow> file_chain g fits d vol y ?r (out @ b) = Inr r" using False unfolding step by simp
        then show ?thesis using Suc.IH [OF rp, of y "out @ b"] y(1) by auto
      next
        case nv: False
        then have "\<not> ?S" using chain_valid by blast
        moreover have "\<not> ?L"
        proof
          assume ?L
          then obtain y where y: "read_fat_entry d vol c = Inr y" "file_chain g fits d vol y ?r (out @ b) = Inr r"
            using False unfolding step by (auto split: sum.splits if_splits)
          then obtain cs bs where "chain d vol y cs bs" using Suc.IH [OF rp, of y "out @ b"] by blast
          with chain_valid y(1) nv show False by blast
        qed
        ultimately show ?thesis by blast
      qed
      ultimately show ?thesis by blast
    qed
  qed
qed

subsection \<open>Paths\<close>

fun split_slash :: "u8 list \<Rightarrow> u8 list list" where
  "split_slash [] = [[]]"
| "split_slash (c # cs) = (if c = 47 then [] # split_slash cs else (c # hd (split_slash cs)) # tl (split_slash cs))"

definition path_components :: "u8 list \<Rightarrow> u8 list list" where
  "path_components p = filter (\<lambda>w. w \<noteq> []) (split_slash p)"

lemma components_skip: "path_components (dropWhile (\<lambda>c. c = 47) p) = path_components p"
  by (induction p) (simp_all add: path_components_def)

lemma split_slash_unfold:
  "split_slash p = takeWhile (\<lambda>c. c \<noteq> 47) p #
     (if takeWhile (\<lambda>c. c \<noteq> 47) p = p then [] else split_slash (drop (length (takeWhile (\<lambda>c. c \<noteq> 47) p) + 1) p))"
proof (induction p)
  case (Cons c cs)
  then show ?case
  proof (cases "c = 47")
    case False
    have "hd (split_slash cs) = takeWhile (\<lambda>c. c \<noteq> 47) cs" by (subst Cons) simp
    moreover have "tl (split_slash cs) =
        (if takeWhile (\<lambda>c. c \<noteq> 47) cs = cs then [] else split_slash (drop (length (takeWhile (\<lambda>c. c \<noteq> 47) cs) + 1) cs))"
      by (subst Cons) simp
    ultimately show ?thesis using False by auto
  qed simp
qed simp

lemma next_component_none: "path_components p = [] \<Longrightarrow> fst (next_component p) = False"
proof -
  assume e: "path_components p = []"
  let ?q = "dropWhile (\<lambda>c. c = 47) p"
  have "takeWhile (\<lambda>c. c \<noteq> 47) ?q = []" using e components_skip [of p] unfolding path_components_def by (subst (asm) split_slash_unfold) (auto split: if_splits)
  then show ?thesis by (simp add: next_component_def Let_def)
qed

lemma components_unfold:
  assumes "takeWhile (\<lambda>c. c \<noteq> 47) q \<noteq> []"
  shows "path_components q = takeWhile (\<lambda>c. c \<noteq> 47) q #
    path_components (if length (takeWhile (\<lambda>c. c \<noteq> 47) q) = length q then [] else drop (length (takeWhile (\<lambda>c. c \<noteq> 47) q) + 1) q)"
proof -
  define t where "t = takeWhile (\<lambda>c. c \<noteq> 47) q"
  have l: "length t = length q \<longleftrightarrow> t = q" unfolding t_def by (metis length_takeWhile_le takeWhile_eq_take take_all_iff)
  have e: "split_slash q = t # (if t = q then [] else split_slash (drop (length t + 1) q))"
    unfolding t_def by (rule split_slash_unfold)
  show ?thesis using assms unfolding t_def [symmetric] l path_components_def e by (cases "t = q") simp_all
qed

lemma next_component_some:
  assumes "path_components p = w # ws"
  obtains rest where "next_component p = (True, w, rest)" "path_components rest = ws"
proof -
  define q where "q = dropWhile (\<lambda>c. c = 47) p"
  have q: "path_components q = w # ws" using assms unfolding q_def by (simp only: components_skip)
  then have ne: "q \<noteq> []" by (auto simp: path_components_def)
  then have "hd q \<noteq> 47" unfolding q_def by (rule hd_dropWhile)
  then have t: "takeWhile (\<lambda>c. c \<noteq> 47) q \<noteq> []" using ne by (cases q) auto
  from components_unfold [OF t] q that ne t show ?thesis by (simp add: next_component_def Let_def flip: q_def)
qed

subsection \<open>Reading a file\<close>

definition dir_image :: "disk \<Rightarrow> Volume \<Rightarrow> u16 \<Rightarrow> u8 list \<Rightarrow> bool" where
  "dir_image d vol c bs \<longleftrightarrow>
     (\<exists>cs e. chain d vol c cs bs \<and> length cs \<le> 4096 \<and> read_fat_entry d vol (last cs) = Inr e \<and> kFatEofMin \<le> e)"

definition file_image :: "disk \<Rightarrow> Volume \<Rightarrow> FatDirEntry \<Rightarrow> u8 list \<Rightarrow> bool" where
  "file_image d vol ent out \<longleftrightarrow>
     (if fileSize ent = 0 then out = []
      else \<exists>cs bs. chain d vol (firstClusterLow ent) cs bs \<and> length cs = clusters_for vol (fileSize ent) \<and> length cs \<le> 65536 \<and>
        out = take (unat (fileSize ent)) bs)"

inductive resolves :: "disk \<Rightarrow> Volume \<Rightarrow> u8 list \<Rightarrow> u8 list list \<Rightarrow> FatDirEntry \<Rightarrow> bool" for d vol where
  leaf: "to_short_name w = Inr n \<Longrightarrow> find_in_dir_bytes dir n False = Inr ent \<Longrightarrow> resolves d vol dir [w] ent"
| descend: "to_short_name w = Inr n \<Longrightarrow> find_in_dir_bytes dir n True = Inr ent \<Longrightarrow> dir_image d vol (firstClusterLow ent) dir1 \<Longrightarrow>
    resolves d vol dir1 (v # ws) ent1 \<Longrightarrow> resolves d vol dir (w # v # ws) ent1"

inductive_simps resolves_one: "resolves d vol dir [w] ent"
inductive_simps resolves_more: "resolves d vol dir (w # v # ws) ent"

lemma load_dir_iff: "\<forall>n. fits n \<Longrightarrow> load_cluster_chain_dir fits d vol c = Inr r \<longleftrightarrow> dir_image d vol c r"
  unfolding load_cluster_chain_dir_def dir_image_def by (subst dir_chain_spec) auto

lemma read_clusters_iff:
  assumes "disk_ok d" "vol_ok vol" "\<forall>n. fits n"
  shows "read_file_clusters fits d vol (firstClusterLow ent) (fileSize ent) = Inr r \<longleftrightarrow> file_image d vol ent r"
proof (cases "fileSize ent = 0")
  case True
  then show ?thesis by (auto simp: read_file_clusters_def file_image_def)
next
  case False
  then have p: "0 < fileSize ent" by (simp add: word_neq_0_conv)
  have z: "\<not> chain d vol 0 cs bs" for cs bs using chain_valid [of d vol 0 cs bs] by (auto simp: valid_cluster_def)
  have f: "fits (unat (fileSize ent))" "fits (unat (bytesPerCluster vol))" using assms(3) by simp_all
  show ?thesis
  proof (cases "firstClusterLow ent = 0")
    case True
    then show ?thesis using False z by (auto simp: read_file_clusters_def file_image_def)
  next
    case nz: False
    then have "read_file_clusters fits d vol (firstClusterLow ent) (fileSize ent) =
        file_chain 65536 fits d vol (firstClusterLow ent) (fileSize ent) []" using False f by (simp add: read_file_clusters_def)
    then show ?thesis using file_chain_spec [OF assms p, of 65536 "firstClusterLow ent" "[]"] False by (simp add: file_image_def)
  qed
qed

text \<open>No operation reports the success code as an error.\<close>

lemma no_success_error:
  "read_part_sectors d vol l n \<noteq> Inl Success" "read_fat_entry d vol c \<noteq> Inl Success" "read_cluster d vol c k \<noteq> Inl Success"
  "load_root_dir fits d vol \<noteq> Inl Success" "to_short_name w \<noteq> Inl Success"
proof -
  show a: "read_part_sectors d vol l n \<noteq> Inl Success" for l n
    by (auto simp: read_part_sectors_def read_abs_sectors_def Let_def split: option.splits)
  show "read_fat_entry d vol c \<noteq> Inl Success" using a by (auto simp: read_fat_entry_def Let_def split: sum.splits)
  show "read_cluster d vol c k \<noteq> Inl Success" using a by (auto simp: read_cluster_def cluster_to_lba_def split: sum.splits)
  show "load_root_dir fits d vol \<noteq> Inl Success" using a by (auto simp: load_root_dir_def)
  show "to_short_name w \<noteq> Inl Success" by (auto simp: to_short_name_def Let_def)
qed

lemma find_no_success: "find_in_dir_bytes dir n b \<noteq> Inl Success"
proof -
  have "find_entry dir n True i k \<noteq> Inl Success" "find_entry dir n False i k \<noteq> Inl Success" for i k
    by (induction k arbitrary: i) (simp_all add: Let_def)
  then show ?thesis by (cases b) (simp_all add: find_in_dir_bytes_def)
qed

lemma chain_no_success:
  "load_cluster_chain_dir fits d vol c \<noteq> Inl Success" "read_file_clusters fits d vol c n \<noteq> Inl Success"
proof -
  note n = no_success_error
  have "dir_chain g fits d vol c out \<noteq> Inl Success" for g c out
    by (induction g arbitrary: c out) (use n in \<open>auto split: sum.splits\<close>)
  then show "load_cluster_chain_dir fits d vol c \<noteq> Inl Success" by (simp add: load_cluster_chain_dir_def)
  have "file_chain g fits d vol c r out \<noteq> Inl Success" for g c r out
    by (induction g arbitrary: c r out) (use n in \<open>auto simp: Let_def split: sum.splits\<close>)
  then show "read_file_clusters fits d vol c n \<noteq> Inl Success" by (simp add: read_file_clusters_def)
qed

lemma walk_leaf:
  assumes "path_components rem = []"
  shows "walk fits d vol dir w rem =
    (case to_short_name w of
       Inl e \<Rightarrow> (e, [])
     | Inr n \<Rightarrow>
         (case find_in_dir_bytes dir n False of
            Inl e \<Rightarrow> (e, [])
          | Inr ent \<Rightarrow>
              (case read_file_clusters fits d vol (firstClusterLow ent) (fileSize ent) of
                 Inl e \<Rightarrow> (e, [])
               | Inr out \<Rightarrow> (Success, out))))"
  using next_component_none [OF assms] by (subst walk.simps, cases "to_short_name w") (simp_all add: split_def Let_def)

lemma walk_descend:
  assumes "next_component rem = (True, v, rest)"
  shows "walk fits d vol dir w rem =
    (case to_short_name w of
       Inl e \<Rightarrow> (e, [])
     | Inr n \<Rightarrow>
         (case find_in_dir_bytes dir n True of
            Inl e \<Rightarrow> (e, [])
          | Inr ent \<Rightarrow>
              (case load_cluster_chain_dir fits d vol (firstClusterLow ent) of
                 Inl e \<Rightarrow> (e, [])
               | Inr dir1 \<Rightarrow> walk fits d vol dir1 v rest)))"
  using assms by (subst walk.simps, cases "to_short_name w") (simp_all add: Let_def)

lemma walk_spec:
  assumes ok: "disk_ok d" "vol_ok vol" and fits: "\<forall>n. fits n"
  shows "(walk fits d vol dir w rem = (Success, out) \<longleftrightarrow> (\<exists>ent. resolves d vol dir (w # path_components rem) ent \<and> file_image d vol ent out)) \<and>
    (fst (walk fits d vol dir w rem) \<noteq> Success \<longrightarrow> snd (walk fits d vol dir w rem) = [])"
proof (induction "path_components rem" arbitrary: rem dir w)
  case Nil
  note e = Nil [symmetric]
  have "walk fits d vol dir w rem = (Success, out) \<longleftrightarrow> (\<exists>n ent. to_short_name w = Inr n \<and> find_in_dir_bytes dir n False = Inr ent \<and>
      read_file_clusters fits d vol (firstClusterLow ent) (fileSize ent) = Inr out)"
    unfolding walk_leaf [OF e]
    using no_success_error(5) [of w] find_no_success [of dir] chain_no_success(2) [of fits d vol] by (auto split: sum.splits)
  moreover have "fst (walk fits d vol dir w rem) \<noteq> Success \<longrightarrow> snd (walk fits d vol dir w rem) = []"
    unfolding walk_leaf [OF e] by (auto split: sum.splits)
  ultimately show ?case unfolding e resolves_one read_clusters_iff [OF ok fits] by auto
next
  case (Cons v ws)
  obtain rest where r: "next_component rem = (True, v, rest)" "path_components rest = ws"
    using next_component_some [OF Cons.hyps(2) [symmetric]] .
  note IH = Cons.hyps(1) [OF r(2) [symmetric]]
  have "walk fits d vol dir w rem = (Success, out) \<longleftrightarrow> (\<exists>n ent dir1. to_short_name w = Inr n \<and> find_in_dir_bytes dir n True = Inr ent \<and>
      load_cluster_chain_dir fits d vol (firstClusterLow ent) = Inr dir1 \<and> walk fits d vol dir1 v rest = (Success, out))"
    unfolding walk_descend [OF r(1)]
    using no_success_error(5) [of w] find_no_success [of dir] chain_no_success(1) [of fits d vol] by (auto split: sum.splits)
  also have "\<dots> \<longleftrightarrow> (\<exists>ent. resolves d vol dir (w # v # ws) ent \<and> file_image d vol ent out)"
    unfolding resolves_more load_dir_iff [OF fits] using IH r(2) by metis
  finally have "walk fits d vol dir w rem = (Success, out) \<longleftrightarrow> (\<exists>ent. resolves d vol dir (w # path_components rem) ent \<and> file_image d vol ent out)"
    using Cons.hyps(2) by simp
  moreover have "fst (walk fits d vol dir w rem) \<noteq> Success \<longrightarrow> snd (walk fits d vol dir w rem) = []"
    unfolding walk_descend [OF r(1)] using IH by (auto split: sum.splits)
  ultimately show ?case by blast
qed

lemma open_partition_ok:
  "open_partition d p = Inr vol \<Longrightarrow> vol_ok vol" "open_partition d p \<noteq> Inl Success"
proof -
  show "open_partition d p = Inr vol \<Longrightarrow> vol_ok vol"
    by (auto simp: open_partition_def volume_of_def vol_ok_def Let_def split: if_splits sum.splits)
  show "open_partition d p \<noteq> Inl Success"
    using no_success_error(1) [of d "unopened p" 0 1] by (auto simp: open_partition_def Let_def split: sum.splits)
qed

lemma open_volume_ok:
  assumes "disk_ok d"
  obtains r where "open_volume present d = Some r" "\<And>vol. r = Inr vol \<Longrightarrow> vol_ok vol" "r \<noteq> Inl Success"
proof (cases "present \<and> (\<exists>s. d 0 1 = Some s)")
  case False
  then have "open_volume present d = Some (Inl (if present then IoError else DeviceNotReady))"
    by (cases "d 0 1") (auto simp: open_volume_def read_abs_sectors_def)
  then show ?thesis by (rule that) simp_all
next
  case True
  then obtain s where s: "present" "d 0 1 = Some s" by blast
  then have "512 \<le> length s" using assms by (auto simp: disk_ok_def)
  then obtain sch where sch: "DetectScheme s [] = Some sch" using DetectScheme_defined by blast
  obtain r where r: "ParseMbr s 4 = Some r" "r \<noteq> Inl Success" using ParseMbr_eq [of s 4] by (auto split: if_splits)
  define q where "q = (case r of Inl e \<Rightarrow> Inl e | Inr [] \<Rightarrow> Inl NotFound | Inr (p # _) \<Rightarrow> open_partition d p)"
  have "open_volume present d = Some (if sch \<noteq> Mbr then Inl Unsupported else q)"
    using s sch r by (simp add: open_volume_def read_abs_sectors_def q_def)
  moreover have "vol_ok vol" if "q = Inr vol" for vol
    using that open_partition_ok(1) unfolding q_def by (auto split: sum.splits list.splits)
  moreover have "q \<noteq> Inl Success" using r(2) open_partition_ok(2) unfolding q_def by (auto split: sum.splits list.splits)
  ultimately show ?thesis using that [of "if sch \<noteq> Mbr then Inl Unsupported else q"] by (auto split: if_splits)
qed

text \<open>C39. Reading a boot file. On any disk content, with enough memory, \<open>ReadFile\<close> returns without
  an access outside a buffer. It succeeds with exactly the bytes of the file the path names:
  the components of the path (separated by any number of slashes) are looked up from the root
  directory through directories whose cluster chains end properly, and the file is the first
  \<open>fileSize\<close> bytes of its chain. In every other case it reports an error and delivers nothing.\<close>

theorem read_file_spec:
  assumes "disk_ok d" "\<forall>n. fits n"
  shows "\<exists>e out. ReadFile fits present d path = Some (e, out) \<and> (e \<noteq> Success \<longrightarrow> out = []) \<and>
    (\<forall>bs. e = Success \<and> out = bs \<longleftrightarrow>
       (\<exists>vol root ent. open_volume present d = Some (Inr vol) \<and> load_root_dir fits d vol = Inr root \<and>
          resolves d vol root (path_components path) ent \<and> file_image d vol ent bs))"
proof -
  obtain r where r: "open_volume present d = Some r" "\<And>vol. r = Inr vol \<Longrightarrow> vol_ok vol" "r \<noteq> Inl Success"
    using open_volume_ok [OF assms(1)] by metis
  show ?thesis
  proof (cases "\<exists>vol root. r = Inr vol \<and> load_root_dir fits d vol = Inr root")
    case False
    have "\<exists>e. ReadFile fits present d path = Some (e, []) \<and> e \<noteq> Success"
    proof (cases r)
      case (Inr vol)
      then obtain e where "load_root_dir fits d vol = Inl e" using False by (cases "load_root_dir fits d vol") auto
      then show ?thesis using Inr r(1) no_success_error(4) [of fits d vol] by (auto simp: ReadFile_def)
    qed (use r(1,3) in \<open>auto simp: ReadFile_def\<close>)
    then obtain e where "ReadFile fits present d path = Some (e, [])" "e \<noteq> Success" by blast
    with False r(1) show ?thesis by auto
  next
    case True
    then obtain vol root where v: "r = Inr vol" "load_root_dir fits d vol = Inr root" by blast
    note ok = r(2) [OF v(1)]
    show ?thesis
    proof (cases "path_components path")
      case Nil
      have "\<not> resolves d vol root [] ent" for ent by (auto elim: resolves.cases)
      then show ?thesis using r(1) v Nil next_component_none [OF Nil] by (auto simp: ReadFile_def split_def)
    next
      case (Cons w ws)
      obtain rest where n: "next_component path = (True, w, rest)" "path_components rest = ws" using next_component_some [OF Cons] .
      have e: "ReadFile fits present d path = Some (walk fits d vol root w rest)" using r(1) v n(1) by (simp add: ReadFile_def)
      obtain c out where w: "walk fits d vol root w rest = (c, out)" by (metis prod.collapse)
      from walk_spec [OF assms(1) ok assms(2), of root w rest] show ?thesis unfolding e w n(2) Cons using r(1) v by auto
    qed
  qed
qed

subsection \<open>A small disk\<close>

text \<open>One partition from sector 1: the boot sector, one FAT sector in which cluster 2 links to
  itself, one root directory sector with the file \<open>A\<close> of five bytes in cluster 2, and the data.\<close>

definition demo_bpb :: "u8 list" where
  "demo_bpb = replicate 11 0 @ [0, 2, 1, 1, 0, 1, 16, 0, 0, 0, 0, 1, 0] @ replicate 486 0 @ [0x55, 0xAA]"

definition demo_fat :: "u8 list" where
  "demo_fat = [0, 0, 0, 0, 2, 0] @ replicate 506 0"

definition demo_root :: "u8 list" where
  "demo_root = [65, 32, 32, 32, 32, 32, 32, 32, 32, 32, 32, 0] @ replicate 14 0 @ [2, 0, 5, 0, 0, 0] @ replicate 480 0"

definition demo_data :: "u8 list" where
  "demo_data = [72, 69, 76, 76, 79] @ replicate 507 0"

definition demo_disk :: disk where
  "demo_disk lba n =
     (if n \<noteq> 1 then None
      else Some (if lba = 0 then demo_mbr else if lba = 1 then demo_bpb else if lba = 2 then demo_fat
                 else if lba = 3 then demo_root else if lba = 4 then demo_data else replicate 512 0))"

definition demo_vol :: Volume where
  "demo_vol = \<lparr>partitionLba = 1, partitionSectors = 16, bytesPerSector = 512, sectorsPerCluster = 1, reservedSectors = 1, numFATs = 1,
     rootEntryCount = 16, fatSizeSectors = 1, rootDirSector = 2, rootDirSectors = 1, dataStartSector = 3, bytesPerCluster = 512\<rparr>"

lemma demo_disk_ok: "disk_ok demo_disk"
  by (auto simp: disk_ok_def demo_disk_def demo_mbr_def demo_bpb_def demo_fat_def demo_root_def demo_data_def)

lemma demo_open: "open_volume True demo_disk = Some (Inr demo_vol)"
proof -
  have l: "512 \<le> length demo_mbr" "demo_mbr ! 510 = 0x55" "demo_mbr ! 511 = 0xAA" by (simp_all add: demo_mbr_def nth_append)
  have "DetectScheme demo_mbr [] = Some Mbr"
    using l by (simp add: DetectScheme_def HasMbrSignature_def IsGptProtectiveMbr_def byte_def numeral_nat) (simp add: demo_mbr_def nth_append)
  moreover have "ParseMbr demo_mbr 4 = Some (Inr [\<lparr>baseOffsetBytes = 512, lengthBytes = 8192\<rparr>])"
    unfolding ParseMbr_eq demo_entries using l by (simp add: demo_used)
  moreover have "open_partition demo_disk \<lparr>baseOffsetBytes = 512, lengthBytes = 8192\<rparr> = Inr demo_vol"
  proof -
    have s: "demo_bpb ! 510 = 0x55" "demo_bpb ! 511 = 0xAA" by (simp_all add: demo_bpb_def nth_append)
    have b: "bpb_bytesPerSector (FatBpb_of demo_bpb) = 512" "bpb_sectorsPerCluster (FatBpb_of demo_bpb) = 1" "bpb_reservedSectors (FatBpb_of demo_bpb) = 1"
      "bpb_numFATs (FatBpb_of demo_bpb) = 1" "bpb_rootEntryCount (FatBpb_of demo_bpb) = 16" "fatSize16 (FatBpb_of demo_bpb) = 1"
      by (simp_all add: FatBpb_of_def demo_bpb_def read_le16_def nth_append)
    show ?thesis using s
      by (simp add: open_partition_def read_part_sectors_def read_abs_sectors_def unopened_def demo_disk_def b volume_of_def demo_vol_def Let_def)
  qed
  ultimately show ?thesis by (simp add: open_volume_def read_abs_sectors_def demo_disk_def)
qed

lemma demo_cluster: "cluster_bytes demo_disk demo_vol 2 = Inr demo_data" "read_fat_entry demo_disk demo_vol 2 = Inr 2"
  by (simp_all add: read_cluster_def cluster_to_lba_def read_fat_entry_def read_part_sectors_def read_abs_sectors_def demo_vol_def demo_disk_def
    demo_fat_def read_le16_def Let_def)

lemma demo_resolves: "\<exists>ent. resolves demo_disk demo_vol demo_root (path_components [65]) ent \<and> file_image demo_disk demo_vol ent [72, 69, 76, 76, 79]"
proof -
  let ?e = "FatDirEntry_of (take 32 demo_root)"
  have p: "path_components [65] = [[65]]" by (simp add: path_components_def)
  have b: "replicate 11 x = [x, x, x, x, x, x, x, x, x, x, x]" for x :: u8 by (simp add: numeral_eq_Suc)
  have n: "to_short_name [65] = Inr [65, 32, 32, 32, 32, 32, 32, 32, 32, 32, 32]"
    by (simp add: to_short_name_def put_name_def to_upper_ascii_def b)
  have e: "fname ?e = [65, 32, 32, 32, 32, 32, 32, 32, 32, 32, 32]" "attr ?e = 0" "firstClusterLow ?e = 2" "fileSize ?e = 5"
    by (simp_all add: FatDirEntry_of_def demo_root_def read_le16_def le32_def)
  have l: "length demo_root div 32 = Suc 15" by (simp add: demo_root_def)
  have f: "find_in_dir_bytes demo_root [65, 32, 32, 32, 32, 32, 32, 32, 32, 32, 32] False = Inr ?e"
    unfolding find_in_dir_bytes_def l find_entry.simps by (simp add: Let_def e names_equal_def upt_rec)
  have c: "chain demo_disk demo_vol 2 [2] demo_data" by (rule chain.one) (simp_all add: demo_cluster valid_cluster_def)
  have "clusters_for demo_vol 5 = 1" by (simp add: clusters_for_def demo_vol_def)
  moreover have "take (unat (5 :: u32)) demo_data = [72, 69, 76, 76, 79]" by (simp add: demo_data_def)
  ultimately have "\<exists>cs bs. chain demo_disk demo_vol 2 cs bs \<and> length cs = clusters_for demo_vol 5 \<and> length cs \<le> 65536 \<and>
      [72, 69, 76, 76, 79] = take (unat (5 :: u32)) bs" using c by (intro exI [of _ "[2]"] exI [of _ demo_data]) simp
  then have "file_image demo_disk demo_vol ?e [72, 69, 76, 76, 79]" unfolding file_image_def e by simp
  then show ?thesis unfolding p using resolves.leaf [OF n f] by blast
qed

theorem read_file_spec_witness: "ReadFile (\<lambda>_. True) True demo_disk [65] = Some (Success, [72, 69, 76, 76, 79])"
proof -
  have "load_root_dir (\<lambda>_. True) demo_disk demo_vol = Inr demo_root"
    by (simp add: load_root_dir_def read_part_sectors_def read_abs_sectors_def demo_vol_def demo_disk_def Let_def)
  with demo_open demo_resolves have "\<exists>vol root ent. open_volume True demo_disk = Some (Inr vol) \<and> load_root_dir (\<lambda>_. True) demo_disk vol = Inr root \<and>
      resolves demo_disk vol root (path_components [65]) ent \<and> file_image demo_disk vol ent [72, 69, 76, 76, 79]" by blast
  with read_file_spec [OF demo_disk_ok, of "\<lambda>_. True" True "[65]"] show ?thesis by auto
qed

subsection \<open>Chains that do not end\<close>

lemma dir_chain_endless:
  assumes "\<forall>n. fits n" and f: "\<forall>k. valid_cluster (f k) \<and> (\<exists>b. cluster_bytes d vol (f k) = Inr b) \<and> read_fat_entry d vol (f k) = Inr (f (Suc k))"
  shows "dir_chain g fits d vol (f k) out = Inl InvalidData"
proof (induction g arbitrary: k out)
  case (Suc g)
  obtain b where k: "valid_cluster (f k)" "cluster_bytes d vol (f k) = Inr b" "read_fat_entry d vol (f k) = Inr (f (Suc k))" using f by blast
  have v: "\<not> kFatEofMin \<le> f (Suc k)" using f by (simp add: valid_cluster_def not_le)
  have "fits (length out + unat (bytesPerCluster vol))" using assms(1) by blast
  then show ?case using k v Suc.IH [of "Suc k" "out @ b"] by (auto simp: valid_cluster_def)
qed simp

text \<open>C40. A directory whose cluster chain never reaches an end mark, because the links on disk form
  a cycle, does not hang the reader: it stops after 4096 clusters and reports invalid data.\<close>

theorem endless_directory_rejected:
  assumes "\<forall>n. fits n" "\<forall>k. valid_cluster (f k) \<and> (\<exists>b. cluster_bytes d vol (f k) = Inr b) \<and> read_fat_entry d vol (f k) = Inr (f (Suc k))"
  shows "load_cluster_chain_dir fits d vol (f 0) = Inl InvalidData"
  unfolding load_cluster_chain_dir_def by (rule dir_chain_endless [OF assms])

theorem endless_directory_rejected_witness: "load_cluster_chain_dir (\<lambda>_. True) demo_disk demo_vol 2 = Inl InvalidData"
  using endless_directory_rejected [of "\<lambda>_. True" "\<lambda>_. 2" demo_disk demo_vol] demo_cluster by (simp add: valid_cluster_def)

end
