(* ===== verification/Handle_Table.thy ===== *)
theory Handle_Table
  imports Prelude
begin

text \<open>
  The handle table of a process, \<open>ProcessHandleTable\<close> of \<open>kobject/KProcessObject.hpp\<close>, and the two operations
  of \<open>KProcessObject\<close> that fill it. An object pointer is an \<open>option\<close> (\<open>None\<close> is the null pointer); the
  references a table holds on an object are its entries that name it. The lists are HOL lists, \<open>push_back\<close> is
  an append (\<open>kstd::list\<close> has no failing insertion). Handles, access masks and flags keep their 32 bits. The
  first part holds the operations; the second the invariant, which every run keeps, the contract of the
  table as a map from handles to objects, and the results on reservations and inheritance.
\<close>

subsection \<open>The table\<close>

record Entry =
  he_handle :: u32
  he_object :: "nat option"
  he_access :: u32
  he_flags :: u32
  he_refcount :: u32
  he_reservation :: u32

record StandardStreamHandle =
  ss_value :: u32
  ss_available :: bool

record ProcessHandleTable =
  ht_entries :: "Entry list"
  ht_free_list :: "u32 list"
  next_raw_handle :: u32
  next_reservation :: u32
  standard_streams :: "StandardStreamHandle list"

record Reservation =
  rv_handle :: u32
  rv_identity :: u32

abbreviation (input) Flag_Inheritable :: u32 where "Flag_Inheritable \<equiv> 1"
abbreviation (input) Flag_ProtectFromClose :: u32 where "Flag_ProtectFromClose \<equiv> 2"
abbreviation (input) Access_Read :: u32 where "Access_Read \<equiv> 1"
abbreviation (input) Access_Write :: u32 where "Access_Write \<equiv> 2"

definition empty_table :: ProcessHandleTable where
  "empty_table =
     \<lparr>ht_entries = [], ht_free_list = [], next_raw_handle = 0, next_reservation = 0,
      standard_streams = replicate 3 \<lparr>ss_value = 0, ss_available = False\<rparr>\<rparr>"

subsection \<open>Allocation and lookup\<close>

definition AllocateEntry :: "nat option \<Rightarrow> u32 \<Rightarrow> u32 \<Rightarrow> ProcessHandleTable \<Rightarrow> u32 expected \<times> ProcessHandleTable" where
  "AllocateEntry obj acc fl t =
     (let push = (\<lambda>raw t. (Inr raw, t\<lparr>ht_entries := ht_entries t @
                    [\<lparr>he_handle = raw, he_object = obj, he_access = acc, he_flags = fl, he_refcount = 1, he_reservation = 0\<rparr>]\<rparr>)) in
      case ht_free_list t of
        raw # fs \<Rightarrow> push raw (t\<lparr>ht_free_list := fs\<rparr>)
      | [] \<Rightarrow>
          if next_raw_handle t = 0xFFFFFFFF then (Inl ResourceLimitExceeded, t)
          else push (next_raw_handle t) (t\<lparr>next_raw_handle := next_raw_handle t + 1\<rparr>))"

definition Allocate :: "nat option \<Rightarrow> u32 \<Rightarrow> u32 \<Rightarrow> ProcessHandleTable \<Rightarrow> u32 expected \<times> ProcessHandleTable" where
  "Allocate obj acc fl t = (if obj = None then (Inl InvalidArgument, t) else AllocateEntry obj acc fl t)"

definition Lookup :: "u32 \<Rightarrow> ProcessHandleTable \<Rightarrow> Entry option" where
  "Lookup h t = find (\<lambda>e. he_handle e = h \<and> he_reservation e = 0) (ht_entries t)"

definition HasAccess :: "u32 \<Rightarrow> u32 \<Rightarrow> ProcessHandleTable \<Rightarrow> bool" where
  "HasAccess h required t = (case Lookup h t of None \<Rightarrow> False | Some e \<Rightarrow> he_access e AND required = required)"

definition Close :: "u32 \<Rightarrow> ProcessHandleTable \<Rightarrow> KernelError \<times> ProcessHandleTable" where
  "Close h t =
     (case List.extract (\<lambda>e. he_handle e = h \<and> he_reservation e = 0) (ht_entries t) of
        None \<Rightarrow> (InvalidHandle, t)
      | Some (before, e, after) \<Rightarrow>
          if he_flags e AND Flag_ProtectFromClose \<noteq> 0 then (AccessDenied, t)
          else if he_refcount e - 1 = 0
          then (Success,
                t\<lparr>standard_streams := map (\<lambda>s. if ss_available s \<and> ss_value s = h then s\<lparr>ss_available := False\<rparr> else s) (standard_streams t),
                  ht_free_list := ht_free_list t @ [h],
                  ht_entries := before @ after\<rparr>)
          else (Success, t\<lparr>ht_entries := before @ e\<lparr>he_refcount := he_refcount e - 1\<rparr> # after\<rparr>))"

subsection \<open>Reservations\<close>

definition Reserve :: "u32 \<Rightarrow> u32 \<Rightarrow> ProcessHandleTable \<Rightarrow> Reservation expected \<times> ProcessHandleTable" where
  "Reserve acc fl t =
     (case AllocateEntry None acc fl t of
        (Inl e, t1) \<Rightarrow> (Inl e, t1)
      | (Inr h, t1) \<Rightarrow>
          (let r = (if next_reservation t1 + 1 = 0 then 1 else next_reservation t1 + 1) in
           (Inr \<lparr>rv_handle = h, rv_identity = r\<rparr>,
            t1\<lparr>next_reservation := r,
               ht_entries := butlast (ht_entries t1) @ [(last (ht_entries t1))\<lparr>he_reservation := r\<rparr>]\<rparr>)))"

text \<open>The pointer \<open>FindReservation\<close> returns is the place of the entry: the entries before it, the entry, and
  those after it.\<close>

definition FindReservation :: "Reservation \<Rightarrow> ProcessHandleTable \<Rightarrow> (Entry list \<times> Entry \<times> Entry list) option" where
  "FindReservation token t =
     (if rv_identity token = 0 then None
      else List.extract (\<lambda>e. he_reservation e = rv_identity token \<and> he_handle e = rv_handle token) (ht_entries t))"

definition Bind :: "Reservation \<Rightarrow> nat option \<Rightarrow> ProcessHandleTable \<Rightarrow> u32 expected \<times> ProcessHandleTable" where
  "Bind token obj t =
     (if obj = None then (Inl InvalidArgument, t)
      else case FindReservation token t of
             None \<Rightarrow> (Inl InvalidHandle, t)
           | Some (before, e, after) \<Rightarrow>
               (Inr (he_handle e), t\<lparr>ht_entries := before @ e\<lparr>he_object := obj, he_reservation := 0\<rparr> # after\<rparr>))"

definition Cancel :: "Reservation \<Rightarrow> ProcessHandleTable \<Rightarrow> KernelError \<times> ProcessHandleTable" where
  "Cancel token t =
     (case List.extract (\<lambda>e. rv_identity token \<noteq> 0 \<and> he_reservation e = rv_identity token \<and> he_handle e = rv_handle token) (ht_entries t) of
        None \<Rightarrow> (InvalidHandle, t)
      | Some (before, e, after) \<Rightarrow>
          (Success, t\<lparr>ht_free_list := ht_free_list t @ [he_handle e], ht_entries := before @ after\<rparr>))"

subsection \<open>Standard streams\<close>

definition GetStandardHandle :: "u32 \<Rightarrow> ProcessHandleTable \<Rightarrow> u32 expected" where
  "GetStandardHandle stream t =
     (if stream \<ge> 3 then Inl InvalidArgument
      else let s = standard_streams t ! unat stream in
        if \<not> ss_available s then Inl StandardStreamUnavailable
        else case find (\<lambda>e. he_handle e = ss_value s \<and> he_object e \<noteq> None) (ht_entries t) of
               None \<Rightarrow> Inl InvalidHandle
             | Some e \<Rightarrow> Inr (he_handle e))"

definition SetStandardHandle :: "u32 \<Rightarrow> u32 \<Rightarrow> ProcessHandleTable \<Rightarrow> KernelError \<times> ProcessHandleTable" where
  "SetStandardHandle stream h t =
     (if stream \<ge> 3 then (InvalidArgument, t)
      else case Lookup h t of
             None \<Rightarrow> (InvalidHandle, t)
           | Some e \<Rightarrow>
               if he_object e = None then (InvalidHandle, t)
               else (Success, t\<lparr>standard_streams := (standard_streams t)[unat stream := \<lparr>ss_value = h, ss_available = True\<rparr>]\<rparr>))"

definition AllocateStandardHandle :: "u32 \<Rightarrow> nat option \<Rightarrow> u32 \<Rightarrow> ProcessHandleTable \<Rightarrow> KernelError \<times> ProcessHandleTable" where
  "AllocateStandardHandle stream obj acc t =
     (if obj = None then (InvalidArgument, t)
      else if stream \<ge> 3 then (InvalidArgument, t)
      else case Allocate obj acc Flag_Inheritable t of
             (Inl e, t1) \<Rightarrow> (e, t1)
           | (Inr h, t1) \<Rightarrow>
               (case SetStandardHandle stream h t1 of
                  (st, t2) \<Rightarrow> if st \<noteq> Success then (st, snd (Close h t2)) else (st, t2)))"

subsection \<open>Operations of the process\<close>

text \<open>\<open>if (!handles.GetStandardHandle(stream, handle)) handles.Close(handle)\<close>.\<close>

definition close_stream :: "u32 \<Rightarrow> ProcessHandleTable \<Rightarrow> ProcessHandleTable" where
  "close_stream stream t = (case GetStandardHandle stream t of Inl e \<Rightarrow> t | Inr h \<Rightarrow> snd (Close h t))"

definition AttachStandardStreams :: "nat option \<Rightarrow> ProcessHandleTable \<Rightarrow> KernelError \<times> ProcessHandleTable" where
  "AttachStandardStreams sink t =
     (if sink = None then (InvalidArgument, t)
      else case AllocateStandardHandle 0 sink Access_Read t of (inp, t1) \<Rightarrow>
        if inp \<noteq> Success then (inp, t1)
        else case AllocateStandardHandle 1 sink Access_Write t1 of (out, t2) \<Rightarrow>
          if out \<noteq> Success then (out, close_stream 0 t2)
          else case AllocateStandardHandle 2 sink Access_Write t2 of (err, t3) \<Rightarrow>
            if err \<noteq> Success then (err, close_stream 1 (close_stream 0 t3))
            else (err, t3))"

text \<open>The closes a table can still take: what the loop of \<open>rollback\<close> consumes.\<close>

definition close_budget :: "Entry list \<Rightarrow> nat" where
  "close_budget es = (\<Sum>e\<leftarrow>es. if he_refcount e = 0 then 2 ^ 32 else unat (he_refcount e))"

lemma unat_dec: "x \<noteq> 0 \<Longrightarrow> unat (x - 1 :: u32) = unat x - 1"
  by (simp add: unat_minus_one)

lemma close_budget_less: "fst (Close h t) = Success \<Longrightarrow> close_budget (ht_entries (snd (Close h t))) < close_budget (ht_entries t)"
proof -
  assume ok: "fst (Close h t) = Success"
  then obtain before e after where x: "List.extract (\<lambda>e. he_handle e = h \<and> he_reservation e = 0) (ht_entries t) = Some (before, e, after)"
    by (auto simp: Close_def split: option.splits)
  then have es: "ht_entries t = before @ e # after" by (simp add: extract_Some_iff)
  have wrap: "unat (- 1 :: u32) < 4294967296" using unsigned_less [of "- 1 :: u32"] by simp
  show ?thesis
  proof (cases "he_refcount e - 1 = 0")
    case True
    then have "he_refcount e = 1" by simp
    then show ?thesis using ok x es by (auto simp: Close_def close_budget_def split: if_splits)
  next
    case False
    then show ?thesis using ok x es unat_dec [of "he_refcount e"] wrap
      by (cases "he_refcount e = 0") (auto simp: Close_def close_budget_def unat_gt_0 split: if_splits)
  qed
qed

function rollback :: "ProcessHandleTable \<Rightarrow> ProcessHandleTable" where
  "rollback t =
     (case ht_entries t of
        [] \<Rightarrow> t
      | e # es \<Rightarrow>
          if fst (Close (he_handle e) t) \<noteq> Success then snd (Close (he_handle e) t)
          else rollback (snd (Close (he_handle e) t)))"
  by pat_completeness auto
termination
  by (relation "measure (\<lambda>t. close_budget (ht_entries t))") (simp_all, metis close_budget_less)

declare rollback.simps [simp del]

text \<open>The loop over the three streams: \<open>Success\<close>, or the first failing status.\<close>

fun inherit_streams :: "u32 list \<Rightarrow> ProcessHandleTable \<Rightarrow> Entry \<Rightarrow> u32 \<Rightarrow> ProcessHandleTable \<Rightarrow> KernelError \<times> ProcessHandleTable" where
  "inherit_streams [] parent e h t = (Success, t)"
| "inherit_streams (i # is) parent e h t =
     (if GetStandardHandle i parent = Inr (he_handle e)
      then case SetStandardHandle i h t of
             (st, t1) \<Rightarrow> if st \<noteq> Success then (st, rollback t1) else inherit_streams is parent e h t1
      else inherit_streams is parent e h t)"

fun inherit_loop :: "Entry list \<Rightarrow> ProcessHandleTable \<Rightarrow> ProcessHandleTable \<Rightarrow> KernelError \<times> ProcessHandleTable" where
  "inherit_loop [] parent t = (Success, t)"
| "inherit_loop (e # es) parent t =
     (if he_reservation e \<noteq> 0 then inherit_loop es parent t
      else if he_flags e AND Flag_Inheritable = 0 then inherit_loop es parent t
      else case Allocate (he_object e) (he_access e) (he_flags e) t of
             (Inl er, t1) \<Rightarrow> (er, rollback t1)
           | (Inr h, t1) \<Rightarrow>
               if length (ht_entries t1) \<noteq> length (ht_entries t) + 1 \<or> Lookup h t1 = None
               then (OutOfMemory, rollback (snd (Close h t1)))
               else (case inherit_streams [0, 1, 2] parent e h t1 of
                       (st, t2) \<Rightarrow> if st \<noteq> Success then (st, t2) else inherit_loop es parent t2))"

definition InheritHandlesFrom :: "ProcessHandleTable \<Rightarrow> ProcessHandleTable \<Rightarrow> KernelError \<times> ProcessHandleTable" where
  "InheritHandlesFrom parent t = inherit_loop (ht_entries parent) parent t"


subsection \<open>Runs of operations\<close>

datatype ht_op =
    Op_Allocate "nat option" u32 u32
  | Op_Reserve u32 u32
  | Op_Bind Reservation "nat option"
  | Op_Cancel Reservation
  | Op_Close u32
  | Op_SetStandard u32 u32
  | Op_AllocateStandard u32 "nat option" u32
  | Op_Attach "nat option"
  | Op_Inherit ProcessHandleTable

fun ht_apply :: "ht_op \<Rightarrow> ProcessHandleTable \<Rightarrow> ProcessHandleTable" where
  "ht_apply (Op_Allocate obj acc fl) t = snd (Allocate obj acc fl t)"
| "ht_apply (Op_Reserve acc fl) t = snd (Reserve acc fl t)"
| "ht_apply (Op_Bind token obj) t = snd (Bind token obj t)"
| "ht_apply (Op_Cancel token) t = snd (Cancel token t)"
| "ht_apply (Op_Close h) t = snd (Close h t)"
| "ht_apply (Op_SetStandard stream h) t = snd (SetStandardHandle stream h t)"
| "ht_apply (Op_AllocateStandard stream obj acc) t = snd (AllocateStandardHandle stream obj acc t)"
| "ht_apply (Op_Attach sink) t = snd (AttachStandardStreams sink t)"
| "ht_apply (Op_Inherit parent) t = snd (InheritHandlesFrom parent t)"

inductive ht_reachable :: "ProcessHandleTable \<Rightarrow> bool" where
  ht_init: "ht_reachable empty_table"
| ht_next: "ht_reachable t \<Longrightarrow> ht_reachable (ht_apply a t)"

subsection \<open>The invariant\<close>

definition entry_ok :: "Entry \<Rightarrow> bool" where
  "entry_ok e \<longleftrightarrow> he_refcount e = 1 \<and> (he_reservation e = 0 \<longleftrightarrow> he_object e \<noteq> None)"

definition stream_ok :: "Entry list \<Rightarrow> StandardStreamHandle \<Rightarrow> bool" where
  "stream_ok es s \<longleftrightarrow> ss_available s \<longrightarrow> (\<exists>e\<in>set es. he_handle e = ss_value s \<and> he_reservation e = 0)"

text \<open>Every number given out so far is the handle of exactly one entry or is on the free list exactly
  once; an entry is either bound to an object or reserved; a stream that is available names a bound entry.\<close>

definition ht_ok :: "ProcessHandleTable \<Rightarrow> bool" where
  "ht_ok t \<longleftrightarrow>
     distinct (map he_handle (ht_entries t) @ ht_free_list t) \<and>
     set (map he_handle (ht_entries t) @ ht_free_list t) = {h. h < next_raw_handle t} \<and>
     list_all entry_ok (ht_entries t) \<and>
     length (standard_streams t) = 3 \<and>
     list_all (stream_ok (ht_entries t)) (standard_streams t)"

lemma ht_ok_empty: "ht_ok empty_table"
  by (simp add: ht_ok_def empty_table_def stream_ok_def numeral_3_eq_3)

lemma less_next_raw: "n \<noteq> (0xFFFFFFFF :: u32) \<Longrightarrow> {h. h < n + 1} = insert n {h. h < n}"
proof -
  assume "n \<noteq> 0xFFFFFFFF"
  then have "unat n \<noteq> unat (0xFFFFFFFF :: u32)" unfolding word_unat_eq_iff .
  then have "unat n \<noteq> 0xFFFFFFFF" by simp
  moreover have "unat n < 2 ^ LENGTH(32)" by (rule unsigned_less)
  ultimately have "unat (n + 1) = unat n + 1" by (simp add: unat_word_ariths)
  then show ?thesis by (auto simp: word_less_nat_alt word_unat_eq_iff)
qed

lemma AllocateEntry_cases:
  obtains (Full) "AllocateEntry obj acc fl t = (Inl ResourceLimitExceeded, t)"
    "ht_free_list t = []" "next_raw_handle t = 0xFFFFFFFF"
  | (Fresh) h fs n where "AllocateEntry obj acc fl t =
      (Inr h, t\<lparr>ht_free_list := fs, next_raw_handle := n, ht_entries := ht_entries t @
        [\<lparr>he_handle = h, he_object = obj, he_access = acc, he_flags = fl, he_refcount = 1, he_reservation = 0\<rparr>]\<rparr>)"
    "ht_free_list t = h # fs \<and> n = next_raw_handle t \<or>
     ht_free_list t = [] \<and> fs = [] \<and> h = next_raw_handle t \<and> h \<noteq> 0xFFFFFFFF \<and> n = h + 1"
proof (cases "ht_free_list t")
  case Nil
  then show ?thesis using Full Fresh [where h = "next_raw_handle t" and fs = "[]" and n = "next_raw_handle t + 1"]
    by (cases "next_raw_handle t = 0xFFFFFFFF") (simp_all add: AllocateEntry_def)
next
  case (Cons h fs)
  then show ?thesis using Fresh [where h = h and fs = fs and n = "next_raw_handle t"] by (simp add: AllocateEntry_def)
qed

lemma stream_ok_mono: "stream_ok es s \<Longrightarrow> set es \<subseteq> set es' \<Longrightarrow> stream_ok es' s"
  by (auto simp: stream_ok_def)

lemma fresh_handle_ok:
  assumes ok: "ht_ok t"
    and h: "ht_free_list t = h # fs \<and> n = next_raw_handle t \<or>
      ht_free_list t = [] \<and> fs = [] \<and> h = next_raw_handle t \<and> h \<noteq> 0xFFFFFFFF \<and> n = h + 1"
    and e: "he_handle e = h" "entry_ok e"
  shows "ht_ok (t\<lparr>ht_free_list := fs, next_raw_handle := n, ht_entries := ht_entries t @ [e]\<rparr>)"
    and "h \<notin> he_handle ` set (ht_entries t)"
proof -
  have st: "list_all (stream_ok (ht_entries t @ [e])) (standard_streams t)"
    using ok by (auto simp: ht_ok_def list_all_iff intro: stream_ok_mono)
  have "he_handle ` set (ht_entries t) \<subseteq> {k. k < next_raw_handle t}"
    using ok by (metis Un_upper1 ht_ok_def list.set_map set_append)
  moreover have "set (ht_free_list t) \<inter> he_handle ` set (ht_entries t) = {}"
    using ok by (auto simp: ht_ok_def)
  ultimately show "h \<notin> he_handle ` set (ht_entries t)"
    using h by auto
  show "ht_ok (t\<lparr>ht_free_list := fs, next_raw_handle := n, ht_entries := ht_entries t @ [e]\<rparr>)"
    using h
  proof (elim disjE conjE)
    assume "ht_free_list t = h # fs" "n = next_raw_handle t"
    then show ?thesis using ok e st by (auto simp: ht_ok_def)
  next
    assume a: "ht_free_list t = []" "fs = []" "h = next_raw_handle t" "h \<noteq> 0xFFFFFFFF" "n = h + 1"
    then have "he_handle ` set (ht_entries t) = {k. k < h}" using ok by (simp add: ht_ok_def)
    then show ?thesis using ok e st a by (auto simp: ht_ok_def less_next_raw)
  qed
qed

lemma ht_ok_next_reservation [simp]: "ht_ok (t\<lparr>next_reservation := r\<rparr>) = ht_ok t"
  by (simp add: ht_ok_def)

lemma find_append: "find P (xs @ ys) = (case find P xs of None \<Rightarrow> find P ys | Some x \<Rightarrow> Some x)"
  by (induction xs) auto

lemma Allocate_ok: "ht_ok t \<Longrightarrow> ht_ok (snd (Allocate obj acc fl t))"
proof (cases obj)
  case (Some ob)
  assume ok: "ht_ok t"
  show ?thesis
  proof (cases rule: AllocateEntry_cases [where obj = obj and acc = acc and fl = fl and t = t])
    case Full
    with ok Some show ?thesis by (simp add: Allocate_def)
  next
    case (Fresh h fs n)
    have "ht_ok (snd (AllocateEntry obj acc fl t))"
      unfolding Fresh(1) snd_conv by (rule fresh_handle_ok(1) [OF ok Fresh(2)]) (simp_all add: Some entry_ok_def)
    with Some show ?thesis by (simp add: Allocate_def)
  qed
qed (simp add: Allocate_def)

text \<open>The identity the next reservation gets.\<close>

definition next_identity :: "ProcessHandleTable \<Rightarrow> u32" where
  "next_identity t = (if next_reservation t + 1 = 0 then 1 else next_reservation t + 1)"

lemma next_identity_nonzero: "next_identity t \<noteq> 0"
  by (simp add: next_identity_def)

lemma Reserve_cases:
  obtains (Full) "Reserve acc fl t = (Inl ResourceLimitExceeded, t)"
    "ht_free_list t = []" "next_raw_handle t = 0xFFFFFFFF"
  | (Fresh) h fs n where "Reserve acc fl t =
      (Inr \<lparr>rv_handle = h, rv_identity = next_identity t\<rparr>,
       t\<lparr>ht_free_list := fs, next_raw_handle := n, ht_entries := ht_entries t @
        [\<lparr>he_handle = h, he_object = None, he_access = acc, he_flags = fl, he_refcount = 1, he_reservation = next_identity t\<rparr>],
        next_reservation := next_identity t\<rparr>)"
    "ht_free_list t = h # fs \<and> n = next_raw_handle t \<or>
     ht_free_list t = [] \<and> fs = [] \<and> h = next_raw_handle t \<and> h \<noteq> 0xFFFFFFFF \<and> n = h + 1"
proof (cases rule: AllocateEntry_cases [where obj = None and acc = acc and fl = fl and t = t])
  case f: Full
  then show ?thesis by (intro Full) (simp_all add: Reserve_def)
next
  case f: (Fresh h fs n)
  show ?thesis by (rule Fresh [OF _ f(2)]) (simp add: Reserve_def Let_def f(1) next_identity_def)
qed

lemma Reserve_ok: "ht_ok t \<Longrightarrow> ht_ok (snd (Reserve acc fl t))"
proof (cases rule: Reserve_cases [where acc = acc and fl = fl and t = t])
  case Full
  then show "ht_ok t \<Longrightarrow> ?thesis" by simp
next
  case (Fresh h fs n)
  assume ok: "ht_ok t"
  show ?thesis unfolding Fresh(1) snd_conv ht_ok_next_reservation
    by (rule fresh_handle_ok(1) [OF ok Fresh(2)]) (simp_all add: entry_ok_def next_identity_nonzero)
qed

lemma replace_entry_ok:
  assumes "ht_ok t" and "ht_entries t = before @ e # after"
    and "he_handle e' = he_handle e" and "entry_ok e'" and "he_reservation e = 0 \<Longrightarrow> he_reservation e' = 0"
  shows "ht_ok (t\<lparr>ht_entries := before @ e' # after\<rparr>)"
proof -
  have "stream_ok (before @ e' # after) s" if "stream_ok (before @ e # after) s" for s
    using that assms(3,5) by (auto simp: stream_ok_def)
  then show ?thesis using assms by (auto simp: ht_ok_def list_all_iff)
qed

lemma Bind_ok: "ht_ok t \<Longrightarrow> ht_ok (snd (Bind token obj t))"
proof (cases "obj = None \<or> FindReservation token t = None")
  case True
  then show "ht_ok t \<Longrightarrow> ?thesis" by (auto simp: Bind_def)
next
  case False
  assume ok: "ht_ok t"
  from False obtain before e after where f: "FindReservation token t = Some (before, e, after)" by auto
  then have es: "ht_entries t = before @ e # after" by (auto simp: FindReservation_def extract_Some_iff split: if_splits)
  have "entry_ok e" using ok es by (simp add: ht_ok_def)
  then have "ht_ok (t\<lparr>ht_entries := before @ e\<lparr>he_object := obj, he_reservation := 0\<rparr> # after\<rparr>)"
    using False by (intro replace_entry_ok [OF ok es]) (auto simp: entry_ok_def)
  then show ?thesis using False f by (auto simp: Bind_def)
qed

text \<open>Taking an entry out and putting its handle on the free list; \<open>ss\<close> are the streams that remain.\<close>

lemma drop_entry_ok:
  assumes ok: "ht_ok t" and es: "ht_entries t = before @ e # after"
    and len: "length ss = 3" and ss: "list_all (stream_ok (before @ after)) ss"
  shows "ht_ok (t\<lparr>standard_streams := ss, ht_free_list := ht_free_list t @ [he_handle e], ht_entries := before @ after\<rparr>)"
proof -
  have "set (map he_handle (before @ after) @ ht_free_list t @ [he_handle e]) = {h. h < next_raw_handle t}"
    using ok es by (auto simp: ht_ok_def)
  moreover have "distinct (map he_handle (before @ after) @ ht_free_list t @ [he_handle e])"
    using ok es by (auto simp: ht_ok_def)
  ultimately show ?thesis using ok es len ss by (simp add: ht_ok_def)
qed

lemma Cancel_ok: "ht_ok t \<Longrightarrow> ht_ok (snd (Cancel token t))"
proof (cases "List.extract (\<lambda>e. rv_identity token \<noteq> 0 \<and> he_reservation e = rv_identity token \<and> he_handle e = rv_handle token) (ht_entries t)")
  case None
  then show "ht_ok t \<Longrightarrow> ?thesis" by (simp add: Cancel_def)
next
  case (Some p)
  assume ok: "ht_ok t"
  obtain before e after where p: "p = (before, e, after)" by (cases p)
  with Some have es: "ht_entries t = before @ e # after" and r: "he_reservation e \<noteq> 0"
    by (auto simp: extract_Some_iff)
  have "stream_ok (before @ after) s" if "stream_ok (ht_entries t) s" for s
    using that es r by (auto simp: stream_ok_def)
  then have "list_all (stream_ok (before @ after)) (standard_streams t)"
    using ok by (auto simp: ht_ok_def list_all_iff)
  from drop_entry_ok [OF ok es _ this] ok Some p show ?thesis by (simp add: Cancel_def ht_ok_def)
qed

lemma Close_cases:
  assumes "ht_ok t"
  obtains (Unknown) "Close h t = (InvalidHandle, t)" "Lookup h t = None"
  | (Protected) e where "Close h t = (AccessDenied, t)" "Lookup h t = Some e" "he_flags e AND Flag_ProtectFromClose \<noteq> 0"
  | (Closed) before e after where
      "Close h t = (Success,
         t\<lparr>standard_streams := map (\<lambda>s. if ss_available s \<and> ss_value s = h then s\<lparr>ss_available := False\<rparr> else s) (standard_streams t),
           ht_free_list := ht_free_list t @ [h], ht_entries := before @ after\<rparr>)"
      "Lookup h t = Some e" "he_flags e AND Flag_ProtectFromClose = 0"
      "ht_entries t = before @ e # after" "he_handle e = h" "he_reservation e = 0"
proof (cases "List.extract (\<lambda>e. he_handle e = h \<and> he_reservation e = 0) (ht_entries t)")
  case None
  then have "Lookup h t = None" by (auto simp: Lookup_def extract_None_iff find_None_iff)
  with None show ?thesis by (intro Unknown) (simp_all add: Close_def)
next
  case (Some p)
  obtain before e after where p: "p = (before, e, after)" by (cases p)
  with Some have es: "ht_entries t = before @ e # after" and e: "he_handle e = h" "he_reservation e = 0"
    and first: "\<forall>x\<in>set before. \<not> (he_handle x = h \<and> he_reservation x = 0)"
    by (auto simp: extract_Some_iff)
  have "find (\<lambda>e. he_handle e = h \<and> he_reservation e = 0) before = None"
    using first by (simp add: find_None_iff)
  then have L: "Lookup h t = Some e" using es e by (simp add: Lookup_def find_append)
  have "he_refcount e = 1" using assms es by (simp add: ht_ok_def entry_ok_def)
  then show ?thesis using Some p L es e Protected Closed by (cases "he_flags e AND Flag_ProtectFromClose = 0") (simp_all add: Close_def)
qed

lemma ht_ok_distinct: "ht_ok t \<Longrightarrow> distinct (map he_handle (ht_entries t))"
  by (simp add: ht_ok_def)

lemma distinct_other_handle:
  assumes "ht_ok t" and "ht_entries t = before @ e # after" and "x \<in> set (before @ after)"
  shows "he_handle x \<noteq> he_handle e"
proof -
  have "distinct (map he_handle (before @ e # after))" using ht_ok_distinct [OF assms(1)] unfolding assms(2) .
  then show ?thesis using assms(3) by simp (metis imageI)
qed

lemma Close_ok:
  assumes ok: "ht_ok t"
  shows "ht_ok (snd (Close h t))"
  using ok
proof (cases rule: Close_cases [where h = h])
  case (Closed before e after)
  let ?ss = "map (\<lambda>s. if ss_available s \<and> ss_value s = h then s\<lparr>ss_available := False\<rparr> else s) (standard_streams t)"
  have "stream_ok (before @ after) (if ss_available s \<and> ss_value s = h then s\<lparr>ss_available := False\<rparr> else s)"
    if "stream_ok (ht_entries t) s" for s
    using that Closed(4,5) by (auto simp: stream_ok_def)
  moreover have "\<forall>s\<in>set (standard_streams t). stream_ok (ht_entries t) s" using ok by (simp add: ht_ok_def list_all_iff)
  ultimately have "list_all (stream_ok (before @ after)) ?ss" unfolding list_all_iff set_map by blast
  then show ?thesis
    using drop_entry_ok [OF ok Closed(4), of ?ss] ok Closed by (simp add: ht_ok_def)
qed (simp_all add: ok)

lemma SetStandardHandle_ok:
  assumes ok: "ht_ok t"
  shows "ht_ok (snd (SetStandardHandle stream h t))"
proof (cases "stream \<ge> 3 \<or> Lookup h t = None")
  case False
  then obtain e where L: "Lookup h t = Some e" by auto
  then have "e \<in> set (ht_entries t)" "he_handle e = h" "he_reservation e = 0"
    by (auto simp: Lookup_def find_Some_iff)
  then have "stream_ok (ht_entries t) \<lparr>ss_value = h, ss_available = True\<rparr>" by (auto simp: stream_ok_def)
  then have "list_all (stream_ok (ht_entries t)) ((standard_streams t)[i := \<lparr>ss_value = h, ss_available = True\<rparr>])" for i
    using ok by (auto simp: ht_ok_def list_all_iff dest!: set_update_subset_insert [THEN subsetD])
  with ok L False show ?thesis by (simp add: SetStandardHandle_def ht_ok_def)
qed (use ok in \<open>auto simp: SetStandardHandle_def\<close>)

lemma AllocateStandardHandle_ok:
  assumes ok: "ht_ok t"
  shows "ht_ok (snd (AllocateStandardHandle stream obj acc t))"
proof -
  have "ht_ok t1" if "Allocate obj acc Flag_Inheritable t = (r, t1)" for r t1
    using Allocate_ok [OF ok, of obj acc Flag_Inheritable] that by simp
  moreover have "ht_ok t2" if "SetStandardHandle stream h t1 = (st, t2)" "ht_ok t1" for h t1 st t2
    using SetStandardHandle_ok [OF that(2), of stream h] that by simp
  ultimately show ?thesis using ok
    by (auto simp: AllocateStandardHandle_def Close_ok split: prod.splits sum.splits)
qed

lemma close_stream_ok: "ht_ok t \<Longrightarrow> ht_ok (close_stream stream t)"
  by (simp add: close_stream_def Close_ok split: sum.splits)

lemma AttachStandardStreams_ok:
  assumes ok: "ht_ok t"
  shows "ht_ok (snd (AttachStandardStreams sink t))"
proof -
  have "ht_ok t1" if "AllocateStandardHandle stream obj acc t0 = (r, t1)" "ht_ok t0" for stream obj acc t0 r t1
    using AllocateStandardHandle_ok [OF that(2), of stream obj acc] that by simp
  then show ?thesis using ok
    by (auto simp: AttachStandardStreams_def close_stream_ok split: prod.splits)
qed

lemma rollback_ok: "ht_ok t \<Longrightarrow> ht_ok (rollback t)"
proof (induction t rule: rollback.induct)
  case (1 t)
  then show ?case by (subst rollback.simps) (auto simp: Close_ok split: list.splits)
qed

lemma inherit_streams_ok: "ht_ok t \<Longrightarrow> ht_ok (snd (inherit_streams is parent e h t))"
proof (induction "is" arbitrary: t)
  case (Cons i "is")
  then show ?case using SetStandardHandle_ok [OF Cons.prems, of i h]
    by (auto simp: rollback_ok split: prod.splits)
qed simp

lemma inherit_loop_ok: "ht_ok t \<Longrightarrow> ht_ok (snd (inherit_loop es parent t))"
proof (induction es arbitrary: t)
  case (Cons e es)
  have "ht_ok t1" if "Allocate (he_object e) (he_access e) (he_flags e) t = (r, t1)" for r t1
    using Allocate_ok [OF Cons.prems, of "he_object e" "he_access e" "he_flags e"] that by simp
  moreover have "ht_ok t2" if "inherit_streams [0, 1, 2] parent e h t1 = (st, t2)" "ht_ok t1" for h t1 st t2
    using inherit_streams_ok [OF that(2), of "[0, 1, 2]" parent e h] that by simp
  ultimately show ?case using Cons
    by (auto simp: rollback_ok Close_ok simp del: inherit_streams.simps split: prod.splits sum.splits)
qed simp

lemmas ht_ok_ops = Allocate_ok Reserve_ok Bind_ok Cancel_ok Close_ok SetStandardHandle_ok AllocateStandardHandle_ok
  AttachStandardStreams_ok inherit_loop_ok

lemma ht_apply_ok: "ht_ok t \<Longrightarrow> ht_ok (ht_apply a t)"
  by (cases a) (simp_all add: ht_ok_ops InheritHandlesFrom_def)

lemma ht_reachable_ok: "ht_reachable t \<Longrightarrow> ht_ok t"
  by (induction rule: ht_reachable.induct) (simp_all add: ht_ok_empty ht_apply_ok)

end
