(* ===== verification/Capability.thy ===== *)
theory Capability
  imports Prelude
begin

text \<open>
  The contract that the kernel's handle tables share: an allocation returns a handle that names nothing yet and
  binds it, a close affects no handle but the one it is given. The tables of \<open>KProcessObject.hpp\<close>,
  \<open>gfx_dc_table.cpp\<close> and \<open>font_resources.cpp\<close> are instances.
\<close>

locale handle_space =
  fixes good :: "'t \<Rightarrow> bool"
    and look :: "'t \<Rightarrow> 'h \<Rightarrow> 'v option"
    and alloc :: "'a \<Rightarrow> 't \<Rightarrow> 'h option \<times> 't"
    and close :: "'h \<Rightarrow> 't \<Rightarrow> 't"
    and value_of :: "'a \<Rightarrow> 'v"
  assumes alloc_fails: "good t \<Longrightarrow> alloc a t = (None, t') \<Longrightarrow> good t' \<and> look t' = look t"
    and alloc_binds: "good t \<Longrightarrow> alloc a t = (Some h, t') \<Longrightarrow> good t' \<and> look t h = None \<and> look t' = (look t)(h \<mapsto> value_of a)"
    and close_good: "good t \<Longrightarrow> good (close h t)"
    and close_other: "good t \<Longrightarrow> k \<noteq> h \<Longrightarrow> look (close h t) k = look t k"
begin

text \<open>A client's request is an allocation or a close.\<close>

definition request :: "'a + 'h \<Rightarrow> 't \<Rightarrow> 't" where
  "request r t = (case r of Inl a \<Rightarrow> snd (alloc a t) | Inr h \<Rightarrow> close h t)"

lemma alloc_good: "good t \<Longrightarrow> good (snd (alloc a t))"
  by (cases "alloc a t"; cases "fst (alloc a t)") (auto dest: alloc_fails alloc_binds)

lemma alloc_keeps: "good t \<Longrightarrow> look t h = Some v \<Longrightarrow> look (snd (alloc a t)) h = Some v"
proof -
  assume t: "good t" "look t h = Some v"
  obtain r t' where a: "alloc a t = (r, t')" by (cases "alloc a t")
  show ?thesis
  proof (cases r)
    case None
    with alloc_fails [OF t(1)] a t(2) show ?thesis by simp
  next
    case (Some k)
    with alloc_binds [OF t(1)] a t(2) show ?thesis by force
  qed
qed

lemma request_good: "good t \<Longrightarrow> good (request r t)"
  by (simp add: request_def alloc_good close_good split: sum.splits)

lemma run_good: "good t \<Longrightarrow> good (fold request rs t)"
  by (induction rs arbitrary: t) (simp_all add: request_good)

lemma request_keeps: "good t \<Longrightarrow> look t h = Some v \<Longrightarrow> r \<noteq> Inr h \<Longrightarrow> look (request r t) h = Some v"
  by (cases r) (simp_all add: request_def alloc_keeps close_other [of t h])

text \<open>What a handle names stays the same until the handle itself is closed.\<close>

lemma run_keeps: "good t \<Longrightarrow> look t h = Some v \<Longrightarrow> Inr h \<notin> set rs \<Longrightarrow> look (fold request rs t) h = Some v"
  by (induction rs arbitrary: t) (auto simp: request_good request_keeps)

text \<open>Two handles in use are never the same one.\<close>

lemma alloc_distinct:
  assumes "good t" and "alloc a t = (Some h, t1)" and "Inr h \<notin> set rs" and "alloc b (fold request rs t1) = (Some k, t2)"
  shows "h \<noteq> k" and "look t2 h = Some (value_of a)" and "look t2 k = Some (value_of b)"
proof -
  have t1: "good t1" "look t1 h = Some (value_of a)" using alloc_binds [OF assms(1,2)] by auto
  have r: "good (fold request rs t1)" "look (fold request rs t1) h = Some (value_of a)"
    using run_good [OF t1(1)] run_keeps [OF t1 assms(3)] by auto
  from alloc_binds [OF r(1) assms(4)] r(2) show "h \<noteq> k" and "look t2 h = Some (value_of a)" and "look t2 k = Some (value_of b)"
    by auto
qed

end

end
