(* ===== verification/Handle_Correct.thy ===== *)
theory Handle_Correct
  imports Handle_Table Capability
begin

text \<open>
  What the handle table of a process promises. A table is abstracted to a map from handles to slots, a slot
  being bound to an object or reserved; the operations refine the obvious operations on that map. Reservations
  are followed through runs of operations, and a child's inherited table is given in closed form.
\<close>

subsection \<open>The table as a map\<close>

datatype slot = Bound "nat" u32 u32 | Reserved u32 u32 u32

definition slot_of :: "Entry \<Rightarrow> slot" where
  "slot_of e = (case he_object e of Some ob \<Rightarrow> Bound ob (he_access e) (he_flags e) | None \<Rightarrow> Reserved (he_reservation e) (he_access e) (he_flags e))"

definition slots :: "ProcessHandleTable \<Rightarrow> u32 \<rightharpoonup> slot" where
  "slots t = map_of (map (\<lambda>e. (he_handle e, slot_of e)) (ht_entries t))"

lemma slots_iff: "ht_ok t \<Longrightarrow> slots t h = Some s \<longleftrightarrow> (\<exists>e\<in>set (ht_entries t). he_handle e = h \<and> slot_of e = s)"
proof -
  assume "ht_ok t"
  then have "distinct (map fst (map (\<lambda>e. (he_handle e, slot_of e)) (ht_entries t)))"
    using ht_ok_distinct [of t] by (simp add: comp_def)
  then have "slots t h = Some s \<longleftrightarrow> (h, s) \<in> set (map (\<lambda>e. (he_handle e, slot_of e)) (ht_entries t))"
    unfolding slots_def by (rule map_of_eq_Some_iff)
  then show ?thesis by (auto simp: image_iff)
qed

lemma dom_slots: "dom (slots t) = he_handle ` set (ht_entries t)"
  by (auto simp: slots_def dom_map_of_conv_image_fst image_image)

lemma slots_at: "ht_ok t \<Longrightarrow> ht_entries t = before @ e # after \<Longrightarrow> slots t (he_handle e) = Some (slot_of e)"
  using slots_iff [of t "he_handle e" "slot_of e"] by auto

lemma slots_drop:
  assumes "ht_ok t" and "ht_entries t = before @ e # after"
  shows "map_of (map (\<lambda>e. (he_handle e, slot_of e)) (before @ after)) = (slots t)(he_handle e := None)"
proof
  fix h
  have "he_handle e \<notin> he_handle ` set (before @ after)" using distinct_other_handle [OF assms] by fastforce
  then have "map_of (map (\<lambda>e. (he_handle e, slot_of e)) (before @ after)) (he_handle e) = None"
    unfolding map_of_eq_None_iff by (simp add: image_image image_Un)
  then show "map_of (map (\<lambda>e. (he_handle e, slot_of e)) (before @ after)) h = ((slots t)(he_handle e := None)) h"
    by (cases "h = he_handle e") (auto simp: slots_def assms(2) map_add_def split: option.splits)
qed

lemma slots_replace:
  assumes "ht_ok t" and "ht_entries t = before @ e # after" and "he_handle e' = he_handle e"
  shows "map_of (map (\<lambda>e. (he_handle e, slot_of e)) (before @ e' # after)) = (slots t)(he_handle e \<mapsto> slot_of e')"
proof
  fix h
  have "he_handle e \<notin> he_handle ` set before" using distinct_other_handle [OF assms(1,2)] by fastforce
  then have "map_of (map (\<lambda>e. (he_handle e, slot_of e)) before) (he_handle e) = None"
    by (auto simp: map_of_eq_None_iff image_image)
  then show "map_of (map (\<lambda>e. (he_handle e, slot_of e)) (before @ e' # after)) h = ((slots t)(he_handle e \<mapsto> slot_of e')) h"
    using assms(3) by (cases "h = he_handle e") (auto simp: slots_def assms(2) map_add_def split: option.splits)
qed

lemma slots_append:
  assumes "he_handle e \<notin> he_handle ` set es"
  shows "map_of (map (\<lambda>e. (he_handle e, slot_of e)) (es @ [e])) = (map_of (map (\<lambda>e. (he_handle e, slot_of e)) es))(he_handle e \<mapsto> slot_of e)"
proof
  fix h
  have "map_of (map (\<lambda>e. (he_handle e, slot_of e)) es) (he_handle e) = None"
    using assms by (auto simp: map_of_eq_None_iff image_image)
  then show "map_of (map (\<lambda>e. (he_handle e, slot_of e)) (es @ [e])) h = ((map_of (map (\<lambda>e. (he_handle e, slot_of e)) es))(he_handle e \<mapsto> slot_of e)) h"
    by (cases "h = he_handle e") (auto simp: map_add_def split: option.splits)
qed

subsection \<open>Refinement\<close>

text \<open>The operations on the map of slots. \<open>result\<close> pairs an answer with the map.\<close>

definition spec_bind :: "Reservation \<Rightarrow> nat \<Rightarrow> (u32 \<rightharpoonup> slot) \<Rightarrow> u32 expected \<times> (u32 \<rightharpoonup> slot)" where
  "spec_bind token ob m =
     (case m (rv_handle token) of
        Some (Reserved r acc fl) \<Rightarrow>
          if r = rv_identity token then (Inr (rv_handle token), m(rv_handle token \<mapsto> Bound ob acc fl)) else (Inl InvalidHandle, m)
      | _ \<Rightarrow> (Inl InvalidHandle, m))"

definition spec_cancel :: "Reservation \<Rightarrow> (u32 \<rightharpoonup> slot) \<Rightarrow> KernelError \<times> (u32 \<rightharpoonup> slot)" where
  "spec_cancel token m =
     (case m (rv_handle token) of
        Some (Reserved r acc fl) \<Rightarrow> if r = rv_identity token then (Success, m(rv_handle token := None)) else (InvalidHandle, m)
      | _ \<Rightarrow> (InvalidHandle, m))"

definition spec_close :: "u32 \<Rightarrow> (u32 \<rightharpoonup> slot) \<Rightarrow> KernelError \<times> (u32 \<rightharpoonup> slot)" where
  "spec_close h m =
     (case m h of
        Some (Bound ob acc fl) \<Rightarrow> if fl AND Flag_ProtectFromClose \<noteq> 0 then (AccessDenied, m) else (Success, m(h := None))
      | _ \<Rightarrow> (InvalidHandle, m))"

definition spec_access :: "u32 \<Rightarrow> u32 \<Rightarrow> (u32 \<rightharpoonup> slot) \<Rightarrow> bool" where
  "spec_access h required m = (case m h of Some (Bound ob acc fl) \<Rightarrow> acc AND required = required | _ \<Rightarrow> False)"

lemma entry_ok_at: "ht_ok t \<Longrightarrow> ht_entries t = before @ e # after \<Longrightarrow> entry_ok e"
  by (simp add: ht_ok_def)

lemma slot_of_bound: "entry_ok e \<Longrightarrow> he_reservation e = 0 \<Longrightarrow> \<exists>ob. slot_of e = Bound ob (he_access e) (he_flags e)"
  by (auto simp: entry_ok_def slot_of_def)

lemma slot_of_reserved: "entry_ok e \<Longrightarrow> he_reservation e \<noteq> 0 \<Longrightarrow> slot_of e = Reserved (he_reservation e) (he_access e) (he_flags e)"
  by (auto simp: entry_ok_def slot_of_def split: option.splits)

lemma Lookup_SomeD: "Lookup h t = Some e \<Longrightarrow> e \<in> set (ht_entries t) \<and> he_handle e = h \<and> he_reservation e = 0"
  by (auto simp: Lookup_def find_Some_iff)

lemma Lookup_slots:
  assumes ok: "ht_ok t"
  shows "Lookup h t = None \<longleftrightarrow> (\<forall>ob acc fl. slots t h \<noteq> Some (Bound ob acc fl))"
    and "Lookup h t = Some e \<Longrightarrow> slots t h = Some (slot_of e) \<and> (\<exists>ob. slot_of e = Bound ob (he_access e) (he_flags e))"
proof -
  have eok: "entry_ok x" if "x \<in> set (ht_entries t)" for x using ok that by (simp add: ht_ok_def list_all_iff)
  show s: "slots t h = Some (slot_of e) \<and> (\<exists>ob. slot_of e = Bound ob (he_access e) (he_flags e))" if "Lookup h t = Some e" for e
    using Lookup_SomeD [OF that] slots_iff [OF ok, of h "slot_of e"] slot_of_bound [OF eok] by blast
  show "Lookup h t = None \<longleftrightarrow> (\<forall>ob acc fl. slots t h \<noteq> Some (Bound ob acc fl))"
  proof (cases "Lookup h t")
    case None
    have "slots t h \<noteq> Some (Bound ob acc fl)" for ob acc fl
    proof
      assume "slots t h = Some (Bound ob acc fl)"
      then obtain e where e: "e \<in> set (ht_entries t)" "he_handle e = h" "slot_of e = Bound ob acc fl"
        using slots_iff [OF ok] by blast
      then have "he_reservation e = 0" using slot_of_reserved [OF eok [OF e(1)]] by auto
      with None e show False by (auto simp: Lookup_def find_None_iff)
    qed
    with None show ?thesis by simp
  next
    case (Some e)
    with s [OF Some] show ?thesis by auto
  qed
qed

lemma Close_refines:
  assumes ok: "ht_ok t"
  shows "map_prod id slots (Close h t) = spec_close h (slots t)"
  using ok
proof (cases rule: Close_cases [where h = h])
  case Unknown
  then have "slots t h \<noteq> Some (Bound ob acc fl)" for ob acc fl using Lookup_slots(1) [OF ok] by blast
  with Unknown show ?thesis by (auto simp: spec_close_def split: option.splits slot.splits)
next
  case (Protected e)
  with Lookup_slots(2) [OF ok Protected(2)] show ?thesis by (auto simp: spec_close_def)
next
  case (Closed before e after)
  from Lookup_slots(2) [OF ok Closed(2)] obtain ob where "slots t h = Some (Bound ob (he_access e) (he_flags e))" by auto
  moreover have "slots (snd (Close h t)) = (slots t)(h := None)"
    using slots_drop [OF ok Closed(4)] Closed(1,5) by (simp add: slots_def)
  ultimately show ?thesis using Closed(1,3) by (simp add: spec_close_def)
qed

lemma FindReservation_extract:
  "List.extract (\<lambda>e. rv_identity token \<noteq> 0 \<and> he_reservation e = rv_identity token \<and> he_handle e = rv_handle token) (ht_entries t) = FindReservation token t"
  by (cases "rv_identity token = 0") (simp_all add: FindReservation_def extract_None_iff)

lemmas Cancel_eq = Cancel_def [unfolded FindReservation_extract]

lemma FindReservation_cases:
  assumes ok: "ht_ok t"
  obtains (Stale) "FindReservation token t = None" "\<And>acc fl. slots t (rv_handle token) \<noteq> Some (Reserved (rv_identity token) acc fl)"
  | (Live) before e after where "FindReservation token t = Some (before, e, after)" "ht_entries t = before @ e # after"
      "he_handle e = rv_handle token" "he_reservation e = rv_identity token" "rv_identity token \<noteq> 0"
      "slots t (rv_handle token) = Some (Reserved (rv_identity token) (he_access e) (he_flags e))"
proof (cases "FindReservation token t")
  case None
  have "slots t (rv_handle token) \<noteq> Some (Reserved (rv_identity token) acc fl)" for acc fl
  proof
    assume "slots t (rv_handle token) = Some (Reserved (rv_identity token) acc fl)"
    then obtain e where e: "e \<in> set (ht_entries t)" "he_handle e = rv_handle token" "slot_of e = Reserved (rv_identity token) acc fl"
      using slots_iff [OF ok] by blast
    then have "entry_ok e" using ok by (simp add: ht_ok_def list_all_iff)
    then have "he_reservation e = rv_identity token" "rv_identity token \<noteq> 0"
      using e(3) slot_of_bound [of e] slot_of_reserved [of e] by fastforce+
    with None e show False by (auto simp: FindReservation_def extract_None_iff)
  qed
  with None show ?thesis by (rule Stale)
next
  case (Some p)
  obtain before e after where p: "p = (before, e, after)" by (cases p)
  with Some have e: "ht_entries t = before @ e # after" "he_handle e = rv_handle token" "he_reservation e = rv_identity token"
    "rv_identity token \<noteq> 0"
    by (auto simp: FindReservation_def extract_Some_iff split: if_splits)
  show ?thesis
    using Live Some p e slots_at [OF ok e(1)] slot_of_reserved [OF entry_ok_at [OF ok e(1)]] by simp
qed

lemma Bind_refines:
  assumes ok: "ht_ok t"
  shows "map_prod id slots (Bind token (Some ob) t) = spec_bind token ob (slots t)"
  using ok
proof (cases rule: FindReservation_cases [where token = token])
  case Stale
  then show ?thesis by (auto simp: Bind_def spec_bind_def split: option.splits slot.splits)
next
  case (Live before e after)
  have "slots (snd (Bind token (Some ob) t)) = (slots t)(rv_handle token \<mapsto> Bound ob (he_access e) (he_flags e))"
    using slots_replace [OF ok Live(2), of "e\<lparr>he_object := Some ob, he_reservation := 0\<rparr>"] Live
    by (simp add: Bind_def slots_def slot_of_def)
  then show ?thesis using Live by (simp add: Bind_def spec_bind_def)
qed

lemma Cancel_refines:
  assumes ok: "ht_ok t"
  shows "map_prod id slots (Cancel token t) = spec_cancel token (slots t)"
  using ok
proof (cases rule: FindReservation_cases [where token = token])
  case Stale
  then show ?thesis by (auto simp: Cancel_eq spec_cancel_def split: option.splits slot.splits)
next
  case (Live before e after)
  have "slots (snd (Cancel token t)) = (slots t)(rv_handle token := None)"
    using slots_drop [OF ok Live(2)] Live by (simp add: Cancel_eq slots_def)
  then show ?thesis using Live by (simp add: Cancel_eq spec_cancel_def)
qed

lemma HasAccess_refines:
  assumes ok: "ht_ok t"
  shows "HasAccess h required t = spec_access h required (slots t)"
proof (cases "Lookup h t")
  case None
  then have "slots t h \<noteq> Some (Bound ob acc fl)" for ob acc fl using Lookup_slots(1) [OF ok] by blast
  with None show ?thesis by (auto simp: HasAccess_def spec_access_def split: option.splits slot.splits)
next
  case (Some e)
  with Lookup_slots(2) [OF ok Some] show ?thesis by (auto simp: HasAccess_def spec_access_def)
qed

text \<open>C23. The handle table refines a map from handles to slots. Binding a reservation succeeds exactly for a token
  whose handle is reserved under the token's identity and turns that slot into a bound one; cancelling frees
  the slot under the same condition; closing frees a bound slot unless it is protected, and never a
  reserved one; a handle grants exactly the rights of the bound slot. Every other slot is untouched and every
  failing call leaves the map as it was.\<close>

theorem handle_table_refines:
  assumes "ht_reachable t"
  shows "map_prod id slots (Bind token (Some ob) t) = spec_bind token ob (slots t) \<and>
    map_prod id slots (Cancel token t) = spec_cancel token (slots t) \<and>
    map_prod id slots (Close h t) = spec_close h (slots t) \<and>
    HasAccess h required t = spec_access h required (slots t)"
  using ht_reachable_ok [OF assms] by (simp_all add: Bind_refines Cancel_refines Close_refines HasAccess_refines)

subsection \<open>Allocation\<close>

lemma card_below: "card {h :: u32. h < n} = unat n"
proof -
  have "unat ` {h. h < n} = {..< unat n}"
  proof (intro equalityI subsetI)
    fix k assume "k \<in> {..< unat n}"
    then have k: "k < unat n" by simp
    moreover have "unat n < 2 ^ LENGTH(32)" by (rule unsigned_less)
    ultimately have "unat (of_nat k :: u32) = k" by (simp add: unat_of_nat)
    with k show "k \<in> unat ` {h. h < n}" by (intro image_eqI [of _ _ "of_nat k"]) (auto simp: word_less_nat_alt)
  qed (auto simp: word_less_nat_alt)
  moreover have "inj_on unat {h. h < n}" by (simp add: inj_on_def word_unat_eq_iff)
  ultimately show ?thesis by (metis card_image card_lessThan)
qed

lemma handles_in_use:
  assumes ok: "ht_ok t"
  shows "card (dom (slots t)) + length (ht_free_list t) = unat (next_raw_handle t)"
proof -
  have d: "distinct (ht_free_list t)" "he_handle ` set (ht_entries t) \<inter> set (ht_free_list t) = {}"
    and u: "he_handle ` set (ht_entries t) \<union> set (ht_free_list t) = {h. h < next_raw_handle t}"
    using ok by (simp_all add: ht_ok_def)
  have "card (he_handle ` set (ht_entries t)) + card (set (ht_free_list t)) = card {h. h < next_raw_handle t}"
    unfolding u [symmetric] using d(2) by (simp add: card_Un_disjoint)
  then show ?thesis using d(1) by (simp add: dom_slots card_below distinct_card)
qed

lemma table_full_iff:
  assumes "ht_ok t"
  shows "ht_free_list t = [] \<and> next_raw_handle t = 0xFFFFFFFF \<longleftrightarrow> card (dom (slots t)) = 0xFFFFFFFF"
proof
  assume "ht_free_list t = [] \<and> next_raw_handle t = 0xFFFFFFFF"
  with handles_in_use [OF assms] show "card (dom (slots t)) = 0xFFFFFFFF" by simp
next
  assume c: "card (dom (slots t)) = 0xFFFFFFFF"
  have "unat (next_raw_handle t) < 2 ^ LENGTH(32)" by (rule unsigned_less)
  then have "unat (next_raw_handle t) < 4294967296" by simp
  with c handles_in_use [OF assms] have n: "unat (next_raw_handle t) = 0xFFFFFFFF" and "length (ht_free_list t) = 0" by linarith+
  from n have "unat (next_raw_handle t) = unat (0xFFFFFFFF :: u32)" by simp
  then have "next_raw_handle t = 0xFFFFFFFF" unfolding word_unat_eq_iff .
  with \<open>length _ = 0\<close> show "ht_free_list t = [] \<and> next_raw_handle t = 0xFFFFFFFF" by simp
qed

lemma Allocate_spec:
  assumes ok: "ht_ok t"
  shows "(if card (dom (slots t)) = 0xFFFFFFFF then Allocate (Some ob) acc fl t = (Inl ResourceLimitExceeded, t)
     else \<exists>h t'. Allocate (Some ob) acc fl t = (Inr h, t') \<and> slots t h = None \<and> slots t' = (slots t)(h \<mapsto> Bound ob acc fl))"
proof (cases rule: AllocateEntry_cases [where obj = "Some ob" and acc = acc and fl = fl and t = t])
  case Full
  then show ?thesis using table_full_iff [OF ok] by (simp add: Allocate_def)
next
  case (Fresh h fs n)
  let ?e = "\<lparr>he_handle = h, he_object = Some ob, he_access = acc, he_flags = fl, he_refcount = 1, he_reservation = 0\<rparr>"
  have new: "h \<notin> he_handle ` set (ht_entries t)"
    by (rule fresh_handle_ok(2) [OF ok Fresh(2), of ?e]) (simp_all add: entry_ok_def)
  have "card (dom (slots t)) \<noteq> 0xFFFFFFFF" unfolding table_full_iff [OF ok, symmetric] using Fresh(2) by auto
  moreover have "slots t h = None" using new by (metis domIff dom_slots)
  ultimately show ?thesis using Fresh(1) slots_append [of ?e] new
    by (simp add: Allocate_def slots_def slot_of_def)
qed

lemma Reserve_spec:
  assumes ok: "ht_ok t"
  shows "(if card (dom (slots t)) = 0xFFFFFFFF then Reserve acc fl t = (Inl ResourceLimitExceeded, t)
     else \<exists>token t'. Reserve acc fl t = (Inr token, t') \<and> slots t (rv_handle token) = None \<and>
       slots t' = (slots t)(rv_handle token \<mapsto> Reserved (rv_identity token) acc fl))"
proof (cases rule: Reserve_cases [where acc = acc and fl = fl and t = t])
  case Full
  then show ?thesis using table_full_iff [OF ok] by simp
next
  case (Fresh h fs n)
  let ?e = "\<lparr>he_handle = h, he_object = None, he_access = acc, he_flags = fl, he_refcount = 1, he_reservation = next_identity t\<rparr>"
  have new: "h \<notin> he_handle ` set (ht_entries t)"
    by (rule fresh_handle_ok(2) [OF ok Fresh(2), of ?e]) (simp_all add: entry_ok_def next_identity_nonzero)
  have "card (dom (slots t)) \<noteq> 0xFFFFFFFF" unfolding table_full_iff [OF ok, symmetric] using Fresh(2) by auto
  moreover have "slots t h = None" using new by (metis domIff dom_slots)
  ultimately show ?thesis using Fresh(1) slots_append [of ?e] new by (simp add: slots_def slot_of_def)
qed

text \<open>C28. Allocation and reservation fail exactly when all $2^{32}-1$ handles are in use, and then change
  nothing; otherwise they return a handle that named nothing, and the table differs at that handle only: bound
  to the object, or reserved under the identity of the token.\<close>

theorem handle_allocation_spec:
  assumes "ht_reachable t"
  shows "if card (dom (slots t)) = 0xFFFFFFFF
    then Allocate (Some ob) acc fl t = (Inl ResourceLimitExceeded, t) \<and> Reserve acc fl t = (Inl ResourceLimitExceeded, t)
    else (\<exists>h t'. Allocate (Some ob) acc fl t = (Inr h, t') \<and> slots t h = None \<and> slots t' = (slots t)(h \<mapsto> Bound ob acc fl)) \<and>
      (\<exists>token t'. Reserve acc fl t = (Inr token, t') \<and> slots t (rv_handle token) = None \<and>
        slots t' = (slots t)(rv_handle token \<mapsto> Reserved (rv_identity token) acc fl))"
  using Allocate_spec [OF ht_reachable_ok [OF assms], of ob acc fl] Reserve_spec [OF ht_reachable_ok [OF assms], of acc fl]
  by (simp split: if_splits)

subsection \<open>The contract of a handle space\<close>

definition bound_at :: "ProcessHandleTable \<Rightarrow> u32 \<Rightarrow> (nat \<times> u32 \<times> u32) option" where
  "bound_at t h = (case slots t h of Some (Bound ob acc fl) \<Rightarrow> Some (ob, acc, fl) | _ \<Rightarrow> None)"

definition alloc_bound :: "nat \<times> u32 \<times> u32 \<Rightarrow> ProcessHandleTable \<Rightarrow> u32 option \<times> ProcessHandleTable" where
  "alloc_bound a t =
     (case a of (ob, acc, fl) \<Rightarrow> map_prod (\<lambda>r. case r of Inl e \<Rightarrow> None | Inr h \<Rightarrow> Some h) id (Allocate (Some ob) acc fl t))"

interpretation process_handles: handle_space ht_ok bound_at alloc_bound "\<lambda>h t. snd (Close h t)" id
proof unfold_locales
  fix t a t'
  assume ok: "ht_ok t" and a: "alloc_bound a t = (None, t')"
  obtain ob acc fl where p: "a = (ob, acc, fl)" by (cases a)
  from a p Allocate_spec [OF ok, of ob acc fl] have "t' = t" by (auto simp: alloc_bound_def split: if_splits)
  with ok show "ht_ok t' \<and> bound_at t' = bound_at t" by simp
next
  fix t a h t'
  assume ok: "ht_ok t" and a: "alloc_bound a t = (Some h, t')"
  obtain ob acc fl where p: "a = (ob, acc, fl)" by (cases a)
  from a p Allocate_spec [OF ok, of ob acc fl] Allocate_ok [OF ok, of "Some ob" acc fl]
  have "ht_ok t'" and "slots t h = None" and s: "slots t' = (slots t)(h \<mapsto> Bound ob acc fl)"
    by (auto simp: alloc_bound_def split: if_splits)
  then show "ht_ok t' \<and> bound_at t h = None \<and> bound_at t' = (bound_at t)(h \<mapsto> id a)"
    by (auto simp: bound_at_def p)
next
  fix t k h
  assume "ht_ok t"
  from Close_refines [OF this, of h] show "k \<noteq> h \<Longrightarrow> bound_at (snd (Close h t)) k = bound_at t k"
    by (auto simp: bound_at_def spec_close_def map_prod_def split: option.splits slot.splits if_splits prod.splits)
qed (rule Close_ok)

subsection \<open>Reservations through runs\<close>

definition pending :: "ProcessHandleTable \<Rightarrow> Reservation set" where
  "pending t = {\<lparr>rv_handle = he_handle e, rv_identity = he_reservation e\<rparr> | e. e \<in> set (ht_entries t) \<and> he_reservation e \<noteq> 0}"

lemma pending_iff:
  "token \<in> pending t \<longleftrightarrow> rv_identity token \<noteq> 0 \<and> (\<exists>e\<in>set (ht_entries t). he_handle e = rv_handle token \<and> he_reservation e = rv_identity token)"
proof -
  have eq: "token = \<lparr>rv_handle = h, rv_identity = r\<rparr> \<longleftrightarrow> rv_handle token = h \<and> rv_identity token = r" for h r
    by (cases token) auto
  show ?thesis unfolding pending_def eq by (auto simp: eq) metis
qed

lemma FindReservation_pending: "FindReservation token t = None \<longleftrightarrow> token \<notin> pending t"
  by (auto simp: FindReservation_def extract_None_iff pending_iff)

definition same_pending :: "ProcessHandleTable \<Rightarrow> ProcessHandleTable \<Rightarrow> bool" where
  "same_pending t t' \<longleftrightarrow> pending t' = pending t \<and> next_reservation t' = next_reservation t"

lemma same_pending_refl [simp]: "same_pending t t"
  by (simp add: same_pending_def)

lemma same_pending_trans: "same_pending a b \<Longrightarrow> same_pending b c \<Longrightarrow> same_pending a c"
  by (simp add: same_pending_def)

lemma same_pendingI:
  assumes "\<And>e. he_reservation e \<noteq> 0 \<Longrightarrow> e \<in> set (ht_entries t') \<longleftrightarrow> e \<in> set (ht_entries t)"
    and "next_reservation t' = next_reservation t"
  shows "same_pending t t'"
  using assms by (auto simp: same_pending_def pending_def)

lemma Allocate_pending: "same_pending t (snd (Allocate obj acc fl t))"
proof (cases "obj = None")
  case False
  show ?thesis
    by (cases rule: AllocateEntry_cases [where obj = obj and acc = acc and fl = fl and t = t])
      (use False in \<open>auto simp: Allocate_def intro!: same_pendingI\<close>)
qed (simp add: Allocate_def)

lemma Close_pending: "ht_ok t \<Longrightarrow> same_pending t (snd (Close h t))"
  by (erule Close_cases [where h = h]) (auto intro!: same_pendingI)

lemma SetStandardHandle_pending: "same_pending t (snd (SetStandardHandle stream h t))"
  by (auto simp: SetStandardHandle_def intro!: same_pendingI split: option.splits)

lemma AllocateStandardHandle_pending:
  assumes ok: "ht_ok t"
  shows "same_pending t (snd (AllocateStandardHandle stream obj acc t))"
proof (cases "obj = None \<or> stream \<ge> 3")
  case False
  obtain r t1 where a: "Allocate obj acc Flag_Inheritable t = (r, t1)" by (cases "Allocate obj acc Flag_Inheritable t")
  have t1: "ht_ok t1" "same_pending t t1"
    using Allocate_ok [OF ok, of obj acc Flag_Inheritable] Allocate_pending [of t obj acc Flag_Inheritable] a by simp_all
  show ?thesis
  proof (cases r)
    case (Inr h)
    obtain st t2 where s: "SetStandardHandle stream h t1 = (st, t2)" by (cases "SetStandardHandle stream h t1")
    have t2: "ht_ok t2" "same_pending t1 t2"
      using SetStandardHandle_ok [OF t1(1), of stream h] SetStandardHandle_pending [of t1 stream h] s by simp_all
    show ?thesis using a s Inr t1 t2 Close_pending [OF t2(1), of h] False
      by (auto simp: AllocateStandardHandle_def intro: same_pending_trans)
  qed (use a t1 False in \<open>auto simp: AllocateStandardHandle_def\<close>)
qed (auto simp: AllocateStandardHandle_def)

lemma close_stream_pending: "ht_ok t \<Longrightarrow> same_pending t (close_stream stream t)"
  by (simp add: close_stream_def Close_pending split: sum.splits)

lemma AttachStandardStreams_pending:
  assumes ok: "ht_ok t"
  shows "same_pending t (snd (AttachStandardStreams sink t))"
proof (cases "sink = None")
  case False
  have step: "ht_ok b \<and> same_pending a b" if "AllocateStandardHandle i sink acc a = (r, b)" "ht_ok a" for i acc a r b
    using AllocateStandardHandle_ok [OF that(2), of i sink acc] AllocateStandardHandle_pending [OF that(2), of i sink acc] that(1)
    by simp
  obtain r1 t1 where 1: "AllocateStandardHandle 0 sink Access_Read t = (r1, t1)" by (cases "AllocateStandardHandle 0 sink Access_Read t")
  obtain r2 t2 where 2: "AllocateStandardHandle 1 sink Access_Write t1 = (r2, t2)" by (cases "AllocateStandardHandle 1 sink Access_Write t1")
  obtain r3 t3 where 3: "AllocateStandardHandle 2 sink Access_Write t2 = (r3, t3)" by (cases "AllocateStandardHandle 2 sink Access_Write t2")
  have s: "ht_ok t1" "same_pending t t1" "ht_ok t2" "same_pending t1 t2" "ht_ok t3" "same_pending t2 t3"
    using step [OF 1 ok] step [OF 2] step [OF 3] by auto
  have c: "same_pending t (close_stream 0 t2)" "same_pending t (close_stream 1 (close_stream 0 t3))"
    using s close_stream_pending close_stream_ok by (meson same_pending_trans)+
  from s have "same_pending t t3" by (meson same_pending_trans)
  with c s show ?thesis using False by (auto simp: AttachStandardStreams_def 1 2 3)
qed (simp add: AttachStandardStreams_def)

lemma rollback_pending: "ht_ok t \<Longrightarrow> same_pending t (rollback t)"
proof (induction t rule: rollback.induct)
  case (1 t)
  then show ?case
    by (subst rollback.simps) (auto simp: Close_ok Close_pending intro: same_pending_trans [OF Close_pending] split: list.splits)
qed

lemma inherit_streams_pending: "ht_ok t \<Longrightarrow> same_pending t (snd (inherit_streams is parent e h t))"
proof (induction "is" arbitrary: t)
  case (Cons i "is")
  obtain st t1 where s: "SetStandardHandle i h t = (st, t1)" by (cases "SetStandardHandle i h t")
  have t1: "ht_ok t1" "same_pending t t1"
    using SetStandardHandle_ok [OF Cons.prems, of i h] SetStandardHandle_pending [of t i h] s by simp_all
  show ?case using Cons.IH [OF Cons.prems] Cons.IH [OF t1(1)] rollback_pending [OF t1(1)] t1(2) s
    by (auto intro: same_pending_trans)
qed simp

lemma inherit_loop_pending: "ht_ok t \<Longrightarrow> same_pending t (snd (inherit_loop es parent t))"
proof (induction es arbitrary: t)
  case (Cons e es)
  obtain r t1 where a: "Allocate (he_object e) (he_access e) (he_flags e) t = (r, t1)"
    by (cases "Allocate (he_object e) (he_access e) (he_flags e) t")
  have t1: "ht_ok t1" "same_pending t t1"
    using Allocate_ok [OF Cons.prems, of "he_object e" "he_access e" "he_flags e"]
      Allocate_pending [of t "he_object e" "he_access e" "he_flags e"] a by simp_all
  have b: "same_pending t (rollback t1)" "same_pending t (rollback (snd (Close h t1)))" for h
    using t1 rollback_pending Close_pending Close_ok by (meson same_pending_trans)+
  define st t2 where "st h = fst (inherit_streams [0, 1, 2] parent e h t1)"
    and "t2 h = snd (inherit_streams [0, 1, 2] parent e h t1)" for h
  then have s: "inherit_streams [0, 1, 2] parent e h t1 = (st h, t2 h)" for h by simp
  have t2: "ht_ok (t2 h)" "same_pending t (t2 h)" for h
    using inherit_streams_ok [OF t1(1), of "[0, 1, 2]" parent e h] inherit_streams_pending [OF t1(1), of "[0, 1, 2]" parent e h] s t1(2)
    by (auto intro: same_pending_trans)
  have "same_pending t (snd (inherit_loop es parent (t2 h)))" for h
    using Cons.IH [OF t2(1)] t2(2) by (rule same_pending_trans [rotated])
  then show ?case using Cons a s b t2
    by (auto simp del: inherit_streams.simps split: sum.splits)
qed simp

lemma pending_snoc:
  "ht_entries t' = ht_entries t @ [e] \<Longrightarrow> he_reservation e \<noteq> 0 \<Longrightarrow>
   pending t' = insert \<lparr>rv_handle = he_handle e, rv_identity = he_reservation e\<rparr> (pending t)"
  by (auto simp: pending_def)

text \<open>The operations that can change which reservations are pending.\<close>

lemma ht_apply_pending:
  assumes ok: "ht_ok t"
  shows "(case a of
      Op_Reserve acc fl \<Rightarrow> same_pending t (ht_apply a t) \<or>
        next_reservation (ht_apply a t) = next_identity t \<and>
        (\<exists>h. pending (ht_apply a t) = insert \<lparr>rv_handle = h, rv_identity = next_identity t\<rparr> (pending t))
    | Op_Bind token obj \<Rightarrow> pending t - {token} \<subseteq> pending (ht_apply a t) \<and> pending (ht_apply a t) \<subseteq> pending t \<and>
        next_reservation (ht_apply a t) = next_reservation t
    | Op_Cancel token \<Rightarrow> pending t - {token} \<subseteq> pending (ht_apply a t) \<and> pending (ht_apply a t) \<subseteq> pending t \<and>
        next_reservation (ht_apply a t) = next_reservation t
    | _ \<Rightarrow> same_pending t (ht_apply a t))"
proof (cases a)
  case (Op_Reserve acc fl)
  show ?thesis
  proof (cases rule: Reserve_cases [where acc = acc and fl = fl and t = t])
    case (Fresh h fs n)
    then have "pending (ht_apply a t) = insert \<lparr>rv_handle = h, rv_identity = next_identity t\<rparr> (pending t)"
      using Op_Reserve pending_snoc [of "ht_apply a t" t] next_identity_nonzero [of t] by simp
    with Fresh Op_Reserve show ?thesis by auto
  qed (simp add: Op_Reserve)
next
  case (Op_Bind token obj)
  from ok show ?thesis
  proof (cases rule: FindReservation_cases [where token = token])
    case (Live before e after)
    then show ?thesis using Op_Bind by (cases obj) (auto simp: Bind_def pending_iff)
  qed (auto simp: Op_Bind Bind_def)
next
  case (Op_Cancel token)
  from ok show ?thesis
  proof (cases rule: FindReservation_cases [where token = token])
    case (Live before e after)
    then show ?thesis using Op_Cancel by (auto simp: Cancel_eq pending_iff)
  qed (auto simp: Op_Cancel Cancel_eq)
qed (simp_all add: ok InheritHandlesFrom_def Allocate_pending Close_pending SetStandardHandle_pending AllocateStandardHandle_pending
    AttachStandardStreams_pending inherit_loop_pending)

lemma run_ok: "ht_ok t \<Longrightarrow> ht_ok (fold ht_apply ops t)"
  by (induction ops arbitrary: t) (simp_all add: ht_apply_ok)

lemma pending_step: "ht_ok t \<Longrightarrow> token \<in> pending t \<Longrightarrow> a \<noteq> Op_Cancel token \<Longrightarrow> (\<And>obj. a \<noteq> Op_Bind token obj) \<Longrightarrow> token \<in> pending (ht_apply a t)"
  using ht_apply_pending [of t a] by (cases a) (auto simp: same_pending_def)

lemma pending_run:
  "ht_ok t \<Longrightarrow> token \<in> pending t \<Longrightarrow> Op_Cancel token \<notin> set ops \<Longrightarrow> (\<And>obj. Op_Bind token obj \<notin> set ops) \<Longrightarrow> token \<in> pending (fold ht_apply ops t)"
proof (induction ops arbitrary: t)
  case (Cons a ops)
  have "token \<in> pending (ht_apply a t)" using Cons.prems by (intro pending_step) auto
  with Cons show ?case by (simp add: ht_apply_ok)
qed simp

lemma Bind_pending: "ht_ok t \<Longrightarrow> token \<in> pending t \<Longrightarrow> \<exists>t'. Bind token (Some ob) t = (Inr (rv_handle token), t')"
  by (erule FindReservation_cases [where token = token]) (auto simp: FindReservation_pending Bind_def)

lemma Reserve_pending: "Reserve acc fl t = (Inr token, t1) \<Longrightarrow> token \<in> pending t1"
  by (cases rule: Reserve_cases [where acc = acc and fl = fl and t = t]) (auto simp: pending_iff next_identity_nonzero)

text \<open>C25. A reservation can always be bound: from the moment \<open>Reserve\<close> returns a token, whatever operations run on
  the table afterwards (closes of any handle, inheritance, a failed inheritance that rolls back), binding the token
  publishes the object under the reserved handle and makes it visible to \<open>Lookup\<close>, as long as the token itself has not
  been bound or cancelled before.\<close>

theorem reservation_bindable:
  assumes "ht_reachable t" and "Reserve acc fl t = (Inr token, t1)"
    and "Op_Cancel token \<notin> set ops" and "\<And>obj. Op_Bind token obj \<notin> set ops"
  shows "\<exists>t2 e. Bind token (Some ob) (fold ht_apply ops t1) = (Inr (rv_handle token), t2) \<and>
     Lookup (rv_handle token) t2 = Some e \<and> he_object e = Some ob"
proof -
  have ok1: "ht_ok t1" using Reserve_ok [OF ht_reachable_ok [OF assms(1)], of acc fl] assms(2) by simp
  have ok: "ht_ok (fold ht_apply ops t1)" by (rule run_ok [OF ok1])
  have p: "token \<in> pending (fold ht_apply ops t1)"
    by (rule pending_run [OF ok1 Reserve_pending [OF assms(2)] assms(3,4)])
  then obtain t2 where b: "Bind token (Some ob) (fold ht_apply ops t1) = (Inr (rv_handle token), t2)"
    using Bind_pending [OF ok] by blast
  have "ht_ok t2" using Bind_ok [OF ok, of token "Some ob"] b by simp
  moreover obtain acc' fl' where "slots t2 (rv_handle token) = Some (Bound ob acc' fl')"
    using Bind_refines [OF ok, of token ob] b by (auto simp: spec_bind_def split: option.splits slot.splits if_splits)
  ultimately obtain e where "Lookup (rv_handle token) t2 = Some e" "slot_of e = Bound ob acc' fl'"
    using Lookup_slots [of t2 "rv_handle token"] by (cases "Lookup (rv_handle token) t2") auto
  with b show ?thesis by (auto simp: slot_of_def split: option.splits)
qed

text \<open>The reservations a run makes.\<close>

fun reserves :: "ht_op list \<Rightarrow> nat" where
  "reserves [] = 0"
| "reserves (Op_Reserve acc fl # ops) = Suc (reserves ops)"
| "reserves (_ # ops) = reserves ops"

lemma reserves_Cons: "reserves (a # ops) = (case a of Op_Reserve acc fl \<Rightarrow> Suc (reserves ops) | _ \<Rightarrow> reserves ops)"
  by (cases a) simp_all

lemma next_identity_less: "unat (next_reservation t) < 0xFFFFFFFF \<Longrightarrow> unat (next_identity t) = unat (next_reservation t) + 1"
  by (auto simp: next_identity_def unat_word_ariths dest: arg_cong [of _ 0 unat])

lemma stale_step:
  assumes ok: "ht_ok t" and dead: "token \<notin> pending t" and old: "rv_identity token \<le> next_reservation t"
    and room: "unat (next_reservation t) + reserves (a # ops) < 2 ^ 32"
  shows "token \<notin> pending (ht_apply a t) \<and> rv_identity token \<le> next_reservation (ht_apply a t) \<and>
    unat (next_reservation (ht_apply a t)) + reserves ops < 2 ^ 32"
proof (cases "\<exists>acc fl. a = Op_Reserve acc fl")
  case True
  then obtain acc fl where a: "a = Op_Reserve acc fl" by auto
  have n: "unat (next_identity t) = unat (next_reservation t) + 1"
    using room by (intro next_identity_less) (simp add: a)
  then have "rv_identity token < next_identity t" using old by (simp add: word_less_nat_alt word_le_nat_alt)
  with n show ?thesis using ht_apply_pending [OF ok, of a] dead old room by (auto simp: a same_pending_def)
next
  case False
  then have "pending (ht_apply a t) \<subseteq> pending t" "next_reservation (ht_apply a t) = next_reservation t" "reserves (a # ops) = reserves ops"
    using ht_apply_pending [OF ok, of a] by (cases a; auto simp: same_pending_def)+
  with dead old room show ?thesis by auto
qed

lemma stale_run:
  "ht_ok t \<Longrightarrow> token \<notin> pending t \<Longrightarrow> rv_identity token \<le> next_reservation t \<Longrightarrow>
   unat (next_reservation t) + reserves ops < 2 ^ 32 \<Longrightarrow> token \<notin> pending (fold ht_apply ops t)"
proof (induction ops arbitrary: t)
  case (Cons a ops)
  from stale_step [OF Cons.prems] show ?case using Cons.IH [OF ht_apply_ok [OF Cons.prems(1)], of a] by simp
qed simp


subsection \<open>Inheritance\<close>

definition inheritable :: "Entry \<Rightarrow> bool" where
  "inheritable e \<longleftrightarrow> he_reservation e = 0 \<and> he_flags e AND Flag_Inheritable \<noteq> 0"

text \<open>The table of a new child that inherits the entries \<open>ins\<close>: they are numbered from zero in the parent's order,
  and a standard stream is available when the parent's one names one of them.\<close>

definition child_entry :: "nat \<times> Entry \<Rightarrow> Entry" where
  "child_entry p =
     \<lparr>he_handle = of_nat (fst p), he_object = he_object (snd p), he_access = he_access (snd p), he_flags = he_flags (snd p),
      he_refcount = 1, he_reservation = 0\<rparr>"

definition child_stream :: "ProcessHandleTable \<Rightarrow> Entry list \<Rightarrow> u32 \<Rightarrow> StandardStreamHandle" where
  "child_stream parent ins i =
     (case find (\<lambda>p. GetStandardHandle i parent = Inr (he_handle (snd p))) (enumerate 0 ins) of
        None \<Rightarrow> \<lparr>ss_value = 0, ss_available = False\<rparr>
      | Some p \<Rightarrow> \<lparr>ss_value = of_nat (fst p), ss_available = True\<rparr>)"

definition child_table :: "ProcessHandleTable \<Rightarrow> Entry list \<Rightarrow> ProcessHandleTable" where
  "child_table parent ins =
     \<lparr>ht_entries = map child_entry (enumerate 0 ins), ht_free_list = [], next_raw_handle = of_nat (length ins), next_reservation = 0,
      standard_streams = map (child_stream parent ins) [0, 1, 2]\<rparr>"

lemma child_table_Nil: "child_table parent [] = empty_table"
  by (simp add: child_table_def empty_table_def child_stream_def numeral_3_eq_3)

lemma Lookup_streams [simp]: "Lookup h (t\<lparr>standard_streams := ss\<rparr>) = Lookup h t"
  by (simp add: Lookup_def)

lemma find_enumerate_None:
  "(\<And>x. x \<in> set xs \<Longrightarrow> \<not> P x) \<Longrightarrow> find (\<lambda>p. P (snd p)) (enumerate n xs) = None"
  by (induction xs arbitrary: n) auto

lemma child_stream_snoc:
  assumes "he_handle e \<notin> he_handle ` set ins"
  shows "child_stream parent (ins @ [e]) i =
    (if GetStandardHandle i parent = Inr (he_handle e) then \<lparr>ss_value = of_nat (length ins), ss_available = True\<rparr> else child_stream parent ins i)"
proof (cases "GetStandardHandle i parent = Inr (he_handle e)")
  case True
  have "find (\<lambda>p. GetStandardHandle i parent = Inr (he_handle (snd p))) (enumerate 0 ins) = None"
    using True assms by (intro find_enumerate_None [where P = "\<lambda>e. GetStandardHandle i parent = Inr (he_handle e)"]) auto
  with True show ?thesis by (simp add: child_stream_def enumerate_append_eq find_append)
next
  case False
  then show ?thesis by (simp add: child_stream_def enumerate_append_eq find_append split: option.splits)
qed

lemma SetStandardHandle_found:
  "i < 3 \<Longrightarrow> Lookup h t = Some x \<Longrightarrow> he_object x \<noteq> None \<Longrightarrow>
   SetStandardHandle i h t = (Success, t\<lparr>standard_streams := (standard_streams t)[unat i := \<lparr>ss_value = h, ss_available = True\<rparr>]\<rparr>)"
  by (auto simp: SetStandardHandle_def)

lemma inherit_streams_child:
  assumes L: "Lookup h t = Some x" "he_object x \<noteq> None" and ss: "standard_streams t = map f [0, 1, 2]"
  shows "inherit_streams [0, 1, 2] parent e h t =
    (Success, t\<lparr>standard_streams :=
      map (\<lambda>i. if GetStandardHandle i parent = Inr (he_handle e) then \<lparr>ss_value = h, ss_available = True\<rparr> else f i) [0, 1, 2]\<rparr>)"
proof -
  have S: "SetStandardHandle i h (t\<lparr>standard_streams := s\<rparr>) =
      (Success, t\<lparr>standard_streams := s[unat i := \<lparr>ss_value = h, ss_available = True\<rparr>]\<rparr>)" if "i < 3" for i s
    using SetStandardHandle_found [OF that, of h "t\<lparr>standard_streams := s\<rparr>"] L by simp
  have S0: "SetStandardHandle i h t = (Success, t\<lparr>standard_streams := (map f [0, 1, 2])[unat i := \<lparr>ss_value = h, ss_available = True\<rparr>]\<rparr>)"
    if "i < 3" for i
    using SetStandardHandle_found [OF that L] ss by simp
  have n: "unat (2 :: u32) = 2" "unat (1 :: u32) = 1" by simp_all
  show ?thesis
    by (cases "GetStandardHandle 0 parent = Inr (he_handle e)"; cases "GetStandardHandle 1 parent = Inr (he_handle e)";
        cases "GetStandardHandle 2 parent = Inr (he_handle e)")
      (use ss in \<open>simp_all add: S S0 n\<close>)
qed

lemma child_step:
  assumes e: "he_object e \<noteq> None" "he_handle e \<notin> he_handle ` set ins" and n: "length ins < 0xFFFFFFFF" and inh: "inheritable e"
    and ins: "\<And>x. x \<in> set ins \<Longrightarrow> he_object x \<noteq> None"
  shows "inherit_loop (e # es) parent (child_table parent ins) = inherit_loop es parent (child_table parent (ins @ [e]))"
proof -
  let ?h = "of_nat (length ins) :: u32"
  let ?t1 = "(child_table parent ins)\<lparr>next_raw_handle := ?h + 1, ht_entries := map child_entry (enumerate 0 (ins @ [e]))\<rparr>"
  have "unat ?h = length ins" using n by (simp add: unat_of_nat)
  then have "?h \<noteq> 0xFFFFFFFF" using n by auto
  then have a: "Allocate (he_object e) (he_access e) (he_flags e) (child_table parent ins) = (Inr ?h, ?t1)"
    using e(1) by (simp add: Allocate_def AllocateEntry_def child_table_def enumerate_append_eq child_entry_def)
  have "child_entry (length ins, e) \<in> set (ht_entries ?t1)" by (simp add: enumerate_append_eq)
  moreover have "he_handle (child_entry (length ins, e)) = ?h" "he_reservation (child_entry (length ins, e)) = 0"
    by (simp_all add: child_entry_def)
  ultimately have "Lookup ?h ?t1 \<noteq> None" unfolding Lookup_def find_None_iff by metis
  then obtain x where x: "Lookup ?h ?t1 = Some x" by auto
  have "x \<in> child_entry ` set (enumerate 0 (ins @ [e]))" using Lookup_SomeD [OF x] by simp
  then obtain p where "p \<in> set (enumerate 0 (ins @ [e]))" "x = child_entry p" by (rule imageE)
  moreover from this have "snd p \<in> set (map snd (enumerate 0 (ins @ [e])))" unfolding set_map by (intro imageI)
  ultimately have "he_object x \<noteq> None" using ins [of "snd p"] e(1) by (auto simp: child_entry_def)
  then have "inherit_streams [0, 1, 2] parent e ?h ?t1 = (Success, ?t1\<lparr>standard_streams := map (child_stream parent (ins @ [e])) [0, 1, 2]\<rparr>)"
    using inherit_streams_child [OF x, of "child_stream parent ins" parent e]
    unfolding child_stream_snoc [OF e(2)] by (simp add: child_table_def)
  also have "?t1\<lparr>standard_streams := map (child_stream parent (ins @ [e])) [0, 1, 2]\<rparr> = child_table parent (ins @ [e])"
    by (simp add: child_table_def)
  finally have s: "inherit_streams [0, 1, 2] parent e ?h ?t1 = (Success, child_table parent (ins @ [e]))" .
  have len: "length (ht_entries ?t1) = length (ht_entries (child_table parent ins)) + 1" by (simp add: child_table_def)
  show ?thesis using inh a x s len
    by (simp add: inheritable_def del: inherit_streams.simps)
qed

lemma inherit_loop_child:
  "\<lbrakk>\<And>x. x \<in> set (ins @ es) \<Longrightarrow> inheritable x \<Longrightarrow> he_object x \<noteq> None; \<And>x. x \<in> set ins \<Longrightarrow> inheritable x;
    distinct (map he_handle (ins @ es)); length (ins @ es) \<le> 0xFFFFFFFF\<rbrakk> \<Longrightarrow>
   inherit_loop es parent (child_table parent ins) = (Success, child_table parent (ins @ filter inheritable es))"
proof (induction es arbitrary: ins)
  case (Cons e es)
  show ?case
  proof (cases "inheritable e")
    case True
    have "inherit_loop (e # es) parent (child_table parent ins) = inherit_loop es parent (child_table parent (ins @ [e]))"
      using Cons.prems True by (intro child_step) auto
    also have "\<dots> = (Success, child_table parent ((ins @ [e]) @ filter inheritable es))"
      using Cons.prems True by (intro Cons.IH) auto
    finally show ?thesis using True by simp
  next
    case False
    then have "inherit_loop (e # es) parent (child_table parent ins) = inherit_loop es parent (child_table parent ins)"
      by (auto simp: inheritable_def)
    also have "\<dots> = (Success, child_table parent (ins @ filter inheritable es))"
      using Cons.prems by (intro Cons.IH) auto
    finally show ?thesis using False by simp
  qed
qed simp

lemma entries_bound:
  assumes ok: "ht_ok t"
  shows "length (ht_entries t) \<le> 0xFFFFFFFF"
proof -
  have "length (ht_entries t) = card (dom (slots t))"
    using distinct_card [OF ht_ok_distinct [OF ok]] by (simp add: dom_slots)
  moreover have "unat (next_raw_handle t) < 2 ^ LENGTH(32)" by (rule unsigned_less)
  then have "unat (next_raw_handle t) < 4294967296" by simp
  ultimately show ?thesis using handles_in_use [OF ok] by linarith
qed

text \<open>C27. A new child inherits exactly the parent's bound, inheritable entries: \<open>InheritHandlesFrom\<close> never fails on an
  empty table, numbers the inherited entries from zero in the parent's order with the same object, rights and
  flags, leaves reserved and private entries out, and makes a standard stream available exactly when the parent's
  stream names an inherited entry, under that entry's new number.\<close>

theorem inherit_handles_spec:
  assumes "ht_reachable parent"
  shows "InheritHandlesFrom parent empty_table = (Success, child_table parent (filter inheritable (ht_entries parent)))"
proof -
  have ok: "ht_ok parent" by (rule ht_reachable_ok [OF assms])
  have "he_object x \<noteq> None" if "x \<in> set (ht_entries parent)" "inheritable x" for x
    using ok that by (auto simp: ht_ok_def list_all_iff entry_ok_def inheritable_def)
  then have "inherit_loop (ht_entries parent) parent (child_table parent []) = (Success, child_table parent ([] @ filter inheritable (ht_entries parent)))"
    using ht_ok_distinct [OF ok] entries_bound [OF ok] by (intro inherit_loop_child) auto
  then show ?thesis by (simp add: InheritHandlesFrom_def child_table_Nil)
qed

subsection \<open>The invariant\<close>

lemma GetStandardHandle_valid:
  assumes ok: "ht_ok t"
  shows "GetStandardHandle i t \<noteq> Inl InvalidHandle"
proof (cases "i \<ge> 3 \<or> \<not> ss_available (standard_streams t ! unat i)")
  case False
  let ?s = "standard_streams t ! unat i"
  have "unat i < 3" using False by (simp add: word_le_nat_alt)
  then have "?s \<in> set (standard_streams t)" using ok by (simp add: ht_ok_def)
  then obtain e where e: "e \<in> set (ht_entries t)" "he_handle e = ss_value ?s" "he_reservation e = 0"
    using ok False by (auto simp: ht_ok_def list_all_iff stream_ok_def)
  then have "he_object e \<noteq> None" using ok by (auto simp: ht_ok_def list_all_iff entry_ok_def)
  with e False show ?thesis by (auto simp: GetStandardHandle_def Let_def find_None_iff split: option.splits)
qed (auto simp: GetStandardHandle_def)

text \<open>C24. Every table that the operations can produce is well formed: each number given out is either the handle of
  exactly one entry or waits on the free list exactly once, an entry is either bound to an object or
  reserved, its reference count is one, and a standard stream that is marked available names a bound entry, so that
  \<open>GetStandardHandle\<close> never fails with \<open>InvalidHandle\<close>.\<close>

theorem handle_table_invariant:
  assumes "ht_reachable t"
  shows "ht_ok t \<and> GetStandardHandle i t \<noteq> Inl InvalidHandle"
  using ht_reachable_ok [OF assms] by (simp add: GetStandardHandle_valid)

subsection \<open>A process\<close>

text \<open>A process attaches its streams, reserves a handle, cancels it and reserves again: the second reservation reuses the
  number of the first.\<close>

definition demo_token :: Reservation where "demo_token = \<lparr>rv_handle = 3, rv_identity = 1\<rparr>"

definition demo_setup :: "ht_op list" where
  "demo_setup = [Op_Attach (Some 7), Op_Reserve 1 1, Op_Cancel demo_token]"

definition demo_table :: ProcessHandleTable where
  "demo_table = fold ht_apply demo_setup empty_table"

lemma run_reachable: "ht_reachable t \<Longrightarrow> ht_reachable (fold ht_apply ops t)"
  by (induction ops arbitrary: t) (simp_all add: ht_next)

lemma demo_reachable: "ht_reachable demo_table"
  unfolding demo_table_def by (rule run_reachable [OF ht_init])

theorem handle_table_invariant_witness: "GetStandardHandle 1 demo_table = Inr 1 \<and> ht_ok demo_table"
proof
  show "GetStandardHandle 1 demo_table = Inr 1" by code_simp
  show "ht_ok demo_table" using handle_table_invariant [OF demo_reachable] by simp
qed

theorem handle_table_refines_witness:
  "ht_reachable demo_table \<and> map_prod id slots (Close 2 demo_table) = spec_close 2 (slots demo_table) \<and> fst (Close 2 demo_table) = Success"
proof (intro conjI)
  show "map_prod id slots (Close 2 demo_table) = spec_close 2 (slots demo_table)"
    using handle_table_refines [OF demo_reachable] by blast
  show "fst (Close 2 demo_table) = Success" by code_simp
qed (rule demo_reachable)

theorem handle_allocation_spec_witness:
  "card (dom (slots demo_table)) \<noteq> 0xFFFFFFFF \<and>
   (\<exists>h t'. Allocate (Some 9) 3 0 demo_table = (Inr h, t') \<and> slots demo_table h = None \<and> slots t' = (slots demo_table)(h \<mapsto> Bound 9 3 0))"
proof -
  have "map he_handle (ht_entries demo_table) = [0, 1, 2]" by code_simp
  then have "he_handle ` set (ht_entries demo_table) = {0, 1, 2}" by (metis list.set_map list.simps(15) empty_set)
  then have "card (dom (slots demo_table)) \<le> 3" unfolding dom_slots by (simp add: card_insert_if)
  then show ?thesis using handle_allocation_spec [OF demo_reachable, of 9 3 0] by (simp split: if_splits)
qed

theorem reservation_bindable_witness:
  "\<exists>token t1 t2 e. Reserve 1 0 demo_table = (Inr token, t1) \<and>
     Bind token (Some 5) (fold ht_apply [Op_Close 2, Op_Close 3, Op_Cancel demo_token] t1) = (Inr (rv_handle token), t2) \<and>
     Lookup (rv_handle token) t2 = Some e \<and> he_object e = Some 5"
proof -
  obtain t1 where r: "Reserve 1 0 demo_table = (Inr \<lparr>rv_handle = 3, rv_identity = 2\<rparr>, t1)"
  proof -
    have "fst (Reserve 1 0 demo_table) = Inr \<lparr>rv_handle = 3, rv_identity = 2\<rparr>" by code_simp
    then show ?thesis using that by (cases "Reserve 1 0 demo_table") simp
  qed
  have "\<exists>t2 e. Bind \<lparr>rv_handle = 3, rv_identity = 2\<rparr> (Some 5) (fold ht_apply [Op_Close 2, Op_Close 3, Op_Cancel demo_token] t1) =
      (Inr (rv_handle \<lparr>rv_handle = 3, rv_identity = 2\<rparr>), t2) \<and> Lookup (rv_handle \<lparr>rv_handle = 3, rv_identity = 2\<rparr>) t2 = Some e \<and> he_object e = Some 5"
    by (rule reservation_bindable [OF demo_reachable r]) (simp_all add: demo_token_def)
  with r show ?thesis by blast
qed


theorem inherit_handles_spec_witness:
  "InheritHandlesFrom demo_table empty_table = (Success, child_table demo_table (filter inheritable (ht_entries demo_table))) \<and>
   length (ht_entries (child_table demo_table (filter inheritable (ht_entries demo_table)))) = 3"
proof
  show "InheritHandlesFrom demo_table empty_table = (Success, child_table demo_table (filter inheritable (ht_entries demo_table)))"
    by (rule inherit_handles_spec [OF demo_reachable])
  have "length (filter inheritable (ht_entries demo_table)) = 3" by code_simp
  then show "length (ht_entries (child_table demo_table (filter inheritable (ht_entries demo_table)))) = 3" by (simp add: child_table_def)
qed

text \<open>Handles are isolated from each other: what a handle names (object, rights and flags) does not change
  while other handles are allocated and closed in any order, and a handle allocated meanwhile is a different one.\<close>

lemma handle_isolation:
  assumes "ht_reachable t" and "Allocate (Some ob) acc fl t = (Inr h, t1)" and "Inr h \<notin> set rs"
    and "Allocate (Some ob2) acc2 fl2 (fold process_handles.request rs t1) = (Inr k, t2)"
  shows "h \<noteq> k \<and> bound_at t2 h = Some (ob, acc, fl) \<and> bound_at t2 k = Some (ob2, acc2, fl2)"
  using process_handles.alloc_distinct [of t "(ob, acc, fl)" h t1 rs "(ob2, acc2, fl2)" k t2] ht_reachable_ok [OF assms(1)] assms(2-4)
  by (simp add: alloc_bound_def)

end
