(* ===== verification/Dc_Table.thy ===== *)
theory Dc_Table
  imports Capability
begin

text \<open>
  The device contexts of a process, \<open>gfx/gfx_dc_table.cpp\<close> with the header \<open>gfx/KDeviceContextTable.hpp\<close>. Pointers to
  displays, surfaces, fonts and rectangles are \<open>option\<close>s; a pointer to a slot is the index of the slot. The locks are
  left out: an operation is one step. Whether the allocation of a chunk succeeds is an argument of \<open>dc_Allocate\<close>. The
  theory shows that the table is a handle space, and what the 16-bit generation of a slot guarantees: a
  closed handle stays dead for \<open>65535\<close> reuses of its slot, after which the numbers wrap and the
  table hands out \<open>INVALID_HDC\<close>.
\<close>

subsection \<open>The table\<close>

record dc_context =
  dc_display :: "nat option"
  dc_target :: "nat option"
  dc_selectedBitmap :: "nat option"
  dc_selectedFont :: "nat option"
  dc_penColor :: u32
  dc_backgroundColor :: u32
  dc_opaqueText :: bool
  dc_memoryDC :: bool
  dc_noAccel :: bool
  dc_presentationDirty :: bool
  dc_presentationBounds :: "u32 \<times> u32 \<times> u32 \<times> u32"
  dc_currentX :: u32
  dc_currentY :: u32
  dc_originX :: u32
  dc_originY :: u32
  dc_clipped :: bool
  dc_clipRects :: "nat option"
  dc_clipCount :: u32
  dc_clipOwner :: "nat option"

record KDeviceContextSlot =
  dc_used :: bool
  dc_generation :: u16
  dc_ctx :: dc_context

record DeviceContextTable =
  dc_chunks :: "KDeviceContextSlot list list"
  dc_free_indices :: "u32 list"
  dc_next_index :: u32

abbreviation kSlotsPerChunk :: nat where "kSlotsPerChunk \<equiv> 64"

abbreviation (input) INVALID_HDC :: u32 where "INVALID_HDC \<equiv> 0"

text \<open>The values of a slot that has just been allocated, which are also those of the member initialisers.\<close>

definition initial_context :: dc_context where
  "initial_context =
     \<lparr>dc_display = None, dc_target = None, dc_selectedBitmap = None, dc_selectedFont = None, dc_penColor = 0,
      dc_backgroundColor = 7, dc_opaqueText = False, dc_memoryDC = False, dc_noAccel = False, dc_presentationDirty = False,
      dc_presentationBounds = (0, 0, 0, 0), dc_currentX = 0, dc_currentY = 0, dc_originX = 0, dc_originY = 0,
      dc_clipped = False, dc_clipRects = None, dc_clipCount = 0, dc_clipOwner = None\<rparr>"

definition new_chunk :: "KDeviceContextSlot list" where
  "new_chunk = replicate kSlotsPerChunk \<lparr>dc_used = False, dc_generation = 1, dc_ctx = initial_context\<rparr>"

definition dc_empty :: DeviceContextTable where
  "dc_empty = \<lparr>dc_chunks = [], dc_free_indices = [], dc_next_index = 0\<rparr>"

definition dc_slot :: "nat \<Rightarrow> DeviceContextTable \<Rightarrow> KDeviceContextSlot" where
  "dc_slot i t = dc_chunks t ! (i div kSlotsPerChunk) ! (i mod kSlotsPerChunk)"

definition dc_put :: "nat \<Rightarrow> KDeviceContextSlot \<Rightarrow> DeviceContextTable \<Rightarrow> DeviceContextTable" where
  "dc_put i s t =
     t\<lparr>dc_chunks := (dc_chunks t)[i div kSlotsPerChunk := (dc_chunks t ! (i div kSlotsPerChunk))[i mod kSlotsPerChunk := s]]\<rparr>"

subsection \<open>Operations\<close>

text \<open>The index of the slot to use: the result, and the table with the index taken.\<close>

definition take_index :: "bool \<Rightarrow> DeviceContextTable \<Rightarrow> u32 expected \<times> DeviceContextTable" where
  "take_index mem t =
     (case dc_free_indices t of
        index # fs \<Rightarrow> (Inr index, t\<lparr>dc_free_indices := fs\<rparr>)
      | [] \<Rightarrow>
          let index = dc_next_index t in
          if index > 0xFFFF then (Inl ResourceLimitExceeded, t)
          else if unat index div kSlotsPerChunk \<ge> length (dc_chunks t) then
            (if \<not> mem then (Inl OutOfMemory, t)
             else (Inr index, t\<lparr>dc_chunks := dc_chunks t @ [new_chunk], dc_next_index := index + 1\<rparr>))
          else (Inr index, t\<lparr>dc_next_index := index + 1\<rparr>))"

definition make_hdc :: "u16 \<Rightarrow> u32 \<Rightarrow> u32" where
  "make_hdc generation index = push_bit 16 (ucast generation) OR (index AND 0xFFFF)"

definition dc_Allocate :: "bool \<Rightarrow> DeviceContextTable \<Rightarrow> (nat \<times> u32) expected \<times> DeviceContextTable" where
  "dc_Allocate mem t =
     (case take_index mem t of
        (Inl e, t1) \<Rightarrow> (Inl e, t1)
      | (Inr index, t1) \<Rightarrow>
          (let slot = (dc_slot (unat index) t1)\<lparr>dc_used := True, dc_ctx := initial_context\<rparr> in
           (Inr (unat index, make_hdc (dc_generation slot) index), dc_put (unat index) slot t1)))"

definition dc_Resolve :: "u32 \<Rightarrow> DeviceContextTable \<Rightarrow> nat option" where
  "dc_Resolve hdc t =
     (let index = unat (hdc AND 0xFFFF); tag = drop_bit 16 hdc AND 0xFFFF in
      if index div kSlotsPerChunk \<ge> length (dc_chunks t) then None
      else if \<not> dc_used (dc_slot index t) \<or> ucast (dc_generation (dc_slot index t)) \<noteq> tag then None
      else Some index)"

definition dc_Close :: "u32 \<Rightarrow> DeviceContextTable \<Rightarrow> KernelError \<times> DeviceContextTable" where
  "dc_Close hdc t =
     (let index = hdc AND 0xFFFF in
      case dc_Resolve hdc t of
        None \<Rightarrow> (InvalidHandle, t)
      | Some i \<Rightarrow>
          (let slot = dc_slot i t;
               slot1 = slot\<lparr>dc_used := False, dc_generation := dc_generation slot + 1,
                 dc_ctx := (dc_ctx slot)\<lparr>dc_display := None, dc_target := None, dc_selectedBitmap := None, dc_selectedFont := None,
                   dc_clipped := False, dc_clipRects := None, dc_clipCount := 0, dc_clipOwner := None\<rparr>\<rparr>
           in (Success, (dc_put i slot1 t)\<lparr>dc_free_indices := dc_free_indices t @ [index]\<rparr>)))"

subsection \<open>The invariant\<close>

definition dc_capacity :: "DeviceContextTable \<Rightarrow> nat" where
  "dc_capacity t = kSlotsPerChunk * length (dc_chunks t)"

text \<open>Chunks are full arrays; the indices below \<open>next_index\<close> are in use or on the free list, exactly once; those above it
  have never been used.\<close>

definition dc_ok :: "DeviceContextTable \<Rightarrow> bool" where
  "dc_ok t \<longleftrightarrow>
     (\<forall>c\<in>set (dc_chunks t). length c = kSlotsPerChunk) \<and>
     unat (dc_next_index t) \<le> 0x10000 \<and> unat (dc_next_index t) \<le> dc_capacity t \<and> dc_capacity t \<le> 0x10000 \<and>
     distinct (dc_free_indices t) \<and>
     (\<forall>i\<in>set (dc_free_indices t). i < dc_next_index t) \<and>
     (\<forall>i < dc_capacity t. dc_used (dc_slot i t) \<longleftrightarrow> i < unat (dc_next_index t) \<and> of_nat i \<notin> set (dc_free_indices t))"

lemma dc_ok_empty: "dc_ok dc_empty"
  by (simp add: dc_ok_def dc_empty_def dc_capacity_def)

lemma div_mod_inj: "(i :: nat) div 64 = j div 64 \<Longrightarrow> i mod 64 = j mod 64 \<Longrightarrow> i = j"
  by (metis div_mult_mod_eq)

lemma dc_slot_put:
  assumes "\<forall>c\<in>set (dc_chunks t). length c = kSlotsPerChunk" and "i < dc_capacity t" and "j < dc_capacity t"
  shows "dc_slot j (dc_put i s t) = (if j = i then s else dc_slot j t)"
proof -
  have l: "i div 64 < length (dc_chunks t)" "j div 64 < length (dc_chunks t)"
    using assms(2,3) by (simp_all add: dc_capacity_def less_mult_imp_div_less mult.commute)
  then have "length (dc_chunks t ! (i div 64)) = 64" using assms(1) by simp
  then show ?thesis using l div_mod_inj [of i j]
    by (auto simp: dc_slot_def dc_put_def nth_list_update)
qed

lemma dc_put_simps [simp]:
  "dc_free_indices (dc_put i s t) = dc_free_indices t" "dc_next_index (dc_put i s t) = dc_next_index t"
  "dc_capacity (dc_put i s t) = dc_capacity t"
  by (simp_all add: dc_put_def dc_capacity_def)

lemma dc_put_chunks:
  assumes "\<forall>c\<in>set (dc_chunks t). length c = kSlotsPerChunk" and "i < dc_capacity t"
  shows "\<forall>c\<in>set (dc_chunks (dc_put i s t)). length c = kSlotsPerChunk"
proof -
  have "i div 64 < length (dc_chunks t)" using assms(2) by (simp add: dc_capacity_def less_mult_imp_div_less mult.commute)
  then have "length (dc_chunks t ! (i div 64)) = 64" using assms(1) by simp
  with assms(1) show ?thesis by (auto simp: dc_put_def dest!: set_update_subset_insert [THEN subsetD])
qed

subsection \<open>Handles\<close>

definition hdc_index :: "u32 \<Rightarrow> nat" where "hdc_index hdc = unat (hdc AND 0xFFFF)"
definition hdc_tag :: "u32 \<Rightarrow> u32" where "hdc_tag hdc = drop_bit 16 hdc AND 0xFFFF"

lemma mask16: "(0xFFFF :: u32) = mask 16"
  by (simp add: mask_eq_exp_minus_1)

lemma and_16: "(x :: u32) AND 0xFFFF = take_bit 16 x"
  by (simp add: mask16 take_bit_eq_mask)

lemma hdc_index_less: "hdc_index hdc < 0x10000"
  using take_bit_nat_less_exp [of 16 "unat hdc"] by (simp add: hdc_index_def and_16 unsigned_take_bit_eq)

lemma hdc_eqI: "hdc_index a = hdc_index b \<Longrightarrow> hdc_tag a = hdc_tag b \<Longrightarrow> a = b"
proof (rule bit_eqI)
  fix n
  assume i: "hdc_index a = hdc_index b" and t: "hdc_tag a = hdc_tag b" and "possible_bit TYPE(32 word) n"
  then have n: "n < 32" by simp
  have l: "take_bit 16 a = take_bit 16 b" using i by (simp add: hdc_index_def and_16 word_unat_eq_iff)
  have low: "bit a k = bit b k" if "k < 16" for k
    using arg_cong [OF l, of "\<lambda>w. bit w k"] that by (simp add: bit_take_bit_iff)
  have h: "take_bit 16 (drop_bit 16 a) = take_bit 16 (drop_bit 16 b)" using t by (simp add: hdc_tag_def and_16)
  have high: "bit a (16 + k) = bit b (16 + k)" if "k < 16" for k
    using arg_cong [OF h, of "\<lambda>w. bit w k"] that by (simp add: bit_take_bit_iff bit_drop_bit_eq)
  show "bit a n = bit b n"
  proof (cases "n < 16")
    case False
    then show ?thesis using high [of "n - 16"] n by simp
  qed (simp add: low)
qed

lemma bit_make_hdc: "bit (make_hdc g i) n = (if n < 16 then bit i n else bit g (n - 16))"
  by (auto simp: make_hdc_def bit_or_iff bit_push_bit_iff and_16 bit_take_bit_iff bit_ucast_iff dest: bit_imp_le_length)

lemma hdc_index_make [simp]: "hdc_index (make_hdc g i) = unat (i AND 0xFFFF)"
proof -
  have "take_bit 16 (make_hdc g i) = take_bit 16 i"
    by (rule bit_eqI) (simp add: bit_take_bit_iff bit_make_hdc)
  then show ?thesis by (simp add: hdc_index_def and_16)
qed

lemma hdc_tag_make [simp]: "hdc_tag (make_hdc g i) = ucast g"
proof -
  have "take_bit 16 (drop_bit 16 (make_hdc g i)) = ucast g"
    by (rule bit_eqI) (auto simp: bit_take_bit_iff bit_drop_bit_eq bit_make_hdc bit_ucast_iff dest: bit_imp_le_length)
  then show ?thesis by (simp add: hdc_tag_def and_16)
qed

lemma small_index: "unat i < 0x10000 \<Longrightarrow> (i :: u32) AND 0xFFFF = i"
proof -
  assume "unat i < 0x10000"
  then have "unat (take_bit 16 i) = unat i" by (simp add: unsigned_take_bit_eq take_bit_nat_eq_self)
  then show ?thesis by (simp add: and_16 word_unat_eq_iff)
qed

lemma Resolve_eq:
  "dc_Resolve hdc t =
     (if hdc_index hdc < dc_capacity t \<and> dc_used (dc_slot (hdc_index hdc) t) \<and> ucast (dc_generation (dc_slot (hdc_index hdc) t)) = hdc_tag hdc
      then Some (hdc_index hdc) else None)"
proof -
  have "hdc_index hdc div 64 \<ge> length (dc_chunks t) \<longleftrightarrow> \<not> hdc_index hdc < dc_capacity t"
    by (simp add: dc_capacity_def not_less [symmetric] div_less_iff_less_mult mult.commute)
  then show ?thesis by (auto simp: dc_Resolve_def Let_def hdc_index_def [symmetric] hdc_tag_def [symmetric])
qed

subsection \<open>Allocation\<close>

lemma take_index_fails: "take_index mem t = (Inl e, t1) \<Longrightarrow> t1 = t"
  by (auto simp: take_index_def Let_def split: list.splits if_splits)

lemma dc_slot_grow:
  "j < dc_capacity t \<Longrightarrow> dc_slot j (t\<lparr>dc_chunks := dc_chunks t @ [new_chunk], dc_next_index := n\<rparr>) = dc_slot j t"
  by (simp add: dc_slot_def dc_capacity_def nth_append less_mult_imp_div_less mult.commute)

lemma dc_slot_new:
  "dc_capacity t \<le> j \<Longrightarrow> j < dc_capacity t + 64 \<Longrightarrow>
   dc_slot j (t\<lparr>dc_chunks := dc_chunks t @ [new_chunk], dc_next_index := n\<rparr>) = \<lparr>dc_used = False, dc_generation = 1, dc_ctx = initial_context\<rparr>"
proof -
  assume j: "dc_capacity t \<le> j" "j < dc_capacity t + 64"
  then have "j div 64 = length (dc_chunks t)" by (simp add: dc_capacity_def div_nat_eqI)
  moreover have "j mod 64 < 64" by simp
  ultimately show ?thesis by (simp add: dc_slot_def new_chunk_def del: replicate.simps)
qed

text \<open>The table after an index has been taken, before its slot is marked: the invariant with the slot of \<open>index\<close> left
  out.\<close>

definition index_taken :: "u32 \<Rightarrow> DeviceContextTable \<Rightarrow> DeviceContextTable \<Rightarrow> bool" where
  "index_taken index t t1 \<longleftrightarrow>
     (\<forall>c\<in>set (dc_chunks t1). length c = kSlotsPerChunk) \<and>
     unat (dc_next_index t1) \<le> dc_capacity t1 \<and> dc_capacity t \<le> dc_capacity t1 \<and> dc_capacity t1 \<le> 0x10000 \<and>
     distinct (dc_free_indices t1) \<and> (\<forall>i\<in>set (dc_free_indices t1). i < dc_next_index t1) \<and>
     index < dc_next_index t1 \<and> index \<notin> set (dc_free_indices t1) \<and>
     (\<forall>j < dc_capacity t. dc_slot j t1 = dc_slot j t) \<and>
     (\<forall>j < dc_capacity t1. dc_capacity t \<le> j \<longrightarrow> dc_slot j t1 = \<lparr>dc_used = False, dc_generation = 1, dc_ctx = initial_context\<rparr>) \<and>
     (\<forall>j < dc_capacity t1. dc_used (dc_slot j t1) \<longleftrightarrow> j \<noteq> unat index \<and> j < unat (dc_next_index t1) \<and> of_nat j \<notin> set (dc_free_indices t1))"

lemma next_index_grow:
  "unat (n :: u32) < 0x10000 \<Longrightarrow> unat (n + 1) = unat n + 1"
  by (simp add: unat_word_ariths)

lemma take_index_taken:
  assumes ok: "dc_ok t" and i: "take_index mem t = (Inr index, t1)"
  shows "index_taken index t t1"
proof (cases "dc_free_indices t")
  case (Cons x fs)
  then have x: "index = x" "t1 = t\<lparr>dc_free_indices := fs\<rparr>" using i by (auto simp: take_index_def)
  have eq: "dc_capacity t1 = dc_capacity t" "\<And>j. dc_slot j t1 = dc_slot j t" by (simp_all add: x dc_capacity_def dc_slot_def)
  have "of_nat j = x \<longleftrightarrow> j = unat x" if "j < dc_capacity t" for j
  proof -
    have "unat (of_nat j :: u32) = j" using that ok by (simp add: dc_ok_def unat_of_nat)
    then show ?thesis by (auto simp: word_unat_eq_iff)
  qed
  then show ?thesis using ok Cons unfolding index_taken_def eq by (auto simp: dc_ok_def x)
next
  case Nil
  let ?n = "dc_next_index t"
  have n: "unat ?n < 0x10000" using Nil i by (auto simp: take_index_def Let_def word_less_nat_alt word_le_nat_alt not_less split: if_splits)
  note n1 = next_index_grow [OF n]
  have lt: "i < ?n + 1 \<longleftrightarrow> i < ?n \<or> i = ?n" for i by (auto simp: word_less_nat_alt n1 word_unat_eq_iff)
  show ?thesis
  proof (cases "unat ?n div 64 \<ge> length (dc_chunks t)")
    case True
    then have x: "index = ?n" "t1 = t\<lparr>dc_chunks := dc_chunks t @ [new_chunk], dc_next_index := ?n + 1\<rparr>"
      using i Nil by (auto simp: take_index_def Let_def split: if_splits)
    have full: "unat ?n = dc_capacity t"
      using True ok by (auto simp: dc_ok_def dc_capacity_def not_less [symmetric] div_less_iff_less_mult mult.commute)
    have c1: "dc_capacity t1 = dc_capacity t + 64" by (simp add: x dc_capacity_def)
    have "dc_capacity t + 64 \<le> 0x10000" using full n by (simp add: dc_capacity_def)
    moreover have "\<forall>j < dc_capacity t. dc_slot j t1 = dc_slot j t" unfolding x by (simp add: dc_slot_grow)
    moreover have new: "\<forall>j < dc_capacity t + 64. dc_capacity t \<le> j \<longrightarrow> dc_slot j t1 = \<lparr>dc_used = False, dc_generation = 1, dc_ctx = initial_context\<rparr>"
      unfolding x by (simp add: dc_slot_new)
    moreover have "\<forall>j < dc_capacity t + 64. dc_used (dc_slot j t1) \<longleftrightarrow> j < unat ?n"
      using calculation ok Nil full by (auto simp: dc_ok_def not_less)
    ultimately show ?thesis using ok Nil full unfolding index_taken_def c1
      by (auto simp: x dc_ok_def n1 lt new_chunk_def)
  next
    case False
    then have x: "index = ?n" "t1 = t\<lparr>dc_next_index := ?n + 1\<rparr>"
      using i Nil by (auto simp: take_index_def Let_def split: if_splits)
    have eq: "dc_capacity t1 = dc_capacity t" "\<And>j. dc_slot j t1 = dc_slot j t" by (simp_all add: x dc_capacity_def dc_slot_def)
    have "unat ?n < dc_capacity t" using False by (simp add: dc_capacity_def not_le div_less_iff_less_mult mult.commute)
    then show ?thesis using ok Nil unfolding index_taken_def eq by (auto simp: x dc_ok_def n1 lt)
  qed
qed

lemma index_taken_bound: "index_taken index t t1 \<Longrightarrow> unat index < dc_capacity t1 \<and> index AND 0xFFFF = index"
proof -
  assume "index_taken index t t1"
  then have i: "unat index < dc_capacity t1" "dc_capacity t1 \<le> 0x10000" by (auto simp: index_taken_def word_less_nat_alt)
  then have "unat index < 0x10000" by linarith
  with i show ?thesis by (simp add: small_index)
qed

lemma mark_slot_ok:
  assumes t: "index_taken index t t1" and u: "dc_used s"
  shows "dc_ok (dc_put (unat index) s t1)"
proof -
  have c: "\<forall>c\<in>set (dc_chunks t1). length c = kSlotsPerChunk" using t by (simp add: index_taken_def)
  have i: "unat index < dc_capacity t1" using index_taken_bound [OF t] by simp
  have sl: "dc_slot j (dc_put (unat index) s t1) = (if j = unat index then s else dc_slot j t1)" if "j < dc_capacity t1" for j
    using dc_slot_put [OF c i that] .
  show ?thesis using t u i dc_put_chunks [OF c i] unfolding dc_ok_def
    by (auto simp: index_taken_def sl word_less_nat_alt)
qed

subsection \<open>The table as a handle space\<close>

definition dc_look :: "DeviceContextTable \<Rightarrow> u32 \<Rightarrow> dc_context option" where
  "dc_look t hdc = map_option (\<lambda>i. dc_ctx (dc_slot i t)) (dc_Resolve hdc t)"

lemma dc_look_eq:
  "dc_look t hdc =
     (if hdc_index hdc < dc_capacity t \<and> dc_used (dc_slot (hdc_index hdc) t) \<and> ucast (dc_generation (dc_slot (hdc_index hdc) t)) = hdc_tag hdc
      then Some (dc_ctx (dc_slot (hdc_index hdc) t)) else None)"
  by (simp add: dc_look_def Resolve_eq)

lemma Allocate_binds:
  assumes ok: "dc_ok t" and a: "dc_Allocate mem t = (Inr (i, hdc), t')"
  shows "dc_ok t'" and "dc_look t hdc = None" and "dc_look t' = (dc_look t)(hdc \<mapsto> initial_context)"
    and "dc_Resolve hdc t' = Some i" and "\<And>j. j < dc_capacity t \<Longrightarrow> dc_generation (dc_slot j t') = dc_generation (dc_slot j t)"
    and "dc_capacity t \<le> dc_capacity t'"
proof -
  obtain index t1 where x: "take_index mem t = (Inr index, t1)"
    using a by (auto simp: dc_Allocate_def split: sum.splits prod.splits)
  note tk = take_index_taken [OF ok x]
  define s where "s = (dc_slot (unat index) t1)\<lparr>dc_used := True, dc_ctx := initial_context\<rparr>"
  have h: "i = unat index" "hdc = make_hdc (dc_generation s) index" "t' = dc_put (unat index) s t1"
    using a x by (auto simp: dc_Allocate_def s_def Let_def)
  have c: "\<forall>c\<in>set (dc_chunks t1). length c = kSlotsPerChunk" and cap: "dc_capacity t \<le> dc_capacity t1"
    using tk by (simp_all add: index_taken_def)
  have b: "unat index < dc_capacity t1" "hdc_index hdc = unat index" using index_taken_bound [OF tk] h by simp_all
  have sl: "dc_slot j t' = (if j = unat index then s else dc_slot j t1)" if "j < dc_capacity t1" for j
    unfolding h(3) using dc_slot_put [OF c b(1) that] .
  have cap': "dc_capacity t' = dc_capacity t1" by (simp add: h)
  show "dc_ok t'" unfolding h(3) by (rule mark_slot_ok [OF tk]) (simp add: s_def)
  show "dc_capacity t \<le> dc_capacity t'" by (simp add: cap cap')
  have unused: "\<not> dc_used (dc_slot (unat index) t)" if "unat index < dc_capacity t"
  proof -
    have "dc_slot (unat index) t1 = dc_slot (unat index) t" using tk that unfolding index_taken_def by blast
    moreover have "\<not> dc_used (dc_slot (unat index) t1)" using tk b(1) unfolding index_taken_def by blast
    ultimately show ?thesis by simp
  qed
  show "dc_look t hdc = None" using unused b by (auto simp: dc_look_eq)
  have tag: "hdc_tag hdc = ucast (dc_generation s)" using h by simp
  show "dc_Resolve hdc t' = Some i" using b sl tag by (simp add: Resolve_eq cap' h(1)) (simp add: s_def)
  show "dc_generation (dc_slot j t') = dc_generation (dc_slot j t)" if "j < dc_capacity t" for j
    using that sl [of j] cap tk by (auto simp: s_def index_taken_def)
  show "dc_look t' = (dc_look t)(hdc \<mapsto> initial_context)"
  proof
    fix k
    show "dc_look t' k = ((dc_look t)(hdc \<mapsto> initial_context)) k"
    proof (cases "k = hdc")
      case True
      then show ?thesis using b sl tag by (simp add: dc_look_eq cap') (simp add: s_def)
    next
      case False
      show ?thesis
      proof (cases "hdc_index k = unat index")
        case True
        then have "hdc_tag k \<noteq> hdc_tag hdc" using False hdc_eqI [of k hdc] b by auto
        then show ?thesis using False True sl [OF b(1)] b tag unused by (auto simp: dc_look_eq cap')
      next
        case other: False
        have "dc_slot (hdc_index k) t' = dc_slot (hdc_index k) t" if "hdc_index k < dc_capacity t"
          using sl [of "hdc_index k"] other that cap tk by (simp add: index_taken_def)
        moreover have "\<not> dc_used (dc_slot (hdc_index k) t')" if "\<not> hdc_index k < dc_capacity t" "hdc_index k < dc_capacity t1"
          using sl [of "hdc_index k"] other that tk by (simp add: index_taken_def)
        ultimately show ?thesis using False cap by (cases "hdc_index k < dc_capacity t") (auto simp: dc_look_eq cap')
      qed
    qed
  qed
qed

lemma dc_Close_cases:
  obtains (Dead) "dc_Close hdc t = (InvalidHandle, t)" "dc_Resolve hdc t = None"
  | (Live) s where "dc_Close hdc t = (Success, (dc_put (hdc_index hdc) s t)\<lparr>dc_free_indices := dc_free_indices t @ [hdc AND 0xFFFF]\<rparr>)"
      "\<not> dc_used s" "dc_generation s = dc_generation (dc_slot (hdc_index hdc) t) + 1" "dc_Resolve hdc t = Some (hdc_index hdc)"
proof (cases "dc_Resolve hdc t")
  case (Some i)
  then have "i = hdc_index hdc" by (auto simp: Resolve_eq split: if_splits)
  with Some show ?thesis by (intro Live) (auto simp: dc_Close_def Let_def)
qed (auto simp: dc_Close_def intro: Dead)

lemma dc_slot_free [simp]: "dc_slot j (t\<lparr>dc_free_indices := fs\<rparr>) = dc_slot j t" "dc_capacity (t\<lparr>dc_free_indices := fs\<rparr>) = dc_capacity t"
  by (simp_all add: dc_slot_def dc_capacity_def)

lemma Close_frees:
  assumes ok: "dc_ok t"
  shows "dc_ok (snd (dc_Close hdc t))" and "k \<noteq> hdc \<Longrightarrow> dc_look (snd (dc_Close hdc t)) k = dc_look t k"
    and "dc_look (snd (dc_Close hdc t)) hdc = None" and "dc_capacity (snd (dc_Close hdc t)) = dc_capacity t"
    and "j < dc_capacity t \<Longrightarrow> dc_generation (dc_slot j (snd (dc_Close hdc t))) =
      dc_generation (dc_slot j t) + (if dc_Resolve hdc t \<noteq> None \<and> j = hdc_index hdc then 1 else 0)"
proof -
  have "dc_ok (snd (dc_Close hdc t)) \<and> (k \<noteq> hdc \<longrightarrow> dc_look (snd (dc_Close hdc t)) k = dc_look t k) \<and>
    dc_look (snd (dc_Close hdc t)) hdc = None \<and> dc_capacity (snd (dc_Close hdc t)) = dc_capacity t \<and>
    (j < dc_capacity t \<longrightarrow> dc_generation (dc_slot j (snd (dc_Close hdc t))) =
      dc_generation (dc_slot j t) + (if dc_Resolve hdc t \<noteq> None \<and> j = hdc_index hdc then 1 else 0))"
  proof (cases rule: dc_Close_cases [of hdc t])
    case Dead
    then show ?thesis using ok by (simp add: dc_look_def)
  next
    case (Live s)
    let ?i = "hdc_index hdc"
    let ?t' = "(dc_put ?i s t)\<lparr>dc_free_indices := dc_free_indices t @ [hdc AND 0xFFFF]\<rparr>"
    have r: "?i < dc_capacity t" "dc_used (dc_slot ?i t)" "ucast (dc_generation (dc_slot ?i t)) = hdc_tag hdc"
      using Live(4) by (auto simp: Resolve_eq split: if_splits)
    have c: "\<forall>c\<in>set (dc_chunks t). length c = kSlotsPerChunk" using ok by (simp add: dc_ok_def)
    have sl: "dc_slot j ?t' = (if j = ?i then s else dc_slot j t)" if "j < dc_capacity t" for j
      using dc_slot_put [OF c r(1) that] by simp
    have i: "of_nat ?i = hdc AND 0xFFFF" by (simp add: hdc_index_def)
    have free: "?i < unat (dc_next_index t)" "hdc AND 0xFFFF \<notin> set (dc_free_indices t)"
      using ok r by (auto simp: dc_ok_def i)
    have other: "of_nat j \<noteq> hdc AND 0xFFFF" if "j < dc_capacity t" "j \<noteq> ?i" for j
    proof -
      have "unat (of_nat j :: u32) = j" using that ok by (simp add: dc_ok_def unat_of_nat)
      then show ?thesis using that(2) by (auto simp: hdc_index_def)
    qed
    have used: "dc_used (dc_slot j ?t') \<longleftrightarrow> j < unat (dc_next_index t) \<and> of_nat j \<notin> set (dc_free_indices t @ [hdc AND 0xFFFF])"
      if j: "j < dc_capacity t" for j
    proof (cases "j = ?i")
      case True
      then show ?thesis using sl [OF j] Live(2) i by simp
    next
      case False
      then show ?thesis using sl [OF j] other [OF j] ok j by (simp add: dc_ok_def)
    qed
    have "hdc AND 0xFFFF < dc_next_index t" using free(1) by (simp add: word_less_nat_alt hdc_index_def)
    then have "dc_ok ?t'" using ok free(2) dc_put_chunks [OF c r(1), of s] used
      unfolding dc_ok_def by simp
    moreover have "dc_look ?t' k = dc_look t k" if "k \<noteq> hdc"
      using that hdc_eqI [of k hdc] Live(2) r sl [of "hdc_index k"] by (auto simp: dc_look_eq)
    moreover have "dc_look ?t' hdc = None" using Live(2) sl [OF r(1)] by (auto simp: dc_look_eq)
    moreover have "j < dc_capacity t \<longrightarrow> dc_generation (dc_slot j ?t') = dc_generation (dc_slot j t) + (if j = ?i then 1 else 0)"
      using sl [of j] Live(3) by simp
    ultimately show ?thesis unfolding Live(1) snd_conv using Live(4) by simp
  qed
  then show "dc_ok (snd (dc_Close hdc t))" and "k \<noteq> hdc \<Longrightarrow> dc_look (snd (dc_Close hdc t)) k = dc_look t k"
    and "dc_look (snd (dc_Close hdc t)) hdc = None" and "dc_capacity (snd (dc_Close hdc t)) = dc_capacity t"
    and "j < dc_capacity t \<Longrightarrow> dc_generation (dc_slot j (snd (dc_Close hdc t))) =
      dc_generation (dc_slot j t) + (if dc_Resolve hdc t \<noteq> None \<and> j = hdc_index hdc then 1 else 0)"
    by blast+
qed

definition dc_alloc :: "unit \<Rightarrow> DeviceContextTable \<Rightarrow> u32 option \<times> DeviceContextTable" where
  "dc_alloc u t = map_prod (\<lambda>r. case r of Inl e \<Rightarrow> None | Inr (i, hdc) \<Rightarrow> Some hdc) id (dc_Allocate True t)"

lemma Allocate_fails: "dc_Allocate mem t = (Inl e, t') \<Longrightarrow> t' = t"
  by (auto simp: dc_Allocate_def Let_def split: prod.splits sum.splits dest: take_index_fails)

interpretation device_contexts: handle_space dc_ok dc_look dc_alloc "\<lambda>h t. snd (dc_Close h t)" "\<lambda>_. initial_context"
proof unfold_locales
  fix t a t'
  assume ok: "dc_ok t" and "dc_alloc a t = (None, t')"
  then have "t' = t" by (auto simp: dc_alloc_def map_prod_def split: prod.splits sum.splits dest: Allocate_fails)
  with ok show "dc_ok t' \<and> dc_look t' = dc_look t" by simp
next
  fix t a h t'
  assume ok: "dc_ok t" and "dc_alloc a t = (Some h, t')"
  then obtain i where a: "dc_Allocate True t = (Inr (i, h), t')"
    by (auto simp: dc_alloc_def map_prod_def split: prod.splits sum.splits)
  from Allocate_binds [OF ok a] show "dc_ok t' \<and> dc_look t h = None \<and> dc_look t' = (dc_look t)(h \<mapsto> initial_context)" by simp
qed (simp_all add: Close_frees)

subsection \<open>Runs\<close>

datatype dc_op = DC_Allocate bool | DC_Close u32

fun dc_apply :: "dc_op \<Rightarrow> DeviceContextTable \<Rightarrow> DeviceContextTable" where
  "dc_apply (DC_Allocate mem) t = snd (dc_Allocate mem t)"
| "dc_apply (DC_Close hdc) t = snd (dc_Close hdc t)"

inductive dc_reachable :: "DeviceContextTable \<Rightarrow> bool" where
  dc_init: "dc_reachable dc_empty"
| dc_next: "dc_reachable t \<Longrightarrow> dc_reachable (dc_apply a t)"

text \<open>The closes of a run that name the slot \<open>i\<close>.\<close>

definition closes_of :: "nat \<Rightarrow> dc_op list \<Rightarrow> nat" where
  "closes_of i ops = length (filter (\<lambda>a. case a of DC_Close h \<Rightarrow> hdc_index h = i | _ \<Rightarrow> False) ops)"

lemma dc_apply_step:
  assumes ok: "dc_ok t"
  shows "dc_ok (dc_apply a t)" and "dc_capacity t \<le> dc_capacity (dc_apply a t)"
    and "i < dc_capacity t \<Longrightarrow> \<exists>k \<le> closes_of i [a]. dc_generation (dc_slot i (dc_apply a t)) = dc_generation (dc_slot i t) + of_nat k"
proof -
  have "dc_ok (dc_apply a t) \<and> dc_capacity t \<le> dc_capacity (dc_apply a t) \<and>
    (i < dc_capacity t \<longrightarrow> (\<exists>k \<le> closes_of i [a]. dc_generation (dc_slot i (dc_apply a t)) = dc_generation (dc_slot i t) + of_nat k))"
  proof (cases a)
    case (DC_Close h)
    have "\<exists>k \<le> closes_of i [a]. dc_generation (dc_slot i (dc_apply a t)) = dc_generation (dc_slot i t) + of_nat k" if "i < dc_capacity t"
      using Close_frees(5) [OF ok that, of h]
      by (cases "dc_Resolve h t \<noteq> None \<and> i = hdc_index h") (auto simp: DC_Close closes_of_def intro: exI [of _ 0] exI [of _ 1])
    then show ?thesis using Close_frees(1,4) [OF ok, of h] by (simp add: DC_Close)
  next
    case (DC_Allocate mem)
    show ?thesis
    proof (cases "dc_Allocate mem t")
      case (Pair r t')
      show ?thesis
      proof (cases r)
        case (Inl e)
        then have "t' = t" using Pair Allocate_fails by blast
        then show ?thesis using Pair ok DC_Allocate by (auto intro: exI [of _ 0])
      next
        case (Inr p)
        obtain j hdc where "p = (j, hdc)" by (cases p)
        then have "dc_Allocate mem t = (Inr (j, hdc), t')" using Pair Inr by simp
        from Allocate_binds(1,5,6) [OF ok this] show ?thesis using Pair DC_Allocate by (auto intro: exI [of _ 0])
      qed
    qed
  qed
  then show "dc_ok (dc_apply a t)" and "dc_capacity t \<le> dc_capacity (dc_apply a t)"
    and "i < dc_capacity t \<Longrightarrow> \<exists>k \<le> closes_of i [a]. dc_generation (dc_slot i (dc_apply a t)) = dc_generation (dc_slot i t) + of_nat k"
    by blast+
qed

lemma dc_run_generation:
  "dc_ok t \<Longrightarrow> i < dc_capacity t \<Longrightarrow>
   \<exists>k \<le> closes_of i ops. dc_generation (dc_slot i (fold dc_apply ops t)) = dc_generation (dc_slot i t) + of_nat k"
proof (induction ops arbitrary: t)
  case (Cons a ops)
  have i: "i < dc_capacity (dc_apply a t)" using dc_apply_step(2) [OF Cons.prems(1), of a] Cons.prems(2) by linarith
  obtain k where k: "k \<le> closes_of i [a]" "dc_generation (dc_slot i (dc_apply a t)) = dc_generation (dc_slot i t) + of_nat k"
    using dc_apply_step(3) [OF Cons.prems, of a] by blast
  obtain l where l: "l \<le> closes_of i ops" "dc_generation (dc_slot i (fold dc_apply ops (dc_apply a t))) = dc_generation (dc_slot i (dc_apply a t)) + of_nat l"
    using Cons.IH [OF dc_apply_step(1) [OF Cons.prems(1)] i] by blast
  have "k + l \<le> closes_of i (a # ops)" using k(1) l(1) by (simp add: closes_of_def split: if_splits)
  then show ?case using k(2) l(2) by (auto intro!: exI [of _ "k + l"])
qed (simp add: closes_of_def)

lemma dc_reachable_ok: "dc_reachable t \<Longrightarrow> dc_ok t"
  by (induction rule: dc_reachable.induct) (simp_all add: dc_ok_empty dc_apply_step)

lemma generation_moved: "k < 65535 \<Longrightarrow> (g :: u16) + 1 + of_nat k \<noteq> g"
proof
  assume k: "k < 65535" and "g + 1 + of_nat k = g"
  then have "(of_nat (Suc k) :: u16) = 0" by (simp add: add.assoc)
  then have "unat (of_nat (Suc k) :: u16) = 0" by simp
  with k show False by (simp add: unat_of_nat del: of_nat_Suc)
qed

lemma ucast_tag_eq: "(ucast (a :: u16) :: u32) = ucast b \<longleftrightarrow> a = b"
  by transfer (simp add: take_bit_take_bit)

lemma Resolve_generation:
  "dc_Resolve hdc t = Some i \<Longrightarrow> i = hdc_index hdc \<and> i < dc_capacity t \<and> ucast (dc_generation (dc_slot i t)) = hdc_tag hdc"
  by (auto simp: Resolve_eq split: if_splits)

text \<open>C32. A closed device context handle stays dead: it does not resolve, whatever is allocated and closed afterwards,
  as long as its slot is closed fewer than \<open>65535\<close> more times.\<close>

theorem closed_hdc_dead:
  assumes "dc_reachable t" and "dc_Close hdc t = (Success, t1)" and "closes_of (hdc_index hdc) ops < 65535"
  shows "dc_Resolve hdc (fold dc_apply ops t1) = None"
proof -
  have ok: "dc_ok t" by (rule dc_reachable_ok [OF assms(1)])
  have R: "dc_Resolve hdc t = Some (hdc_index hdc)"
    using assms(2) by (cases rule: dc_Close_cases [of hdc t]) auto
  note r = Resolve_generation [OF R]
  have t1: "dc_ok t1" "dc_capacity t1 = dc_capacity t"
      "dc_generation (dc_slot (hdc_index hdc) t1) = dc_generation (dc_slot (hdc_index hdc) t) + 1"
    using Close_frees(1) [OF ok, of hdc] Close_frees(4) [OF ok, of hdc] Close_frees(5) [OF ok, of "hdc_index hdc" hdc] assms(2) R r by auto
  obtain k where k: "k \<le> closes_of (hdc_index hdc) ops"
      "dc_generation (dc_slot (hdc_index hdc) (fold dc_apply ops t1)) = dc_generation (dc_slot (hdc_index hdc) t) + 1 + of_nat k"
    using dc_run_generation [OF t1(1), of "hdc_index hdc" ops] t1(2,3) r by auto
  then have "dc_generation (dc_slot (hdc_index hdc) (fold dc_apply ops t1)) \<noteq> dc_generation (dc_slot (hdc_index hdc) t)"
    using generation_moved [of k] assms(3) by auto
  then have "ucast (dc_generation (dc_slot (hdc_index hdc) (fold dc_apply ops t1))) \<noteq> hdc_tag hdc"
    using r ucast_tag_eq by metis
  then show ?thesis by (simp add: Resolve_eq)
qed

text \<open>A new device context is usable and private: allocation returns a handle that named nothing, resolves to a
  slot with the initial drawing state, and leaves what every other handle names unchanged; closing it makes it
  unresolvable and again leaves the others alone.\<close>

theorem device_context_lifecycle:
  assumes "dc_reachable t" and "dc_Allocate mem t = (Inr (i, hdc), t1)"
  shows "dc_look t hdc = None \<and> dc_Resolve hdc t1 = Some i \<and> dc_look t1 = (dc_look t)(hdc \<mapsto> initial_context) \<and>
    fst (dc_Close hdc t1) = Success \<and> dc_look (snd (dc_Close hdc t1)) = dc_look t"
proof -
  note a = Allocate_binds [OF dc_reachable_ok [OF assms(1)] assms(2)]
  have "fst (dc_Close hdc t1) = Success" using a(4) by (cases rule: dc_Close_cases [of hdc t1]) auto
  moreover have "dc_look (snd (dc_Close hdc t1)) k = dc_look t k" for k
    using Close_frees(2) [OF a(1), of k hdc] Close_frees(3) [OF a(1), of hdc] a(2,3) by (cases "k = hdc") auto
  ultimately show ?thesis using a by auto
qed

subsection \<open>Wrap-around\<close>

text \<open>A context is created and closed again.\<close>

definition dc_cycle :: "DeviceContextTable \<Rightarrow> DeviceContextTable" where
  "dc_cycle t = (case dc_Allocate True t of (Inr (i, hdc), t1) \<Rightarrow> snd (dc_Close hdc t1) | (Inl e, t1) \<Rightarrow> t1)"

definition dc_idle :: "u16 \<Rightarrow> DeviceContextTable" where
  "dc_idle g = \<lparr>dc_chunks = [\<lparr>dc_used = False, dc_generation = g, dc_ctx = initial_context\<rparr> # tl new_chunk],
     dc_free_indices = [0], dc_next_index = 1\<rparr>"

lemma idle_Allocate:
  "dc_Allocate True (dc_idle g) =
     (Inr (0, make_hdc g 0), (dc_idle g)\<lparr>dc_chunks := [\<lparr>dc_used = True, dc_generation = g, dc_ctx = initial_context\<rparr> # tl new_chunk], dc_free_indices := []\<rparr>)"
  by (simp add: dc_Allocate_def take_index_def dc_idle_def dc_slot_def dc_put_def)

lemma first_Allocate:
  "dc_Allocate True dc_empty =
     (Inr (0, make_hdc 1 0), (dc_idle 1)\<lparr>dc_chunks := [\<lparr>dc_used = True, dc_generation = 1, dc_ctx = initial_context\<rparr> # tl new_chunk], dc_free_indices := []\<rparr>)"
proof -
  have c: "new_chunk = \<lparr>dc_used = False, dc_generation = 1, dc_ctx = initial_context\<rparr> # replicate 63 \<lparr>dc_used = False, dc_generation = 1, dc_ctx = initial_context\<rparr>"
    unfolding new_chunk_def by (simp flip: replicate_Suc)
  show ?thesis unfolding c by (simp add: dc_Allocate_def take_index_def dc_idle_def dc_empty_def dc_slot_def dc_put_def c)
qed

lemma idle_Close:
  "dc_Close (make_hdc g 0) ((dc_idle g)\<lparr>dc_chunks := [\<lparr>dc_used = True, dc_generation = g, dc_ctx = initial_context\<rparr> # tl new_chunk], dc_free_indices := []\<rparr>) =
     (Success, dc_idle (g + 1))"
proof -
  let ?t = "(dc_idle g)\<lparr>dc_chunks := [\<lparr>dc_used = True, dc_generation = g, dc_ctx = initial_context\<rparr> # tl new_chunk], dc_free_indices := []\<rparr>"
  have i: "make_hdc g 0 AND 0xFFFF = 0" using hdc_index_make [of g 0] by (simp add: hdc_index_def word_unat_eq_iff)
  have "dc_Resolve (make_hdc g 0) ?t = Some 0" by (simp add: Resolve_eq dc_capacity_def dc_slot_def)
  then show ?thesis using i by (simp add: dc_Close_def dc_slot_def dc_put_def dc_idle_def initial_context_def)
qed

lemma cycles: "(dc_cycle ^^ Suc n) dc_empty = dc_idle (2 + of_nat n)"
proof (induction n)
  case 0
  show ?case by (simp add: dc_cycle_def first_Allocate idle_Close)
next
  case (Suc n)
  have "(dc_cycle ^^ Suc (Suc n)) dc_empty = dc_cycle (dc_idle (2 + of_nat n))" using Suc by simp
  also have "\<dots> = dc_idle (2 + of_nat n + 1)" by (simp add: dc_cycle_def idle_Allocate idle_Close)
  finally show ?case by (simp add: add.commute add.left_commute)
qed

text \<open>The generation of a slot wraps after \<open>65535\<close> uses, so the table then hands out \<open>INVALID_HDC\<close>, the value
  reserved for failure, as the handle of a slot in use; and one use later the handle of the very first
  context resolves again.\<close>

theorem dc_generation_wraps:
  "fst (dc_Allocate True ((dc_cycle ^^ 65535) dc_empty)) = Inr (0, INVALID_HDC) \<and>
   fst (dc_Allocate True dc_empty) = Inr (0, make_hdc 1 0) \<and>
   dc_Resolve (make_hdc 1 0) (snd (dc_Allocate True ((dc_cycle ^^ 65536) dc_empty))) = Some 0"
proof -
  have wrap: "(65536 :: u16) = 0" and wrap1: "(65537 :: u16) = 1" by (simp_all only: word_unat_eq_iff) simp_all
  have a: "(dc_cycle ^^ 65535) dc_empty = dc_idle 0" using cycles [of 65534] wrap by simp
  have b: "(dc_cycle ^^ 65536) dc_empty = dc_idle 1" using cycles [of 65535] wrap1 by simp
  have "make_hdc 0 0 = INVALID_HDC" by (simp add: make_hdc_def)
  then show ?thesis unfolding a b idle_Allocate first_Allocate by (simp add: Resolve_eq dc_capacity_def dc_slot_def)
qed

subsection \<open>A process that draws\<close>

definition dc_demo :: DeviceContextTable where
  "dc_demo = snd (dc_Allocate True (snd (dc_Allocate True dc_empty)))"

lemma dc_demo_reachable: "dc_reachable dc_demo"
  using dc_next [OF dc_next [OF dc_init, of "DC_Allocate True"], of "DC_Allocate True"] by (simp add: dc_demo_def)

theorem closed_hdc_dead_witness:
  "fst (dc_Close 0x10001 dc_demo) = Success \<and>
   dc_Resolve 0x10001 (fold dc_apply [DC_Allocate True, DC_Close 0x20001] (snd (dc_Close 0x10001 dc_demo))) = None"
proof
  show c: "fst (dc_Close 0x10001 dc_demo) = Success" by code_simp
  have "dc_Close 0x10001 dc_demo = (Success, snd (dc_Close 0x10001 dc_demo))" using c by (cases "dc_Close 0x10001 dc_demo") simp
  moreover have "closes_of (hdc_index 0x10001) [DC_Allocate True, DC_Close 0x20001] < 65535" by (simp add: closes_of_def)
  ultimately show "dc_Resolve 0x10001 (fold dc_apply [DC_Allocate True, DC_Close 0x20001] (snd (dc_Close 0x10001 dc_demo))) = None"
    by (rule closed_hdc_dead [OF dc_demo_reachable])
qed

theorem device_context_lifecycle_witness:
  "dc_Resolve 0x10002 (snd (dc_Allocate True dc_demo)) = Some 2 \<and>
   dc_look (snd (dc_Close 0x10002 (snd (dc_Allocate True dc_demo)))) = dc_look dc_demo"
proof -
  have "fst (dc_Allocate True dc_demo) = Inr (2, 0x10002)" by code_simp
  then have "dc_Allocate True dc_demo = (Inr (2, 0x10002), snd (dc_Allocate True dc_demo))" by (cases "dc_Allocate True dc_demo") simp
  from device_context_lifecycle [OF dc_demo_reachable this] show ?thesis by simp
qed

end
