(* ===== verification/Font_Resource.thy ===== *)
theory Font_Resource
  imports Prelude "HOL-Library.Monad_Syntax"
begin

text \<open>
  Normalized font resources, \<open>ABI/src/font_resource.cpp\<close> with the header \<open>undos/font/resource.hpp\<close>, and the lookup of a
  glyph in a validated resource, \<open>Face::glyphFor\<close> of \<open>gfx/font/face.cpp\<close>. The bytes come from a user process, so every
  read is explicit: \<open>read_u32\<close> returns \<open>None\<close> outside the bytes it is given, and \<open>None\<close> as the result of an operation is
  an out-of-bounds access. A view of a section is the list of its bytes, so a read through it is also confined to that
  section. Loop counters are numbers, the offsets computed from values of the file keep their 32 bits.
\<close>

subsection \<open>The wire format\<close>

abbreviation (input) Magic :: u32 where "Magic \<equiv> 0x31544655"
abbreviation (input) HeaderSize :: nat where "HeaderSize \<equiv> 64"
abbreviation (input) DirectoryEntrySize :: nat where "DirectoryEntrySize \<equiv> 12"
abbreviation (input) SectionCount :: nat where "SectionCount \<equiv> 10"
abbreviation (input) PayloadStart :: nat where "PayloadStart \<equiv> 184"
abbreviation (input) MaxResourceBytes :: nat where "MaxResourceBytes \<equiv> 8388608"
abbreviation (input) MaxGlyphs :: u32 where "MaxGlyphs \<equiv> 4096"
abbreviation (input) MaxProgramBytes :: nat where "MaxProgramBytes \<equiv> 65536"
abbreviation (input) MaxPointsPerGlyph :: u32 where "MaxPointsPerGlyph \<equiv> 16384"
abbreviation (input) MaxContoursPerGlyph :: u32 where "MaxContoursPerGlyph \<equiv> 2048"
abbreviation (input) MaxComponentsPerGlyph :: u32 where "MaxComponentsPerGlyph \<equiv> 64"
abbreviation (input) MaxComponentDepth :: nat where "MaxComponentDepth \<equiv> 32"
abbreviation (input) MaxGraphWork :: u32 where "MaxGraphWork \<equiv> 1048576"
abbreviation (input) GlyphSize :: nat where "GlyphSize \<equiv> 60"
abbreviation (input) PointSize :: nat where "PointSize \<equiv> 12"
abbreviation (input) ComponentSize :: nat where "ComponentSize \<equiv> 32"
abbreviation (input) CmapSize :: nat where "CmapSize \<equiv> 12"
abbreviation (input) LimitsSize :: nat where "LimitsSize \<equiv> 52"

datatype font_error =
    FE_None | FE_InvalidSize | FE_InvalidHeader | FE_UnsupportedVersion | FE_InvalidDirectory
  | FE_InvalidMetrics | FE_InvalidGlyph | FE_InvalidPoint | FE_InvalidContour | FE_InvalidComponent
  | FE_InvalidCmap | FE_InvalidProgram | FE_InvalidLimits | FE_ResourceLimit

definition read_u8 :: "u8 list \<Rightarrow> nat \<Rightarrow> u8 option" where
  "read_u8 bs p = (if p < length bs then Some (bs ! p) else None)"

definition read_u32 :: "u8 list \<Rightarrow> nat \<Rightarrow> u32 option" where
  "read_u32 bs p =
     (if p + 4 \<le> length bs
      then Some (ucast (bs ! p) OR push_bit 8 (ucast (bs ! (p + 1))) OR push_bit 16 (ucast (bs ! (p + 2))) OR push_bit 24 (ucast (bs ! (p + 3))))
      else None)"

text \<open>\<open>read_i32\<close> of a value that has been read.\<close>

definition i32_of :: "u32 \<Rightarrow> int" where
  "i32_of value = (if value \<le> 0x7FFFFFFF then uint value else - 1 - uint (0xFFFFFFFF - value))"

definition aligned :: "u32 \<Rightarrow> u32" where
  "aligned value = (value + 3) AND NOT 3"

definition coordinate :: "int \<Rightarrow> bool" where
  "coordinate value \<longleftrightarrow> - 32768 \<le> value \<and> value \<le> 32767"

definition range_ok :: "u32 \<Rightarrow> u32 \<Rightarrow> nat \<Rightarrow> bool" where
  "range_ok first count available \<longleftrightarrow> unat first \<le> available \<and> unat count \<le> available - unat first"

text \<open>\<open>ResourceView::section\<close>; \<open>index\<close> is the section number less one.\<close>

definition section_view :: "u8 list \<Rightarrow> nat \<Rightarrow> u8 list option" where
  "section_view bs index =
     (if bs = [] \<or> index \<ge> SectionCount \<or> length bs < PayloadStart then Some []
      else do {
        offset \<leftarrow> read_u32 bs (HeaderSize + index * DirectoryEntrySize + 4);
        size \<leftarrow> read_u32 bs (HeaderSize + index * DirectoryEntrySize + 8);
        if unat offset > length bs \<or> unat size > length bs - unat offset then Some []
        else Some (take (unat size) (drop (unat offset) bs)) })"

subsection \<open>Header and directory\<close>

fun zero_words :: "u8 list \<Rightarrow> nat list \<Rightarrow> bool option" where
  "zero_words bs [] = Some True"
| "zero_words bs (p # ps) = do { v \<leftarrow> read_u32 bs p; if v \<noteq> 0 then Some False else zero_words bs ps }"

fun zero_bytes :: "u8 list \<Rightarrow> nat list \<Rightarrow> bool option" where
  "zero_bytes bs [] = Some True"
| "zero_bytes bs (p # ps) = do { v \<leftarrow> read_u8 bs p; if v \<noteq> 0 then Some False else zero_bytes bs ps }"

definition check_header :: "u8 list \<Rightarrow> font_error option" where
  "check_header bs =
     (if bs = [] \<or> length bs < PayloadStart \<or> length bs > MaxResourceBytes then Some FE_InvalidSize
      else do {
        magic \<leftarrow> read_u32 bs 0; hsize \<leftarrow> read_u32 bs 8; total \<leftarrow> read_u32 bs 12; count \<leftarrow> read_u32 bs 16;
        if magic \<noteq> Magic \<or> hsize \<noteq> of_nat HeaderSize \<or> unat total \<noteq> length bs \<or> count \<noteq> of_nat SectionCount then Some FE_InvalidHeader
        else do {
          version \<leftarrow> read_u32 bs 4;
          if version \<noteq> 1 then Some FE_UnsupportedVersion
          else do {
            glyphCount \<leftarrow> read_u32 bs 20; em \<leftarrow> read_u32 bs 24;
            if glyphCount = 0 \<or> glyphCount > MaxGlyphs then Some FE_ResourceLimit
            else do {
              ascent \<leftarrow> read_u32 bs 28; descent \<leftarrow> read_u32 bs 32; gap \<leftarrow> read_u32 bs 36;
              weight \<leftarrow> read_u32 bs 40; style \<leftarrow> read_u32 bs 44;
              if em < 16 \<or> em > 16384 \<or> \<not> coordinate (i32_of ascent) \<or> \<not> coordinate (i32_of descent) \<or> \<not> coordinate (i32_of gap) \<or>
                 weight < 1 \<or> weight > 1000 \<or> style AND NOT 3 \<noteq> 0 then Some FE_InvalidMetrics
              else do {
                zero \<leftarrow> zero_words bs [48, 52, 56, 60];
                if \<not> zero then Some FE_InvalidHeader else Some FE_None }}}}})"

text \<open>The loop over the directory entries: \<open>i\<close> is the entry, \<open>strides\<close> those of it and the following ones, \<open>next\<close> the offset
  at which its section has to start. The result is the end of the last section.\<close>

fun directory_loop :: "u8 list \<Rightarrow> nat list \<Rightarrow> nat \<Rightarrow> u32 \<Rightarrow> (font_error + u32) option" where
  "directory_loop bs [] i next = Some (Inr next)"
| "directory_loop bs (stride # strides) i next = do {
     number \<leftarrow> read_u32 bs (HeaderSize + i * DirectoryEntrySize);
     offset \<leftarrow> read_u32 bs (HeaderSize + i * DirectoryEntrySize + 4);
     size \<leftarrow> read_u32 bs (HeaderSize + i * DirectoryEntrySize + 8);
     if number \<noteq> of_nat (i + 1) \<or> offset \<noteq> next \<or> unat offset > length bs \<or> unat size > length bs - unat offset \<or> unat size mod stride \<noteq> 0
     then Some (Inl FE_InvalidDirectory)
     else (let finish = offset + size; next1 = aligned finish in
       if unat next1 > length bs then Some (Inl FE_InvalidDirectory)
       else do {
         zero \<leftarrow> zero_bytes bs [unat finish ..< unat next1];
         if \<not> zero then Some (Inl FE_InvalidDirectory) else directory_loop bs strides (i + 1) next1 }) }"

definition section_strides :: "nat list" where
  "section_strides = [GlyphSize, PointSize, 4, ComponentSize, CmapSize, 4, 1, 1, 1, LimitsSize]"

definition check_directory :: "u8 list \<Rightarrow> font_error option" where
  "check_directory bs = do {
     r \<leftarrow> directory_loop bs section_strides 0 (of_nat PayloadStart);
     case r of Inl e \<Rightarrow> Some e | Inr next \<Rightarrow> if unat next \<noteq> length bs then Some FE_InvalidDirectory else Some FE_None }"

subsection \<open>Sections of a resource\<close>

record font_sections =
  fs_glyphs :: "u8 list"
  fs_points :: "u8 list"
  fs_contours :: "u8 list"
  fs_components :: "u8 list"
  fs_cmap :: "u8 list"
  fs_cvt :: "u8 list"
  fs_programs :: "u8 list"
  fs_fontProgram :: "u8 list"
  fs_prepProgram :: "u8 list"
  fs_limits :: "u8 list"

definition font_views :: "u8 list \<Rightarrow> font_sections option" where
  "font_views bs = do {
     glyphs \<leftarrow> section_view bs 0; points \<leftarrow> section_view bs 1; contours \<leftarrow> section_view bs 2;
     components \<leftarrow> section_view bs 3; cmap \<leftarrow> section_view bs 4; cvt \<leftarrow> section_view bs 5;
     programs \<leftarrow> section_view bs 6; fontProgram \<leftarrow> section_view bs 7; prepProgram \<leftarrow> section_view bs 8;
     limits \<leftarrow> section_view bs 9;
     Some \<lparr>fs_glyphs = glyphs, fs_points = points, fs_contours = contours, fs_components = components, fs_cmap = cmap,
       fs_cvt = cvt, fs_programs = programs, fs_fontProgram = fontProgram, fs_prepProgram = prepProgram, fs_limits = limits\<rparr> }"

fun coordinates :: "u8 list \<Rightarrow> nat list \<Rightarrow> bool option" where
  "coordinates bs [] = Some True"
| "coordinates bs (p # ps) = do { v \<leftarrow> read_u32 bs p; if \<not> coordinate (i32_of v) then Some False else coordinates bs ps }"

fun words_at_most :: "u8 list \<Rightarrow> u32 \<Rightarrow> nat list \<Rightarrow> bool option" where
  "words_at_most bs m [] = Some True"
| "words_at_most bs m (p # ps) = do { v \<leftarrow> read_u32 bs p; if v > m then Some False else words_at_most bs m ps }"

definition check_tables :: "u32 \<Rightarrow> font_sections \<Rightarrow> font_error option" where
  "check_tables glyphCount v =
     (if length (fs_glyphs v) div GlyphSize \<noteq> unat glyphCount \<or> length (fs_limits v) \<noteq> LimitsSize then Some FE_InvalidDirectory
      else if length (fs_fontProgram v) > MaxProgramBytes \<or> length (fs_prepProgram v) > MaxProgramBytes then Some FE_InvalidProgram
      else if length (fs_cvt v) div 4 > 65536 then Some FE_ResourceLimit
      else do {
        cvt \<leftarrow> coordinates (fs_cvt v) (map (\<lambda>i. 4 * i) [0..<(length (fs_cvt v) + 3) div 4]);
        if \<not> cvt then Some FE_InvalidMetrics
        else do {
          zones \<leftarrow> read_u32 (fs_limits v) 16;
          if zones < 1 \<or> zones > 2 then Some FE_InvalidLimits
          else do {
            small \<leftarrow> words_at_most (fs_limits v) 65535 (map (\<lambda>i. 4 * i) [0..<13]);
            if \<not> small then Some FE_InvalidLimits
            else do {
              maxPoints \<leftarrow> read_u32 (fs_limits v) 0; maxContours \<leftarrow> read_u32 (fs_limits v) 4;
              maxCompositePoints \<leftarrow> read_u32 (fs_limits v) 8; maxCompositeContours \<leftarrow> read_u32 (fs_limits v) 12;
              maxComponentElements \<leftarrow> read_u32 (fs_limits v) 44; maxComponentDepth \<leftarrow> read_u32 (fs_limits v) 48;
              if maxPoints > MaxPointsPerGlyph \<or> maxContours > MaxContoursPerGlyph \<or> maxCompositePoints > MaxPointsPerGlyph \<or>
                 maxCompositeContours > MaxContoursPerGlyph \<or> maxComponentElements > MaxComponentsPerGlyph \<or>
                 maxComponentDepth > of_nat MaxComponentDepth then Some FE_ResourceLimit
              else Some FE_None }}}})"

subsection \<open>Glyphs\<close>

text \<open>The fields of a glyph record that the validator reads, and the running totals of its loop.\<close>

record glyph_record =
  gl_kind :: u32
  gl_advance :: u32
  gl_firstPoint :: u32
  gl_pointCount :: u32
  gl_firstContour :: u32
  gl_contourCount :: u32
  gl_firstComponent :: u32
  gl_componentCount :: u32
  gl_program :: u32
  gl_programSize :: u32

record glyph_totals =
  usedPoints :: u32
  usedContours :: u32
  usedComponents :: u32
  usedPrograms :: u32

definition read_glyph :: "u8 list \<Rightarrow> nat \<Rightarrow> glyph_record option" where
  "read_glyph glyphs g = do {
     kind \<leftarrow> read_u32 glyphs g; advance \<leftarrow> read_u32 glyphs (g + 4);
     firstPoint \<leftarrow> read_u32 glyphs (g + 28); pointCount \<leftarrow> read_u32 glyphs (g + 32);
     firstContour \<leftarrow> read_u32 glyphs (g + 36); contourCount \<leftarrow> read_u32 glyphs (g + 40);
     firstComponent \<leftarrow> read_u32 glyphs (g + 44); componentCount \<leftarrow> read_u32 glyphs (g + 48);
     program \<leftarrow> read_u32 glyphs (g + 52); programSize \<leftarrow> read_u32 glyphs (g + 56);
     Some \<lparr>gl_kind = kind, gl_advance = advance, gl_firstPoint = firstPoint, gl_pointCount = pointCount,
       gl_firstContour = firstContour, gl_contourCount = contourCount, gl_firstComponent = firstComponent,
       gl_componentCount = componentCount, gl_program = program, gl_programSize = programSize\<rparr> }"

definition check_extents :: "u8 list \<Rightarrow> nat \<Rightarrow> glyph_record \<Rightarrow> font_error option" where
  "check_extents glyphs g r = do {
     lsb \<leftarrow> read_u32 glyphs (g + 8);
     if gl_kind r > 2 \<or> gl_advance r > 65535 \<or> \<not> coordinate (i32_of lsb) then Some FE_InvalidGlyph
     else do {
       box \<leftarrow> coordinates glyphs [g + 12, g + 16, g + 20, g + 24];
       if \<not> box then Some FE_InvalidGlyph
       else do {
         xmin \<leftarrow> read_u32 glyphs (g + 12); ymin \<leftarrow> read_u32 glyphs (g + 16); xmax \<leftarrow> read_u32 glyphs (g + 20); ymax \<leftarrow> read_u32 glyphs (g + 24);
         if i32_of xmin > i32_of xmax \<or> i32_of ymin > i32_of ymax then Some FE_InvalidGlyph else Some FE_None }}}"

definition check_counts :: "font_sections \<Rightarrow> glyph_totals \<Rightarrow> glyph_record \<Rightarrow> font_error option" where
  "check_counts v used r =
     (if gl_firstPoint r \<noteq> usedPoints used \<or> gl_firstContour r \<noteq> usedContours used \<or> gl_firstComponent r \<noteq> usedComponents used \<or>
         gl_program r \<noteq> usedPrograms used \<or>
         \<not> range_ok (gl_firstPoint r) (gl_pointCount r) (length (fs_points v) div PointSize) \<or>
         \<not> range_ok (gl_firstContour r) (gl_contourCount r) (length (fs_contours v) div 4) \<or>
         \<not> range_ok (gl_firstComponent r) (gl_componentCount r) (length (fs_components v) div ComponentSize) \<or>
         \<not> range_ok (gl_program r) (gl_programSize r) (length (fs_programs v)) then Some FE_InvalidGlyph
      else if gl_pointCount r > MaxPointsPerGlyph \<or> gl_contourCount r > MaxContoursPerGlyph \<or>
         gl_componentCount r > MaxComponentsPerGlyph \<or> unat (gl_programSize r) > MaxProgramBytes then Some FE_ResourceLimit
      else if gl_kind r = 0 \<and> (gl_pointCount r \<noteq> 0 \<or> gl_contourCount r \<noteq> 0 \<or> gl_componentCount r \<noteq> 0 \<or> gl_programSize r \<noteq> 0) \<or>
         gl_kind r = 1 \<and> gl_componentCount r \<noteq> 0 \<or>
         gl_kind r = 2 \<and> (gl_pointCount r \<noteq> 0 \<or> gl_contourCount r \<noteq> 0 \<or> gl_componentCount r = 0) then Some FE_InvalidGlyph
      else do {
        maxPoints \<leftarrow> read_u32 (fs_limits v) 0; maxContours \<leftarrow> read_u32 (fs_limits v) 4;
        maxInstructions \<leftarrow> read_u32 (fs_limits v) 40; maxElements \<leftarrow> read_u32 (fs_limits v) 44;
        if gl_kind r = 1 \<and> (gl_pointCount r > maxPoints \<or> gl_contourCount r > maxContours) then Some FE_InvalidLimits
        else if gl_programSize r > maxInstructions \<or> gl_componentCount r > maxElements then Some FE_InvalidLimits
        else Some FE_None })"

text \<open>The loops over the points, contours and components of a glyph: \<open>n\<close> iterations are left, \<open>i\<close> is the counter.\<close>

fun check_points :: "u8 list \<Rightarrow> u32 \<Rightarrow> nat \<Rightarrow> u32 \<Rightarrow> font_error option" where
  "check_points points first 0 i = Some FE_None"
| "check_points points first (Suc n) i = do {
     let p = unat ((first + i) * 12);
     x \<leftarrow> read_u32 points p; y \<leftarrow> read_u32 points (p + 4); onCurve \<leftarrow> read_u32 points (p + 8);
     if \<not> coordinate (i32_of x) \<or> \<not> coordinate (i32_of y) \<or> onCurve > 1 then Some FE_InvalidPoint
     else check_points points first n (i + 1) }"

fun check_contours :: "u8 list \<Rightarrow> u32 \<Rightarrow> u32 \<Rightarrow> nat \<Rightarrow> u32 \<Rightarrow> u32 \<Rightarrow> (font_error + u32) option" where
  "check_contours contours first pointCount 0 i finish = Some (Inr finish)"
| "check_contours contours first pointCount (Suc n) i finish = do {
     cur \<leftarrow> read_u32 contours (unat ((first + i) * 4));
     if cur \<ge> pointCount \<or> i \<noteq> 0 \<and> cur \<le> finish then Some (Inl FE_InvalidContour)
     else check_contours contours first pointCount n (i + 1) cur }"

definition component_flags_ok :: "u32 \<Rightarrow> u32 \<Rightarrow> u32 \<Rightarrow> bool" where
  "component_flags_ok flags i count \<longleftrightarrow>
     flags AND NOT 0x1fef = 0 \<and> flags AND 0x1800 \<noteq> 0x1800 \<and>
     (flags AND 0x20 \<noteq> 0 \<longleftrightarrow> i + 1 < count) \<and> \<not> (flags AND 0x100 \<noteq> 0 \<and> i + 1 \<noteq> count)"

definition transforms :: "u32 \<Rightarrow> nat" where
  "transforms flags =
     (if flags AND 8 \<noteq> 0 then 1 else 0) + (if flags AND 0x40 \<noteq> 0 then 1 else 0) + (if flags AND 0x80 \<noteq> 0 then 1 else 0)"

definition component_args_ok :: "u32 \<Rightarrow> u32 \<Rightarrow> u32 \<Rightarrow> bool" where
  "component_args_ok flags arg1 arg2 \<longleftrightarrow>
     (if flags AND 2 = 0 then arg1 \<le> 65535 \<and> arg2 \<le> 65535 else coordinate (i32_of arg1) \<and> coordinate (i32_of arg2)) \<and>
     (flags AND 1 = 0 \<longrightarrow>
       (let lo = (if flags AND 2 \<noteq> 0 then - 128 else 0); hi = (if flags AND 2 \<noteq> 0 then 127 else 255) in
        lo \<le> i32_of arg1 \<and> i32_of arg1 \<le> hi \<and> lo \<le> i32_of arg2 \<and> i32_of arg2 \<le> hi))"

definition component_scale_ok :: "u32 \<Rightarrow> int \<Rightarrow> int \<Rightarrow> int \<Rightarrow> int \<Rightarrow> bool" where
  "component_scale_ok flags xx xy yx yy \<longleftrightarrow>
     \<not> (flags AND 0xc8 = 0 \<and> (xx \<noteq> 16384 \<or> yy \<noteq> 16384 \<or> xy \<noteq> 0 \<or> yx \<noteq> 0)) \<and>
     \<not> (flags AND 0x48 \<noteq> 0 \<and> (xy \<noteq> 0 \<or> yx \<noteq> 0)) \<and> \<not> (flags AND 8 \<noteq> 0 \<and> xx \<noteq> yy)"

fun check_components :: "u8 list \<Rightarrow> u32 \<Rightarrow> glyph_record \<Rightarrow> nat \<Rightarrow> u32 \<Rightarrow> font_error option" where
  "check_components components glyphCount r 0 i = Some FE_None"
| "check_components components glyphCount r (Suc n) i = do {
     let c = unat ((gl_firstComponent r + i) * 32);
     glyph \<leftarrow> read_u32 components c; flags \<leftarrow> read_u32 components (c + 4);
     if glyph \<ge> glyphCount \<or> \<not> component_flags_ok flags i (gl_componentCount r) \<or> transforms flags > 1 then Some FE_InvalidComponent
     else do {
       arg1 \<leftarrow> read_u32 components (c + 8); arg2 \<leftarrow> read_u32 components (c + 12);
       scale \<leftarrow> coordinates components [c + 16, c + 20, c + 24, c + 28];
       xx \<leftarrow> read_u32 components (c + 16); xy \<leftarrow> read_u32 components (c + 20);
       yx \<leftarrow> read_u32 components (c + 24); yy \<leftarrow> read_u32 components (c + 28);
       if \<not> component_args_ok flags arg1 arg2 \<or> \<not> scale \<or>
          \<not> component_scale_ok flags (i32_of xx) (i32_of xy) (i32_of yx) (i32_of yy) \<or>
          i + 1 = gl_componentCount r \<and> gl_programSize r \<noteq> 0 \<and> flags AND 0x100 = 0 then Some FE_InvalidComponent
       else check_components components glyphCount r n (i + 1) }}"

definition check_glyph :: "font_sections \<Rightarrow> u32 \<Rightarrow> nat \<Rightarrow> glyph_totals \<Rightarrow> (font_error + glyph_totals) option" where
  "check_glyph v glyphCount gid used = do {
     let g = gid * GlyphSize;
     r \<leftarrow> read_glyph (fs_glyphs v) g;
     e1 \<leftarrow> check_extents (fs_glyphs v) g r;
     if e1 \<noteq> FE_None then Some (Inl e1)
     else do {
       e2 \<leftarrow> check_counts v used r;
       if e2 \<noteq> FE_None then Some (Inl e2)
       else do {
         e3 \<leftarrow> check_points (fs_points v) (gl_firstPoint r) (unat (gl_pointCount r)) 0;
         if e3 \<noteq> FE_None then Some (Inl e3)
         else do {
           c \<leftarrow> check_contours (fs_contours v) (gl_firstContour r) (gl_pointCount r) (unat (gl_contourCount r)) 0 0;
           case c of
             Inl e \<Rightarrow> Some (Inl e)
           | Inr finish \<Rightarrow>
               if (gl_pointCount r \<noteq> 0) \<noteq> (gl_contourCount r \<noteq> 0) \<or> gl_pointCount r \<noteq> 0 \<and> finish \<noteq> gl_pointCount r - 1
               then Some (Inl FE_InvalidContour)
               else do {
                 e4 \<leftarrow> check_components (fs_components v) glyphCount r (unat (gl_componentCount r)) 0;
                 if e4 \<noteq> FE_None then Some (Inl e4)
                 else Some (Inr \<lparr>usedPoints = usedPoints used + gl_pointCount r, usedContours = usedContours used + gl_contourCount r,
                   usedComponents = usedComponents used + gl_componentCount r, usedPrograms = usedPrograms used + gl_programSize r\<rparr>) }}}}}"

fun check_glyphs :: "font_sections \<Rightarrow> u32 \<Rightarrow> nat list \<Rightarrow> glyph_totals \<Rightarrow> (font_error + glyph_totals) option" where
  "check_glyphs v glyphCount [] used = Some (Inr used)"
| "check_glyphs v glyphCount (gid # ids) used = do {
     r \<leftarrow> check_glyph v glyphCount gid used;
     case r of Inl e \<Rightarrow> Some (Inl e) | Inr used1 \<Rightarrow> check_glyphs v glyphCount ids used1 }"

subsection \<open>Character map and component graph\<close>

text \<open>\<open>offsets\<close> are the offsets of the mappings that are left; \<open>prev\<close> is the end of the previous one.\<close>

fun check_cmap :: "u8 list \<Rightarrow> u32 \<Rightarrow> nat list \<Rightarrow> u32 \<Rightarrow> font_error option" where
  "check_cmap cmap glyphCount [] prev = Some FE_None"
| "check_cmap cmap glyphCount (offset # offsets) prev = do {
     first \<leftarrow> read_u32 cmap offset; finish \<leftarrow> read_u32 cmap (offset + 4); glyph \<leftarrow> read_u32 cmap (offset + 8);
     if first > finish \<or> finish > 0x10ffff \<or> first \<le> 0xdfff \<and> finish \<ge> 0xd800 \<or> offset \<noteq> 0 \<and> first \<le> prev \<or>
        glyph \<ge> glyphCount \<or> finish - first \<ge> glyphCount - glyph then Some FE_InvalidCmap
     else check_cmap cmap glyphCount offsets finish }"

record glyph_counts =
  gc_points :: u32
  gc_contours :: u32
  gc_levels :: u32

text \<open>The loop of \<open>Graph::visit\<close> over the components of a glyph, \<open>v\<close> being the visit of a child: \<open>n\<close> iterations are left. The
  counter \<open>work\<close> of the graph is threaded through.\<close>

fun visit_components ::
  "(u32 \<Rightarrow> u32 \<Rightarrow> ((font_error + glyph_counts) \<times> u32) option) \<Rightarrow> u8 list \<Rightarrow> u32 \<Rightarrow> nat \<Rightarrow> u32 \<Rightarrow> glyph_counts \<Rightarrow> u32 \<Rightarrow>
   ((font_error + glyph_counts) \<times> u32) option" where
  "visit_components v components first 0 i cs work = Some (Inr cs, work)"
| "visit_components v components first (Suc n) i cs work = do {
     let c = unat ((first + i) * 32);
     child \<leftarrow> read_u32 components c;
     (r, work1) \<leftarrow> v child work;
     case r of
       Inl e \<Rightarrow> Some (Inl e, work1)
     | Inr cc \<Rightarrow> do {
         flags \<leftarrow> read_u32 components (c + 4); arg1 \<leftarrow> read_u32 components (c + 8); arg2 \<leftarrow> read_u32 components (c + 12);
         if flags AND 2 = 0 \<and> (arg1 \<ge> gc_points cs \<or> arg2 \<ge> gc_points cc) then Some (Inl FE_InvalidComponent, work1)
         else if gc_points cc > MaxPointsPerGlyph - gc_points cs \<or> gc_contours cc > MaxContoursPerGlyph - gc_contours cs
         then Some (Inl FE_ResourceLimit, work1)
         else visit_components v components first n (i + 1)
           \<lparr>gc_points = gc_points cs + gc_points cc, gc_contours = gc_contours cs + gc_contours cc,
            gc_levels = (if gc_levels cc + 1 > gc_levels cs then gc_levels cc + 1 else gc_levels cs)\<rparr> work1 }}"

text \<open>\<open>Graph::visit\<close> at depth \<open>MaxComponentDepth + 1 - n\<close>; \<open>path\<close> holds the entries of the array below that depth.\<close>

fun visit :: "nat \<Rightarrow> u8 list \<Rightarrow> u8 list \<Rightarrow> u32 list \<Rightarrow> u32 \<Rightarrow> u32 \<Rightarrow> ((font_error + glyph_counts) \<times> u32) option" where
  "visit 0 glyphs components path gid work = Some (Inl FE_ResourceLimit, work + 1)"
| "visit (Suc n) glyphs components path gid work =
     (if work + 1 > MaxGraphWork then Some (Inl FE_ResourceLimit, work + 1)
      else if gid \<in> set path then Some (Inl FE_InvalidComponent, work + 1)
      else do {
        let g = unat (gid * 60);
        points \<leftarrow> read_u32 glyphs (g + 32); contours \<leftarrow> read_u32 glyphs (g + 40);
        first \<leftarrow> read_u32 glyphs (g + 44); count \<leftarrow> read_u32 glyphs (g + 48);
        visit_components (\<lambda>child w. visit n glyphs components (path @ [gid]) child w) components first (unat count) 0
          \<lparr>gc_points = points, gc_contours = contours, gc_levels = 0\<rparr> (work + 1) })"

fun check_graph :: "font_sections \<Rightarrow> nat list \<Rightarrow> u32 \<Rightarrow> font_error option" where
  "check_graph v [] work = Some FE_None"
| "check_graph v (gid # ids) work = do {
     (r, work1) \<leftarrow> visit (MaxComponentDepth + 1) (fs_glyphs v) (fs_components v) [] (of_nat gid) work;
     case r of
       Inl e \<Rightarrow> Some e
     | Inr cs \<Rightarrow> do {
         kind \<leftarrow> read_u32 (fs_glyphs v) (gid * GlyphSize);
         maxPoints \<leftarrow> read_u32 (fs_limits v) 8; maxContours \<leftarrow> read_u32 (fs_limits v) 12; maxDepth \<leftarrow> read_u32 (fs_limits v) 48;
         if kind = 2 \<and> (gc_points cs > maxPoints \<or> gc_contours cs > maxContours \<or> gc_levels cs > maxDepth) then Some FE_InvalidLimits
         else check_graph v ids work1 }}"

subsection \<open>Validation\<close>

definition check_contents :: "u32 \<Rightarrow> font_sections \<Rightarrow> font_error option" where
  "check_contents glyphCount v = do {
     r \<leftarrow> check_glyphs v glyphCount [0..<unat glyphCount] \<lparr>usedPoints = 0, usedContours = 0, usedComponents = 0, usedPrograms = 0\<rparr>;
     case r of
       Inl e \<Rightarrow> Some e
     | Inr used \<Rightarrow>
         if unat (usedPoints used) \<noteq> length (fs_points v) div PointSize \<or> unat (usedContours used) \<noteq> length (fs_contours v) div 4 \<or>
            unat (usedComponents used) \<noteq> length (fs_components v) div ComponentSize \<or> unat (usedPrograms used) \<noteq> length (fs_programs v)
         then Some FE_InvalidDirectory
         else if fs_cmap v = [] then Some FE_InvalidCmap
         else do {
           e \<leftarrow> check_cmap (fs_cmap v) glyphCount (map (\<lambda>i. 12 * i) [0..<(length (fs_cmap v) + 11) div 12]) 0;
           if e \<noteq> FE_None then Some e else check_graph v [0..<unat glyphCount] 0 }}"

definition validate :: "u8 list \<Rightarrow> font_error option" where
  "validate bs = do {
     e1 \<leftarrow> check_header bs;
     if e1 \<noteq> FE_None then Some e1
     else do {
       glyphCount \<leftarrow> read_u32 bs 20;
       e2 \<leftarrow> check_directory bs;
       if e2 \<noteq> FE_None then Some e2
       else do {
         v \<leftarrow> font_views bs;
         e3 \<leftarrow> check_tables glyphCount v;
         if e3 \<noteq> FE_None then Some e3 else check_contents glyphCount v }}}"

subsection \<open>Glyph lookup\<close>

function glyph_search :: "u8 list \<Rightarrow> u32 \<Rightarrow> nat \<Rightarrow> nat \<Rightarrow> u32 option" where
  "glyph_search cmap codepoint low high =
     (if low < high then
        (let middle = low + (high - low) div 2 in do {
          first \<leftarrow> read_u32 cmap (middle * CmapSize); final \<leftarrow> read_u32 cmap (middle * CmapSize + 4);
          if codepoint < first then glyph_search cmap codepoint low middle
          else if codepoint > final then glyph_search cmap codepoint (middle + 1) high
          else do { glyph \<leftarrow> read_u32 cmap (middle * CmapSize + 8); Some (glyph + (codepoint - first)) }})
      else Some 0)"
  by pat_completeness auto
termination
  by (relation "measure (\<lambda>(cmap, codepoint, low, high). high - low)") auto

declare glyph_search.simps [simp del]

definition glyphFor :: "u8 list \<Rightarrow> u32 \<Rightarrow> u32 option" where
  "glyphFor bs codepoint = do {
     cmap \<leftarrow> section_view bs 4;
     glyph_search cmap codepoint 0 (length cmap div CmapSize) }"

end
