(* ===== verification/Font_Correct.thy ===== *)
theory Font_Correct
  imports Font_Resource
begin

text \<open>
  What validation of a font resource guarantees: no byte string makes the validator read outside the resource or outside
  the section it looks at; a resource it accepts has sections that tile the file, glyph records whose ranges
  lie in their sections, a component graph without cycles and of bounded depth, and a sorted character map, on which the
  binary search of \<open>glyphFor\<close> computes the mapping of the file and stays below the number of glyphs.
\<close>

subsection \<open>Reads in range\<close>

definition word_at :: "u8 list \<Rightarrow> nat \<Rightarrow> u32" where
  "word_at bs p = ucast (bs ! p) OR push_bit 8 (ucast (bs ! (p + 1))) OR push_bit 16 (ucast (bs ! (p + 2))) OR push_bit 24 (ucast (bs ! (p + 3)))"

lemma read_u32_in: "p + 4 \<le> length bs \<Longrightarrow> read_u32 bs p = Some (word_at bs p)"
  by (simp add: read_u32_def word_at_def)

lemma read_u32_SomeD: "read_u32 bs p = Some v \<Longrightarrow> p + 4 \<le> length bs \<and> v = word_at bs p"
  by (simp add: read_u32_def word_at_def split: if_splits)

lemma read_u8_in: "p < length bs \<Longrightarrow> read_u8 bs p = Some (bs ! p)"
  by (simp add: read_u8_def)

lemma zero_words_safe: "\<forall>p\<in>set ps. p + 4 \<le> length bs \<Longrightarrow> \<exists>z. zero_words bs ps = Some z"
  by (induction ps) (auto simp: read_u32_in)

lemma zero_bytes_safe: "\<forall>p\<in>set ps. p < length bs \<Longrightarrow> zero_bytes bs ps = Some (\<forall>p\<in>set ps. bs ! p = 0)"
  by (induction ps) (auto simp: read_u8_in)

lemma coordinates_safe: "\<forall>p\<in>set ps. p + 4 \<le> length bs \<Longrightarrow> \<exists>z. coordinates bs ps = Some z"
  by (induction ps) (auto simp: read_u32_in)

lemma words_at_most_safe: "\<forall>p\<in>set ps. p + 4 \<le> length bs \<Longrightarrow> \<exists>z. words_at_most bs m ps = Some z"
  by (induction ps) (auto simp: read_u32_in)

lemma unat_offset:
  assumes "unat (first :: u32) + unat (i :: u32) < l div s" and "l \<le> 8388608" and "0 < s" and "s \<le> 60"
  shows "unat ((first + i) * of_nat s) = (unat first + unat i) * s" and "(unat first + unat i) * s + s \<le> l"
proof -
  have "(unat first + unat i + 1) * s \<le> l div s * s" using assms(1) by (intro mult_le_mono1) simp
  also have "\<dots> \<le> l" by simp
  finally show le: "(unat first + unat i) * s + s \<le> l" by (simp add: algebra_simps)
  have "unat first + unat i \<le> (unat first + unat i) * s" using assms(3) by (metis One_nat_def Suc_leI le_add1 mult.right_neutral mult_le_mono2)
  with le assms(2) have small: "unat first + unat i < 4294967296" by linarith
  then have f: "unat (first + i) = unat first + unat i" by (simp add: unat_word_ariths)
  have "unat (of_nat s :: u32) = s" using assms(4) by (simp add: unat_of_nat)
  moreover have "(unat first + unat i) * s < 4294967296" using le assms(2) by linarith
  ultimately show "unat ((first + i) * of_nat s) = (unat first + unat i) * s"
    using f by (simp add: unat_word_ariths)
qed

lemma counter_step: "unat (i :: u32) + Suc n < 2 ^ 32 \<Longrightarrow> unat (i + 1) = unat i + 1"
  by (simp add: unat_word_ariths)

subsection \<open>Header\<close>

lemma check_header_safe: "\<exists>e. check_header bs = Some e"
proof (cases "bs = [] \<or> length bs < 184 \<or> length bs > 8388608")
  case False
  then have l: "184 \<le> length bs" by simp
  obtain z where "zero_words bs [48, 52, 56, 60] = Some z" using zero_words_safe [of "[48, 52, 56, 60]" bs] l by auto
  with False l show ?thesis by (simp add: check_header_def read_u32_in)
qed (simp add: check_header_def)

lemma check_header_ok:
  assumes "check_header bs = Some FE_None"
  shows "184 \<le> length bs" and "length bs \<le> 8388608" and "read_u32 bs 20 = Some (word_at bs 20)"
    and "word_at bs 20 \<noteq> 0" and "word_at bs 20 \<le> 4096"
proof -
  show l: "184 \<le> length bs" and "length bs \<le> 8388608"
    using assms by (auto simp: check_header_def split: if_splits)
  then show "read_u32 bs 20 = Some (word_at bs 20)" by (simp add: read_u32_in)
  show "word_at bs 20 \<noteq> 0" and "word_at bs 20 \<le> 4096"
    using assms l by (auto simp: check_header_def read_u32_in split: if_splits)
qed

subsection \<open>Directory\<close>

definition sec_off :: "u8 list \<Rightarrow> nat \<Rightarrow> nat" where "sec_off bs j = unat (word_at bs (64 + j * 12 + 4))"
definition sec_size :: "u8 list \<Rightarrow> nat \<Rightarrow> nat" where "sec_size bs j = unat (word_at bs (64 + j * 12 + 8))"

definition align4 :: "nat \<Rightarrow> nat" where "align4 n = (n + 3) div 4 * 4"

lemma align4_bounds: "n \<le> align4 n" "align4 n < n + 4"
  unfolding align4_def by presburger+

lemma and_not_3: "(x :: u32) AND NOT 3 = push_bit 2 (drop_bit 2 x)"
proof (rule bit_eqI)
  fix n assume n: "possible_bit TYPE(32 word) n"
  have three: "(3 :: u32) = mask 2" by (simp add: mask_eq_exp_minus_1)
  have nb: "\<not> n < 2 \<Longrightarrow> Suc (Suc (n - 2)) = n" by simp
  show "bit (x AND NOT 3) n = bit (push_bit 2 (drop_bit 2 x)) n"
    unfolding three bit_and_iff bit_not_iff bit_mask_iff bit_push_bit_iff bit_drop_bit_eq comp_apply
    using n nb by (cases "n < 2") auto
qed

lemma unat_aligned: "unat x \<le> 8388608 \<Longrightarrow> unat (aligned x) = align4 (unat x)"
proof -
  assume x: "unat x \<le> 8388608"
  then have "unat (x + 3) = unat x + 3" by (simp add: unat_word_ariths)
  then have "unat (drop_bit 2 (x + 3)) = (unat x + 3) div 4" by (simp add: drop_bit_eq_div unat_div_distrib)
  then show ?thesis unfolding aligned_def and_not_3 align4_def using x by (simp add: push_bit_eq_mult unat_word_ariths)
qed

text \<open>The sections from \<open>i\<close> on follow each other without gaps but for zero padding to a multiple of four.\<close>

fun tiles :: "u8 list \<Rightarrow> nat \<Rightarrow> nat \<Rightarrow> nat \<Rightarrow> nat \<Rightarrow> bool" where
  "tiles bs 0 i a b \<longleftrightarrow> a = b"
| "tiles bs (Suc n) i a b \<longleftrightarrow> sec_off bs i = a \<and> tiles bs n (i + 1) (align4 (a + sec_size bs i)) b"

definition section_ok :: "u8 list \<Rightarrow> nat \<Rightarrow> nat \<Rightarrow> bool" where
  "section_ok bs stride j \<longleftrightarrow>
     sec_off bs j + sec_size bs j \<le> length bs \<and> sec_size bs j mod stride = 0 \<and>
     (\<forall>p < align4 (sec_off bs j + sec_size bs j). sec_off bs j + sec_size bs j \<le> p \<longrightarrow> p < length bs \<and> bs ! p = 0)"

lemma directory_step:
  assumes l: "184 \<le> length bs" "length bs \<le> 8388608" and i: "i < 10"
  shows "directory_loop bs (stride # strides) i next =
    (if word_at bs (64 + i * 12) = of_nat (i + 1) \<and> sec_off bs i = unat next \<and> section_ok bs stride i \<and>
        align4 (sec_off bs i + sec_size bs i) \<le> length bs
     then directory_loop bs strides (i + 1) (of_nat (align4 (unat next + sec_size bs i))) else Some (Inl FE_InvalidDirectory))"
proof -
  let ?o = "word_at bs (64 + i * 12 + 4)" and ?s = "word_at bs (64 + i * 12 + 8)"
  have r: "read_u32 bs (64 + i * 12) = Some (word_at bs (64 + i * 12))" "read_u32 bs (64 + i * 12 + 4) = Some ?o"
    "read_u32 bs (64 + i * 12 + 8) = Some ?s"
    using l(1) i by (simp_all add: read_u32_in)
  show ?thesis
  proof (cases "word_at bs (64 + i * 12) = of_nat (i + 1) \<and> ?o = next \<and> unat ?o + unat ?s \<le> length bs \<and> unat ?s mod stride = 0")
    case False
    then have "word_at bs (64 + i * 12) \<noteq> of_nat (i + 1) \<or> ?o \<noteq> next \<or> length bs < unat ?o \<or> length bs - unat ?o < unat ?s \<or> unat ?s mod stride \<noteq> 0"
      by linarith
    then have "directory_loop bs (stride # strides) i next = Some (Inl FE_InvalidDirectory)" using r by auto
    then show ?thesis using False by (auto simp: sec_off_def sec_size_def section_ok_def word_unat_eq_iff)
  next
    case True
    then have fit: "unat ?o + unat ?s \<le> length bs" by blast
    then have nf: "\<not> length bs < unat ?o" "\<not> length bs - unat ?o < unat ?s" by linarith+
    have e: "unat (?o + ?s) = unat ?o + unat ?s" using fit l(2) by (simp add: unat_word_ariths)
    then have a: "unat (aligned (?o + ?s)) = align4 (unat ?o + unat ?s)" using fit l(2) by (simp add: unat_aligned)
    have w: "aligned (?o + ?s) = of_nat (align4 (unat ?o + unat ?s))" unfolding a [symmetric] by simp
    show ?thesis
    proof (cases "align4 (unat ?o + unat ?s) \<le> length bs")
      case False
      then show ?thesis using r True a by (auto simp: sec_off_def sec_size_def Let_def)
    next
      case al: True
      then have z: "zero_bytes bs [unat (?o + ?s) ..< unat (aligned (?o + ?s))] =
          Some (\<forall>p\<in>set [unat ?o + unat ?s ..< align4 (unat ?o + unat ?s)]. bs ! p = 0)"
        unfolding e a by (intro zero_bytes_safe) auto
      have ok: "section_ok bs stride i \<longleftrightarrow> (\<forall>p\<in>set [unat ?o + unat ?s ..< align4 (unat ?o + unat ?s)]. bs ! p = 0)"
        using True fit al by (auto simp: section_ok_def sec_off_def sec_size_def)
      have "directory_loop bs (stride # strides) i next =
          (if section_ok bs stride i then directory_loop bs strides (i + 1) (aligned (?o + ?s)) else Some (Inl FE_InvalidDirectory))"
        using r True al a z nf unfolding ok by (simp add: Let_def)
      moreover have "?o = next" using True by blast
      then have "of_nat (align4 (unat next + sec_size bs i)) = aligned (?o + ?s)"
        unfolding sec_size_def w by simp
      moreover have "(word_at bs (64 + i * 12) = of_nat (i + 1) \<and> sec_off bs i = unat next \<and> section_ok bs stride i \<and>
          align4 (sec_off bs i + sec_size bs i) \<le> length bs) = section_ok bs stride i"
        using True al by (auto simp: sec_off_def sec_size_def)
      ultimately show ?thesis by presburger
    qed
  qed
qed

lemma directory_loop_error: "directory_loop bs strides i next = Some (Inl e) \<Longrightarrow> e = FE_InvalidDirectory"
  by (induction strides arbitrary: i "next") (auto simp: Let_def bind_eq_Some_conv split: if_splits)

lemma directory_loop_safe:
  "184 \<le> length bs \<Longrightarrow> length bs \<le> 8388608 \<Longrightarrow> i + length strides \<le> 10 \<Longrightarrow> \<exists>r. directory_loop bs strides i next = Some r"
  by (induction strides arbitrary: i "next") (simp_all add: directory_step del: directory_loop.simps(2))

lemma directory_loop_ok:
  "184 \<le> length bs \<Longrightarrow> length bs \<le> 8388608 \<Longrightarrow> i + length strides \<le> 10 \<Longrightarrow> directory_loop bs strides i next = Some (Inr n) \<Longrightarrow>
   tiles bs (length strides) i (unat next) (unat n) \<and> (\<forall>j < length strides. section_ok bs (strides ! j) (i + j))"
proof (induction strides arbitrary: i "next")
  case (Cons stride strides)
  let ?next = "of_nat (align4 (unat next + sec_size bs i)) :: u32"
  from Cons.prems have st: "sec_off bs i = unat next" "section_ok bs stride i" "align4 (sec_off bs i + sec_size bs i) \<le> length bs"
    "directory_loop bs strides (i + 1) ?next = Some (Inr n)"
    by (simp_all add: directory_step del: directory_loop.simps(2) split: if_splits)
  have "unat ?next = align4 (unat next + sec_size bs i)" using st(1,3) Cons.prems(2) by (simp add: unat_of_nat)
  moreover have "tiles bs (length strides) (i + 1) (unat ?next) (unat n) \<and> (\<forall>j < length strides. section_ok bs (strides ! j) (i + 1 + j))"
    using Cons.IH [OF Cons.prems(1,2) _ st(4)] Cons.prems(3) by simp
  ultimately show ?case using st(1,2) by (auto simp: less_Suc_eq_0_disj)
qed simp

lemma length_strides: "length section_strides = 10"
  by (simp add: section_strides_def)

lemma check_directory_safe: "184 \<le> length bs \<Longrightarrow> length bs \<le> 8388608 \<Longrightarrow> \<exists>e. check_directory bs = Some e"
  using directory_loop_safe [of bs 0 section_strides "of_nat 184"] by (auto simp: check_directory_def length_strides split: sum.splits)

lemma check_directory_ok:
  assumes "184 \<le> length bs" and "length bs \<le> 8388608" and "check_directory bs = Some FE_None"
  shows "tiles bs 10 0 184 (length bs)" and "j < 10 \<Longrightarrow> section_ok bs (section_strides ! j) j"
proof -
  obtain r where "directory_loop bs section_strides 0 (of_nat 184) = Some r"
    using directory_loop_safe [of bs 0 section_strides "of_nat 184"] assms(1,2) by (auto simp: length_strides)
  then obtain n where d: "directory_loop bs section_strides 0 (of_nat 184) = Some (Inr n)" and n: "unat n = length bs"
    using assms(3) by (auto simp: check_directory_def dest: directory_loop_error split: sum.splits if_splits)
  from directory_loop_ok [OF assms(1,2) _ d] n
  show "tiles bs 10 0 184 (length bs)" and "j < 10 \<Longrightarrow> section_ok bs (section_strides ! j) j"
    by (simp_all add: length_strides)
qed

definition section_bytes :: "u8 list \<Rightarrow> nat \<Rightarrow> u8 list" where
  "section_bytes bs j = take (sec_size bs j) (drop (sec_off bs j) bs)"

lemma section_view_ok:
  assumes "184 \<le> length bs" and "j < 10" and "sec_off bs j + sec_size bs j \<le> length bs"
  shows "section_view bs j = Some (section_bytes bs j)" and "length (section_bytes bs j) = sec_size bs j"
proof -
  have "\<not> (length bs < sec_off bs j \<or> length bs - sec_off bs j < sec_size bs j)" using assms(3) by linarith
  moreover have "bs \<noteq> []" using assms(1) by auto
  ultimately show "section_view bs j = Some (section_bytes bs j)"
    using assms(1,2) by (simp add: section_view_def read_u32_in section_bytes_def sec_off_def sec_size_def)
  show "length (section_bytes bs j) = sec_size bs j" using assms(3) by (simp add: section_bytes_def)
qed

lemma section_view_safe: "\<exists>v. section_view bs j = Some v"
  by (auto simp: section_view_def read_u32_in)

definition resource_views :: "u8 list \<Rightarrow> font_sections" where
  "resource_views bs =
     \<lparr>fs_glyphs = section_bytes bs 0, fs_points = section_bytes bs 1, fs_contours = section_bytes bs 2, fs_components = section_bytes bs 3,
      fs_cmap = section_bytes bs 4, fs_cvt = section_bytes bs 5, fs_programs = section_bytes bs 6, fs_fontProgram = section_bytes bs 7,
      fs_prepProgram = section_bytes bs 8, fs_limits = section_bytes bs 9\<rparr>"

definition views_ok :: "font_sections \<Rightarrow> bool" where
  "views_ok v \<longleftrightarrow>
     length (fs_glyphs v) \<le> 8388608 \<and> length (fs_points v) \<le> 8388608 \<and> length (fs_contours v) \<le> 8388608 \<and>
     length (fs_components v) \<le> 8388608 \<and> length (fs_programs v) \<le> 8388608 \<and> length (fs_cmap v) mod 12 = 0 \<and> length (fs_cvt v) mod 4 = 0"

lemma font_views_ok:
  assumes "184 \<le> length bs" and "length bs \<le> 8388608" and "check_directory bs = Some FE_None"
  shows "font_views bs = Some (resource_views bs)" and "views_ok (resource_views bs)"
proof -
  have ok: "section_ok bs (section_strides ! j) j" if "j < 10" for j using check_directory_ok(2) [OF assms that] .
  then have fit: "sec_off bs j + sec_size bs j \<le> length bs" if "j < 10" for j using that by (simp add: section_ok_def)
  note sv = section_view_ok [OF assms(1) _ fit]
  show "font_views bs = Some (resource_views bs)" by (simp add: font_views_def resource_views_def sv(1))
  have len: "length (section_bytes bs j) \<le> 8388608" if "j < 10" for j using sv(2) [OF that that] fit [OF that] assms(2) by simp
  have "length (section_bytes bs 4) mod 12 = 0" "length (section_bytes bs 5) mod 4 = 0"
    using ok [of 4] ok [of 5] by (simp_all add: sv(2) section_ok_def section_strides_def)
  then show "views_ok (resource_views bs)" by (simp add: views_ok_def resource_views_def len)
qed

subsection \<open>Tables\<close>

lemma check_tables_safe:
  assumes "views_ok v"
  shows "\<exists>e. check_tables n v = Some e"
proof (cases "length (fs_limits v) = 52")
  case True
  have "\<forall>p\<in>set (map (\<lambda>i. 4 * i) [0..<(length (fs_cvt v) + 3) div 4]). p + 4 \<le> length (fs_cvt v)"
    using assms by (auto simp: views_ok_def)
  then obtain c where "coordinates (fs_cvt v) (map (\<lambda>i. 4 * i) [0..<(length (fs_cvt v) + 3) div 4]) = Some c"
    using coordinates_safe by blast
  moreover obtain m where "words_at_most (fs_limits v) 65535 (map (\<lambda>i. 4 * i) [0..<13]) = Some m"
    using words_at_most_safe [of "map (\<lambda>i. 4 * i) [0..<13]" "fs_limits v"] True by auto
  ultimately show ?thesis using True by (simp add: check_tables_def read_u32_in del: upt_Suc)
qed (simp add: check_tables_def)

lemma check_tables_ok:
  assumes "check_tables n v = Some FE_None"
  shows "length (fs_glyphs v) div 60 = unat n" and "length (fs_limits v) = 52"
  using assms by (auto simp: check_tables_def split: if_splits)

subsection \<open>Glyphs\<close>

lemma offset_12:
  assumes "unat (first :: u32) + unat (i :: u32) < l div 12" and "l \<le> 8388608"
  shows "unat ((first + i) * 12) = (unat first + unat i) * 12" and "(unat first + unat i) * 12 + 12 \<le> l"
  using unat_offset [OF assms] by simp_all

lemma offset_4:
  assumes "unat (first :: u32) + unat (i :: u32) < l div 4" and "l \<le> 8388608"
  shows "unat ((first + i) * 4) = (unat first + unat i) * 4" and "(unat first + unat i) * 4 + 4 \<le> l"
  using unat_offset [OF assms] by simp_all

lemma offset_32:
  assumes "unat (first :: u32) + unat (i :: u32) < l div 32" and "l \<le> 8388608"
  shows "unat ((first + i) * 32) = (unat first + unat i) * 32" and "(unat first + unat i) * 32 + 32 \<le> l"
  using unat_offset [OF assms] by simp_all


lemma counter_next:
  assumes "unat (first :: u32) + unat (i :: u32) + Suc n \<le> l div s" and "l \<le> 8388608"
  shows "unat (i + 1) = unat i + 1" and "unat first + unat (i + 1) + n \<le> l div s"
proof -
  have "l div s \<le> l" by simp
  then have "unat i + 1 < 4294967296" using assms by linarith
  then show "unat (i + 1) = unat i + 1" by (simp add: unat_word_ariths)
  then show "unat first + unat (i + 1) + n \<le> l div s" using assms(1) by linarith
qed

lemma check_points_safe:
  "unat first + unat i + n \<le> length points div 12 \<Longrightarrow> length points \<le> 8388608 \<Longrightarrow> \<exists>e. check_points points first n i = Some e"
proof (induction n arbitrary: i)
  case (Suc n)
  note c = counter_next [OF Suc.prems]
  have lt: "unat first + unat i < length points div 12" using Suc.prems(1) by simp
  note o = offset_12 [OF lt Suc.prems(2)]
  obtain p where p: "unat ((first + i) * 12) = p" "p + 12 \<le> length points" using o by metis
  have "\<exists>e. check_points points first n (i + 1) = Some e" by (rule Suc.IH [OF c(2) Suc.prems(2)])
  then show ?case unfolding check_points.simps Let_def p(1) using p(2) by (simp add: read_u32_in)
qed simp

text \<open>The end points of the contours \<open>k\<close> of a glyph whose first contour is \<open>first\<close>.\<close>

definition contour_end :: "u8 list \<Rightarrow> u32 \<Rightarrow> nat \<Rightarrow> u32" where
  "contour_end contours first k = word_at contours ((unat first + k) * 4)"

lemma contour_step:
  assumes "unat first + unat i + Suc n \<le> length contours div 4" and "length contours \<le> 8388608"
  shows "check_contours contours first pointCount (Suc n) i finish =
    (if contour_end contours first (unat i) < pointCount \<and> (i \<noteq> 0 \<longrightarrow> finish < contour_end contours first (unat i))
     then check_contours contours first pointCount n (i + 1) (contour_end contours first (unat i)) else Some (Inl FE_InvalidContour))"
proof -
  have lt: "unat first + unat i < length contours div 4" using assms(1) by simp
  note o = offset_4 [OF lt assms(2)]
  have "read_u32 contours (unat ((first + i) * 4)) = Some (contour_end contours first (unat i))"
    unfolding o(1) contour_end_def by (rule read_u32_in [OF o(2)])
  then show ?thesis unfolding check_contours.simps by (auto simp: not_le not_less)
qed

lemma check_contours_safe:
  "unat first + unat i + n \<le> length contours div 4 \<Longrightarrow> length contours \<le> 8388608 \<Longrightarrow>
   \<exists>r. check_contours contours first pointCount n i finish = Some r \<and> r \<noteq> Inl FE_None"
proof (induction n arbitrary: i finish)
  case (Suc n)
  note c = counter_next [OF Suc.prems]
  show ?case using Suc.IH [OF c(2) Suc.prems(2)] by (simp add: contour_step [OF Suc.prems] del: check_contours.simps(2))
qed simp

lemma check_contours_ok:
  "unat first + unat i + n \<le> length contours div 4 \<Longrightarrow> length contours \<le> 8388608 \<Longrightarrow>
   check_contours contours first pointCount n i finish = Some (Inr final) \<Longrightarrow>
   (\<forall>k < n. contour_end contours first (unat i + k) < pointCount) \<and>
   (\<forall>k < n. (k = 0 \<longrightarrow> i \<noteq> 0 \<longrightarrow> finish < contour_end contours first (unat i)) \<and>
     (0 < k \<longrightarrow> contour_end contours first (unat i + k - 1) < contour_end contours first (unat i + k))) \<and>
   final = (if n = 0 then finish else contour_end contours first (unat i + n - 1))"
proof (induction n arbitrary: i finish)
  case (Suc n)
  note c = counter_next [OF Suc.prems(1,2)]
  let ?e = "\<lambda>k. contour_end contours first k"
  from Suc.prems(3) have st: "?e (unat i) < pointCount" "i \<noteq> 0 \<longrightarrow> finish < ?e (unat i)"
    "check_contours contours first pointCount n (i + 1) (?e (unat i)) = Some (Inr final)"
    by (simp_all add: contour_step [OF Suc.prems(1,2)] del: check_contours.simps(2) split: if_splits)
  have nz: "i + 1 \<noteq> 0" using c(1) by auto
  have ih: "\<forall>k < n. ?e (unat i + 1 + k) < pointCount"
    "\<forall>k < n. (k = 0 \<longrightarrow> ?e (unat i) < ?e (unat i + 1)) \<and> (0 < k \<longrightarrow> ?e (unat i + 1 + k - 1) < ?e (unat i + 1 + k))"
    "final = (if n = 0 then ?e (unat i) else ?e (unat i + 1 + n - 1))"
    using Suc.IH [OF c(2) Suc.prems(2) st(3)] nz c(1) by simp_all
  have step: "?e (unat i + k - 1) < ?e (unat i + k)" if "k < Suc n" "0 < k" for k
    using ih(2) [rule_format, of "k - 1"] that by (cases "k = 1") auto
  have "\<forall>k < Suc n. ?e (unat i + k) < pointCount" using st(1) ih(1) by (auto simp: less_Suc_eq_0_disj)
  then show ?case using st(2) step ih(3) by auto
qed simp

lemma two_ifs: "(\<not> A \<Longrightarrow> P) \<Longrightarrow> \<exists>b. (if A then e else if B then e else x) = (if b then x else e) \<and> (b \<longrightarrow> P)"
  by (rule exI [of _ "\<not> A \<and> \<not> B"]) auto

lemma check_components_step:
  assumes "unat (gl_firstComponent r) + unat i + Suc n \<le> length components div 32" and "length components \<le> 8388608"
  shows "\<exists>b. check_components components glyphCount r (Suc n) i =
      (if b then check_components components glyphCount r n (i + 1) else Some FE_InvalidComponent) \<and>
    (b \<longrightarrow> word_at components ((unat (gl_firstComponent r) + unat i) * 32) < glyphCount)"
proof -
  have lt: "unat (gl_firstComponent r) + unat i < length components div 32" using assms(1) by simp
  note o = offset_32 [OF lt assms(2)]
  define c where "c = (unat (gl_firstComponent r) + unat i) * 32"
  note o = o [folded c_def]
  have "\<forall>p\<in>set [c + 16, c + 20, c + 24, c + 28]. p + 4 \<le> length components" using o(2) by simp
  then obtain sc where sc: "coordinates components [c + 16, c + 20, c + 24, c + 28] = Some sc" using coordinates_safe by blast
  have rd: "read_u32 components (c + k) = Some (word_at components (c + k))" if "k \<le> 28" for k
    using o(2) that by (simp add: read_u32_in)
  note rds = rd [of 4, simplified] rd [of 8, simplified] rd [of 12, simplified] rd [of 16, simplified] rd [of 20, simplified]
    rd [of 24, simplified] rd [of 28, simplified]
  have rd0: "read_u32 components c = Some (word_at components c)" using rd [of 0] by simp
  show ?thesis unfolding check_components.simps Let_def o(1) c_def [symmetric]
    by (simp only: rd0 rds sc Option.bind.simps) (rule two_ifs, simp add: not_le)
qed

lemma check_components_ok:
  "unat (gl_firstComponent r) + unat i + n \<le> length components div 32 \<Longrightarrow> length components \<le> 8388608 \<Longrightarrow>
   \<exists>e. check_components components glyphCount r n i = Some e \<and>
     (e = FE_None \<longrightarrow> (\<forall>k < n. word_at components ((unat (gl_firstComponent r) + unat i + k) * 32) < glyphCount))"
proof (induction n arbitrary: i)
  case (Suc n)
  note c = counter_next [OF Suc.prems]
  obtain b where b: "check_components components glyphCount r (Suc n) i =
      (if b then check_components components glyphCount r n (i + 1) else Some FE_InvalidComponent)"
    "b \<longrightarrow> word_at components ((unat (gl_firstComponent r) + unat i) * 32) < glyphCount"
    using check_components_step [OF Suc.prems] by blast
  obtain e where e: "check_components components glyphCount r n (i + 1) = Some e"
    "e = FE_None \<longrightarrow> (\<forall>k < n. word_at components ((unat (gl_firstComponent r) + unat (i + 1) + k) * 32) < glyphCount)"
    using Suc.IH [OF c(2) Suc.prems(2)] by blast
  show ?case
  proof (cases b)
    case True
    have "e = FE_None \<longrightarrow> (\<forall>k < Suc n. word_at components ((unat (gl_firstComponent r) + unat i + k) * 32) < glyphCount)"
      using e(2) [unfolded c(1)] b(2) True by (auto simp: less_Suc_eq_0_disj algebra_simps)
    with b(1) e(1) True show ?thesis by simp
  qed (use b(1) in simp)
qed simp

definition contours_ok :: "u8 list \<Rightarrow> glyph_record \<Rightarrow> bool" where
  "contours_ok contours r \<longleftrightarrow>
     (\<forall>k < unat (gl_contourCount r). contour_end contours (gl_firstContour r) k < gl_pointCount r) \<and>
     (\<forall>k < unat (gl_contourCount r). 0 < k \<longrightarrow> contour_end contours (gl_firstContour r) (k - 1) < contour_end contours (gl_firstContour r) k) \<and>
     (gl_pointCount r = 0 \<longleftrightarrow> gl_contourCount r = 0) \<and>
     (gl_pointCount r \<noteq> 0 \<longrightarrow> contour_end contours (gl_firstContour r) (unat (gl_contourCount r) - 1) = gl_pointCount r - 1)"

definition ranges_ok :: "font_sections \<Rightarrow> glyph_record \<Rightarrow> bool" where
  "ranges_ok v r \<longleftrightarrow>
     unat (gl_firstPoint r) + unat (gl_pointCount r) \<le> length (fs_points v) div 12 \<and>
     unat (gl_firstContour r) + unat (gl_contourCount r) \<le> length (fs_contours v) div 4 \<and>
     unat (gl_firstComponent r) + unat (gl_componentCount r) \<le> length (fs_components v) div 32 \<and>
     unat (gl_program r) + unat (gl_programSize r) \<le> length (fs_programs v)"

text \<open>The glyph records of an accepted resource: ranges inside their sections, components that name glyphs of the font,
  contours that split the points.\<close>

definition glyph_ok :: "font_sections \<Rightarrow> u32 \<Rightarrow> nat \<Rightarrow> bool" where
  "glyph_ok v n gid \<longleftrightarrow>
     (case read_glyph (fs_glyphs v) (gid * 60) of
        None \<Rightarrow> False
      | Some r \<Rightarrow>
          gl_kind r \<le> 2 \<and> ranges_ok v r \<and> gl_pointCount r \<le> 16384 \<and> gl_contourCount r \<le> 2048 \<and> contours_ok (fs_contours v) r \<and>
          (\<forall>k < unat (gl_componentCount r). word_at (fs_components v) ((unat (gl_firstComponent r) + k) * 32) < n))"

lemma read_glyph_safe: "g + 60 \<le> length glyphs \<Longrightarrow> \<exists>r. read_glyph glyphs g = Some r"
  by (simp add: read_glyph_def read_u32_in)

lemma check_extents_safe:
  assumes "g + 60 \<le> length glyphs"
  shows "\<exists>e. check_extents glyphs g r = Some e \<and> (e = FE_None \<longrightarrow> gl_kind r \<le> 2)"
proof -
  obtain c where c: "coordinates glyphs [g + 12, g + 16, g + 20, g + 24] = Some c"
    using coordinates_safe [of "[g + 12, g + 16, g + 20, g + 24]" glyphs] assms by auto
  show ?thesis unfolding check_extents_def c using assms by (simp add: read_u32_in not_less)
qed

lemma range_okD: "range_ok a b n \<Longrightarrow> unat a + unat b \<le> n"
  unfolding range_ok_def by linarith

lemma check_counts_ok:
  assumes "length (fs_limits v) = 52"
  shows "\<exists>e. check_counts v used r = Some e \<and>
    (e = FE_None \<longrightarrow> ranges_ok v r \<and> gl_pointCount r \<le> 16384 \<and> gl_contourCount r \<le> 2048)"
proof -
  have "\<exists>e. check_counts v used r = Some e" using assms by (simp add: check_counts_def read_u32_in)
  then obtain e where e: "check_counts v used r = Some e" by blast
  have "ranges_ok v r \<and> gl_pointCount r \<le> 16384 \<and> gl_contourCount r \<le> 2048" if "e = FE_None"
    using e that by (auto simp: check_counts_def ranges_ok_def not_less dest!: range_okD split: if_splits)
  with e show ?thesis by blast
qed

lemma check_glyph_ok:
  assumes v: "views_ok v" and g: "gid * 60 + 60 \<le> length (fs_glyphs v)" and l: "length (fs_limits v) = 52"
  shows "\<exists>x. check_glyph v n gid used = Some x \<and> x \<noteq> Inl FE_None \<and> (\<forall>u. x = Inr u \<longrightarrow> glyph_ok v n gid)"
proof -
  obtain r where r: "read_glyph (fs_glyphs v) (gid * 60) = Some r" using read_glyph_safe [OF g] by blast
  obtain e1 where e1: "check_extents (fs_glyphs v) (gid * 60) r = Some e1" "e1 = FE_None \<longrightarrow> gl_kind r \<le> 2"
    using check_extents_safe [OF g] by blast
  obtain e2 where e2: "check_counts v used r = Some e2"
    "e2 = FE_None \<longrightarrow> ranges_ok v r \<and> gl_pointCount r \<le> 16384 \<and> gl_contourCount r \<le> 2048"
    using check_counts_ok [OF l] by blast
  show ?thesis
  proof (cases "e1 = FE_None \<and> e2 = FE_None")
    case False
    then show ?thesis using r e1 e2 by (auto simp: check_glyph_def)
  next
    case True
    have rg: "ranges_ok v r" using e2 True by simp
    have len: "length (fs_points v) \<le> 8388608" "length (fs_contours v) \<le> 8388608" "length (fs_components v) \<le> 8388608"
      using v by (simp_all add: views_ok_def)
    obtain e3 where e3: "check_points (fs_points v) (gl_firstPoint r) (unat (gl_pointCount r)) 0 = Some e3"
      using check_points_safe [of "gl_firstPoint r" 0] rg len by (auto simp: ranges_ok_def)
    have cr: "unat (gl_firstContour r) + unat (0 :: u32) + unat (gl_contourCount r) \<le> length (fs_contours v) div 4"
      using rg by (simp add: ranges_ok_def)
    obtain c where c: "check_contours (fs_contours v) (gl_firstContour r) (gl_pointCount r) (unat (gl_contourCount r)) 0 0 = Some c" "c \<noteq> Inl FE_None"
      using check_contours_safe [OF cr len(2)] by blast
    obtain e4 where e4: "check_components (fs_components v) n r (unat (gl_componentCount r)) 0 = Some e4"
      "e4 = FE_None \<longrightarrow> (\<forall>k < unat (gl_componentCount r). word_at (fs_components v) ((unat (gl_firstComponent r) + k) * 32) < n)"
      using check_components_ok [of r 0 "unat (gl_componentCount r)" "fs_components v" n] rg len(3) by (auto simp: ranges_ok_def)
    show ?thesis
    proof (cases c)
      case (Inl e)
      then show ?thesis using r e1 e2 e3 c True by (auto simp: check_glyph_def)
    next
      case (Inr final)
      have co: "contours_ok (fs_contours v) r"
        if "\<not> ((gl_pointCount r \<noteq> 0) \<noteq> (gl_contourCount r \<noteq> 0) \<or> gl_pointCount r \<noteq> 0 \<and> final \<noteq> gl_pointCount r - 1)"
        using check_contours_ok [OF cr len(2) c(1) [unfolded Inr]] that
        by (auto simp: contours_ok_def unat_eq_0 split: if_splits)
      show ?thesis using r e1 e2 e3 c e4 True Inr rg co
        by (auto simp: check_glyph_def glyph_ok_def)
    qed
  qed
qed

lemma check_glyphs_ok:
  assumes v: "views_ok v" and l: "length (fs_limits v) = 52"
  shows "\<forall>gid\<in>set gids. gid * 60 + 60 \<le> length (fs_glyphs v) \<Longrightarrow>
    \<exists>x. check_glyphs v n gids used = Some x \<and> x \<noteq> Inl FE_None \<and> (\<forall>u. x = Inr u \<longrightarrow> (\<forall>gid\<in>set gids. glyph_ok v n gid))"
proof (induction gids arbitrary: used)
  case (Cons gid gids)
  obtain x where x: "check_glyph v n gid used = Some x" "x \<noteq> Inl FE_None" "\<forall>u. x = Inr u \<longrightarrow> glyph_ok v n gid"
    using check_glyph_ok [OF v _ l, of gid n used] Cons.prems by (meson list.set_intros(1))
  show ?case
  proof (cases x)
    case (Inr u)
    obtain y where "check_glyphs v n gids u = Some y" "y \<noteq> Inl FE_None" "\<forall>u. y = Inr u \<longrightarrow> (\<forall>gid\<in>set gids. glyph_ok v n gid)"
      using Cons.IH [of u] Cons.prems by auto
    with x Inr show ?thesis by auto
  qed (use x in auto)
qed simp

subsection \<open>The character map\<close>

definition cm_first :: "u8 list \<Rightarrow> nat \<Rightarrow> u32" where "cm_first cmap i = word_at cmap (i * 12)"
definition cm_last :: "u8 list \<Rightarrow> nat \<Rightarrow> u32" where "cm_last cmap i = word_at cmap (i * 12 + 4)"
definition cm_glyph :: "u8 list \<Rightarrow> nat \<Rightarrow> u32" where "cm_glyph cmap i = word_at cmap (i * 12 + 8)"

definition mapping_ok :: "u8 list \<Rightarrow> u32 \<Rightarrow> nat \<Rightarrow> bool" where
  "mapping_ok cmap n i \<longleftrightarrow>
     cm_first cmap i \<le> cm_last cmap i \<and> cm_last cmap i \<le> 0x10ffff \<and> cm_glyph cmap i < n \<and>
     cm_last cmap i - cm_first cmap i < n - cm_glyph cmap i"

lemma check_cmap_ok:
  "12 * m \<le> length cmap \<Longrightarrow> a \<le> m \<Longrightarrow>
   \<exists>e. check_cmap cmap n (map (\<lambda>i. 12 * i) [a..<m]) prev = Some e \<and>
    (e = FE_None \<longrightarrow> (\<forall>i. a \<le> i \<longrightarrow> i < m \<longrightarrow> mapping_ok cmap n i \<and>
       (if i = a then a = 0 \<or> prev < cm_first cmap i else cm_last cmap (i - 1) < cm_first cmap i)))"
proof (induction "m - a" arbitrary: a prev)
  case 0
  then show ?case by simp
next
  case (Suc d)
  then have am: "a < m" and d: "d = m - Suc a" by simp_all
  have up: "[a..<m] = a # [Suc a..<m]" by (rule upt_conv_Cons [OF am])
  have "12 * a + 12 \<le> 12 * m" using am by simp
  then have fit: "12 * a + 12 \<le> length cmap" using Suc.prems(1) by linarith
  then have rd: "read_u32 cmap (12 * a) = Some (cm_first cmap a)" "read_u32 cmap (12 * a + 4) = Some (cm_last cmap a)"
    "read_u32 cmap (12 * a + 8) = Some (cm_glyph cmap a)"
    by (simp_all add: read_u32_in cm_first_def cm_last_def cm_glyph_def mult.commute)
  obtain e where e: "check_cmap cmap n (map (\<lambda>i. 12 * i) [Suc a..<m]) (cm_last cmap a) = Some e"
    "e = FE_None \<longrightarrow> (\<forall>i. Suc a \<le> i \<longrightarrow> i < m \<longrightarrow> mapping_ok cmap n i \<and>
       (if i = Suc a then Suc a = 0 \<or> cm_last cmap a < cm_first cmap i else cm_last cmap (i - 1) < cm_first cmap i))"
    using Suc.hyps(1) [OF d Suc.prems(1) Suc_leI [OF am], of "cm_last cmap a"] by blast
  let ?bad = "cm_first cmap a > cm_last cmap a \<or> cm_last cmap a > 0x10ffff \<or> cm_first cmap a \<le> 0xdfff \<and> cm_last cmap a \<ge> 0xd800 \<or>
     12 * a \<noteq> 0 \<and> cm_first cmap a \<le> prev \<or> cm_glyph cmap a \<ge> n \<or> cm_last cmap a - cm_first cmap a \<ge> n - cm_glyph cmap a"
  have st: "check_cmap cmap n (map (\<lambda>i. 12 * i) [a..<m]) prev = (if ?bad then Some FE_InvalidCmap else Some e)"
    unfolding up list.map check_cmap.simps rd Option.bind.simps e(1) ..
  show ?case
  proof (cases ?bad)
    case True
    then show ?thesis unfolding st by simp
  next
    case False
    have "mapping_ok cmap n i \<and> (if i = a then a = 0 \<or> prev < cm_first cmap i else cm_last cmap (i - 1) < cm_first cmap i)"
      if "e = FE_None" "a \<le> i" "i < m" for i
    proof (cases "i = a")
      case True
      then show ?thesis using False by (auto simp: mapping_ok_def not_le not_less)
    next
      case other: False
      then have "Suc a \<le> i" using that by simp
      with e(2) that other show ?thesis by (cases "i = Suc a") auto
    qed
    then show ?thesis unfolding st if_not_P [OF False] by blast
  qed
qed

definition cmap_ok :: "u8 list \<Rightarrow> u32 \<Rightarrow> bool" where
  "cmap_ok cmap n \<longleftrightarrow>
     (\<forall>i < length cmap div 12. mapping_ok cmap n i) \<and>
     (\<forall>j < length cmap div 12. \<forall>i < j. cm_last cmap i < cm_first cmap j)"

lemma cmap_sorted:
  assumes m: "\<And>i. i < m \<Longrightarrow> cm_first cmap i \<le> cm_last cmap i"
    and s: "\<And>i. 0 < i \<Longrightarrow> i < m \<Longrightarrow> cm_last cmap (i - 1) < cm_first cmap i"
  shows "j < m \<Longrightarrow> i < j \<Longrightarrow> cm_last cmap i < cm_first cmap j"
proof (induction j)
  case (Suc j)
  show ?case
  proof (cases "i = j")
    case True
    then show ?thesis using s [of "Suc j"] Suc.prems by simp
  next
    case False
    then have "cm_last cmap i < cm_first cmap j" using Suc by simp
    also have "\<dots> \<le> cm_last cmap j" using m [of j] Suc.prems by simp
    also have "\<dots> < cm_first cmap (Suc j)" using s [of "Suc j"] Suc.prems by simp
    finally show ?thesis .
  qed
qed simp

lemma check_cmap_sorted:
  assumes "length cmap mod 12 = 0"
  shows "\<exists>e. check_cmap cmap n (map (\<lambda>i. 12 * i) [0..<(length cmap + 11) div 12]) 0 = Some e \<and> (e = FE_None \<longrightarrow> cmap_ok cmap n)"
proof -
  obtain k where "length cmap = 12 * k" using assms by auto
  then have d: "(length cmap + 11) div 12 = length cmap div 12" by simp
  have le: "12 * (length cmap div 12) \<le> length cmap" by simp
  obtain e where e: "check_cmap cmap n (map (\<lambda>i. 12 * i) [0..<length cmap div 12]) 0 = Some e"
    "e = FE_None \<longrightarrow> (\<forall>i. 0 \<le> i \<longrightarrow> i < length cmap div 12 \<longrightarrow> mapping_ok cmap n i \<and>
       (if i = 0 then (0 :: nat) = 0 \<or> 0 < cm_first cmap i else cm_last cmap (i - 1) < cm_first cmap i))"
    using check_cmap_ok [OF le le0, of n 0] by blast
  have "cmap_ok cmap n" if none: "e = FE_None"
  proof -
    have m: "mapping_ok cmap n i" if "i < length cmap div 12" for i using e(2) none that by simp
    have "cm_last cmap (i - 1) < cm_first cmap i" if "0 < i" "i < length cmap div 12" for i
      using e(2) none that by (metis le0 less_numeral_extra(3))
    then have "cm_last cmap i < cm_first cmap j" if "j < length cmap div 12" "i < j" for i j
      using cmap_sorted [of "length cmap div 12" cmap j i] m that by (simp add: mapping_ok_def)
    with m show ?thesis by (simp add: cmap_ok_def)
  qed
  with e(1) show ?thesis unfolding d by blast
qed

subsection \<open>The component graph\<close>

text \<open>\<open>c\<close> is a component of the glyph \<open>p\<close>.\<close>

definition component_of :: "font_sections \<Rightarrow> nat \<Rightarrow> nat \<Rightarrow> bool" where
  "component_of v p c \<longleftrightarrow>
     (case read_glyph (fs_glyphs v) (p * 60) of
        None \<Rightarrow> False
      | Some r \<Rightarrow> \<exists>k < unat (gl_componentCount r). c = unat (word_at (fs_components v) ((unat (gl_firstComponent r) + k) * 32)))"

lemma visit_components_ok:
  assumes safe: "\<And>c w. c < n \<Longrightarrow> \<exists>x w'. f c w = Some (x, w') \<and> x \<noteq> Inl FE_None"
    and len: "length components \<le> 8388608"
  shows "unat first + unat i + m \<le> length components div 32 \<Longrightarrow>
    \<forall>k < m. word_at components ((unat first + unat i + k) * 32) < n \<Longrightarrow>
    \<exists>x w'. visit_components f components first m i cs w = Some (x, w') \<and> x \<noteq> Inl FE_None \<and>
      (\<forall>cs'. x = Inr cs' \<longrightarrow> (\<forall>k < m. \<exists>w1 cc w2. f (word_at components ((unat first + unat i + k) * 32)) w1 = Some (Inr cc, w2)))"
proof (induction m arbitrary: i cs w)
  case (Suc m)
  note c = counter_next [OF Suc.prems(1) len]
  have lt: "unat first + unat i < length components div 32" using Suc.prems(1) by simp
  note o = offset_32 [OF lt len]
  define p where "p = (unat first + unat i) * 32"
  note o = o [folded p_def]
  let ?child = "word_at components p"
  have ch: "?child < n" using Suc.prems(2) [rule_format, of 0] by (simp add: p_def)
  obtain x w1 where x: "f ?child w = Some (x, w1)" "x \<noteq> Inl FE_None" using safe [OF ch] by blast
  have rd: "read_u32 components p = Some ?child" "read_u32 components (p + 4) = Some (word_at components (p + 4))"
    "read_u32 components (p + 8) = Some (word_at components (p + 8))" "read_u32 components (p + 12) = Some (word_at components (p + 12))"
    using o(2) by (simp_all add: read_u32_in)
  have shift: "(unat first + unat i + Suc k) * 32 = (unat first + unat (i + 1) + k) * 32" for k by (simp add: c(1))
  have later: "\<forall>k < m. word_at components ((unat first + unat (i + 1) + k) * 32) < n"
    using Suc.prems(2) unfolding shift [symmetric] by blast
  show ?case
  proof (cases x)
    case (Inl e)
    then show ?thesis unfolding visit_components.simps Let_def o(1) using x by (simp add: rd)
  next
    case (Inr cc)
    have here: "\<forall>k < Suc m. \<exists>w1 cc w2. f (word_at components ((unat first + unat i + k) * 32)) w1 = Some (Inr cc, w2)"
      if "\<forall>k < m. \<exists>w1 cc w2. f (word_at components ((unat first + unat (i + 1) + k) * 32)) w1 = Some (Inr cc, w2)"
    proof (intro allI impI)
      fix k assume k: "k < Suc m"
      show "\<exists>w1 cc w2. f (word_at components ((unat first + unat i + k) * 32)) w1 = Some (Inr cc, w2)"
      proof (cases k)
        case 0
        then show ?thesis using x(1) Inr by (auto simp: p_def)
      next
        case (Suc j)
        show ?thesis unfolding Suc shift using that k Suc by blast
      qed
    qed
    show ?thesis unfolding visit_components.simps Let_def o(1)
      using x Inr Suc.IH [OF c(2) later] here by (simp add: rd) (meson here)
  qed
qed simp

text \<open>A font whose glyph records are in order.\<close>

definition glyphs_ok :: "font_sections \<Rightarrow> u32 \<Rightarrow> bool" where
  "glyphs_ok v n \<longleftrightarrow> views_ok v \<and> n \<le> 4096 \<and> length (fs_glyphs v) div 60 = unat n \<and> length (fs_limits v) = 52 \<and> (\<forall>gid < unat n. glyph_ok v n gid)"

lemma glyph_offset:
  assumes "glyphs_ok v n" and "gid < n"
  shows "unat (gid * 60) = unat gid * 60" and "unat gid * 60 + 60 \<le> length (fs_glyphs v)"
proof -
  have n: "unat n \<le> 4096" "unat gid < unat n" using assms by (simp_all add: glyphs_ok_def word_le_nat_alt word_less_nat_alt)
  then show "unat (gid * 60) = unat gid * 60" by (simp add: unat_word_ariths)
  have "unat gid < length (fs_glyphs v) div 60" using n assms by (simp add: glyphs_ok_def)
  then have "unat gid * 60 + 60 \<le> length (fs_glyphs v) div 60 * 60" by simp
  also have "\<dots> \<le> length (fs_glyphs v)" by simp
  finally show "unat gid * 60 + 60 \<le> length (fs_glyphs v)" .
qed

lemma visit_ok:
  assumes g: "glyphs_ok v n"
  shows "gid < n \<Longrightarrow> \<exists>x w'. visit m (fs_glyphs v) (fs_components v) path gid w = Some (x, w') \<and> x \<noteq> Inl FE_None \<and>
    (\<forall>cs. x = Inr cs \<longrightarrow> (\<forall>k q. (component_of v ^^ k) (unat gid) q \<longrightarrow> k < m))"
proof (induction m arbitrary: gid path w)
  case (Suc m)
  note o = glyph_offset [OF g Suc.prems]
  have ok: "glyph_ok v n (unat gid)" using g Suc.prems by (simp add: glyphs_ok_def word_less_nat_alt)
  obtain r where r: "read_glyph (fs_glyphs v) (unat gid * 60) = Some r" using read_glyph_safe [OF o(2)] by blast
  let ?g = "unat gid * 60"
  have rd: "read_u32 (fs_glyphs v) (?g + 32) = Some (gl_pointCount r)" "read_u32 (fs_glyphs v) (?g + 40) = Some (gl_contourCount r)"
    "read_u32 (fs_glyphs v) (?g + 44) = Some (gl_firstComponent r)" "read_u32 (fs_glyphs v) (?g + 48) = Some (gl_componentCount r)"
    using r by (auto simp: read_glyph_def bind_eq_Some_conv)
  have rg: "unat (gl_firstComponent r) + unat (0 :: u32) + unat (gl_componentCount r) \<le> length (fs_components v) div 32"
    and ch: "\<forall>k < unat (gl_componentCount r). word_at (fs_components v) ((unat (gl_firstComponent r) + unat (0 :: u32) + k) * 32) < n"
    using ok r by (simp_all add: glyph_ok_def ranges_ok_def)
  have len: "length (fs_components v) \<le> 8388608" using g by (simp add: glyphs_ok_def views_ok_def)
  let ?f = "\<lambda>child w. visit m (fs_glyphs v) (fs_components v) (path @ [gid]) child w"
  have safe: "\<exists>x w'. ?f c w = Some (x, w') \<and> x \<noteq> Inl FE_None" if "c < n" for c w using Suc.IH [OF that] by blast
  obtain x w' where x: "visit_components ?f (fs_components v) (gl_firstComponent r) (unat (gl_componentCount r)) 0
      \<lparr>gc_points = gl_pointCount r, gc_contours = gl_contourCount r, gc_levels = 0\<rparr> (w + 1) = Some (x, w')" "x \<noteq> Inl FE_None"
    "\<forall>cs'. x = Inr cs' \<longrightarrow> (\<forall>k < unat (gl_componentCount r). \<exists>w1 cc w2.
      ?f (word_at (fs_components v) ((unat (gl_firstComponent r) + unat (0 :: u32) + k) * 32)) w1 = Some (Inr cc, w2))"
    using visit_components_ok [where f = ?f and n = n, OF safe len rg ch] by blast
  have deep: "k < Suc m" if xc: "x = Inr cs" and q: "(component_of v ^^ k) (unat gid) q" for cs k q
  proof (cases k)
    case k: (Suc k')
    then obtain c where c: "component_of v (unat gid) c" "(component_of v ^^ k') c q"
      using q by (metis relpowp_Suc_E2)
    then obtain j where j: "j < unat (gl_componentCount r)" "c = unat (word_at (fs_components v) ((unat (gl_firstComponent r) + j) * 32))"
      using r by (auto simp: component_of_def)
    let ?c = "word_at (fs_components v) ((unat (gl_firstComponent r) + j) * 32)"
    obtain w1 cc w2 where "?f ?c w1 = Some (Inr cc, w2)" using x(3) xc j(1) by fastforce
    moreover have "?c < n" using ch j(1) by simp
    ultimately have "k' < m" using Suc.IH [of ?c "path @ [gid]" w1] c(2) j(2) by auto
    with k show ?thesis by simp
  qed simp
  show ?case
  proof (cases "w + 1 > 1048576 \<or> gid \<in> set path")
    case True
    then show ?thesis by auto
  next
    case False
    then have "visit (Suc m) (fs_glyphs v) (fs_components v) path gid w = Some (x, w')"
      unfolding visit.simps Let_def o(1) rd Option.bind.simps x(1) by simp
    with x(2) deep show ?thesis by blast
  qed
qed simp

lemma check_graph_ok:
  assumes g: "glyphs_ok v n"
  shows "\<forall>gid\<in>set gids. gid < unat n \<Longrightarrow>
    \<exists>e. check_graph v gids w = Some e \<and> (e = FE_None \<longrightarrow> (\<forall>gid\<in>set gids. \<forall>k q. (component_of v ^^ k) gid q \<longrightarrow> k \<le> 32))"
proof (induction gids arbitrary: w)
  case (Cons gid gids)
  have n: "unat n \<le> 4096" using g by (simp add: glyphs_ok_def word_le_nat_alt)
  have gid: "gid < unat n" using Cons.prems by simp
  then have u: "unat (of_nat gid :: u32) = gid" using n by (simp add: unat_of_nat)
  then have lt: "(of_nat gid :: u32) < n" using gid by (simp add: word_less_nat_alt)
  obtain x w' where x: "visit 33 (fs_glyphs v) (fs_components v) [] (of_nat gid) w = Some (x, w')" "x \<noteq> Inl FE_None"
    "\<forall>cs. x = Inr cs \<longrightarrow> (\<forall>k q. (component_of v ^^ k) gid q \<longrightarrow> k < 33)"
    using visit_ok [OF g lt, of 33 "[]" w] unfolding u by blast
  have d: "(32 :: nat) + 1 = 33" by simp
  have rd: "read_u32 (fs_glyphs v) (gid * 60) = Some (word_at (fs_glyphs v) (gid * 60))"
    using glyph_offset(2) [OF g lt] unfolding u by (simp add: read_u32_in)
  have lim: "length (fs_limits v) = 52" using g by (simp add: glyphs_ok_def)
  obtain e where e: "check_graph v gids w' = Some e" "e = FE_None \<longrightarrow> (\<forall>gid\<in>set gids. \<forall>k q. (component_of v ^^ k) gid q \<longrightarrow> k \<le> 32)"
    using Cons.IH [of w'] Cons.prems by auto
  show ?case
  proof (cases x)
    case (Inl er)
    then show ?thesis unfolding check_graph.simps d using x by simp
  next
    case (Inr cs)
    have "\<forall>k q. (component_of v ^^ k) gid q \<longrightarrow> k \<le> 32" using x(3) Inr by fastforce
    then show ?thesis unfolding check_graph.simps d using x Inr e by (simp add: rd lim read_u32_in)
  qed
qed simp

lemma check_contents_ok:
  assumes v: "views_ok v" and n: "n \<le> 4096" and gl: "length (fs_glyphs v) div 60 = unat n" and l: "length (fs_limits v) = 52"
  shows "\<exists>e. check_contents n v = Some e \<and>
    (e = FE_None \<longrightarrow> glyphs_ok v n \<and> cmap_ok (fs_cmap v) n \<and> (\<forall>gid < unat n. \<forall>k q. (component_of v ^^ k) gid q \<longrightarrow> k \<le> 32))"
proof -
  have fit: "\<forall>gid\<in>set [0..<unat n]. gid * 60 + 60 \<le> length (fs_glyphs v)"
  proof
    fix gid assume "gid \<in> set [0..<unat n]"
    then have "gid < length (fs_glyphs v) div 60" using gl by simp
    then have "gid * 60 + 60 \<le> length (fs_glyphs v) div 60 * 60" by simp
    also have "\<dots> \<le> length (fs_glyphs v)" by simp
    finally show "gid * 60 + 60 \<le> length (fs_glyphs v)" .
  qed
  let ?z = "\<lparr>usedPoints = 0, usedContours = 0, usedComponents = 0, usedPrograms = 0\<rparr>"
  obtain x where x: "check_glyphs v n [0..<unat n] ?z = Some x" "x \<noteq> Inl FE_None" "\<forall>u. x = Inr u \<longrightarrow> (\<forall>gid\<in>set [0..<unat n]. glyph_ok v n gid)"
    using check_glyphs_ok [OF v l fit] by blast
  have m12: "length (fs_cmap v) mod 12 = 0" using v by (simp add: views_ok_def)
  obtain e where e: "check_cmap (fs_cmap v) n (map (\<lambda>i. 12 * i) [0..<(length (fs_cmap v) + 11) div 12]) 0 = Some e"
    "e = FE_None \<longrightarrow> cmap_ok (fs_cmap v) n" using check_cmap_sorted [OF m12] by blast
  show ?thesis
  proof (cases x)
    case (Inl er)
    then show ?thesis using x by (simp add: check_contents_def)
  next
    case (Inr u)
    then have g: "glyphs_ok v n" using x(3) v n gl l by (simp add: glyphs_ok_def)
    obtain e' where e': "check_graph v [0..<unat n] 0 = Some e'"
      "e' = FE_None \<longrightarrow> (\<forall>gid\<in>set [0..<unat n]. \<forall>k q. (component_of v ^^ k) gid q \<longrightarrow> k \<le> 32)"
      using check_graph_ok [OF g, of "[0..<unat n]" 0] by auto
    show ?thesis unfolding check_contents_def x(1) Inr Option.bind.simps sum.case e(1) e'(1)
      using g e(2) e'(2) by auto
  qed
qed

subsection \<open>Validation\<close>

text \<open>What acceptance means.\<close>

definition font_valid :: "u8 list \<Rightarrow> bool" where
  "font_valid bs \<longleftrightarrow>
     184 \<le> length bs \<and> length bs \<le> 8388608 \<and> tiles bs 10 0 184 (length bs) \<and>
     (\<forall>j < 10. section_ok bs (section_strides ! j) j) \<and>
     glyphs_ok (resource_views bs) (word_at bs 20) \<and> word_at bs 20 \<noteq> 0 \<and>
     cmap_ok (fs_cmap (resource_views bs)) (word_at bs 20) \<and>
     (\<forall>gid < unat (word_at bs 20). \<forall>k q. (component_of (resource_views bs) ^^ k) gid q \<longrightarrow> k \<le> 32)"

lemma validate_ok: "\<exists>e. validate bs = Some e \<and> (e = FE_None \<longrightarrow> font_valid bs)"
proof -
  obtain e1 where e1: "check_header bs = Some e1" using check_header_safe by blast
  show ?thesis
  proof (cases "e1 = FE_None")
    case True
    note h = check_header_ok [OF e1 [unfolded True]]
    obtain e2 where e2: "check_directory bs = Some e2" using check_directory_safe [OF h(1,2)] by blast
    show ?thesis
    proof (cases "e2 = FE_None")
      case d: True
      note dir = e2 [unfolded d]
      note fv = font_views_ok [OF h(1,2) dir]
      obtain e3 where e3: "check_tables (word_at bs 20) (resource_views bs) = Some e3" using check_tables_safe [OF fv(2)] by blast
      show ?thesis
      proof (cases "e3 = FE_None")
        case t: True
        note ct = check_tables_ok [OF e3 [unfolded t]]
        obtain e4 where e4: "check_contents (word_at bs 20) (resource_views bs) = Some e4"
          "e4 = FE_None \<longrightarrow> glyphs_ok (resource_views bs) (word_at bs 20) \<and> cmap_ok (fs_cmap (resource_views bs)) (word_at bs 20) \<and>
            (\<forall>gid < unat (word_at bs 20). \<forall>k q. (component_of (resource_views bs) ^^ k) gid q \<longrightarrow> k \<le> 32)"
          using check_contents_ok [OF fv(2) h(5) ct] by blast
        have "validate bs = Some e4" by (simp add: validate_def e1 True h(3) e2 d fv(1) e3 t e4(1))
        moreover have "e4 = FE_None \<longrightarrow> font_valid bs"
          using e4(2) h check_directory_ok [OF h(1,2) dir] by (auto simp: font_valid_def)
        ultimately show ?thesis by blast
      qed (simp add: validate_def e1 True h(3) e2 d fv(1) e3)
    qed (simp add: validate_def e1 True h(3) e2)
  qed (simp add: validate_def e1)
qed

lemma bounded_chains_acyclic:
  assumes "\<And>k q. (R ^^ k) p q \<Longrightarrow> k \<le> (d :: nat)"
  shows "\<not> R\<^sup>+\<^sup>+ p p"
proof
  assume "R\<^sup>+\<^sup>+ p p"
  then obtain m where m: "0 < m" "(R ^^ m) p p" by (auto simp: tranclp_power)
  have "(R ^^ (m * j)) p p" for j
  proof (induction j)
    case (Suc j)
    then have "((R ^^ m) OO (R ^^ (m * j))) p p" using m(2) by blast
    then show ?case by (simp add: relpowp_add)
  qed simp
  from assms [OF this [of "Suc d"]] m(1) show False by (cases m) auto
qed

text \<open>C29. The validator is memory safe: on every byte string, of any length and content, it runs to the end and returns a
  verdict without reading outside the resource, nor outside the section whose records it is looking at.\<close>

theorem validate_memory_safe: "\<exists>e. validate bs = Some e"
  using validate_ok by blast

text \<open>C30. What acceptance guarantees: the ten sections tile the file from the end of the directory to its last byte,
  aligned and with zero padding; the point, contour, component and program ranges of every glyph lie in their
  sections, contour end points are increasing and the last one is the last point, components name glyphs of the font;
  the character map is sorted and stays below the number of glyphs; and the component graph has no cycle and no
  chain of more than \<open>32\<close> components.\<close>

theorem validate_sound:
  assumes "validate bs = Some FE_None"
  shows "font_valid bs \<and> (\<forall>gid < unat (word_at bs 20). \<not> (component_of (resource_views bs))\<^sup>+\<^sup>+ gid gid)"
proof -
  have v: "font_valid bs" using validate_ok [of bs] assms by auto
  have "\<not> (component_of (resource_views bs))\<^sup>+\<^sup>+ gid gid" if "gid < unat (word_at bs 20)" for gid
    by (rule bounded_chains_acyclic [of _ _ 32]) (use v that in \<open>auto simp: font_valid_def\<close>)
  with v show ?thesis by blast
qed

subsection \<open>Glyph lookup\<close>

definition in_mapping :: "u8 list \<Rightarrow> u32 \<Rightarrow> nat \<Rightarrow> bool" where
  "in_mapping cmap codepoint i \<longleftrightarrow> cm_first cmap i \<le> codepoint \<and> codepoint \<le> cm_last cmap i"

lemma mapping_read:
  assumes "i < length cmap div 12"
  shows "read_u32 cmap (i * 12) = Some (cm_first cmap i)" "read_u32 cmap (i * 12 + 4) = Some (cm_last cmap i)"
    "read_u32 cmap (i * 12 + 8) = Some (cm_glyph cmap i)"
proof -
  have "(i + 1) * 12 \<le> length cmap div 12 * 12" using assms by (intro mult_le_mono1) simp
  also have "\<dots> \<le> length cmap" by simp
  finally have "i * 12 + 12 \<le> length cmap" by simp
  then show "read_u32 cmap (i * 12) = Some (cm_first cmap i)" "read_u32 cmap (i * 12 + 4) = Some (cm_last cmap i)"
    "read_u32 cmap (i * 12 + 8) = Some (cm_glyph cmap i)"
    by (simp_all add: read_u32_in cm_first_def cm_last_def cm_glyph_def)
qed

text \<open>The search returns what the mapping that contains the code point says, and zero when there is none.\<close>

lemma mapping_order:
  assumes ok: "cmap_ok cmap n" and i: "i < length cmap div 12" "in_mapping cmap codepoint i" and j: "j < length cmap div 12"
  shows "codepoint < cm_first cmap j \<Longrightarrow> i < j" and "cm_last cmap j < codepoint \<Longrightarrow> j < i"
    and "in_mapping cmap codepoint j \<Longrightarrow> i = j"
proof -
  have sorted: "cm_last cmap a < cm_first cmap b" if "a < b" "b < length cmap div 12" for a b using ok that by (simp add: cmap_ok_def)
  have ord: "cm_first cmap a \<le> cm_last cmap a" if "a < length cmap div 12" for a using ok that by (simp add: cmap_ok_def mapping_ok_def)
  note nat = in_mapping_def word_le_nat_alt word_less_nat_alt
  show "i < j" if "codepoint < cm_first cmap j"
    using sorted [of j i] ord [OF j] i that unfolding nat by (cases i j rule: linorder_cases) auto
  show "j < i" if "cm_last cmap j < codepoint"
    using sorted [of i j] ord [OF j] i j that unfolding nat by (cases i j rule: linorder_cases) auto
  show "i = j" if "in_mapping cmap codepoint j"
    using sorted [of i j] sorted [of j i] i j that unfolding nat by (cases i j rule: linorder_cases) auto
qed

lemma glyph_search_spec:
  "cmap_ok cmap n \<Longrightarrow> high \<le> length cmap div 12 \<Longrightarrow>
    (\<forall>i. low \<le> i \<longrightarrow> i < high \<longrightarrow> in_mapping cmap codepoint i \<longrightarrow>
      glyph_search cmap codepoint low high = Some (cm_glyph cmap i + (codepoint - cm_first cmap i))) \<and>
    ((\<forall>i. low \<le> i \<longrightarrow> i < high \<longrightarrow> \<not> in_mapping cmap codepoint i) \<longrightarrow> glyph_search cmap codepoint low high = Some 0)"
proof (induction cmap codepoint low high rule: glyph_search.induct)
  case (1 cmap codepoint low high)
  show ?case
  proof (cases "low < high")
    case False
    then show ?thesis by (subst (1 2) glyph_search.simps) auto
  next
    case True
    define m where "m = low + (high - low) div 2"
    have m: "low \<le> m" "m < high" "m < length cmap div 12" using True 1(4) by (auto simp: m_def)
    note rd = mapping_read [OF m(3)]
    have st: "glyph_search cmap codepoint low high =
        (if codepoint < cm_first cmap m then glyph_search cmap codepoint low m
         else if codepoint > cm_last cmap m then glyph_search cmap codepoint (m + 1) high
         else Some (cm_glyph cmap m + (codepoint - cm_first cmap m)))"
      by (subst glyph_search.simps) (use True in \<open>simp add: m_def [symmetric] rd\<close>)
    have inm: "i < length cmap div 12" if "i < high" for i using that 1(4) by simp
    show ?thesis
    proof (cases "codepoint < cm_first cmap m")
      case lo: True
      have ih: "(\<forall>i. low \<le> i \<longrightarrow> i < m \<longrightarrow> in_mapping cmap codepoint i \<longrightarrow>
          glyph_search cmap codepoint low m = Some (cm_glyph cmap i + (codepoint - cm_first cmap i))) \<and>
        ((\<forall>i. low \<le> i \<longrightarrow> i < m \<longrightarrow> \<not> in_mapping cmap codepoint i) \<longrightarrow> glyph_search cmap codepoint low m = Some 0)"
        using 1(1) [OF True m_def rd(1,2) lo 1(3)] m(3) by simp
      have "i < m" if "i < high" "in_mapping cmap codepoint i" for i
        using mapping_order(1) [OF 1(3) inm [OF that(1)] that(2) m(3) lo] .
      with ih m(2) show ?thesis unfolding st using lo by auto
    next
      case nlo: False
      show ?thesis
      proof (cases "codepoint > cm_last cmap m")
        case hi: True
        have ih: "(\<forall>i. m + 1 \<le> i \<longrightarrow> i < high \<longrightarrow> in_mapping cmap codepoint i \<longrightarrow>
            glyph_search cmap codepoint (m + 1) high = Some (cm_glyph cmap i + (codepoint - cm_first cmap i))) \<and>
          ((\<forall>i. m + 1 \<le> i \<longrightarrow> i < high \<longrightarrow> \<not> in_mapping cmap codepoint i) \<longrightarrow> glyph_search cmap codepoint (m + 1) high = Some 0)"
          using 1(2) [OF True m_def rd(1,2) nlo hi 1(3) 1(4)] .
        have gt: "m + 1 \<le> i" if "i < high" "in_mapping cmap codepoint i" for i
          using mapping_order(2) [OF 1(3) inm [OF that(1)] that(2) m(3) hi] by simp
        have eq: "glyph_search cmap codepoint low high = glyph_search cmap codepoint (m + 1) high" using st nlo hi by simp
        have lift: "\<forall>i. m + 1 \<le> i \<longrightarrow> i < high \<longrightarrow> P i" if "\<forall>i. low \<le> i \<longrightarrow> i < high \<longrightarrow> P i" for P using that m(1) by simp
        show ?thesis unfolding eq using ih gt lift by blast
      next
        case False
        then have here: "in_mapping cmap codepoint m" using nlo by (simp add: in_mapping_def not_less)
        have "i = m" if "i < high" "in_mapping cmap codepoint i" for i
          using mapping_order(3) [OF 1(3) inm [OF that(1)] that(2) m(3) here] .
        moreover have eq: "glyph_search cmap codepoint low high = Some (cm_glyph cmap m + (codepoint - cm_first cmap m))"
          using st nlo False by simp
        ultimately show ?thesis unfolding eq using here m(1,2) by blast
      qed
    qed
  qed
qed

lemma mapped_below:
  assumes "mapping_ok cmap n i" and "in_mapping cmap codepoint i"
  shows "cm_glyph cmap i + (codepoint - cm_first cmap i) < n"
proof -
  have le: "cm_first cmap i \<le> codepoint" "cm_first cmap i \<le> cm_last cmap i" "codepoint \<le> cm_last cmap i" "cm_glyph cmap i < n"
    "cm_last cmap i - cm_first cmap i < n - cm_glyph cmap i"
    using assms by (auto simp: mapping_ok_def in_mapping_def)
  have "unat (codepoint - cm_first cmap i) < unat n - unat (cm_glyph cmap i)"
    using le by (simp add: unat_sub word_le_nat_alt word_less_nat_alt)
  then have s: "unat (cm_glyph cmap i) + unat (codepoint - cm_first cmap i) < unat n" by linarith
  moreover have "unat n < 2 ^ LENGTH(32)" by (rule unsigned_less)
  ultimately have "unat (cm_glyph cmap i + (codepoint - cm_first cmap i)) = unat (cm_glyph cmap i) + unat (codepoint - cm_first cmap i)"
    by (simp add: unat_word_ariths)
  with s show ?thesis by (simp add: word_less_nat_alt)
qed

lemma glyphFor_eq:
  assumes "font_valid bs"
  shows "glyphFor bs codepoint = glyph_search (fs_cmap (resource_views bs)) codepoint 0 (length (fs_cmap (resource_views bs)) div 12)"
proof -
  have "184 \<le> length bs" "sec_off bs 4 + sec_size bs 4 \<le> length bs" using assms by (auto simp: font_valid_def section_ok_def)
  from section_view_ok(1) [OF this(1) _ this(2)] show ?thesis by (simp add: glyphFor_def resource_views_def)
qed

text \<open>C31. Glyph lookup in an accepted font: the binary search of \<open>glyphFor\<close> terminates without reading outside the
  character map, returns for a code point inside a mapping the glyph that this mapping assigns to it and glyph \<open>0\<close> for every
  other code point, and the result is always the number of a glyph of the font.\<close>

theorem glyph_lookup_spec:
  assumes "validate bs = Some FE_None"
  shows "(\<exists>g. glyphFor bs codepoint = Some g \<and> g < word_at bs 20) \<and>
    (\<forall>i < length (fs_cmap (resource_views bs)) div 12. in_mapping (fs_cmap (resource_views bs)) codepoint i \<longrightarrow>
      glyphFor bs codepoint = Some (cm_glyph (fs_cmap (resource_views bs)) i + (codepoint - cm_first (fs_cmap (resource_views bs)) i))) \<and>
    ((\<forall>i < length (fs_cmap (resource_views bs)) div 12. \<not> in_mapping (fs_cmap (resource_views bs)) codepoint i) \<longrightarrow>
      glyphFor bs codepoint = Some 0)"
proof -
  let ?c = "fs_cmap (resource_views bs)"
  have v: "font_valid bs" using validate_ok [of bs] assms by auto
  then have c: "cmap_ok ?c (word_at bs 20)" and n: "0 < word_at bs 20" by (auto simp: font_valid_def word_gt_0)
  note sp = glyph_search_spec [OF c order_refl, of 0 codepoint, folded glyphFor_eq [OF v]]
  have "\<exists>g. glyphFor bs codepoint = Some g \<and> g < word_at bs 20"
  proof (cases "\<exists>i < length ?c div 12. in_mapping ?c codepoint i")
    case True
    then obtain i where i: "i < length ?c div 12" "in_mapping ?c codepoint i" by blast
    then have "mapping_ok ?c (word_at bs 20) i" using c by (simp add: cmap_ok_def)
    from mapped_below [OF this i(2)] sp i show ?thesis by auto
  next
    case False
    with sp n show ?thesis by auto
  qed
  with sp show ?thesis by simp
qed

subsection \<open>Encoding\<close>

text \<open>\<open>write_u32\<close>: the bytes of a word, and of a list of words.\<close>

definition word_bytes :: "u32 \<Rightarrow> u8 list" where
  "word_bytes w = map (\<lambda>i. ucast (drop_bit (8 * i) w)) [0..<4]"

definition encode :: "u32 list \<Rightarrow> u8 list" where
  "encode ws = concat (map word_bytes ws)"

lemma length_word_bytes [simp]: "length (word_bytes w) = 4"
  by (simp add: word_bytes_def)

lemma length_encode [simp]: "length (encode ws) = 4 * length ws"
  by (induction ws) (simp_all add: encode_def)

lemma word_at_bytes: "word_at (word_bytes w @ rest) 0 = w"
proof (rule bit_eqI)
  fix n assume "possible_bit TYPE(32 word) n"
  then have n: "n < 32" by simp
  have b: "(word_bytes w @ rest) ! 0 = ucast w" "(word_bytes w @ rest) ! 1 = ucast (drop_bit 8 w)"
    "(word_bytes w @ rest) ! 2 = ucast (drop_bit 16 w)" "(word_bytes w @ rest) ! 3 = ucast (drop_bit 24 w)"
    by (simp_all add: word_bytes_def nth_append numeral_eq_Suc upt_rec)
  have "bit (word_at (word_bytes w @ rest) 0) n \<longleftrightarrow>
      n < 8 \<and> bit w n \<or> 8 \<le> n \<and> n < 16 \<and> bit w n \<or> 16 \<le> n \<and> n < 24 \<and> bit w n \<or> 24 \<le> n \<and> n < 32 \<and> bit w n"
    using n unfolding word_at_def add_0 b
    by (auto simp: bit_or_iff bit_push_bit_iff bit_ucast_iff bit_drop_bit_eq)
  then show "bit (word_at (word_bytes w @ rest) 0) n = bit w n" using n by auto
qed

lemma word_at_drop: "k + 4 \<le> length xs \<Longrightarrow> word_at (xs @ ys) (length xs + p) = word_at ys p"
  by (simp add: word_at_def nth_append)

lemma word_at_encode: "i < length ws \<Longrightarrow> word_at (encode ws) (4 * i) = ws ! i"
proof (induction ws arbitrary: i)
  case (Cons w ws)
  show ?case
  proof (cases i)
    case 0
    then show ?thesis by (simp add: encode_def word_at_bytes)
  next
    case (Suc j)
    have "word_at (word_bytes w @ encode ws) (length (word_bytes w) + 4 * j) = word_at (encode ws) (4 * j)"
      by (rule word_at_drop [of 0]) simp
    then show ?thesis using Cons Suc by (simp add: encode_def)
  qed
qed simp

subsection \<open>A font\<close>

text \<open>The smallest resource with a character: one empty glyph, to which the space is mapped.\<close>

lemma read_encode: "p mod 4 = 0 \<Longrightarrow> p + 4 \<le> 4 * length ws \<Longrightarrow> read_u32 (encode ws) p = Some (ws ! (p div 4))"
proof -
  assume p: "p mod 4 = 0" "p + 4 \<le> 4 * length ws"
  then obtain i where "p = 4 * i" by auto
  with p show ?thesis by (simp add: read_u32_in word_at_encode)
qed

lemma encode_drop: "n mod 4 = 0 \<Longrightarrow> drop n (encode ws) = encode (drop (n div 4) ws)"
proof -
  assume "n mod 4 = 0"
  then obtain i where i: "n = 4 * i" by auto
  have "drop (4 * i) (encode ws) = encode (drop i ws)"
    by (induction i arbitrary: ws; case_tac ws) (simp_all add: encode_def)
  with i show ?thesis by simp
qed

lemma encode_take: "n mod 4 = 0 \<Longrightarrow> take n (encode ws) = encode (take (n div 4) ws)"
proof -
  assume "n mod 4 = 0"
  then obtain i where i: "n = 4 * i" by auto
  have "take (4 * i) (encode ws) = encode (take i ws)"
    by (induction i arbitrary: ws; case_tac ws) (simp_all add: encode_def)
  with i show ?thesis by simp
qed

definition demo_words :: "u32 list" where
  "demo_words =
     [0x31544655, 1, 64, 308, 10, 1, 1000, 800, 0xFFFFFF38, 0, 400, 0, 0, 0, 0, 0,
      1, 184, 60, 2, 244, 0, 3, 244, 0, 4, 244, 0, 5, 244, 12, 6, 256, 0, 7, 256, 0, 8, 256, 0, 9, 256, 0, 10, 256, 52,
      0, 0, 0, 0, 0, 0, 0, 0, 0, 0, 0, 0, 0, 0, 0,
      0x20, 0x20, 0,
      0, 0, 0, 0, 1, 0, 0, 0, 0, 0, 0, 0, 0]"

definition demo_font :: "u8 list" where "demo_font = encode demo_words"

lemma demo_length: "length demo_words = 77"
  by (simp add: demo_words_def)

lemma encode_Nil_iff: "encode ws = [] \<longleftrightarrow> ws = []"
  using length_encode [of ws] by (metis length_0_conv mult_eq_0_iff zero_neq_numeral)

lemma demo_header: "check_header demo_font = Some FE_None"
  unfolding check_header_def demo_font_def
  by (simp add: read_encode demo_length encode_Nil_iff) (simp add: demo_words_def coordinate_def i32_of_def)

lemma demo_directory_words:
  shows
    "demo_words ! 16 = 1" "demo_words ! 17 = 184" "demo_words ! 18 = 60" "demo_words ! 19 = 2" "demo_words ! 20 = 244"
    "demo_words ! 21 = 0" "demo_words ! 22 = 3" "demo_words ! 23 = 244" "demo_words ! 24 = 0" "demo_words ! 25 = 4"
    "demo_words ! 26 = 244" "demo_words ! 27 = 0" "demo_words ! 28 = 5" "demo_words ! 29 = 244" "demo_words ! 30 = 12"
    "demo_words ! 31 = 6" "demo_words ! 32 = 256" "demo_words ! 33 = 0" "demo_words ! 34 = 7" "demo_words ! 35 = 256"
    "demo_words ! 36 = 0" "demo_words ! 37 = 8" "demo_words ! 38 = 256" "demo_words ! 39 = 0" "demo_words ! 40 = 9"
    "demo_words ! 41 = 256" "demo_words ! 42 = 0" "demo_words ! 43 = 10" "demo_words ! 44 = 256" "demo_words ! 45 = 52"
  by (simp_all add: demo_words_def)

lemma demo_directory: "check_directory demo_font = Some FE_None"
  unfolding check_directory_def demo_font_def section_strides_def
  by (simp add: read_encode demo_length demo_directory_words Let_def aligned_def)

definition demo_views :: font_sections where
  "demo_views =
     \<lparr>fs_glyphs = encode (replicate 15 0), fs_points = encode [], fs_contours = encode [], fs_components = encode [], fs_cmap = encode [0x20, 0x20, 0], fs_cvt = encode [],
      fs_programs = encode [], fs_fontProgram = encode [], fs_prepProgram = encode [], fs_limits = encode [0, 0, 0, 0, 1, 0, 0, 0, 0, 0, 0, 0, 0]\<rparr>"

lemma demo_sections:
  "take 15 (drop 46 demo_words) = replicate 15 0" "take 3 (drop 61 demo_words) = [0x20, 0x20, 0]"
  "take 13 (drop 64 demo_words) = [0, 0, 0, 0, 1, 0, 0, 0, 0, 0, 0, 0, 0]"
  by code_simp+

lemma encode_Nil: "encode [] = []"
  by (simp add: encode_def)

lemma demo_section:
  assumes "i < 10" and "demo_words ! (16 + 3 * i + 1) = off" and "demo_words ! (16 + 3 * i + 2) = n"
    and "unat off + unat n \<le> 308" and "unat off mod 4 = 0" and "unat n mod 4 = 0"
  shows "section_view demo_font i = Some (encode (take (unat n div 4) (drop (unat off div 4) demo_words)))"
proof -
  have d: "(68 + i * 12) div 4 = 16 + 3 * i + 1" "(72 + i * 12) div 4 = 16 + 3 * i + 2" by simp_all
  have m: "(68 + i * 12) mod 4 = 0" "(72 + i * 12) mod 4 = 0" by presburger+
  from assms have "\<not> (308 < unat off \<or> 308 - unat off < unat n)" by linarith
  with assms d m show ?thesis
    unfolding section_view_def demo_font_def
    by (simp add: read_encode demo_length encode_Nil_iff encode_take encode_drop flip: length_0_conv)
qed

lemma demo_views: "font_views demo_font = Some demo_views"
proof -
  note entry = demo_section [OF _ refl refl]
  have "section_view demo_font 0 = Some (fs_glyphs demo_views)" "section_view demo_font 1 = Some (fs_points demo_views)"
    "section_view demo_font 2 = Some (fs_contours demo_views)" "section_view demo_font 3 = Some (fs_components demo_views)"
    "section_view demo_font 4 = Some (fs_cmap demo_views)" "section_view demo_font 5 = Some (fs_cvt demo_views)"
    "section_view demo_font 6 = Some (fs_programs demo_views)" "section_view demo_font 7 = Some (fs_fontProgram demo_views)"
    "section_view demo_font 8 = Some (fs_prepProgram demo_views)" "section_view demo_font 9 = Some (fs_limits demo_views)"
    using entry [of 0] entry [of 1] entry [of 2] entry [of 3] entry [of 4] entry [of 5] entry [of 6] entry [of 7] entry [of 8] entry [of 9]
    by (simp_all add: demo_directory_words demo_sections demo_views_def)
  then show ?thesis by (simp add: font_views_def)
qed

lemma demo_tables: "check_tables 1 demo_views = Some FE_None"
  unfolding check_tables_def demo_views_def
  by (simp add: read_encode upt_rec)

lemma demo_glyphs:
  "check_glyphs demo_views 1 [0] \<lparr>usedPoints = 0, usedContours = 0, usedComponents = 0, usedPrograms = 0\<rparr> =
    Some (Inr \<lparr>usedPoints = 0, usedContours = 0, usedComponents = 0, usedPrograms = 0\<rparr>)"
  by (simp add: check_glyph_def read_glyph_def check_extents_def check_counts_def range_ok_def demo_views_def read_encode coordinate_def i32_of_def)

lemma demo_graph: "check_graph demo_views [0] 0 = Some FE_None"
proof -
  have "visit (Suc 32) (fs_glyphs demo_views) (fs_components demo_views) [] 0 0 = Some (Inr \<lparr>gc_points = 0, gc_contours = 0, gc_levels = 0\<rparr>, 1)"
    unfolding visit.simps(2) by (simp add: demo_views_def read_encode)
  then show ?thesis by (simp add: demo_views_def read_encode)
qed

lemma demo_cmap: "check_cmap (fs_cmap demo_views) 1 [0] 0 = Some FE_None"
  by (simp add: demo_views_def read_encode)

lemma demo_shape:
  "length (fs_points demo_views) = 0" "length (fs_contours demo_views) = 0" "length (fs_components demo_views) = 0"
  "length (fs_programs demo_views) = 0" "length (fs_cmap demo_views) = 12" "fs_cmap demo_views \<noteq> []"
  by (simp_all add: demo_views_def encode_Nil_iff)

lemma demo_contents: "check_contents 1 demo_views = Some FE_None"
proof -
  have "[0..<unat (1 :: u32)] = [0]" "map (\<lambda>i. 12 * i) [0..<(12 + 11) div 12] = [0 :: nat]" by simp_all
  then show ?thesis
    unfolding check_contents_def by (simp only: demo_glyphs demo_cmap demo_graph demo_shape) simp
qed

lemma demo_count: "read_u32 demo_font 20 = Some 1" "word_at demo_font 20 = 1"
  using word_at_encode [of 5 demo_words] by (simp_all add: demo_font_def read_encode demo_length) (simp_all add: demo_words_def)

lemma demo_valid: "validate demo_font = Some FE_None"
  by (simp add: validate_def demo_header demo_directory demo_views demo_tables demo_contents demo_count)

theorem validate_sound_witness:
  "validate demo_font = Some FE_None \<and> font_valid demo_font \<and> \<not> (component_of (resource_views demo_font))\<^sup>+\<^sup>+ 0 0"
  using validate_sound [OF demo_valid] demo_valid demo_count by simp

theorem glyph_lookup_spec_witness: "\<exists>g. glyphFor demo_font 0x20 = Some g \<and> g < 1"
  using glyph_lookup_spec [OF demo_valid, of 32] demo_count by simp

end
