(* ===== verification/Ps2_Driver.thy ===== *)
theory Ps2_Driver
  imports Hid_Correct Ring_Buffers
begin

text \<open>
  The byte streams of the PS/2 controller, \<open>Drivers/input_i8042\<close>: the translation of scan codes, the framing of mouse packets, the
  reports that the driver makes of both, and the two loops of its pump thread that hand the reports to the HID driver.
  A function of the source that fills an output parameter and returns whether it did returns an option here.
\<close>

subsection \<open>Scan codes\<close>

text \<open>\<open>usage_kbd\<close>, as far as the driver treats a key by name.\<close>

abbreviation kbd_None :: u16 where "kbd_None \<equiv> 0"
abbreviation kbd_A :: u16 where "kbd_A \<equiv> 0x04"
abbreviation kbd_Num1 :: u16 where "kbd_Num1 \<equiv> 0x1E"
abbreviation kbd_F1 :: u16 where "kbd_F1 \<equiv> 0x3A"
abbreviation kbd_Pause :: u16 where "kbd_Pause \<equiv> 0x48"
abbreviation kbd_Kp1 :: u16 where "kbd_Kp1 \<equiv> 0x59"
abbreviation kbd_LeftControl :: u16 where "kbd_LeftControl \<equiv> 0xE0"
abbreviation kbd_RightGui :: u16 where "kbd_RightGui \<equiv> 0xE7"

definition Letter :: "char \<Rightarrow> u16" where
  "Letter c = kbd_A + (of_char c - of_char CHR ''A'')"

definition BuildBaseTable :: "u16 list" where
  "BuildBaseTable =
     set_each
       [(0x45, 0x53), (0x46, 0x47),                                                \<comment> \<open>NumLock, ScrollLock\<close>
        (0x47, kbd_Kp1 + 6), (0x48, kbd_Kp1 + 7), (0x49, kbd_Kp1 + 8), (0x4A, 0x56), \<comment> \<open>keypad 7 8 9 -\<close>
        (0x4B, kbd_Kp1 + 3), (0x4C, kbd_Kp1 + 4), (0x4D, kbd_Kp1 + 5), (0x4E, 0x57), \<comment> \<open>keypad 4 5 6 +\<close>
        (0x4F, kbd_Kp1), (0x50, kbd_Kp1 + 1), (0x51, kbd_Kp1 + 2),                 \<comment> \<open>keypad 1 2 3\<close>
        (0x52, 0x62), (0x53, 0x63),                                                \<comment> \<open>Kp0, KpPeriod\<close>
        (0x57, kbd_F1 + 10), (0x58, kbd_F1 + 11)]
     (set_run 0x3B kbd_F1 10
     (set_each
       [(0x0B, 0x27), (0x0C, 0x2D), (0x0D, 0x2E), (0x0E, 0x2A), (0x0F, 0x2B),      \<comment> \<open>Num0 to Tab\<close>
        (0x10, Letter CHR ''Q''), (0x11, Letter CHR ''W''), (0x12, Letter CHR ''E''), (0x13, Letter CHR ''R''), (0x14, Letter CHR ''T''),
        (0x15, Letter CHR ''Y''), (0x16, Letter CHR ''U''), (0x17, Letter CHR ''I''), (0x18, Letter CHR ''O''), (0x19, Letter CHR ''P''),
        (0x1A, 0x2F), (0x1B, 0x30), (0x1C, 0x28), (0x1D, kbd_LeftControl),         \<comment> \<open>brackets, Enter, LeftControl\<close>
        (0x1E, Letter CHR ''A''), (0x1F, Letter CHR ''S''), (0x20, Letter CHR ''D''), (0x21, Letter CHR ''F''), (0x22, Letter CHR ''G''),
        (0x23, Letter CHR ''H''), (0x24, Letter CHR ''J''), (0x25, Letter CHR ''K''), (0x26, Letter CHR ''L''),
        (0x27, 0x33), (0x28, 0x34), (0x29, 0x35), (0x2A, 0xE1), (0x2B, 0x31),      \<comment> \<open>Semicolon, Quote, Grave, LeftShift, Backslash\<close>
        (0x2C, Letter CHR ''Z''), (0x2D, Letter CHR ''X''), (0x2E, Letter CHR ''C''), (0x2F, Letter CHR ''V''), (0x30, Letter CHR ''B''),
        (0x31, Letter CHR ''N''), (0x32, Letter CHR ''M''),
        (0x33, 0x36), (0x34, 0x37), (0x35, 0x38), (0x36, 0xE5), (0x37, 0x55),      \<comment> \<open>Comma to KpMultiply\<close>
        (0x38, 0xE2), (0x39, 0x2C), (0x3A, 0x39)]                                  \<comment> \<open>LeftAlt, Space, CapsLock\<close>
     (set_run 0x02 kbd_Num1 9
     (set_each [(0x01, 0x29)] (replicate 128 kbd_None)))))"

definition LookupExtendedUsage :: "u8 \<Rightarrow> u16" where
  "LookupExtendedUsage scan =
     (if scan = 0x1C then 0x58 else if scan = 0x1D then 0xE4 else if scan = 0x35 then 0x54 else if scan = 0x37 then 0x46
      else if scan = 0x38 then 0xE6 else if scan = 0x46 then 0x9B else if scan = 0x47 then 0x4A else if scan = 0x48 then 0x52
      else if scan = 0x49 then 0x4B else if scan = 0x4B then 0x50 else if scan = 0x4D then 0x4F else if scan = 0x4F then 0x4D
      else if scan = 0x50 then 0x51 else if scan = 0x51 then 0x4E else if scan = 0x52 then 0x49 else if scan = 0x53 then 0x4C
      else if scan = 0x5B then 0xE3 else if scan = 0x5C then 0xE7 else if scan = 0x5D then 0x65 else kbd_None)"

record KeyTransition =
  kt_usage :: u16
  kt_isBreak :: bool

record KeyTranslator =
  m_extendedPending :: bool
  m_pauseBytesLeft :: int

definition new_translator :: KeyTranslator where
  "new_translator = \<lparr>m_extendedPending = False, m_pauseBytesLeft = 0\<rparr>"

definition FeedPauseByte :: "KeyTranslator \<Rightarrow> KeyTransition option \<times> KeyTranslator" where
  "FeedPauseByte tr =
     (let n = m_pauseBytesLeft tr - 1; tr1 = tr\<lparr>m_pauseBytesLeft := n\<rparr> in
      if n > 0 then (None, tr1) else (Some \<lparr>kt_usage = kbd_Pause, kt_isBreak = False\<rparr>, tr1))"

definition KeyTranslator_Feed :: "u8 \<Rightarrow> KeyTranslator \<Rightarrow> KeyTransition option \<times> KeyTranslator" where
  "KeyTranslator_Feed byte tr =
     (if byte = 0xFA \<or> byte = 0xFE \<or> byte = 0xEE \<or> byte = 0x00 \<or> byte = 0xFF then (None, tr)
      else if m_pauseBytesLeft tr > 0 then FeedPauseByte tr
      else if byte = 0xE1 then (None, tr\<lparr>m_pauseBytesLeft := 5\<rparr>)
      else if byte = 0xE0 then (None, tr\<lparr>m_extendedPending := True\<rparr>)
      else
        (let extended = m_extendedPending tr; tr1 = tr\<lparr>m_extendedPending := False\<rparr>;
             isBreak = (byte AND 0x80 \<noteq> 0); scan = byte AND 0x7F;
             usage = (if extended then LookupExtendedUsage scan else BuildBaseTable ! unat scan) in
         if usage = kbd_None then (None, tr1) else (Some \<lparr>kt_usage = usage, kt_isBreak = isBreak\<rparr>, tr1)))"

subsection \<open>Keyboard reports\<close>

abbreviation kKeySlots :: nat where "kKeySlots \<equiv> 10"

definition kKeyboardReportDescriptor :: "u8 list" where
  "kKeyboardReportDescriptor =
     [0x05, 0x01, 0x09, 0x06, 0xA1, 0x01, 0x05, 0x07, 0x19, 0xE0, 0x29, 0xE7, 0x15, 0x00, 0x25, 0x01, 0x75, 0x01, 0x95, 0x08, 0x81, 0x02,
      0x95, 0x01, 0x75, 0x08, 0x81, 0x03, 0x15, 0x00, 0x26, 0xFF, 0x00, 0x19, 0x00, 0x29, 0xFF, 0x75, 0x08, 0x95, of_nat kKeySlots, 0x81, 0x00,
      0xC0]"

record KeyboardReportBuilder =
  m_modifiers :: u8
  m_slots :: "u16 list"

definition new_builder :: KeyboardReportBuilder where
  "new_builder = \<lparr>m_modifiers = 0, m_slots = replicate kKeySlots 0\<rparr>"

definition ModifierBit :: "u16 \<Rightarrow> u8" where
  "ModifierBit usage = (if usage < kbd_LeftControl \<or> usage > kbd_RightGui then 0 else push_bit (unat (usage - kbd_LeftControl)) 1)"

text \<open>The loops over the slots stop at the first slot with a given content.\<close>

fun first_slot :: "u16 \<Rightarrow> u16 list \<Rightarrow> nat option" where
  "first_slot v [] = None"
| "first_slot v (s # ss) = (if s \<noteq> v then map_option Suc (first_slot v ss) else Some 0)"

definition Apply :: "KeyTransition \<Rightarrow> KeyboardReportBuilder \<Rightarrow> bool \<times> KeyboardReportBuilder" where
  "Apply transition b =
     (let modifierBit = ModifierBit (kt_usage transition) in
      if modifierBit \<noteq> 0 then
        (let updated = (if kt_isBreak transition then m_modifiers b AND NOT modifierBit else m_modifiers b OR modifierBit) in
         if updated = m_modifiers b then (False, b) else (True, b\<lparr>m_modifiers := updated\<rparr>))
      else
        case first_slot (kt_usage transition) (m_slots b) of
          Some i \<Rightarrow> if \<not> kt_isBreak transition then (False, b) else (True, b\<lparr>m_slots := (m_slots b)[i := 0]\<rparr>)
        | None \<Rightarrow>
            if kt_isBreak transition then (False, b)
            else case first_slot 0 (m_slots b) of
                   Some i \<Rightarrow> (True, b\<lparr>m_slots := (m_slots b)[i := kt_usage transition]\<rparr>)
                 | None \<Rightarrow> (False, b))"

definition Release :: "u16 \<Rightarrow> KeyboardReportBuilder \<Rightarrow> KeyboardReportBuilder" where
  "Release usage b = b\<lparr>m_slots := map (\<lambda>s. if s = usage then 0 else s) (m_slots b)\<rparr>"

definition Pack :: "KeyboardReportBuilder \<Rightarrow> u8 list" where
  "Pack b = m_modifiers b # 0 # map ucast (m_slots b)"

subsection \<open>Mouse packets\<close>

datatype MousePacketMode = Standard3Byte | IntelliMouse4Byte | IntelliMouseExplorer4Byte

record MousePacketDecoder =
  m_mode :: MousePacketMode
  m_bytes :: "u8 list"
  m_byteIndex :: nat

definition new_decoder :: MousePacketDecoder where
  "new_decoder = \<lparr>m_mode = Standard3Byte, m_bytes = [0, 0, 0, 0], m_byteIndex = 0\<rparr>"

definition SetMode :: "MousePacketMode \<Rightarrow> MousePacketDecoder \<Rightarrow> MousePacketDecoder" where
  "SetMode mode d = d\<lparr>m_mode := mode, m_byteIndex := 0\<rparr>"

definition packetLength :: "MousePacketMode \<Rightarrow> nat" where
  "packetLength mode = (if mode = Standard3Byte then 3 else 4)"

definition make_packet :: "MousePacketMode \<Rightarrow> u8 list \<Rightarrow> MousePacket" where
  "make_packet mode bs =
     (let b0 = bs ! 0;
          x = (ucast (bs ! 1) :: u16) - (push_bit 4 (ucast b0) AND 0x100);
          rawDy = (ucast (bs ! 2) :: u16) - (push_bit 3 (ucast b0) AND 0x100);
          p = \<lparr>dx = scast x, dy = scast (- rawDy), wheel = 0, buttons = b0 AND 0x07, isAbsolute = False\<rparr> in
      case mode of
        Standard3Byte \<Rightarrow> p
      | IntelliMouse4Byte \<Rightarrow> p\<lparr>wheel := bs ! 3\<rparr>
      | IntelliMouseExplorer4Byte \<Rightarrow>
          p\<lparr>wheel := ((bs ! 3 AND 0x0F) XOR 0x08) - 0x08,
            buttons := buttons p OR (if bs ! 3 AND 0x10 \<noteq> 0 then 0x08 else 0) OR (if bs ! 3 AND 0x20 \<noteq> 0 then 0x10 else 0)\<rparr>)"

definition MousePacketDecoder_Feed :: "u8 \<Rightarrow> MousePacketDecoder \<Rightarrow> MousePacket option \<times> MousePacketDecoder" where
  "MousePacketDecoder_Feed byte d =
     (if m_byteIndex d = 0 then
        (if byte AND 0x08 = 0 then (None, d) else (None, d\<lparr>m_bytes := (m_bytes d)[0 := byte], m_byteIndex := 1\<rparr>))
      else
        (let d1 = d\<lparr>m_bytes := (m_bytes d)[m_byteIndex d := byte], m_byteIndex := m_byteIndex d + 1\<rparr> in
         if m_byteIndex d1 < packetLength (m_mode d) then (None, d1)
         else
           (let d2 = d1\<lparr>m_byteIndex := 0\<rparr> in
            if m_bytes d2 ! 0 AND 0xC0 \<noteq> 0 then (None, d2) else (Some (make_packet (m_mode d) (m_bytes d2)), d2))))"

definition kMouseReportDescriptor :: "u8 list" where
  "kMouseReportDescriptor =
     [0x05, 0x01, 0x09, 0x02, 0xA1, 0x01, 0x09, 0x01, 0xA1, 0x00, 0x05, 0x09, 0x19, 0x01, 0x29, 0x05, 0x15, 0x00, 0x25, 0x01, 0x95, 0x05,
      0x75, 0x01, 0x81, 0x02, 0x95, 0x01, 0x75, 0x03, 0x81, 0x03, 0x05, 0x01, 0x09, 0x30, 0x09, 0x31, 0x15, 0x81, 0x25, 0x7F, 0x75, 0x08,
      0x95, 0x02, 0x81, 0x06, 0x09, 0x38, 0x95, 0x01, 0x81, 0x06, 0xC0, 0xC0]"

definition ClampToReportAxis :: "u32 \<Rightarrow> u8" where
  "ClampToReportAxis value = (if sint value > 127 then 127 else if sint value < - 127 then word_of_int (- 127) else ucast value)"

definition PackMouseReport :: "MousePacket \<Rightarrow> u8 list" where
  "PackMouseReport packet = [buttons packet AND 0x1F, ClampToReportAxis (dx packet), ClampToReportAxis (dy packet), wheel packet]"

subsection \<open>The pump\<close>

record KeyboardDeviceContext =
  kc_bytes :: "u8 ring"
  kc_translator :: KeyTranslator
  kc_builder :: KeyboardReportBuilder
  kc_format :: ReportFormat
  kc_decoder :: DecoderState

record PointerDeviceContext =
  pc_bytes :: "u8 ring"
  pc_decoder :: MousePacketDecoder
  pc_format :: ReportFormat
  pc_hidState :: DecoderState

text \<open>The body of the keyboard loop for one byte. \<open>now\<close> gives the time of each push; the second report of the Pause key has
  times of its own.\<close>

definition pump_key ::
  "nat \<Rightarrow> hid \<Rightarrow> nat option \<Rightarrow> (nat \<Rightarrow> nat \<Rightarrow> int) \<Rightarrow> u8 \<Rightarrow> KeyboardDeviceContext \<Rightarrow> input_mgr \<times> wait_sys \<Rightarrow>
   (KeyboardDeviceContext \<times> input_mgr \<times> wait_sys) option" where
  "pump_key me h device now byte ctx st =
     (case KeyTranslator_Feed byte (kc_translator ctx) of
        (None, tr) \<Rightarrow> Some (ctx\<lparr>kc_translator := tr\<rparr>, st)
      | (Some transition, tr) \<Rightarrow>
          (case Apply transition (kc_builder ctx) of
             (False, b) \<Rightarrow> Some (ctx\<lparr>kc_translator := tr, kc_builder := b\<rparr>, st)
           | (True, b) \<Rightarrow>
               (case SubmitReport me h device (now 0) (kc_format ctx) (kc_decoder ctx) (Pack b) st of
                  None \<Rightarrow> None
                | Some (ds1, st1) \<Rightarrow>
                    if kt_usage transition = kbd_Pause \<and> \<not> kt_isBreak transition
                    then (let b1 = Release (kt_usage transition) b in
                          case SubmitReport me h device (now 1) (kc_format ctx) ds1 (Pack b1) st1 of
                            None \<Rightarrow> None
                          | Some (ds2, st2) \<Rightarrow> Some (ctx\<lparr>kc_translator := tr, kc_builder := b1, kc_decoder := ds2\<rparr>, st2))
                    else Some (ctx\<lparr>kc_translator := tr, kc_builder := b, kc_decoder := ds1\<rparr>, st1))))"

definition pump_aux ::
  "nat \<Rightarrow> hid \<Rightarrow> nat option \<Rightarrow> (nat \<Rightarrow> int) \<Rightarrow> u8 \<Rightarrow> PointerDeviceContext \<Rightarrow> input_mgr \<times> wait_sys \<Rightarrow>
   (PointerDeviceContext \<times> input_mgr \<times> wait_sys) option" where
  "pump_aux me h device now byte ctx st =
     (case MousePacketDecoder_Feed byte (pc_decoder ctx) of
        (None, d) \<Rightarrow> Some (ctx\<lparr>pc_decoder := d\<rparr>, st)
      | (Some packet, d) \<Rightarrow>
          (case SubmitReport me h device now (pc_format ctx) (pc_hidState ctx) (PackMouseReport packet) st of
             None \<Rightarrow> None
           | Some (ds, st1) \<Rightarrow> Some (ctx\<lparr>pc_decoder := d, pc_hidState := ds\<rparr>, st1)))"

text \<open>The loops. \<open>i\<close> counts the bytes, so that every push has its time.\<close>

partial_function (option) drain_keys ::
  "nat \<Rightarrow> hid \<Rightarrow> nat option \<Rightarrow> (nat \<Rightarrow> nat \<Rightarrow> nat \<Rightarrow> int) \<Rightarrow> nat \<Rightarrow> KeyboardDeviceContext \<Rightarrow> input_mgr \<times> wait_sys \<Rightarrow>
   (KeyboardDeviceContext \<times> input_mgr \<times> wait_sys) option" where
  "drain_keys me h device now i ctx st =
     (case ByteRing_Pop (kc_bytes ctx) of
        None \<Rightarrow> Some (ctx, st)
      | Some (byte, r) \<Rightarrow>
          (case pump_key me h device (now i) byte (ctx\<lparr>kc_bytes := r\<rparr>) st of
             None \<Rightarrow> None
           | Some (ctx1, st1) \<Rightarrow> drain_keys me h device now (Suc i) ctx1 st1))"

partial_function (option) drain_packets ::
  "nat \<Rightarrow> hid \<Rightarrow> nat option \<Rightarrow> (nat \<Rightarrow> nat \<Rightarrow> int) \<Rightarrow> nat \<Rightarrow> PointerDeviceContext \<Rightarrow> input_mgr \<times> wait_sys \<Rightarrow>
   (PointerDeviceContext \<times> input_mgr \<times> wait_sys) option" where
  "drain_packets me h device now i ctx st =
     (case ByteRing_Pop (pc_bytes ctx) of
        None \<Rightarrow> Some (ctx, st)
      | Some (byte, r) \<Rightarrow>
          (case pump_aux me h device (now i) byte (ctx\<lparr>pc_bytes := r\<rparr>) st of
             None \<Rightarrow> None
           | Some (ctx1, st1) \<Rightarrow> drain_packets me h device now (Suc i) ctx1 st1))"

text \<open>\<open>device\<close> is the device, with the context of its extension; the first result tells whether a byte was consumed.\<close>

definition DrainKeyboard ::
  "nat \<Rightarrow> hid \<Rightarrow> (nat \<Rightarrow> nat \<Rightarrow> nat \<Rightarrow> int) \<Rightarrow> (nat \<times> KeyboardDeviceContext option) option \<Rightarrow> input_mgr \<times> wait_sys \<Rightarrow>
   (bool \<times> (nat \<times> KeyboardDeviceContext option) option \<times> input_mgr \<times> wait_sys) option" where
  "DrainKeyboard me h now device st =
     (case device of
        Some (dev, Some ctx) \<Rightarrow>
          map_option (\<lambda>(ctx1, st1). (\<not> ByteRing_Empty (kc_bytes ctx), Some (dev, Some ctx1), st1)) (drain_keys me h (Some dev) now 0 ctx st)
      | _ \<Rightarrow> Some (False, device, st))"

definition DrainAux ::
  "nat \<Rightarrow> hid \<Rightarrow> (nat \<Rightarrow> nat \<Rightarrow> int) \<Rightarrow> (nat \<times> PointerDeviceContext option) option \<Rightarrow> input_mgr \<times> wait_sys \<Rightarrow>
   (bool \<times> (nat \<times> PointerDeviceContext option) option \<times> input_mgr \<times> wait_sys) option" where
  "DrainAux me h now device st =
     (case device of
        Some (dev, Some ctx) \<Rightarrow>
          map_option (\<lambda>(ctx1, st1). (\<not> ByteRing_Empty (pc_bytes ctx), Some (dev, Some ctx1), st1)) (drain_packets me h (Some dev) now 0 ctx st)
      | _ \<Rightarrow> Some (False, device, st))"

end
