(* ===== verification/Ps2_Correct.thy ===== *)
theory Ps2_Correct
  imports Ps2_Driver
begin

text \<open>
  What the PS/2 driver promises. Scan codes decode to the key transitions that produced them, whatever protocol bytes lie
  between them; the keyboard pump turns the transitions into reports whose events press and release every key in turn and agree
  with the keys held; and mouse packets reach the input manager with their motion, buttons and wheel.
\<close>

subsection \<open>Scan codes\<close>

datatype set1_key = BaseKey u8 | ExtKey u8 | PauseKey

fun key_usage :: "set1_key \<Rightarrow> u16" where
  "key_usage (BaseKey c) = (if c < 0x80 then BuildBaseTable ! unat c else 0)"
| "key_usage (ExtKey c) = (if c < 0x80 then LookupExtendedUsage c else 0)"
| "key_usage PauseKey = kbd_Pause"

definition code_byte :: "u8 \<Rightarrow> bool \<Rightarrow> u8" where
  "code_byte c isBreak = (if isBreak then c OR 0x80 else c)"

text \<open>The bytes a keyboard sends when a key goes down or up. Pause has no release.\<close>

fun set1_bytes :: "set1_key \<times> bool \<Rightarrow> u8 list" where
  "set1_bytes (BaseKey c, isBreak) = [code_byte c isBreak]"
| "set1_bytes (ExtKey c, isBreak) = [0xE0, code_byte c isBreak]"
| "set1_bytes (PauseKey, isBreak) = [0xE1, 0x1D, 0x45, 0xE1, 0x9D, 0xC5]"

definition sendable :: "set1_key \<times> bool \<Rightarrow> bool" where
  "sendable k \<longleftrightarrow> key_usage (fst k) \<noteq> kbd_None \<and> (fst k = PauseKey \<longrightarrow> \<not> snd k)"

definition transition_of :: "set1_key \<times> bool \<Rightarrow> KeyTransition" where
  "transition_of k = \<lparr>kt_usage = key_usage (fst k), kt_isBreak = snd k\<rparr>"

definition protocol_byte :: "u8 \<Rightarrow> bool" where
  "protocol_byte byte \<longleftrightarrow> byte = 0xFA \<or> byte = 0xFE \<or> byte = 0xEE \<or> byte = 0x00 \<or> byte = 0xFF"

fun feed_all :: "u8 list \<Rightarrow> KeyTranslator \<Rightarrow> KeyTransition list \<times> KeyTranslator" where
  "feed_all [] tr = ([], tr)"
| "feed_all (byte # bs) tr =
     (case KeyTranslator_Feed byte tr of (out, tr1) \<Rightarrow>
       case feed_all bs tr1 of (ts, tr2) \<Rightarrow> ((case out of None \<Rightarrow> ts | Some t \<Rightarrow> t # ts), tr2))"

lemma feed_all_append:
  "feed_all (xs @ ys) tr = (case feed_all xs tr of (ts, tr1) \<Rightarrow> case feed_all ys tr1 of (us, tr2) \<Rightarrow> (ts @ us, tr2))"
  by (induction xs arbitrary: tr) (auto split: prod.splits option.splits)

lemma feed_all_clean: "feed_all bs tr = feed_all (filter (\<lambda>x. \<not> protocol_byte x) bs) tr"
  by (induction bs arbitrary: tr) (auto simp: KeyTranslator_Feed_def protocol_byte_def)

text \<open>The table leaves the codes free that would be read as a prefix or a protocol byte.\<close>

lemma base_codes:
  "list_all (\<lambda>n. BuildBaseTable ! n = 0 \<or> list_all (\<lambda>br. let b = code_byte (of_nat n) br in
      \<not> protocol_byte b \<and> b \<noteq> 0xE0 \<and> b \<noteq> 0xE1 \<and> (b AND 0x80 \<noteq> 0) = br \<and> unat (b AND 0x7F) = n) [False, True]) [0..<128]"
  by code_simp

lemma ext_codes:
  "list_all (\<lambda>n. LookupExtendedUsage (of_nat n) = 0 \<or> list_all (\<lambda>br. let b = code_byte (of_nat n) br in
      \<not> protocol_byte b \<and> b \<noteq> 0xE0 \<and> b \<noteq> 0xE1 \<and> (b AND 0x80 \<noteq> 0) = br \<and> unat (b AND 0x7F) = n) [False, True]) [0..<128]"
  by code_simp

lemma code_byte_ok:
  assumes "c < 0x80" and "BuildBaseTable ! unat c \<noteq> 0 \<or> LookupExtendedUsage c \<noteq> 0"
  shows "\<not> protocol_byte (code_byte c br)" "code_byte c br \<noteq> 0xE0" "code_byte c br \<noteq> 0xE1"
    "(code_byte c br AND 0x80 \<noteq> 0) = br" "code_byte c br AND 0x7F = c"
proof -
  have n: "unat c < 128" using assms(1) by (simp add: word_less_nat_alt)
  then have "unat c \<in> set [0..<128]" by simp
  with base_codes ext_codes assms(2) have k: "\<not> protocol_byte (code_byte c br) \<and> code_byte c br \<noteq> 0xE0 \<and> code_byte c br \<noteq> 0xE1 \<and>
      (code_byte c br AND 0x80 \<noteq> 0) = br \<and> unat (code_byte c br AND 0x7F) = unat c"
    unfolding list_all_iff Let_def by (cases br) force+
  then show "\<not> protocol_byte (code_byte c br)" "code_byte c br \<noteq> 0xE0" "code_byte c br \<noteq> 0xE1"
    "(code_byte c br AND 0x80 \<noteq> 0) = br" "code_byte c br AND 0x7F = c"
    by (simp_all add: word_unat_eq_iff)
qed

lemma feed_key:
  assumes "sendable k"
  shows "feed_all (set1_bytes k) new_translator = ([transition_of k], new_translator)"
proof (cases k rule: set1_bytes.cases)
  case (1 c br)
  then have c: "c < 0x80" "BuildBaseTable ! unat c \<noteq> 0" using assms by (auto simp: sendable_def split: if_splits)
  note b = code_byte_ok [OF c(1) disjI1 [OF c(2)], of br]
  show ?thesis using 1 c b by (simp add: KeyTranslator_Feed_def new_translator_def transition_of_def Let_def flip: protocol_byte_def)
next
  case (2 c br)
  then have c: "c < 0x80" "LookupExtendedUsage c \<noteq> 0" using assms by (auto simp: sendable_def split: if_splits)
  note b = code_byte_ok [OF c(1) disjI2 [OF c(2)], of br]
  have e: "KeyTranslator_Feed 0xE0 new_translator = (None, new_translator\<lparr>m_extendedPending := True\<rparr>)"
    by (simp add: KeyTranslator_Feed_def new_translator_def)
  show ?thesis using 2 c b by (simp add: e) (simp add: KeyTranslator_Feed_def new_translator_def transition_of_def Let_def flip: protocol_byte_def)
next
  case (3 br)
  then show ?thesis using assms
    by (simp add: KeyTranslator_Feed_def FeedPauseByte_def new_translator_def transition_of_def sendable_def Let_def)
qed

text \<open>C9. Scan codes decode to what was typed: for any sequence of keys going down and up, the bytes a keyboard sends for them
  in scan code set 1, with acknowledge, resend, echo and error bytes of the protocol anywhere between and inside the codes, are
  translated to exactly those transitions in their order, and the translator is idle again at the end.\<close>

theorem scan_code_round_trip:
  assumes "list_all sendable ks" and "filter (\<lambda>x. \<not> protocol_byte x) bs = concat (map set1_bytes ks)"
  shows "feed_all bs new_translator = (map transition_of ks, new_translator)"
proof -
  have "feed_all (concat (map set1_bytes ks)) new_translator = (map transition_of ks, new_translator)"
    using assms(1) by (induction ks) (simp_all add: feed_all_append feed_key)
  then show ?thesis by (subst feed_all_clean) (simp add: assms(2))
qed

theorem scan_code_round_trip_witness:
  "feed_all [0x1E, 0xFA, 0xE0, 0xFE, 0x1D, 0x9E, 0xE1, 0x1D, 0x45, 0xE1, 0x9D, 0xC5] new_translator =
    (map transition_of [(BaseKey 0x1E, False), (ExtKey 0x1D, False), (BaseKey 0x1E, True), (PauseKey, False)], new_translator)"
proof -
  let ?ks = "[(BaseKey 0x1E, False), (ExtKey 0x1D, False), (BaseKey 0x1E, True), (PauseKey, False)]"
  have "list_all sendable ?ks" by code_simp
  from scan_code_round_trip [OF this, of "[0x1E, 0xFA, 0xE0, 0xFE, 0x1D, 0x9E, 0xE1, 0x1D, 0x45, 0xE1, 0x9D, 0xC5]"]
  show ?thesis by (simp add: protocol_byte_def code_byte_def)
qed

subsection \<open>The keys held\<close>

definition held :: "KeyboardReportBuilder \<Rightarrow> u16 set" where
  "held b = {u. m_modifiers b AND ModifierBit u \<noteq> 0} \<union> (set (m_slots b) - {0})"

text \<open>A builder: ten slots, no key twice, and only keys whose usage fits a byte of the report and is not a modifier.\<close>

definition builder_ok :: "KeyboardReportBuilder \<Rightarrow> bool" where
  "builder_ok b \<longleftrightarrow> length (m_slots b) = kKeySlots \<and> distinct (filter (\<lambda>s. s \<noteq> 0) (m_slots b)) \<and>
     (\<forall>s\<in>set (m_slots b). ModifierBit s = 0 \<and> s < 256)"

text \<open>What a transition does to a set of held keys.\<close>

definition ordinary :: "u16 set \<Rightarrow> u16 set" where
  "ordinary H = {u \<in> H. ModifierBit u = 0}"

definition hold :: "KeyTransition \<Rightarrow> u16 set \<Rightarrow> u16 set" where
  "hold t H = (if kt_isBreak t then H - {kt_usage t}
     else if ModifierBit (kt_usage t) \<noteq> 0 \<or> kt_usage t \<in> H \<or> card (ordinary H) < kKeySlots then insert (kt_usage t) H else H)"

lemma new_builder_ok: "builder_ok new_builder" and held_new: "held new_builder = {}"
  by (auto simp: builder_ok_def new_builder_def held_def ModifierBit_def)

lemma modifier_bit_exp: "ModifierBit u \<noteq> 0 \<Longrightarrow> \<exists>n < 8. ModifierBit u = push_bit n 1 \<and> u = 0xE0 + of_nat n"
proof -
  assume a: "ModifierBit u \<noteq> 0"
  then have r: "0xE0 \<le> u" "u \<le> 0xE7" by (auto simp: ModifierBit_def not_less split: if_splits)
  then have "unat u \<le> 0xE7" "0xE0 \<le> unat u" by (simp_all add: word_le_nat_alt)
  then have n: "unat (u - 0xE0) < 8" using r(1) by (simp add: unat_sub)
  moreover have "u = 0xE0 + of_nat (unat (u - 0xE0))" by simp
  moreover have "\<not> u < 0xE0" "\<not> 0xE7 < u" using r by (simp_all add: not_less)
  then have "ModifierBit u = push_bit (unat (u - 0xE0)) 1" by (simp add: ModifierBit_def)
  ultimately show ?thesis by blast
qed

lemma modifier_bit_at: "n < 8 \<Longrightarrow> ModifierBit (0xE0 + of_nat n) = push_bit n 1"
proof -
  assume "n < 8"
  then have "n \<in> set [0..<8]" by simp
  moreover have "list_all (\<lambda>n. ModifierBit (0xE0 + of_nat n) = push_bit n 1) [0..<8]" by code_simp
  ultimately show ?thesis unfolding list_all_iff by blast
qed

lemma bit_u8_single: "n < 8 \<Longrightarrow> bit (push_bit n 1 :: u8) i \<longleftrightarrow> i = n"
  by (auto simp: bit_exp_iff)

lemma and_single: "n < 8 \<Longrightarrow> (x AND push_bit n 1 \<noteq> (0 :: u8)) = bit x n"
proof -
  assume n: "n < 8"
  have "x AND push_bit n 1 = (if bit x n then push_bit n 1 else 0)"
    by (rule bit_word_eqI) (use n in \<open>auto simp: bit_and_iff bit_u8_single simp del: push_bit_of_1\<close>)
  moreover have "push_bit n 1 \<noteq> (0 :: u8)" using bit_u8_single [OF n, of n] by (auto simp del: push_bit_of_1)
  ultimately show ?thesis by (simp del: push_bit_of_1)
qed

lemma held_modifier: "n < 8 \<Longrightarrow> builder_ok b \<Longrightarrow> 0xE0 + of_nat n \<in> held b \<longleftrightarrow> bit (m_modifiers b) n"
proof -
  assume n: "n < 8" and b: "builder_ok b"
  have "0xE0 + of_nat n \<notin> set (m_slots b)" using b modifier_bit_at [OF n] bit_u8_single [OF n, of n]
    by (auto simp: builder_ok_def simp del: push_bit_of_1)
  then show ?thesis unfolding held_def using and_single [OF n] modifier_bit_at [OF n] by (simp del: push_bit_of_1)
qed

lemma held_slot: "ModifierBit u = 0 \<Longrightarrow> u \<in> held b \<longleftrightarrow> u \<noteq> 0 \<and> u \<in> set (m_slots b)"
  by (auto simp: held_def)

lemma first_slot_Some: "first_slot v ss = Some i \<Longrightarrow> i < length ss \<and> ss ! i = v"
  by (induction ss arbitrary: i) (auto split: if_splits)

lemma first_slot_None: "first_slot v ss = None \<longleftrightarrow> v \<notin> set ss"
  by (induction ss) auto

lemma update_split:
  assumes "i < length ss"
  obtains xs ys where "ss = xs @ ss ! i # ys" "\<And>v. ss[i := v] = xs @ v # ys"
  using assms id_take_nth_drop [OF assms] upd_conv_take_nth_drop [OF assms] by blast

lemma filter_update_zero:
  assumes "i < length ss" "ss ! i = u" "u \<noteq> (0 :: u16)" "distinct (filter (\<lambda>s. s \<noteq> 0) ss)"
  shows "distinct (filter (\<lambda>s. s \<noteq> 0) (ss[i := 0]))" "set (ss[i := 0]) - {0} = set ss - {0} - {u}"
proof -
  obtain xs ys where d: "ss = xs @ u # ys" "\<And>v. ss[i := v] = xs @ v # ys" using update_split [OF assms(1)] assms(2) by metis
  show "distinct (filter (\<lambda>s. s \<noteq> 0) (ss[i := 0]))" "set (ss[i := 0]) - {0} = set ss - {0} - {u}"
    using assms(3,4) unfolding d(2) unfolding d(1) by auto
qed

lemma filter_update_new:
  assumes "i < length ss" "ss ! i = 0" "u \<noteq> (0 :: u16)" "u \<notin> set ss" "distinct (filter (\<lambda>s. s \<noteq> 0) ss)"
  shows "distinct (filter (\<lambda>s. s \<noteq> 0) (ss[i := u]))" "set (ss[i := u]) - {0} = insert u (set ss - {0})"
proof -
  obtain xs ys where d: "ss = xs @ 0 # ys" "\<And>v. ss[i := v] = xs @ v # ys" using update_split [OF assms(1)] assms(2) by metis
  show "distinct (filter (\<lambda>s. s \<noteq> 0) (ss[i := u]))" "set (ss[i := u]) - {0} = insert u (set ss - {0})"
    using assms(3,4,5) unfolding d(2) unfolding d(1) by auto
qed

lemma ordinary_card:
  assumes "builder_ok b"
  shows "card (ordinary (held b)) = length (filter (\<lambda>s. s \<noteq> 0) (m_slots b))"
proof -
  have "ordinary (held b) = set (filter (\<lambda>s. s \<noteq> 0) (m_slots b))"
    using assms by (auto simp: ordinary_def held_def builder_ok_def)
  then show ?thesis using assms distinct_card [of "filter (\<lambda>s. s \<noteq> 0) (m_slots b)"] by (simp add: builder_ok_def)
qed

lemma slots_free:
  assumes "builder_ok b"
  shows "0 \<in> set (m_slots b) \<longleftrightarrow> card (ordinary (held b)) < kKeySlots"
proof -
  have "length (filter (\<lambda>s. s \<noteq> 0) ss) < length ss \<longleftrightarrow> 0 \<in> set ss" for ss :: "u16 list"
    by (induction ss) (auto simp: less_Suc_eq_le le_less_Suc_eq)
  with assms show ?thesis unfolding ordinary_card [OF assms] by (metis builder_ok_def)
qed

text \<open>One transition: the keys held change as \<open>hold\<close> says, and the result tells whether they changed.\<close>

lemma Apply_modifier:
  assumes "builder_ok b" "ModifierBit (kt_usage t) \<noteq> 0" "Apply t b = (ok, b')"
  shows "builder_ok b' \<and> held b' = hold t (held b) \<and> (ok \<longleftrightarrow> held b' \<noteq> held b)"
proof -
  obtain n where n: "n < 8" "ModifierBit (kt_usage t) = push_bit n 1" "kt_usage t = 0xE0 + of_nat n"
    using modifier_bit_exp [OF assms(2)] by blast
  define m' where "m' = (if kt_isBreak t then m_modifiers b AND NOT (push_bit n 1) else m_modifiers b OR push_bit n 1)"
  have b': "b' = b\<lparr>m_modifiers := m'\<rparr>" "ok \<longleftrightarrow> m' \<noteq> m_modifiers b"
    using assms(2,3) by (auto simp: Apply_def n(2) m'_def Let_def simp del: push_bit_of_1 split: if_splits)
  have ok: "builder_ok b'" using assms(1) by (simp add: builder_ok_def b'(1))
  have bits: "bit m' i \<longleftrightarrow> (if i = n then \<not> kt_isBreak t else bit (m_modifiers b) i)" if "i < 8" for i
    using that n(1) by (auto simp: m'_def bit_and_iff bit_or_iff bit_not_iff bit_u8_single simp del: push_bit_of_1)
  have inj: "(0xE0 :: u16) + of_nat i = 0xE0 + of_nat n \<longleftrightarrow> i = n" if "i < 8" for i
  proof -
    have "(of_nat i :: u16) = of_nat n \<longleftrightarrow> i = n" using that n(1) by (simp add: word_unat_eq_iff unsigned_of_nat take_bit_nat_eq_self)
    then show ?thesis by simp
  qed
  have mem: "u \<in> held b' \<longleftrightarrow> (if u = kt_usage t then \<not> kt_isBreak t else u \<in> held b)" for u
  proof (cases "ModifierBit u = 0")
    case True
    then have "u \<noteq> kt_usage t" using assms(2) by auto
    then show ?thesis using True by (simp add: held_slot b'(1))
  next
    case False
    then obtain i where i: "i < 8" "u = 0xE0 + of_nat i" using modifier_bit_exp by blast
    then show ?thesis using held_modifier [OF i(1) ok] held_modifier [OF i(1) assms(1)] bits [OF i(1)] inj [OF i(1)]
      by (simp add: n(3) b'(1))
  qed
  have h: "held b' = hold t (held b)" by (rule set_eqI) (simp add: mem hold_def assms(2))
  have "m' = m_modifiers b \<longleftrightarrow> held b' = held b"
  proof
    assume "held b' = held b"
    then have "bit m' i = bit (m_modifiers b) i" if "i < 8" for i
      using held_modifier [OF that ok] held_modifier [OF that assms(1)] by (simp add: b'(1))
    then show "m' = m_modifiers b" by (intro bit_word_eqI) simp
  qed (simp add: b'(1) held_def)
  with ok h b'(2) show ?thesis by blast
qed

lemma held_slots:
  "builder_ok b \<Longrightarrow> m_modifiers b' = m_modifiers b \<Longrightarrow> length (m_slots b') = kKeySlots \<Longrightarrow> distinct (filter (\<lambda>s. s \<noteq> 0) (m_slots b')) \<Longrightarrow>
    \<forall>s\<in>set (m_slots b') - {0}. ModifierBit s = 0 \<and> s < 256 \<Longrightarrow> builder_ok b'"
  using new_builder_ok by (auto simp: builder_ok_def new_builder_def)

lemma Apply_ordinary:
  assumes b: "builder_ok b" and m: "ModifierBit (kt_usage t) = 0" and u: "kt_usage t \<noteq> 0" "kt_usage t < 256" and a: "Apply t b = (ok, b')"
  shows "builder_ok b' \<and> held b' = hold t (held b) \<and> (ok \<longleftrightarrow> held b' \<noteq> held b)"
proof -
  have sl: "length (m_slots b) = kKeySlots" "\<forall>s\<in>set (m_slots b). ModifierBit s = 0 \<and> s < 256" "distinct (filter (\<lambda>s. s \<noteq> 0) (m_slots b))"
    using b by (simp_all add: builder_ok_def)
  show ?thesis
  proof (cases "first_slot (kt_usage t) (m_slots b)")
    case (Some i)
    then have i: "i < length (m_slots b)" "m_slots b ! i = kt_usage t" using first_slot_Some by blast+
    then have mem: "kt_usage t \<in> held b" using held_slot [OF m] u(1) nth_mem [OF i(1)] by auto
    show ?thesis
    proof (cases "kt_isBreak t")
      case True
      have b': "ok" "b' = b\<lparr>m_slots := (m_slots b)[i := 0]\<rparr>" using a m Some True by (simp_all add: Apply_def Let_def)
      note f = filter_update_zero [OF i u(1) sl(3)]
      have "\<forall>s\<in>set (m_slots b') - {0}. ModifierBit s = 0 \<and> s < 256" using sl(2) by (simp add: b'(2) f(2))
      then have "builder_ok b'" by (intro held_slots [OF b]) (simp_all add: b'(2) sl(1) f(1))
      moreover have "held b' = held b - {kt_usage t}" using m by (simp add: held_def b'(2) f(2)) auto
      ultimately show ?thesis using mem True b'(1) by (auto simp: hold_def)
    next
      case False
      then show ?thesis using a m Some b mem by (auto simp: Apply_def Let_def hold_def)
    qed
  next
    case None
    then have nm: "kt_usage t \<notin> set (m_slots b)" "kt_usage t \<notin> held b" using first_slot_None held_slot [OF m] by auto
    show ?thesis
    proof (cases "kt_isBreak t \<or> first_slot 0 (m_slots b) = None")
      case True
      then have "\<not> ok" "b' = b" using a m None by (auto simp: Apply_def Let_def split: option.splits)
      moreover have "\<not> kt_isBreak t \<Longrightarrow> \<not> card (ordinary (held b)) < kKeySlots" using True first_slot_None slots_free [OF b] by blast
      ultimately show ?thesis using b nm m by (auto simp: hold_def)
    next
      case False
      then obtain i where fs: "first_slot 0 (m_slots b) = Some i" "\<not> kt_isBreak t" by auto
      then have i: "i < length (m_slots b)" "m_slots b ! i = 0" using first_slot_Some by blast+
      have b': "ok" "b' = b\<lparr>m_slots := (m_slots b)[i := kt_usage t]\<rparr>" using a m None fs by (simp_all add: Apply_def Let_def)
      note f = filter_update_new [OF i u(1) nm(1) sl(3)]
      have "\<forall>s\<in>set (m_slots b') - {0}. ModifierBit s = 0 \<and> s < 256" using sl(2) m u by (simp add: b'(2) f(2))
      then have "builder_ok b'" by (intro held_slots [OF b]) (simp_all add: b'(2) sl(1) f(1))
      moreover have "held b' = insert (kt_usage t) (held b)" by (simp add: held_def b'(2) f(2))
      moreover have "card (ordinary (held b)) < kKeySlots" using slots_free [OF b] i nth_mem by force
      ultimately show ?thesis using nm fs b'(1) by (auto simp: hold_def)
    qed
  qed
qed

lemma Apply_spec:
  assumes "builder_ok b" "kt_usage t \<noteq> 0" "kt_usage t < 256" "Apply t b = (ok, b')"
  shows "builder_ok b' \<and> held b' = hold t (held b) \<and> (ok \<longleftrightarrow> held b' \<noteq> held b)"
  using Apply_modifier [OF assms(1) _ assms(4)] Apply_ordinary [OF assms(1) _ assms(2,3,4)] by blast

lemma Release_spec:
  assumes "builder_ok b" "ModifierBit u = 0"
  shows "builder_ok (Release u b)" "held (Release u b) = held b - {u}"
proof -
  have "distinct (filter (\<lambda>s. s \<noteq> 0) (map (\<lambda>s. if s = u then 0 else s) ss))" if "distinct (filter (\<lambda>s. s \<noteq> 0) ss)" for ss
    using that by (induction ss) (auto split: if_splits)
  then show "builder_ok (Release u b)" using assms(1)
    by (intro held_slots [OF assms(1)]) (auto simp: Release_def builder_ok_def)
  show "held (Release u b) = held b - {u}" using assms(2) by (auto simp: held_def Release_def)
qed

subsection \<open>The keyboard report\<close>

definition kbd_modifier :: "nat \<Rightarrow> ReportField" where
  "kbd_modifier i = \<lparr>fd_usagePage = 7, fd_usage = 0xE0 + of_nat i, bitOffset = of_nat i, bitSize = 1, isRelative = False, isArray = False,
     logicalMin = 0, logicalMax = 1\<rparr>"

definition kbd_slot :: "nat \<Rightarrow> ReportField" where
  "kbd_slot i = \<lparr>fd_usagePage = 7, fd_usage = 0, bitOffset = 16 + 8 * of_nat i, bitSize = 8, isRelative = False, isArray = True,
     logicalMin = 0, logicalMax = 255\<rparr>"

definition keyboard_format :: ReportFormat where
  "keyboard_format = \<lparr>rf_fields = map kbd_modifier [0..<8] @ map kbd_slot [0..<kKeySlots], reportId = 0, reportBytes = 12, collectionUsage = 6\<rparr>"

text \<open>The format the driver gets when it parses its own descriptor.\<close>

lemma keyboard_descriptor: "ParseReportDescriptor kKeyboardReportDescriptor = Inr keyboard_format"
  by code_simp

lemma bit_field:
  assumes "0 < bitSize f" "bitSize f \<le> 32" "logicalMin f = 0" "i < 32"
  shows "bit (ExtractField f report) i \<longleftrightarrow> i < unat (bitSize f) \<and> unat (bitOffset f) + i < 8 * length report \<and>
    bit (report ! ((unat (bitOffset f) + i) div 8)) ((unat (bitOffset f) + i) mod 8)"
  using extract_field_spec [OF assms(1,2), of report] assms(3,4)
  by (simp add: Let_def bit_word_of_int_iff bit_take_bit_iff bit_drop_bit_eq bit_report_number)

lemma read_bit:
  assumes "i < 8" "report \<noteq> []" "bitSize f = 1" "bitOffset f = of_nat i" "logicalMin f = 0"
  shows "ExtractField f report \<noteq> 0 \<longleftrightarrow> bit (report ! 0) i"
proof -
  have o: "unat (of_nat i :: u16) = i" using assms(1) by (simp add: unsigned_of_nat take_bit_nat_eq_self)
  have "i < 8 * length report" using assms(1,2) by (cases report) auto
  then have b: "bit (ExtractField f report) j \<longleftrightarrow> j = 0 \<and> bit (report ! 0) i" if "j < 32" for j
    using bit_field [of f j report] assms that by (auto simp: o)
  show ?thesis
  proof (cases "bit (report ! 0) i")
    case True
    then have "bit (ExtractField f report) 0" using b [of 0] by simp
    then show ?thesis using True by auto
  next
    case False
    then have "ExtractField f report = 0" by (intro bit_word_eqI) (simp add: b)
    then show ?thesis using False by simp
  qed
qed

lemma read_modifier: "i < 8 \<Longrightarrow> report \<noteq> [] \<Longrightarrow> ExtractField (kbd_modifier i) report \<noteq> 0 \<longleftrightarrow> bit (report ! 0) i"
  by (rule read_bit) (simp_all add: kbd_modifier_def)

lemma read_slot:
  assumes "i < kKeySlots" "length report = 12"
  shows "ExtractField (kbd_slot i) report = ucast (report ! (2 + i))"
proof (rule bit_word_eqI)
  fix j assume "j < LENGTH(32)"
  then have j: "j < 32" by simp
  have o: "unat (16 + 8 * of_nat i :: u16) = 16 + 8 * i" using assms(1)
    by (simp add: unat_word_ariths unsigned_of_nat take_bit_nat_eq_self)
  show "bit (ExtractField (kbd_slot i) report) j = bit (ucast (report ! (2 + i)) :: u32) j"
  proof (cases "j < 8")
    case True
    then have "(16 + 8 * i + j) div 8 = 2 + i" "(16 + 8 * i + j) mod 8 = j" by presburger+
    then show ?thesis using bit_field [of "kbd_slot i" j report] True j assms by (simp add: kbd_slot_def o bit_ucast_iff)
  next
    case False
    then have "\<not> bit (report ! (2 + i)) j" by (auto dest: bit_imp_le_length)
    then show ?thesis using bit_field [of "kbd_slot i" j report] j False by (simp add: kbd_slot_def o bit_ucast_iff)
  qed
qed

lemma narrow_usage: "(s :: u16) < 256 \<Longrightarrow> (ucast (ucast (ucast s :: u8) :: u32) :: u16) = s"
proof -
  assume "s < 256"
  then have s: "unat s < 256" by (simp add: word_less_nat_alt)
  then have "unat (ucast s :: u8) = unat s" by (simp add: unsigned_ucast_eq take_bit_nat_eq_self)
  then have "unat (ucast (ucast s :: u8) :: u32) = unat s" using s by (simp only: unsigned_ucast_eq [where w = "ucast s :: u8"]) (simp add: take_bit_nat_eq_self)
  then have "unat (ucast (ucast (ucast s :: u8) :: u32) :: u16) = unat s"
    using s by (simp only: unsigned_ucast_eq [where w = "ucast (ucast s :: u8) :: u32"]) (simp add: take_bit_nat_eq_self)
  then show ?thesis by (simp only: word_unat_eq_iff)
qed

lemma keys_down_Pack:
  assumes "builder_ok b"
  shows "keys_down keyboard_format (Pack b) = held b"
proof (rule set_eqI)
  fix u
  have len: "length (Pack b) = 12" "Pack b \<noteq> []" using assms by (auto simp: Pack_def builder_ok_def)
  have m: "names_key (Pack b) (kbd_modifier i) u \<longleftrightarrow> u = 0xE0 + of_nat i \<and> u \<in> held b" if "i < 8" for i
  proof -
    have nz: "(0xE0 :: u16) + of_nat i \<noteq> 0" using modifier_bit_at [OF that] bit_u8_single [OF that, of i]
      by (auto simp: ModifierBit_def simp del: push_bit_of_1)
    have "names_key (Pack b) (kbd_modifier i) u \<longleftrightarrow> u = 0xE0 + of_nat i \<and> ExtractField (kbd_modifier i) (Pack b) \<noteq> 0"
      using nz by (auto simp: names_key_def kbd_modifier_def)
    then show ?thesis using read_modifier [OF that len(2)] held_modifier [OF that assms] by (auto simp: Pack_def)
  qed
  have s: "names_key (Pack b) (kbd_slot i) u \<longleftrightarrow> u \<noteq> 0 \<and> u = m_slots b ! i" if "i < kKeySlots" for i
  proof -
    have l: "i < length (m_slots b)" using assms that by (simp add: builder_ok_def)
    then have "m_slots b ! i < 256" using assms by (simp add: builder_ok_def)
    moreover have "Pack b ! (2 + i) = ucast (m_slots b ! i)" using l by (simp add: Pack_def)
    ultimately have "(ucast (ExtractField (kbd_slot i) (Pack b)) :: u16) = m_slots b ! i"
      unfolding read_slot [OF that len(1)] by (simp add: narrow_usage)
    then show ?thesis by (auto simp: names_key_def kbd_slot_def)
  qed
  have "u \<in> keys_down keyboard_format (Pack b) \<longleftrightarrow>
      (\<exists>i<8. names_key (Pack b) (kbd_modifier i) u) \<or> (\<exists>i<kKeySlots. names_key (Pack b) (kbd_slot i) u)"
    by (auto simp: keys_down_def keyboard_format_def)
  also have "\<dots> \<longleftrightarrow> (\<exists>i<8. u = 0xE0 + of_nat i \<and> u \<in> held b) \<or> u \<noteq> 0 \<and> u \<in> set (m_slots b)"
    using m s assms by (auto simp: in_set_conv_nth builder_ok_def)
  also have "\<dots> \<longleftrightarrow> u \<in> held b"
    using modifier_bit_exp [of u] held_slot [of u b] assms by (cases "ModifierBit u = 0") (auto simp: builder_ok_def)
  finally show "u \<in> keys_down keyboard_format (Pack b) \<longleftrightarrow> u \<in> held b" .
qed

end
