(* ===== verification/Ps2_Pump.thy ===== *)
theory Ps2_Pump
  imports Ps2_Correct
begin

text \<open>
  The pump thread of the PS/2 driver from end to end: the bytes in the ring of a device, what the driver makes of them, and the
  events that the HID driver hands to the input manager.
\<close>

subsection \<open>Events with their times\<close>

type_synonym input_state = "input_mgr \<times> wait_sys"

fun push_timed :: "nat \<Rightarrow> hid \<Rightarrow> nat option \<Rightarrow> (int \<times> KInputReport) list \<Rightarrow> input_state \<Rightarrow> input_state option" where
  "push_timed me h device [] st = Some st"
| "push_timed me h device ((t, r) # es) st =
     (case KE_INPUT_PushEvent me h device r t st of None \<Rightarrow> None | Some (_, st1) \<Rightarrow> push_timed me h device es st1)"

fun timed :: "(nat \<Rightarrow> int) \<Rightarrow> nat \<Rightarrow> KInputReport list \<Rightarrow> (int \<times> KInputReport) list" where
  "timed now i [] = []"
| "timed now i (r # rs) = (now i, r) # timed now (Suc i) rs"

lemma timed_events [simp]: "map snd (timed now i rs) = rs"
  by (induction rs arbitrary: i) auto

lemma push_reports_timed: "push_reports me h device now rs i st = push_timed me h device (timed now i rs) st"
  by (induction rs arbitrary: i st) (auto split: option.splits)

lemma push_timed_append:
  "push_timed me h device (a @ b) st = (case push_timed me h device a st of None \<Rightarrow> None | Some st1 \<Rightarrow> push_timed me h device b st1)"
  by (induction me h device a st rule: push_timed.induct) (auto split: option.splits)

lemma SubmitReport_timed:
  "decode_report format ds report = (rs, ds1) \<Longrightarrow>
    SubmitReport me h device now format ds report st = map_option (Pair ds1) (push_timed me h device (timed now 0 rs) st)"
  by (simp add: SubmitReport_def push_reports_timed)

subsection \<open>One byte from the keyboard\<close>

definition key_step :: "(nat \<Rightarrow> nat \<Rightarrow> int) \<Rightarrow> u8 \<Rightarrow> KeyboardDeviceContext \<Rightarrow> (int \<times> KInputReport) list \<times> KeyboardDeviceContext" where
  "key_step now byte ctx =
     (case KeyTranslator_Feed byte (kc_translator ctx) of
        (None, tr) \<Rightarrow> ([], ctx\<lparr>kc_translator := tr\<rparr>)
      | (Some t, tr) \<Rightarrow>
          (case Apply t (kc_builder ctx) of
             (False, b) \<Rightarrow> ([], ctx\<lparr>kc_translator := tr, kc_builder := b\<rparr>)
           | (True, b) \<Rightarrow>
               (case decode_report (kc_format ctx) (kc_decoder ctx) (Pack b) of (rs, ds) \<Rightarrow>
                 if kt_usage t = kbd_Pause \<and> \<not> kt_isBreak t
                 then (case decode_report (kc_format ctx) ds (Pack (Release (kt_usage t) b)) of (rs1, ds1) \<Rightarrow>
                        (timed (now 0) 0 rs @ timed (now 1) 0 rs1,
                         ctx\<lparr>kc_translator := tr, kc_builder := Release (kt_usage t) b, kc_decoder := ds1\<rparr>))
                 else (timed (now 0) 0 rs, ctx\<lparr>kc_translator := tr, kc_builder := b, kc_decoder := ds\<rparr>))))"

lemma pump_key_timed:
  assumes "key_step now byte ctx = (es, ctx1)"
  shows "pump_key me h device now byte ctx st = map_option (Pair ctx1) (push_timed me h device es st)"
proof -
  obtain out tr where f: "KeyTranslator_Feed byte (kc_translator ctx) = (out, tr)" by (cases "KeyTranslator_Feed byte (kc_translator ctx)")
  show ?thesis
  proof (cases out)
    case None
    with assms f show ?thesis by (auto simp: key_step_def pump_key_def)
  next
    case (Some t)
    obtain ok b where a: "Apply t (kc_builder ctx) = (ok, b)" by (cases "Apply t (kc_builder ctx)")
    obtain rs ds where d: "decode_report (kc_format ctx) (kc_decoder ctx) (Pack b) = (rs, ds)"
      by (cases "decode_report (kc_format ctx) (kc_decoder ctx) (Pack b)")
    obtain rs1 ds1 where d1: "decode_report (kc_format ctx) ds (Pack (Release (kt_usage t) b)) = (rs1, ds1)"
      by (cases "decode_report (kc_format ctx) ds (Pack (Release (kt_usage t) b))")
    note e = assms [unfolded key_step_def f Some a prod.case option.case d d1]
    show ?thesis
      unfolding pump_key_def f Some a prod.case option.case SubmitReport_timed [OF d]
      using e d1 by (cases ok; cases "push_timed me h device (timed (now 0) 0 rs) st")
        (auto simp: SubmitReport_timed push_timed_append Let_def option.map_comp comp_def split: if_splits option.splits)
  qed
qed

text \<open>The keys held after a transition: Pause is down only while its two reports are sent.\<close>

definition key_hold :: "KeyTransition \<Rightarrow> u16 set \<Rightarrow> u16 set" where
  "key_hold t H = (if kt_usage t = kbd_Pause \<and> \<not> kt_isBreak t then H else hold t H)"

definition keyboard_ok :: "KeyboardDeviceContext \<Rightarrow> bool" where
  "keyboard_ok ctx \<longleftrightarrow> kc_format ctx = keyboard_format \<and> builder_ok (kc_builder ctx) \<and> kbd_Pause \<notin> held (kc_builder ctx) \<and>
     distinct (pressed (kc_decoder ctx)) \<and>
     (card (held (kc_builder ctx)) \<le> kMaxPressed \<longrightarrow> set (pressed (kc_decoder ctx)) = held (kc_builder ctx))"

lemma keyboard_ok_frame [simp]: "keyboard_ok (ctx\<lparr>kc_translator := tr\<rparr>) = keyboard_ok ctx" "keyboard_ok (ctx\<lparr>kc_bytes := r\<rparr>) = keyboard_ok ctx"
  by (simp_all add: keyboard_ok_def)

lemma keyboard_okI:
  "kc_format ctx = keyboard_format \<Longrightarrow> builder_ok b \<Longrightarrow> kbd_Pause \<notin> held b \<Longrightarrow> distinct (pressed ds) \<Longrightarrow>
    (card (held b) \<le> kMaxPressed \<Longrightarrow> set (pressed ds) = held b) \<Longrightarrow> keyboard_ok (ctx\<lparr>kc_translator := tr, kc_builder := b, kc_decoder := ds\<rparr>)"
  by (simp add: keyboard_ok_def)

lemma table_usages: "list_all (\<lambda>u. u < 256 \<and> u \<noteq> kbd_Pause) BuildBaseTable" "length BuildBaseTable = 128"
  by code_simp+

lemma extended_usages: "LookupExtendedUsage c < 256" "LookupExtendedUsage c \<noteq> kbd_Pause"
  by (simp_all add: LookupExtendedUsage_def)

lemma low_bits: "unat ((byte :: u8) AND 0x7F) < 128"
proof -
  have "byte AND 0x7F \<le> 0x7F" by (rule word_and_le1)
  then show ?thesis by (simp add: word_le_nat_alt)
qed

lemma Feed_usage:
  assumes "KeyTranslator_Feed byte tr = (Some t, tr')"
  shows "kt_usage t \<noteq> 0" "kt_usage t < 256" "kt_usage t = kbd_Pause \<Longrightarrow> \<not> kt_isBreak t"
proof -
  let ?u = "BuildBaseTable ! unat (byte AND 0x7F)"
  have "?u \<in> set BuildBaseTable" using low_bits table_usages(2) by (intro nth_mem) simp
  then have u: "?u < 256" "?u \<noteq> kbd_Pause" using table_usages(1) unfolding list_all_iff by blast+
  from assms have "t = \<lparr>kt_usage = kbd_Pause, kt_isBreak = False\<rparr> \<or>
      (\<exists>v br. t = \<lparr>kt_usage = v, kt_isBreak = br\<rparr> \<and> v \<noteq> 0 \<and> (v = ?u \<or> v = LookupExtendedUsage (byte AND 0x7F)))"
    by (auto simp: KeyTranslator_Feed_def FeedPauseByte_def Let_def split: if_splits)
  then show "kt_usage t \<noteq> 0" "kt_usage t < 256" "kt_usage t = kbd_Pause \<Longrightarrow> \<not> kt_isBreak t"
    using u extended_usages [of "byte AND 0x7F"] by auto
qed

text \<open>One report: the events lead from the keys of the decoder to those of the builder.\<close>

lemma report_step:
  assumes "builder_ok b" "distinct (pressed ds)" "decode_report keyboard_format ds (Pack b) = (rs, ds')"
  shows "\<exists>ts. rs = map event_of ts \<and> replay ts (set (pressed ds)) = Some (set (pressed ds')) \<and> distinct (pressed ds') \<and>
    (card (held b) \<le> kMaxPressed \<longrightarrow> set (pressed ds') = held b)"
proof -
  have "collectionUsage keyboard_format = gd_Keyboard" "unat (reportBytes keyboard_format) \<le> length (Pack b)"
    using assms(1) by (simp_all add: keyboard_format_def Pack_def builder_ok_def)
  from decode_keyboard_transitions [OF this assms(2,3)] obtain ts where ts: "rs = map event_of ts"
    "replay ts (set (pressed ds)) = Some (set (pressed ds'))" "distinct (pressed ds')" "length (pressed ds') \<le> kMaxPressed"
    "set (pressed ds') \<subseteq> held b" "length (pressed ds') < kMaxPressed \<longrightarrow> set (pressed ds') = held b"
    unfolding keys_down_Pack [OF assms(1)] by blast
  have "set (pressed ds') = held b" if "card (held b) \<le> kMaxPressed"
  proof (cases "length (pressed ds') < kMaxPressed")
    case False
    with ts(3,4) have "card (set (pressed ds')) = kMaxPressed" by (simp add: distinct_card)
    moreover have "finite (held b)" by simp
    ultimately show ?thesis using ts(5) that by (simp add: card_seteq)
  qed (use ts(6) in blast)
  with ts(1,2,3) show ?thesis by blast
qed

lemma replay_seq: "replay a H = Some H1 \<Longrightarrow> replay b H1 = Some H2 \<Longrightarrow> replay (a @ b) H = Some H2"
  by (simp add: replay_append)

definition alternates :: "(int \<times> KInputReport) list \<Rightarrow> DecoderState \<Rightarrow> DecoderState \<Rightarrow> bool" where
  "alternates es ds ds' \<longleftrightarrow> (\<exists>ts. map snd es = map event_of ts \<and> replay ts (set (pressed ds)) = Some (set (pressed ds')))"

lemma alternates_Nil: "alternates [] ds ds"
  by (auto simp: alternates_def intro: exI [of _ "[]"])

lemma alternates_append: "alternates a d1 d2 \<Longrightarrow> alternates b d2 d3 \<Longrightarrow> alternates (a @ b) d1 d3"
  unfolding alternates_def by (metis map_append replay_seq)

lemma report_alternates:
  assumes "builder_ok b" "distinct (pressed ds)" "decode_report keyboard_format ds (Pack b) = (rs, ds')"
  shows "alternates (timed now i rs) ds ds'" "distinct (pressed ds')" "card (held b) \<le> kMaxPressed \<Longrightarrow> set (pressed ds') = held b"
  using report_step [OF assms] by (auto simp: alternates_def)

lemma key_step_spec:
  assumes ok: "keyboard_ok ctx" and step: "key_step now byte ctx = (es, ctx1)"
    and f: "KeyTranslator_Feed byte (kc_translator ctx) = (out, tr)"
  shows "keyboard_ok ctx1 \<and> kc_bytes ctx1 = kc_bytes ctx \<and> kc_translator ctx1 = tr \<and> alternates es (kc_decoder ctx) (kc_decoder ctx1) \<and>
    held (kc_builder ctx1) = (case out of None \<Rightarrow> held (kc_builder ctx) | Some t \<Rightarrow> key_hold t (held (kc_builder ctx)))"
proof (cases out)
  case None
  then show ?thesis using step f ok by (auto simp: key_step_def alternates_Nil)
next
  case (Some t)
  note u = Feed_usage [OF f [unfolded Some]]
  obtain ch b where a: "Apply t (kc_builder ctx) = (ch, b)" by (cases "Apply t (kc_builder ctx)")
  note ok' = ok [unfolded keyboard_ok_def]
  have bo: "builder_ok (kc_builder ctx)" and fm: "kc_format ctx = keyboard_format" and dp: "distinct (pressed (kc_decoder ctx))"
    and np: "kbd_Pause \<notin> held (kc_builder ctx)"
    using ok' by blast+
  note ap = Apply_spec [OF bo u(1,2) a]
  show ?thesis
  proof (cases ch)
    case False
    then have h: "held b = held (kc_builder ctx)" "hold t (held (kc_builder ctx)) = held (kc_builder ctx)" "builder_ok b" using ap by auto
    have "ctx1 = ctx\<lparr>kc_translator := tr, kc_builder := b\<rparr>" "es = []" using step f Some a False by (simp_all add: key_step_def)
    moreover have "keyboard_ok (ctx\<lparr>kc_translator := tr, kc_builder := b, kc_decoder := kc_decoder ctx\<rparr>)"
      by (rule keyboard_okI [OF fm h(3)]) (use ok' h(1) in simp_all)
    ultimately show ?thesis using h Some by (simp add: key_hold_def alternates_Nil)
  next
    case True
    obtain rs ds where d: "decode_report keyboard_format (kc_decoder ctx) (Pack b) = (rs, ds)"
      by (cases "decode_report keyboard_format (kc_decoder ctx) (Pack b)")
    have bb: "builder_ok b" "held b = hold t (held (kc_builder ctx))" using ap by auto
    note r = report_alternates [OF bb(1) dp d]
    show ?thesis
    proof (cases "kt_usage t = kbd_Pause \<and> \<not> kt_isBreak t")
      case pause: True
      have mb: "ModifierBit kbd_Pause = 0" by (simp add: ModifierBit_def)
      let ?b = "Release kbd_Pause b"
      note rel = Release_spec [OF bb(1) mb]
      have hb: "held ?b = held (kc_builder ctx)" unfolding rel(2) bb(2) hold_def using np pause by (auto split: if_splits)
      obtain rs1 ds1 where d1: "decode_report keyboard_format ds (Pack ?b) = (rs1, ds1)"
        by (cases "decode_report keyboard_format ds (Pack ?b)")
      note r1 = report_alternates [OF rel(1) r(2) d1]
      have "ctx1 = ctx\<lparr>kc_translator := tr, kc_builder := ?b, kc_decoder := ds1\<rparr>" "es = timed (now 0) 0 rs @ timed (now 1) 0 rs1"
        using step pause by (simp_all add: key_step_def f Some a True fm d d1)
      moreover have "keyboard_ok (ctx\<lparr>kc_translator := tr, kc_builder := ?b, kc_decoder := ds1\<rparr>)"
        by (rule keyboard_okI [OF fm rel(1) _ r1(2,3)]) (use hb np in simp_all)
      ultimately show ?thesis using hb alternates_append [OF r(1) r1(1)] pause Some by (simp add: key_hold_def)
    next
      case np': False
      have "ctx1 = ctx\<lparr>kc_translator := tr, kc_builder := b, kc_decoder := ds\<rparr>" "es = timed (now 0) 0 rs"
        using step np' by (auto simp: key_step_def f Some a True fm d)
      moreover have "kbd_Pause \<notin> held b" using np np' u(3) unfolding bb(2) hold_def by (auto split: if_splits)
      then have "keyboard_ok (ctx\<lparr>kc_translator := tr, kc_builder := b, kc_decoder := ds\<rparr>)"
        by (intro keyboard_okI [OF fm bb(1) _ r(2,3)])
      moreover have "key_hold t (held (kc_builder ctx)) = held b" using np' bb(2) unfolding key_hold_def by (rule trans [OF if_not_P sym])
      ultimately show ?thesis using r(1) Some by simp
    qed
  qed
qed

subsection \<open>The keyboard loop\<close>

lemma drain_keys_spec:
  assumes "ring_repr (kc_bytes ctx) bs" "keyboard_ok ctx"
  shows "\<exists>es ctx1. (\<forall>st. drain_keys me h device now i ctx st = map_option (Pair ctx1) (push_timed me h device es st)) \<and>
    keyboard_ok ctx1 \<and> ring_repr (kc_bytes ctx1) [] \<and> alternates es (kc_decoder ctx) (kc_decoder ctx1) \<and>
    held (kc_builder ctx1) = fold key_hold (fst (feed_all bs (kc_translator ctx))) (held (kc_builder ctx))"
  using assms
proof (induction bs arbitrary: ctx i)
  case Nil
  have "ByteRing_Pop (kc_bytes ctx) = None" by (rule byte_ring.pop_empty [OF Nil.prems(1)])
  then have "drain_keys me h device now i ctx st = map_option (Pair ctx) (push_timed me h device [] st)" for st
    by (subst drain_keys.simps) simp
  with Nil.prems show ?case by (intro exI [of _ "[]"] exI [of _ ctx]) (simp add: alternates_Nil)
next
  case (Cons byte bs)
  obtain r where r: "ByteRing_Pop (kc_bytes ctx) = Some (byte, r)" "ring_repr r bs" using byte_ring.pop_first [OF Cons.prems(1)] by blast
  let ?c = "ctx\<lparr>kc_bytes := r\<rparr>"
  have ok: "keyboard_ok ?c" using Cons.prems(2) by (simp add: keyboard_ok_def)
  obtain es ctx1 where k: "key_step (now i) byte ?c = (es, ctx1)" by (cases "key_step (now i) byte ?c")
  obtain out tr where f: "KeyTranslator_Feed byte (kc_translator ?c) = (out, tr)" by (cases "KeyTranslator_Feed byte (kc_translator ?c)")
  note s = key_step_spec [OF ok k f]
  then have "ring_repr (kc_bytes ctx1) bs" "keyboard_ok ctx1" using r(2) by simp_all
  from Cons.IH [OF this, of "Suc i"] obtain es2 ctx2 where n:
    "\<forall>st. drain_keys me h device now (Suc i) ctx1 st = map_option (Pair ctx2) (push_timed me h device es2 st)"
    "keyboard_ok ctx2" "ring_repr (kc_bytes ctx2) []" "alternates es2 (kc_decoder ctx1) (kc_decoder ctx2)"
    "held (kc_builder ctx2) = fold key_hold (fst (feed_all bs (kc_translator ctx1))) (held (kc_builder ctx1))"
    by blast
  have "drain_keys me h device now i ctx st = map_option (Pair ctx2) (push_timed me h device (es @ es2) st)" for st
    by (subst drain_keys.simps) (simp add: r(1) pump_key_timed [OF k] push_timed_append n(1) split: option.splits)
  moreover have "alternates (es @ es2) (kc_decoder ctx) (kc_decoder ctx2)" by (rule alternates_append [OF _ n(4)]) (use s in simp)
  moreover have "held (kc_builder ctx2) = fold key_hold (fst (feed_all (byte # bs) (kc_translator ctx))) (held (kc_builder ctx))"
    using f s n(5) by (cases out) (simp_all split: prod.splits)
  ultimately show ?case using n(2,3) by (intro exI [of _ "es @ es2"] exI [of _ ctx2]) simp
qed

lemma ring_repr_empty: "ring_repr r bs \<Longrightarrow> ByteRing_Empty r \<longleftrightarrow> bs = []"
  using byte_ring.pop_empty [of r] byte_ring.pop_first [of r]
  by (cases bs) (force simp: ByteRing_Empty_def ByteRing_Pop_def Let_def split: if_splits)+


subsection \<open>A concrete keyboard\<close>

definition demo_keyboard :: KeyboardDeviceContext where
  "demo_keyboard = \<lparr>kc_bytes = \<lparr>m_head = 2, m_tail = 0, m_buf = [0xFA, 0x1E] @ replicate 254 0\<rparr>, kc_translator = new_translator,
     kc_builder = new_builder, kc_format = keyboard_format, kc_decoder = \<lparr>pressed = [], lockModifiers = 0\<rparr>\<rparr>"


end
