(* ===== verification/Ps2_Mouse.thy ===== *)
theory Ps2_Mouse
  imports Ps2_Pump
begin

text \<open>
  The mouse from packets to events: a packet of any of the three framings is decoded to the motion, buttons and wheel that it
  encodes, and the report that the driver makes of it reaches the input manager with the axes clamped to a byte.
\<close>

subsection \<open>The mouse report\<close>

definition ms_button :: "nat \<Rightarrow> ReportField" where
  "ms_button i = \<lparr>fd_usagePage = 9, fd_usage = 1 + of_nat i, bitOffset = of_nat i, bitSize = 1, isRelative = False, isArray = False,
     logicalMin = 0, logicalMax = 1\<rparr>"

definition ms_axis :: "u16 \<Rightarrow> nat \<Rightarrow> ReportField" where
  "ms_axis u k = \<lparr>fd_usagePage = 1, fd_usage = u, bitOffset = 8 * of_nat k, bitSize = 8, isRelative = True, isArray = False,
     logicalMin = word_of_int (- 127), logicalMax = 127\<rparr>"

definition mouse_format :: ReportFormat where
  "mouse_format = \<lparr>rf_fields = map ms_button [0..<5] @ [ms_axis gd_X 1, ms_axis gd_Y 2, ms_axis gd_Wheel 3], reportId = 0,
     reportBytes = 4, collectionUsage = 2\<rparr>"

lemma mouse_descriptor: "ParseReportDescriptor kMouseReportDescriptor = Inr mouse_format"
  by code_simp

lemma read_axis:
  assumes "k < length report" "length report = 4"
  shows "ExtractField (ms_axis u k) report = scast (report ! k)"
proof (rule bit_word_eqI)
  fix j assume "j < LENGTH(32)"
  then have j: "j < 32" by simp
  have k: "k < 4" using assms by simp
  then have o: "unat (8 * of_nat k :: u16) = 8 * k" by (simp add: unat_word_ariths unsigned_of_nat take_bit_nat_eq_self)
  have neg: "sint (word_of_int (- 127) :: u32) < 0" by simp
  let ?m = "min 7 j"
  have m: "(8 * k + ?m) div 8 = k" "(8 * k + ?m) mod 8 = ?m" "8 * k + ?m < 32" using k by (simp_all add: min_def)
  have "ExtractField (ms_axis u k) report = word_of_int (signed_take_bit 7 (drop_bit (8 * k) (report_number report)))"
    using extract_field_spec [of "ms_axis u k" report] neg by (simp add: ms_axis_def o)
  then have "bit (ExtractField (ms_axis u k) report) j = bit (report_number report) (8 * k + ?m)"
    using j by (simp add: bit_word_of_int_iff bit_signed_take_bit_iff bit_drop_bit_eq)
  also have "\<dots> = bit (report ! k) ?m" using m assms(2) by (simp add: bit_report_number)
  also have "\<dots> = bit (scast (report ! k) :: u32) j" using j by (auto simp: bit_signed_iff min_def)
  finally show "bit (ExtractField (ms_axis u k) report) j = bit (scast (report ! k) :: u32) j" .
qed

text \<open>What the HID driver reads from a report of four bytes.\<close>

lemma read_button: "i < 8 \<Longrightarrow> report \<noteq> [] \<Longrightarrow> ExtractField (ms_button i) report \<noteq> 0 \<longleftrightarrow> bit (report ! 0) i"
  by (rule read_bit) (simp_all add: ms_button_def)

lemma button_field:
  assumes "i < 5" "report \<noteq> []"
  shows "mouse_field report (ms_button i) p = (if bit (report ! 0) i then p\<lparr>buttons := buttons p OR push_bit i 1\<rparr> else p)"
proof -
  have "i \<in> set [0..<5]" using assms(1) by simp
  moreover have "list_all (\<lambda>i. (1 :: u16) \<le> 1 + of_nat i \<and> (1 :: u16) + of_nat i \<le> 5 \<and> unat ((1 :: u16) + of_nat i - 1) = i) [0..<5]" by code_simp
  ultimately have "(1 :: u16) \<le> 1 + of_nat i" "(1 :: u16) + of_nat i \<le> 5" "unat ((1 :: u16) + of_nat i - 1) = i"
    unfolding list_all_iff by blast+
  moreover have "ExtractField (ms_button i) report \<noteq> 0 \<longleftrightarrow> bit (report ! 0) i" using read_button assms by simp
  moreover have "fd_usagePage (ms_button i) = page_Button" "fd_usage (ms_button i) = 1 + of_nat i" by (simp_all add: ms_button_def)
  ultimately show ?thesis by (simp add: mouse_field_def Let_def)
qed

lemma fold_buttons:
  "n \<le> 5 \<Longrightarrow> report \<noteq> [] \<Longrightarrow> fold (mouse_field report) (map ms_button [0..<n]) p = p\<lparr>buttons := buttons p OR take_bit n (report ! 0)\<rparr>"
proof (induction n)
  case (Suc n)
  have "take_bit (Suc n) (report ! 0) = take_bit n (report ! 0) OR (if bit (report ! 0) n then push_bit n 1 else 0)"
    by (rule bit_word_eqI) (auto simp: bit_take_bit_iff bit_or_iff bit_exp_iff less_Suc_eq)
  with Suc button_field [of n report] show ?case by (simp add: or.assoc)
qed simp

lemma axis_fields:
  assumes "length report = 4"
  shows "mouse_field report (ms_axis gd_X 1) p = p\<lparr>dx := scast (report ! 1), isAbsolute := False\<rparr>"
    "mouse_field report (ms_axis gd_Y 2) p = p\<lparr>dy := scast (report ! 2)\<rparr>"
    "mouse_field report (ms_axis gd_Wheel 3) p = p\<lparr>wheel := report ! 3\<rparr>"
proof -
  have f: "fd_usagePage (ms_axis u k) = 1" "fd_usage (ms_axis u k) = u" "isRelative (ms_axis u k)" for u k by (simp_all add: ms_axis_def)
  have w: "ucast (scast (v :: u8) :: u32) = v" for v
  proof (rule bit_word_eqI)
    fix n assume "n < LENGTH(8)"
    then have "min 7 n = n" "n < 8" by simp_all
    then show "bit (ucast (scast v :: u32) :: u8) n = bit v n" by (simp add: bit_ucast_iff bit_signed_iff)
  qed
  show "mouse_field report (ms_axis gd_X 1) p = p\<lparr>dx := scast (report ! 1), isAbsolute := False\<rparr>"
    "mouse_field report (ms_axis gd_Y 2) p = p\<lparr>dy := scast (report ! 2)\<rparr>"
    "mouse_field report (ms_axis gd_Wheel 3) p = p\<lparr>wheel := report ! 3\<rparr>"
    using assms by (simp_all add: mouse_field_def f read_axis w Let_def)
qed

lemma decode_mouse_report:
  assumes "length report = 4"
  shows "decode_mouse mouse_format report =
    \<lparr>dx = scast (report ! 1), dy = scast (report ! 2), wheel = report ! 3, buttons = take_bit 5 (report ! 0), isAbsolute = False\<rparr>"
proof -
  have "report \<noteq> []" using assms by auto
  note b = fold_buttons [OF order_refl this]
  show ?thesis by (simp add: decode_mouse_def mouse_format_def b axis_fields [OF assms] del: One_nat_def)
qed

subsection \<open>Packets\<close>

definition clamp_axis :: "u32 \<Rightarrow> u32" where
  "clamp_axis v = word_of_int (max (- 127) (min 127 (sint v)))"

definition reported :: "MousePacket \<Rightarrow> MousePacket" where
  "reported p = p\<lparr>dx := clamp_axis (dx p), dy := clamp_axis (dy p)\<rparr>"

lemma clamp_report: "scast (ClampToReportAxis v) = clamp_axis v"
proof -
  define c where "c = max (- 127) (min 127 (sint v))"
  have c: "- 128 \<le> c" "c \<le> 127" by (auto simp: c_def)
  have "ucast v = (word_of_int (sint v) :: u8)" by (rule bit_word_eqI) (auto simp: bit_ucast_iff bit_signed_iff min_def)
  then have "ClampToReportAxis v = word_of_int c" by (auto simp: ClampToReportAxis_def c_def max_def min_def)
  moreover have "sint (word_of_int c :: u8) = c" using c by (simp add: signed_of_int signed_take_bit_int_eq_self)
  ultimately show ?thesis unfolding clamp_axis_def c_def [symmetric] by (metis signed_word_eqI sint_sbintrunc' scast_eq)
qed

text \<open>The packets a mouse can send in a mode, and their bytes.\<close>

definition packet_ok :: "MousePacketMode \<Rightarrow> MousePacket \<Rightarrow> bool" where
  "packet_ok mode p \<longleftrightarrow> - 256 \<le> sint (dx p) \<and> sint (dx p) \<le> 255 \<and> - 255 \<le> sint (dy p) \<and> sint (dy p) \<le> 256 \<and> \<not> isAbsolute p \<and>
     (case mode of
        Standard3Byte \<Rightarrow> buttons p < 8 \<and> wheel p = 0
      | IntelliMouse4Byte \<Rightarrow> buttons p < 8
      | IntelliMouseExplorer4Byte \<Rightarrow> buttons p < 32 \<and> - 8 \<le> sint (wheel p) \<and> sint (wheel p) \<le> 7)"

definition first_byte :: "u8 \<Rightarrow> bool \<Rightarrow> bool \<Rightarrow> u8" where
  "first_byte btn sx sy = 0x08 OR (btn AND 0x07) OR (if sx then 0x10 else 0) OR (if sy then 0x20 else 0)"

definition fourth_byte :: "u8 \<Rightarrow> u8 \<Rightarrow> u8" where
  "fourth_byte btn w = (w AND 0x0F) OR (if btn AND 0x08 \<noteq> 0 then 0x10 else 0) OR (if btn AND 0x10 \<noteq> 0 then 0x20 else 0)"

definition packet_bytes :: "MousePacketMode \<Rightarrow> MousePacket \<Rightarrow> u8 list" where
  "packet_bytes mode p =
     [first_byte (buttons p) (sint (dx p) < 0) (0 < sint (dy p)), ucast (dx p), ucast (- dy p)] @
     (case mode of Standard3Byte \<Rightarrow> [] | IntelliMouse4Byte \<Rightarrow> [wheel p] | IntelliMouseExplorer4Byte \<Rightarrow> [fourth_byte (buttons p) (wheel p)])"

lemma first_byte_table:
  "list_all (\<lambda>n. list_all (\<lambda>sx. list_all (\<lambda>sy. let b = first_byte (of_nat n) sx sy in
      b AND 0x08 \<noteq> 0 \<and> b AND 0xC0 = 0 \<and> b AND 0x07 = of_nat n AND 0x07 \<and>
      push_bit 4 (ucast b :: u16) AND 0x100 = (if sx then 0x100 else 0) \<and>
      push_bit 3 (ucast b :: u16) AND 0x100 = (if sy then 0x100 else 0)) [False, True]) [False, True]) [0..<32]"
  by code_simp

lemma fourth_byte_table:
  "list_all (\<lambda>n. list_all (\<lambda>w. let b = fourth_byte (of_nat n) (word_of_int w) in
      ((b AND 0x0F) XOR 0x08) - 0x08 = (word_of_int w :: u8) \<and>
      (of_nat n AND 0x07) OR (if b AND 0x10 \<noteq> 0 then 0x08 else 0) OR (if b AND 0x20 \<noteq> 0 then 0x10 else 0) = (of_nat n :: u8)) [-8..7]) [0..<32]"
  by code_simp

lemma u8_below: "(x :: u8) < 32 \<Longrightarrow> \<exists>n. n \<in> set [0..<32] \<and> x = of_nat n"
  by (intro exI [of _ "unat x"]) (simp add: word_less_nat_alt)

lemma first_byte_ok:
  assumes "btn < 32"
  shows "first_byte btn sx sy AND 0x08 \<noteq> 0" "first_byte btn sx sy AND 0xC0 = 0" "first_byte btn sx sy AND 0x07 = btn AND 0x07"
    "push_bit 4 (ucast (first_byte btn sx sy) :: u16) AND 0x100 = (if sx then 0x100 else 0)"
    "push_bit 3 (ucast (first_byte btn sx sy) :: u16) AND 0x100 = (if sy then 0x100 else 0)"
proof -
  obtain n where n: "n \<in> set [0..<32]" "btn = of_nat n" using u8_below [OF assms] by blast
  have "first_byte btn sx sy AND 0x08 \<noteq> 0 \<and> first_byte btn sx sy AND 0xC0 = 0 \<and> first_byte btn sx sy AND 0x07 = btn AND 0x07 \<and>
      push_bit 4 (ucast (first_byte btn sx sy) :: u16) AND 0x100 = (if sx then 0x100 else 0) \<and>
      push_bit 3 (ucast (first_byte btn sx sy) :: u16) AND 0x100 = (if sy then 0x100 else 0)"
    using first_byte_table [unfolded list_all_iff Let_def, rule_format, OF n(1), of sx sy] unfolding n(2) by (cases sx; cases sy) auto
  then show "first_byte btn sx sy AND 0x08 \<noteq> 0" "first_byte btn sx sy AND 0xC0 = 0" "first_byte btn sx sy AND 0x07 = btn AND 0x07"
    "push_bit 4 (ucast (first_byte btn sx sy) :: u16) AND 0x100 = (if sx then 0x100 else 0)"
    "push_bit 3 (ucast (first_byte btn sx sy) :: u16) AND 0x100 = (if sy then 0x100 else 0)"
    by blast+
qed

lemma fourth_byte_ok:
  assumes "btn < 32" "- 8 \<le> sint w" "sint w \<le> 7"
  shows "((fourth_byte btn w AND 0x0F) XOR 0x08) - 0x08 = w"
    "(btn AND 0x07) OR (if fourth_byte btn w AND 0x10 \<noteq> 0 then 0x08 else 0) OR (if fourth_byte btn w AND 0x20 \<noteq> 0 then 0x10 else 0) = btn"
proof -
  obtain n where n: "n \<in> set [0..<32]" "btn = of_nat n" using u8_below [OF assms(1)] by blast
  have "sint w \<in> set [-8..7]" unfolding set_upto using assms(2,3) by (simp only: atLeastAtMost_iff)
  moreover have "word_of_int (sint w) = w" by simp
  ultimately have w: "sint w \<in> set [-8..7]" "word_of_int (sint w) = w" by blast+
  have "((fourth_byte btn w AND 0x0F) XOR 0x08) - 0x08 = w \<and>
      (btn AND 0x07) OR (if fourth_byte btn w AND 0x10 \<noteq> 0 then 0x08 else 0) OR (if fourth_byte btn w AND 0x20 \<noteq> 0 then 0x10 else 0) = btn"
    using fourth_byte_table [unfolded list_all_iff Let_def, rule_format, OF n(1) w(1)] unfolding n(2) w(2) .
  then show "((fourth_byte btn w AND 0x0F) XOR 0x08) - 0x08 = w"
    "(btn AND 0x07) OR (if fourth_byte btn w AND 0x10 \<noteq> 0 then 0x08 else 0) OR (if fourth_byte btn w AND 0x20 \<noteq> 0 then 0x10 else 0) = btn"
    by blast+
qed

text \<open>The nine-bit sign extension.\<close>

lemma low_byte: "(ucast (ucast (v :: u32) :: u8) :: u16) = word_of_int (sint v mod 256)"
proof -
  have "word_of_int (sint v mod 256) = (word_of_int (take_bit 8 (sint v)) :: u16)" by (simp add: take_bit_eq_mod)
  moreover have "bit (ucast (ucast v :: u8) :: u16) n = bit (word_of_int (take_bit 8 (sint v)) :: u16) n" if "n < 16" for n
    using that by (auto simp: bit_ucast_iff bit_word_of_int_iff bit_take_bit_iff bit_sint_iff)
  ultimately show ?thesis by (intro bit_word_eqI) simp
qed

lemma nine_bits:
  assumes "- 256 \<le> sint v" "sint v \<le> 255"
  shows "(ucast (ucast (v :: u32) :: u8) :: u16) - (if sint v < 0 then 0x100 else 0) = word_of_int (sint v)"
proof -
  have "sint v mod 256 - (if sint v < 0 then 256 else 0) = sint v"
  proof (cases "sint v < 0")
    case True
    have "sint v mod 256 = (sint v + 256) mod 256" by simp
    also have "\<dots> = sint v + 256" using assms True by (intro mod_pos_pos_trivial) auto
    finally show ?thesis using True by simp
  qed (use assms in simp)
  moreover have "(word_of_int (sint v mod 256) :: u16) - (if sint v < 0 then 0x100 else 0) =
      word_of_int (sint v mod 256 - (if sint v < 0 then 256 else 0))"
    by (simp add: word_of_int_minus flip: wi_hom_sub)
  ultimately show ?thesis unfolding low_byte by simp
qed

lemma widen_axis: "- 32768 \<le> sint v \<Longrightarrow> sint v \<le> 32767 \<Longrightarrow> scast (word_of_int (sint v) :: u16) = (v :: u32)"
  using sint_16 [of "sint v"] by (simp only: scast_eq) simp

lemma packet_round_trip:
  assumes "packet_ok mode p"
  shows "make_packet mode (packet_bytes mode p @ rest) = p"
proof -
  have x: "- 256 \<le> sint (dx p)" "sint (dx p) \<le> 255" and y: "- 255 \<le> sint (dy p)" "sint (dy p) \<le> 256" and r: "\<not> isAbsolute p"
    using assms by (auto simp: packet_ok_def)
  have b: "buttons p < 32" using assms by (cases mode) (auto simp: packet_ok_def word_less_nat_alt)
  have ny: "sint (- dy p) = - sint (dy p)" using y by (simp add: sint_word_ariths signed_take_bit_int_eq_self)
  note f = first_byte_ok [OF b, of "sint (dx p) < 0" "0 < sint (dy p)"]
  have dx: "scast ((ucast (ucast (dx p) :: u8) :: u16) - (if sint (dx p) < 0 then 0x100 else 0)) = dx p"
    unfolding nine_bits [OF x] by (rule widen_axis) (use x in auto)
  have dy: "scast ((if 0 < sint (dy p) then 0x100 else 0) - (ucast (ucast (- dy p) :: u8) :: u16)) = dy p"
  proof -
    have "(ucast (ucast (- dy p) :: u8) :: u16) - (if 0 < sint (dy p) then 0x100 else 0) = word_of_int (- sint (dy p))"
      using nine_bits [of "- dy p"] y by (simp add: ny)
    then have "(if 0 < sint (dy p) then 0x100 else 0) - (ucast (ucast (- dy p) :: u8) :: u16) = word_of_int (sint (dy p))"
      by (metis minus_diff_eq wi_hom_neg minus_minus)
    then show ?thesis using widen_axis [of "dy p"] y by (simp only:)
  qed
  have lo: "buttons p AND 0x07 = buttons p" if "buttons p < 8"
  proof -
    have "\<exists>n. n \<in> set [0..<8] \<and> buttons p = of_nat n" using that by (intro exI [of _ "unat (buttons p)"]) (simp add: word_less_nat_alt)
    moreover have "list_all (\<lambda>n. (of_nat n :: u8) AND 0x07 = of_nat n) [0..<8]" by code_simp
    ultimately show ?thesis unfolding list_all_iff by auto
  qed
  show ?thesis
    using assms r lo fourth_byte_ok [OF b, of "wheel p"]
    by (cases mode; intro MousePacket.equality) (simp_all add: make_packet_def packet_bytes_def Let_def f dx dy packet_ok_def or.assoc)
qed

subsection \<open>The mouse loop\<close>

definition mouse_idle :: "MousePacketMode \<Rightarrow> PointerDeviceContext \<Rightarrow> bool" where
  "mouse_idle mode ctx \<longleftrightarrow> pc_format ctx = mouse_format \<and> m_mode (pc_decoder ctx) = mode \<and> m_byteIndex (pc_decoder ctx) = 0 \<and>
     length (m_bytes (pc_decoder ctx)) = 4"

definition aux_step :: "(nat \<Rightarrow> int) \<Rightarrow> u8 \<Rightarrow> PointerDeviceContext \<Rightarrow> (int \<times> KInputReport) list \<times> PointerDeviceContext" where
  "aux_step now byte ctx =
     (case MousePacketDecoder_Feed byte (pc_decoder ctx) of
        (None, d) \<Rightarrow> ([], ctx\<lparr>pc_decoder := d\<rparr>)
      | (Some p, d) \<Rightarrow>
          (case decode_report (pc_format ctx) (pc_hidState ctx) (PackMouseReport p) of (rs, ds) \<Rightarrow>
            (timed now 0 rs, ctx\<lparr>pc_decoder := d, pc_hidState := ds\<rparr>)))"

fun aux_steps :: "(nat \<Rightarrow> nat \<Rightarrow> int) \<Rightarrow> nat \<Rightarrow> u8 list \<Rightarrow> PointerDeviceContext \<Rightarrow> (int \<times> KInputReport) list \<times> PointerDeviceContext" where
  "aux_steps now i [] ctx = ([], ctx)"
| "aux_steps now i (byte # bs) ctx =
     (case aux_step (now i) byte ctx of (es, ctx1) \<Rightarrow> case aux_steps now (Suc i) bs ctx1 of (fs, ctx2) \<Rightarrow> (es @ fs, ctx2))"

lemma pump_aux_timed:
  assumes "aux_step now byte ctx = (es, ctx1)"
  shows "pump_aux me h device now byte ctx st = map_option (Pair ctx1) (push_timed me h device es st)"
proof -
  obtain out d where f: "MousePacketDecoder_Feed byte (pc_decoder ctx) = (out, d)" by (cases "MousePacketDecoder_Feed byte (pc_decoder ctx)")
  show ?thesis
  proof (cases out)
    case None
    with assms f show ?thesis by (auto simp: aux_step_def pump_aux_def)
  next
    case (Some p)
    obtain rs ds where r: "decode_report (pc_format ctx) (pc_hidState ctx) (PackMouseReport p) = (rs, ds)"
      by (cases "decode_report (pc_format ctx) (pc_hidState ctx) (PackMouseReport p)")
    show ?thesis using assms
      by (auto simp: aux_step_def pump_aux_def f Some r SubmitReport_timed [OF r] split: option.splits)
  qed
qed

lemma aux_steps_append:
  "aux_steps now i (xs @ ys) ctx =
    (case aux_steps now i xs ctx of (es, ctx1) \<Rightarrow> case aux_steps now (i + length xs) ys ctx1 of (fs, ctx2) \<Rightarrow> (es @ fs, ctx2))"
  by (induction xs arbitrary: i ctx) (auto split: prod.splits)

lemma drain_packets_spec:
  assumes "ring_repr (pc_bytes ctx) bs" "aux_steps now i bs ctx = (es, ctx1)"
  shows "\<exists>r. ring_repr r [] \<and> (\<forall>st. drain_packets me h device now i ctx st = map_option (Pair (ctx1\<lparr>pc_bytes := r\<rparr>)) (push_timed me h device es st))"
  using assms
proof (induction bs arbitrary: ctx i es ctx1)
  case Nil
  have "ByteRing_Pop (pc_bytes ctx) = None" by (rule byte_ring.pop_empty [OF Nil.prems(1)])
  then have "drain_packets me h device now i ctx st = map_option (Pair ctx) (push_timed me h device [] st)" for st
    by (subst drain_packets.simps) simp
  with Nil.prems show ?case by (intro exI [of _ "pc_bytes ctx"]) simp
next
  case (Cons byte bs)
  obtain r where r: "ByteRing_Pop (pc_bytes ctx) = Some (byte, r)" "ring_repr r bs" using byte_ring.pop_first [OF Cons.prems(1)] by blast
  obtain e c where a: "aux_step (now i) byte ctx = (e, c)" by (cases "aux_step (now i) byte ctx")
  have fr: "aux_step (now i) byte (ctx\<lparr>pc_bytes := r\<rparr>) = (e, c\<lparr>pc_bytes := r\<rparr>)"
    using a by (auto simp: aux_step_def split: prod.splits option.splits)
  have frs: "aux_steps now j xs (c\<lparr>pc_bytes := q\<rparr>) = (map_prod id (pc_bytes_update (\<lambda>_. q)) (aux_steps now j xs c))" for j xs c q
  proof (induction xs arbitrary: j c)
    case (Cons x xs)
    obtain e1 c1 where "aux_step (now j) x c = (e1, c1)" by (cases "aux_step (now j) x c")
    moreover then have "aux_step (now j) x (c\<lparr>pc_bytes := q\<rparr>) = (e1, c1\<lparr>pc_bytes := q\<rparr>)"
      by (auto simp: aux_step_def split: prod.splits option.splits)
    ultimately show ?case using Cons.IH [of "Suc j" c1] by (auto split: prod.splits)
  qed simp
  obtain e2 where s: "aux_steps now (Suc i) bs c = (e2, ctx1)" "es = e @ e2"
    using Cons.prems(2) a by (auto split: prod.splits)
  then have "aux_steps now (Suc i) bs (c\<lparr>pc_bytes := r\<rparr>) = (e2, ctx1\<lparr>pc_bytes := r\<rparr>)" using frs [of "Suc i" bs r c] by simp
  from Cons.IH [OF _ this] r(2) obtain q where q: "ring_repr q []"
    "\<forall>st. drain_packets me h device now (Suc i) (c\<lparr>pc_bytes := r\<rparr>) st = map_option (Pair (ctx1\<lparr>pc_bytes := r, pc_bytes := q\<rparr>)) (push_timed me h device e2 st)"
    by auto
  have "drain_packets me h device now i ctx st = map_option (Pair (ctx1\<lparr>pc_bytes := q\<rparr>)) (push_timed me h device es st)" for st
    by (subst drain_packets.simps) (simp add: r(1) pump_aux_timed [OF fr] push_timed_append s(2) q(2) split: option.splits)
  with q(1) show ?case by blast
qed

lemma decode_packet:
  assumes "packet_ok mode p"
  shows "decode_report mouse_format ds (PackMouseReport p) = ([Pointer (reported p)], ds)"
proof -
  have b: "buttons p < 32" and "\<not> isAbsolute p" using assms by (cases mode; auto simp: packet_ok_def word_less_nat_alt)+
  have "take_bit 5 (buttons p AND 0x1F) = buttons p"
  proof -
    obtain n where "n \<in> set [0..<32]" "buttons p = of_nat n" using u8_below [OF b] by blast
    moreover have "list_all (\<lambda>n. take_bit 5 ((of_nat n :: u8) AND 0x1F) = of_nat n) [0..<32]" by code_simp
    ultimately show ?thesis unfolding list_all_iff by simp
  qed
  then have "decode_mouse mouse_format (PackMouseReport p) = reported p"
    using \<open>\<not> isAbsolute p\<close>
    by (intro MousePacket.equality) (simp_all add: decode_mouse_report PackMouseReport_def reported_def clamp_report)
  then show ?thesis by (simp add: decode_report_def PackMouseReport_def mouse_format_def)
qed

lemma feed_packet:
  assumes "packet_ok mode p" "m_mode d = mode" "m_byteIndex d = 0" "length (m_bytes d) = 4" "pc_decoder ctx = d" "pc_format ctx = mouse_format"
  shows "\<exists>es ctx1. aux_steps now i (packet_bytes mode p) ctx = (es, ctx1) \<and> map snd es = [Pointer (reported p)] \<and>
    mouse_idle mode ctx1 \<and> pc_bytes ctx1 = pc_bytes ctx"
proof -
  have b: "buttons p < 32" using assms(1) by (cases mode; auto simp: packet_ok_def word_less_nat_alt)
  note f = first_byte_ok [OF b, of "sint (dx p) < 0" "0 < sint (dy p)"]
  obtain a0 a1 a2 a3 where m: "m_bytes d = [a0, a1, a2, a3]"
    using assms(4) by (auto simp: length_Suc_conv eval_nat_numeral)
  note rt = packet_round_trip [OF assms(1)]
  show ?thesis
    using rt [of "[a3]"] rt [of "[]"] f assms(2,3,5,6) decode_packet [OF assms(1)]
    by (cases mode) (auto simp: packet_bytes_def aux_step_def MousePacketDecoder_Feed_def packetLength_def m Let_def mouse_idle_def)
qed

lemma feed_packets:
  "list_all (packet_ok mode) ps \<Longrightarrow> mouse_idle mode ctx \<Longrightarrow>
    \<exists>es ctx1. aux_steps now i (concat (map (packet_bytes mode) ps)) ctx = (es, ctx1) \<and> map snd es = map (Pointer \<circ> reported) ps \<and> mouse_idle mode ctx1"
proof (induction ps arbitrary: i ctx)
  case (Cons p ps)
  from Cons.prems obtain es ctx1 where a: "aux_steps now i (packet_bytes mode p) ctx = (es, ctx1)" "map snd es = [Pointer (reported p)]" "mouse_idle mode ctx1"
    using feed_packet [of mode p "pc_decoder ctx" ctx now i] by (auto simp: mouse_idle_def)
  from Cons.IH [OF _ a(3), of "i + length (packet_bytes mode p)"] Cons.prems(1) obtain fs ctx2 where
    "aux_steps now (i + length (packet_bytes mode p)) (concat (map (packet_bytes mode) ps)) ctx1 = (fs, ctx2)"
    "map snd fs = map (Pointer \<circ> reported) ps" "mouse_idle mode ctx2" by auto
  with a show ?case by (simp add: aux_steps_append)
qed simp

lemma skip_junk: "list_all (\<lambda>b. b AND 0x08 = 0) junk \<Longrightarrow> mouse_idle mode ctx \<Longrightarrow> aux_steps now i junk ctx = ([], ctx)"
  by (induction junk arbitrary: i) (simp_all add: aux_step_def MousePacketDecoder_Feed_def mouse_idle_def)

text \<open>C10. The mouse from packets to events. When the ring of a pointer device holds the packets of a mouse in the mode negotiated,
  after any bytes that cannot start a packet, draining it pushes exactly one pointer event for every packet in order, with
  its buttons and wheel and with its motion (of nine signed bits, downwards positive) limited to \<open>127\<close> in each direction; the ring is
  then empty and the decoder waits for a packet. This holds for all three framings.\<close>

theorem mouse_pump_spec:
  assumes "ring_repr (pc_bytes ctx) bs" "bs = junk @ concat (map (packet_bytes mode) ps)" "list_all (\<lambda>b. b AND 0x08 = 0) junk"
    and "list_all (packet_ok mode) ps" "mouse_idle mode ctx"
  shows "\<exists>es ctx1. DrainAux me h now (Some (dev, Some ctx)) st =
      map_option (\<lambda>st1. (bs \<noteq> [], Some (dev, Some ctx1), st1)) (push_timed me h (Some dev) es st) \<and>
    map snd es = map (Pointer \<circ> reported) ps \<and> mouse_idle mode ctx1 \<and> ring_repr (pc_bytes ctx1) []"
proof -
  obtain es ctx1 where a: "aux_steps now (0 + length junk) (concat (map (packet_bytes mode) ps)) ctx = (es, ctx1)"
    "map snd es = map (Pointer \<circ> reported) ps" "mouse_idle mode ctx1"
    using feed_packets [OF assms(4,5)] by blast
  then have "aux_steps now 0 bs ctx = (es, ctx1)" by (simp add: assms(2) aux_steps_append skip_junk [OF assms(3,5)])
  from drain_packets_spec [OF assms(1) this] obtain r where r: "ring_repr r []"
    "\<forall>st. drain_packets me h (Some dev) now 0 ctx st = map_option (Pair (ctx1\<lparr>pc_bytes := r\<rparr>)) (push_timed me h (Some dev) es st)" by blast
  have "DrainAux me h now (Some (dev, Some ctx)) st =
      map_option (\<lambda>st1. (bs \<noteq> [], Some (dev, Some (ctx1\<lparr>pc_bytes := r\<rparr>)), st1)) (push_timed me h (Some dev) es st)"
    by (simp add: DrainAux_def r(2) option.map_comp comp_def ring_repr_empty [OF assms(1)])
  moreover have "mouse_idle mode (ctx1\<lparr>pc_bytes := r\<rparr>)" using a(3) by (simp add: mouse_idle_def)
  ultimately show ?thesis using a(2) r(1) by (intro exI [of _ es] exI [of _ "ctx1\<lparr>pc_bytes := r\<rparr>"]) simp
qed

subsection \<open>A concrete mouse\<close>

definition demo_packet :: MousePacket where
  "demo_packet = \<lparr>dx = word_of_int (- 200), dy = 3, wheel = 0, buttons = 1, isAbsolute = False\<rparr>"

definition demo_mouse :: PointerDeviceContext where
  "demo_mouse = \<lparr>pc_bytes = \<lparr>m_head = 4, m_tail = 0, m_buf = [0x01, 0x39, 0x38, 0xFD] @ replicate 252 0\<rparr>, pc_decoder = new_decoder,
     pc_format = mouse_format, pc_hidState = \<lparr>pressed = [], lockModifiers = 0\<rparr>\<rparr>"

theorem mouse_pump_spec_witness:
  "\<forall>st. \<exists>es ctx1. DrainAux 0 0 (\<lambda>_ _. 0) (Some (0, Some demo_mouse)) st =
      map_option (\<lambda>st1. (True, Some (0, Some ctx1), st1)) (push_timed 0 0 (Some 0) es st) \<and>
    map snd es = [Pointer \<lparr>dx = word_of_int (- 127), dy = 3, wheel = 0, buttons = 1, isAbsolute = False\<rparr>]"
proof
  fix st :: input_state
  let ?bs = "[0x01] @ concat (map (packet_bytes Standard3Byte) [demo_packet])"
  have "?bs = [0x01, 0x39, 0x38, 0xFD]" by code_simp
  then have "ring_repr (pc_bytes demo_mouse) ?bs" by (simp add: demo_mouse_def ring_repr_def window_def ring_size_def upt_rec)
  moreover have "list_all (\<lambda>b. b AND 0x08 = 0) [0x01 :: u8]" by simp
  moreover have "list_all (packet_ok Standard3Byte) [demo_packet]" by (simp add: packet_ok_def demo_packet_def)
  moreover have "mouse_idle Standard3Byte demo_mouse" by (simp add: mouse_idle_def demo_mouse_def new_decoder_def)
  ultimately obtain es ctx1 where "DrainAux 0 0 (\<lambda>_ _. 0) (Some (0, Some demo_mouse)) st =
      map_option (\<lambda>st1. (?bs \<noteq> [], Some (0, Some ctx1), st1)) (push_timed 0 0 (Some 0) es st)"
    "map snd es = map (Pointer \<circ> reported) [demo_packet]"
    using mouse_pump_spec [OF _ refl, of demo_mouse "[0x01]" Standard3Byte "[demo_packet]" 0 0 "\<lambda>_ _. 0" 0 st] by blast
  moreover have "reported demo_packet = \<lparr>dx = word_of_int (- 127), dy = 3, wheel = 0, buttons = 1, isAbsolute = False\<rparr>"
    by (simp add: reported_def demo_packet_def clamp_axis_def)
  ultimately show "\<exists>es ctx1. DrainAux 0 0 (\<lambda>_ _. 0) (Some (0, Some demo_mouse)) st =
      map_option (\<lambda>st1. (True, Some (0, Some ctx1), st1)) (push_timed 0 0 (Some 0) es st) \<and>
    map snd es = [Pointer \<lparr>dx = word_of_int (- 127), dy = 3, wheel = 0, buttons = 1, isAbsolute = False\<rparr>]"
    by (intro exI [of _ es] exI [of _ ctx1]) simp
qed

end
