(* ===== verification/Spec2Isabelle.thy ===== *)
theory Spec2Isabelle
  imports Avl_Tree Double_List Scheduler_Steps Wait Ring_Buffers Hid_Correct Interrupt_Dispatch Kernel_Heap Object_Tree Region Resource_Manager Boot_Files
    Handle_Correct Dc_Table Font_Correct Ps2_Mouse
begin

text \<open>
  A verification development of the UnDOS kernel.

  UnDOS is a small preemptive kernel for 386-class machines, written in C++. Its kernel
  proper (\<open>Kernel/Source/src\<close>, with the headers of \<open>Kernel/API/include/kernel\<close>) rests on a
  hardware layer (\<open>Kernel/HAL/x86_old\<close>). The development models the parts that decide who runs,
  who waits, who owns which memory and which hardware range, what a process may name, and what
  the kernel reads from the boot disk and from font files; each theory names the source it
  translates.

  \<^bold>\<open>Data structures.\<close> \<open>Avl_Tree\<close> is the intrusive AVL tree (\<open>adt/avl_tree.hpp\<close>): a tree with the
  path of parents as explicit contexts, so that \<open>insert\<close>, \<open>remove\<close> and \<open>rebalance\<close> follow the
  parent pointers of the source. \<open>Double_List\<close> is the intrusive doubly linked list on an explicit
  store of links. \<open>Ready_Queue\<close>, the per-CPU queue of threads, is proved to be such a list.
  \<open>Ring_Buffers\<close> holds the interrupt ring (also as interleaved steps of its producer and
  consumer), the byte ring of the keyboard driver and the message ring of the window system.

  \<^bold>\<open>Scheduling and waiting.\<close> \<open>Scheduler\<close> translates \<open>scheduler/Scheduler.cpp\<close>: the per-CPU contexts, the
  pick-and-requeue decision, the context switch with the registers it saves, and the entry
  points. \<open>Scheduler_Invariant\<close> proves that every entry point keeps the queues, the running
  threads and the links consistent; \<open>Scheduler_Steps\<close> collects the entry points into a step
  relation and proves reachability properties and the scheduling policy. \<open>Dispatcher\<close> and \<open>Wait\<close>
  hold dispatcher headers, wait blocks, timed waits and signals (\<open>KDispatcherHeader.hpp\<close>,
  \<open>wait.hpp\<close>, \<open>wait.cpp\<close>); \<open>KE_SCHED_WaitForHeader\<close> is split at its lock boundaries so that a signal can
  come between its parts.

  \<^bold>\<open>Interrupts and input.\<close> \<open>Interrupt_Dispatch\<close> is the handler registry and the drain loop of the
  dispatch thread; \<open>Input_Manager\<close> the event ring with its merging of pointer motion and the
  reports of keyboards, mice and gamepads. \<open>Hid_Parser\<close> is the driver in front of it
  (\<open>Drivers/input_hid\<close>): the report-descriptor parser, field extraction, the keyboard tables and the
  decoder that pushes events; \<open>Hid_Correct\<close> proves the shape of accepted descriptors, the value of a
  field and that presses and releases alternate. \<open>Ps2_Driver\<close> is the byte side of the PS/2 driver (\<open>Drivers/input_i8042\<close>):
  scan code translation, mouse packets, the reports made of them and the loops of the pump thread.
  \<open>Ps2_Correct\<close> proves that scan codes decode to what was typed and that a report names the keys held,
  \<open>Ps2_Pump\<close> and \<open>Ps2_Mouse\<close> follow the bytes of both devices through the HID driver to the events pushed.

  \<^bold>\<open>Memory.\<close> \<open>Phys_Memory\<close> is the frame bitmap (\<open>pmm.cpp\<close>). \<open>Page_Tables\<close> translates the page-table code
  of the hardware layer (\<open>vmm.cpp\<close>) onto a physical memory of 32-bit words: the processor's walk is
  modelled, and the code reaches the tables through the recursive window as the source does.
  \<open>Address_Translation\<close> states the invariant of all registered page directories and proves what
  mapping, unmapping, creating and destroying do to the translation of every address space.
  \<open>Address_Space\<close> is the descriptor tree and region reservation of the kernel's \<open>vmm.cpp\<close> (the AVL tree
  with the order and the range lookup of descriptors), \<open>Vm_Operations\<close> its operations on pages, and
  \<open>Vm_Correct\<close> and \<open>Page_Faults\<close> prove the fixed mapping and the page-fault handler correct.
  \<open>Slab_Heap\<close> is the slab allocator (\<open>memory/Layout.cpp\<close>, \<open>Slab.cpp\<close>, \<open>Cache.cpp\<close>, \<open>Allocator.cpp\<close>) with
  \<open>KE_Malloc\<close> and \<open>KE_Free\<close>, \<open>Slab_Correct\<close> its invariant over free lists, cache lists and registry,
  and \<open>Kernel_Heap\<close> what callers of the heap may rely on.

  \<^bold>\<open>Objects.\<close> \<open>Object_Manager\<close> translates \<open>object_manager.cpp\<close>: objects with reference counts in a store, the tree of
  directories, path lookup, unique names and release with the destructor of directories;
  \<open>Object_Tree\<close> states the invariant of the tree and what insertion, removal and lookup do.

  \<^bold>\<open>Hardware resources and clipping.\<close> \<open>Resource_Manager\<close> is the reservation of ports, memory ranges,
  interrupts and DMA channels; \<open>Region\<close> the clip regions of the window manager as sets of pixels.

  \<^bold>\<open>Handles.\<close> \<open>Handle_Table\<close> is the handle table of a process (\<open>kobject/KProcessObject.hpp\<close>): entries,
  reservations and their tokens, rights, standard streams, inheritance with its rollback.
  \<open>Handle_Correct\<close> proves that it refines a map from handles to slots, that a reservation stays
  bindable and a used token dead, and what a child inherits. \<open>Dc_Table\<close> is the table of device contexts
  (\<open>gfx/gfx_dc_table.cpp\<close>) with generations in its handles. Both interpret \<open>handle_space\<close> of
  \<open>Capability\<close>, the contract of a space of handles.

  \<^bold>\<open>Fonts.\<close> \<open>Font_Resource\<close> translates the validator of font resources (\<open>ABI/src/font_resource.cpp\<close>), which decides
  whether bytes from a user process are read by the kernel afterwards, and the glyph lookup of
  \<open>gfx/font/face.cpp\<close>. \<open>Font_Correct\<close> proves that the validator is memory safe on every input, what acceptance
  guarantees, and that lookup in an accepted font is right.

  \<^bold>\<open>Boot files.\<close> \<open>Partition_Table\<close> parses MBR and GPT tables, \<open>Mini_Fat\<close> translates the FAT16 reader, and
  \<open>Boot_Files\<close> characterises what it reads by cluster chains and path resolution.

  \<^bold>\<open>Conventions.\<close> A structure is a record, an enumeration a datatype, a machine integer a word of
  its width (\<open>size_t\<close> and pointers are 32 bits wide). An error code is a value of \<open>KernelError\<close>, an
  \<open>expected\<close> a sum whose left side is the error. \<open>None\<close> stands for what the program must not do: a
  fault of the processor, a panic, an access outside an array, or a loop that does not end; a
  theorem that an operation returns \<open>Some\<close> therefore includes that it is safe. Loops over links
  use \<open>partial_function (option)\<close>, loops with a counter or a guard are recursive in the counter (4096 and
  65536 iterations in the FAT reader, as in the source; 2 to the 20 pages when an address
  space is torn down, which is every page there is). Interfaces between components are locales
  interpreted on the model's own definitions: the order and the range lookup that the tree
  needs are provided by the virtual address descriptors and by the slabs of the heap.
  The growth of the handle lists is taken to succeed, as their source takes it.

  \<^bold>\<open>Parameters.\<close> The outcome of a heap allocation in its users, the creation of kernel objects, the
  sizes of the slab's control structures and the sector read of the boot device are arguments of the
  operations that use them; no theorem assumes that an allocation succeeds unless it says so.
  Closing a file and the destructors of other objects than directories are arguments of the release.

  \<^bold>\<open>Not modelled.\<close> TLB shoot-downs, spin locks and the interrupt flag have no counterpart: operations
  under a lock are atomic, and the interleavings modelled are those between such operations.
  Process creation and the loaders, plug and play, configuration, the file system switch and the
  system calls are not modelled: they are callbacks and argument copying around the managers above. Drawing,
  font rendering, windows and the register-level device drivers are not modelled either; the boot loader, the C runtime, the support library, applications, tools and
  tests are outside the kernel's own logic.
\<close>

end
